(* ===== verification/Prelude.thy ===== *)
theory Prelude
  imports Main "HOL-Library.Word"
begin

text \<open>
  Shared vocabulary of the development: the panics of the Go program, its results, and the
  semantics of the JavaScript number operators the compiled code is written in.  A JavaScript
  number of the bundle that holds an integer is an \<open>int\<close>; the operators that convert to 32 bits
  (\<open>>>0\<close>, \<open>>>>0\<close>, \<open><<\<close>, \<open>|\<close>, \<open>&\<close>, \<open>Math.imul\<close>) are the functions \<open>js_*\<close> below.  All integer
  intermediates of the modelled code stay below \<open>2 ^ 53\<close>, where double arithmetic is exact
  (lemma \<open>mul64_exact\<close> of \<open>Runtime_Int64\<close> states it for the one routine that sums products).
\<close>

unbundle bit_operations_syntax

named_theorems js_defs \<open>definitions of the JavaScript operators\<close>
named_theorems res_simps \<open>evaluation of results\<close>

section \<open>Panics and results\<close>

text \<open>
  \<open>RuntimeError\<close> is what \<open>$throwRuntimeError\<close> raises, \<open>Panic\<close> what \<open>$panic\<close> raises with a string.
\<close>

datatype go_panic = RuntimeError string | Panic string

type_synonym 'a res = "go_panic + 'a"

definition res_bind :: "'a res \<Rightarrow> ('a \<Rightarrow> 'b res) \<Rightarrow> 'b res" where
  "res_bind r f = (case r of Inl p \<Rightarrow> Inl p | Inr x \<Rightarrow> f x)"

lemma res_bind_simps [simp, res_simps]:
  "res_bind (Inl p) f = Inl p"
  "res_bind (Inr x) f = f x"
  by (simp_all add: res_bind_def)

lemma res_bind_Inr_iff:
  "res_bind r f = Inr y \<longleftrightarrow> (\<exists>x. r = Inr x \<and> f x = Inr y)"
  by (cases r) simp_all

section \<open>JavaScript's 32-bit operators\<close>

definition ToInt32 :: "int \<Rightarrow> int" where
  "ToInt32 x = signed_take_bit 31 x"

definition ToUint32 :: "int \<Rightarrow> int" where
  "ToUint32 x = take_bit 32 x"

definition js_shl :: "int \<Rightarrow> nat \<Rightarrow> int" where
  "js_shl x n = ToInt32 (push_bit (n mod 32) (ToInt32 x))"

definition js_sar :: "int \<Rightarrow> nat \<Rightarrow> int" where
  "js_sar x n = drop_bit (n mod 32) (ToInt32 x)"

definition js_shr :: "int \<Rightarrow> nat \<Rightarrow> int" where
  "js_shr x n = drop_bit (n mod 32) (ToUint32 x)"

definition js_or :: "int \<Rightarrow> int \<Rightarrow> int" where
  "js_or x y = ToInt32 x OR ToInt32 y"

definition js_and :: "int \<Rightarrow> int \<Rightarrow> int" where
  "js_and x y = ToInt32 x AND ToInt32 y"

definition js_imul :: "int \<Rightarrow> int \<Rightarrow> int" where
  "js_imul x y = ToInt32 (x * y)"

lemmas js_op_defs [js_defs] =
  ToInt32_def ToUint32_def js_shl_def js_sar_def js_shr_def js_or_def js_and_def js_imul_def

lemma ToInt32_range: "- (2 ^ 31) \<le> ToInt32 x \<and> ToInt32 x < 2 ^ 31"
  unfolding ToInt32_def
  using signed_take_bit_int_greater_eq_minus_exp [of 31 x] signed_take_bit_int_less_exp [of 31 x]
  by simp

lemma ToUint32_range: "0 \<le> ToUint32 x \<and> ToUint32 x < 2 ^ 32"
  by (simp add: ToUint32_def take_bit_eq_mod)

lemma ToUint32_mod: "ToUint32 x = x mod 2 ^ 32"
  by (simp add: ToUint32_def take_bit_eq_mod)

lemma ToInt32_id: "- (2 ^ 31) \<le> x \<Longrightarrow> x < 2 ^ 31 \<Longrightarrow> ToInt32 x = x"
  unfolding ToInt32_def by (rule signed_take_bit_int_eq_self) simp_all

lemma ToUint32_id: "0 \<le> x \<Longrightarrow> x < 2 ^ 32 \<Longrightarrow> ToUint32 x = x"
  by (simp add: ToUint32_mod)

lemma ToInt32_of_mod: "ToInt32 (x mod 2 ^ 32) = ToInt32 x"
proof -
  have "signed_take_bit 31 (take_bit 32 x) = signed_take_bit 31 x" by (simp add: signed_take_bit_take_bit)
  then show ?thesis by (simp only: ToInt32_def take_bit_eq_mod)
qed

lemma ToInt32_mod: "ToInt32 x mod 2 ^ 32 = x mod 2 ^ 32"
proof -
  have "take_bit 32 (signed_take_bit 31 x) = take_bit 32 x"
    by (simp add: take_bit_signed_take_bit)
  then show ?thesis by (simp add: ToInt32_def take_bit_eq_mod)
qed

text \<open>The operators as arithmetic, up to multiples of \<open>2 ^ 32\<close>.\<close>

lemma mod_ToInt32 [simp]: "take_bit 32 (ToInt32 x) = take_bit 32 x"
  by (simp add: ToInt32_def take_bit_signed_take_bit)

lemma mod_ToUint32 [simp]: "take_bit 32 (ToUint32 x) = take_bit 32 x"
  by (simp add: ToUint32_def)

lemma take_bit_js_shl: "n < 32 \<Longrightarrow> take_bit 32 (js_shl x n) = take_bit 32 (x * 2 ^ n)"
proof -
  assume n: "n < 32"
  have "take_bit 32 (js_shl x n) = take_bit 32 (ToInt32 x * 2 ^ n)"
    using n by (simp add: js_shl_def push_bit_eq_mult)
  also have "\<dots> = take_bit 32 (take_bit 32 (ToInt32 x) * 2 ^ n)"
    by (simp only: take_bit_eq_mod mod_mult_left_eq)
  also have "\<dots> = take_bit 32 (x * 2 ^ n)"
    by (simp only: mod_ToInt32) (simp only: take_bit_eq_mod mod_mult_left_eq)
  finally show ?thesis .
qed

lemma js_shr_eq: "n < 32 \<Longrightarrow> js_shr x n = (x mod 2 ^ 32) div 2 ^ n"
  by (simp add: js_shr_def ToUint32_mod drop_bit_eq_div)

lemma js_shr_0: "js_shr x 0 = x mod 2 ^ 32"
  by (simp add: js_shr_eq)

lemma js_sar_eq: "n < 32 \<Longrightarrow> js_sar x n = ToInt32 x div 2 ^ n"
  by (simp add: js_sar_def drop_bit_eq_div)

lemma pow_dvd_take_bit:
  fixes x :: int
  assumes "2 ^ i dvd x" "i \<le> 32"
  shows "2 ^ i dvd take_bit 32 x"
proof -
  have "(2::int) ^ i dvd 2 ^ 32" using assms(2) by (rule le_imp_power_dvd)
  with assms(1) show ?thesis unfolding take_bit_eq_mod by (simp only: dvd_mod_iff)
qed

lemma pow2_split: "n \<le> m \<Longrightarrow> (2::int) ^ n * 2 ^ (m - n) = 2 ^ m"
  by (simp only: power_add [symmetric] le_add_diff_inverse)

lemma dvd_js_shl:
  assumes "n < 32"
  shows "2 ^ n dvd js_shl x n"
proof -
  have "2 ^ n dvd take_bit 32 (js_shl x n)"
    using assms by (simp add: take_bit_js_shl pow_dvd_take_bit)
  moreover have "(2::int) ^ n dvd 2 ^ 32" using assms by (intro le_imp_power_dvd) simp
  ultimately show ?thesis by (simp only: take_bit_eq_mod dvd_mod_iff)
qed

lemma int_div_less:
  fixes a c d :: int
  assumes "0 < c" "a < d * c"
  shows "a div c < d"
proof (rule ccontr)
  assume "\<not> a div c < d"
  then have "d * c \<le> (a div c) * c" using assms(1) by simp
  also have "\<dots> \<le> a" using assms(1) by (metis div_mod_decomp_int le_add_same_cancel1 pos_mod_sign)
  finally show False using assms(2) by simp
qed

lemma take_bit_add_cong:
  fixes a b a' b' :: int
  shows "take_bit n a = take_bit n a' \<Longrightarrow> take_bit n b = take_bit n b' \<Longrightarrow>
    take_bit n (a + b) = take_bit n (a' + b')"
  by (simp only: take_bit_eq_mod) (rule mod_add_cong)

lemma take_bit_mult_cong:
  fixes a b a' b' :: int
  shows "take_bit n a = take_bit n a' \<Longrightarrow> take_bit n b = take_bit n b' \<Longrightarrow>
    take_bit n (a * b) = take_bit n (a' * b')"
  by (simp only: take_bit_eq_mod) (rule mod_mult_cong)

text \<open>Or of a multiple of \<open>2 ^ i\<close> and a number below \<open>2 ^ i\<close> is their sum.\<close>

lemma or_eq_plus:
  fixes x y :: int
  assumes "2 ^ i dvd x" "0 \<le> y" "y < 2 ^ i"
  shows "x OR y = x + y"
proof -
  have "take_bit i x = 0" using assms(1) by (simp add: take_bit_eq_0_iff)
  moreover have y: "take_bit i y = y" using assms(2,3) by (simp add: take_bit_int_eq_self)
  have "x AND y = 0"
  proof (rule bit_eqI)
    fix n
    show "bit (x AND y) n = bit (0::int) n"
    proof (cases "n < i")
      case True
      with \<open>take_bit i x = 0\<close> have "\<not> bit x n" by (metis bit_0_eq bit_take_bit_iff bot_apply bot_bool_def)
      then show ?thesis by (simp add: bit_and_iff)
    next
      case False
      then have "\<not> bit y n" by (metis bit_take_bit_iff y)
      then show ?thesis by (simp add: bit_and_iff)
    qed
  qed
  then show ?thesis by (simp add: disjunctive_add_eq_or)
qed

lemma take_bit_js_or:
  assumes "2 ^ i dvd x" "i \<le> 32" "0 \<le> y" "y < 2 ^ i"
  shows "take_bit 32 (js_or x y) = take_bit 32 (x + y)"
proof -
  have "take_bit 32 (js_or x y) = take_bit 32 x OR take_bit 32 y"
    by (simp add: js_or_def)
  also have "take_bit 32 y = y"
  proof -
    have "(2::int) ^ i \<le> 2 ^ 32" using assms(2) by (rule power_increasing) simp
    with assms(3,4) show ?thesis by (simp add: take_bit_int_eq_self_iff)
  qed
  also have "take_bit 32 x OR y = take_bit 32 x + y"
    by (rule or_eq_plus [of i]) (use assms in \<open>auto intro: pow_dvd_take_bit\<close>)
  also have "\<dots> = take_bit 32 (take_bit 32 x + y)"
  proof -
    let ?t = "take_bit 32 x"
    have "?t + y = ?t OR y"
      by (rule or_eq_plus [of i, symmetric])
        (use assms in \<open>auto intro: pow_dvd_take_bit\<close>)
    also have "\<dots> = take_bit 32 (?t OR y)"
      using \<open>take_bit 32 y = y\<close> by simp
    finally show ?thesis
      using \<open>?t + y = ?t OR y\<close> by simp
  qed
  also have "\<dots> = take_bit 32 (x + y)" by (simp add: take_bit_eq_mod mod_add_left_eq)
  finally show ?thesis .
qed

text \<open>An indexed read of an array, \<open>$throwRuntimeError\<close> outside its bounds.\<close>

definition js_index :: "'a list \<Rightarrow> int \<Rightarrow> 'a res" where
  "js_index xs i =
     (if i < 0 \<or> i \<ge> int (length xs) then Inl (RuntimeError ''index out of range'') else Inr (xs ! nat i))"

lemma js_index_ok: "0 \<le> i \<Longrightarrow> i < int (length xs) \<Longrightarrow> js_index xs i = Inr (xs ! nat i)"
  by (simp add: js_index_def)

text \<open>
  Isolating the lowest set bit: a number that is \<open>2 ^ k\<close> times an odd number, and-ed with its
  negation, is \<open>2 ^ k\<close>.
\<close>

lemma odd_and_minus: "odd (x::int) \<Longrightarrow> x AND - x = 1"
proof -
  assume "odd x"
  then obtain m where x: "x = 2 * m + 1" by (rule oddE)
  have neg: "- x = NOT (2 * m)" by (simp add: x not_int_def minus_diff_commute)
  have "bit x n \<and> bit (- x) n \<longleftrightarrow> n = 0" for n
  proof (cases n)
    case 0
    then show ?thesis by (simp add: x bit_0)
  next
    case (Suc k)
    have "bit x (Suc k) = bit m k" by (simp add: x bit_Suc)
    moreover have "bit (- x) (Suc k) = (\<not> bit m k)"
      by (simp only: neg bit_not_int_iff) (simp add: bit_Suc)
    ultimately show ?thesis by (simp add: Suc)
  qed
  then show ?thesis by (intro bit_eqI) (simp add: bit_and_iff bit_1_iff)
qed

lemma lowest_bit:
  assumes "odd (m::int)" "x = 2 ^ k * m"
  shows "x AND - x = 2 ^ k"
proof -
  have "x = push_bit k m" "- x = push_bit k (- m)" by (simp_all add: assms(2) push_bit_eq_mult mult.commute)
  then have "x AND - x = push_bit k (m AND - m)" by simp
  then show ?thesis using assms(1) by (simp add: odd_and_minus push_bit_eq_mult)
qed

text \<open>Every non-zero number below \<open>2 ^ n\<close> is such a product with \<open>k < n\<close>.\<close>

lemma odd_part:
  assumes "0 < x" "x < 2 ^ n"
  shows "\<exists>k m. k < n \<and> odd m \<and> (x::int) = 2 ^ k * m"
  using assms
proof (induction n arbitrary: x)
  case (Suc n)
  show ?case
  proof (cases "odd x")
    case True
    then have "0 < Suc n \<and> odd x \<and> x = 2 ^ 0 * x" by simp
    then show ?thesis by blast
  next
    case False
    then obtain y where y: "x = 2 * y" by blast
    with Suc.prems obtain k m where "k < n" "odd m" "y = 2 ^ k * m"
      using Suc.IH [of y] by auto
    with y have "Suc k < Suc n \<and> odd m \<and> x = 2 ^ Suc k * m" by simp
    then show ?thesis by blast
  qed
qed simp

text \<open>The bitwise operators on numbers split into a high part and 32 low bits.\<close>

lemma pair_as_or: "0 \<le> l \<Longrightarrow> l < 2 ^ 32 \<Longrightarrow> h * 2 ^ 32 + l = push_bit 32 h OR (l::int)"
  using or_eq_plus [of 32 "push_bit 32 h" l] by (simp add: push_bit_eq_mult)

lemma low_no_high_bit: "0 \<le> l \<Longrightarrow> l < 2 ^ 32 \<Longrightarrow> 32 \<le> n \<Longrightarrow> \<not> bit (l::int) n"
proof -
  assume l: "0 \<le> l" "l < 2 ^ 32" "32 \<le> n"
  then have "take_bit 32 l = l" by (simp add: take_bit_int_eq_self)
  then show ?thesis using l(3) by (metis bit_take_bit_iff not_le)
qed

lemma and_pair:
  fixes h h' l l' :: int
  assumes "0 \<le> l" "l < 2 ^ 32" "0 \<le> l'" "l' < 2 ^ 32"
  shows "(h * 2 ^ 32 + l) AND (h' * 2 ^ 32 + l') = (h AND h') * 2 ^ 32 + (l AND l')"
proof -
  have l: "0 \<le> l AND l'" "l AND l' < 2 ^ 32"
    using assms AND_upper1 [of l l'] by simp_all
  show ?thesis
    unfolding pair_as_or [OF assms(1,2)] pair_as_or [OF assms(3,4)] pair_as_or [OF l]
    by (rule bit_eqI) (use low_no_high_bit [OF assms(1,2)] low_no_high_bit [OF assms(3,4)] in \<open>auto simp: bit_simps not_le\<close>)
qed

lemma or_pair:
  fixes h h' l l' :: int
  assumes "0 \<le> l" "l < 2 ^ 32" "0 \<le> l'" "l' < 2 ^ 32"
  shows "(h * 2 ^ 32 + l) OR (h' * 2 ^ 32 + l') = (h OR h') * 2 ^ 32 + (l OR l')"
proof -
  have l: "0 \<le> l OR l'" "l OR l' < 2 ^ 32"
    using assms OR_upper [of l 32 l'] by simp_all
  show ?thesis
    unfolding pair_as_or [OF assms(1,2)] pair_as_or [OF assms(3,4)] pair_as_or [OF l]
    by (rule bit_eqI) (use low_no_high_bit [OF assms(1,2)] low_no_high_bit [OF assms(3,4)] in \<open>auto simp: bit_simps not_le\<close>)
qed

text \<open>Division truncating towards zero, Go's \<open>/\<close> and \<open>%\<close> on integers.\<close>

definition tdiv :: "int \<Rightarrow> int \<Rightarrow> int" where
  "tdiv a b = sgn a * sgn b * (\<bar>a\<bar> div \<bar>b\<bar>)"

definition tmod :: "int \<Rightarrow> int \<Rightarrow> int" where
  "tmod a b = sgn a * (\<bar>a\<bar> mod \<bar>b\<bar>)"

text \<open>Sequencing of computations that may panic and may not end.\<close>

definition bind2 :: "'a res option \<Rightarrow> ('a \<Rightarrow> 'b res option) \<Rightarrow> 'b res option" where
  "bind2 r f = (case r of None \<Rightarrow> None | Some (Inl p) \<Rightarrow> Some (Inl p) | Some (Inr x) \<Rightarrow> f x)"

lemma bind2_simps [simp]: "bind2 (Some (Inr x)) f = f x" "bind2 (Some (Inl p)) f = Some (Inl p)" "bind2 None f = None"
  by (simp_all add: bind2_def)

lemma bind2_mono [partial_function_mono]:
  assumes "mono_option B" "\<And>y. mono_option (\<lambda>f. C y f)"
  shows "mono_option (\<lambda>f. bind2 (B f) (\<lambda>y. C y f))"
proof (rule monotoneI)
  fix f g :: "'a \<Rightarrow> 'b option"
  assume fg: "fun_ord option_ord f g"
  then have "option_ord (B f) (B g)" using assms(1) by (rule monotoneD [rotated])
  moreover have "option_ord (C y f) (C y g)" for y using fg assms(2) [of y] by (rule monotoneD [rotated])
  ultimately show "option_ord (bind2 (B f) (\<lambda>y. C y f)) (bind2 (B g) (\<lambda>y. C y g))"
  proof (cases "B f")
    case (Some r)
    with \<open>option_ord (B f) (B g)\<close> have "B g = Some r" by (simp add: flat_ord_def)
    with Some \<open>\<And>y. option_ord (C y f) (C y g)\<close> show ?thesis by (cases r) (simp_all add: flat_ord_def)
  qed (simp add: flat_ord_def)
qed

end
