(* ===== verification/Runtime_Slice.thy ===== *)
theory Runtime_Slice
  imports Prelude
begin

text \<open>
  Slices of the Go-to-JavaScript runtime: \<open>$makeSlice\<close>, \<open>$subslice\<close>, \<open>$copyArray\<close>, \<open>$copySlice\<close>,
  \<open>$append\<close>, \<open>$appendSlice\<close> and \<open>$sliceToArray\<close>.  A slice object is a window (\<open>$offset\<close>,
  \<open>$length\<close>, \<open>$capacity\<close>) on a JavaScript array; several slices may share one array, so arrays
  live in a store and the operations return the changed store.  Array elements are of any type;
  \<open>typed\<close> says whether the array is a typed array (it has a \<open>subarray\<close> method), which selects the
  branch of \<open>$copyArray\<close> and of \<open>$internalAppend\<close>.
\<close>

section \<open>Data\<close>

record slice =
  s_array :: nat      \<comment> \<open>address of \<open>$array\<close>\<close>
  s_offset :: nat     \<comment> \<open>\<open>$offset\<close>\<close>
  s_length :: nat     \<comment> \<open>\<open>$length\<close>\<close>
  s_capacity :: nat   \<comment> \<open>\<open>$capacity\<close>\<close>
  s_nil :: bool       \<comment> \<open>the object is \<open>constructor.nil\<close>\<close>

record 'a store =
  arrays :: "nat \<Rightarrow> 'a list"
  fresh :: nat        \<comment> \<open>addresses from here on are unused\<close>

definition alloc :: "'a store \<Rightarrow> 'a list \<Rightarrow> nat \<times> 'a store" where
  "alloc h xs = (fresh h, h\<lparr>arrays := (arrays h)(fresh h := xs), fresh := Suc (fresh h)\<rparr>)"

section \<open>Operations\<close>

definition makeSlice :: "'a \<Rightarrow> 'a store \<Rightarrow> int \<Rightarrow> int option \<Rightarrow> (slice \<times> 'a store) res" where
  "makeSlice zero h n r0 =
     (let r = (case r0 of None \<Rightarrow> n | Some r' \<Rightarrow> if r' = 0 then n else r')
      in if n < 0 \<or> n > 2147483647 then Inl (RuntimeError ''makeslice: len out of range'')
         else if r < 0 \<or> r < n \<or> r > 2147483647 then Inl (RuntimeError ''makeslice: cap out of range'')
         else let (p, h') = alloc h (replicate (nat r) zero)
              in Inr (\<lparr>s_array = p, s_offset = 0, s_length = nat n, s_capacity = nat r, s_nil = False\<rparr>, h'))"

definition subslice :: "slice \<Rightarrow> int \<Rightarrow> int option \<Rightarrow> int option \<Rightarrow> slice res" where
  "subslice e n r0 t0 =
     (let r = (case r0 of None \<Rightarrow> int (s_length e) | Some r' \<Rightarrow> r');
          t = (case t0 of None \<Rightarrow> int (s_capacity e) | Some t' \<Rightarrow> t')
      in if n < 0 \<or> r < n \<or> t < r \<or> r > int (s_capacity e) \<or> t > int (s_capacity e)
         then Inl (RuntimeError ''slice bounds out of range'')
         else if s_nil e then Inr e
         else Inr \<lparr>s_array = s_array e, s_offset = s_offset e + nat n, s_length = nat (r - n),
                   s_capacity = nat (t - n), s_nil = False\<rparr>)"

definition sliceToArray :: "'a store \<Rightarrow> slice \<Rightarrow> 'a list" where
  "sliceToArray h e = take (s_length e) (drop (s_offset e) (arrays h (s_array e)))"

text \<open>
  \<open>$copyArray(dst, src, doff, soff, n)\<close>.  The two loops assign element by element, upwards or, when
  the regions are in one array and the target lies above the source, downwards.
\<close>

definition assign :: "nat \<Rightarrow> nat \<Rightarrow> nat \<Rightarrow> nat \<Rightarrow> nat \<Rightarrow> 'a store \<Rightarrow> 'a store" where
  "assign d s doff soff i h =
     h\<lparr>arrays := (arrays h)(d := (arrays h d)[doff + i := arrays h s ! (soff + i)])\<rparr>"

definition copyArray :: "bool \<Rightarrow> nat \<Rightarrow> nat \<Rightarrow> nat \<Rightarrow> nat \<Rightarrow> nat \<Rightarrow> 'a store \<Rightarrow> 'a store" where
  "copyArray typed d s doff soff n h =
     (if n = 0 \<or> (d = s \<and> doff = soff) then h
      else if typed then
        h\<lparr>arrays := (arrays h)(d := take doff (arrays h d) @ take n (drop soff (arrays h s))
                                     @ drop (doff + n) (arrays h d))\<rparr>
      else if d = s \<and> doff > soff then fold (assign d s doff soff) (rev [0..<n]) h
      else fold (assign d s doff soff) [0..<n] h)"

definition copySlice :: "bool \<Rightarrow> 'a store \<Rightarrow> slice \<Rightarrow> slice \<Rightarrow> nat \<times> 'a store" where
  "copySlice typed h e n =
     (let r = min (s_length n) (s_length e)
      in (r, copyArray typed (s_array e) (s_array n) (s_offset e) (s_offset n) r h))"

text \<open>
  \<open>$internalAppend(e, n, r, t)\<close> for a source array \<open>n\<close> of the store: grow by doubling below 1024
  elements and by a quarter above, or write into the spare capacity in place.
\<close>

definition grow_capacity :: "nat \<Rightarrow> nat \<Rightarrow> nat" where
  "grow_capacity needed c = max needed (if c < 1024 then 2 * c else (5 * c) div 4)"

definition internalAppend :: "bool \<Rightarrow> 'a \<Rightarrow> 'a store \<Rightarrow> slice \<Rightarrow> nat \<Rightarrow> nat \<Rightarrow> nat \<Rightarrow> slice \<times> 'a store" where
  "internalAppend typed zero h e src r t =
     (if t = 0 then (e, h)
      else
        let newlen = s_length e + t
        in if newlen > s_capacity e then
             let c = grow_capacity newlen (s_capacity e);
                 (p, h1) = alloc h (sliceToArray h e @ replicate (c - s_length e) zero);
                 h2 = copyArray typed p src (s_length e) r t h1
             in (\<lparr>s_array = p, s_offset = 0, s_length = newlen, s_capacity = c, s_nil = False\<rparr>, h2)
           else
             (\<lparr>s_array = s_array e, s_offset = s_offset e, s_length = newlen,
               s_capacity = s_capacity e, s_nil = False\<rparr>,
              copyArray typed (s_array e) src (s_offset e + s_length e) r t h))"

definition appendSlice :: "bool \<Rightarrow> 'a \<Rightarrow> 'a store \<Rightarrow> slice \<Rightarrow> slice \<Rightarrow> slice \<times> 'a store" where
  "appendSlice typed zero h e n = internalAppend typed zero h e (s_array n) (s_offset n) (s_length n)"

text \<open>\<open>$append(e, x1, ..., xk)\<close>: the source is the function's \<open>arguments\<close> object, from index 1.\<close>

definition append_args :: "bool \<Rightarrow> 'a \<Rightarrow> 'a store \<Rightarrow> slice \<Rightarrow> 'a list \<Rightarrow> slice \<times> 'a store" where
  "append_args typed zero h e xs =
     (let (p, h1) = alloc h (zero # xs)
      in internalAppend typed zero h1 e p 1 (length xs))"

section \<open>Well-formed slices\<close>

definition wf_slice :: "'a store \<Rightarrow> slice \<Rightarrow> bool" where
  "wf_slice h e \<longleftrightarrow> s_array e < fresh h \<and> s_length e \<le> s_capacity e \<and>
     s_offset e + s_capacity e \<le> length (arrays h (s_array e)) \<and> (s_nil e \<longrightarrow> s_capacity e = 0)"

lemma length_sliceToArray [simp]: "wf_slice h e \<Longrightarrow> length (sliceToArray h e) = s_length e"
  by (auto simp: wf_slice_def sliceToArray_def)

lemma alloc_simps [simp]:
  "fst (alloc h xs) = fresh h"
  "fresh (snd (alloc h xs)) = Suc (fresh h)"
  "arrays (snd (alloc h xs)) = (arrays h)(fresh h := xs)"
  by (simp_all add: alloc_def)

lemma makeSlice_ok:
  assumes "0 \<le> n" "n \<le> 2147483647"
  shows "\<exists>s h'. makeSlice zero h n None = Inr (s, h') \<and> wf_slice h' s \<and>
     sliceToArray h' s = replicate (nat n) zero"
  using assms by (simp add: makeSlice_def alloc_def wf_slice_def sliceToArray_def)

theorem subslice_contents:
  assumes "wf_slice h e" "subslice e n (Some r) None = Inr s" "r \<le> int (s_length e)"
  shows "wf_slice h s \<and> sliceToArray h s = drop (nat n) (take (nat r) (sliceToArray h e))"
proof (cases "s_nil e")
  case True
  with assms show ?thesis
    by (auto simp: subslice_def Let_def wf_slice_def sliceToArray_def split: if_splits)
next
  case False
  from assms(2) False have b: "0 \<le> n" "n \<le> r"
    and s: "s = \<lparr>s_array = s_array e, s_offset = s_offset e + nat n, s_length = nat (r - n),
               s_capacity = nat (int (s_capacity e) - n), s_nil = False\<rparr>"
    by (auto simp: subslice_def Let_def split: if_splits)
  have nats: "nat (r - n) = nat r - nat n" "nat n \<le> nat r" "nat r \<le> s_length e"
    "nat (int (s_capacity e) - n) = s_capacity e - nat n"
    using b assms(3) by linarith+
  have "sliceToArray h s = take (nat r - nat n) (drop (nat n) (drop (s_offset e) (arrays h (s_array e))))"
    by (simp add: s sliceToArray_def nats(1) add.commute)
  also have "\<dots> = drop (nat n) (take (nat r) (drop (s_offset e) (arrays h (s_array e))))"
    by (simp only: drop_take)
  also have "take (nat r) (drop (s_offset e) (arrays h (s_array e))) = take (nat r) (sliceToArray h e)"
    using nats(3) by (simp add: sliceToArray_def min_absorb1)
  finally show ?thesis
    using assms(1) nats by (simp add: s wf_slice_def diff_le_mono)
qed

section \<open>Copying is a simultaneous move\<close>

definition moved :: "nat \<Rightarrow> nat \<Rightarrow> nat \<Rightarrow> 'a list \<Rightarrow> 'a list \<Rightarrow> 'a list" where
  "moved doff soff n dst src = take doff dst @ take n (drop soff src) @ drop (doff + n) dst"

text \<open>What a run of assignments leaves in each array, for the two directions.\<close>

lemma assign_other [simp]: "p \<noteq> d \<Longrightarrow> arrays (assign d s doff soff i h) p = arrays h p"
  by (simp add: assign_def)

lemma assign_same:
  "arrays (assign d s doff soff i h) d = (arrays h d)[doff + i := arrays h s ! (soff + i)]"
  by (simp add: assign_def)

lemma fresh_assign [simp]: "fresh (assign d s doff soff i h) = fresh h"
  by (simp add: assign_def)

lemma fold_assign_other: "p \<noteq> d \<Longrightarrow> arrays (fold (assign d s doff soff) is h) p = arrays h p"
  by (induction "is" arbitrary: h) simp_all

lemma fresh_fold_assign: "fresh (fold (assign d s doff soff) is h) = fresh h"
  by (induction "is" arbitrary: h) simp_all

lemma length_fold_assign [simp]:
  "length (arrays (fold (assign d s doff soff) is h) d) = length (arrays h d)"
proof (induction "is" arbitrary: h)
  case (Cons i "is")
  then show ?case by (simp add: assign_same)
qed simp

lemma assign_fold_up:
  assumes "d \<noteq> s \<or> doff \<le> soff" "doff + k \<le> length (arrays h d)"
  shows "arrays (fold (assign d s doff soff) [0..<k] h) d ! j
       = (if doff \<le> j \<and> j < doff + k then arrays h s ! (soff + (j - doff)) else arrays h d ! j)"
  using assms(2)
proof (induction k arbitrary: j)
  case 0
  then show ?case by auto
next
  case (Suc k)
  let ?h = "fold (assign d s doff soff) [0..<k] h"
  have src: "arrays ?h s ! (soff + k) = arrays h s ! (soff + k)"
  proof (cases "d = s")
    case True
    then show ?thesis using Suc assms(1) by auto
  next
    case False
    then show ?thesis by (simp add: fold_assign_other)
  qed
  show ?case
  proof (cases "j = doff + k")
    case True
    then show ?thesis using Suc.prems src by (simp add: assign_same)
  next
    case False
    then show ?thesis using Suc by (auto simp: assign_same)
  qed
qed

lemma assign_fold_down:
  assumes "soff < doff" "doff + n \<le> length (arrays h d)" "k \<le> n"
  shows "arrays (fold (assign d d doff soff) (rev [k..<n]) h) d ! j
       = (if doff + k \<le> j \<and> j < doff + n then arrays h d ! (soff + (j - doff)) else arrays h d ! j)"
  using assms(3)
proof (induction "n - k" arbitrary: k j)
  case 0
  then have "k = n" by simp
  then show ?case by auto
next
  case (Suc m)
  let ?h = "fold (assign d d doff soff) (rev [Suc k..<n]) h"
  have k: "k < n" "m = n - Suc k" "Suc k \<le> n" using Suc.hyps(2) by simp_all
  note IH = Suc.hyps(1) [OF k(2,3)]
  have "rev [k..<n] = rev [Suc k..<n] @ [k]" using k(1) by (simp add: upt_conv_Cons)
  then have step: "fold (assign d d doff soff) (rev [k..<n]) h = assign d d doff soff k ?h" by simp
  have src: "arrays ?h d ! (soff + k) = arrays h d ! (soff + k)" using IH assms(1) by simp
  show ?case
  proof (cases "j = doff + k")
    case True
    then show ?thesis using k assms(2) src by (simp add: step assign_same)
  next
    case False
    then show ?thesis using IH k by (auto simp: step assign_same)
  qed
qed

lemma moved_nth:
  assumes "doff + n \<le> length dst" "soff + n \<le> length src" "j < length dst"
  shows "moved doff soff n dst src ! j
       = (if doff \<le> j \<and> j < doff + n then src ! (soff + (j - doff)) else dst ! j)"
proof -
  have "length (take n (drop soff src)) = n" using assms(2) by simp
  then show ?thesis using assms by (auto simp: moved_def nth_append)
qed

lemma length_moved [simp]:
  "doff + n \<le> length dst \<Longrightarrow> soff + n \<le> length src \<Longrightarrow> length (moved doff soff n dst src) = length dst"
  by (simp add: moved_def)

lemma moved_self: "moved doff doff n xs xs = xs"
  by (simp add: moved_def) (metis append_take_drop_id drop_drop add.commute)

text \<open>
  Whatever branch \<open>$copyArray\<close> takes, overlapping regions included, the target region ends up with
  what the source region held before the call, and nothing else changes.
\<close>

lemma copyArray_moved:
  assumes "doff + n \<le> length (arrays h d)" "soff + n \<le> length (arrays h s)"
  shows "arrays (copyArray typed d s doff soff n h)
       = (arrays h)(d := moved doff soff n (arrays h d) (arrays h s))"
proof -
  have pointwise: "arrays h' = (arrays h)(d := moved doff soff n (arrays h d) (arrays h s))"
    if "\<And>p. p \<noteq> d \<Longrightarrow> arrays h' p = arrays h p" "length (arrays h' d) = length (arrays h d)"
      "\<And>j. arrays h' d ! j = (if doff \<le> j \<and> j < doff + n then arrays h s ! (soff + (j - doff)) else arrays h d ! j)"
    for h' :: "'a store"
  proof
    fix p
    show "arrays h' p = ((arrays h)(d := moved doff soff n (arrays h d) (arrays h s))) p"
    proof (cases "p = d")
      case True
      have "arrays h' d = moved doff soff n (arrays h d) (arrays h s)"
        by (rule nth_equalityI) (use that(2,3) assms in \<open>simp_all add: moved_nth\<close>)
      with True show ?thesis by simp
    qed (use that(1) in simp)
  qed
  show ?thesis
  proof (cases "n = 0 \<or> d = s \<and> doff = soff")
    case True
    then show ?thesis using moved_self [of doff n "arrays h d"] by (auto simp: copyArray_def moved_def)
  next
    case no: False
    show ?thesis
    proof (cases typed)
      case True
      with no show ?thesis unfolding copyArray_def moved_def by (simp only: if_False if_True) simp
    next
      case False
      show ?thesis
      proof (cases "d = s \<and> doff > soff")
        case True
        with no False have eq: "copyArray typed d s doff soff n h = fold (assign d s doff soff) (rev [0..<n]) h"
          by (simp add: copyArray_def)
        show ?thesis unfolding eq
          by (rule pointwise)
            (use True assms assign_fold_down [of soff doff n h d 0] in \<open>simp_all add: fold_assign_other\<close>)
      next
        case up: False
        with no False have eq: "copyArray typed d s doff soff n h = fold (assign d s doff soff) [0..<n] h"
          by (auto simp: copyArray_def)
        show ?thesis unfolding eq
          by (rule pointwise)
            (use up assms in \<open>auto simp: fold_assign_other assign_fold_up\<close>)
      qed
    qed
  qed
qed

lemma fresh_copyArray [simp]: "fresh (copyArray typed d s doff soff n h) = fresh h"
  by (simp add: copyArray_def fresh_fold_assign)

lemma take_drop_moved:
  assumes "doff + n \<le> length dst" "soff + n \<le> length src"
  shows "take n (drop doff (moved doff soff n dst src)) = take n (drop soff src)"
    and "take doff (moved doff soff n dst src) = take doff dst"
    and "drop (doff + n) (moved doff soff n dst src) = drop (doff + n) dst"
  using assms by (simp_all add: moved_def min_absorb1)

text \<open>
  \<open>$copySlice\<close> returns the smaller of the two lengths, the target slice then starts with that many
  elements of the source as they were before the call (also when the two slices overlap in one
  array, for typed arrays and for plain ones) and keeps its other elements; no other array changes.
\<close>

theorem copySlice_contents:
  assumes "wf_slice h e" "wf_slice h n" "copySlice typed h e n = (r, h')"
  shows "r = min (s_length n) (s_length e) \<and>
         sliceToArray h' e = take r (sliceToArray h n) @ drop r (sliceToArray h e) \<and>
         (\<forall>p. p \<noteq> s_array e \<longrightarrow> arrays h' p = arrays h p)"
proof -
  let ?dst = "arrays h (s_array e)" and ?src = "arrays h (s_array n)"
  let ?m = "moved (s_offset e) (s_offset n) r ?dst ?src"
  have r: "r = min (s_length n) (s_length e)"
    and h': "h' = copyArray typed (s_array e) (s_array n) (s_offset e) (s_offset n) r h"
    using assms(3) by (auto simp: copySlice_def Let_def)
  have b: "s_offset e + r \<le> length ?dst" "s_offset n + r \<le> length ?src" "r \<le> s_length e" "r \<le> s_length n"
    using assms(1,2) by (auto simp: wf_slice_def r)
  have arr: "arrays h' = (arrays h)(s_array e := ?m)"
    unfolding h' by (rule copyArray_moved [OF b(1,2)])
  have "sliceToArray h' e = take (s_length e) (drop (s_offset e) ?m)"
    by (simp add: sliceToArray_def arr)
  also have "drop (s_offset e) ?m = take r (drop (s_offset n) ?src) @ drop (s_offset e + r) ?dst"
    using b by (simp add: moved_def)
  also have "take (s_length e) \<dots> = take r (sliceToArray h n) @ drop r (sliceToArray h e)"
    using b by (simp add: sliceToArray_def drop_take min_absorb1 add.commute)
  finally show ?thesis using r arr by simp
qed

theorem copySlice_contents_witness:
  defines "h \<equiv> \<lparr>arrays = (\<lambda>_. [])(0 := [1, 2, 3, 4, 5 :: int]), fresh = 1\<rparr>"
    and "a \<equiv> \<lparr>s_array = 0, s_offset = 1, s_length = 4, s_capacity = 4, s_nil = False\<rparr>"
    and "b \<equiv> \<lparr>s_array = 0, s_offset = 0, s_length = 3, s_capacity = 5, s_nil = False\<rparr>"
  shows "sliceToArray (snd (copySlice False h a b)) a = [1, 2, 3, 5]"
proof -
  have ab: "wf_slice h a" "wf_slice h b" by (simp_all add: h_def a_def b_def wf_slice_def)
  have "sliceToArray h a = [2, 3, 4, 5]" "sliceToArray h b = [1, 2, 3]"
    by (simp_all add: h_def a_def b_def sliceToArray_def)
  then show ?thesis
    using copySlice_contents [OF ab, of False "fst (copySlice False h a b)" "snd (copySlice False h a b)"]
    by (simp add: a_def b_def)
qed

text \<open>Appending: the new contents, well-formedness, and when the backing array is shared.\<close>

lemma grow_capacity_ge: "needed \<le> grow_capacity needed c"
  by (simp add: grow_capacity_def)

lemma internalAppend_realloc:
  assumes "wf_slice h e" "src < fresh h" "r + t \<le> length (arrays h src)" "0 < t"
    and "s_length e + t > s_capacity e" "internalAppend typed zero h e src r t = (e', h')"
  shows "wf_slice h' e' \<and> sliceToArray h' e' = sliceToArray h e @ take t (drop r (arrays h src)) \<and>
         s_array e' = fresh h \<and> (\<forall>p < fresh h. arrays h' p = arrays h p)"
proof -
  let ?l = "s_length e" and ?c = "grow_capacity (s_length e + t) (s_capacity e)"
  let ?new = "sliceToArray h e @ replicate (?c - ?l) zero"
  let ?h1 = "snd (alloc h ?new)"
  have c: "?l + t \<le> ?c" by (rule grow_capacity_ge)
  have e': "e' = \<lparr>s_array = fresh h, s_offset = 0, s_length = ?l + t, s_capacity = ?c, s_nil = False\<rparr>"
    and h': "h' = copyArray typed (fresh h) src ?l r t ?h1"
    using assms(4-6) by (auto simp: internalAppend_def Let_def alloc_def)
  have fr: "fresh h' = Suc (fresh h)" by (simp add: h')
  have len: "length ?new = ?c" using assms(1) c by simp
  have src: "arrays ?h1 src = arrays h src" using assms(2) by simp
  have dst: "arrays ?h1 (fresh h) = ?new" by simp
  have arr: "arrays h' = (arrays ?h1)(fresh h := moved ?l r t ?new (arrays h src))"
    unfolding h' using copyArray_moved [of ?l t ?h1 "fresh h" r src typed] assms(3) c len src dst by simp
  have len': "length (moved ?l r t ?new (arrays h src)) = ?c"
    using len c assms(3) by simp
  have "wf_slice h' e'"
    using c len' fr by (simp add: wf_slice_def e' arr)
  moreover have "sliceToArray h' e' = sliceToArray h e @ take t (drop r (arrays h src))"
    using assms(1,3) by (simp add: sliceToArray_def [of h'] e' arr moved_def min_absorb1)
  ultimately show ?thesis using assms(2) by (simp add: e' arr)
qed

lemma internalAppend_inplace:
  assumes "wf_slice h e" "r + t \<le> length (arrays h src)" "0 < t"
    and "s_length e + t \<le> s_capacity e" "internalAppend typed zero h e src r t = (e', h')"
  shows "wf_slice h' e' \<and> sliceToArray h' e' = sliceToArray h e @ take t (drop r (arrays h src)) \<and>
         s_array e' = s_array e \<and>
         arrays h' = (arrays h)(s_array e := moved (s_offset e + s_length e) r t (arrays h (s_array e)) (arrays h src))"
proof -
  let ?d = "arrays h (s_array e)" and ?at = "s_offset e + s_length e"
  have e': "e' = \<lparr>s_array = s_array e, s_offset = s_offset e, s_length = s_length e + t,
                 s_capacity = s_capacity e, s_nil = False\<rparr>"
    and h': "h' = copyArray typed (s_array e) src ?at r t h"
    using assms(3-5) by (auto simp: internalAppend_def Let_def)
  have b: "?at + t \<le> length ?d" using assms(1,4) by (simp add: wf_slice_def)
  have fr: "fresh h' = fresh h" by (simp add: h')
  have arr: "arrays h' = (arrays h)(s_array e := moved ?at r t ?d (arrays h src))"
    unfolding h' by (rule copyArray_moved [OF b assms(2)])
  have "wf_slice h' e'"
    using assms(1,2,4) b fr by (simp add: wf_slice_def e' arr)
  moreover have "sliceToArray h' e' = sliceToArray h e @ take t (drop r (arrays h src))"
  proof -
    have "sliceToArray h' e' = take (s_length e + t) (drop (s_offset e) (moved ?at r t ?d (arrays h src)))"
      by (simp add: sliceToArray_def e' arr)
    also have "drop (s_offset e) (moved ?at r t ?d (arrays h src))
        = take (s_length e) (drop (s_offset e) ?d) @ take t (drop r (arrays h src)) @ drop (?at + t) ?d"
      using b by (simp add: moved_def drop_take)
    also have "take (s_length e + t) \<dots> = sliceToArray h e @ take t (drop r (arrays h src))"
      using assms(2) b by (simp add: sliceToArray_def min_absorb1)
    finally show ?thesis .
  qed
  ultimately show ?thesis using arr by (simp add: e')
qed

lemma appendSlice_spec:
  assumes "wf_slice h e" "wf_slice h n" "appendSlice typed zero h e n = (e', h')"
  shows "wf_slice h' e' \<and> sliceToArray h' e' = sliceToArray h e @ sliceToArray h n"
proof (cases "s_length n = 0")
  case True
  then show ?thesis using assms by (simp add: appendSlice_def internalAppend_def sliceToArray_def)
next
  case False
  have n: "s_array n < fresh h" "s_offset n + s_length n \<le> length (arrays h (s_array n))"
    using assms(2) by (auto simp: wf_slice_def)
  have app: "internalAppend typed zero h e (s_array n) (s_offset n) (s_length n) = (e', h')"
    using assms(3) by (simp add: appendSlice_def)
  show ?thesis
  proof (cases "s_length e + s_length n > s_capacity e")
    case True
    from internalAppend_realloc [OF assms(1) n _ True app] False show ?thesis
      by (simp add: sliceToArray_def [of h n])
  next
    case le: False
    then have "s_length e + s_length n \<le> s_capacity e" by simp
    from internalAppend_inplace [OF assms(1) n(2) _ this app] False show ?thesis
      by (simp add: sliceToArray_def [of h n])
  qed
qed

lemma window_take: "o' + l \<le> m \<Longrightarrow> take l (drop o' (take m xs)) = take l (drop o' xs)"
  by (simp add: drop_take min_absorb1)

text \<open>
  \<open>append(e, n...)\<close> holds the elements of \<open>e\<close> followed by those of \<open>n\<close> as they were before the
  call, also when \<open>n\<close> overlaps the spare capacity of \<open>e\<close>.
\<close>

theorem appendSlice_contents:
  assumes "wf_slice h e" "wf_slice h n" "appendSlice typed zero h e n = (e', h')"
  shows "wf_slice h' e' \<and> sliceToArray h' e' = sliceToArray h e @ sliceToArray h n"
  using assms by (rule appendSlice_spec)

theorem appendSlice_contents_witness:
  defines "h \<equiv> \<lparr>arrays = (\<lambda>_. [])(0 := [1, 2, 3, 4, 5 :: int]), fresh = 1\<rparr>"
    and "a \<equiv> \<lparr>s_array = 0, s_offset = 0, s_length = 2, s_capacity = 5, s_nil = False\<rparr>"
    and "b \<equiv> \<lparr>s_array = 0, s_offset = 1, s_length = 3, s_capacity = 3, s_nil = False\<rparr>"
  shows "sliceToArray (snd (appendSlice False 0 h a b)) (fst (appendSlice False 0 h a b)) = [1, 2, 2, 3, 4]"
proof -
  have ab: "wf_slice h a" "wf_slice h b" by (simp_all add: h_def a_def b_def wf_slice_def)
  have "sliceToArray h a = [1, 2]" "sliceToArray h b = [2, 3, 4]"
    by (simp_all add: h_def a_def b_def sliceToArray_def)
  then show ?thesis
    using appendSlice_contents [OF ab, of False 0 "fst (appendSlice False 0 h a b)" "snd (appendSlice False 0 h a b)"]
    by simp
qed

text \<open>The frame: what an append may change for another slice of the store.\<close>

theorem appendSlice_frame:
  assumes "wf_slice h e" "wf_slice h n" "wf_slice h x" "appendSlice typed zero h e n = (e', h')"
    and "s_array x \<noteq> s_array e \<or> s_offset x + s_length x \<le> s_offset e + s_length e
         \<or> s_length e + s_length n > s_capacity e"
  shows "sliceToArray h' x = sliceToArray h x"
proof (cases "s_length n = 0")
  case True
  then show ?thesis using assms(4) by (simp add: appendSlice_def internalAppend_def)
next
  case False
  have n: "s_array n < fresh h" "s_offset n + s_length n \<le> length (arrays h (s_array n))"
    using assms(2) by (auto simp: wf_slice_def)
  have app: "internalAppend typed zero h e (s_array n) (s_offset n) (s_length n) = (e', h')"
    using assms(4) by (simp add: appendSlice_def)
  show ?thesis
  proof (cases "s_length e + s_length n > s_capacity e")
    case True
    from internalAppend_realloc [OF assms(1) n _ True app] False assms(3) show ?thesis
      by (simp add: sliceToArray_def wf_slice_def)
  next
    case le: False
    let ?at = "s_offset e + s_length e"
    let ?m = "moved ?at (s_offset n) (s_length n) (arrays h (s_array e)) (arrays h (s_array n))"
    from le have le': "s_length e + s_length n \<le> s_capacity e" by simp
    then have b: "?at + s_length n \<le> length (arrays h (s_array e))" using assms(1) by (simp add: wf_slice_def)
    have arr: "arrays h' = (arrays h)(s_array e := ?m)"
      using internalAppend_inplace [OF assms(1) n(2) _ le' app] False by simp
    show ?thesis
    proof (cases "s_array x = s_array e")
      case True
      with assms(5) le have "s_offset x + s_length x \<le> ?at" by simp
      then have "take (s_length x) (drop (s_offset x) ?m) = take (s_length x) (drop (s_offset x) (take ?at ?m))"
        by (rule window_take [symmetric])
      also have "take ?at ?m = take ?at (arrays h (s_array e))"
        using b n(2) by (rule take_drop_moved)
      also have "take (s_length x) (drop (s_offset x) \<dots>) = take (s_length x) (drop (s_offset x) (arrays h (s_array e)))"
        using \<open>s_offset x + s_length x \<le> ?at\<close> by (rule window_take)
      finally show ?thesis using True by (simp add: sliceToArray_def arr)
    next
      case False
      then show ?thesis by (simp add: sliceToArray_def arr)
    qed
  qed
qed

end
