(* ===== verification/Errors.thy ===== *)
theory Errors
  imports Prelude
begin

text \<open>
  Error values.  Go compares errors by identity: \<open>errors.New\<close> (package \<open>errors\<close> of the bundle) returns a
  pointer to a fresh \<open>errorString\<close>, so two errors are equal only when they are the same pointer.  The
  package-level errors the bundle compares with are the constructors; \<open>NewError n msg\<close> is the object
  that the \<open>n\<close>-th call of \<open>errors.New\<close> (or \<open>fmt.Errorf\<close>) outside package initialisation made; \<open>ConnError\<close>
  is an error of the connection under a session, which is not the bundle's.  The nil error is \<open>None\<close>.
\<close>

datatype go_error =
    EOF | ErrUnexpectedEOF | ErrClosedPipe | ErrShortWrite | ErrShortBuffer | ErrNoProgress
  | ErrTimeout | ErrGoAway | ErrInvalidProtocol | ErrConsumed | ErrWouldBlock
  | NewError nat string | ConnError nat

text \<open>\<open>errors.New\<close> and the method \<open>Error\<close> of its result; the state is the number of errors made.\<close>

definition errors_New :: "string \<Rightarrow> nat \<Rightarrow> go_error \<times> nat" where
  "errors_New text n = (NewError n text, Suc n)"

fun Error_text :: "go_error \<Rightarrow> string" where
  "Error_text EOF = ''EOF''"
| "Error_text ErrUnexpectedEOF = ''unexpected EOF''"
| "Error_text ErrClosedPipe = ''io: read/write on closed pipe''"
| "Error_text ErrShortWrite = ''short write''"
| "Error_text ErrShortBuffer = ''short buffer''"
| "Error_text ErrNoProgress = ''multiple Read calls return no data or error''"
| "Error_text ErrTimeout = ''timeout''"
| "Error_text ErrGoAway = ''stream id overflows, should start a new connection''"
| "Error_text ErrInvalidProtocol = ''invalid protocol''"
| "Error_text ErrConsumed = ''peer consumed more than sent''"
| "Error_text ErrWouldBlock = ''operation would block on IO''"
| "Error_text (NewError n text) = text"
| "Error_text (ConnError n) = ''''"

lemma errors_New_distinct:
  assumes "errors_New t n = (e, n')" "errors_New t' n' = (e', n'')"
  shows "e \<noteq> e' \<and> Error_text e = t"
  using assms by (auto simp: errors_New_def)

end
