(* ===== verification/Runtime_Int64.thy ===== *)
theory Runtime_Int64
  imports Prelude
begin

text \<open>
  The 64-bit integers of the Go-to-JavaScript runtime (first line of the bundle's runtime):
  JavaScript has no 64-bit integer, so an \<open>$Int64\<close> or \<open>$Uint64\<close> is an object with two numbers
  \<open>$high\<close> and \<open>$low\<close>, and shifts, multiplication and division are written out on them.  The
  abstraction is \<open>val64\<close>, the integer an object stands for; every operation is shown to compute
  the operation on integers wrapped to its type (\<open>wrap64\<close>).
\<close>

unbundle bit_operations_syntax

section \<open>Data\<close>

text \<open>The constructor an object was made with; \<open>e.constructor\<close> in the code.\<close>

datatype kind64 = KInt64 | KUint64

record js64 =
  ctor :: kind64
  high :: int
  low :: int

text \<open>
  \<open>new $Int64(h, l)\<close> and \<open>new $Uint64(h, l)\<close>: the excess of \<open>l\<close> is carried into \<open>$high\<close> with
  \<open>Math.floor(Math.ceil(l) / 4294967296)\<close>, which on integers is flooring division.
\<close>

definition new64 :: "kind64 \<Rightarrow> int \<Rightarrow> int \<Rightarrow> js64" where
  "new64 k h l = \<lparr>ctor = k,
     high = (case k of KInt64 \<Rightarrow> ToInt32 (h + l div 4294967296)
                     | KUint64 \<Rightarrow> ToUint32 (h + l div 4294967296)),
     low = ToUint32 l\<rparr>"

text \<open>
  \<open>$flatten64\<close> is a JavaScript number; this is its exact value, which is what the double holds when
  it lies within \<open>2 ^ 53\<close>, as in every use the development models.
\<close>

definition flatten64 :: "js64 \<Rightarrow> int" where
  "flatten64 x = 4294967296 * high x + low x"

section \<open>Operations\<close>

definition shiftLeft64 :: "js64 \<Rightarrow> nat \<Rightarrow> js64" where
  "shiftLeft64 e n =
     (if n = 0 then e
      else if n < 32 then
        new64 (ctor e) (js_or (js_shl (high e) n) (js_shr (low e) (32 - n))) (js_shr (js_shl (low e) n) 0)
      else if n < 64 then new64 (ctor e) (js_shl (low e) (n - 32)) 0
      else new64 (ctor e) 0 0)"

definition shiftRightInt64 :: "js64 \<Rightarrow> nat \<Rightarrow> js64" where
  "shiftRightInt64 e n =
     (if n = 0 then e
      else if n < 32 then
        new64 (ctor e) (js_sar (high e) n)
          (js_shr (js_or (js_shr (low e) n) (js_shl (high e) (32 - n))) 0)
      else if n < 64 then new64 (ctor e) (js_sar (high e) 31) (js_shr (js_sar (high e) (n - 32)) 0)
      else if high e < 0 then new64 (ctor e) (-1) 4294967295
      else new64 (ctor e) 0 0)"

definition shiftRightUint64 :: "js64 \<Rightarrow> nat \<Rightarrow> js64" where
  "shiftRightUint64 e n =
     (if n = 0 then e
      else if n < 32 then
        new64 (ctor e) (js_shr (high e) n)
          (js_shr (js_or (js_shr (low e) n) (js_shl (high e) (32 - n))) 0)
      else if n < 64 then new64 (ctor e) 0 (js_shr (high e) (n - 32))
      else new64 (ctor e) 0 0)"

text \<open>
  \<open>$mul64\<close>: the two loops over the bits of the multiplier, \<open>for (i = 1; i < 32; i++)\<close> over
  \<open>$low\<close> and \<open>for (i = 0; i < 32; i++)\<close> over \<open>$high\<close>, accumulating the two halves as JavaScript
  numbers \<open>r\<close> and \<open>t\<close>.
\<close>

definition mul64_low_step :: "js64 \<Rightarrow> js64 \<Rightarrow> nat \<Rightarrow> int \<times> int \<Rightarrow> int \<times> int" where
  "mul64_low_step e n i rt =
     (if js_and (low n) (js_shl 1 i) \<noteq> 0
      then (fst rt + js_or (js_shl (high e) i) (js_shr (low e) (32 - i)),
            snd rt + js_shr (js_shl (low e) i) 0)
      else rt)"

definition mul64_high_step :: "js64 \<Rightarrow> js64 \<Rightarrow> nat \<Rightarrow> int \<times> int \<Rightarrow> int \<times> int" where
  "mul64_high_step e n i rt =
     (if js_and (high n) (js_shl 1 i) \<noteq> 0 then (fst rt + js_shl (low e) i, snd rt) else rt)"

definition mul64_acc :: "js64 \<Rightarrow> js64 \<Rightarrow> int \<times> int" where
  "mul64_acc e n =
     (let rt0 = (if js_and 1 (low n) \<noteq> 0 then (high e, low e) else (0, 0));
          rt1 = fold (mul64_low_step e n) [1..<32] rt0
      in fold (mul64_high_step e n) [0..<32] rt1)"

definition mul64 :: "js64 \<Rightarrow> js64 \<Rightarrow> js64" where
  "mul64 e n = new64 (ctor e) (fst (mul64_acc e n)) (snd (mul64_acc e n))"

section \<open>The integer an object stands for\<close>

definition val64 :: "js64 \<Rightarrow> int" where
  "val64 x = high x * 2 ^ 32 + low x"

definition wrap64 :: "kind64 \<Rightarrow> int \<Rightarrow> int" where
  "wrap64 k v = (case k of KInt64 \<Rightarrow> signed_take_bit 63 v | KUint64 \<Rightarrow> take_bit 64 v)"

definition in_range64 :: "kind64 \<Rightarrow> int \<Rightarrow> bool" where
  "in_range64 k v = (case k of KInt64 \<Rightarrow> - (2 ^ 63) \<le> v \<and> v < 2 ^ 63 | KUint64 \<Rightarrow> 0 \<le> v \<and> v < 2 ^ 64)"

definition wf64 :: "js64 \<Rightarrow> bool" where
  "wf64 x \<longleftrightarrow> 0 \<le> low x \<and> low x < 2 ^ 32 \<and>
     (case ctor x of KInt64 \<Rightarrow> - (2 ^ 31) \<le> high x \<and> high x < 2 ^ 31
                   | KUint64 \<Rightarrow> 0 \<le> high x \<and> high x < 2 ^ 32)"

lemma take_bit_wrap64 [simp]: "take_bit 64 (wrap64 k v) = take_bit 64 v"
  by (cases k) (simp_all add: wrap64_def take_bit_signed_take_bit)

lemma wrap64_eqI:
  assumes "in_range64 k v" "take_bit 64 v = take_bit 64 w"
  shows "v = wrap64 k w"
proof (cases k)
  case KInt64
  then have "signed_take_bit 63 v = v"
    using assms(1) by (intro signed_take_bit_int_eq_self) (simp_all add: in_range64_def)
  moreover have "signed_take_bit 63 v = signed_take_bit 63 w"
    using assms(2) by (simp add: signed_take_bit_eq_iff_take_bit_eq)
  ultimately show ?thesis by (simp add: wrap64_def KInt64)
next
  case KUint64
  then have "take_bit 64 v = v"
    using assms(1) by (simp add: in_range64_def take_bit_int_eq_self)
  with assms(2) show ?thesis by (simp add: wrap64_def KUint64)
qed

lemma in_range64_val64: "wf64 x \<Longrightarrow> in_range64 (ctor x) (val64 x)"
  by (cases "ctor x") (simp_all add: wf64_def in_range64_def val64_def)

lemma wrap64_val64 [simp]: "wf64 x \<Longrightarrow> wrap64 (ctor x) (val64 x) = val64 x"
  using wrap64_eqI [OF in_range64_val64 refl] by simp

lemma ctor_new64 [simp]: "ctor (new64 k h l) = k"
  by (simp add: new64_def)

lemma wf64_new64 [simp]: "wf64 (new64 k h l)"
  using ToInt32_range [of "h + l div 4294967296"] ToUint32_range [of "h + l div 4294967296"]
    ToUint32_range [of l]
  by (cases k) (simp_all add: new64_def wf64_def)

lemma take_bit_pair:
  fixes h l :: int
  shows "take_bit 64 (h * 2 ^ 32 + l) = take_bit 64 (take_bit 32 h * 2 ^ 32 + l)"
proof -
  have h: "h = take_bit 32 h + (h div 2 ^ 32) * 2 ^ 32"
    by (simp add: take_bit_eq_mod)
  have "h * 2 ^ 32 + l = (take_bit 32 h * 2 ^ 32 + l) + (h div 2 ^ 32) * 2 ^ 64"
    by (subst h) (simp add: algebra_simps)
  then show ?thesis unfolding take_bit_eq_mod by (simp only: mod_mult_self1)
qed

lemma val64_new64: "val64 (new64 k h l) = wrap64 k (h * 2 ^ 32 + l)"
proof (rule wrap64_eqI)
  show "in_range64 k (val64 (new64 k h l))"
    using in_range64_val64 [of "new64 k h l"] by simp
  let ?H = "h + l div 2 ^ 32"
  have "take_bit 64 (val64 (new64 k h l)) = take_bit 64 (take_bit 32 (high (new64 k h l)) * 2 ^ 32 + ToUint32 l)"
    unfolding val64_def by (subst take_bit_pair) (simp add: new64_def)
  also have "take_bit 32 (high (new64 k h l)) = take_bit 32 ?H"
    by (cases k) (simp_all add: new64_def)
  also have "take_bit 64 (take_bit 32 ?H * 2 ^ 32 + ToUint32 l) = take_bit 64 (?H * 2 ^ 32 + ToUint32 l)"
    by (rule take_bit_pair [symmetric])
  also have "?H * 2 ^ 32 + ToUint32 l = h * 2 ^ 32 + l"
  proof -
    have "?H * 2 ^ 32 + ToUint32 l = h * 2 ^ 32 + ((l div 2 ^ 32) * 2 ^ 32 + l mod 2 ^ 32)"
      by (simp only: ToUint32_mod distrib_right add.assoc)
    then show ?thesis by (simp only: div_mult_mod_eq)
  qed
  finally show "take_bit 64 (val64 (new64 k h l)) = take_bit 64 (h * 2 ^ 32 + l)" .
qed

lemma flatten64_val64: "flatten64 x = val64 x"
  by (simp add: flatten64_def val64_def)

text \<open>
  The operations the compiler writes in line: conversion of a number (\<open>new $Int64(0, n)\<close>), sum,
  difference, \<open><\<close> and \<open><=\<close> (halves compared high first), and conversion back to 32 bits.
\<close>

definition int64_of :: "int \<Rightarrow> js64" where "int64_of n = new64 KInt64 0 n"
definition uint64_of :: "int \<Rightarrow> js64" where "uint64_of n = new64 KUint64 0 n"

definition add64 :: "js64 \<Rightarrow> js64 \<Rightarrow> js64" where
  "add64 x y = new64 (ctor x) (high x + high y) (low x + low y)"

definition sub64 :: "js64 \<Rightarrow> js64 \<Rightarrow> js64" where
  "sub64 x y = new64 (ctor x) (high x - high y) (low x - low y)"

definition less64 :: "js64 \<Rightarrow> js64 \<Rightarrow> bool" where
  "less64 x y \<longleftrightarrow> high x < high y \<or> high x = high y \<and> low x < low y"

definition le64 :: "js64 \<Rightarrow> js64 \<Rightarrow> bool" where
  "le64 x y \<longleftrightarrow> high x < high y \<or> high x = high y \<and> low x \<le> low y"

definition to_int32 :: "js64 \<Rightarrow> int" where
  "to_int32 x = js_sar (low x + js_sar (high x) 31 * 4294967296) 0"

lemma less64_val: "wf64 x \<Longrightarrow> wf64 y \<Longrightarrow> less64 x y \<longleftrightarrow> val64 x < val64 y"
  and le64_val: "wf64 x \<Longrightarrow> wf64 y \<Longrightarrow> le64 x y \<longleftrightarrow> val64 x \<le> val64 y"
  by (auto simp: less64_def le64_def wf64_def val64_def)

lemma val64_add64: "val64 (add64 x y) = wrap64 (ctor x) (val64 x + val64 y)"
  and val64_sub64: "val64 (sub64 x y) = wrap64 (ctor x) (val64 x - val64 y)"
  by (simp_all only: add64_def sub64_def val64_new64) (simp_all add: val64_def algebra_simps)

lemma wf64_inline [simp]:
  "wf64 (int64_of n)" "wf64 (uint64_of n)" "wf64 (add64 x y)" "wf64 (sub64 x y)"
  "ctor (int64_of n) = KInt64" "ctor (uint64_of n) = KUint64" "ctor (add64 x y) = ctor x" "ctor (sub64 x y) = ctor x"
  by (simp_all add: int64_of_def uint64_of_def add64_def sub64_def)

lemma wf64_eqI:
  assumes "wf64 x" "wf64 y" "ctor x = ctor y" "val64 x = val64 y"
  shows "x = y"
proof -
  have "low z = val64 z mod 2 ^ 32" "high z = val64 z div 2 ^ 32" if "wf64 z" for z
    using that by (simp_all add: val64_def wf64_def)
  with assms have "low x = low y" "high x = high y" by simp_all
  with assms(3) show ?thesis by simp
qed

section \<open>Shifts\<close>

lemma take_bit64_pair_cong:
  fixes h h' l :: int
  assumes "take_bit 32 h = take_bit 32 h'"
  shows "take_bit 64 (h * 2 ^ 32 + l) = take_bit 64 (h' * 2 ^ 32 + l)"
  by (subst take_bit_pair, subst (2) take_bit_pair) (simp only: assms)

lemma wrap64_cong: "take_bit 64 v = take_bit 64 w \<Longrightarrow> wrap64 k v = wrap64 k w"
  by (cases k) (simp_all add: wrap64_def signed_take_bit_eq_iff_take_bit_eq)

text \<open>The two halves of a left shift by \<open>1 \<le> n < 32\<close>, as they occur in shifts and products.\<close>

lemma shl_halves:
  assumes "0 < n" "n < 32" "0 \<le> lo" "lo < 2 ^ 32"
  shows "take_bit 64 (js_or (js_shl hi n) (js_shr lo (32 - n)) * 2 ^ 32 + js_shr (js_shl lo n) 0)
       = take_bit 64 ((hi * 2 ^ 32 + lo) * 2 ^ n)"
proof -
  have lo: "js_shr lo (32 - n) = lo div 2 ^ (32 - n)"
    using assms by (simp add: js_shr_eq)
  have pow: "(2::int) ^ n * 2 ^ (32 - n) = 2 ^ 32"
    using assms by (intro pow2_split) simp
  have carry: "0 \<le> lo div 2 ^ (32 - n)" "lo div 2 ^ (32 - n) < 2 ^ n"
    using assms pow by (simp_all add: pos_imp_zdiv_nonneg_iff int_div_less)
  have dvd: "2 ^ n dvd js_shl hi n"
    using assms(2) by (rule dvd_js_shl)
  have hi': "take_bit 32 (js_or (js_shl hi n) (js_shr lo (32 - n)))
      = take_bit 32 (hi * 2 ^ n + lo div 2 ^ (32 - n))" (is "_ = take_bit 32 ?H")
  proof -
    have "take_bit 32 (js_or (js_shl hi n) (js_shr lo (32 - n)))
        = take_bit 32 (js_shl hi n + lo div 2 ^ (32 - n))"
      unfolding lo using dvd assms(2) carry by (intro take_bit_js_or [of n]) simp_all
    also have "\<dots> = take_bit 32 (take_bit 32 (js_shl hi n) + lo div 2 ^ (32 - n))"
      by (simp only: take_bit_eq_mod mod_add_left_eq)
    also have "\<dots> = take_bit 32 ?H"
      by (simp only: take_bit_js_shl [OF assms(2)]) (simp only: take_bit_eq_mod mod_add_left_eq)
    finally show ?thesis .
  qed
  have lo': "js_shr (js_shl lo n) 0 = (lo * 2 ^ n) mod 2 ^ 32"
    using take_bit_js_shl [OF assms(2), of lo] by (simp only: js_shr_0 take_bit_eq_mod)
  have split: "lo div 2 ^ (32 - n) = (lo * 2 ^ n) div 2 ^ 32"
  proof -
    have "lo * 2 ^ n div 2 ^ 32 = lo * 2 ^ n div (2 ^ (32 - n) * 2 ^ n)"
      by (simp only: pow mult.commute [of "2 ^ (32 - n)"])
    then show ?thesis by simp
  qed
  have "take_bit 64 (js_or (js_shl hi n) (js_shr lo (32 - n)) * 2 ^ 32 + js_shr (js_shl lo n) 0)
      = take_bit 64 (?H * 2 ^ 32 + (lo * 2 ^ n) mod 2 ^ 32)"
    unfolding lo' using hi' by (rule take_bit64_pair_cong)
  also have "?H * 2 ^ 32 + (lo * 2 ^ n) mod 2 ^ 32
      = hi * 2 ^ n * 2 ^ 32 + ((lo * 2 ^ n) div 2 ^ 32 * 2 ^ 32 + (lo * 2 ^ n) mod 2 ^ 32)"
    by (simp only: split distrib_right add.assoc)
  also have "\<dots> = (hi * 2 ^ 32 + lo) * 2 ^ n"
    by (simp only: div_mult_mod_eq) (simp add: algebra_simps)
  finally show ?thesis .
qed

lemma shl_low_half:
  assumes "n < 32"
  shows "take_bit 64 (js_shl lo n * 2 ^ 32) = take_bit 64 (lo * 2 ^ n * 2 ^ 32)"
  using take_bit64_pair_cong [OF take_bit_js_shl [OF assms], of lo 0] by simp

theorem shiftLeft64_value:
  assumes "wf64 e"
  shows "val64 (shiftLeft64 e n) = wrap64 (ctor e) (val64 e * 2 ^ n)"
proof -
  have lo: "0 \<le> low e" "low e < 2 ^ 32" using assms by (simp_all add: wf64_def)
  consider "n = 0" | "0 < n" "n < 32" | "32 \<le> n" "n < 64" | "64 \<le> n" by linarith
  then show ?thesis
  proof cases
    case 1
    with assms show ?thesis by (simp add: shiftLeft64_def)
  next
    case 2
    then have "shiftLeft64 e n = new64 (ctor e)
        (js_or (js_shl (high e) n) (js_shr (low e) (32 - n))) (js_shr (js_shl (low e) n) 0)"
      by (simp add: shiftLeft64_def)
    then show ?thesis
      using wrap64_cong [OF shl_halves [OF 2 lo, of "high e"]]
      by (simp only: val64_new64 val64_def [of e])
  next
    case 3
    have "take_bit 64 (js_shl (low e) (n - 32) * 2 ^ 32) = take_bit 64 (low e * 2 ^ n)"
    proof -
      have "low e * 2 ^ (n - 32) * 2 ^ 32 = low e * (2 ^ (n - 32) * 2 ^ 32)" by simp
      also have "(2::int) ^ (n - 32) * 2 ^ 32 = 2 ^ n"
        using pow2_split [OF 3(1)] by (simp only: mult.commute)
      finally have eq: "low e * 2 ^ (n - 32) * 2 ^ 32 = low e * 2 ^ n" .
      have "n - 32 < 32" using 3 by simp
      from shl_low_half [OF this, of "low e"] show ?thesis by (simp only: eq)
    qed
    also have "\<dots> = take_bit 64 (val64 e * 2 ^ n)"
    proof -
      have "(2::int) ^ n = 2 ^ 32 * 2 ^ (n - 32)" using pow2_split [OF 3(1)] by (rule sym)
      then have "val64 e * 2 ^ n = low e * 2 ^ n + (high e * 2 ^ (n - 32)) * 2 ^ 64"
        by (simp add: val64_def algebra_simps)
      then show ?thesis unfolding take_bit_eq_mod by (simp only: mod_mult_self1)
    qed
    finally have "wrap64 (ctor e) (js_shl (low e) (n - 32) * 2 ^ 32)
        = wrap64 (ctor e) (val64 e * 2 ^ n)" by (rule wrap64_cong)
    then show ?thesis using 3 by (simp add: shiftLeft64_def val64_new64)
  next
    case 4
    then have "(2::int) ^ n = 2 ^ (n - 64) * 2 ^ 64"
      using pow2_split [of 64 n] by (simp only: mult.commute)
    then have "take_bit 64 (val64 e * 2 ^ n) = 0" by (simp add: take_bit_eq_mod)
    then show ?thesis using 4 wrap64_cong [of 0 "val64 e * 2 ^ n" "ctor e"]
      by (simp add: shiftLeft64_def val64_new64)
  qed
qed

lemma js_or_commute: "js_or x y = js_or y x"
  by (simp add: js_or_def or.commute)

lemma wrap64_in_range: "in_range64 k v \<Longrightarrow> wrap64 k v = v"
  by (rule wrap64_eqI [symmetric]) simp_all

text \<open>The two halves of a right shift by \<open>0 < n < 32\<close>.\<close>

lemma shr_halves:
  assumes "0 < n" "n < 32" "0 \<le> lo" "lo < 2 ^ 32"
  shows "(hi div 2 ^ n) * 2 ^ 32 + js_shr (js_or (js_shr lo n) (js_shl hi (32 - n))) 0
       = (hi * 2 ^ 32 + lo) div 2 ^ n"
proof -
  let ?m = "32 - n"
  have m: "?m < 32" "?m \<le> 32" using assms(1) by simp_all
  have pow: "(2::int) ^ n * 2 ^ ?m = 2 ^ 32" using assms(2) by (intro pow2_split) simp
  have lo: "js_shr lo n = lo div 2 ^ n" using assms by (simp add: js_shr_eq)
  have small: "0 \<le> lo div 2 ^ n" "lo div 2 ^ n < 2 ^ ?m"
    using assms pow by (simp_all add: pos_imp_zdiv_nonneg_iff int_div_less mult.commute)
  have "take_bit 32 (js_or (js_shl hi ?m) (js_shr lo n)) = take_bit 32 (js_shl hi ?m + lo div 2 ^ n)"
    unfolding lo using dvd_js_shl [OF m(1)] m(2) small by (rule take_bit_js_or)
  also have "\<dots> = take_bit 32 (hi * 2 ^ ?m + lo div 2 ^ n)"
    by (rule take_bit_add_cong [OF take_bit_js_shl [OF m(1)] refl])
  finally have or: "js_shr (js_or (js_shr lo n) (js_shl hi ?m)) 0 = take_bit 32 (hi * 2 ^ ?m + lo div 2 ^ n)"
    by (simp only: js_shr_0 js_or_commute [of "js_shr lo n"] take_bit_eq_mod)
  have hi: "hi * 2 ^ ?m + lo div 2 ^ n = (hi div 2 ^ n) * 2 ^ 32 + ((hi mod 2 ^ n) * 2 ^ ?m + lo div 2 ^ n)"
  proof -
    have "hi * 2 ^ ?m = ((hi div 2 ^ n) * 2 ^ n + hi mod 2 ^ n) * 2 ^ ?m"
      by (simp only: div_mult_mod_eq)
    also have "\<dots> = (hi div 2 ^ n) * (2 ^ n * 2 ^ ?m) + (hi mod 2 ^ n) * 2 ^ ?m"
      by (simp only: distrib_right mult.assoc)
    finally show ?thesis by (simp only: pow add.assoc)
  qed
  have bound: "0 \<le> (hi mod 2 ^ n) * 2 ^ ?m + lo div 2 ^ n" "(hi mod 2 ^ n) * 2 ^ ?m + lo div 2 ^ n < 2 ^ 32"
  proof -
    have "(hi mod 2 ^ n) * 2 ^ ?m \<le> (2 ^ n - 1) * 2 ^ ?m"
      using pos_mod_bound [of "2 ^ n" hi] by (intro mult_right_mono) simp_all
    also have "\<dots> = 2 ^ 32 - 2 ^ ?m" by (simp only: left_diff_distrib pow mult_1)
    finally show "(hi mod 2 ^ n) * 2 ^ ?m + lo div 2 ^ n < 2 ^ 32" using small(2) by linarith
    show "0 \<le> (hi mod 2 ^ n) * 2 ^ ?m + lo div 2 ^ n" using small(1) by simp
  qed
  have "take_bit 32 (hi * 2 ^ ?m + lo div 2 ^ n) = (hi mod 2 ^ n) * 2 ^ ?m + lo div 2 ^ n"
    unfolding hi take_bit_eq_mod using bound by (simp only: mod_mult_self3 mod_pos_pos_trivial)
  moreover have "(hi * 2 ^ 32 + lo) div 2 ^ n = hi * 2 ^ ?m + lo div 2 ^ n"
  proof -
    have "hi * 2 ^ 32 + lo = lo + (hi * 2 ^ ?m) * 2 ^ n"
      by (simp only: pow [symmetric] mult.assoc mult.commute add.commute mult.left_commute)
    moreover have "(lo + (hi * 2 ^ ?m) * 2 ^ n) div 2 ^ n = hi * 2 ^ ?m + lo div 2 ^ n"
      by (rule div_mult_self1) simp
    ultimately show ?thesis by (simp only:)
  qed
  ultimately show ?thesis unfolding or hi by simp
qed

lemma wrap64_int: "- (2 ^ 63) \<le> n \<Longrightarrow> n < 2 ^ 63 \<Longrightarrow> wrap64 KInt64 n = n"
  by (rule wrap64_in_range) (simp add: in_range64_def)

lemma val64_int64_of: "- (2 ^ 63) \<le> n \<Longrightarrow> n < 2 ^ 63 \<Longrightarrow> val64 (int64_of n) = n"
  by (simp add: int64_of_def val64_new64 wrap64_int)

lemma div_pow_sign:
  assumes "- (2 ^ k) \<le> (h::int)" "h < 2 ^ k" "k \<le> m"
  shows "h div 2 ^ m = (if h < 0 then -1 else 0)"
proof -
  have "(2::int) ^ k \<le> 2 ^ m" using assms(3) by (rule power_increasing) simp
  then have b: "- (2 ^ m) \<le> h" "h < 2 ^ m" using assms(1,2) by linarith+
  show ?thesis
  proof (cases "h < 0")
    case True
    have "h div 2 ^ m = -1"
      by (rule int_div_pos_eq [of _ _ _ "h + 2 ^ m"]) (use b True in simp_all)
    with True show ?thesis by simp
  qed (use b in simp)
qed

text \<open>A shift by 32 or more only looks at \<open>$high\<close>.\<close>

lemma div_high:
  assumes "0 \<le> lo" "lo < 2 ^ 32" "32 \<le> n"
  shows "(hi * 2 ^ 32 + lo) div 2 ^ n = (hi::int) div 2 ^ (n - 32)"
proof -
  have n: "(2::int) ^ n = 2 ^ 32 * 2 ^ (n - 32)" using pow2_split [OF assms(3)] by (rule sym)
  have "(hi * 2 ^ 32 + lo) div 2 ^ n = ((hi * 2 ^ 32 + lo) div 2 ^ 32) div 2 ^ (n - 32)"
    unfolding n by (rule zdiv_zmult2_eq) simp
  also have "(hi * 2 ^ 32 + lo) div 2 ^ 32 = hi" using assms(1,2) by simp
  finally show ?thesis .
qed

lemma in_range64_div:
  assumes "in_range64 k v"
  shows "in_range64 k (v div 2 ^ n)"
proof -
  have p: "(1::int) \<le> 2 ^ n" by simp
  have lt: "v div 2 ^ n < b" if "v < b" "0 < b" for b
  proof (rule int_div_less)
    have "b * 1 \<le> b * 2 ^ n" using that(2) p by (intro mult_left_mono) simp_all
    then show "v < b * 2 ^ n" using that(1) by (simp only: mult_1_right)
  qed simp
  have ge: "- b \<le> v div 2 ^ n" if "- b \<le> v" "0 \<le> b" for b
  proof -
    have "- b = (- b * 2 ^ n) div 2 ^ n" by (rule nonzero_mult_div_cancel_right [symmetric]) simp
    also have "\<dots> \<le> v div 2 ^ n"
    proof (rule zdiv_mono1)
      have "- b * 2 ^ n \<le> - b * 1" using that(2) p by (intro mult_left_mono_neg) simp_all
      then show "- b * 2 ^ n \<le> v" using that(1) by (simp only: mult_1_right)
    qed simp
    finally show ?thesis .
  qed
  show ?thesis
    using assms lt [of "2 ^ 63"] lt [of "2 ^ 64"] ge [of "2 ^ 63"] ge [of 0]
    by (cases k) (simp_all add: in_range64_def)
qed

theorem shiftRightInt64_value:
  assumes "wf64 e" "ctor e = KInt64"
  shows "val64 (shiftRightInt64 e n) = val64 e div 2 ^ n"
proof -
  have lo: "0 \<le> low e" "low e < 2 ^ 32" and hi: "- (2 ^ 31) \<le> high e" "high e < 2 ^ 31"
    using assms by (simp_all add: wf64_def)
  have sar: "js_sar (high e) m = high e div 2 ^ m" if "m < 32" for m
    using that hi by (simp add: js_sar_eq ToInt32_id)
  have in_range: "wrap64 KInt64 (val64 e div 2 ^ n) = val64 e div 2 ^ n"
    using in_range64_div [OF in_range64_val64 [OF assms(1)]] assms(2) by (simp add: wrap64_in_range)
  consider "n = 0" | "0 < n" "n < 32" | "32 \<le> n" "n < 64" | "64 \<le> n" by linarith
  then show ?thesis
  proof cases
    case 1
    then show ?thesis by (simp add: shiftRightInt64_def)
  next
    case 2
    then have "shiftRightInt64 e n = new64 KInt64 (high e div 2 ^ n)
        (js_shr (js_or (js_shr (low e) n) (js_shl (high e) (32 - n))) 0)"
      by (simp add: shiftRightInt64_def assms(2) sar)
    then show ?thesis
      using shr_halves [OF 2 lo, of "high e"] in_range
      by (simp only: val64_new64 val64_def [of e])
  next
    case 3
    have n: "n - 32 < 32" using 3 by simp
    have div: "val64 e div 2 ^ n = high e div 2 ^ (n - 32)"
      unfolding val64_def using lo 3(1) by (rule div_high)
    let ?q = "high e div 2 ^ (n - 32)"
    have "?q div 2 ^ 32 = high e div (2 ^ (n - 32) * 2 ^ 32)"
      by (rule zdiv_zmult2_eq [symmetric]) simp
    also have "\<dots> = high e div 2 ^ (n - 32 + 32)" by (simp only: power_add)
    also have "\<dots> = high e div 2 ^ 31"
      using div_pow_sign [OF hi, of "n - 32 + 32"] div_pow_sign [OF hi, of 31] by simp
    finally have q: "?q div 2 ^ 32 = high e div 2 ^ 31" .
    have "val64 (shiftRightInt64 e n) = wrap64 KInt64 ((?q div 2 ^ 32) * 2 ^ 32 + ?q mod 2 ^ 32)"
    proof -
      have "shiftRightInt64 e n = new64 KInt64 (high e div 2 ^ 31) (?q mod 2 ^ 32)"
        using 3 n by (simp add: shiftRightInt64_def assms(2) sar js_shr_0)
      then show ?thesis by (simp only: val64_new64 q)
    qed
    also have "\<dots> = wrap64 KInt64 (val64 e div 2 ^ n)"
      by (simp only: div_mult_mod_eq div)
    finally show ?thesis by (simp only: in_range)
  next
    case 4
    have "val64 e div 2 ^ n = high e div 2 ^ (n - 32)"
      unfolding val64_def using lo 4 by (intro div_high) simp_all
    also have "\<dots> = (if high e < 0 then -1 else 0)"
      using div_pow_sign [OF hi, of "n - 32"] 4 by simp
    finally show ?thesis
      using 4 by (simp add: shiftRightInt64_def assms(2) val64_new64 wrap64_def)
  qed
qed

theorem shiftRightUint64_value:
  assumes "wf64 e" "ctor e = KUint64"
  shows "val64 (shiftRightUint64 e n) = val64 e div 2 ^ n"
proof -
  have lo: "0 \<le> low e" "low e < 2 ^ 32" and hi: "0 \<le> high e" "high e < 2 ^ 32"
    using assms by (simp_all add: wf64_def)
  have shr: "js_shr (high e) m = high e div 2 ^ m" if "m < 32" for m
    using that hi by (simp add: js_shr_eq)
  have in_range: "wrap64 KUint64 (val64 e div 2 ^ n) = val64 e div 2 ^ n"
    using in_range64_div [OF in_range64_val64 [OF assms(1)]] assms(2) by (simp add: wrap64_in_range)
  consider "n = 0" | "0 < n" "n < 32" | "32 \<le> n" by linarith
  then show ?thesis
  proof cases
    case 1
    then show ?thesis by (simp add: shiftRightUint64_def)
  next
    case 2
    then have "shiftRightUint64 e n = new64 KUint64 (high e div 2 ^ n)
        (js_shr (js_or (js_shr (low e) n) (js_shl (high e) (32 - n))) 0)"
      by (simp add: shiftRightUint64_def assms(2) shr)
    then show ?thesis
      using shr_halves [OF 2 lo, of "high e"] in_range
      by (simp only: val64_new64 val64_def [of e])
  next
    case 3
    have div: "val64 e div 2 ^ n = high e div 2 ^ (n - 32)"
      unfolding val64_def using lo 3 by (rule div_high)
    show ?thesis
    proof (cases "n < 64")
      case True
      then have "val64 (shiftRightUint64 e n) = wrap64 KUint64 (high e div 2 ^ (n - 32))"
        using 3 by (simp add: shiftRightUint64_def assms(2) shr val64_new64)
      then show ?thesis using in_range by (simp only: div)
    next
      case False
      have "- (2 ^ 32) \<le> high e" using hi by simp
      from div_pow_sign [OF this hi(2), of "n - 32"] False have "high e div 2 ^ (n - 32) = 0"
        using hi(1) by simp
      then show ?thesis
        using False 3 by (simp add: shiftRightUint64_def assms(2) val64_new64 wrap64_def div)
    qed
  qed
qed

section \<open>Multiplication\<close>

lemma js_bit_test:
  assumes "i < 32"
  shows "js_and x (js_shl 1 i) \<noteq> 0 \<longleftrightarrow> bit x i"
proof -
  have shl: "bit (js_shl 1 i) n \<longleftrightarrow> (if n < 31 then n = i else i = 31)" for n
    using assms
    by (auto simp: js_shl_def ToInt32_def bit_simps)
  have x: "bit (ToInt32 x) n \<longleftrightarrow> bit x (min 31 n)" for n
    by (simp add: ToInt32_def bit_simps)
  have idem: "ToInt32 (js_shl 1 i) = js_shl 1 i"
    by (simp add: js_shl_def ToInt32_def)
  have b: "bit (js_and x (js_shl 1 i)) n \<longleftrightarrow> bit x i \<and> bit (js_shl 1 i) n" for n
    using assms shl x by (auto simp: js_and_def bit_and_iff idem min_def split: if_splits)
  show ?thesis
  proof
    assume "js_and x (js_shl 1 i) \<noteq> 0"
    then obtain n where "bit (js_and x (js_shl 1 i)) n" by (metis bit_0_eq bit_eq_iff bot_apply bot_bool_def)
    with b show "bit x i" by simp
  next
    assume "bit x i"
    moreover have "bit (js_shl 1 i) i" using assms shl by auto
    ultimately have "bit (js_and x (js_shl 1 i)) i" using b by simp
    then show "js_and x (js_shl 1 i) \<noteq> 0" by auto
  qed
qed

text \<open>What an accumulated pair stands for, and the two loops as sums of shifted multiplicands.\<close>

definition acc64 :: "int \<times> int \<Rightarrow> int" where
  "acc64 rt = fst rt * 2 ^ 32 + snd rt"

lemma take_bit_Suc_step:
  fixes x :: int
  shows "take_bit (Suc i) x = take_bit i x + (if bit x i then 2 ^ i else 0)"
  by (simp add: take_bit_Suc_from_most)

lemma mul64_low_step_acc:
  assumes "wf64 e" "0 < i" "i < 32"
    and "take_bit 64 (acc64 rt) = take_bit 64 (val64 e * m)"
  shows "take_bit 64 (acc64 (mul64_low_step e n i rt))
       = take_bit 64 (val64 e * (m + (if bit (low n) i then 2 ^ i else 0)))"
proof (cases "bit (low n) i")
  case True
  have lo: "0 \<le> low e" "low e < 2 ^ 32" using assms(1) by (simp_all add: wf64_def)
  let ?t = "js_or (js_shl (high e) i) (js_shr (low e) (32 - i)) * 2 ^ 32 + js_shr (js_shl (low e) i) 0"
  have "acc64 (mul64_low_step e n i rt) = acc64 rt + ?t"
    using True assms(3) by (simp add: mul64_low_step_def acc64_def js_bit_test distrib_right)
  also have "take_bit 64 \<dots> = take_bit 64 (val64 e * m + val64 e * 2 ^ i)"
    by (rule take_bit_add_cong [OF assms(4)])
      (use shl_halves [OF assms(2,3) lo, of "high e"] in \<open>simp only: val64_def\<close>)
  also have "val64 e * m + val64 e * 2 ^ i = val64 e * (m + 2 ^ i)"
    by (simp only: distrib_left)
  finally show ?thesis using True by simp
qed (use assms in \<open>simp add: mul64_low_step_def js_bit_test\<close>)

lemma mul64_low_loop:
  assumes "wf64 e" "k < 32"
    and "take_bit 64 (acc64 rt) = take_bit 64 (val64 e * take_bit 1 (low n))"
  shows "take_bit 64 (acc64 (fold (mul64_low_step e n) [1..<Suc k] rt))
       = take_bit 64 (val64 e * take_bit (Suc k) (low n))"
  using assms(2)
proof (induction k)
  case 0
  then show ?case using assms(3) by simp
next
  case (Suc k)
  then have "take_bit 64 (acc64 (mul64_low_step e n (Suc k) (fold (mul64_low_step e n) [1..<Suc k] rt)))
      = take_bit 64 (val64 e * (take_bit (Suc k) (low n) + (if bit (low n) (Suc k) then 2 ^ Suc k else 0)))"
    using assms(1) by (intro mul64_low_step_acc) simp_all
  then show ?case by (simp add: take_bit_Suc_step)
qed

lemma mul64_high_step_acc:
  assumes "i < 32" and "take_bit 64 (acc64 rt) = take_bit 64 (val64 e * m)"
  shows "take_bit 64 (acc64 (mul64_high_step e n i rt))
       = take_bit 64 (val64 e * (m + (if bit (high n) i then 2 ^ i else 0) * 2 ^ 32))"
proof (cases "bit (high n) i")
  case True
  have "acc64 (mul64_high_step e n i rt) = acc64 rt + js_shl (low e) i * 2 ^ 32"
    using True assms(1) by (simp add: mul64_high_step_def acc64_def js_bit_test distrib_right)
  also have "take_bit 64 \<dots> = take_bit 64 (val64 e * m + low e * 2 ^ i * 2 ^ 32)"
    by (rule take_bit_add_cong [OF assms(2) shl_low_half [OF assms(1)]])
  also have "\<dots> = take_bit 64 (val64 e * m + low e * 2 ^ i * 2 ^ 32 + (high e * 2 ^ i) * 2 ^ 64)"
    unfolding take_bit_eq_mod by (simp only: mod_mult_self1)
  also have "val64 e * m + low e * 2 ^ i * 2 ^ 32 + (high e * 2 ^ i) * 2 ^ 64
      = val64 e * (m + 2 ^ i * 2 ^ 32)"
    by (simp add: val64_def algebra_simps)
  finally show ?thesis using True by simp
qed (use assms in \<open>simp add: mul64_high_step_def js_bit_test\<close>)

lemma mul64_high_loop:
  assumes "k \<le> 32" and "take_bit 64 (acc64 rt) = take_bit 64 (val64 e * m)"
  shows "take_bit 64 (acc64 (fold (mul64_high_step e n) [0..<k] rt))
       = take_bit 64 (val64 e * (m + take_bit k (high n) * 2 ^ 32))"
  using assms(1)
proof (induction k)
  case 0
  then show ?case using assms(2) by simp
next
  case (Suc k)
  then have "take_bit 64 (acc64 (mul64_high_step e n k (fold (mul64_high_step e n) [0..<k] rt)))
      = take_bit 64 (val64 e * (m + take_bit k (high n) * 2 ^ 32
          + (if bit (high n) k then 2 ^ k else 0) * 2 ^ 32))"
    by (intro mul64_high_step_acc) simp_all
  then show ?case by (simp add: take_bit_Suc_step distrib_right add.assoc)
qed

theorem mul64_value:
  assumes "wf64 e" "wf64 n"
  shows "val64 (mul64 e n) = wrap64 (ctor e) (val64 e * val64 n)"
proof -
  let ?rt0 = "if js_and 1 (low n) \<noteq> 0 then (high e, low e) else (0, 0)"
  let ?rt1 = "fold (mul64_low_step e n) [1..<32] ?rt0"
  have bit0: "js_and 1 (low n) \<noteq> 0 \<longleftrightarrow> bit (low n) 0"
    using js_bit_test [of 0 "low n"] by (simp add: js_and_def js_shl_def ToInt32_def and.commute)
  have "take_bit 64 (acc64 ?rt0) = take_bit 64 (val64 e * take_bit 1 (low n))"
    using take_bit_Suc_step [of 0 "low n"] by (simp add: bit0 acc64_def val64_def)
  then have "take_bit 64 (acc64 ?rt1) = take_bit 64 (val64 e * take_bit 32 (low n))"
    using mul64_low_loop [OF assms(1), of 31 ?rt0 n] by simp
  also have "take_bit 32 (low n) = low n"
    using assms(2) by (simp add: wf64_def take_bit_int_eq_self_iff)
  finally have "take_bit 64 (acc64 (mul64_acc e n))
      = take_bit 64 (val64 e * (low n + take_bit 32 (high n) * 2 ^ 32))"
    unfolding mul64_acc_def Let_def by (intro mul64_high_loop) simp_all
  also have "\<dots> = take_bit 64 (val64 e * val64 n)"
    by (rule take_bit_mult_cong [OF refl])
      (use take_bit_pair [of "high n" "low n"] in \<open>simp only: val64_def add.commute\<close>)
  finally have "wrap64 (ctor e) (acc64 (mul64_acc e n)) = wrap64 (ctor e) (val64 e * val64 n)"
    by (rule wrap64_cong)
  then show ?thesis by (simp only: mul64_def val64_new64 acc64_def)
qed

text \<open>
  The accumulators are JavaScript numbers: sums of up to 64 terms of at most 32 bits, which stay far
  below \<open>2 ^ 53\<close>, the largest range in which doubles represent every integer.
\<close>

definition exact_pair :: "nat \<Rightarrow> int \<times> int \<Rightarrow> bool" where
  "exact_pair k rt \<longleftrightarrow> \<bar>fst rt\<bar> \<le> int k * 2 ^ 32 \<and> \<bar>snd rt\<bar> \<le> int k * 2 ^ 32"

lemma js_or_range: "- (2 ^ 31) \<le> js_or x y \<and> js_or x y < 2 ^ 31"
proof -
  have "js_or x y = signed_take_bit 31 (x OR y)"
    by (auto simp: js_or_def ToInt32_def bit_eq_iff bit_simps)
  then show ?thesis using ToInt32_range [of "x OR y"] by (simp add: ToInt32_def)
qed

lemma js_shl_range: "- (2 ^ 31) \<le> js_shl x n \<and> js_shl x n < 2 ^ 31"
  unfolding js_shl_def by (rule ToInt32_range)

lemma exact_pair_step:
  assumes "exact_pair k (r, t)" "\<bar>x\<bar> \<le> 2 ^ 32" "\<bar>y\<bar> \<le> 2 ^ 32"
  shows "exact_pair (Suc k) (r + x, t + y)"
proof -
  have "int (Suc k) * 2 ^ 32 = int k * 2 ^ 32 + 2 ^ 32" by (simp add: distrib_right)
  then show ?thesis
    using assms abs_triangle_ineq [of r x] abs_triangle_ineq [of t y]
    unfolding exact_pair_def fst_conv snd_conv by linarith
qed

lemma exact_pair_mono: "exact_pair k rt \<Longrightarrow> k \<le> k' \<Longrightarrow> exact_pair k' rt"
proof -
  assume k: "exact_pair k rt" "k \<le> k'"
  have "int k * 2 ^ 32 \<le> int k' * 2 ^ 32" using k(2) by simp
  with k(1) show ?thesis unfolding exact_pair_def by linarith
qed

lemma exact_low_step: "exact_pair k rt \<Longrightarrow> exact_pair (Suc k) (mul64_low_step e n i rt)"
proof -
  assume k: "exact_pair k rt"
  have "\<bar>js_or (js_shl (high e) i) (js_shr (low e) (32 - i))\<bar> \<le> 2 ^ 32"
    using js_or_range [of "js_shl (high e) i" "js_shr (low e) (32 - i)"]
    by (simp add: abs_le_iff)
  moreover have "\<bar>js_shr (js_shl (low e) i) 0\<bar> \<le> 2 ^ 32"
    using ToUint32_range [of "js_shl (low e) i"] by (simp add: js_shr_def)
  ultimately show ?thesis
    using exact_pair_step [of k "fst rt" "snd rt"] exact_pair_mono [OF k, of "Suc k"] k
    by (simp add: mul64_low_step_def)
qed

lemma exact_high_step: "exact_pair k rt \<Longrightarrow> exact_pair (Suc k) (mul64_high_step e n i rt)"
proof -
  assume k: "exact_pair k rt"
  have "\<bar>js_shl (low e) i\<bar> \<le> 2 ^ 32"
    using js_shl_range [of "low e" i] by (simp add: abs_le_iff)
  then show ?thesis
    using exact_pair_step [of k "fst rt" "snd rt" "js_shl (low e) i" 0] exact_pair_mono [OF k, of "Suc k"] k
    by (simp add: mul64_high_step_def)
qed

lemma exact_fold:
  assumes "\<And>k rt i. exact_pair k rt \<Longrightarrow> exact_pair (Suc k) (f i rt)" "exact_pair k rt"
  shows "exact_pair (k + length is) (fold f is rt)"
  using assms(2)
proof (induction "is" arbitrary: k rt)
  case (Cons i "is")
  from Cons.IH [OF assms(1) [OF Cons.prems]] show ?case by simp
qed simp

theorem mul64_exact:
  assumes "wf64 e"
  shows "\<bar>fst (mul64_acc e n)\<bar> < 2 ^ 53 \<and> \<bar>snd (mul64_acc e n)\<bar> < 2 ^ 53"
proof -
  have "exact_pair 1 (if js_and 1 (low n) \<noteq> 0 then (high e, low e) else (0, 0))"
    using assms by (cases "ctor e") (auto simp: exact_pair_def wf64_def)
  then have "exact_pair (1 + length [1..<32]) (fold (mul64_low_step e n) [1..<32]
      (if js_and 1 (low n) \<noteq> 0 then (high e, low e) else (0, 0)))"
    by (rule exact_fold [rotated]) (rule exact_low_step)
  then have "exact_pair (1 + length [1..<32] + length [0..<32]) (mul64_acc e n)"
    unfolding mul64_acc_def Let_def by (rule exact_fold [rotated]) (rule exact_high_step)
  then show ?thesis by (simp add: exact_pair_def)
qed

section \<open>Division\<close>

text \<open>
  \<open>$div64\<close>: numerator \<open>a\<close>, \<open>o\<close> and denominator \<open>$\<close>, \<open>c\<close> are made non-negative, the denominator
  is doubled \<open>s\<close> times until it reaches the numerator or its top bit, then \<open>s + 1\<close> rounds of
  shift-and-subtract fill the quotient \<open>u\<close>, \<open>l\<close>.  The doubling loop is given fuel; a denominator
  that is not zero uses at most 63 rounds of it (\<open>div64_scale_enough\<close>).
\<close>

fun div64_scale :: "nat \<Rightarrow> int \<Rightarrow> int \<Rightarrow> int \<Rightarrow> int \<Rightarrow> nat \<Rightarrow> (int \<times> int \<times> nat) option" where
  "div64_scale 0 a ol dh dl s = None"
| "div64_scale (Suc fuel) a ol dh dl s =
     (if dh < 2147483648 \<and> (a > dh \<or> a = dh \<and> ol > dl)
      then div64_scale fuel a ol (js_shr (js_or (js_shl dh 1) (js_shr dl 31)) 0)
             (js_shr (js_shl dl 1) 0) (Suc s)
      else Some (dh, dl, s))"

record div_state =
  num_h :: int  \<comment> \<open>\<open>a\<close>\<close>
  num_l :: int  \<comment> \<open>\<open>o\<close>\<close>
  den_h :: int  \<comment> \<open>\<open>$\<close>\<close>
  den_l :: int  \<comment> \<open>\<open>c\<close>\<close>
  quo_h :: int  \<comment> \<open>\<open>u\<close>\<close>
  quo_l :: int  \<comment> \<open>\<open>l\<close>\<close>

definition div64_round :: "div_state \<Rightarrow> div_state" where
  "div64_round st =
     (let u1 = js_or (js_shl (quo_h st) 1) (js_shr (quo_l st) 31);
          l1 = js_shr (js_shl (quo_l st) 1) 0;
          c1 = js_shr (js_or (js_shr (den_l st) 1) (js_shl (den_h st) 31)) 0;
          d1 = js_shr (den_h st) 1
      in if num_h st > den_h st \<or> num_h st = den_h st \<and> num_l st \<ge> den_l st
         then let a1 = num_h st - den_h st; o1 = num_l st - den_l st;
                  a2 = (if o1 < 0 then a1 - 1 else a1);
                  o2 = (if o1 < 0 then o1 + 4294967296 else o1);
                  l2 = l1 + 1;
                  u2 = (if 4294967296 = l2 then u1 + 1 else u1);
                  l3 = (if 4294967296 = l2 then 0 else l2)
              in \<lparr>num_h = a2, num_l = o2, den_h = d1, den_l = c1, quo_h = u2, quo_l = l3\<rparr>
         else st\<lparr>den_h := d1, den_l := c1, quo_h := u1, quo_l := l1\<rparr>)"

definition div64 :: "js64 \<Rightarrow> js64 \<Rightarrow> bool \<Rightarrow> js64 res option" where
  "div64 e n r =
     (if high n = 0 \<and> low n = 0 then Some (Inl (RuntimeError ''integer divide by zero''))
      else
        let neg_e = high e < 0;
            a = (if neg_e then (if low e \<noteq> 0 then - high e - 1 else - high e) else high e);
            ol = (if neg_e then (if low e \<noteq> 0 then 4294967296 - low e else low e) else low e);
            i = (if neg_e then -1 else 1 :: int);
            neg_n = high n < 0;
            dh = (if neg_n then (if low n \<noteq> 0 then - high n - 1 else - high n) else high n);
            dl = (if neg_n then (if low n \<noteq> 0 then 4294967296 - low n else low n) else low n);
            t = (if neg_n then i * -1 else i)
        in case div64_scale 64 a ol dh dl 0 of
             None \<Rightarrow> None
           | Some (dh', dl', s) \<Rightarrow>
               let st = (div64_round ^^ Suc s)
                 \<lparr>num_h = a, num_l = ol, den_h = dh', den_l = dl', quo_h = 0, quo_l = 0\<rparr>
               in Some (Inr (if r then new64 (ctor e) (num_h st * i) (num_l st * i)
                             else new64 (ctor e) (quo_h st * t) (quo_l st * t))))"

text \<open>The pairs of the loop as numbers, and doubling and halving of a pair.\<close>

abbreviation pair64 :: "int \<Rightarrow> int \<Rightarrow> int" where
  "pair64 h l \<equiv> h * 2 ^ 32 + l"

definition u32 :: "int \<Rightarrow> bool" where
  "u32 x \<longleftrightarrow> 0 \<le> x \<and> x < 2 ^ 32"

lemma u32_js_shr [simp]: "u32 (js_shr x 0)"
  using ToUint32_range [of x] by (simp add: u32_def js_shr_def)

lemma pair64_less_iff:
  assumes "u32 l" "u32 l'"
  shows "pair64 h l < pair64 h' l' \<longleftrightarrow> h < h' \<or> h = h' \<and> l < l'"
  using assms unfolding u32_def by (cases h h' rule: linorder_cases) auto

lemma or_shl1:
  assumes "u32 l"
  shows "take_bit 32 (js_or (js_shl h 1) (js_shr l 31)) = take_bit 32 (2 * h + l div 2 ^ 31)"
proof -
  have l: "js_shr l 31 = l div 2 ^ 31" using assms by (simp add: js_shr_eq u32_def)
  have b: "0 \<le> l div 2 ^ 31" "l div 2 ^ 31 < 2 ^ 1"
    using assms by (simp_all add: u32_def pos_imp_zdiv_nonneg_iff int_div_less)
  have "take_bit 32 (js_or (js_shl h 1) (js_shr l 31)) = take_bit 32 (js_shl h 1 + l div 2 ^ 31)"
    unfolding l using dvd_js_shl [of 1 h] b by (intro take_bit_js_or [of 1]) simp_all
  also have "\<dots> = take_bit 32 (h * 2 ^ 1 + l div 2 ^ 31)"
    by (rule take_bit_add_cong [OF take_bit_js_shl refl]) simp
  finally show ?thesis by (simp add: mult.commute)
qed

lemma shl1_low: "u32 l \<Longrightarrow> js_shr (js_shl l 1) 0 = (2 * l) mod 2 ^ 32"
  using take_bit_js_shl [of 1 l] by (simp add: js_shr_0 take_bit_eq_mod mult.commute)

lemma double_low: "u32 l \<Longrightarrow> 2 * l = (l div 2 ^ 31) * 2 ^ 32 + (2 * l) mod 2 ^ 32"
proof -
  have "2 * l div 2 ^ 32 = l div 2 ^ 31"
  proof -
    have "2 * l div (2 * 2 ^ 31) = l div 2 ^ 31" by (rule div_mult_mult1) simp
    then show ?thesis by simp
  qed
  then show ?thesis by (metis div_mult_mod_eq)
qed

lemma pair64_double:
  assumes "0 \<le> h" "h < 2 ^ 31" "u32 l"
  shows "pair64 (js_shr (js_or (js_shl h 1) (js_shr l 31)) 0) (js_shr (js_shl l 1) 0) = 2 * pair64 h l"
proof -
  have "l div 2 ^ 31 < 2" "0 \<le> l div 2 ^ 31"
    using assms(3) by (simp_all add: u32_def pos_imp_zdiv_nonneg_iff int_div_less)
  then have "take_bit 32 (2 * h + l div 2 ^ 31) = 2 * h + l div 2 ^ 31"
    using assms(1,2) by (simp add: take_bit_int_eq_self_iff)
  then have "js_shr (js_or (js_shl h 1) (js_shr l 31)) 0 = 2 * h + l div 2 ^ 31"
    using or_shl1 [OF assms(3), of h] by (simp only: js_shr_0 take_bit_eq_mod)
  then show ?thesis
    using double_low [OF assms(3)] by (simp add: shl1_low [OF assms(3)] del: One_nat_def)
qed

lemma pair64_halve:
  assumes "u32 h" "u32 l"
  shows "pair64 (js_shr h 1) (js_shr (js_or (js_shr l 1) (js_shl h 31)) 0) = pair64 h l div 2"
  using shr_halves [of 1 l h] assms by (simp add: u32_def js_shr_eq)

lemma u32_half: "u32 h \<Longrightarrow> u32 (js_shr h 1)"
  by (auto simp: u32_def js_shr_eq)

lemma div64_scale_enough:
  assumes "u32 a" "u32 ol" "u32 dh" "u32 dl" "2 ^ 64 \<le> pair64 dh dl * 2 ^ fuel"
  shows "\<exists>k dh' dl'. div64_scale fuel a ol dh dl s = Some (dh', dl', s + k) \<and> u32 dh' \<and> u32 dl' \<and>
           pair64 dh' dl' = pair64 dh dl * 2 ^ k \<and> pair64 a ol < 2 * pair64 dh' dl'"
  using assms(3-5)
proof (induction fuel arbitrary: dh dl s)
  case 0
  then show ?case by (simp add: u32_def)
next
  case (Suc fuel)
  show ?case
  proof (cases "dh < 2147483648 \<and> (a > dh \<or> a = dh \<and> ol > dl)")
    case True
    let ?h = "js_shr (js_or (js_shl dh 1) (js_shr dl 31)) 0" and ?l = "js_shr (js_shl dl 1) 0"
    have dbl: "pair64 ?h ?l = 2 * pair64 dh dl"
      using True Suc.prems by (intro pair64_double) (simp_all add: u32_def)
    have fuel: "2 ^ 64 \<le> pair64 ?h ?l * 2 ^ fuel"
    proof -
      have "2 * x * 2 ^ fuel = x * 2 ^ Suc fuel" for x :: int by simp
      then show ?thesis unfolding dbl using Suc.prems(3) by (simp only:)
    qed
    obtain k dh' dl' where IH: "div64_scale fuel a ol ?h ?l (Suc s) = Some (dh', dl', Suc s + k)"
      "u32 dh'" "u32 dl'" "pair64 dh' dl' = pair64 ?h ?l * 2 ^ k" "pair64 a ol < 2 * pair64 dh' dl'"
      using Suc.IH [OF _ _ fuel, of "Suc s"] by auto
    have "pair64 dh' dl' = pair64 dh dl * 2 ^ Suc k"
      using IH(4) unfolding dbl by simp
    moreover have "div64_scale (Suc fuel) a ol dh dl s = Some (dh', dl', s + Suc k)"
      using True IH(1) by simp
    ultimately show ?thesis using IH(2,3,5) by blast
  next
    case False
    have "pair64 a ol < 2 * pair64 dh dl"
    proof (cases "dh < 2147483648")
      case True
      with False have "\<not> (dh < a \<or> dh = a \<and> dl < ol)" by blast
      then have "\<not> pair64 dh dl < pair64 a ol"
        using pair64_less_iff [OF Suc.prems(2) assms(2), of dh a] by (simp only:) simp
      moreover have "0 < pair64 dh dl"
      proof (rule ccontr)
        assume "\<not> 0 < pair64 dh dl"
        then have "pair64 dh dl * 2 ^ Suc fuel \<le> 0" by (simp only: not_less mult_le_0_iff) simp
        from order_trans [OF Suc.prems(3) this] show False by simp
      qed
      moreover have "\<not> x < y \<Longrightarrow> 0 < x \<Longrightarrow> y < 2 * x" for x y :: int by simp
      ultimately show ?thesis by blast
    next
      case False
      then show ?thesis using assms(1,2) Suc.prems by (simp add: u32_def)
    qed
    moreover have "div64_scale (Suc fuel) a ol dh dl s = Some (dh, dl, s + 0)"
      by (simp only: div64_scale.simps False if_False add_0_right)
    moreover have "pair64 dh dl = pair64 dh dl * 2 ^ 0" by simp
    ultimately show ?thesis using Suc.prems(1,2) by blast
  qed
qed

text \<open>One round: a restoring-division step on the numbers the three pairs stand for.\<close>

definition div_ok :: "div_state \<Rightarrow> bool" where
  "div_ok st \<longleftrightarrow> u32 (num_l st) \<and> u32 (den_h st) \<and> u32 (den_l st) \<and> u32 (quo_l st)"

definition num64 :: "div_state \<Rightarrow> int" where "num64 st = pair64 (num_h st) (num_l st)"
definition den64 :: "div_state \<Rightarrow> int" where "den64 st = pair64 (den_h st) (den_l st)"
definition quo64 :: "div_state \<Rightarrow> int" where "quo64 st = pair64 (quo_h st) (quo_l st)"

lemma quotient_shift:
  assumes "u32 l"
  shows "take_bit 64 (pair64 (js_or (js_shl h 1) (js_shr l 31)) (js_shr (js_shl l 1) 0)) = take_bit 64 (2 * pair64 h l)"
proof -
  have "take_bit 64 (pair64 (js_or (js_shl h 1) (js_shr l 31)) ((2 * l) mod 2 ^ 32))
      = take_bit 64 (pair64 (2 * h + l div 2 ^ 31) ((2 * l) mod 2 ^ 32))"
    by (rule take_bit64_pair_cong [OF or_shl1 [OF assms]])
  also have "pair64 (2 * h + l div 2 ^ 31) ((2 * l) mod 2 ^ 32) = 2 * pair64 h l"
    using double_low [OF assms] by (simp add: distrib_right)
  finally show ?thesis by (simp only: shl1_low [OF assms])
qed

lemma u32_diff_carry:
  "u32 x \<Longrightarrow> u32 y \<Longrightarrow> x < y \<Longrightarrow> u32 (x - y + 4294967296)"
  "u32 x \<Longrightarrow> u32 y \<Longrightarrow> \<not> x < y \<Longrightarrow> u32 (x - y)"
  "u32 x \<Longrightarrow> u32 y \<Longrightarrow> y \<le> x \<Longrightarrow> u32 (x - y)"
  by (auto simp: u32_def)

lemma div64_round_step:
  assumes "div_ok st"
  defines "b \<equiv> (if den64 st \<le> num64 st then 1 else 0 :: int)"
  shows "div_ok (div64_round st)" and "den64 (div64_round st) = den64 st div 2"
    and "num64 (div64_round st) = num64 st - b * den64 st"
    and "take_bit 64 (quo64 (div64_round st)) = take_bit 64 (2 * quo64 st + b)"
proof -
  have u: "u32 (num_l st)" "u32 (den_h st)" "u32 (den_l st)" "u32 (quo_l st)"
    using assms(1) by (simp_all add: div_ok_def)
  have cmp: "(num_h st > den_h st \<or> num_h st = den_h st \<and> num_l st \<ge> den_l st) \<longleftrightarrow> den64 st \<le> num64 st"
    using pair64_less_iff [OF u(1,3), of "num_h st" "den_h st"]
    by (auto simp: num64_def den64_def not_less [symmetric])
  let ?l1 = "js_shr (js_shl (quo_l st) 1) 0"
  have even: "?l1 + 1 \<noteq> 4294967296" "u32 (?l1 + 1)"
  proof -
    have "?l1 = (2 * quo_l st) mod 2 ^ 32" by (rule shl1_low [OF u(4)])
    then have "even ?l1" "?l1 < 4294967296" "0 \<le> ?l1" by (simp_all add: dvd_mod_iff)
    then obtain c where c: "?l1 = 2 * c" "2 * c < 4294967296" "0 \<le> 2 * c" by (metis evenE)
    show "?l1 + 1 \<noteq> 4294967296" using c by presburger
    have "2 * c + 1 < 4294967296" using c by presburger
    then show "u32 (?l1 + 1)" using c by (simp add: u32_def)
  qed
  have halves: "u32 (js_shr (den_h st) 1)" using u(2) by (rule u32_half)
  show "div_ok (div64_round st)"
    using u even halves
    by (auto simp: div64_round_def Let_def div_ok_def u32_diff_carry simp del: One_nat_def)
  show "den64 (div64_round st) = den64 st div 2"
    using pair64_halve [OF u(2,3)]
    by (simp add: div64_round_def Let_def den64_def del: One_nat_def)
  show "num64 (div64_round st) = num64 st - b * den64 st"
    using cmp by (auto simp: div64_round_def Let_def num64_def den64_def b_def)
  have q: "take_bit 64 (pair64 (js_or (js_shl (quo_h st) 1) (js_shr (quo_l st) 31)) ?l1 + b) = take_bit 64 (2 * quo64 st + b)"
    unfolding quo64_def by (rule take_bit_add_cong [OF quotient_shift [OF u(4)] refl])
  show "take_bit 64 (quo64 (div64_round st)) = take_bit 64 (2 * quo64 st + b)"
    unfolding q [symmetric] using cmp even(1)
    by (simp add: div64_round_def Let_def quo64_def b_def add.assoc)
qed

lemma div64_rounds:
  assumes "div_ok st" "den64 st = D * 2 ^ k" "0 < D" "0 \<le> num64 st" "num64 st < 2 * den64 st"
  defines "st' \<equiv> (div64_round ^^ Suc k) st"
  shows "num64 st' = num64 st mod D \<and> take_bit 64 (quo64 st') = take_bit 64 (quo64 st * 2 ^ Suc k + num64 st div D)"
  using assms(1-5) unfolding st'_def
proof (induction k arbitrary: st)
  case 0
  let ?N = "num64 st"
  note step = div64_round_step [OF "0.prems"(1)]
  have den: "den64 st = D" using "0.prems"(2) by simp
  have round: "(div64_round ^^ Suc 0) st = div64_round st" by simp
  show ?case
  proof (cases "D \<le> ?N")
    case True
    have "?N div D = 1" "?N mod D = ?N - D"
      using "0.prems" True unfolding den
      by (auto intro!: int_div_pos_eq [of _ _ _ "?N - D"] int_mod_pos_eq [of _ _ 1])
    with True step(3,4) show ?thesis unfolding round den by (simp add: mult.commute)
  next
    case False
    then have "?N div D = 0" "?N mod D = ?N" using "0.prems" by simp_all
    with False step(3,4) show ?thesis unfolding round den by (simp add: mult.commute)
  qed
next
  case (Suc k)
  let ?st = "div64_round st"
  define b where "b = (if den64 st \<le> num64 st then 1 else 0 :: int)"
  note step = div64_round_step [OF Suc.prems(1), folded b_def]
  have den: "den64 ?st = D * 2 ^ k" using Suc.prems(2) step(2) by simp
  have num: "num64 ?st = num64 st - b * 2 ^ Suc k * D" using Suc.prems(2) step(3) by simp
  have bounds: "0 \<le> num64 ?st" "num64 ?st < 2 * den64 ?st"
    using Suc.prems step(3) den by (auto simp: b_def)
  have IH: "num64 ((div64_round ^^ Suc k) ?st) = num64 ?st mod D"
    "take_bit 64 (quo64 ((div64_round ^^ Suc k) ?st)) = take_bit 64 (quo64 ?st * 2 ^ Suc k + num64 ?st div D)"
    using Suc.IH [OF step(1) den Suc.prems(3) bounds] by simp_all
  have "num64 ?st mod D = num64 st mod D"
    unfolding num using mod_mult_self1 [of "num64 st" "- (b * 2 ^ Suc k)" D] by simp
  moreover have "num64 ?st div D = num64 st div D - b * 2 ^ Suc k"
    unfolding num using Suc.prems(3) div_mult_self1 [of D "num64 st" "- (b * 2 ^ Suc k)"] by simp
  moreover have "take_bit 64 (quo64 ?st * 2 ^ Suc k + (num64 st div D - b * 2 ^ Suc k))
      = take_bit 64 ((2 * quo64 st + b) * 2 ^ Suc k + (num64 st div D - b * 2 ^ Suc k))"
    by (intro take_bit_add_cong take_bit_mult_cong step(4) refl)
  moreover have "(2 * quo64 st + b) * 2 ^ Suc k + (num64 st div D - b * 2 ^ Suc k)
      = quo64 st * 2 ^ Suc (Suc k) + num64 st div D"
    by (simp add: algebra_simps)
  moreover have "(div64_round ^^ Suc (Suc k)) st = (div64_round ^^ Suc k) ?st"
    by (simp only: funpow_Suc_right comp_apply)
  ultimately show ?case using IH by (simp only:)
qed

text \<open>The sign handling of the two operands.\<close>

lemma abs_pair:
  assumes "wf64 x"
  defines "a \<equiv> (if high x < 0 then (if low x \<noteq> 0 then - high x - 1 else - high x) else high x)"
    and "l \<equiv> (if high x < 0 then (if low x \<noteq> 0 then 4294967296 - low x else low x) else low x)"
  shows "u32 a" "u32 l" "pair64 a l = \<bar>val64 x\<bar>" "high x < 0 \<longleftrightarrow> val64 x < 0"
proof -
  have b: "0 \<le> low x" "low x < 4294967296" "- 2147483648 \<le> high x" "high x < 4294967296"
    using assms(1) by (cases "ctor x"; simp add: wf64_def)+
  then show "u32 a" "u32 l" by (auto simp: a_def l_def u32_def)
  show neg: "high x < 0 \<longleftrightarrow> val64 x < 0" using b by (auto simp: val64_def)
  show "pair64 a l = \<bar>val64 x\<bar>"
  proof (cases "high x < 0")
    case True
    then have "\<bar>val64 x\<bar> = - (high x * 2 ^ 32 + low x)" using neg by (simp add: val64_def)
    also have "\<dots> = pair64 a l" using True by (simp add: a_def l_def)
    finally show ?thesis by (rule sym)
  next
    case False
    then have "\<bar>val64 x\<bar> = high x * 2 ^ 32 + low x" using neg by (simp add: val64_def)
    with False show ?thesis by (simp add: a_def l_def)
  qed
qed

lemma div64_correct:
  assumes "wf64 e" "wf64 n" "ctor n = ctor e" "val64 n \<noteq> 0"
  shows "\<exists>q. div64 e n r = Some (Inr q) \<and> ctor q = ctor e \<and> wf64 q \<and>
           val64 q = wrap64 (ctor e) (if r then tmod (val64 e) (val64 n) else tdiv (val64 e) (val64 n))"
proof -
  define a where "a = (if high e < 0 then (if low e \<noteq> 0 then - high e - 1 else - high e) else high e)"
  define ol where "ol = (if high e < 0 then (if low e \<noteq> 0 then 4294967296 - low e else low e) else low e)"
  define dh where "dh = (if high n < 0 then (if low n \<noteq> 0 then - high n - 1 else - high n) else high n)"
  define dl where "dl = (if high n < 0 then (if low n \<noteq> 0 then 4294967296 - low n else low n) else low n)"
  define i where "i = (if high e < 0 then -1 else 1 :: int)"
  define t where "t = (if high n < 0 then i * -1 else i)"
  note e = abs_pair [OF assms(1), folded a_def ol_def]
  note n = abs_pair [OF assms(2), folded dh_def dl_def]
  have D: "0 < pair64 dh dl" using assms(4) n(3) by simp
  then have fuel: "2 ^ 64 \<le> pair64 dh dl * 2 ^ 64" by simp
  obtain s dh' dl' where sc: "div64_scale 64 a ol dh dl 0 = Some (dh', dl', s)" "u32 dh'" "u32 dl'"
    "pair64 dh' dl' = pair64 dh dl * 2 ^ s" "pair64 a ol < 2 * pair64 dh' dl'"
    using div64_scale_enough [OF e(1,2) n(1,2) fuel, of 0] by auto
  define st where "st = \<lparr>num_h = a, num_l = ol, den_h = dh', den_l = dl', quo_h = 0, quo_l = 0\<rparr>"
  define st' where "st' = (div64_round ^^ Suc s) st"
  have "div_ok st" using e(2) sc(2,3) by (simp add: div_ok_def st_def u32_def)
  moreover have "den64 st = pair64 dh dl * 2 ^ s" by (simp only: den64_def st_def div_state.simps sc(4))
  moreover have "0 \<le> num64 st" "num64 st < 2 * den64 st"
    using e(3) sc(5) by (simp_all only: num64_def den64_def st_def div_state.simps abs_ge_zero)
  ultimately have res: "num64 st' = num64 st mod pair64 dh dl"
    "take_bit 64 (quo64 st') = take_bit 64 (quo64 st * 2 ^ Suc s + num64 st div pair64 dh dl)"
    unfolding st'_def using div64_rounds [of st "pair64 dh dl" s] D by blast+
  have start: "num64 st = \<bar>val64 e\<bar>" "quo64 st = 0"
    using e(3) by (simp_all add: num64_def quo64_def st_def)
  have rem: "num64 st' = \<bar>val64 e\<bar> mod \<bar>val64 n\<bar>"
    and quo: "take_bit 64 (quo64 st') = take_bit 64 (\<bar>val64 e\<bar> div \<bar>val64 n\<bar>)"
    using res by (simp_all only: start n(3)) simp
  have sgn_e: "i * x = sgn (val64 e) * x" if "val64 e = 0 \<Longrightarrow> x = 0" for x
    using that e(4) by (cases "val64 e" "0::int" rule: linorder_cases) (auto simp: i_def)
  have sgn_n: "t = i * sgn (val64 n)"
    using assms(4) n(4) by (auto simp: t_def sgn_if)
  define q where "q = (if r then new64 (ctor e) (num_h st' * i) (num_l st' * i)
                       else new64 (ctor e) (quo_h st' * t) (quo_l st' * t))"
  have nz: "\<not> (high n = 0 \<and> low n = 0)" using assms(4) by (auto simp: val64_def)
  have "div64 e n r = Some (Inr q)"
    unfolding div64_def Let_def a_def [symmetric] ol_def [symmetric] dh_def [symmetric]
      dl_def [symmetric] i_def [symmetric] t_def [symmetric]
    using nz sc(1) by (simp add: q_def st'_def st_def)
  moreover have "ctor q = ctor e" "wf64 q" by (simp_all add: q_def)
  moreover have "val64 q = wrap64 (ctor e) (if r then tmod (val64 e) (val64 n) else tdiv (val64 e) (val64 n))"
  proof (cases r)
    case True
    have "val64 q = wrap64 (ctor e) (i * num64 st')"
      using True by (simp add: q_def val64_new64 num64_def algebra_simps)
    also have "i * num64 st' = tmod (val64 e) (val64 n)"
      unfolding rem tmod_def by (rule sgn_e) simp
    finally show ?thesis using True by simp
  next
    case False
    have "val64 q = wrap64 (ctor e) (t * quo64 st')"
      using False by (simp add: q_def val64_new64 quo64_def algebra_simps)
    also have "\<dots> = wrap64 (ctor e) (t * (\<bar>val64 e\<bar> div \<bar>val64 n\<bar>))"
      by (rule wrap64_cong [OF take_bit_mult_cong [OF refl quo]])
    also have "t * (\<bar>val64 e\<bar> div \<bar>val64 n\<bar>) = tdiv (val64 e) (val64 n)"
    proof -
      have "i * (sgn (val64 n) * (\<bar>val64 e\<bar> div \<bar>val64 n\<bar>)) = sgn (val64 e) * (sgn (val64 n) * (\<bar>val64 e\<bar> div \<bar>val64 n\<bar>))"
        by (rule sgn_e) simp
      then show ?thesis by (simp only: sgn_n tdiv_def mult.assoc)
    qed
    finally show ?thesis using False by simp
  qed
  ultimately show ?thesis by blast
qed

text \<open>
  C27: \<open>$div64\<close> on two 64-bit integers of one type with a non-zero divisor returns (its doubling loop
  ends within 64 rounds, no panic) an integer of that type: the quotient truncated towards zero, or
  with \<open>r\<close> the remainder with the sign of the dividend, wrapped to 64 bits.
\<close>

theorem div64_value:
  assumes "wf64 e" "wf64 n" "ctor n = ctor e" "val64 n \<noteq> 0"
  shows "\<exists>q. div64 e n r = Some (Inr q) \<and> ctor q = ctor e \<and>
           val64 q = wrap64 (ctor e) (if r then tmod (val64 e) (val64 n) else tdiv (val64 e) (val64 n))"
  using div64_correct [OF assms] by blast

theorem div64_value_witness:
  "\<exists>q. div64 (new64 KInt64 (- 1) 4294967289) (new64 KInt64 0 2) False = Some (Inr q) \<and>
       ctor q = KInt64 \<and> val64 q = - 3"
proof -
  have v: "val64 (new64 KInt64 (- 1) 4294967289) = - 7" "val64 (new64 KInt64 0 2) = 2" by code_simp+
  have "wrap64 KInt64 (tdiv (- 7) 2) = - 3" by code_simp
  then show ?thesis
    using div64_value [of "new64 KInt64 (- 1) 4294967289" "new64 KInt64 0 2" False] by (simp add: v)
qed

lemma div64_by_zero:
  assumes "high n = 0" "low n = 0"
  shows "div64 e n r = Some (Inl (RuntimeError ''integer divide by zero''))"
  using assms by (simp add: div64_def)

end
