(* ===== verification/Io.thy ===== *)
theory Io
  imports Errors Runtime_Int64
begin

text \<open>
  Package \<open>io\<close>: \<open>ReadAtLeast\<close>, \<open>ReadFull\<close>, \<open>Copy\<close> and \<open>LimitedReader\<close>.  A reader is a state with a
  \<open>Read\<close> function: given the length of the slice to fill it returns the bytes it put there (their
  number is the result \<open>n\<close>), an error or nil, and the new state; a writer is given the bytes of the slice
  and returns \<open>n\<close> and an error.  The locales state the documented contracts of the two interfaces; the
  results about the package's functions are proved inside them.
\<close>

type_synonym 'r read_fun = "int \<Rightarrow> 'r \<Rightarrow> (int list \<times> go_error option) \<times> 'r"
type_synonym 'w write_fun = "int list \<Rightarrow> 'w \<Rightarrow> (int \<times> go_error option) \<times> 'w"

section \<open>Functions\<close>

text \<open>
  The loop of \<open>ReadAtLeast\<close>: \<open>got\<close> holds the \<open>d\<close> bytes read so far.  A reader that returns nothing and
  no error keeps it running.
\<close>

partial_function (option) read_loop ::
  "'r read_fun \<Rightarrow> int \<Rightarrow> int \<Rightarrow> int list \<Rightarrow> go_error option \<Rightarrow> 'r \<Rightarrow> (int list \<times> go_error option \<times> 'r) option" where
  "read_loop rd len c got e r =
     (if int (length got) < c \<and> e = None
      then let ((bs, e'), r') = rd (len - int (length got)) r in read_loop rd len c (got @ bs) e' r'
      else Some (got, e, r))"

text \<open>The result is the filled slice, \<open>n\<close>, the error, and the reader.\<close>

definition ReadAtLeast :: "'r read_fun \<Rightarrow> int list \<Rightarrow> int \<Rightarrow> 'r \<Rightarrow> (int list \<times> int \<times> go_error option \<times> 'r) option" where
  "ReadAtLeast rd b c r =
     (if int (length b) < c then Some (b, 0, Some ErrShortBuffer, r)
      else case read_loop rd (int (length b)) c [] None r of
             None \<Rightarrow> None
           | Some (got, e, r') \<Rightarrow>
               (let d = int (length got);
                    e' = (if d \<ge> c then None else if d > 0 \<and> e = Some EOF then Some ErrUnexpectedEOF else e)
                in Some (got @ drop (length got) b, d, e', r')))"

definition ReadFull :: "'r read_fun \<Rightarrow> int list \<Rightarrow> 'r \<Rightarrow> (int list \<times> int \<times> go_error option \<times> 'r) option" where
  "ReadFull rd b r = ReadAtLeast rd b (int (length b)) r"

text \<open>
  \<open>copyBuffer\<close> (\<open>AE\<close>) for a source without \<open>WriteTo\<close> and a target without \<open>ReadFrom\<close>; \<open>copy_with\<close> is the
  dispatch on those two methods.  \<open>limit\<close> is the field \<open>N\<close> when the source is a \<open>*LimitedReader\<close>.
\<close>

definition copy_size :: "js64 option \<Rightarrow> int" where
  "copy_size limit = (case limit of
       None \<Rightarrow> 32768
     | Some n \<Rightarrow> if less64 n (int64_of 32768)
                 then (if high n < 0 \<or> high n = 0 \<and> low n < 1 then 1 else to_int32 n)
                 else 32768)"

partial_function (option) copy_loop ::
  "'r read_fun \<Rightarrow> 'w write_fun \<Rightarrow> int \<Rightarrow> js64 \<Rightarrow> 'r \<Rightarrow> 'w \<Rightarrow> (js64 \<times> go_error option \<times> 'r \<times> 'w) option" where
  "copy_loop rd wr bufsz d r w =
     (let ((bs, er), r') = rd bufsz r in
      if bs \<noteq> [] then
        let ((nw, ew), w') = wr bs w;
            d' = (if nw > 0 then add64 d (int64_of nw) else d)
        in if ew \<noteq> None then Some (d', ew, r', w')
           else if int (length bs) \<noteq> nw then Some (d', Some ErrShortWrite, r', w')
           else if er \<noteq> None then Some (d', if er = Some EOF then None else er, r', w')
           else copy_loop rd wr bufsz d' r' w'
      else if er \<noteq> None then Some (d, if er = Some EOF then None else er, r', w)
      else copy_loop rd wr bufsz d r' w)"

definition copy_with ::
  "('r \<Rightarrow> 'w \<Rightarrow> (js64 \<times> go_error option \<times> 'r \<times> 'w) option) option \<Rightarrow>
   ('r \<Rightarrow> 'w \<Rightarrow> (js64 \<times> go_error option \<times> 'r \<times> 'w) option) option \<Rightarrow>
   'r read_fun \<Rightarrow> 'w write_fun \<Rightarrow> js64 option \<Rightarrow> 'r \<Rightarrow> 'w \<Rightarrow> (js64 \<times> go_error option \<times> 'r \<times> 'w) option" where
  "copy_with write_to read_from rd wr limit r w =
     (case write_to of Some f \<Rightarrow> f r w
      | None \<Rightarrow> (case read_from of Some f \<Rightarrow> f r w
                | None \<Rightarrow> copy_loop rd wr (copy_size limit) (int64_of 0) r w))"

text \<open>\<open>LimitedReader.Read\<close>; its state is the underlying reader and \<open>N\<close>.\<close>

definition LimitedReader_Read :: "'r read_fun \<Rightarrow> ('r \<times> js64) read_fun" where
  "LimitedReader_Read rd len rn = (case rn of (r, n) \<Rightarrow>
     if high n < 0 \<or> high n = 0 \<and> low n \<le> 0 then (([], Some EOF), (r, n))
     else let len' = (if less64 n (int64_of len) then flatten64 n else len);
              ((bs, e), r') = rd len' r
          in ((bs, e), (r', sub64 n (int64_of (int (length bs))))))"

section \<open>Contracts\<close>

text \<open>
  A reader of a finite stream that ends with \<open>io.EOF\<close>: it returns at most as many bytes as asked, the
  next bytes of the stream, an error only at the end, and it does not return nothing without an error.
\<close>

locale reader =
  fixes rd :: "'r read_fun" and stream :: "'r \<Rightarrow> int list" and inv :: "'r \<Rightarrow> bool"
  assumes read_inv: "inv r \<Longrightarrow> 0 < n \<Longrightarrow> n < 2 ^ 31 \<Longrightarrow> rd n r = ((bs, e), r') \<Longrightarrow> inv r'"
    and read_len: "inv r \<Longrightarrow> 0 < n \<Longrightarrow> n < 2 ^ 31 \<Longrightarrow> rd n r = ((bs, e), r') \<Longrightarrow> int (length bs) \<le> n"
    and read_data: "inv r \<Longrightarrow> 0 < n \<Longrightarrow> n < 2 ^ 31 \<Longrightarrow> rd n r = ((bs, e), r') \<Longrightarrow> stream r = bs @ stream r'"
    and read_err: "inv r \<Longrightarrow> 0 < n \<Longrightarrow> n < 2 ^ 31 \<Longrightarrow> rd n r = ((bs, e), r') \<Longrightarrow> e \<noteq> None \<Longrightarrow> e = Some EOF \<and> stream r' = []"
    and read_progress: "inv r \<Longrightarrow> 0 < n \<Longrightarrow> n < 2 ^ 31 \<Longrightarrow> rd n r = ((bs, e), r') \<Longrightarrow> e = None \<Longrightarrow> bs \<noteq> []"
begin

lemma read_loop_spec:
  assumes "inv r" "int (length got) \<le> len" "c \<le> len" "len < 2 ^ 31"
  shows "\<exists>k e r'. read_loop rd len c got None r = Some (got @ take k (stream r), e, r') \<and> inv r' \<and>
     stream r' = drop k (stream r) \<and> k \<le> length (stream r) \<and> int (length got + k) \<le> len \<and>
     (c \<le> int (length got + k) \<or> e = Some EOF \<and> k = length (stream r))"
  using assms
proof (induction "nat (c - int (length got))" arbitrary: r got rule: less_induct)
  case less
  show ?case
  proof (cases "int (length got) < c")
    case False
    then have "read_loop rd len c got None r = Some (got, None, r)" by (subst read_loop.simps) simp
    then show ?thesis using False less.prems by (intro exI [of _ 0]) simp
  next
    case True
    let ?n = "len - int (length got)"
    obtain bs e r' where rd: "rd ?n r = ((bs, e), r')" by (metis prod.exhaust)
    have n: "0 < ?n" "?n < 2 ^ 31" using True less.prems by simp_all
    note l = read_inv [OF less.prems(1) n rd] read_len [OF less.prems(1) n rd]
      read_data [OF less.prems(1) n rd] read_err [OF less.prems(1) n rd]
      read_progress [OF less.prems(1) n rd]
    have step: "read_loop rd len c got None r = read_loop rd len c (got @ bs) e r'"
      using True by (subst read_loop.simps) (simp add: rd)
    show ?thesis
    proof (cases e)
      case (Some x)
      then have x: "x = EOF" "stream r' = []" using l(4) by simp_all
      have "read_loop rd len c (got @ bs) e r' = Some (got @ bs, Some EOF, r')"
        using Some x by (subst read_loop.simps) simp
      then show ?thesis using step l(1-3) x
        by (intro exI [of _ "length bs"] exI [of _ "Some EOF"] exI [of _ r']) simp
    next
      case None
      then have "bs \<noteq> []" using l(5) by simp
      then have "nat (c - int (length (got @ bs))) < nat (c - int (length got))" using True by simp
      from less.hyps [OF this l(1)] l(2) less.prems(3,4) obtain k e2 r2 where
        "read_loop rd len c (got @ bs) None r' = Some ((got @ bs) @ take k (stream r'), e2, r2)" "inv r2"
        "stream r2 = drop k (stream r')" "k \<le> length (stream r')" "int (length (got @ bs) + k) \<le> len"
        "c \<le> int (length (got @ bs) + k) \<or> e2 = Some EOF \<and> k = length (stream r')" by auto
      then show ?thesis using step None l(3)
        by (intro exI [of _ "length bs + k"] exI [of _ e2] exI [of _ r2]) auto
    qed
  qed
qed

lemma ReadFull_spec:
  assumes "inv r" "length b < 2 ^ 31"
  shows "\<exists>r'. inv r' \<and> (let n = min (length b) (length (stream r)) in
     ReadFull rd b r = Some (take n (stream r) @ drop n b, int n,
        if length b \<le> length (stream r) then None else if n = 0 then Some EOF else Some ErrUnexpectedEOF, r') \<and>
     stream r' = drop n (stream r))"
proof -
  have len: "int (length b) < 2 ^ 31" using assms(2) by simp
  from read_loop_spec [OF assms(1), of "[]" "int (length b)" "int (length b)"] len obtain k e r' where
    k: "read_loop rd (int (length b)) (int (length b)) [] None r = Some (take k (stream r), e, r')" "inv r'"
      "stream r' = drop k (stream r)" "k \<le> length (stream r)" "k \<le> length b"
      "length b \<le> k \<or> e = Some EOF \<and> k = length (stream r)" by auto
  then have n: "k = min (length b) (length (stream r))" by linarith
  have "length (take k (stream r)) = k" using k(4) by simp
  with k n show ?thesis
    by (intro exI [of _ r']) (auto simp: ReadFull_def ReadAtLeast_def Let_def)
qed

text \<open>A \<open>LimitedReader\<close> over such a reader is such a reader, of the first \<open>N\<close> bytes.\<close>

lemma limited_reader:
  "reader (LimitedReader_Read rd) (\<lambda>rn. take (nat (val64 (snd rn))) (stream (fst rn)))
     (\<lambda>rn. inv (fst rn) \<and> wf64 (snd rn) \<and> ctor (snd rn) = KInt64)"
proof (unfold_locales, goal_cases)
  have step: "inv (fst x) \<Longrightarrow> wf64 (snd x) \<Longrightarrow> ctor (snd x) = KInt64 \<Longrightarrow> 0 < n \<Longrightarrow> n < 2 ^ 31 \<Longrightarrow>
     LimitedReader_Read rd n x = ((bs, e), x') \<Longrightarrow>
     inv (fst x') \<and> wf64 (snd x') \<and> ctor (snd x') = KInt64 \<and> int (length bs) \<le> n \<and>
     take (nat (val64 (snd x))) (stream (fst x)) = bs @ take (nat (val64 (snd x'))) (stream (fst x')) \<and>
     (e \<noteq> None \<longrightarrow> e = Some EOF \<and> take (nat (val64 (snd x'))) (stream (fst x')) = []) \<and>
     (e = None \<longrightarrow> bs \<noteq> [])" for x n bs e x'
  proof -
    assume a: "inv (fst x)" "wf64 (snd x)" "ctor (snd x) = KInt64" "0 < n" "n < 2 ^ 31"
      "LimitedReader_Read rd n x = ((bs, e), x')"
    obtain r N where x: "x = (r, N)" by (cases x)
    have pos: "high N < 0 \<or> high N = 0 \<and> low N \<le> 0 \<longleftrightarrow> val64 N \<le> 0"
      using a(2) x by (auto simp: wf64_def val64_def)
    show ?thesis
    proof (cases "val64 N \<le> 0")
      case True
      then have "bs = [] \<and> e = Some EOF \<and> x' = x" using a(6) pos by (simp add: LimitedReader_Read_def x)
      with a True show ?thesis by (simp add: x)
    next
      case False
      define len' where "len' = (if less64 N (int64_of n) then flatten64 N else n)"
      have l: "len' = min (val64 N) n"
        using a(2,4,5) by (simp add: len'_def less64_val x val64_int64_of flatten64_val64)
      obtain r' where rd: "rd len' r = ((bs, e), r')" and x': "x' = (r', sub64 N (int64_of (int (length bs))))"
        using a(6) pos False by (auto simp: LimitedReader_Read_def x Let_def len'_def split: prod.splits)
      have b: "0 < len'" "len' < 2 ^ 31" using l a(4,5) False by simp_all
      note rl = read_inv [OF _ b rd] read_len [OF _ b rd] read_data [OF _ b rd] read_err [OF _ b rd]
      have r: "inv r" using a(1) x by simp
      have lb: "int (length bs) \<le> val64 N" "int (length bs) \<le> n" using rl(2) [OF r] l by simp_all
      have "in_range64 KInt64 (val64 N)" using in_range64_val64 [of N] a(2,3) x by simp
      then have v: "val64 (sub64 N (int64_of (int (length bs)))) = val64 N - int (length bs)"
        using lb a(3,5) x by (simp add: val64_sub64 val64_int64_of wrap64_int in_range64_def)
      have "nat (val64 N - int (length bs)) = nat (val64 N) - length bs" using lb by linarith
      moreover have "length bs \<le> nat (val64 N)" using lb by linarith
      ultimately have d: "take (nat (val64 N)) (stream r) = bs @ take (nat (val64 N - int (length bs))) (stream r')"
        using rl(3) [OF r] by (simp add: min_absorb1)
      have p: "bs \<noteq> []" if "e = None"
        using read_progress [OF r b rd that] .
      show ?thesis using rl(1) [OF r] rl(4) [OF r] lb d p a(3) x x' v by simp
    qed
  qed
  { case (1 x n bs e x') then show ?case using step [of x n bs e x'] by simp
  next case (2 x n bs e x') then show ?case using step [of x n bs e x'] by simp
  next case (3 x n bs e x') then show ?case using step [of x n bs e x'] by simp
  next case (4 x n bs e x') then show ?case using step [of x n bs e x'] by simp
  next case (5 x n bs e x') then show ?case using step [of x n bs e x'] by simp }
qed

end

text \<open>A writer that takes everything, and a copy to it from such a reader.\<close>

locale sink =
  fixes wr :: "'w write_fun" and written :: "'w \<Rightarrow> int list" and winv :: "'w \<Rightarrow> bool"
  assumes write_all: "winv w \<Longrightarrow> length bs < 2 ^ 31 \<Longrightarrow>
    \<exists>w'. wr bs w = ((int (length bs), None), w') \<and> written w' = written w @ bs \<and> winv w'"

locale copying = reader rd stream inv + sink wr written winv
  for rd :: "'r read_fun" and stream inv and wr :: "'w write_fun" and written winv
begin

lemma copy_loop_all:
  assumes "inv r" "winv w" "0 < bufsz" "bufsz < 2 ^ 31" "wf64 d" "ctor d = KInt64" "0 \<le> val64 d"
    and "val64 d + int (length (stream r)) < 2 ^ 63"
  shows "\<exists>d' r' w'. copy_loop rd wr bufsz d r w = Some (d', None, r', w') \<and> wf64 d' \<and> ctor d' = KInt64 \<and>
    val64 d' = val64 d + int (length (stream r)) \<and> stream r' = [] \<and> inv r' \<and> winv w' \<and>
    written w' = written w @ stream r"
  using assms
proof (induction "length (stream r)" arbitrary: r w d rule: less_induct)
  case less
  obtain bs e r' where rd: "rd bufsz r = ((bs, e), r')" by (metis prod.exhaust)
  note l = read_inv [OF less.prems(1,3,4) rd] read_data [OF less.prems(1,3,4) rd]
    read_err [OF less.prems(1,3,4) rd] read_progress [OF less.prems(1,3,4) rd]
  show ?case
  proof (cases "bs = []")
    case True
    then have "e = Some EOF" "stream r' = []" using l(3,4) by (cases e; simp)+
    then show ?thesis using True l(1,2) less.prems by (subst copy_loop.simps) (simp add: rd Let_def)
  next
    case False
    have "length bs < 2 ^ 31" using read_len [OF less.prems(1,3,4) rd] less.prems(4) by simp
    from write_all [OF less.prems(2) this] obtain w' where w': "wr bs w = ((int (length bs), None), w')"
      "written w' = written w @ bs" "winv w'" by blast
    let ?d = "add64 d (int64_of (int (length bs)))"
    have len: "length (stream r) = length bs + length (stream r')" using l(2) by simp
    have vd: "val64 ?d = val64 d + int (length bs)"
      using less.prems(6-8) len by (simp add: val64_add64 val64_int64_of wrap64_int)
    show ?thesis
    proof (cases e)
      case (Some x)
      then have "x = EOF" "stream r' = []" using l(3) by simp_all
      then show ?thesis using False Some w' l(1,2) less.prems(5,6) vd len
        by (subst copy_loop.simps) (simp add: rd Let_def)
    next
      case None
      have "copy_loop rd wr bufsz d r w = copy_loop rd wr bufsz ?d r' w'"
        using False None w'(1) by (subst copy_loop.simps) (simp add: rd Let_def)
      moreover have "length (stream r') < length (stream r)" using False len by simp
      from less.hyps [OF this l(1) w'(3) less.prems(3,4), of ?d] obtain d' r2 w2 where
        "copy_loop rd wr bufsz ?d r' w' = Some (d', None, r2, w2)" "wf64 d'" "ctor d' = KInt64"
        "val64 d' = val64 ?d + int (length (stream r'))" "stream r2 = []" "inv r2" "winv w2"
        "written w2 = written w' @ stream r'"
        using vd less.prems len by auto
      ultimately show ?thesis using vd w'(2) l(2) len by simp
    qed
  qed
qed

end

end
