(* ===== verification/Bytes_Reader.thy ===== *)
theory Bytes_Reader
  imports Io
begin

text \<open>
  \<open>bytes.Reader\<close> (type \<open>BS\<close> of package \<open>bytes\<close>): a byte slice \<open>s\<close>, a 64-bit position \<open>i\<close>, and \<open>prevRune\<close>.
  It provides the contract \<open>reader\<close> of package \<open>io\<close>.  A method that would panic returns the panic.
\<close>

record bytes_reader =
  br_s :: "int list"
  br_i :: js64
  prevRune :: int

definition NewReader :: "int list \<Rightarrow> bytes_reader" where
  "NewReader d = \<lparr>br_s = d, br_i = int64_of 0, prevRune = -1\<rparr>"

definition br_Reset :: "int list \<Rightarrow> bytes_reader \<Rightarrow> bytes_reader" where
  "br_Reset d r = NewReader d"

text \<open>The test \<open>g.i >= int64(len(g.s))\<close>.\<close>

definition br_done :: "bytes_reader \<Rightarrow> bool" where
  "br_done r \<longleftrightarrow> (let h = br_i r; i = int64_of (int (length (br_s r)))
     in high h > high i \<or> high h = high i \<and> low h \<ge> low i)"

definition br_Len :: "bytes_reader \<Rightarrow> int" where
  "br_Len r = (if br_done r then 0 else to_int32 (sub64 (int64_of (int (length (br_s r)))) (br_i r)))"

definition br_Size :: "bytes_reader \<Rightarrow> js64" where
  "br_Size r = int64_of (int (length (br_s r)))"

text \<open>
  \<open>$subslice(s, i)\<close> raises for an index outside the slice; with a position kept non-negative by every
  method and the test before it this cannot happen, and \<open>Read\<close> returns the bytes.
\<close>

definition br_Read :: "bytes_reader read_fun" where
  "br_Read n r =
     (if br_done r then (([], Some EOF), r)
      else let bs = take (nat n) (drop (nat (flatten64 (br_i r))) (br_s r))
           in ((bs, None), r\<lparr>prevRune := -1, br_i := add64 (br_i r) (int64_of (int (length bs)))\<rparr>))"

definition br_ReadByte :: "bytes_reader \<Rightarrow> (int \<times> go_error option) res \<times> bytes_reader" where
  "br_ReadByte r =
     (let r = r\<lparr>prevRune := -1\<rparr> in
      if br_done r then (Inr (0, Some EOF), r)
      else case js_index (br_s r) (flatten64 (br_i r)) of
             Inl p \<Rightarrow> (Inl p, r)
           | Inr b \<Rightarrow> (Inr (b, None), r\<lparr>br_i := add64 (br_i r) (int64_of 1)\<rparr>))"

definition br_UnreadByte :: "nat \<Rightarrow> bytes_reader \<Rightarrow> go_error option \<times> nat \<times> bytes_reader" where
  "br_UnreadByte errs r =
     (if high (br_i r) < 0 \<or> high (br_i r) = 0 \<and> low (br_i r) \<le> 0
      then (let (e, errs') = errors_New ''bytes.Reader.UnreadByte: at beginning of slice'' errs in (Some e, errs', r))
      else (None, errs, r\<lparr>prevRune := -1, br_i := sub64 (br_i r) (int64_of 1)\<rparr>))"

definition br_Seek :: "nat \<Rightarrow> js64 \<Rightarrow> int \<Rightarrow> bytes_reader \<Rightarrow> (js64 \<times> go_error option) \<times> nat \<times> bytes_reader" where
  "br_Seek errs d whence r =
     (let r = r\<lparr>prevRune := -1\<rparr> in
      if whence \<noteq> 0 \<and> whence \<noteq> 1 \<and> whence \<noteq> 2
      then (let (e, errs') = errors_New ''bytes.Reader.Seek: invalid whence'' errs in ((int64_of 0, Some e), errs', r))
      else
        let g = (if whence = 0 then d else if whence = 1 then add64 (br_i r) d
                 else add64 (int64_of (int (length (br_s r)))) d)
        in if high g < 0 \<or> high g = 0 \<and> low g < 0
           then (let (e, errs') = errors_New ''bytes.Reader.Seek: negative position'' errs in ((int64_of 0, Some e), errs', r))
           else ((g, None), errs, r\<lparr>br_i := g\<rparr>))"

definition br_WriteTo :: "'w write_fun \<Rightarrow> bytes_reader \<Rightarrow> 'w \<Rightarrow> ((js64 \<times> go_error option) res \<times> bytes_reader \<times> 'w)" where
  "br_WriteTo wr r w =
     (let r = r\<lparr>prevRune := -1\<rparr> in
      if br_done r then (Inr (int64_of 0, None), r, w)
      else let l = drop (nat (flatten64 (br_i r))) (br_s r);
               ((n, e), w') = wr l w
           in if n > int (length l) then (Inl (Panic ''bytes.Reader.WriteTo: invalid Write count''), r, w')
              else (Inr (int64_of n, if n \<noteq> int (length l) \<and> e = None then Some ErrShortWrite else e),
                    r\<lparr>br_i := add64 (br_i r) (int64_of n)\<rparr>, w'))"

section \<open>The reader contract\<close>

definition br_ok :: "bytes_reader \<Rightarrow> bool" where
  "br_ok r \<longleftrightarrow> wf64 (br_i r) \<and> ctor (br_i r) = KInt64 \<and> 0 \<le> val64 (br_i r) \<and> length (br_s r) < 2 ^ 31"

definition br_rest :: "bytes_reader \<Rightarrow> int list" where
  "br_rest r = drop (nat (val64 (br_i r))) (br_s r)"

lemma br_ok_new: "length d < 2 ^ 31 \<Longrightarrow> br_ok (NewReader d) \<and> br_rest (NewReader d) = d"
  by (simp add: br_ok_def NewReader_def br_rest_def val64_int64_of)

lemma br_done_iff: "br_ok r \<Longrightarrow> br_done r \<longleftrightarrow> br_rest r = []"
proof -
  assume ok: "br_ok r"
  let ?i = "int64_of (int (length (br_s r)))"
  have "br_done r \<longleftrightarrow> le64 ?i (br_i r)" by (auto simp: br_done_def le64_def Let_def)
  also have "\<dots> \<longleftrightarrow> int (length (br_s r)) \<le> val64 (br_i r)"
    using ok by (simp add: le64_val val64_int64_of br_ok_def)
  also have "\<dots> \<longleftrightarrow> br_rest r = []" using ok by (auto simp: br_rest_def br_ok_def le_nat_iff)
  finally show ?thesis .
qed

lemma br_Read_step:
  assumes "br_ok r" "0 < n" "n < 2 ^ 31" "br_Read n r = ((bs, e), r')"
  shows "br_ok r' \<and> int (length bs) \<le> n \<and> br_rest r = bs @ br_rest r' \<and>
    (e \<noteq> None \<longrightarrow> e = Some EOF \<and> br_rest r' = []) \<and> (e = None \<longrightarrow> bs \<noteq> [])"
proof (cases "br_done r")
  case True
  then show ?thesis using assms br_done_iff [OF assms(1)] by (auto simp: br_Read_def)
next
  case False
  then have ne: "br_rest r \<noteq> []" using br_done_iff [OF assms(1)] by simp
  have bs: "bs = take (nat n) (br_rest r)" and e: "e = None"
    and r': "r' = r\<lparr>prevRune := -1, br_i := add64 (br_i r) (int64_of (int (length bs)))\<rparr>"
    using assms(4) False by (auto simp: br_Read_def br_rest_def flatten64_val64 Let_def)
  have i: "0 \<le> val64 (br_i r)" "val64 (br_i r) < int (length (br_s r))" "length (br_s r) < 2 ^ 31"
    using ne assms(1) by (auto simp: br_rest_def br_ok_def)
  have lb: "int (length bs) \<le> n" "length bs \<le> length (br_s r)"
    using assms(2) by (auto simp: bs br_rest_def)
  have "val64 (add64 (br_i r) (int64_of (int (length bs)))) = val64 (br_i r) + int (length bs)"
    using i lb assms(1) by (simp add: val64_add64 val64_int64_of wrap64_int br_ok_def)
  then have v: "val64 (br_i r') = val64 (br_i r) + int (length bs)" by (simp add: r')
  have ok: "br_ok r'" using assms(1) i v by (simp add: br_ok_def r')
  have "br_rest r' = drop (length bs) (br_rest r)"
    using i(1) by (simp add: br_rest_def v) (simp add: r' nat_add_distrib add.commute)
  also have "\<dots> = drop (nat n) (br_rest r)" by (cases "nat n \<le> length (br_rest r)") (simp_all add: bs)
  finally have "br_rest r = bs @ br_rest r'" by (simp add: bs)
  moreover have "bs \<noteq> []" using assms(2) ne by (simp add: bs)
  ultimately show ?thesis using ok lb e by simp
qed

interpretation bytes_reader: reader br_Read br_rest br_ok
  by unfold_locales (use br_Read_step in \<open>blast+\<close>)

interpretation limited_bytes: reader "LimitedReader_Read br_Read"
  "\<lambda>rn. take (nat (val64 (snd rn))) (br_rest (fst rn))"
  "\<lambda>rn. br_ok (fst rn) \<and> wf64 (snd rn) \<and> ctor (snd rn) = KInt64"
  by (rule bytes_reader.limited_reader)

end
