(* ===== verification/Strings_Builder.thy ===== *)
theory Strings_Builder
  imports Runtime_Slice Bytes_Reader
begin

text \<open>
  \<open>strings.Builder\<close> (type \<open>L\<close> of package \<open>strings\<close>): a byte slice that grows by \<open>append\<close> and the address
  of the builder at its first use, against copies.  A builder is an object at an address; \<open>Write\<close> meets
  the writer contract of package \<open>io\<close>.
\<close>

record builder =
  b_addr :: "nat option"   \<comment> \<open>\<open>addr\<close>, nil or the address of a builder\<close>
  b_buf :: slice

definition nil_slice :: slice where
  "nil_slice = \<lparr>s_array = 0, s_offset = 0, s_length = 0, s_capacity = 0, s_nil = True\<rparr>"

text \<open>\<open>self\<close> is the address of the builder the method is called on.\<close>

definition copyCheck :: "nat \<Rightarrow> builder \<Rightarrow> builder res" where
  "copyCheck self b = (case b_addr b of
       None \<Rightarrow> Inr (b\<lparr>b_addr := Some self\<rparr>)
     | Some a \<Rightarrow> if a \<noteq> self then Inl (Panic ''strings: illegal use of non-zero Builder copied by value'') else Inr b)"

definition builder_Len :: "builder \<Rightarrow> int" where "builder_Len b = int (s_length (b_buf b))"
definition builder_Cap :: "builder \<Rightarrow> int" where "builder_Cap b = int (s_capacity (b_buf b))"

definition builder_Reset :: "builder \<Rightarrow> builder" where
  "builder_Reset b = \<lparr>b_addr = None, b_buf = nil_slice\<rparr>"

definition builder_grow :: "int \<Rightarrow> builder \<times> int store \<Rightarrow> (builder \<times> int store) res" where
  "builder_grow n bh = (case bh of (b, h) \<Rightarrow>
     res_bind (makeSlice 0 h (int (s_length (b_buf b))) (Some (js_sar (js_imul 2 (int (s_capacity (b_buf b))) + n) 0)))
       (\<lambda>(g, h'). Inr (b\<lparr>b_buf := g\<rparr>, snd (copySlice True h' g (b_buf b)))))"

definition builder_Grow :: "nat \<Rightarrow> int \<Rightarrow> builder \<times> int store \<Rightarrow> (builder \<times> int store) res" where
  "builder_Grow self n bh = (case bh of (b, h) \<Rightarrow>
     res_bind (copyCheck self b) (\<lambda>b.
       if n < 0 then Inl (Panic ''strings.Builder.Grow: negative count'')
       else if js_sar (int (s_capacity (b_buf b)) - int (s_length (b_buf b))) 0 < n then builder_grow n (b, h)
       else Inr (b, h)))"

definition builder_Write :: "nat \<Rightarrow> slice \<Rightarrow> builder \<times> int store \<Rightarrow> ((int \<times> go_error option) \<times> builder \<times> int store) res" where
  "builder_Write self e bh = (case bh of (b, h) \<Rightarrow>
     res_bind (copyCheck self b) (\<lambda>b.
       let (buf, h') = appendSlice True 0 h (b_buf b) e
       in Inr ((int (s_length e), None), b\<lparr>b_buf := buf\<rparr>, h')))"

definition builder_WriteByte :: "nat \<Rightarrow> int \<Rightarrow> builder \<times> int store \<Rightarrow> (go_error option \<times> builder \<times> int store) res" where
  "builder_WriteByte self x bh = (case bh of (b, h) \<Rightarrow>
     res_bind (copyCheck self b) (\<lambda>b.
       let (buf, h') = append_args True 0 h (b_buf b) [x] in Inr (None, b\<lparr>b_buf := buf\<rparr>, h')))"

text \<open>\<open>String\<close>: the bytes of the buffer.\<close>

definition builder_String :: "builder \<times> int store \<Rightarrow> int list" where
  "builder_String bh = sliceToArray (snd bh) (b_buf (fst bh))"

section \<open>The writer contract\<close>

definition builder_ok :: "nat \<Rightarrow> builder \<times> int store \<Rightarrow> bool" where
  "builder_ok self bh \<longleftrightarrow> (b_addr (fst bh) = None \<or> b_addr (fst bh) = Some self) \<and> wf_slice (snd bh) (b_buf (fst bh))"

lemma builder_Write_spec:
  assumes "builder_ok self bh" "wf_slice (snd bh) e"
  shows "\<exists>bh'. builder_Write self e bh = Inr ((int (s_length e), None), bh') \<and> builder_ok self bh' \<and>
    builder_String bh' = builder_String bh @ sliceToArray (snd bh) e"
proof -
  obtain b h where bh: "bh = (b, h)" by (cases bh)
  obtain buf h' where app: "appendSlice True 0 h (b_buf b) e = (buf, h')"
    by (cases "appendSlice True 0 h (b_buf b) e")
  have "copyCheck self b = Inr (b\<lparr>b_addr := Some self\<rparr>)"
    using assms(1) by (cases b) (auto simp: copyCheck_def builder_ok_def bh)
  then show ?thesis
    using assms appendSlice_spec [OF _ _ app] app
    by (simp add: builder_Write_def bh builder_ok_def builder_String_def)
qed

text \<open>
  A writer call of \<open>copyBuffer\<close> passes a slice of the copy's own buffer: the bytes are put in a fresh array
  and handed to \<open>Write\<close>.
\<close>

definition builder_writer :: "nat \<Rightarrow> (builder \<times> int store) write_fun" where
  "builder_writer self bs bh = (case bh of (b, h) \<Rightarrow>
     (let (p, h1) = alloc h bs;
          e = \<lparr>s_array = p, s_offset = 0, s_length = length bs, s_capacity = length bs, s_nil = False\<rparr>
      in case builder_Write self e (b, h1) of
           Inl _ \<Rightarrow> ((0, None), (b, h1))
         | Inr (r, bh') \<Rightarrow> (r, bh')))"

lemma builder_writer_spec:
  assumes "builder_ok self bh"
  shows "\<exists>bh'. builder_writer self bs bh = ((int (length bs), None), bh') \<and> builder_String bh' = builder_String bh @ bs \<and>
    builder_ok self bh'"
proof -
  obtain b h where bh: "bh = (b, h)" by (cases bh)
  let ?h = "snd (alloc h bs)"
  let ?e = "\<lparr>s_array = fresh h, s_offset = 0, s_length = length bs, s_capacity = length bs, s_nil = False\<rparr>"
  have wf: "wf_slice ?h ?e" by (simp add: wf_slice_def)
  have "wf_slice h (b_buf b)" using assms by (simp add: builder_ok_def bh)
  then have "wf_slice ?h (b_buf b)" "sliceToArray ?h (b_buf b) = sliceToArray h (b_buf b)"
    by (simp_all add: wf_slice_def sliceToArray_def)
  then have ok: "builder_ok self (b, ?h)" "builder_String (b, ?h) = builder_String bh"
    using assms by (simp_all add: builder_ok_def builder_String_def bh)
  have sl: "sliceToArray ?h ?e = bs" by (simp add: sliceToArray_def)
  have "\<exists>bh'. builder_Write self ?e (b, ?h) = Inr ((int (s_length ?e), None), bh') \<and> builder_ok self bh' \<and>
      builder_String bh' = builder_String (b, ?h) @ sliceToArray (snd (b, ?h)) ?e"
    by (rule builder_Write_spec [OF ok(1)]) (use wf in simp)
  then obtain bh' where w: "builder_Write self ?e (b, ?h) = Inr ((int (length bs), None), bh')" "builder_ok self bh'"
    "builder_String bh' = builder_String bh @ bs"
    unfolding ok(2) snd_conv sl slice.simps by blast
  have "builder_writer self bs bh = ((int (length bs), None), bh')"
    using w(1) unfolding builder_writer_def bh by (simp add: Let_def case_prod_beta)
  with w show ?thesis by blast
qed

interpretation limited_copy: copying "LimitedReader_Read br_Read"
  "\<lambda>rn. take (nat (val64 (snd rn))) (br_rest (fst rn))"
  "\<lambda>rn. br_ok (fst rn) \<and> wf64 (snd rn) \<and> ctor (snd rn) = KInt64"
  "builder_writer self" builder_String "builder_ok self" for self
  by unfold_locales (rule builder_writer_spec)

section \<open>Properties of package io\<close>

text \<open>
  \<open>io.ReadFull\<close> on a \<open>bytes.Reader\<close> terminates and fills the slice with the next bytes when there are
  enough of them; otherwise it returns what there is with \<open>io.EOF\<close> when that is nothing and
  \<open>io.ErrUnexpectedEOF\<close> when it is part of the slice, and leaves the rest of the slice alone.  The reader
  has moved past exactly the bytes returned.
\<close>

theorem ReadFull_bytes:
  assumes "br_ok r" "length b < 2 ^ 31"
  shows "\<exists>r'. ReadFull br_Read b r = Some (take (min (length b) (length (br_rest r))) (br_rest r) @
        drop (min (length b) (length (br_rest r))) b, int (min (length b) (length (br_rest r))),
      if length b \<le> length (br_rest r) then None
      else if br_rest r = [] then Some EOF else Some ErrUnexpectedEOF, r') \<and>
    br_rest r' = drop (min (length b) (length (br_rest r))) (br_rest r)"
proof -
  let ?n = "min (length b) (length (br_rest r))"
  obtain r' where "ReadFull br_Read b r = Some (take ?n (br_rest r) @ drop ?n b, int ?n,
      if length b \<le> length (br_rest r) then None else if ?n = 0 then Some EOF else Some ErrUnexpectedEOF, r')"
    "br_rest r' = drop ?n (br_rest r)"
    using bytes_reader.ReadFull_spec [OF assms] by (auto simp: Let_def)
  moreover have "?n = 0 \<longleftrightarrow> br_rest r = []" if "\<not> length b \<le> length (br_rest r)" using that by auto
  ultimately show ?thesis by (cases "length b \<le> length (br_rest r)") simp_all
qed

theorem ReadFull_bytes_witness:
  "\<exists>r'. ReadFull br_Read [0, 0, 0] (NewReader [5, 6]) = Some ([5, 6, 0], 2, Some ErrUnexpectedEOF, r')"
proof -
  have b: "br_ok (NewReader [5, 6])" "br_rest (NewReader [5, 6]) = [5, 6]" using br_ok_new [of "[5, 6]"] by simp_all
  have "take 2 [5, 6 :: int] @ drop 2 [0, 0, 0] = [5, 6, 0]" by simp
  with ReadFull_bytes [OF b(1), of "[0, 0, 0]"] b(2) show ?thesis by auto
qed

text \<open>
  \<open>io.Copy\<close> from a \<open>LimitedReader\<close> over a \<open>bytes.Reader\<close> to a \<open>strings.Builder\<close> terminates without an
  error and appends exactly the first \<open>N\<close> bytes of the reader (all of them when there are fewer); the
  count it returns is their number.
\<close>

theorem copy_limited:
  assumes "br_ok r" "wf64 N" "ctor N = KInt64" "builder_ok self bh"
  shows "\<exists>d r' bh'. copy_with None None (LimitedReader_Read br_Read) (builder_writer self) (Some N) (r, N) bh
      = Some (d, None, r', bh') \<and>
    builder_String bh' = builder_String bh @ take (nat (val64 N)) (br_rest r) \<and>
    val64 d = int (length (take (nat (val64 N)) (br_rest r)))"
proof -
  have "in_range64 KInt64 (val64 N)" using in_range64_val64 [OF assms(2)] assms(3) by simp
  then have sz: "0 < copy_size (Some N) \<and> copy_size (Some N) < 2 ^ 31"
  proof -
    have less: "less64 N (int64_of 32768) \<longleftrightarrow> val64 N < 32768" using assms(2) by (simp add: less64_val val64_int64_of)
    show ?thesis
    proof (cases "high N < 0 \<or> high N = 0 \<and> low N < 1 \<or> \<not> val64 N < 32768")
      case False
      then have h: "high N = 0" "0 < low N" "low N < 32768" using assms(2) by (auto simp: wf64_def val64_def)
      have "js_sar 0 31 = 0" by (simp add: js_sar_eq ToInt32_id)
      then have "to_int32 N = low N" using h by (simp add: to_int32_def js_sar_eq ToInt32_id)
      then show ?thesis using h less by (auto simp: copy_size_def)
    qed (auto simp: copy_size_def less)
  qed
  have len: "length (br_rest r) < 2 ^ 31" using assms(1) by (auto simp: br_ok_def br_rest_def intro: le_less_trans [OF diff_le_self])
  let ?t = "take (nat (val64 N)) (br_rest r)"
  have "int (length ?t) < 2 ^ 63" using len by simp
  then obtain d r' bh' where "copy_loop (LimitedReader_Read br_Read) (builder_writer self) (copy_size (Some N)) (int64_of 0) (r, N) bh
      = Some (d, None, r', bh')" "val64 d = int (length ?t)" "builder_String bh' = builder_String bh @ ?t"
    using limited_copy.copy_loop_all [of "(r, N)" self bh "copy_size (Some N)" "int64_of 0"] assms sz
    unfolding fst_conv snd_conv by (auto simp: val64_int64_of simp del: length_take)
  then show ?thesis by (simp add: copy_with_def)
qed

theorem copy_limited_witness:
  "\<exists>d r' bh'. copy_with None None (LimitedReader_Read br_Read) (builder_writer 0) (Some (int64_of 2))
      (NewReader [5, 6, 7], int64_of 2) (builder_Reset undefined, \<lparr>arrays = (\<lambda>_. []), fresh = 1\<rparr>) = Some (d, None, r', bh') \<and>
    builder_String bh' = [5, 6]"
proof -
  have b: "br_ok (NewReader [5, 6, 7])" "br_rest (NewReader [5, 6, 7]) = [5, 6, 7]"
    using br_ok_new [of "[5, 6, 7]"] by simp_all
  have o: "builder_ok 0 (builder_Reset undefined, \<lparr>arrays = (\<lambda>_. []), fresh = 1\<rparr>)"
    by (simp add: builder_ok_def builder_Reset_def wf_slice_def nil_slice_def)
  show ?thesis using copy_limited [OF b(1) _ _ o, of "int64_of 2"] b(2)
    by (auto simp: val64_int64_of builder_String_def builder_Reset_def nil_slice_def sliceToArray_def)
qed

end
