(* ===== verification/Js_Bits.thy ===== *)
theory Js_Bits
  imports Prelude
begin

text \<open>The 32-bit operators on non-negative numbers that fit, as arithmetic.\<close>

named_theorems js_arith

lemma js_and_mask [js_arith]:
  assumes "0 \<le> x" "x < 2 ^ 31" "k \<le> 31"
  shows "js_and x (2 ^ k - 1) = x mod 2 ^ k" "js_and (2 ^ k - 1) x = x mod 2 ^ k"
proof -
  have le: "(2::int) ^ k \<le> 2 ^ 31" using power_increasing [OF assms(3), of "2::int"] by simp
  have "ToInt32 x = x" "ToInt32 (2 ^ k - 1) = 2 ^ k - 1"
    using assms le zero_less_power [of "2::int" k] by (intro ToInt32_id; linarith)+
  moreover have "x AND (2 ^ k - 1) = x mod 2 ^ k" by (simp add: take_bit_eq_mask mask_eq_exp_minus_1 flip: take_bit_eq_mod)
  ultimately show "js_and x (2 ^ k - 1) = x mod 2 ^ k" "js_and (2 ^ k - 1) x = x mod 2 ^ k"
    by (simp_all add: js_and_def and.commute)
qed

lemmas js_and_masks =
  js_and_mask [where k = 1, simplified] js_and_mask [where k = 2, simplified] js_and_mask [where k = 3, simplified]
  js_and_mask [where k = 4, simplified] js_and_mask [where k = 5, simplified] js_and_mask [where k = 6, simplified]
  js_and_mask [where k = 8, simplified]

lemma js_or_plus [js_arith]:
  assumes "2 ^ i dvd x" "0 \<le> x" "0 \<le> y" "y < 2 ^ i" "x + y < 2 ^ 31"
  shows "js_or x y = x + y"
proof -
  have "ToInt32 x = x" "ToInt32 y = y" using assms by (auto intro!: ToInt32_id)
  then show ?thesis using or_eq_plus [OF assms(1,3,4)] by (simp add: js_or_def)
qed

lemma js_shl_mult [js_arith]:
  assumes "0 \<le> x" "n < 32" "x * 2 ^ n < 2 ^ 31"
  shows "js_shl x n = x * 2 ^ n"
proof -
  have "(1::int) \<le> 2 ^ n" by simp
  then have "x * 1 \<le> x * 2 ^ n" using assms(1) by (rule mult_left_mono)
  then have "ToInt32 x = x" using assms by (intro ToInt32_id) simp_all
  moreover have "0 \<le> x * 2 ^ n" using assms(1) by simp
  then have "ToInt32 (x * 2 ^ n) = x * 2 ^ n" using assms(3) by (intro ToInt32_id; linarith)
  ultimately show ?thesis using assms(2) by (simp add: js_shl_def push_bit_eq_mult)
qed

lemma js_sar_div [js_arith]: "0 \<le> x \<Longrightarrow> x < 2 ^ 31 \<Longrightarrow> n < 32 \<Longrightarrow> js_sar x n = x div 2 ^ n"
  by (simp add: js_sar_eq ToInt32_id)

lemma js_shr_div [js_arith]: "0 \<le> x \<Longrightarrow> x < 2 ^ 32 \<Longrightarrow> n < 32 \<Longrightarrow> js_shr x n = x div 2 ^ n"
  by (simp add: js_shr_eq)

end
