(* ===== verification/Math_Bits.thy ===== *)
theory Math_Bits
  imports Runtime_Int64
begin

text \<open>
  Package \<open>math/bits\<close> of the bundle: bit counting with lookup tables (de Bruijn sequences for the
  trailing zeros, a byte table for the length).
\<close>

unbundle bit_operations_syntax

definition deBruijn32tab :: "int list" where
  "deBruijn32tab = [0,1,28,2,29,14,24,3,30,22,20,15,25,17,4,8,31,27,13,23,21,19,16,7,26,12,18,6,11,5,10,9]"

definition deBruijn64tab :: "int list" where
  "deBruijn64tab = [0,1,56,2,57,49,28,3,61,58,42,50,38,29,17,4,62,47,59,36,45,43,51,22,53,39,33,30,24,18,12,5,
     63,55,48,27,60,41,37,16,46,35,44,21,52,32,23,11,54,26,40,15,34,20,31,10,25,14,19,9,13,8,7,6]"

text \<open>The 256-entry length table, written with its runs.\<close>

definition len8tab :: "int list" where
  "len8tab = [0, 1] @ replicate 2 2 @ replicate 4 3 @ replicate 8 4 @ replicate 16 5 @
     replicate 32 6 @ replicate 64 7 @ replicate 128 8"

definition TrailingZeros32 :: "int \<Rightarrow> int res" where
  "TrailingZeros32 a =
     (if a = 0 then Inr 32
      else res_bind
        (js_index deBruijn32tab (js_shr (js_shr (js_imul (js_shr (js_and a (js_shr (- a) 0)) 0) 125613361) 0) 27))
        (\<lambda>x. Inr (js_sar x 0)))"

text \<open>\<open>uint\<close> has 32 bits in the bundle, so \<open>TrailingZeros\<close> takes the 32-bit branch.\<close>

definition TrailingZeros :: "int \<Rightarrow> int res" where
  "TrailingZeros a = TrailingZeros32 (js_shr a 0)"

definition TrailingZeros64 :: "js64 \<Rightarrow> int res" where
  "TrailingZeros64 a =
     (if high a = 0 \<and> low a = 0 then Inr 64
      else
        let c = new64 KUint64 (- high a) (- low a);
            d = new64 KUint64 (js_and (high a) (high c)) (js_shr (js_and (low a) (low c)) 0);
            b = shiftRightUint64 (mul64 d (new64 KUint64 66559345 3033172745)) 58
        in res_bind (js_index deBruijn64tab (flatten64 b)) (\<lambda>x. Inr (js_sar x 0)))"

definition Len64 :: "js64 \<Rightarrow> int res" where
  "Len64 a =
     (let (a, b) = (if high a > 1 \<or> high a = 1 \<and> low a \<ge> 0 then (shiftRightUint64 a 32, 32) else (a, 0));
          (a, b) = (if high a > 0 \<or> high a = 0 \<and> low a \<ge> 65536 then (shiftRightUint64 a 16, js_sar (b + 16) 0) else (a, b));
          (a, b) = (if high a > 0 \<or> high a = 0 \<and> low a \<ge> 256 then (shiftRightUint64 a 8, js_sar (b + 8) 0) else (a, b))
      in res_bind (js_index len8tab (flatten64 a)) (\<lambda>x. Inr (js_sar (b + js_sar x 0) 0)))"

definition LeadingZeros64 :: "js64 \<Rightarrow> int res" where
  "LeadingZeros64 a = res_bind (Len64 a) (\<lambda>n. Inr (js_sar (64 - n) 0))"

section \<open>Trailing zeros\<close>

lemma deBruijn32_table:
  "list_all (\<lambda>k. deBruijn32tab ! nat ((2 ^ k * 125613361) mod 2 ^ 32 div 2 ^ 27) = int k) [0..<32]"
  by code_simp

lemma deBruijn64_table:
  "list_all (\<lambda>k. deBruijn64tab ! nat ((2 ^ k * (66559345 * 2 ^ 32 + 3033172745)) mod 2 ^ 64 div 2 ^ 58) = int k) [0..<64]"
  by code_simp

lemma js_sar_small: "0 \<le> x \<Longrightarrow> x < 2 ^ 31 \<Longrightarrow> js_sar x 0 = x"
  by (simp add: js_sar_eq ToInt32_id)

lemma and_minus_u32:
  assumes "0 \<le> a" "a < 2 ^ 32" "odd m" "a = 2 ^ k * m"
  shows "js_shr (js_and a (js_shr (- a) 0)) 0 = 2 ^ k mod 2 ^ 32"
proof -
  have "take_bit 32 (js_and a (js_shr (- a) 0)) = take_bit 32 (a AND - a)"
    by (simp add: js_and_def js_shr_def)
  then show ?thesis using lowest_bit [OF assms(3,4)] by (simp add: js_shr_0 take_bit_eq_mod)
qed

theorem TrailingZeros32_spec:
  assumes "0 < a" "a < 2 ^ 32"
  shows "\<exists>k m. TrailingZeros32 a = Inr (int k) \<and> k < 32 \<and> odd m \<and> a = 2 ^ k * m"
proof -
  obtain k m where km: "k < 32" "odd m" "a = 2 ^ k * m" using odd_part [OF assms] by blast
  have pow: "(2::int) ^ k < 2 ^ 32" using km(1) by (intro power_strict_increasing) simp_all
  let ?x = "(2 ^ k * 125613361) mod 2 ^ 32 :: int"
  have iso: "js_shr (js_and a (js_shr (- a) 0)) 0 = 2 ^ k"
    using and_minus_u32 [OF _ assms(2) km(2,3)] assms(1) pow by simp
  have "js_shr (js_imul (2 ^ k) 125613361) 0 = ?x"
    using ToInt32_mod [of "2 ^ k * 125613361"] by (simp add: js_shr_0 js_imul_def)
  then have idx: "js_shr (js_shr (js_imul (js_shr (js_and a (js_shr (- a) 0)) 0) 125613361) 0) 27 = ?x div 2 ^ 27"
    by (simp only: iso) (simp add: js_shr_eq)
  have range: "0 \<le> ?x div 2 ^ 27" "?x div 2 ^ 27 < 32"
    by (simp_all add: pos_imp_zdiv_nonneg_iff int_div_less)
  have "deBruijn32tab ! nat (?x div 2 ^ 27) = int k"
    using deBruijn32_table km(1) by (simp only: list_all_iff) simp
  then have "js_index deBruijn32tab (?x div 2 ^ 27) = Inr (int k)"
    using range by (simp add: js_index_ok deBruijn32tab_def)
  then have "TrailingZeros32 a = Inr (int k)"
    using assms(1) km(1) by (simp add: TrailingZeros32_def idx js_sar_small)
  with km show ?thesis by blast
qed

lemma take_bit_neg_pair:
  "take_bit 64 (val64 (new64 KUint64 (- high a) (- low a))) = take_bit 64 (- val64 a)"
  by (simp only: val64_new64 take_bit_wrap64) (simp add: val64_def)

theorem TrailingZeros64_spec:
  assumes "wf64 a" "ctor a = KUint64" "val64 a \<noteq> 0"
  shows "\<exists>k m. TrailingZeros64 a = Inr (int k) \<and> k < 64 \<and> odd m \<and> val64 a = 2 ^ k * m"
proof -
  define c where "c = new64 KUint64 (- high a) (- low a)"
  define d where "d = new64 KUint64 (js_and (high a) (high c)) (js_shr (js_and (low a) (low c)) 0)"
  let ?K = "new64 KUint64 66559345 3033172745"
  have range: "0 < val64 a" "val64 a < 2 ^ 64"
    using in_range64_val64 [OF assms(1)] assms(2,3) by (simp_all add: in_range64_def)
  then obtain k m where km: "k < 64" "odd m" "val64 a = 2 ^ k * m" using odd_part by blast
  have pow: "(2::int) ^ k < 2 ^ 64" using km(1) by (intro power_strict_increasing) simp_all
  have low: "0 \<le> low a" "low a < 2 ^ 32" "0 \<le> low c" "low c < 2 ^ 32"
    using assms(1) wf64_new64 [of KUint64 "- high a" "- low a"] by (simp_all add: wf64_def c_def)
  have "take_bit 64 (val64 d) = take_bit 64 (js_and (high a) (high c) * 2 ^ 32 + js_shr (js_and (low a) (low c)) 0)"
    by (simp add: val64_new64 d_def)
  also have "\<dots> = take_bit 64 ((high a AND high c) * 2 ^ 32 + js_shr (js_and (low a) (low c)) 0)"
    by (rule take_bit64_pair_cong) (simp add: js_and_def)
  also have "js_shr (js_and (low a) (low c)) 0 = low a AND low c"
  proof -
    have "take_bit 32 (js_and (low a) (low c)) = take_bit 32 (low a) AND take_bit 32 (low c)"
      by (simp add: js_and_def)
    then show ?thesis using low by (simp add: js_shr_def ToUint32_def take_bit_int_eq_self)
  qed
  also have "(high a AND high c) * 2 ^ 32 + (low a AND low c) = val64 a AND val64 c"
    unfolding val64_def using low by (rule and_pair [symmetric])
  also have "take_bit 64 (val64 a AND val64 c) = take_bit 64 (val64 a AND - val64 a)"
    using take_bit_neg_pair [of a] by (simp only: take_bit_and c_def)
  also have "val64 a AND - val64 a = 2 ^ k" using km(2,3) by (rule lowest_bit)
  finally have "take_bit 64 (val64 d) = take_bit 64 (2 ^ k)" .
  moreover have wf: "wf64 d" "ctor d = KUint64" by (simp_all add: d_def)
  ultimately have d: "val64 d = 2 ^ k"
    using in_range64_val64 [OF wf(1)] pow km(1) by (simp add: in_range64_def take_bit_int_eq_self)
  let ?p = "(2 ^ k * (66559345 * 2 ^ 32 + 3033172745)) mod 2 ^ 64 :: int"
  have mul: "val64 (mul64 d ?K) = ?p"
    using mul64_value [of d ?K] wf by (simp add: d val64_new64 wrap64_def take_bit_eq_mod)
  have "val64 (shiftRightUint64 (mul64 d ?K) 58) = ?p div 2 ^ 58"
    using shiftRightUint64_value [of "mul64 d ?K" 58] wf by (simp only: mul) (simp add: mul64_def)
  then have idx: "flatten64 (shiftRightUint64 (mul64 d ?K) 58) = ?p div 2 ^ 58"
    by (simp only: flatten64_val64)
  have "0 \<le> ?p div 2 ^ 58" "?p div 2 ^ 58 < 64"
    by (simp_all add: pos_imp_zdiv_nonneg_iff int_div_less)
  moreover have "deBruijn64tab ! nat (?p div 2 ^ 58) = int k"
    using deBruijn64_table km(1) by (simp only: list_all_iff) simp
  moreover have "length deBruijn64tab = 64" by (simp add: deBruijn64tab_def)
  ultimately have "js_index deBruijn64tab (?p div 2 ^ 58) = Inr (int k)"
    by (simp only: js_index_ok)
  moreover have "\<not> (high a = 0 \<and> low a = 0)" using assms(3) by (auto simp: val64_def)
  ultimately have "TrailingZeros64 a = Inr (int k)"
    using km(1) by (simp only: TrailingZeros64_def Let_def c_def [symmetric] d_def [symmetric] idx if_False res_bind_simps)
      (simp add: js_sar_small)
  with km show ?thesis by blast
qed

section \<open>Bit length\<close>

definition has_len :: "int \<Rightarrow> nat \<Rightarrow> bool" where
  "has_len v n \<longleftrightarrow> (if v = 0 then n = 0 else 0 < n \<and> 2 ^ (n - 1) \<le> v \<and> v < 2 ^ n)"

lemma has_len_shift:
  assumes "2 ^ s \<le> v" "has_len (v div 2 ^ s) n"
  shows "has_len v (n + s)"
proof -
  have p: "(0::int) < 2 ^ s" by simp
  have "1 \<le> v div 2 ^ s" using assms(1) p zdiv_mono1 [OF assms(1) p] by simp
  then have n: "0 < n" "2 ^ (n - 1) \<le> v div 2 ^ s" "v div 2 ^ s < 2 ^ n"
    using assms(2) by (simp_all add: has_len_def split: if_splits)
  have "2 ^ (n - 1) * 2 ^ s \<le> (v div 2 ^ s) * 2 ^ s" using n(2) by (intro mult_right_mono) simp_all
  also have "\<dots> \<le> v" by (metis div_mod_decomp_int le_add_same_cancel1 p pos_mod_sign)
  finally have lower: "2 ^ (n + s - 1) \<le> v"
    using n(1) by (simp flip: power_add)
  have "v = (v div 2 ^ s) * 2 ^ s + v mod 2 ^ s" by (rule div_mod_decomp_int)
  also have "\<dots> < (v div 2 ^ s) * 2 ^ s + 2 ^ s" by simp
  also have "\<dots> = (v div 2 ^ s + 1) * 2 ^ s" by (simp add: distrib_right)
  also have "\<dots> \<le> 2 ^ n * 2 ^ s" using n(3) by (intro mult_right_mono) simp_all
  finally have "v < 2 ^ (n + s)" by (simp add: power_add)
  moreover have "0 < v" using assms(1) p by linarith
  ultimately show ?thesis using lower n(1) by (simp add: has_len_def)
qed

lemma len8_table: "list_all (\<lambda>v. has_len (int v) (nat (len8tab ! v)) \<and> 0 \<le> len8tab ! v \<and> len8tab ! v \<le> 8) [0..<256]"
  by code_simp

lemma high_low_ge:
  assumes "wf64 a" "ctor a = KUint64" "0 \<le> c" "c < 2 ^ 32"
  shows "high a > 0 \<or> high a = 0 \<and> low a \<ge> c \<longleftrightarrow> c \<le> val64 a"
    and "high a > 1 \<or> high a = 1 \<and> low a \<ge> 0 \<longleftrightarrow> 2 ^ 32 \<le> val64 a"
  using assms by (auto simp: wf64_def val64_def)

text \<open>One stage of \<open>Len64\<close>: shift out \<open>s\<close> bits when the value needs more.\<close>

lemma Len64_stage:
  assumes "wf64 a" "ctor a = KUint64" "val64 a < 2 ^ (2 * s)" "C \<longleftrightarrow> 2 ^ s \<le> val64 a"
    and "0 \<le> b" "b + int s < 2 ^ 31" "t = js_sar (b + int s) 0"
  shows "\<exists>a' b'. (if C then (shiftRightUint64 a s, t) else (a, b)) = (a', b') \<and>
      wf64 a' \<and> ctor a' = KUint64 \<and> val64 a' < 2 ^ s \<and> b \<le> b' \<and> b' \<le> b + int s \<and>
      (\<forall>n. has_len (val64 a') n \<longrightarrow> has_len (val64 a) (n + nat (b' - b)))"
proof (cases C)
  case True
  have v: "val64 (shiftRightUint64 a s) = val64 a div 2 ^ s"
    using assms(1,2) by (rule shiftRightUint64_value)
  have "(2::int) ^ (2 * s) = 2 ^ s * 2 ^ s" by (simp add: mult_2 power_add)
  then have "val64 a div 2 ^ s < 2 ^ s" using assms(3) by (intro int_div_less) simp_all
  moreover have "has_len (val64 a) (n + s)" if "has_len (val64 a div 2 ^ s) n" for n
    using True assms(4) that by (intro has_len_shift) simp_all
  moreover have "wf64 (shiftRightUint64 a s)" "ctor (shiftRightUint64 a s) = KUint64"
    using assms(1,2) by (simp_all add: shiftRightUint64_def)
  ultimately show ?thesis using True assms(5-7) by (simp add: v js_sar_small)
next
  case False
  then show ?thesis using assms by auto
qed

theorem Len64_spec:
  assumes "wf64 a" "ctor a = KUint64"
  shows "\<exists>n. Len64 a = Inr (int n) \<and> n \<le> 64 \<and> has_len (val64 a) n"
proof -
  have v: "val64 a < 2 ^ (2 * 32)"
    using in_range64_val64 [OF assms(1)] assms(2) by (simp add: in_range64_def)
  obtain a1 b1 where s1: "(if high a > 1 \<or> high a = 1 \<and> low a \<ge> 0 then (shiftRightUint64 a 32, 32) else (a, 0)) = (a1, b1)"
    "wf64 a1" "ctor a1 = KUint64" "val64 a1 < 2 ^ (2 * 16)" "0 \<le> b1" "b1 \<le> 32"
    and l1: "\<And>n. has_len (val64 a1) n \<Longrightarrow> has_len (val64 a) (n + nat b1)"
    using Len64_stage [OF assms v high_low_ge(2) [OF assms, of 0], of 0 32]
    by (elim meta_impE) (auto simp: js_sar_small)
  obtain a2 b2 where s2: "(if high a1 > 0 \<or> high a1 = 0 \<and> low a1 \<ge> 65536 then (shiftRightUint64 a1 16, js_sar (b1 + 16) 0) else (a1, b1)) = (a2, b2)"
    "wf64 a2" "ctor a2 = KUint64" "val64 a2 < 2 ^ (2 * 8)" "b1 \<le> b2" "b2 \<le> b1 + 16"
    and l2: "\<And>n. has_len (val64 a2) n \<Longrightarrow> has_len (val64 a1) (n + nat (b2 - b1))"
    using Len64_stage [OF s1(2-4), of _ b1 "js_sar (b1 + 16) 0"] high_low_ge(1) [OF s1(2,3), of 65536] s1(5,6) by auto
  obtain a3 b3 where s3: "(if high a2 > 0 \<or> high a2 = 0 \<and> low a2 \<ge> 256 then (shiftRightUint64 a2 8, js_sar (b2 + 8) 0) else (a2, b2)) = (a3, b3)"
    "wf64 a3" "ctor a3 = KUint64" "val64 a3 < 256" "b2 \<le> b3" "b3 \<le> b2 + 8"
    and l3: "\<And>n. has_len (val64 a3) n \<Longrightarrow> has_len (val64 a2) (n + nat (b3 - b2))"
    using Len64_stage [OF s2(2-4), of _ b2 "js_sar (b2 + 8) 0"] high_low_ge(1) [OF s2(2,3), of 256] s1(5,6) s2(5,6) by auto
  have low3: "0 \<le> val64 a3"
    using in_range64_val64 [OF s3(2)] s3(3) by (simp add: in_range64_def)
  obtain n where n: "has_len (val64 a3) n" "len8tab ! nat (val64 a3) = int n" "n \<le> 8"
  proof -
    have "nat (val64 a3) \<in> set [0..<256]" using low3 s3(4) by simp
    then have "has_len (int (nat (val64 a3))) (nat (len8tab ! nat (val64 a3))) \<and>
        0 \<le> len8tab ! nat (val64 a3) \<and> len8tab ! nat (val64 a3) \<le> 8"
      using len8_table by (simp only: list_all_iff)
    with low3 show ?thesis by (intro that [of "nat (len8tab ! nat (val64 a3))"]) auto
  qed
  have "js_index len8tab (flatten64 a3) = Inr (int n)"
    using low3 s3(4) n(2) by (simp add: flatten64_val64 js_index_ok len8tab_def)
  then have "Len64 a = Inr (int (n + nat b3))"
    using s3(5,6) s2(5,6) s1(5,6) n(3) by (simp add: Len64_def s1(1) s2(1) s3(1) js_sar_small)
  moreover have "has_len (val64 a) (n + nat b3)"
  proof -
    have "n + nat b3 = n + nat (b3 - b2) + nat (b2 - b1) + nat b1"
      using s3(5) s2(5) s1(5) by simp
    then show ?thesis using l1 [OF l2 [OF l3 [OF n(1)]]] by (simp only:)
  qed
  ultimately show ?thesis using s3(5,6) s2(5,6) s1(5,6) n(3) by (intro exI [of _ "n + nat b3"]) simp
qed

end
