(* ===== verification/Encoding_Binary.thy ===== *)
theory Encoding_Binary
  imports Runtime_Int64
begin

text \<open>
  Package \<open>encoding/binary\<close> of the bundle: the byte orders \<open>LittleEndian\<close> (type \<open>F\<close> of the bundle's
  line) and \<open>BigEndian\<close> (type \<open>G\<close>).  A byte slice argument is the list of its \<open>$length\<close> bytes; a
  \<open>Put\<close> method returns the list after its writes.  Each method first reads the last byte it needs,
  which raises the range panic for a short slice; the range checks of the later accesses cannot fire.
  The locale \<open>fixed_width\<close> is the contract of one get/put pair, interpreted for the six pairs.
\<close>

unbundle bit_operations_syntax

section \<open>Methods\<close>

text \<open>The casts \<open>x << 24 >>> 24\<close> (to \<open>uint8\<close>) and \<open>x << 16 >>> 16\<close> (to \<open>uint16\<close>).\<close>

definition to_u8 :: "int \<Rightarrow> int" where "to_u8 x = js_shr (js_shl x 24) 24"
definition to_u16 :: "int \<Rightarrow> int" where "to_u16 x = js_shr (js_shl x 16) 16"

abbreviation out_of_range :: "'a res" where
  "out_of_range \<equiv> Inl (RuntimeError ''index out of range'')"

definition LE_Uint16 :: "int list \<Rightarrow> int res" where
  "LE_Uint16 a = (if 1 \<ge> length a then out_of_range
     else Inr (js_shr (js_or (to_u16 (a ! 0)) (to_u16 (js_shl (to_u16 (a ! 1)) 8))) 0))"

definition LE_PutUint16 :: "int list \<Rightarrow> int \<Rightarrow> int list res" where
  "LE_PutUint16 a b = (if 1 \<ge> length a then out_of_range
     else Inr (a[0 := to_u8 b, 1 := to_u8 (to_u16 (js_shr b 8))]))"

definition BE_Uint16 :: "int list \<Rightarrow> int res" where
  "BE_Uint16 a = (if 1 \<ge> length a then out_of_range
     else Inr (js_shr (js_or (to_u16 (a ! 1)) (to_u16 (js_shl (to_u16 (a ! 0)) 8))) 0))"

definition BE_PutUint16 :: "int list \<Rightarrow> int \<Rightarrow> int list res" where
  "BE_PutUint16 a b = (if 1 \<ge> length a then out_of_range
     else Inr (a[0 := to_u8 (to_u16 (js_shr b 8)), 1 := to_u8 b]))"

text \<open>
  The expression of \<open>Uint32\<close>, \<open>(((x0>>>0 | x1>>>0<<8>>>0)>>>0 | x2>>>0<<16>>>0)>>>0 | ...)>>>0\<close>.
\<close>

definition join32 :: "int \<Rightarrow> int \<Rightarrow> int \<Rightarrow> int \<Rightarrow> int" where
  "join32 x0 x1 x2 x3 =
     js_shr (js_or (js_shr (js_or (js_shr (js_or (js_shr x0 0) (js_shr (js_shl (js_shr x1 0) 8) 0)) 0)
                                  (js_shr (js_shl (js_shr x2 0) 16) 0)) 0)
                   (js_shr (js_shl (js_shr x3 0) 24) 0)) 0"

definition LE_Uint32 :: "int list \<Rightarrow> int res" where
  "LE_Uint32 a = (if 3 \<ge> length a then out_of_range else Inr (join32 (a ! 0) (a ! 1) (a ! 2) (a ! 3)))"

definition LE_PutUint32 :: "int list \<Rightarrow> int \<Rightarrow> int list res" where
  "LE_PutUint32 a b = (if 3 \<ge> length a then out_of_range
     else Inr (a[0 := to_u8 b, 1 := to_u8 (js_shr (js_shr b 8) 0), 2 := to_u8 (js_shr (js_shr b 16) 0),
                 3 := to_u8 (js_shr (js_shr b 24) 0)]))"

definition BE_Uint32 :: "int list \<Rightarrow> int res" where
  "BE_Uint32 a = (if 3 \<ge> length a then out_of_range else Inr (join32 (a ! 3) (a ! 2) (a ! 1) (a ! 0)))"

definition BE_PutUint32 :: "int list \<Rightarrow> int \<Rightarrow> int list res" where
  "BE_PutUint32 a b = (if 3 \<ge> length a then out_of_range
     else Inr (a[0 := to_u8 (js_shr (js_shr b 24) 0), 1 := to_u8 (js_shr (js_shr b 16) 0),
                 2 := to_u8 (js_shr (js_shr b 8) 0), 3 := to_u8 b]))"

text \<open>The bitwise or of two \<open>$Uint64\<close>, \<open>new $Uint64(x.$high|y.$high, (x.$low|y.$low)>>>0)\<close>.\<close>

definition or64 :: "js64 \<Rightarrow> js64 \<Rightarrow> js64" where
  "or64 x y = new64 KUint64 (js_or (high x) (high y)) (js_shr (js_or (low x) (low y)) 0)"

definition join64 :: "int list \<Rightarrow> js64" where
  "join64 xs = fold (\<lambda>i acc. or64 acc (shiftLeft64 (new64 KUint64 0 (xs ! i)) (8 * i))) [1..<8]
                 (new64 KUint64 0 (xs ! 0))"

definition LE_Uint64 :: "int list \<Rightarrow> js64 res" where
  "LE_Uint64 a = (if 7 \<ge> length a then out_of_range else Inr (join64 (take 8 a)))"

definition BE_Uint64 :: "int list \<Rightarrow> js64 res" where
  "BE_Uint64 a = (if 7 \<ge> length a then out_of_range else Inr (join64 (rev (take 8 a))))"

definition byte64 :: "js64 \<Rightarrow> nat \<Rightarrow> int" where
  "byte64 b i = to_u8 (low (if i = 0 then b else shiftRightUint64 b (8 * i)))"

definition LE_PutUint64 :: "int list \<Rightarrow> js64 \<Rightarrow> int list res" where
  "LE_PutUint64 a b = (if 7 \<ge> length a then out_of_range
     else Inr (fold (\<lambda>i a. a[i := byte64 b i]) [0..<8] a))"

definition BE_PutUint64 :: "int list \<Rightarrow> js64 \<Rightarrow> int list res" where
  "BE_PutUint64 a b = (if 7 \<ge> length a then out_of_range
     else Inr (fold (\<lambda>i a. a[i := byte64 b (7 - i)]) [0..<8] a))"

section \<open>Bytes and numbers\<close>

definition bytes :: "int list \<Rightarrow> bool" where
  "bytes bs \<longleftrightarrow> (\<forall>b \<in> set bs. 0 \<le> b \<and> b < 256)"

fun le_value :: "int list \<Rightarrow> int" where
  "le_value [] = 0"
| "le_value (b # bs) = b + 256 * le_value bs"

fun le_bytes :: "nat \<Rightarrow> int \<Rightarrow> int list" where
  "le_bytes 0 v = []"
| "le_bytes (Suc n) v = (v mod 256) # le_bytes n (v div 256)"

lemma bytes_simps [simp]:
  "bytes []" "bytes (b # bs) \<longleftrightarrow> 0 \<le> b \<and> b < 256 \<and> bytes bs" "bytes (bs @ cs) \<longleftrightarrow> bytes bs \<and> bytes cs"
  "bytes (rev bs) \<longleftrightarrow> bytes bs"
  by (auto simp: bytes_def)

lemma bytes_nth: "bytes bs \<Longrightarrow> i < length bs \<Longrightarrow> 0 \<le> bs ! i \<and> bs ! i < 256"
  by (auto simp: bytes_def)

lemma bytes_take: "bytes bs \<Longrightarrow> bytes (take n bs)" and bytes_drop: "bytes bs \<Longrightarrow> bytes (drop n bs)"
  by (auto simp: bytes_def dest: in_set_takeD in_set_dropD)

lemma length_le_bytes [simp]: "length (le_bytes n v) = n"
  by (induction n arbitrary: v) simp_all

lemma bytes_le_bytes [simp]: "bytes (le_bytes n v)"
  by (induction n arbitrary: v) simp_all

lemma le_value_le_bytes: "le_value (le_bytes n v) = v mod 256 ^ n"
proof (induction n arbitrary: v)
  case (Suc n)
  have "le_value (le_bytes (Suc n) v) = v mod 256 + 256 * (v div 256 mod 256 ^ n)" by (simp add: Suc.IH)
  also have "\<dots> = v mod (256 * 256 ^ n)" by (simp add: zmod_zmult2_eq)
  finally show ?case by simp
qed simp

lemma le_bytes_le_value: "bytes bs \<Longrightarrow> le_bytes (length bs) (le_value bs) = bs"
  by (induction bs) simp_all

lemma le_value_range: "bytes bs \<Longrightarrow> 0 \<le> le_value bs \<and> le_value bs < 256 ^ length bs"
  by (induction bs) auto

lemma le_value_snoc: "le_value (bs @ [b]) = le_value bs + b * 256 ^ length bs"
  by (induction bs) (simp_all add: algebra_simps)

lemma take_nth: "n \<le> length xs \<Longrightarrow> take n xs = map (\<lambda>i. xs ! i) [0..<n]"
  by (simp add: list_eq_iff_nth_eq)

section \<open>The contract of a get/put pair\<close>

locale fixed_width =
  fixes width :: nat and order :: "int list \<Rightarrow> int list" and get :: "int list \<Rightarrow> 'v res"
    and put :: "int list \<Rightarrow> 'v \<Rightarrow> int list res" and num :: "'v \<Rightarrow> int" and ok :: "'v \<Rightarrow> bool"
  assumes order_id: "order (order bs) = bs" and length_order: "length (order bs) = length bs"
    and bytes_order: "bytes (order bs) \<longleftrightarrow> bytes bs"
    and num_range: "ok v \<Longrightarrow> 0 \<le> num v \<and> num v < 256 ^ width"
    and num_inj: "ok v \<Longrightarrow> ok v' \<Longrightarrow> num v = num v' \<Longrightarrow> v = v'"
    and get_num: "bytes a \<Longrightarrow> width \<le> length a \<Longrightarrow>
                    \<exists>v. get a = Inr v \<and> ok v \<and> num v = le_value (order (take width a))"
    and put_bytes: "ok v \<Longrightarrow> width \<le> length a \<Longrightarrow>
                    put a v = Inr (order (le_bytes width (num v)) @ drop width a)"
    and short: "length a < width \<Longrightarrow> get a = out_of_range \<and> put a v = out_of_range"
begin

lemma put_get:
  assumes "ok v" "bytes a" "width \<le> length a"
  shows "\<exists>a'. put a v = Inr a' \<and> get a' = Inr v \<and> length a' = length a \<and> drop width a' = drop width a \<and> bytes a'"
proof -
  let ?a = "order (le_bytes width (num v)) @ drop width a"
  have b: "bytes ?a" using assms(2) by (simp add: bytes_order bytes_drop)
  have "width \<le> length ?a" using assms(3) by (simp add: length_order)
  from get_num [OF b this] obtain v' where v': "get ?a = Inr v'" "ok v'" "num v' = le_value (le_bytes width (num v))"
    by (auto simp: length_order order_id)
  have "num v' = num v" using v'(3) num_range [OF assms(1)] by (simp add: le_value_le_bytes)
  with v' assms(1) num_inj have "v' = v" by blast
  with v'(1) b assms put_bytes [OF assms(1,3)] show ?thesis by (simp add: length_order)
qed

lemma get_put:
  assumes "bytes a" "get a = Inr v"
  shows "put a v = Inr a"
proof -
  have w: "width \<le> length a" using assms(2) short [of a v] by (cases "length a < width") simp_all
  from get_num [OF assms(1) this] assms(2)
  have v: "ok v" "num v = le_value (order (take width a))" by auto
  have "bytes (order (take width a))" using assms(1) by (simp add: bytes_order bytes_take)
  from le_bytes_le_value [OF this] w have "le_bytes width (num v) = order (take width a)"
    by (simp add: v(2) length_order)
  then show ?thesis by (simp add: put_bytes [OF v(1) w] order_id)
qed

lemma get_inj:
  assumes "bytes a" "bytes b" "length a = width" "length b = width" "get a = get b"
  shows "a = b"
proof -
  from get_num [OF assms(1)] assms(3) obtain v where v: "get a = Inr v" by auto
  from get_put [OF assms(1) v] get_put [OF assms(2), of v] assms(5) v
  have "put a v = Inr a" "put b v = Inr b" by simp_all
  moreover from get_num [OF assms(1)] assms(3) v have "ok v" by auto
  ultimately show ?thesis using put_bytes [of v a] put_bytes [of v b] assms(3,4) by simp
qed

end

section \<open>The methods meet the contract\<close>

lemma cast_mod:
  assumes "n < 32"
  shows "js_shr (js_shl x n) n = x mod 2 ^ (32 - n)"
proof -
  have "js_shr (js_shl x n) n = take_bit 32 (x * 2 ^ n) div 2 ^ n"
    using assms by (simp only: js_shr_eq take_bit_eq_mod [symmetric] take_bit_js_shl)
  also have "take_bit 32 (x * 2 ^ n) = (x * 2 ^ n) mod (2 ^ (32 - n) * 2 ^ n)"
    using assms pow2_split [of n 32] by (simp add: take_bit_eq_mod mult.commute)
  also have "\<dots> = (x mod 2 ^ (32 - n)) * 2 ^ n" by (simp only: mult_mod_left)
  finally show ?thesis by simp
qed

lemma to_u8_mod: "to_u8 x = x mod 256" and to_u16_mod: "to_u16 x = x mod 65536"
  by (simp_all add: to_u8_def to_u16_def cast_mod)

text \<open>The shifted byte and the or with a smaller number.\<close>

lemma shr_shl: "0 \<le> x \<Longrightarrow> x < 2 ^ (32 - n) \<Longrightarrow> n < 32 \<Longrightarrow> js_shr (js_shl x n) 0 = x * 2 ^ n"
proof -
  assume a: "0 \<le> x" "x < 2 ^ (32 - n)" "n < 32"
  have "x * 2 ^ n < 2 ^ (32 - n) * 2 ^ n" using a(2) by simp
  also have "\<dots> = 2 ^ 32" using pow2_split [of n 32] a(3) by (simp add: mult.commute)
  finally have "x * 2 ^ n < 2 ^ 32" .
  moreover have "js_shr (js_shl x n) 0 = take_bit 32 (x * 2 ^ n)"
    using a(3) by (simp only: js_shr_0 take_bit_eq_mod [symmetric] take_bit_js_shl)
  ultimately show ?thesis using a(1) by (simp add: take_bit_int_eq_self)
qed

lemma shr_or:
  assumes "2 ^ i dvd x" "i \<le> 32" "0 \<le> y" "y < 2 ^ i" "0 \<le> x" "x + y < 2 ^ 32"
  shows "js_shr (js_or y x) 0 = x + y"
proof -
  have "js_shr (js_or y x) 0 = take_bit 32 (js_or x y)"
    by (simp only: js_shr_0 take_bit_eq_mod js_or_commute)
  also have "\<dots> = take_bit 32 (x + y)" by (rule take_bit_js_or) (use assms in auto)
  finally show ?thesis using assms by (simp add: take_bit_int_eq_self)
qed

lemma join32_value:
  assumes "bytes [x0, x1, x2, x3]"
  shows "join32 x0 x1 x2 x3 = le_value [x0, x1, x2, x3]"
proof -
  have b: "0 \<le> x0" "x0 < 256" "0 \<le> x1" "x1 < 256" "0 \<le> x2" "x2 < 256" "0 \<le> x3" "x3 < 256"
    using assms by simp_all
  have id: "js_shr x 0 = x" if "0 \<le> x" "x < 256" for x using that by (simp add: js_shr_0)
  have s1: "js_shr (js_or x0 (x1 * 2 ^ 8)) 0 = x1 * 2 ^ 8 + x0"
    by (rule shr_or [of 8]) (use b in simp_all)
  have s2: "js_shr (js_or (x1 * 2 ^ 8 + x0) (x2 * 2 ^ 16)) 0 = x2 * 2 ^ 16 + (x1 * 2 ^ 8 + x0)"
    by (rule shr_or [of 16]) (use b in simp_all)
  have s3: "js_shr (js_or (x2 * 2 ^ 16 + (x1 * 2 ^ 8 + x0)) (x3 * 2 ^ 24)) 0
            = x3 * 2 ^ 24 + (x2 * 2 ^ 16 + (x1 * 2 ^ 8 + x0))"
    by (rule shr_or [of 24]) (use b in simp_all)
  have sh: "js_shr (js_shl x1 8) 0 = x1 * 2 ^ 8" "js_shr (js_shl x2 16) 0 = x2 * 2 ^ 16"
      "js_shr (js_shl x3 24) 0 = x3 * 2 ^ 24"
    using b by (simp_all add: shr_shl)
  show ?thesis
    unfolding join32_def id [OF b(1,2)] id [OF b(3,4)] id [OF b(5,6)] id [OF b(7,8)] sh s1 s2 s3 by simp
qed

lemma u16_value:
  assumes "bytes [x0, x1]"
  shows "js_shr (js_or (to_u16 x0) (to_u16 (js_shl (to_u16 x1) 8))) 0 = le_value [x0, x1]"
proof -
  have b: "0 \<le> x0" "x0 < 256" "0 \<le> x1" "x1 < 256" using assms by simp_all
  have "js_shl x1 8 mod 65536 = x1 * 2 ^ 8"
  proof -
    have "js_shl x1 8 mod 65536 = (js_shr (js_shl x1 8) 0) mod 65536"
      by (simp add: js_shr_0 mod_mod_cancel)
    also have "\<dots> = x1 * 2 ^ 8" using b by (simp add: shr_shl)
    finally show ?thesis .
  qed
  moreover have "js_shr (js_or x0 (x1 * 2 ^ 8)) 0 = x1 * 2 ^ 8 + x0"
    by (rule shr_or [of 8]) (use b in simp_all)
  ultimately show ?thesis using b by (simp add: to_u16_mod)
qed

lemma byte_of_shift: "n < 32 \<Longrightarrow> n \<le> 24 \<Longrightarrow> to_u8 (js_shr (js_shr v n) 0) = v mod 2 ^ 32 div 2 ^ n mod 256"
proof -
  assume "n < 32"
  then have "js_shr v n = v mod 2 ^ 32 div 2 ^ n" by (rule js_shr_eq)
  moreover have "(v mod 2 ^ 32 div 2 ^ n) mod 2 ^ 32 mod 256 = v mod 2 ^ 32 div 2 ^ n mod 256"
    by (simp add: mod_mod_cancel)
  ultimately show ?thesis by (simp only: to_u8_mod js_shr_0)
qed

definition u16_ok :: "int \<Rightarrow> bool" where "u16_ok v \<longleftrightarrow> 0 \<le> v \<and> v < 2 ^ 16"
definition u32_ok :: "int \<Rightarrow> bool" where "u32_ok v \<longleftrightarrow> 0 \<le> v \<and> v < 2 ^ 32"
definition u64_ok :: "js64 \<Rightarrow> bool" where "u64_ok v \<longleftrightarrow> wf64 v \<and> ctor v = KUint64"

lemma list_split2: "2 \<le> length a \<Longrightarrow> \<exists>x0 x1 r. a = x0 # x1 # r"
  and list_split4: "4 \<le> length a \<Longrightarrow> \<exists>x0 x1 x2 x3 r. a = x0 # x1 # x2 # x3 # r"
  by (auto simp: Suc_le_length_iff numeral_2_eq_2 eval_nat_numeral)

lemma u16_bytes: "u16_ok v \<Longrightarrow> to_u8 (to_u16 (js_shr v 8)) = v div 256 mod 256"
  by (simp add: u16_ok_def to_u8_mod to_u16_mod js_shr_eq mod_mod_cancel)

lemma u32_bytes:
  assumes "u32_ok v"
  shows "to_u8 (js_shr (js_shr v 8) 0) = v div 256 mod 256"
    "to_u8 (js_shr (js_shr v 16) 0) = v div 256 div 256 mod 256"
    "to_u8 (js_shr (js_shr v 24) 0) = v div 256 div 256 div 256 mod 256"
  using assms by (simp_all add: byte_of_shift u32_ok_def zdiv_zmult2_eq [symmetric])

lemma le_bytes_2: "le_bytes 2 v = [v mod 256, v div 256 mod 256]"
  and le_bytes_4: "le_bytes 4 v = [v mod 256, v div 256 mod 256, v div 256 div 256 mod 256, v div 256 div 256 div 256 mod 256]"
  by (simp_all add: eval_nat_numeral)

interpretation le16: fixed_width 2 "\<lambda>bs. bs" LE_Uint16 LE_PutUint16 "\<lambda>v. v" u16_ok
proof (unfold_locales, goal_cases)
  case (6 a)
  then obtain x0 x1 r where "a = x0 # x1 # r" using list_split2 by blast
  with 6 show ?case using u16_value [of x0 x1] by (simp add: LE_Uint16_def u16_ok_def)
next
  case (7 v a)
  then obtain x0 x1 r where "a = x0 # x1 # r" using list_split2 by blast
  with 7 show ?case by (simp add: LE_PutUint16_def to_u8_mod [of v] u16_bytes [OF 7(1)] le_bytes_2)
qed (auto simp: u16_ok_def LE_Uint16_def LE_PutUint16_def)

interpretation be16: fixed_width 2 rev BE_Uint16 BE_PutUint16 "\<lambda>v. v" u16_ok
proof (unfold_locales, goal_cases)
  case (6 a)
  then obtain x0 x1 r where "a = x0 # x1 # r" using list_split2 by blast
  with 6 show ?case using u16_value [of x1 x0] by (simp add: BE_Uint16_def u16_ok_def)
next
  case (7 v a)
  then obtain x0 x1 r where "a = x0 # x1 # r" using list_split2 by blast
  with 7 show ?case by (simp add: BE_PutUint16_def to_u8_mod [of v] u16_bytes [OF 7(1)] le_bytes_2)
qed (auto simp: u16_ok_def BE_Uint16_def BE_PutUint16_def)

interpretation le32: fixed_width 4 "\<lambda>bs. bs" LE_Uint32 LE_PutUint32 "\<lambda>v. v" u32_ok
proof (unfold_locales, goal_cases)
  case (6 a)
  then obtain x0 x1 x2 x3 r where "a = x0 # x1 # x2 # x3 # r" using list_split4 by blast
  with 6 show ?case using join32_value [of x0 x1 x2 x3]
    by (simp add: LE_Uint32_def u32_ok_def)
next
  case (7 v a)
  then obtain x0 x1 x2 x3 r where "a = x0 # x1 # x2 # x3 # r" using list_split4 by blast
  with 7 show ?case by (simp add: LE_PutUint32_def to_u8_mod [of v] u32_bytes [OF 7(1)] le_bytes_4)
qed (auto simp: u32_ok_def LE_Uint32_def LE_PutUint32_def)

interpretation be32: fixed_width 4 rev BE_Uint32 BE_PutUint32 "\<lambda>v. v" u32_ok
proof (unfold_locales, goal_cases)
  case (6 a)
  then obtain x0 x1 x2 x3 r where "a = x0 # x1 # x2 # x3 # r" using list_split4 by blast
  with 6 show ?case using join32_value [of x3 x2 x1 x0]
    by (simp add: BE_Uint32_def u32_ok_def)
next
  case (7 v a)
  then obtain x0 x1 x2 x3 r where "a = x0 # x1 # x2 # x3 # r" using list_split4 by blast
  with 7 show ?case by (simp add: BE_PutUint32_def to_u8_mod [of v] u32_bytes [OF 7(1)] le_bytes_4)
qed (auto simp: u32_ok_def BE_Uint32_def BE_PutUint32_def)

text \<open>The 64-bit pairs: \<open>join64\<close> adds one byte per step.\<close>

lemma or64_value:
  assumes "u64_ok x" "u64_ok y" "val64 x < 2 ^ i" "2 ^ i dvd val64 y"
  shows "u64_ok (or64 x y) \<and> val64 (or64 x y) = val64 x + val64 y"
proof -
  have wf: "wf64 x" "ctor x = KUint64" "wf64 y" "ctor y = KUint64" using assms(1,2) by (simp_all add: u64_ok_def)
  then have l: "0 \<le> low x" "low x < 2 ^ 32" "0 \<le> low y" "low y < 2 ^ 32" by (simp_all add: wf64_def)
  have v: "0 \<le> val64 x" "0 \<le> val64 y" "val64 x < 2 ^ 64" "val64 y < 2 ^ 64"
    using in_range64_val64 [OF wf(1)] in_range64_val64 [OF wf(3)] wf by (simp_all add: in_range64_def)
  have t: "take_bit 32 (low x) = low x" "take_bit 32 (low y) = low y"
    using l by (simp_all add: take_bit_int_eq_self)
  have lo: "js_shr (js_or (low x) (low y)) 0 = low x OR low y"
    by (simp only: js_shr_0 take_bit_eq_mod [symmetric] js_or_def take_bit_or mod_ToInt32 t)
  have "take_bit 64 (val64 (or64 x y)) = take_bit 64 (js_or (high x) (high y) * 2 ^ 32 + (low x OR low y))"
    by (simp add: or64_def val64_new64 lo)
  also have "\<dots> = take_bit 64 ((high x OR high y) * 2 ^ 32 + (low x OR low y))"
    by (rule take_bit64_pair_cong) (simp add: js_or_def)
  also have "\<dots> = take_bit 64 (val64 x OR val64 y)"
    using or_pair [OF l, of "high x" "high y"] by (simp only: val64_def)
  also have "\<dots> = val64 x OR val64 y"
    using v OR_upper [of "val64 x" 64 "val64 y"] by (simp add: take_bit_int_eq_self)
  also have "\<dots> = val64 x + val64 y"
    using or_eq_plus [OF assms(4) v(1) assms(3)] by (simp add: or.commute)
  finally have "take_bit 64 (val64 (or64 x y)) = val64 x + val64 y" .
  moreover have ok: "u64_ok (or64 x y)" by (simp add: u64_ok_def or64_def)
  moreover from this have "take_bit 64 (val64 (or64 x y)) = val64 (or64 x y)"
    using in_range64_val64 [of "or64 x y"] by (simp add: u64_ok_def in_range64_def take_bit_int_eq_self)
  ultimately show ?thesis by simp
qed

lemma wf64_shift:
  assumes "wf64 e"
  shows "wf64 (shiftLeft64 e n) \<and> ctor (shiftLeft64 e n) = ctor e"
    and "wf64 (shiftRightUint64 e n) \<and> ctor (shiftRightUint64 e n) = ctor e"
  using assms by (simp_all add: shiftLeft64_def shiftRightUint64_def)

lemma byte_shifted:
  assumes "0 \<le> b" "b < 256" "i < 8"
  shows "u64_ok (shiftLeft64 (new64 KUint64 0 b) (8 * i)) \<and> val64 (shiftLeft64 (new64 KUint64 0 b) (8 * i)) = b * 256 ^ i"
proof -
  have p: "(2::int) ^ (8 * i) = 256 ^ i" by (simp add: power_mult)
  have "b * 256 ^ i < 256 * 256 ^ i" using assms(2) by simp
  also have "(256::int) * 256 ^ i = 256 ^ Suc i" by simp
  also have "\<dots> \<le> 256 ^ 8" using assms(3) by (intro power_increasing) simp_all
  finally have "b * 256 ^ i < 2 ^ 64" by simp
  moreover have "0 \<le> b * 256 ^ i" using assms(1) by simp
  moreover have "wrap64 KUint64 b = b" using assms by (simp add: wrap64_def take_bit_int_eq_self)
  ultimately have "wrap64 KUint64 (wrap64 KUint64 b * 2 ^ (8 * i)) = b * 256 ^ i"
    by (simp add: wrap64_def take_bit_int_eq_self p)
  then show ?thesis
    using shiftLeft64_value [of "new64 KUint64 0 b" "8 * i"]
    by (simp add: val64_new64 u64_ok_def wf64_shift)
qed

lemma join64_value:
  assumes "bytes xs" "length xs = 8"
  shows "u64_ok (join64 xs) \<and> val64 (join64 xs) = le_value xs"
proof -
  let ?f = "\<lambda>i acc. or64 acc (shiftLeft64 (new64 KUint64 0 (xs ! i)) (8 * i))"
  have nth: "0 \<le> xs ! i" "xs ! i < 256" if "i < 8" for i using assms bytes_nth that by auto
  have "u64_ok (fold ?f [1..<k] (new64 KUint64 0 (xs ! 0))) \<and>
        val64 (fold ?f [1..<k] (new64 KUint64 0 (xs ! 0))) = le_value (take k xs)" if "1 \<le> k" "k \<le> 8" for k
    using that
  proof (induction k rule: dec_induct)
    case base
    have "take 1 xs = [xs ! 0]" using assms(2) by (cases xs) simp_all
    then show ?case using nth [of 0]
      by (simp add: u64_ok_def val64_new64 wrap64_def take_bit_int_eq_self)
  next
    case (step k)
    let ?acc = "fold ?f [1..<k] (new64 KUint64 0 (xs ! 0))"
    have k: "k < 8" using step.prems by simp
    note b = byte_shifted [OF nth [OF k] k]
    have IH: "u64_ok ?acc" "val64 ?acc = le_value (take k xs)" using step by simp_all
    have "le_value (take k xs) < 256 ^ k"
      using le_value_range [OF bytes_take [OF assms(1)], of k] assms(2) k by (simp add: min_absorb2)
    then have "val64 ?acc < 2 ^ (8 * k)" by (simp only: IH(2) power_mult) simp
    moreover have "2 ^ (8 * k) dvd val64 (shiftLeft64 (new64 KUint64 0 (xs ! k)) (8 * k))"
      using b by (simp add: power_mult)
    ultimately have "u64_ok (?f k ?acc) \<and> val64 (?f k ?acc) = le_value (take k xs) + xs ! k * 256 ^ k"
      using or64_value [OF IH(1), of "shiftLeft64 (new64 KUint64 0 (xs ! k)) (8 * k)" "8 * k"] b IH(2) by simp
    moreover have "le_value (take (Suc k) xs) = le_value (take k xs) + xs ! k * 256 ^ k"
      using k assms(2) by (simp add: take_Suc_conv_app_nth le_value_snoc)
    ultimately show ?case using step.hyps by simp
  qed
  from this [of 8] assms(2) show ?thesis by (simp add: join64_def)
qed

text \<open>The bytes \<open>PutUint64\<close> writes.\<close>

lemma val64_mod_low: "low e mod 256 = val64 e mod 256"
proof -
  have "val64 e = low e + (high e * 2 ^ 24) * 256" by (simp add: val64_def)
  then show ?thesis by (simp only: mod_mult_self1)
qed

lemma nth_le_bytes: "i < n \<Longrightarrow> le_bytes n v ! i = v div 256 ^ i mod 256"
proof (induction n arbitrary: v i)
  case (Suc n)
  then show ?case by (cases i) (simp_all add: zdiv_zmult2_eq)
qed simp

lemma byte64_value:
  assumes "u64_ok v" "i < 8"
  shows "byte64 v i = val64 v div 256 ^ i mod 256"
proof (cases "i = 0")
  case True
  then show ?thesis using assms val64_mod_low [of v] by (simp add: byte64_def to_u8_mod u64_ok_def)
next
  case False
  have "val64 (shiftRightUint64 v (8 * i)) = val64 v div 256 ^ i"
    using assms shiftRightUint64_value [of v "8 * i"] by (simp add: u64_ok_def power_mult)
  then show ?thesis
    using False assms val64_mod_low [of "shiftRightUint64 v (8 * i)"] wf64_shift [of v]
    by (simp add: byte64_def to_u8_mod u64_ok_def)
qed

lemma fold_writes:
  "n \<le> length a \<Longrightarrow> fold (\<lambda>i a. a[i := f i]) [0..<n] a = map f [0..<n] @ drop n a"
proof (induction n)
  case (Suc n)
  then show ?case by (simp add: list_update_append Cons_nth_drop_Suc [symmetric])
qed simp

lemma bytes64_list:
  assumes "u64_ok v"
  shows "map (byte64 v) [0..<8] = le_bytes 8 (val64 v)"
    and "map (\<lambda>i. byte64 v (7 - i)) [0..<8] = rev (le_bytes 8 (val64 v))"
  using assms by (auto intro!: nth_equalityI simp: byte64_value nth_le_bytes rev_nth)

interpretation le64: fixed_width 8 "\<lambda>bs. bs" LE_Uint64 LE_PutUint64 val64 u64_ok
proof (unfold_locales, goal_cases)
  case (4 v)
  then show ?case using in_range64_val64 [of v] by (simp add: u64_ok_def in_range64_def)
next
  case (5 v v')
  then show ?case by (auto simp: u64_ok_def intro: wf64_eqI)
next
  case (6 a)
  then show ?case using join64_value [of "take 8 a"] by (simp add: LE_Uint64_def bytes_take)
next
  case (7 v a)
  then show ?case by (simp add: LE_PutUint64_def fold_writes bytes64_list)
qed (auto simp: LE_Uint64_def LE_PutUint64_def)

interpretation be64: fixed_width 8 rev BE_Uint64 BE_PutUint64 val64 u64_ok
proof (unfold_locales, goal_cases)
  case (4 v)
  then show ?case using in_range64_val64 [of v] by (simp add: u64_ok_def in_range64_def)
next
  case (5 v v')
  then show ?case by (auto simp: u64_ok_def intro: wf64_eqI)
next
  case (6 a)
  then show ?case using join64_value [of "rev (take 8 a)"] by (simp add: BE_Uint64_def bytes_take)
next
  case (7 v a)
  then show ?case by (simp add: BE_PutUint64_def fold_writes bytes64_list)
qed (auto simp: BE_Uint64_def BE_PutUint64_def)

section \<open>Round trips\<close>

text \<open>
  writing a \<open>uint64\<close> with either byte order into a long enough byte slice succeeds, reading it
  back gives the same number, and the length and the bytes after the eighth are unchanged.
\<close>

theorem Uint64_roundtrip:
  assumes "u64_ok v" "bytes a" "8 \<le> length a"
  shows "(\<exists>a'. LE_PutUint64 a v = Inr a' \<and> LE_Uint64 a' = Inr v \<and> length a' = length a \<and> drop 8 a' = drop 8 a) \<and>
         (\<exists>a'. BE_PutUint64 a v = Inr a' \<and> BE_Uint64 a' = Inr v \<and> length a' = length a \<and> drop 8 a' = drop 8 a)"
  using le64.put_get [OF assms] be64.put_get [OF assms] by blast

theorem Uint64_roundtrip_witness:
  "\<exists>a'. BE_PutUint64 (replicate 9 7) (new64 KUint64 1 2) = Inr a' \<and> BE_Uint64 a' = Inr (new64 KUint64 1 2) \<and> drop 8 a' = [7]"
  using Uint64_roundtrip [of "new64 KUint64 1 2" "replicate 9 7"]
  by (auto simp: u64_ok_def bytes_def eval_nat_numeral)

text \<open>
  Reading and writing 32 bits in the two byte orders: on a slice of at least four bytes the
  number read is the base-256 value of the first four bytes, least significant first for
  \<open>LittleEndian\<close> and last for \<open>BigEndian\<close>, and writing that number back with the same order leaves the
  slice as it was; on a shorter slice reading and writing raise the range panic.
\<close>

theorem Uint32_spec:
  assumes "bytes a"
  shows "if length a < 4
         then LE_Uint32 a = out_of_range \<and> BE_Uint32 a = out_of_range \<and>
              (\<forall>v. LE_PutUint32 a v = out_of_range \<and> BE_PutUint32 a v = out_of_range)
         else LE_Uint32 a = Inr (le_value (take 4 a)) \<and> LE_PutUint32 a (le_value (take 4 a)) = Inr a \<and>
              BE_Uint32 a = Inr (le_value (rev (take 4 a))) \<and> BE_PutUint32 a (le_value (rev (take 4 a))) = Inr a"
proof (cases "length a < 4")
  case True
  then show ?thesis using le32.short be32.short by simp
next
  case False
  then have "LE_Uint32 a = Inr (le_value (take 4 a))" "BE_Uint32 a = Inr (le_value (rev (take 4 a)))"
    using le32.get_num [OF assms] be32.get_num [OF assms] by auto
  with False show ?thesis
    using le32.get_put [OF assms] be32.get_put [OF assms] by simp
qed

theorem Uint32_spec_witness:
  "BE_Uint32 [0, 1, 2, 3, 9] = Inr 66051 \<and> LE_Uint32 [1, 2] = out_of_range"
  using Uint32_spec [of "[0, 1, 2, 3, 9]"] Uint32_spec [of "[1, 2]"] by simp

end
