(* ===== verification/Strconv.thy ===== *)
theory Strconv
  imports Js_Bits Math_Bits Encoding_Binary Errors
begin

text \<open>
  Package \<open>strconv\<close>: integers to text and back.  A string is the list of its bytes.  The conversions of floats and
  the quoting of strings are not modelled.
\<close>

section \<open>Formatting\<close>

text \<open>The two constant strings the code indexes.\<close>

definition digitsString :: "int list" where
  "digitsString = map of_char ''0123456789abcdefghijklmnopqrstuvwxyz''"

definition smallsString :: "int list" where
  "smallsString = map of_char (''00010203040506070809101112131415161718192021222324252627282930313233343536373839'' @
     ''4041424344454647484950515253545556575859606162636465666768697071727374757677787980'' @
     ''81828384858687888990919293949596979899'')"

text \<open>\<open>$substring\<close>; \<open>charCodeAt\<close> at a place the code knows to exist is \<open>!\<close>.\<close>

definition substring :: "int list \<Rightarrow> int \<Rightarrow> int \<Rightarrow> int list res" where
  "substring s lo hi =
     (if lo < 0 \<or> hi < lo \<or> hi > int (length s) then Inl (RuntimeError ''slice bounds out of range'')
      else Inr (take (nat (hi - lo)) (drop (nat lo) s)))"

definition small :: "int \<Rightarrow> int list res" where
  "small a = (if a < 10 then substring digitsString a (js_sar (a + 1) 0)
              else substring smallsString (js_imul a 2) (js_sar (js_imul a 2 + 2) 0))"

text \<open>
  The state of \<open>formatBits\<close>: the array of 65 bytes, filled from its end, and the index of its first used byte.
  \<open>put_digit\<close> is \<open>i--; h[i] = c\<close> and \<open>put_pair\<close> writes two bytes below \<open>i\<close>, the higher place first.
\<close>

type_synonym outbuf = "int list \<times> int"

definition store_at :: "int \<Rightarrow> int \<Rightarrow> int list \<Rightarrow> int list res" where
  "store_at i c h = (if i < 0 \<or> i \<ge> int (length h) then Inl (RuntimeError ''index out of range'') else Inr (h[nat i := c]))"

definition put_digit :: "int \<Rightarrow> outbuf \<Rightarrow> outbuf res" where
  "put_digit c b = (case b of (h, i) \<Rightarrow> let i = js_sar (i - 1) 0 in res_bind (store_at i c h) (\<lambda>h. Inr (h, i)))"

definition put_pair :: "int \<Rightarrow> outbuf \<Rightarrow> outbuf res" where
  "put_pair u b = (case b of (h, i) \<Rightarrow>
     let i = js_sar (i - 2) 0 in
     res_bind (store_at (js_sar (i + 1) 0) (smallsString ! nat (js_shr (u + 1) 0)) h) (\<lambda>h.
     res_bind (store_at (js_sar (i + 0) 0) (smallsString ! nat (js_shr (u + 0) 0)) h) (\<lambda>h. Inr (h, i))))"

text \<open>Base 10: nine digits at a time while the number is large, then pairs of digits.\<close>

fun nine_digits :: "nat \<Rightarrow> int \<Rightarrow> outbuf \<Rightarrow> (int \<times> outbuf) res" where
  "nine_digits 0 l b = Inr (l, b)"
| "nine_digits (Suc m) l b = res_bind (put_pair (js_shr ((l mod 100) * 2) 0) b) (nine_digits m (js_shr (l div 100) 0))"

partial_function (option) large_loop :: "js64 \<Rightarrow> outbuf \<Rightarrow> (js64 \<times> outbuf) res option" where
  "large_loop b ob =
     (if \<not> (high b > 0 \<or> high b = 0 \<and> low b \<ge> 1000000000) then Some (Inr (b, ob))
      else bind2 (div64 b (uint64_of 1000000000) False) (\<lambda>j.
        let l = js_shr (low (sub64 b (mul64 j (uint64_of 1000000000)))) 0 in
        bind2 (Some (nine_digits 4 l ob)) (\<lambda>(l, ob).
        bind2 (Some (put_digit (smallsString ! nat (js_shr (js_shr (l * 2) 0 + 1) 0)) ob)) (\<lambda>ob. large_loop j ob))))"

function small_loop :: "int \<Rightarrow> outbuf \<Rightarrow> (int \<times> outbuf) res" where
  "small_loop s ob =
     (if \<not> s \<ge> 100 then Inr (s, ob)
      else res_bind (put_pair (js_shr ((s mod 100) * 2) 0) ob) (small_loop (js_shr (s div 100) 0)))"
  by pat_completeness auto
termination
proof (relation "measure (\<lambda>(s, ob). nat s)")
  fix s :: int and ob :: outbuf and x :: outbuf
  assume "\<not> \<not> s \<ge> 100"
  then have s: "100 \<le> s" by simp
  have "js_shr (s div 100) 0 \<le> s div 100" using s by (simp add: js_shr_0 zmod_le_nonneg_dividend)
  also have "s div 100 < s" using s by simp
  finally show "((js_shr (s div 100) 0, x), (s, ob)) \<in> measure (\<lambda>(s, ob). nat s)" using s by simp
qed simp

declare small_loop.simps [simp del]

definition format10 :: "js64 \<Rightarrow> outbuf \<Rightarrow> outbuf res option" where
  "format10 b ob = bind2 (large_loop b ob) (\<lambda>(b, ob).
     bind2 (Some (small_loop (js_shr (low b) 0) ob)) (\<lambda>(s, ob).
       let y = js_shr (s * 2) 0 in
       bind2 (Some (put_digit (smallsString ! nat (js_shr (y + 1) 0)) ob)) (\<lambda>ob.
         Some (if s \<ge> 10 then put_digit (smallsString ! nat y) ob else Inr ob))))"

text \<open>A power of two: shifts and masks.\<close>

partial_function (option) power_loop :: "js64 \<Rightarrow> int \<Rightarrow> nat \<Rightarrow> js64 \<Rightarrow> outbuf \<Rightarrow> (js64 \<times> outbuf) res option" where
  "power_loop base msk shift b ob =
     (if \<not> le64 base b then Some (Inr (b, ob))
      else bind2 (Some (put_digit (digitsString ! nat (js_shr (js_and (js_shr (low b) 0) msk) 0)) ob))
        (\<lambda>ob. power_loop base msk shift (shiftRightUint64 b shift) ob))"

text \<open>Any other base: division.\<close>

partial_function (option) div_loop :: "js64 \<Rightarrow> js64 \<Rightarrow> outbuf \<Rightarrow> (js64 \<times> outbuf) res option" where
  "div_loop base b ob =
     (if \<not> le64 base b then Some (Inr (b, ob))
      else bind2 (div64 b base False) (\<lambda>q.
        bind2 (Some (put_digit (digitsString ! nat (js_shr (low (sub64 b (mul64 q base))) 0)) ob)) (\<lambda>ob. div_loop base q ob)))"

definition last_digit :: "(js64 \<times> outbuf) res option \<Rightarrow> outbuf res option" where
  "last_digit r = bind2 r (\<lambda>(b, ob). Some (put_digit (digitsString ! nat (js_shr (low b) 0)) ob))"

definition isPowerOfTwo :: "int \<Rightarrow> bool" where
  "isPowerOfTwo a \<longleftrightarrow> js_and a (js_sar (a - 1) 0) = 0"

definition format_digits :: "js64 \<Rightarrow> int \<Rightarrow> outbuf \<Rightarrow> outbuf res option" where
  "format_digits b c ob =
     (if c = 10 then format10 b ob
      else if isPowerOfTwo c then
        bind2 (Some (TrailingZeros (js_shr c 0))) (\<lambda>z.
          last_digit (power_loop (uint64_of c) (js_shr (js_shr c 0 - 1) 0) (nat (js_shr (js_and (js_shr z 0) 7) 0)) b ob))
      else last_digit (div_loop (uint64_of c) b ob))"

text \<open>\<open>formatBits\<close> for a result as a string (the last argument false): \<open>neg\<close> for a negative number.\<close>

definition formatBits :: "js64 \<Rightarrow> int \<Rightarrow> bool \<Rightarrow> int list res option" where
  "formatBits b c neg =
     (if c < 2 \<or> c > 36 then Some (Inl (Panic ''strconv: illegal AppendInt/FormatInt base''))
      else let b = (if neg then new64 KUint64 (- high b) (- low b) else b); ob = (replicate 65 0, 65) in
        bind2 (format_digits b c ob) (\<lambda>ob.
        bind2 (if neg then Some (put_digit 45 ob) else Some (Inr ob)) (\<lambda>(h, i).
        Some (if i < 0 \<or> i > int (length h) then Inl (RuntimeError ''slice bounds out of range'') else Inr (drop (nat i) h)))))"

definition FormatUint :: "js64 \<Rightarrow> int \<Rightarrow> int list res option" where
  "FormatUint a b =
     (if (high a < 0 \<or> high a = 0 \<and> low a < 100) \<and> b = 10 then Some (small (js_sar (low a) 0))
      else formatBits a b False)"

definition FormatInt :: "js64 \<Rightarrow> int \<Rightarrow> int list res option" where
  "FormatInt a b =
     (if (0 < high a \<or> 0 = high a \<and> 0 \<le> low a) \<and> (high a < 0 \<or> high a = 0 \<and> low a < 100) \<and> b = 10
      then Some (small (to_int32 a))
      else formatBits (new64 KUint64 (high a) (low a)) b (high a < 0 \<or> high a = 0 \<and> low a < 0))"

definition Itoa :: "int \<Rightarrow> int list res option" where
  "Itoa a = FormatInt (int64_of a) 10"

section \<open>The digits of a number\<close>

function digs :: "int \<Rightarrow> int \<Rightarrow> int list" where
  "digs c v = (if c < 2 \<or> v < c then [v] else digs c (v div c) @ [v mod c])"
  by pat_completeness auto
termination
proof (relation "measure (\<lambda>(c, v). nat v)")
  fix c v :: int
  assume "\<not> (c < 2 \<or> v < c)"
  then have "1 < c" "0 < v" by simp_all
  then have "v div c < v" by (intro int_div_less_self)
  then show "((c, v div c), c, v) \<in> measure (\<lambda>(c, v). nat v)" using \<open>0 < v\<close> by simp
qed simp

declare digs.simps [simp del]

fun padded :: "int \<Rightarrow> nat \<Rightarrow> int \<Rightarrow> int list" where
  "padded c 0 v = []"
| "padded c (Suc k) v = padded c k (v div c) @ [v mod c]"

definition digit :: "int \<Rightarrow> int" where
  "digit d = (if d < 10 then 48 + d else 87 + d)"

abbreviation text_of :: "int \<Rightarrow> int \<Rightarrow> int list" where
  "text_of c v \<equiv> map digit (digs c v)"

lemma digs_small: "v < c \<Longrightarrow> digs c v = [v]"
  by (subst digs.simps) simp

lemma digs_step: "2 \<le> c \<Longrightarrow> c \<le> v \<Longrightarrow> digs c v = digs c (v div c) @ [v mod c]"
  by (subst digs.simps) simp

lemma length_padded [simp]: "length (padded c k v) = k"
  by (induction k arbitrary: v) simp_all

lemma digs_block: "2 \<le> c \<Longrightarrow> c ^ k \<le> v \<Longrightarrow> digs c v = digs c (v div c ^ k) @ padded c k (v mod c ^ k)"
proof (induction k arbitrary: v)
  case (Suc k)
  have ck: "0 < c ^ k" "1 \<le> c ^ k" using Suc.prems(1) by simp_all
  have "c * 1 \<le> c * c ^ k" using ck(2) Suc.prems(1) by (intro mult_left_mono) simp_all
  then have "c \<le> v" using Suc.prems(2) by simp
  have "c ^ k = c * c ^ k div c" using Suc.prems(1) by simp
  also have "\<dots> \<le> v div c" using Suc.prems by (intro zdiv_mono1) simp_all
  finally have "digs c (v div c) = digs c (v div c div c ^ k) @ padded c k (v div c mod c ^ k)" by (rule Suc.IH [OF Suc.prems(1)])
  moreover have "v div c div c ^ k = v div c ^ Suc k" using ck(1) by (simp add: zdiv_zmult2_eq)
  moreover have "v mod c ^ Suc k div c = v div c mod c ^ k" "v mod c ^ Suc k mod c = v mod c"
    using Suc.prems(1) ck(1) by (simp_all add: zmod_zmult2_eq mod_mult_right_eq)
  ultimately show ?case using digs_step [OF Suc.prems(1) \<open>c \<le> v\<close>] by simp
qed simp

lemma length_digs: "2 \<le> c \<Longrightarrow> v < c ^ k \<Longrightarrow> 0 < k \<Longrightarrow> length (digs c v) \<le> k"
proof (induction k arbitrary: v)
  case (Suc k)
  show ?case
  proof (cases "v < c \<or> k = 0")
    case True
    then show ?thesis using Suc.prems by (auto simp: digs_small)
  next
    case False
    have "v div c < c ^ k" using Suc.prems(1,2) by (intro int_div_less) (simp_all add: mult.commute)
    then show ?thesis using Suc.IH [of "v div c"] False Suc.prems(1) by (simp add: digs_step)
  qed
qed simp

lemma length_digs64: "2 \<le> c \<Longrightarrow> v < 2 ^ 64 \<Longrightarrow> length (digs c v) \<le> 64"
  using length_digs [of c v 64] power_mono [of 2 c 64] by simp

lemma digits_table: "\<forall>d \<in> set [0..35]. digitsString ! nat d = digit d"
  by code_simp

lemma smalls_table: "\<forall>d \<in> set [0..99]. smallsString ! nat (2 * d) = digit (d div 10) \<and> smallsString ! nat (2 * d + 1) = digit (d mod 10)"
  by code_simp

lemma digitsString_nth: "0 \<le> d \<Longrightarrow> d < 36 \<Longrightarrow> digitsString ! nat d = digit d"
  using digits_table by simp

lemma smallsString_nth:
  "0 \<le> d \<Longrightarrow> d < 100 \<Longrightarrow> smallsString ! nat (2 * d) = digit (d div 10) \<and> smallsString ! nat (2 * d + 1) = digit (d mod 10)"
  using smalls_table by simp

section \<open>The output buffer\<close>

definition written :: "outbuf \<Rightarrow> int list \<Rightarrow> bool" where
  "written ob t \<longleftrightarrow> length (fst ob) = 65 \<and> snd ob = 65 - int (length t) \<and> length t \<le> 65 \<and> drop (nat (snd ob)) (fst ob) = t"

lemma put_digit_written:
  assumes "written ob t" "length t < 65"
  shows "\<exists>ob'. put_digit c ob = Inr ob' \<and> written ob' (c # t)"
proof -
  obtain h i where ob: "ob = (h, i)" by (cases ob)
  have i: "i = 65 - int (length t)" "length h = 65" "drop (nat i) h = t" using assms(1) by (auto simp: written_def ob)
  have b: "0 < i" "i \<le> 65" using i(1) assms(2) by simp_all
  have j: "js_sar (i - 1) 0 = i - 1" using b by (simp add: js_sar_eq ToInt32_id)
  have n: "nat (i - 1) < length h" "nat i = Suc (nat (i - 1))" using b i(2) by auto
  have "drop (nat (i - 1)) (h[nat (i - 1) := c]) = c # t"
    using n i(3) by (simp add: Cons_nth_drop_Suc [of "nat (i - 1)" "h[nat (i - 1) := c]", symmetric])
  then show ?thesis using b i j n assms(2) by (simp add: put_digit_def ob store_at_def written_def Let_def)
qed

lemma put_pair_two:
  assumes "written ob t" "length t < 64" "0 \<le> u" "u < 2 ^ 31 - 1"
  shows "\<exists>ob1. put_digit (smallsString ! nat (u + 1)) ob = Inr ob1 \<and> put_pair u ob = put_digit (smallsString ! nat u) ob1"
proof -
  obtain h i where ob: "ob = (h, i)" by (cases ob)
  have i: "i = 65 - int (length t)" "length h = 65" using assms(1) by (simp_all add: written_def ob)
  have b: "1 < i" "i \<le> 65" using i(1) assms(2) by simp_all
  have j: "js_sar (i - 1) 0 = i - 1" "js_sar (i - 2) 0 = i - 2" using b by (simp_all add: js_sar_eq ToInt32_id)
  have u: "js_shr (u + 1) 0 = u + 1" "js_shr u 0 = u" using assms(3,4) by (simp_all add: js_shr_0)
  show ?thesis using b i j u by (simp add: put_pair_def put_digit_def ob store_at_def Let_def)
qed

lemma put_pair_written:
  assumes "written ob t" "length t < 64" "0 \<le> d" "d < 100"
  shows "\<exists>ob'. put_pair (2 * d) ob = Inr ob' \<and> written ob' (digit (d div 10) # digit (d mod 10) # t)"
proof -
  have u: "0 \<le> 2 * d" "2 * d < 2 ^ 31 - 1" using assms(3,4) by simp_all
  obtain ob1 where ob1: "put_digit (smallsString ! nat (2 * d + 1)) ob = Inr ob1" "put_pair (2 * d) ob = put_digit (smallsString ! nat (2 * d)) ob1"
    using put_pair_two [OF assms(1,2) u] by blast
  have "written ob1 (digit (d mod 10) # t)"
    using put_digit_written [OF assms(1), of "smallsString ! nat (2 * d + 1)"] assms(2-4) ob1(1) smallsString_nth [of d] by auto
  then show ?thesis using put_digit_written [of ob1 "digit (d mod 10) # t" "digit (d div 10)"] ob1(2) assms(2-4) smallsString_nth [of d] by simp
qed

section \<open>Unsigned arithmetic\<close>

definition u64 :: "js64 \<Rightarrow> bool" where
  "u64 x \<longleftrightarrow> wf64 x \<and> ctor x = KUint64"

lemma u64_range: "u64 x \<Longrightarrow> 0 \<le> val64 x \<and> val64 x < 2 ^ 64"
  using in_range64_val64 [of x] by (simp add: u64_def in_range64_def)

lemma u64_new [simp]: "u64 (new64 KUint64 h l)"
  by (simp add: u64_def)

lemma u64_of [simp]: "u64 (uint64_of n)"
  by (simp add: uint64_of_def)

lemma val64_of: "0 \<le> n \<Longrightarrow> n < 2 ^ 64 \<Longrightarrow> val64 (uint64_of n) = n"
  by (simp add: uint64_of_def val64_new64 wrap64_in_range in_range64_def)

lemma le64_val: "u64 x \<Longrightarrow> u64 y \<Longrightarrow> le64 x y \<longleftrightarrow> val64 x \<le> val64 y"
  using less64_val [of y x] by (auto simp: u64_def le64_def less64_def)

lemma u64_low: "u64 x \<Longrightarrow> 0 \<le> low x \<and> low x < 2 ^ 32"
  by (simp add: u64_def wf64_def)

lemma u64_low_mod: "u64 x \<Longrightarrow> low x = val64 x mod 2 ^ 32"
  using u64_low [of x] by (simp add: val64_def)

lemma u64_low_small: "u64 x \<Longrightarrow> val64 x < 2 ^ 32 \<Longrightarrow> low x = val64 x"
  using u64_range [of x] by (simp add: u64_low_mod)

lemma div_le_self: "0 \<le> x \<Longrightarrow> 0 < y \<Longrightarrow> x div y \<le> x" for x y :: int
  using zdiv_mono2 [of x 1 y] by simp

lemma int_div_less_mult:
  fixes x :: int
  assumes "0 < b"
  shows "x div b < y \<longleftrightarrow> x < y * b"
proof
  assume "x div b < y"
  then have "(x div b + 1) * b \<le> y * b" using assms by (intro mult_right_mono) simp_all
  then have "x div b * b + b \<le> y * b" by (simp add: distrib_right)
  then show "x < y * b" using div_mult_mod_eq [of x b] pos_mod_bound [OF assms, of x] by linarith
next
  assume "x < y * b"
  then have "x div b * b < y * b" using div_mult_mod_eq [of x b] pos_mod_sign [OF assms, of x] by linarith
  then show "x div b < y" using assms by simp
qed

lemma u64_quotient:
  assumes "u64 x" "u64 y" "0 < val64 y"
  shows "\<exists>q. div64 x y False = Some (Inr q) \<and> u64 q \<and> val64 q = val64 x div val64 y"
proof -
  have "wf64 x" "wf64 y" "ctor y = ctor x" "val64 y \<noteq> 0" using assms by (simp_all add: u64_def)
  from div64_correct [OF this, of False] obtain q where q: "div64 x y False = Some (Inr q)" "ctor q = ctor x" "wf64 q"
    "val64 q = wrap64 (ctor x) (tdiv (val64 x) (val64 y))" by auto
  have r: "0 \<le> val64 x" "val64 x < 2 ^ 64" using u64_range [OF assms(1)] by simp_all
  have "tdiv (val64 x) (val64 y) = val64 x div val64 y" using r(1) assms(3) by (cases "val64 x = 0") (simp_all add: tdiv_def)
  moreover have "0 \<le> val64 x div val64 y" "val64 x div val64 y < 2 ^ 64"
    using r assms(3) le_less_trans [OF div_le_self [OF r(1) assms(3)] r(2)] by (simp_all add: pos_imp_zdiv_nonneg_iff)
  ultimately have "val64 q = val64 x div val64 y" using q(4) assms(1) by (simp add: u64_def wrap64_in_range in_range64_def)
  then show ?thesis using q assms(1) by (simp add: u64_def)
qed

lemma u64_remainder:
  assumes "u64 x" "u64 y" "u64 q" "0 < val64 y" "val64 q = val64 x div val64 y"
  shows "u64 (sub64 x (mul64 q y)) \<and> val64 (sub64 x (mul64 q y)) = val64 x mod val64 y"
proof -
  have r: "0 \<le> val64 x" "val64 x < 2 ^ 64" using u64_range [OF assms(1)] by simp_all
  have "val64 q * val64 y + val64 x mod val64 y = val64 x" by (simp add: assms(5))
  moreover have "0 \<le> val64 q * val64 y" using r(1) assms(4,5) by (simp add: pos_imp_zdiv_nonneg_iff)
  ultimately have le: "0 \<le> val64 q * val64 y" "val64 q * val64 y \<le> val64 x"
    using pos_mod_sign [OF assms(4), of "val64 x"] by linarith+
  have m: "val64 (mul64 q y) = val64 q * val64 y"
    using mul64_value [of q y] assms(2,3) le r by (simp add: u64_def wrap64_in_range in_range64_def)
  have "0 \<le> val64 x mod val64 y" "val64 x mod val64 y < 2 ^ 64"
    using assms(4) zmod_le_nonneg_dividend [OF r(1), of "val64 y"] r(2) by simp_all
  moreover have "val64 (sub64 x (mul64 q y)) = wrap64 KUint64 (val64 x - val64 (mul64 q y))"
    using assms(1) by (simp add: sub64_def val64_new64 u64_def) (simp add: val64_def algebra_simps)
  moreover have "val64 x - val64 (mul64 q y) = val64 x mod val64 y" by (simp add: m assms(5) minus_div_mult_eq_mod)
  ultimately show ?thesis using assms(1) by (simp add: sub64_def u64_def wrap64_in_range in_range64_def)
qed

section \<open>The loops of \<open>formatBits\<close>\<close>

text \<open>
  The invariant of every loop: the buffer holds the last digits of the number \<open>n\<close> being formatted, and the digits still
  to come are those of \<open>v\<close>.
\<close>

definition pending :: "int \<Rightarrow> int \<Rightarrow> int \<Rightarrow> outbuf \<Rightarrow> bool" where
  "pending c n v ob \<longleftrightarrow> 0 \<le> v \<and> (\<exists>ds. digs c n = digs c v @ ds \<and> written ob (map digit ds))"

lemma digs_not_Nil: "0 < length (digs c v)"
  by (subst digs.simps) simp

lemma pending_start: "0 \<le> n \<Longrightarrow> pending c n n (replicate 65 0, 65)"
  by (auto simp: pending_def written_def)

lemma pending_room:
  assumes "pending c n v ob" "2 \<le> c" "n < 2 ^ 64"
  obtains ds where "digs c n = digs c v @ ds" "written ob (map digit ds)" "length (digs c v) + length ds \<le> 64" "0 \<le> v"
  using assms(1) length_digs64 [OF assms(2,3)] by (auto simp: pending_def)

lemma pending_digit:
  assumes "pending c n v ob" "2 \<le> c" "n < 2 ^ 64" "c \<le> v"
  shows "\<exists>ob'. put_digit (digit (v mod c)) ob = Inr ob' \<and> pending c n (v div c) ob'"
proof -
  obtain ds where ds: "digs c n = digs c v @ ds" "written ob (map digit ds)" "length (digs c v) + length ds \<le> 64" "0 \<le> v"
    using pending_room [OF assms(1-3)] .
  have v: "digs c v = digs c (v div c) @ [v mod c]" using digs_step [OF assms(2,4)] .
  have "length (map digit ds) < 65" using ds(3) by simp
  from put_digit_written [OF ds(2) this, of "digit (v mod c)"] obtain ob' where
    "put_digit (digit (v mod c)) ob = Inr ob'" "written ob' (map digit ((v mod c) # ds))" by auto
  moreover have "digs c n = digs c (v div c) @ ((v mod c) # ds)" using ds(1) v by simp
  moreover have "0 \<le> v div c" using assms(2) ds(4) by (simp add: pos_imp_zdiv_nonneg_iff)
  ultimately show ?thesis unfolding pending_def by blast
qed

lemma pending_last:
  assumes "pending c n v ob" "2 \<le> c" "n < 2 ^ 64" "v < c"
  shows "\<exists>ob'. put_digit (digit v) ob = Inr ob' \<and> written ob' (text_of c n)"
proof -
  obtain ds where ds: "digs c n = digs c v @ ds" "written ob (map digit ds)" "length (digs c v) + length ds \<le> 64"
    using pending_room [OF assms(1-3)] .
  have "length (map digit ds) < 65" using ds(3) by simp
  from put_digit_written [OF ds(2) this, of "digit v"] show ?thesis using ds(1) digs_small [OF assms(4)] by auto
qed

lemma pending_pair:
  assumes "pending 10 n v ob" "n < 2 ^ 64" "100 \<le> v"
  shows "\<exists>ob'. put_pair (2 * (v mod 100)) ob = Inr ob' \<and> pending 10 n (v div 100) ob'"
proof -
  obtain ds where ds: "digs 10 n = digs 10 v @ ds" "written ob (map digit ds)" "length (digs 10 v) + length ds \<le> 64" "0 \<le> v"
    using pending_room [OF assms(1) _ assms(2)] by auto
  have two: "digs 10 v = digs 10 (v div 100) @ [v mod 100 div 10, v mod 100 mod 10]"
    using digs_block [of 10 2 v] assms(3) by (simp add: numeral_2_eq_2)
  have len: "length (map digit ds) < 64" using ds(3) digs_not_Nil [of 10 v] by (simp only: length_map)
  have "0 \<le> v mod 100" "v mod 100 < 100" by simp_all
  from put_pair_written [OF ds(2) len this] obtain ob' where ob': "put_pair (2 * (v mod 100)) ob = Inr ob'"
    "written ob' (map digit ([v mod 100 div 10, v mod 100 mod 10] @ ds))" by auto
  moreover have "digs 10 n = digs 10 (v div 100) @ ([v mod 100 div 10, v mod 100 mod 10] @ ds)" using ds(1) two by simp
  moreover have "0 \<le> v div 100" using ds(4) by simp
  ultimately show ?thesis unfolding pending_def by blast
qed

lemma nine_digits_pending:
  "pending 10 n v ob \<Longrightarrow> n < 2 ^ 64 \<Longrightarrow> 10 * 100 ^ m \<le> v \<Longrightarrow> l = v mod (10 * 100 ^ m) \<Longrightarrow> l < 2 ^ 32 \<Longrightarrow>
   \<exists>ob'. nine_digits m l ob = Inr (l div 100 ^ m, ob') \<and> pending 10 n (v div 100 ^ m) ob'"
proof (induction m arbitrary: v l ob)
  case (Suc m)
  have p: "1 \<le> (100 :: int) ^ m" by simp
  have v: "100 \<le> v" using Suc.prems(3) p by (simp, linarith)
  have lm: "l mod 100 = v mod 100" using Suc.prems(4) by (simp add: mod_mod_cancel)
  have l: "0 \<le> l" using Suc.prems(4) by simp
  obtain ob1 where ob1: "put_pair (2 * (v mod 100)) ob = Inr ob1" "pending 10 n (v div 100) ob1"
    using pending_pair [OF Suc.prems(1,2) v] by blast
  have v1: "10 * 100 ^ m \<le> v div 100"
    using Suc.prems(3) zdiv_mono1 [of "10 * 100 ^ Suc m" v 100] by simp
  have l1: "l div 100 = v div 100 mod (10 * 100 ^ m)"
    using Suc.prems(4) zmod_zmult2_eq [of "10 * 100 ^ m" v 100] by (simp add: mult.commute mult.left_commute)
  have "l div 100 < 2 ^ 32" using l Suc.prems(5) by simp
  from Suc.IH [OF ob1(2) Suc.prems(2) v1 l1 this] obtain ob' where
    ob': "nine_digits m (l div 100) ob1 = Inr (l div 100 div 100 ^ m, ob')" "pending 10 n (v div 100 div 100 ^ m) ob'" by blast
  have "js_shr ((l mod 100) * 2) 0 = 2 * (v mod 100)" "js_shr (l div 100) 0 = l div 100"
    using lm l Suc.prems(5) pos_mod_bound [of 100 v] pos_mod_sign [of 100 v] by (simp_all add: js_shr_0 mult.commute)
  then show ?case using ob1(1) ob' by (simp add: zdiv_zmult2_eq)
qed simp

lemma large_loop_pending:
  "pending 10 n (val64 b) ob \<Longrightarrow> n < 2 ^ 64 \<Longrightarrow> u64 b \<Longrightarrow>
   \<exists>b' ob'. large_loop b ob = Some (Inr (b', ob')) \<and> u64 b' \<and> val64 b' < 1000000000 \<and> pending 10 n (val64 b') ob'"
proof (induction "nat (val64 b)" arbitrary: b ob rule: less_induct)
  case less
  have r: "0 \<le> val64 b" "val64 b < 2 ^ 64" using u64_range [OF less.prems(3)] by simp_all
  have "0 \<le> low b" "low b < 2 ^ 32" "0 \<le> high b" using less.prems(3) by (auto simp: u64_def wf64_def)
  then have test: "(high b > 0 \<or> high b = 0 \<and> low b \<ge> 1000000000) \<longleftrightarrow> 1000000000 \<le> val64 b" by (auto simp: val64_def)
  show ?case
  proof (cases "1000000000 \<le> val64 b")
    case False
    then show ?thesis using less.prems test by (subst large_loop.simps) simp
  next
    case True
    have c: "val64 (uint64_of 1000000000) = 1000000000" by (simp add: val64_of)
    obtain q where q: "div64 b (uint64_of 1000000000) False = Some (Inr q)" "u64 q" "val64 q = val64 b div 1000000000"
      using u64_quotient [OF less.prems(3) u64_of [of 1000000000]] c by auto
    define l where "l = val64 b mod 1000000000"
    have rem: "u64 (sub64 b (mul64 q (uint64_of 1000000000)))" "val64 (sub64 b (mul64 q (uint64_of 1000000000))) = l"
      using u64_remainder [OF less.prems(3) u64_of [of 1000000000] q(2)] c q(3) by (simp_all add: l_def)
    have l: "0 \<le> l" "l < 1000000000" by (simp_all add: l_def)
    then have low: "js_shr (low (sub64 b (mul64 q (uint64_of 1000000000)))) 0 = l"
      using u64_low_small [OF rem(1)] rem(2) by (simp add: js_shr_0)
    have "10 * 100 ^ 4 \<le> val64 b" "l = val64 b mod (10 * 100 ^ 4)" "l < 2 ^ 32" using True l by (simp_all add: l_def)
    from nine_digits_pending [OF less.prems(1,2) this] obtain ob1 where
      ob1: "nine_digits 4 l ob = Inr (l div 100 ^ 4, ob1)" "pending 10 n (val64 b div 100 ^ 4) ob1" by blast
    define k where "k = l div 100 ^ 4"
    have nd: "nine_digits 4 l ob = Inr (k, ob1)" using ob1(1) by (simp add: k_def)
    have k: "0 \<le> k" "k < 10" "k = val64 b div 100 ^ 4 mod 10"
      using l zmod_zmult2_eq [of 10 "val64 b" "100 ^ 4"] by (auto simp: k_def l_def)
    have "nat (js_shr (js_shr (k * 2) 0 + 1) 0) = nat (2 * k + 1)" using k(1,2) by (simp add: js_shr_0 mult.commute)
    then have dg: "smallsString ! nat (js_shr (js_shr (k * 2) 0 + 1) 0) = digit (val64 b div 100 ^ 4 mod 10)"
      using smallsString_nth [of k] k(1,2) by (simp only: k(3) [symmetric]) simp
    have "10 \<le> val64 b div 100 ^ 4" using True zdiv_mono1 [of "1000000000" "val64 b" "100 ^ 4"] by simp
    from pending_digit [OF ob1(2) _ less.prems(2) this] obtain ob2 where
      ob2: "put_digit (digit (val64 b div 100 ^ 4 mod 10)) ob1 = Inr ob2" "pending 10 n (val64 b div 100 ^ 4 div 10) ob2" by auto
    have v: "val64 b div 100 ^ 4 div 10 = val64 q" using zdiv_zmult2_eq [of 10 "val64 b" "100 ^ 4"] q(3) by simp
    have "nat (val64 q) < nat (val64 b)" using True q(3) by simp
    from less.hyps [OF this ob2(2) [unfolded v] less.prems(2) q(2)]
    show ?thesis using True test q(1) low nd dg ob2(1)
      by (subst large_loop.simps) (simp add: Let_def)
  qed
qed

lemma small_loop_pending:
  "pending 10 n v ob \<Longrightarrow> n < 2 ^ 64 \<Longrightarrow> v < 2 ^ 32 \<Longrightarrow>
   \<exists>v' ob'. small_loop v ob = Inr (v', ob') \<and> 0 \<le> v' \<and> v' < 100 \<and> pending 10 n v' ob'"
proof (induction "nat v" arbitrary: v ob rule: less_induct)
  case less
  have "0 \<le> v" using less.prems(1) by (simp add: pending_def)
  show ?case
  proof (cases "100 \<le> v")
    case False
    then show ?thesis using less.prems(1) \<open>0 \<le> v\<close> by (subst small_loop.simps) simp
  next
    case True
    obtain ob1 where ob1: "put_pair (2 * (v mod 100)) ob = Inr ob1" "pending 10 n (v div 100) ob1"
      using pending_pair [OF less.prems(1,2) True] by blast
    have d: "nat (v div 100) < nat v" "v div 100 < 2 ^ 32" "js_shr (v div 100) 0 = v div 100"
      using True less.prems(3) by (auto simp: js_shr_0)
    have "0 \<le> v mod 100 * 2" "v mod 100 * 2 < 2 ^ 32" using pos_mod_bound [of 100 v] by simp_all
    then have "js_shr (v mod 100 * 2) 0 = 2 * (v mod 100)" by (simp add: js_shr_0 mult.commute)
    then show ?thesis using less.hyps [OF d(1) ob1(2) less.prems(2) d(2)] True ob1(1) d(3)
      by (subst small_loop.simps) (simp add: mult.commute)
  qed
qed

lemma format10_text:
  assumes "u64 b"
  shows "\<exists>ob. format10 b (replicate 65 0, 65) = Some (Inr ob) \<and> written ob (text_of 10 (val64 b))"
proof -
  let ?n = "val64 b"
  have n: "0 \<le> ?n" "?n < 2 ^ 64" using u64_range [OF assms] by simp_all
  obtain b1 ob1 where l1: "large_loop b (replicate 65 0, 65) = Some (Inr (b1, ob1))" "u64 b1" "val64 b1 < 1000000000"
    "pending 10 ?n (val64 b1) ob1"
    using large_loop_pending [OF pending_start [OF n(1)] n(2) assms] by blast
  have v: "0 \<le> val64 b1" "val64 b1 < 2 ^ 32" using u64_range [OF l1(2)] l1(3) by simp_all
  have low: "js_shr (low b1) 0 = val64 b1" using u64_low_small [OF l1(2) v(2)] v by (simp add: js_shr_0)
  obtain s ob2 where s: "small_loop (val64 b1) ob1 = Inr (s, ob2)" "0 \<le> s" "s < 100" "pending 10 ?n s ob2"
    using small_loop_pending [OF l1(4) n(2) v(2)] by blast
  have y: "nat (js_shr (js_shr (s * 2) 0 + 1) 0) = nat (2 * s + 1)" "nat (js_shr (s * 2) 0) = nat (2 * s)"
    using s(2,3) by (simp_all add: js_shr_0 mult.commute)
  have dg: "smallsString ! nat (2 * s + 1) = digit (s mod 10)" "smallsString ! nat (2 * s) = digit (s div 10)"
    using smallsString_nth [OF s(2,3)] by simp_all
  show ?thesis
  proof (cases "10 \<le> s")
    case False
    then obtain ob3 where "put_digit (digit s) ob2 = Inr ob3" "written ob3 (text_of 10 ?n)"
      using pending_last [OF s(4) _ n(2)] by auto
    then show ?thesis using False l1(1) low s y dg by (simp add: format10_def Let_def)
  next
    case True
    obtain ob3 where ob3: "put_digit (digit (s mod 10)) ob2 = Inr ob3" "pending 10 ?n (s div 10) ob3"
      using pending_digit [OF s(4) _ n(2) True] by auto
    have "s div 10 < 10" using s(3) by simp
    from pending_last [OF ob3(2) _ n(2) this] obtain ob4 where
      "put_digit (digit (s div 10)) ob3 = Inr ob4" "written ob4 (text_of 10 ?n)" by auto
    then show ?thesis using True l1(1) low s y dg ob3(1) by (simp add: format10_def Let_def)
  qed
qed

lemma js_and_low_bits:
  assumes "k \<le> 31"
  shows "js_and x (2 ^ k - 1) = x mod 2 ^ k"
proof -
  have "(2::int) ^ k \<le> 2 ^ 31" using power_increasing [OF assms, of "2::int"] by simp
  then have "ToInt32 (2 ^ k - 1) = 2 ^ k - 1" by (intro ToInt32_id) (simp_all, smt (verit) zero_less_power)
  moreover have "ToInt32 x AND (2 ^ k - 1) = take_bit k (ToInt32 x)" by (simp add: take_bit_eq_mask mask_eq_exp_minus_1)
  moreover have "take_bit k (ToInt32 x) = x mod 2 ^ k"
    using assms take_bit_signed_take_bit [of k 31 x] by (simp add: ToInt32_def take_bit_eq_mod [symmetric])
  ultimately show ?thesis by (simp add: js_and_def)
qed

lemma power_loop_pending:
  "pending (2 ^ k) n (val64 b) ob \<Longrightarrow> n < 2 ^ 64 \<Longrightarrow> u64 b \<Longrightarrow> 1 \<le> k \<Longrightarrow> k \<le> 5 \<Longrightarrow>
   \<exists>b' ob'. power_loop (uint64_of (2 ^ k)) (2 ^ k - 1) k b ob = Some (Inr (b', ob')) \<and> u64 b' \<and> val64 b' < 2 ^ k \<and>
     pending (2 ^ k) n (val64 b') ob'"
proof (induction "nat (val64 b)" arbitrary: b ob rule: less_induct)
  case less
  let ?c = "2 ^ k :: int"
  have c: "2 \<le> ?c" "?c \<le> 32"
    using power_increasing [OF less.prems(4), of "2 :: int"] power_increasing [OF less.prems(5), of "2 :: int"] by simp_all
  have cv: "val64 (uint64_of ?c) = ?c" using c by (simp add: val64_of)
  show ?case
  proof (cases "?c \<le> val64 b")
    case False
    then show ?thesis using less.prems le64_val [OF u64_of less.prems(3), of ?c] cv by (subst power_loop.simps) simp
  next
    case True
    have r: "0 \<le> val64 b" "val64 b < 2 ^ 64" using u64_range [OF less.prems(3)] by simp_all
    have "?c dvd 2 ^ 32" using less.prems(5) by (intro le_imp_power_dvd) simp
    then have "low b mod ?c = val64 b mod ?c"
      using u64_low_mod [OF less.prems(3)] mod_mod_cancel [of ?c "2 ^ 32" "val64 b"] by (simp only:)
    moreover have "js_and (js_shr (low b) 0) (2 ^ k - 1) = low b mod ?c"
      using u64_low [OF less.prems(3)] less.prems(5) js_and_low_bits [of k "low b"] by (simp add: js_shr_0)
    moreover have "0 \<le> val64 b mod ?c" "val64 b mod ?c < 36" using c pos_mod_bound [of ?c "val64 b"] by (simp_all, linarith)
    ultimately have dg: "digitsString ! nat (js_shr (js_and (js_shr (low b) 0) (2 ^ k - 1)) 0) = digit (val64 b mod ?c)"
      by (simp add: js_shr_0 digitsString_nth)
    obtain ob1 where ob1: "put_digit (digit (val64 b mod ?c)) ob = Inr ob1" "pending ?c n (val64 b div ?c) ob1"
      using pending_digit [OF less.prems(1) c(1) less.prems(2) True] by blast
    have b1: "u64 (shiftRightUint64 b k)" "val64 (shiftRightUint64 b k) = val64 b div ?c"
      using less.prems(3-5) shiftRightUint64_value [of b k] by (auto simp: u64_def shiftRightUint64_def)
    have "nat (val64 (shiftRightUint64 b k)) < nat (val64 b)" using True c b1(2) int_div_less_self [of "val64 b" ?c] by simp
    from less.hyps [OF this _ less.prems(2) b1(1) less.prems(4,5)] ob1(2) show ?thesis
      using True le64_val [OF u64_of less.prems(3), of ?c] cv dg ob1(1) b1(2) by (subst power_loop.simps) simp
  qed
qed

lemma div_loop_pending:
  "pending c n (val64 b) ob \<Longrightarrow> n < 2 ^ 64 \<Longrightarrow> u64 b \<Longrightarrow> 2 \<le> c \<Longrightarrow> c \<le> 36 \<Longrightarrow>
   \<exists>b' ob'. div_loop (uint64_of c) b ob = Some (Inr (b', ob')) \<and> u64 b' \<and> val64 b' < c \<and> pending c n (val64 b') ob'"
proof (induction "nat (val64 b)" arbitrary: b ob rule: less_induct)
  case less
  have cv: "val64 (uint64_of c) = c" using less.prems(4,5) by (simp add: val64_of)
  show ?case
  proof (cases "c \<le> val64 b")
    case False
    then show ?thesis using less.prems le64_val [OF u64_of less.prems(3), of c] cv by (subst div_loop.simps) simp
  next
    case True
    have r: "0 \<le> val64 b" "val64 b < 2 ^ 64" using u64_range [OF less.prems(3)] by simp_all
    have pos: "0 < val64 (uint64_of c)" using cv less.prems(4) by simp
    obtain q where q: "div64 b (uint64_of c) False = Some (Inr q)" "u64 q" "val64 q = val64 b div c"
      using u64_quotient [OF less.prems(3) u64_of pos] cv by auto
    let ?r = "sub64 b (mul64 q (uint64_of c))"
    have rem: "u64 ?r" "val64 ?r = val64 b mod c"
      using u64_remainder [OF less.prems(3) u64_of q(2) pos] cv q(3) by simp_all
    have d: "0 \<le> val64 b mod c" "val64 b mod c < 36" using less.prems(4,5) pos_mod_bound [of c "val64 b"] by (simp_all, linarith)
    then have dg: "digitsString ! nat (js_shr (low ?r) 0) = digit (val64 b mod c)"
      using u64_low_small [OF rem(1)] rem(2) by (simp add: js_shr_0 digitsString_nth)
    obtain ob1 where ob1: "put_digit (digit (val64 b mod c)) ob = Inr ob1" "pending c n (val64 b div c) ob1"
      using pending_digit [OF less.prems(1,4,2) True] by blast
    have "nat (val64 q) < nat (val64 b)" using True less.prems(4) q(3) int_div_less_self [of "val64 b" c] by simp
    from less.hyps [OF this _ less.prems(2) q(2) less.prems(4,5)] ob1(2) show ?thesis
      using True le64_val [OF u64_of less.prems(3), of c] cv dg ob1(1) q(1,3) by (subst div_loop.simps) simp
  qed
qed

lemma last_digit_text:
  assumes "r = Some (Inr (b, ob))" "u64 b" "val64 b < c" "pending c n (val64 b) ob" "2 \<le> c" "c \<le> 36" "n < 2 ^ 64"
  shows "\<exists>ob'. last_digit r = Some (Inr ob') \<and> written ob' (text_of c n)"
proof -
  have v: "0 \<le> val64 b" "val64 b < 36" using u64_range [OF assms(2)] assms(3,6) by simp_all
  then have "digitsString ! nat (js_shr (low b) 0) = digit (val64 b)"
    using u64_low_small [OF assms(2)] by (simp add: js_shr_0 digitsString_nth)
  moreover obtain ob' where "put_digit (digit (val64 b)) ob = Inr ob'" "written ob' (text_of c n)"
    using pending_last [OF assms(4,5,7,3)] by blast
  ultimately show ?thesis using assms(1) by (simp add: last_digit_def)
qed

lemma powers_table: "\<forall>c \<in> set [2..36]. isPowerOfTwo c \<longrightarrow> c \<in> {2, 4, 8, 16, 32}"
  by code_simp

lemma shifts_table: "\<forall>k \<in> set [1..5]. TrailingZeros (js_shr (2 ^ nat k) 0) = Inr k"
  by code_simp

lemma power_base:
  assumes "2 \<le> c" "c \<le> 36" "isPowerOfTwo c"
  obtains k :: nat where "1 \<le> k" "k \<le> 5" "c = 2 ^ k" "TrailingZeros (js_shr c 0) = Inr (int k)"
proof -
  have "c \<in> {2, 4, 8, 16, 32}" using powers_table [THEN bspec, of c] assms by (simp only: set_upto atLeastAtMost_iff simp_thms)
  then have "c = 2 ^ 1 \<or> c = 2 ^ 2 \<or> c = 2 ^ 3 \<or> c = 2 ^ 4 \<or> c = 2 ^ 5" by auto
  then have "\<exists>k \<in> {1, 2, 3, 4, 5 :: nat}. c = 2 ^ k" by auto
  then obtain k :: nat where "k \<in> {1, 2, 3, 4, 5}" "c = 2 ^ k" by blast
  then have k: "1 \<le> k" "k \<le> 5" "c = 2 ^ k" by auto
  then have "TrailingZeros (js_shr c 0) = Inr (int k)" using shifts_table [THEN bspec, of "int k"] by simp
  then show ?thesis using that k by blast
qed

lemma format_digits_text:
  assumes "u64 b" "2 \<le> c" "c \<le> 36"
  shows "\<exists>ob. format_digits b c (replicate 65 0, 65) = Some (Inr ob) \<and> written ob (text_of c (val64 b))"
proof -
  have n: "0 \<le> val64 b" "val64 b < 2 ^ 64" using u64_range [OF assms(1)] by simp_all
  note start = pending_start [OF n(1)]
  consider "c = 10" | "c \<noteq> 10" "isPowerOfTwo c" | "c \<noteq> 10" "\<not> isPowerOfTwo c" by blast
  then show ?thesis
  proof cases
    case 1
    then show ?thesis using format10_text [OF assms(1)] by (simp add: format_digits_def)
  next
    case 2
    obtain k where k: "1 \<le> k" "k \<le> 5" "c = 2 ^ k" "TrailingZeros (js_shr c 0) = Inr (int k)"
      using power_base [OF assms(2,3) 2(2)] .
    have args: "js_shr (js_shr c 0 - 1) 0 = 2 ^ k - 1" using assms(2,3) by (simp add: js_shr_0 k(3) [symmetric])
    have "js_and (js_shr (int k) 0) 7 = int k" using k(1,2) js_and_low_bits [of 3 "int k"] by (simp add: js_shr_0)
    then have sh: "nat (js_shr (js_and (js_shr (int k) 0) 7) 0) = k" using k(2) by (simp add: js_shr_0)
    obtain b' ob' where l: "power_loop (uint64_of c) (2 ^ k - 1) k b (replicate 65 0, 65) = Some (Inr (b', ob'))" "u64 b'"
      "val64 b' < c" "pending c (val64 b) (val64 b') ob'"
      using power_loop_pending [OF start n(2) assms(1) k(1,2)] by (auto simp: k(3))
    from last_digit_text [OF l assms(2,3) n(2)] show ?thesis using 2 args sh k(4) by (simp add: format_digits_def)
  next
    case 3
    obtain b' ob' where l: "div_loop (uint64_of c) b (replicate 65 0, 65) = Some (Inr (b', ob'))" "u64 b'"
      "val64 b' < c" "pending c (val64 b) (val64 b') ob'"
      using div_loop_pending [OF start n(2) assms] by blast
    from last_digit_text [OF l assms(2,3) n(2)] show ?thesis using 3 by (simp add: format_digits_def)
  qed
qed

lemma formatBits_text:
  assumes "2 \<le> c" "c \<le> 36" "u64 a"
  shows "formatBits a c False = Some (Inr (text_of c (val64 a)))"
    and "formatBits a c True = Some (Inr (45 # text_of c ((- val64 a) mod 2 ^ 64)))"
proof -
  obtain h i where b: "format_digits a c (replicate 65 0, 65) = Some (Inr (h, i))" "written (h, i) (text_of c (val64 a))"
    using format_digits_text [OF assms(3,1,2)] by auto
  show "formatBits a c False = Some (Inr (text_of c (val64 a)))"
    unfolding formatBits_def Let_def using assms(1,2) b by (auto simp: written_def)
next
  let ?b = "new64 KUint64 (- high a) (- low a)"
  obtain ob where ob: "format_digits ?b c (replicate 65 0, 65) = Some (Inr ob)" "written ob (text_of c (val64 ?b))"
    using format_digits_text [OF u64_new assms(1,2)] by blast
  have v: "val64 ?b = (- val64 a) mod 2 ^ 64"
    by (simp add: val64_new64 wrap64_def take_bit_eq_mod) (simp add: val64_def)
  have "length (text_of c (val64 ?b)) < 65" using length_digs64 [OF assms(1), of "val64 ?b"] u64_range [OF u64_new, of "- high a" "- low a"] by simp
  from put_digit_written [OF ob(2) this, of 45] obtain h i where "put_digit 45 ob = Inr (h, i)" "written (h, i) (45 # text_of c (val64 ?b))"
    by auto
  then show "formatBits a c True = Some (Inr (45 # text_of c ((- val64 a) mod 2 ^ 64)))"
    unfolding formatBits_def Let_def using assms(1,2) ob(1) v by (auto simp: written_def)
qed

section \<open>What the formatting functions return\<close>

definition int_text :: "int \<Rightarrow> int \<Rightarrow> int list" where
  "int_text c v = (if v < 0 then 45 # text_of c (- v) else text_of c v)"

lemma table_lengths: "length digitsString = 36" "length smallsString = 200"
  by (simp_all add: digitsString_def smallsString_def)

lemma take_two: "Suc i < length xs \<Longrightarrow> take 2 (drop i xs) = [xs ! i, xs ! Suc i]"
  by (simp add: Cons_nth_drop_Suc [of i, symmetric] Cons_nth_drop_Suc [of "Suc i", symmetric] numeral_2_eq_2)

lemma take_one: "i < length xs \<Longrightarrow> take 1 (drop i xs) = [xs ! i]"
  by (simp add: Cons_nth_drop_Suc [symmetric])

lemma small_text:
  assumes "0 \<le> a" "a < 100"
  shows "small a = Inr (text_of 10 a)" "js_sar a 0 = a"
proof -
  show "small a = Inr (text_of 10 a)"
  proof (cases "a < 10")
    case True
    then have "js_sar (a + 1) 0 = a + 1" using assms by (simp add: js_sar_eq ToInt32_id)
    moreover have "take 1 (drop (nat a) digitsString) = [digit a]"
      using take_one [of "nat a" digitsString] digitsString_nth [of a] assms True by (simp add: table_lengths)
    ultimately show ?thesis using True assms by (simp add: small_def substring_def table_lengths digs_small)
  next
    case False
    then have i: "js_imul a 2 = 2 * a" "js_sar (2 * a + 2) 0 = 2 * a + 2"
      using assms by (simp_all add: js_imul_def js_sar_eq ToInt32_id)
    have n: "nat (2 * a + 1) = Suc (nat (2 * a))" using assms by simp
    have "take 2 (drop (nat (2 * a)) smallsString) = [digit (a div 10), digit (a mod 10)]"
      using take_two [of "nat (2 * a)" smallsString] smallsString_nth [OF assms] assms n by (simp add: table_lengths)
    moreover have "digs 10 a = [a div 10, a mod 10]" using False assms by (simp add: digs_step digs_small)
    ultimately show ?thesis using False assms i by (simp add: small_def substring_def table_lengths)
  qed
  show "js_sar a 0 = a" using assms by (simp add: js_sar_eq ToInt32_id)
qed

theorem FormatUint_text:
  assumes "u64 a" "2 \<le> c" "c \<le> 36"
  shows "FormatUint a c = Some (Inr (text_of c (val64 a)))"
proof (cases "(high a < 0 \<or> high a = 0 \<and> low a < 100) \<and> c = 10")
  case True
  moreover have "0 \<le> high a" "0 \<le> low a" using assms(1) by (auto simp: u64_def wf64_def)
  ultimately show ?thesis using small_text [of "low a"] by (auto simp: FormatUint_def val64_def)
next
  case False
  then show ?thesis using formatBits_text(1) [OF assms(2,3,1)] by (auto simp: FormatUint_def)
qed

text \<open>
  C35: \<open>FormatInt\<close> terminates for every 64-bit integer and every base from 2 to 36 and returns its digits, with a minus
  sign for a negative number, by whichever way it takes: the table for small numbers, nine decimal digits at a time and
  then pairs of them, shifts for a power of two, or division; the 65 bytes of the buffer are enough.
\<close>

theorem FormatInt_text:
  assumes "wf64 a" "ctor a = KInt64" "2 \<le> c" "c \<le> 36"
  shows "FormatInt a c = Some (Inr (int_text c (val64 a)))"
proof -
  have r: "- (2 ^ 63) \<le> val64 a" "val64 a < 2 ^ 63" using in_range64_val64 [OF assms(1)] assms(2) by (simp_all add: in_range64_def)
  have lo: "0 \<le> low a" "low a < 4294967296" using assms(1) by (simp_all add: wf64_def)
  have neg: "(high a < 0 \<or> high a = 0 \<and> low a < 0) \<longleftrightarrow> val64 a < 0" using lo by (auto simp: val64_def)
  show ?thesis
  proof (cases "(0 < high a \<or> 0 = high a \<and> 0 \<le> low a) \<and> (high a < 0 \<or> high a = 0 \<and> low a < 100) \<and> c = 10")
    case True
    then have h: "high a = 0" "low a < 100" "c = 10" by auto
    have "to_int32 a = low a" using h lo by (simp add: to_int32_def js_sar_eq ToInt32_id)
    then show ?thesis using h lo True small_text(1) [of "low a"] by (simp add: FormatInt_def val64_def int_text_def)
  next
    case False
    let ?u = "new64 KUint64 (high a) (low a)"
    have u: "val64 ?u = val64 a mod 2 ^ 64" by (simp add: val64_new64 wrap64_def take_bit_eq_mod) (simp add: val64_def)
    show ?thesis
    proof (cases "val64 a < 0")
      case True
      have "(- val64 ?u) mod 2 ^ 64 = (- val64 a) mod 2 ^ 64" by (simp add: u mod_minus_eq)
      also have "\<dots> = - val64 a" using True r by simp
      finally show ?thesis using False True neg formatBits_text(2) [OF assms(3,4) u64_new, of "high a" "low a"]
        by (auto simp: FormatInt_def int_text_def)
    next
      case nn: False
      then have "val64 ?u = val64 a" using u r by simp
      then show ?thesis using False nn neg formatBits_text(1) [OF assms(3,4) u64_new, of "high a" "low a"]
        by (auto simp: FormatInt_def int_text_def)
    qed
  qed
qed

theorem FormatInt_text_witness: "FormatInt (int64_of (- 12345678901)) 10 = Some (Inr (int_text 10 (val64 (int64_of (- 12345678901)))))"
  by (rule FormatInt_text) simp_all

lemma Itoa_text: "- (2 ^ 63) \<le> n \<Longrightarrow> n < 2 ^ 63 \<Longrightarrow> Itoa n = Some (Inr (int_text 10 n))"
  using FormatInt_text [of "int64_of n" 10] val64_int64_of [of n] by (simp add: Itoa_def int64_of_def)

end
