(* ===== verification/Utf8.thy ===== *)
theory Utf8
  imports Js_Bits Encoding_Binary
begin

text \<open>
  UTF-8: the runtime's \<open>$decodeRune\<close> and \<open>$encodeRune\<close> and \<open>DecodeRune\<close>, \<open>EncodeRune\<close> and their companions of
  package \<open>unicode/utf8\<close>.  A Go string is a JavaScript string of bytes, here the list of their codes;
  \<open>charCodeAt\<close> gives NaN outside the string, here no value.
\<close>

definition charCodeAt :: "int list \<Rightarrow> int \<Rightarrow> int option" where
  "charCodeAt s i = (if 0 \<le> i \<and> i < int (length s) then Some (s ! nat i) else None)"

section \<open>The runtime\<close>

definition decodeRune :: "int list \<Rightarrow> int \<Rightarrow> int \<times> int" where
  "decodeRune e n =
     (case charCodeAt e n of
        None \<Rightarrow> (65533, 1)
      | Some r \<Rightarrow>
     if r < 128 then (r, 1) else if r < 192 then (65533, 1) else
     (case charCodeAt e (n + 1) of
        None \<Rightarrow> (65533, 1)
      | Some t \<Rightarrow>
     if t < 128 \<or> 192 \<le> t then (65533, 1) else
     if r < 224 then (let a = js_or (js_shl (js_and 31 r) 6) (js_and 63 t) in if a \<le> 127 then (65533, 1) else (a, 2)) else
     (case charCodeAt e (n + 2) of
        None \<Rightarrow> (65533, 1)
      | Some i \<Rightarrow>
     if i < 128 \<or> 192 \<le> i then (65533, 1) else
     if r < 240 then
       (let a = js_or (js_or (js_shl (js_and 15 r) 12) (js_shl (js_and 63 t) 6)) (js_and 63 i)
        in if a \<le> 2047 then (65533, 1) else if 55296 \<le> a \<and> a \<le> 57343 then (65533, 1) else (a, 3)) else
     (case charCodeAt e (n + 3) of
        None \<Rightarrow> (65533, 1)
      | Some d \<Rightarrow>
     if d < 128 \<or> 192 \<le> d then (65533, 1) else
     if r < 248 then
       (let a = js_or (js_or (js_or (js_shl (js_and 7 r) 18) (js_shl (js_and 63 t) 12)) (js_shl (js_and 63 i) 6)) (js_and 63 d)
        in if a \<le> 65535 \<or> 1114111 < a then (65533, 1) else (a, 4))
     else (65533, 1)))))"

text \<open>\<open>String.fromCharCode\<close> keeps 16 bits of each code; all codes here are bytes.\<close>

definition encodeRune :: "int \<Rightarrow> int list" where
  "encodeRune e =
     (let e = (if e < 0 \<or> e > 1114111 \<or> 55296 \<le> e \<and> e \<le> 57343 then 65533 else e) in
      if e \<le> 127 then [e]
      else if e \<le> 2047 then [js_or 192 (js_sar e 6), js_or 128 (js_and 63 e)]
      else if e \<le> 65535 then [js_or 224 (js_sar e 12), js_or 128 (js_and (js_sar e 6) 63), js_or 128 (js_and 63 e)]
      else [js_or 240 (js_sar e 18), js_or 128 (js_and (js_sar e 12) 63), js_or 128 (js_and (js_sar e 6) 63),
            js_or 128 (js_and 63 e)])"

text \<open>\<open>$stringToRunes\<close>: its loop from position \<open>i\<close>; \<open>$runesToString\<close>.\<close>

lemma decodeRune_size: "1 \<le> snd (decodeRune e n)"
  by (auto simp: decodeRune_def Let_def split: option.splits)

function stringToRunes_from :: "int list \<Rightarrow> int \<Rightarrow> int list" where
  "stringToRunes_from e i =
     (if i < int (length e) then (let (r, n) = decodeRune e i in r # stringToRunes_from e (i + n)) else [])"
  by pat_completeness auto
termination
proof (relation "measure (\<lambda>(e, i). nat (int (length e) - i))", goal_cases)
  case (2 e i x r n)
  have "1 \<le> n" using 2(2,3) decodeRune_size [of e i] by (metis snd_conv)
  with 2 show ?case by simp
qed simp

declare stringToRunes_from.simps [simp del]

definition stringToRunes :: "int list \<Rightarrow> int list" where
  "stringToRunes e = stringToRunes_from e 0"

definition runesToString :: "int list \<Rightarrow> int list" where
  "runesToString rs = concat (map encodeRune rs)"

section \<open>The package\<close>

text \<open>The tables \<open>first\<close> (\<open>A\<close>) and \<open>acceptRanges\<close> (\<open>C\<close>).\<close>

definition first :: "int list" where
  "first = replicate 128 240 @ replicate 66 241 @ replicate 30 2 @ 19 # replicate 12 3 @ 35 # 3 # 3 # 52 # 4 # 4 # 4 # 68 #
     replicate 11 241"

definition acceptRanges :: "(int \<times> int) list" where
  "acceptRanges = [(128, 191), (160, 191), (128, 159), (144, 191), (128, 143)]"

definition DecodeRune :: "int list \<Rightarrow> (int \<times> int) res" where
  "DecodeRune a =
     (let d = int (length a) in
      if d < 1 then Inr (65533, 0) else
      res_bind (js_index a 0) (\<lambda>g.
      res_bind (js_index first g) (\<lambda>h.
      if h \<ge> 240 then
        (let i = js_sar (js_shl h 31) 31 in Inr (js_or (js_and g (- i - 1)) (js_and 65533 i), 1)) else
      let l = js_shr (js_and h 7) 0 in
      res_bind (js_index acceptRanges (to_u8 (js_shr h 4))) (\<lambda>(lo, hi).
      if d < l then Inr (65533, 1) else
      res_bind (js_index a 1) (\<lambda>q.
      if q < lo \<or> hi < q then Inr (65533, 1) else
      if l = 2 then Inr (js_or (js_shl (js_and g 31) 6) (js_and q 63), 2) else
      res_bind (js_index a 2) (\<lambda>v.
      if v < 128 \<or> 191 < v then Inr (65533, 1) else
      if l = 3 then Inr (js_or (js_or (js_shl (js_and g 15) 12) (js_shl (js_and q 63) 6)) (js_and v 63), 3) else
      res_bind (js_index a 3) (\<lambda>w.
      if w < 128 \<or> 191 < w then Inr (65533, 1) else
      Inr (js_or (js_or (js_or (js_shl (js_and g 7) 18) (js_shl (js_and q 63) 12)) (js_shl (js_and v 63) 6)) (js_and w 63), 4))))))))"

definition RuneLen :: "int \<Rightarrow> int" where
  "RuneLen a =
     (if a < 0 then -1 else if a \<le> 127 then 1 else if a \<le> 2047 then 2
      else if 55296 \<le> a \<and> a \<le> 57343 then -1 else if a \<le> 65535 then 3 else if a \<le> 1114111 then 4 else -1)"

definition RuneStart :: "int \<Rightarrow> bool" where
  "RuneStart a \<longleftrightarrow> js_shr (js_and a 192) 0 \<noteq> 128"

text \<open>\<open>EncodeRune\<close>: the slice written to and the number of bytes.\<close>

definition put3 :: "int list \<Rightarrow> int \<Rightarrow> (int list \<times> int) res" where
  "put3 a b = (if 2 \<ge> length a then out_of_range
     else Inr (a[0 := js_or 224 (to_u8 (js_sar b 12)), 1 := js_or 128 (js_and (to_u8 (js_sar b 6)) 63),
                 2 := js_or 128 (js_and (to_u8 b) 63)], 3))"

definition EncodeRune :: "int list \<Rightarrow> int \<Rightarrow> (int list \<times> int) res" where
  "EncodeRune a b =
     (let c = js_shr b 0 in
      if c \<le> 127 then (if 0 \<ge> length a then out_of_range else Inr (a[0 := to_u8 b], 1))
      else if c \<le> 2047 then
        (if 1 \<ge> length a then out_of_range
         else Inr (a[0 := js_or 192 (to_u8 (js_sar b 6)), 1 := js_or 128 (js_and (to_u8 b) 63)], 2))
      else if c > 1114111 \<or> 55296 \<le> c \<and> c \<le> 57343 then put3 a 65533
      else if c \<le> 65535 then put3 a b
      else if 3 \<ge> length a then out_of_range
      else Inr (a[0 := js_or 240 (to_u8 (js_sar b 18)), 1 := js_or 128 (js_and (to_u8 (js_sar b 12)) 63),
                  2 := js_or 128 (js_and (to_u8 (js_sar b 6)) 63), 3 := js_or 128 (js_and (to_u8 b) 63)], 4))"

section \<open>A reference decoder\<close>

definition cont :: "int \<Rightarrow> bool" where "cont t \<longleftrightarrow> 128 \<le> t \<and> t < 192"

fun dec :: "int list \<Rightarrow> int \<times> int" where
  "dec (r # t # u # v # s) =
     (if r < 128 then (r, 1) else if 194 \<le> r \<and> r < 224 \<and> cont t then ((r - 192) * 64 + (t - 128), 2)
      else if 224 \<le> r \<and> r < 240 \<and> cont t \<and> cont u \<and> (r = 224 \<longrightarrow> 160 \<le> t) \<and> (r = 237 \<longrightarrow> t < 160)
      then ((r - 224) * 4096 + (t - 128) * 64 + (u - 128), 3)
      else if 240 \<le> r \<and> r < 245 \<and> cont t \<and> cont u \<and> cont v \<and> (r = 240 \<longrightarrow> 144 \<le> t) \<and> (r = 244 \<longrightarrow> t < 144)
      then ((r - 240) * 262144 + (t - 128) * 4096 + (u - 128) * 64 + (v - 128), 4)
      else (65533, 1))"
| "dec [r, t, u] =
     (if r < 128 then (r, 1) else if 194 \<le> r \<and> r < 224 \<and> cont t then ((r - 192) * 64 + (t - 128), 2)
      else if 224 \<le> r \<and> r < 240 \<and> cont t \<and> cont u \<and> (r = 224 \<longrightarrow> 160 \<le> t) \<and> (r = 237 \<longrightarrow> t < 160)
      then ((r - 224) * 4096 + (t - 128) * 64 + (u - 128), 3)
      else (65533, 1))"
| "dec [r, t] =
     (if r < 128 then (r, 1) else if 194 \<le> r \<and> r < 224 \<and> cont t then ((r - 192) * 64 + (t - 128), 2) else (65533, 1))"
| "dec [r] = (if r < 128 then (r, 1) else (65533, 1))"
| "dec [] = (65533, 1)"

lemma glue2: "0 \<le> a \<Longrightarrow> a < 32 \<Longrightarrow> 0 \<le> b \<Longrightarrow> b < 64 \<Longrightarrow> js_or (js_shl a 6) b = a * 64 + b"
  using js_or_plus [of 6 "a * 64" b] js_shl_mult [of a 6] by simp

lemma glue3: "0 \<le> a \<Longrightarrow> a < 16 \<Longrightarrow> 0 \<le> b \<Longrightarrow> b < 64 \<Longrightarrow> 0 \<le> c \<Longrightarrow> c < 64 \<Longrightarrow>
    js_or (js_or (js_shl a 12) (js_shl b 6)) c = a * 4096 + b * 64 + c"
  using js_or_plus [of 12 "a * 4096" "b * 64"] js_shl_mult [of a 12] js_shl_mult [of b 6] js_or_plus [of 6 "a * 4096 + b * 64" c]
  by simp

lemma glue4: "0 \<le> a \<Longrightarrow> a < 8 \<Longrightarrow> 0 \<le> b \<Longrightarrow> b < 64 \<Longrightarrow> 0 \<le> c \<Longrightarrow> c < 64 \<Longrightarrow> 0 \<le> d \<Longrightarrow> d < 64 \<Longrightarrow>
    js_or (js_or (js_or (js_shl a 18) (js_shl b 12)) (js_shl c 6)) d = a * 262144 + b * 4096 + c * 64 + d"
  using js_or_plus [of 18 "a * 262144" "b * 4096"] js_shl_mult [of a 18] js_shl_mult [of b 12] js_shl_mult [of c 6]
    js_or_plus [of 12 "a * 262144 + b * 4096" "c * 64"] js_or_plus [of 6 "a * 262144 + b * 4096 + c * 64" d]
  by (simp add: dvd_add)

lemma lead_mod:
  "192 \<le> r \<Longrightarrow> r < 224 \<Longrightarrow> r mod 32 = r - (192::int)" "224 \<le> r \<Longrightarrow> r < 240 \<Longrightarrow> r mod 16 = r - (224::int)"
  "240 \<le> r \<Longrightarrow> r < 248 \<Longrightarrow> r mod 8 = r - (240::int)" "128 \<le> t \<Longrightarrow> t < 192 \<Longrightarrow> t mod 64 = t - (128::int)"
  by presburger+

text \<open>The values the two decoders compute, for bytes in the ranges they test.\<close>

lemma two_bytes: "192 \<le> r \<Longrightarrow> r < 224 \<Longrightarrow> 128 \<le> t \<Longrightarrow> t < 192 \<Longrightarrow>
    js_or (js_shl (js_and 31 r) 6) (js_and 63 t) = (r - 192) * 64 + (t - 128) \<and>
    js_or (js_shl (js_and r 31) 6) (js_and t 63) = (r - 192) * 64 + (t - 128)"
  by (simp add: js_and_masks lead_mod glue2)

lemma three_bytes: "224 \<le> r \<Longrightarrow> r < 240 \<Longrightarrow> 128 \<le> t \<Longrightarrow> t < 192 \<Longrightarrow> 128 \<le> u \<Longrightarrow> u < 192 \<Longrightarrow>
    js_or (js_or (js_shl (js_and 15 r) 12) (js_shl (js_and 63 t) 6)) (js_and 63 u) = (r - 224) * 4096 + (t - 128) * 64 + (u - 128) \<and>
    js_or (js_or (js_shl (js_and r 15) 12) (js_shl (js_and t 63) 6)) (js_and u 63) = (r - 224) * 4096 + (t - 128) * 64 + (u - 128)"
  by (simp add: js_and_masks lead_mod glue3)

lemma four_bytes: "240 \<le> r \<Longrightarrow> r < 248 \<Longrightarrow> 128 \<le> t \<Longrightarrow> t < 192 \<Longrightarrow> 128 \<le> u \<Longrightarrow> u < 192 \<Longrightarrow> 128 \<le> v \<Longrightarrow> v < 192 \<Longrightarrow>
    js_or (js_or (js_or (js_shl (js_and 7 r) 18) (js_shl (js_and 63 t) 12)) (js_shl (js_and 63 u) 6)) (js_and 63 v) =
      (r - 240) * 262144 + (t - 128) * 4096 + (u - 128) * 64 + (v - 128) \<and>
    js_or (js_or (js_or (js_shl (js_and r 7) 18) (js_shl (js_and t 63) 12)) (js_shl (js_and u 63) 6)) (js_and v 63) =
      (r - 240) * 262144 + (t - 128) * 4096 + (u - 128) * 64 + (v - 128)"
  by (simp add: js_and_masks lead_mod glue4)

lemma value_ranges2:
  "192 \<le> r \<Longrightarrow> 128 \<le> t \<Longrightarrow> t < 192 \<Longrightarrow> (r - 192) * 64 + (t - 128) \<le> 127 \<longleftrightarrow> r < (194::int)"
  by (cases "r < 194") simp_all

lemma value_ranges3:
  fixes r t u :: int
  assumes "128 \<le> t" "t < 192" "128 \<le> u" "u < 192" "224 \<le> r"
  shows "(r - 224) * 4096 + (t - 128) * 64 + (u - 128) \<le> 2047 \<longleftrightarrow> r = 224 \<and> t < 160"
    "55296 \<le> (r - 224) * 4096 + (t - 128) * 64 + (u - 128) \<and>
      (r - 224) * 4096 + (t - 128) * 64 + (u - 128) \<le> 57343 \<longleftrightarrow> r = 237 \<and> 160 \<le> t"
proof -
  have "r = 224 \<or> 225 \<le> r" "t < 160 \<or> 160 \<le> t" "r < 237 \<or> r = 237 \<or> 238 \<le> r" using assms by linarith+
  then show "(r - 224) * 4096 + (t - 128) * 64 + (u - 128) \<le> 2047 \<longleftrightarrow> r = 224 \<and> t < 160"
    "55296 \<le> (r - 224) * 4096 + (t - 128) * 64 + (u - 128) \<and>
      (r - 224) * 4096 + (t - 128) * 64 + (u - 128) \<le> 57343 \<longleftrightarrow> r = 237 \<and> 160 \<le> t"
    using assms by (elim disjE; simp)+
qed

lemma value_ranges4:
  fixes r t u v :: int
  assumes "128 \<le> t" "t < 192" "128 \<le> u" "u < 192" "128 \<le> v" "v < 192" "240 \<le> r"
  shows "(r - 240) * 262144 + (t - 128) * 4096 + (u - 128) * 64 + (v - 128) \<le> 65535 \<longleftrightarrow> r = 240 \<and> t < 144"
    "1114111 < (r - 240) * 262144 + (t - 128) * 4096 + (u - 128) * 64 + (v - 128) \<longleftrightarrow> 244 < r \<or> r = 244 \<and> 144 \<le> t"
proof -
  have "r = 240 \<or> 241 \<le> r" "t < 144 \<or> 144 \<le> t" "r < 244 \<or> r = 244 \<or> 245 \<le> r" using assms by linarith+
  then show "(r - 240) * 262144 + (t - 128) * 4096 + (u - 128) * 64 + (v - 128) \<le> 65535 \<longleftrightarrow> r = 240 \<and> t < 144"
    "1114111 < (r - 240) * 262144 + (t - 128) * 4096 + (u - 128) * 64 + (v - 128) \<longleftrightarrow> 244 < r \<or> r = 244 \<and> 144 \<le> t"
    using assms by (elim disjE; simp)+
qed

lemma decodeRune_dec: "decodeRune s 0 = dec s"
proof (cases s rule: dec.cases)
  case (1 r t u v s')
  have ch: "charCodeAt s 0 = Some r" "charCodeAt s (0 + 1) = Some t" "charCodeAt s (0 + 2) = Some u" "charCodeAt s (0 + 3) = Some v"
    by (simp_all add: 1 charCodeAt_def)
  note d = decodeRune_def [of s 0] ch option.case Let_def
  consider "r < 192 \<or> t < 128 \<or> 192 \<le> t" | "192 \<le> r" "r < 224" "128 \<le> t" "t < 192"
    | "224 \<le> r" "128 \<le> t" "t < 192" "u < 128 \<or> 192 \<le> u" | "224 \<le> r" "r < 240" "128 \<le> t" "t < 192" "128 \<le> u" "u < 192"
    | "240 \<le> r" "128 \<le> t" "t < 192" "128 \<le> u" "u < 192" "v < 128 \<or> 192 \<le> v \<or> 248 \<le> r"
    | "240 \<le> r" "r < 248" "128 \<le> t" "t < 192" "128 \<le> u" "u < 192" "128 \<le> v" "v < 192" by linarith
  then show ?thesis
  proof cases
    case x: 1
    then have "decodeRune s 0 = (if r < 128 then (r, 1) else (65533, 1))" unfolding d by auto
    then show ?thesis using x by (auto simp: 1 cont_def)
  next
    case 2
    then show ?thesis using two_bytes [of r t] value_ranges2 [of r t] unfolding d by (simp add: 1 cont_def)
  next
    case x: 3
    then have "decodeRune s 0 = (65533, 1)" unfolding d by auto
    then show ?thesis using x by (auto simp: 1 cont_def)
  next
    case 4
    then show ?thesis using three_bytes [of r t u] value_ranges3 [of t u r] unfolding d by (simp add: 1 cont_def) auto
  next
    case x: 5
    then have "decodeRune s 0 = (65533, 1)" unfolding d by auto
    then show ?thesis using x by (auto simp: 1 cont_def)
  next
    case 6
    then show ?thesis using four_bytes [of r t u v] value_ranges4 [of t u v r] unfolding d by (simp add: 1 cont_def) auto
  qed
next
  case (2 r t u)
  consider "r < 192 \<or> t < 128 \<or> 192 \<le> t" | "192 \<le> r" "r < 224" "128 \<le> t" "t < 192"
    | "224 \<le> r" "128 \<le> t" "t < 192" "u < 128 \<or> 192 \<le> u \<or> 240 \<le> r" | "224 \<le> r" "r < 240" "128 \<le> t" "t < 192" "128 \<le> u" "u < 192"
    by linarith
  then show ?thesis
  proof cases
    case 22: 2
    then show ?thesis using 2 two_bytes [of r t] value_ranges2 [of r t] by (simp add: decodeRune_def charCodeAt_def Let_def cont_def)
  next
    case 4
    then show ?thesis using 2 three_bytes [of r t u] value_ranges3 [of t u r]
      by (simp add: decodeRune_def charCodeAt_def Let_def cont_def)
  qed (use 2 in \<open>auto simp: decodeRune_def charCodeAt_def Let_def cont_def\<close>)
next
  case (3 r t)
  show ?thesis
  proof (cases "192 \<le> r \<and> r < 224 \<and> 128 \<le> t \<and> t < 192")
    case True
    then show ?thesis using 3 two_bytes [of r t] value_ranges2 [of r t] by (simp add: decodeRune_def charCodeAt_def Let_def cont_def)
  qed (use 3 in \<open>auto simp: decodeRune_def charCodeAt_def Let_def cont_def\<close>)
qed (auto simp: decodeRune_def charCodeAt_def)

lemma decodeRune_drop: "0 \<le> n \<Longrightarrow> decodeRune e n = dec (drop (nat n) e)"
proof -
  assume n: "0 \<le> n"
  have c: "charCodeAt e (n + k) = charCodeAt (drop (nat n) e) (0 + k)" if "0 \<le> k" for k
    using n that by (auto simp: charCodeAt_def nat_add_distrib add.commute)
  have "charCodeAt e n = charCodeAt (drop (nat n) e) 0" using c [of 0] by simp
  note c' = this c [of 1, simplified zero_le_one] c [of 2, OF zero_le_numeral] c [of 3, OF zero_le_numeral]
  have "decodeRune e n = decodeRune (drop (nat n) e) 0"
    unfolding decodeRune_def c'(1) c [OF zero_le_one] c'(3,4) by (rule refl)
  then show ?thesis by (simp add: decodeRune_dec)
qed

text \<open>The package's decoder.\<close>

lemma nth_replicate_append: "(replicate k x @ ys) ! i = (if i < k then x else ys ! (i - k))"
  by (simp add: nth_append)

lemma first_values:
  assumes "0 \<le> r" "r < 256"
  shows "first ! nat r = (if r < 128 then 240 else if r < 194 then 241 else if r < 224 then 2 else if r = 224 then 19
    else if r < 237 then 3 else if r = 237 then 35 else if r < 240 then 3 else if r = 240 then 52 else if r < 244 then 4
    else if r = 244 then 68 else 241)"
proof -
  have "\<forall>r \<in> set [0..255]. first ! nat r = (if r < 128 then 240 else if r < 194 then 241 else if r < 224 then 2 else if r = 224 then 19
    else if r < 237 then 3 else if r = 237 then 35 else if r < 240 then 3 else if r = 240 then 52 else if r < 244 then 4
    else if r = 244 then 68 else 241)" by code_simp
  with assms show ?thesis by simp
qed

lemma accept_lookup:
  "to_u8 (js_shr 2 4) = 0" "to_u8 (js_shr 19 4) = 1" "to_u8 (js_shr 3 4) = 0" "to_u8 (js_shr 35 4) = 2"
  "to_u8 (js_shr 52 4) = 3" "to_u8 (js_shr 4 4) = 0" "to_u8 (js_shr 68 4) = 4"
  "js_shr (js_and 2 7) 0 = 2" "js_shr (js_and 19 7) 0 = 3" "js_shr (js_and 3 7) 0 = 3" "js_shr (js_and 35 7) 0 = 3"
  "js_shr (js_and 52 7) 0 = 4" "js_shr (js_and 4 7) 0 = 4" "js_shr (js_and 68 7) 0 = 4"
  by (simp_all add: to_u8_mod js_shr_eq js_and_masks)

lemma acceptRanges_index:
  "js_index acceptRanges 0 = Inr (128, 191)" "js_index acceptRanges 1 = Inr (160, 191)" "js_index acceptRanges 2 = Inr (128, 159)"
  "js_index acceptRanges 3 = Inr (144, 191)" "js_index acceptRanges 4 = Inr (128, 143)"
  by (simp_all add: acceptRanges_def js_index_def)

lemma ascii_mask:
  assumes "0 \<le> g" "g < 256"
  shows "js_sar (js_shl 240 31) 31 = 0" "js_or (js_and g (-1)) (js_and 65533 0) = g"
    "js_sar (js_shl 241 31) 31 = -1" "js_or (js_and g 0) (js_and 65533 (-1)) = 65533"
proof -
  have g: "ToInt32 g = g" "ToInt32 (-1) = -1" "ToInt32 0 = 0" "ToInt32 65533 = 65533" using assms by (simp_all add: ToInt32_id)
  show "js_or (js_and g (-1)) (js_and 65533 0) = g" "js_or (js_and g 0) (js_and 65533 (-1)) = 65533"
    using g by (simp_all add: js_or_def js_and_def)
  show "js_sar (js_shl 240 31) 31 = 0" "js_sar (js_shl 241 31) 31 = -1" by code_simp+
qed

text \<open>The part of \<open>DecodeRune\<close> after the lookup of a lead byte \<open>g\<close>.\<close>

definition decode_tail :: "int list \<Rightarrow> int \<Rightarrow> int \<Rightarrow> int \<Rightarrow> int \<Rightarrow> (int \<times> int) res" where
  "decode_tail a g l lo hi =
     (if int (length a) < l then Inr (65533, 1) else
      res_bind (js_index a 1) (\<lambda>q.
      if q < lo \<or> hi < q then Inr (65533, 1) else
      if l = 2 then Inr (js_or (js_shl (js_and g 31) 6) (js_and q 63), 2) else
      res_bind (js_index a 2) (\<lambda>v.
      if v < 128 \<or> 191 < v then Inr (65533, 1) else
      if l = 3 then Inr (js_or (js_or (js_shl (js_and g 15) 12) (js_shl (js_and q 63) 6)) (js_and v 63), 3) else
      res_bind (js_index a 3) (\<lambda>w.
      if w < 128 \<or> 191 < w then Inr (65533, 1) else
      Inr (js_or (js_or (js_or (js_shl (js_and g 7) 18) (js_shl (js_and q 63) 12)) (js_shl (js_and v 63) 6)) (js_and w 63), 4)))))"

lemma DecodeRune_tail:
  assumes "a = r # s" "js_index first r = Inr h" "h < 240" "js_shr (js_and h 7) 0 = l" "to_u8 (js_shr h 4) = k"
    and "js_index acceptRanges k = Inr (lo, hi)"
  shows "DecodeRune a = decode_tail a r l lo hi"
proof -
  have "js_index a 0 = Inr r" by (simp add: assms(1) js_index_def)
  then show ?thesis unfolding DecodeRune_def decode_tail_def using assms by (simp only: Let_def res_bind_simps) simp
qed

lemma decode_tail_dec:
  assumes "a = r # s" "194 \<le> r" "r < 245" "l = (if r < 224 then 2 else if r < 240 then 3 else 4)"
    and "lo = (if r = 224 then 160 else if r = 240 then 144 else 128)" "hi = (if r = 237 then 159 else if r = 244 then 143 else 191)"
  shows "decode_tail a r l lo hi = Inr (dec a)"
proof -
  consider "r < 224" | "224 \<le> r" "r < 240" | "240 \<le> r" by linarith
  then show ?thesis
  proof cases
    case 1
    then have "l = 2" "lo = 128" "hi = 191" using assms by simp_all
    then show ?thesis using 1 assms(1,2) two_bytes
      by (cases a rule: dec.cases) (auto simp: decode_tail_def js_index_def cont_def)
  next
    case 2
    then have "l = 3" using assms(4) by simp
    then show ?thesis using 2 assms(1,5,6) three_bytes
      by (cases a rule: dec.cases) (auto simp: decode_tail_def js_index_def cont_def)
  next
    case 3
    then have "l = 4" using assms(4) by simp
    then show ?thesis using 3 assms(1,3,5,6) four_bytes
      by (cases a rule: dec.cases) (auto simp: decode_tail_def js_index_def cont_def)
  qed
qed

lemma DecodeRune_dec:
  assumes "bytes a" "a \<noteq> []"
  shows "DecodeRune a = Inr (dec a)"
proof -
  obtain r s where a: "a = r # s" using assms(2) by (cases a) auto
  have r: "0 \<le> r" "r < 256" using assms(1) by (simp_all add: a bytes_def)
  have l: "js_index a 0 = Inr r" by (simp add: a js_index_def)
  have f: "js_index first r = Inr (if r < 128 then 240 else if r < 194 then 241 else if r < 224 then 2 else if r = 224 then 19
    else if r < 237 then 3 else if r = 237 then 35 else if r < 240 then 3 else if r = 240 then 52 else if r < 244 then 4
    else if r = 244 then 68 else 241)"
    using first_values [OF r] r by (simp add: js_index_def) (simp add: first_def)
  show ?thesis
  proof (cases "r < 194 \<or> 245 \<le> r")
    case True
    then have "DecodeRune a = Inr (if r < 128 then r else 65533, 1)"
      using l f ascii_mask [OF r] by (auto simp: DecodeRune_def a Let_def)
    then show ?thesis using True by (cases a rule: dec.cases) (auto simp: a)
  next
    case False
    then have b: "194 \<le> r" "r < 245" by simp_all
    let ?l = "if r < 224 then 2 else if r < 240 then 3 else 4"
    let ?lo = "if r = 224 then 160 else if r = 240 then 144 else 128" and ?hi = "if r = 237 then 159 else if r = 244 then 143 else 191"
    have "DecodeRune a = decode_tail a r ?l ?lo ?hi"
    proof -
      consider "r < 224" | "r = 224" | "224 < r" "r < 237" | "r = 237" | "237 < r" "r < 240" | "r = 240" | "240 < r" "r < 244" | "r = 244"
        using b by linarith
      then show ?thesis
      proof cases
        case 1
        then show ?thesis using f b
          by (intro DecodeRune_tail [OF a, where h = 2 and k = 0]) (simp_all add: accept_lookup acceptRanges_index)
      next
        case 2
        then show ?thesis using f b
          by (intro DecodeRune_tail [OF a, where h = 19 and k = 1]) (simp_all add: accept_lookup acceptRanges_index)
      next
        case 3
        then show ?thesis using f b
          by (intro DecodeRune_tail [OF a, where h = 3 and k = 0]) (simp_all add: accept_lookup acceptRanges_index)
      next
        case 4
        then show ?thesis using f b
          by (intro DecodeRune_tail [OF a, where h = 35 and k = 2]) (simp_all add: accept_lookup acceptRanges_index)
      next
        case 5
        then show ?thesis using f b
          by (intro DecodeRune_tail [OF a, where h = 3 and k = 0]) (simp_all add: accept_lookup acceptRanges_index)
      next
        case 6
        then show ?thesis using f b
          by (intro DecodeRune_tail [OF a, where h = 52 and k = 3]) (simp_all add: accept_lookup acceptRanges_index)
      next
        case 7
        then show ?thesis using f b
          by (intro DecodeRune_tail [OF a, where h = 4 and k = 0]) (simp_all add: accept_lookup acceptRanges_index)
      next
        case 8
        then show ?thesis using f b
          by (intro DecodeRune_tail [OF a, where h = 68 and k = 4]) (simp_all add: accept_lookup acceptRanges_index)
      qed
    qed
    then show ?thesis using decode_tail_dec [OF a b refl refl refl] by simp
  qed
qed

section \<open>Encoding\<close>

definition valid_rune :: "int \<Rightarrow> bool" where
  "valid_rune r \<longleftrightarrow> 0 \<le> r \<and> r \<le> 1114111 \<and> \<not> (55296 \<le> r \<and> r \<le> 57343)"

definition enc :: "int \<Rightarrow> int list" where
  "enc r = (if r \<le> 127 then [r]
     else if r \<le> 2047 then [192 + r div 64, 128 + r mod 64]
     else if r \<le> 65535 then [224 + r div 4096, 128 + r div 64 mod 64, 128 + r mod 64]
     else [240 + r div 262144, 128 + r div 4096 mod 64, 128 + r div 64 mod 64, 128 + r mod 64])"

lemma lead_or: "0 \<le> y \<Longrightarrow> y < 64 \<Longrightarrow> js_or 128 y = 128 + y" "0 \<le> y \<Longrightarrow> y < 32 \<Longrightarrow> js_or 192 y = 192 + y"
  "0 \<le> y \<Longrightarrow> y < 16 \<Longrightarrow> js_or 224 y = 224 + y" "0 \<le> y \<Longrightarrow> y < 16 \<Longrightarrow> js_or 240 y = 240 + y"
  using js_or_plus [of 6 128 y] js_or_plus [of 6 192 y] js_or_plus [of 5 224 y] js_or_plus [of 4 240 y] by simp_all

lemma small_sar:
  assumes "0 \<le> r" "r \<le> 1114111"
  shows "js_sar r 6 = r div 64" "js_sar r 12 = r div 4096" "js_sar r 18 = r div 262144" "js_and 63 r = r mod 64"
    "js_and (r div 64) 63 = r div 64 mod 64" "js_and (r div 4096) 63 = r div 4096 mod 64"
    "r \<le> 2047 \<Longrightarrow> r div 64 < 32" "r \<le> 65535 \<Longrightarrow> r div 4096 < 16" "r div 262144 < 16"
proof -
  have "0 \<le> r div 64" "r div 64 < 2 ^ 31" "0 \<le> r div 4096" "r div 4096 < 2 ^ 31" using assms by simp_all
  then show "js_sar r 6 = r div 64" "js_sar r 12 = r div 4096" "js_sar r 18 = r div 262144" "js_and 63 r = r mod 64"
    "js_and (r div 64) 63 = r div 64 mod 64" "js_and (r div 4096) 63 = r div 4096 mod 64"
    using assms by (simp_all add: js_sar_div js_and_masks)
qed (use assms in simp_all)

lemma encodeRune_enc: "valid_rune r \<Longrightarrow> encodeRune r = enc r"
  by (auto simp: valid_rune_def encodeRune_def enc_def Let_def small_sar lead_or)

lemma dec_enc:
  assumes "valid_rune r"
  shows "dec (enc r @ s) = (r, int (length (enc r)))" "bytes (enc r)" "int (length (enc r)) = RuneLen r"
proof -
  have r: "0 \<le> r" "r \<le> 1114111" "55296 \<le> r \<Longrightarrow> 57343 < r" using assms by (auto simp: valid_rune_def)
  have q: "r div 4096 = r div 64 div 64" "r div 262144 = r div 4096 div 64"
    using zdiv_zmult2_eq [of 64 r 64] zdiv_zmult2_eq [of 64 r 4096] by simp_all
  have d: "r div 64 * 64 + r mod 64 = r" "r div 4096 * 64 + r div 64 mod 64 = r div 64"
    "r div 262144 * 64 + r div 4096 mod 64 = r div 4096" unfolding q by (rule div_mult_mod_eq)+
  have n: "0 \<le> r mod 64" "r mod 64 < 64" "0 \<le> r div 64 mod 64" "r div 64 mod 64 < 64" "0 \<le> r div 4096 mod 64" "r div 4096 mod 64 < 64"
    by simp_all
  have m: "cont (128 + x mod 64)" for x by (simp add: cont_def)
  have lt128: "x mod 64 < 128" "0 \<le> x mod 64" for x :: int using pos_mod_bound [of 64 x] by simp_all
  consider "r \<le> 127" | "128 \<le> r" "r \<le> 2047" | "2048 \<le> r" "r \<le> 65535" | "65536 \<le> r" by linarith
  then have "dec (enc r @ s) = (r, int (length (enc r))) \<and> bytes (enc r) \<and> int (length (enc r)) = RuneLen r"
  proof cases
    case 1
    then show ?thesis using r by (cases "r # s" rule: dec.cases) (auto simp: enc_def bytes_def RuneLen_def)
  next
    case 2
    have e: "enc r = [192 + r div 64, 128 + r mod 64]" using 2 by (simp add: enc_def)
    have b: "2 \<le> r div 64" "r div 64 < 32" using 2 by simp_all
    have "dec (enc r @ s) = (r div 64 * 64 + r mod 64, 2)"
      using b m [of r] by (cases "enc r @ s" rule: dec.cases) (auto simp: e)
    then show ?thesis using d(1) b 2 by (simp add: e bytes_def RuneLen_def)
  next
    case 3
    have e: "enc r = [224 + r div 4096, 128 + r div 64 mod 64, 128 + r mod 64]" using 3 by (simp add: enc_def)
    have b: "0 \<le> r div 4096" "r div 4096 < 16" using 3 by simp_all
    have lo: "r div 4096 = 0 \<Longrightarrow> 32 \<le> r div 64 mod 64" "r div 4096 = 13 \<Longrightarrow> r div 64 mod 64 < 32" using 3 r(3) d n by linarith+
    have "dec (enc r @ s) = (r div 4096 * 4096 + r div 64 mod 64 * 64 + r mod 64, 3)"
      using b m [of r] m [of "r div 64"] lo by (cases "enc r @ s" rule: dec.cases) (auto simp: e)
    moreover have "r div 4096 * 4096 + r div 64 mod 64 * 64 + r mod 64 = r" using d by linarith
    ultimately show ?thesis using b 3 r(3) by (auto simp: e bytes_def RuneLen_def)
  next
    case 4
    have e: "enc r = [240 + r div 262144, 128 + r div 4096 mod 64, 128 + r div 64 mod 64, 128 + r mod 64]" using 4 by (simp add: enc_def)
    have b: "0 \<le> r div 262144" "r div 262144 < 5" using 4 r(2) by simp_all
    have lo: "r div 262144 = 0 \<Longrightarrow> 16 \<le> r div 4096 mod 64" "r div 262144 = 4 \<Longrightarrow> r div 4096 mod 64 < 16" using 4 r(2) d n by linarith+
    define w x y z where k: "w = r div 262144" "x = r div 4096 mod 64" "y = r div 64 mod 64" "z = r mod 64"
    have c: "cont (128 + x)" "cont (128 + y)" "cont (128 + z)" unfolding k using m by blast+
    have "dec (enc r @ s) = (w * 262144 + x * 4096 + y * 64 + z, 4)"
      using b c lo unfolding e k [symmetric] by simp
    then have "dec (enc r @ s) = (r div 262144 * 262144 + r div 4096 mod 64 * 4096 + r div 64 mod 64 * 64 + r mod 64, 4)"
      unfolding k .
    moreover have "r div 262144 * 262144 + r div 4096 mod 64 * 4096 + r div 64 mod 64 * 64 + r mod 64 = r" using d by linarith
    ultimately have "dec (enc r @ s) = (r, 4)" by simp
    moreover have "bytes (enc r)" using b lt128 by (simp add: e bytes_def)
    moreover have "RuneLen r = 4" using 4 r(2) by (simp add: RuneLen_def)
    ultimately show ?thesis by (simp add: e)
  qed
  then show "dec (enc r @ s) = (r, int (length (enc r)))" "bytes (enc r)" "int (length (enc r)) = RuneLen r" by simp_all
qed

lemma encodeRune_any: "\<exists>r'. valid_rune r' \<and> encodeRune r = enc r' \<and> (valid_rune r \<longrightarrow> r' = r)"
proof (cases "valid_rune r")
  case False
  then have "encodeRune r = encodeRune 65533" unfolding valid_rune_def encodeRune_def Let_def by (auto cong: if_cong)
  moreover have "valid_rune 65533" by (simp add: valid_rune_def)
  ultimately show ?thesis using encodeRune_enc [of 65533] False by metis
qed (use encodeRune_enc in blast)

section \<open>Whole strings\<close>

lemma stringToRunes_unfold: "0 \<le> i \<Longrightarrow> stringToRunes_from s i =
    (if i < int (length s) then fst (dec (drop (nat i) s)) # stringToRunes_from s (i + snd (dec (drop (nat i) s))) else [])"
  by (subst stringToRunes_from.simps) (simp add: decodeRune_drop split_beta)

lemma runes_of_encoded:
  "(\<forall>r \<in> set rs. valid_rune r) \<Longrightarrow> stringToRunes_from (p @ concat (map encodeRune rs)) (int (length p)) = rs"
proof (induction rs arbitrary: p)
  case Nil
  then show ?case by (simp add: stringToRunes_unfold)
next
  case (Cons r rs)
  then have v: "valid_rune r" by simp
  have "dec (enc r @ concat (map encodeRune rs)) = (r, int (length (enc r)))" using dec_enc(1) [OF v] .
  moreover have "stringToRunes_from (p @ enc r @ concat (map encodeRune rs)) (int (length p) + int (length (enc r))) = rs"
    using Cons.IH [of "p @ enc r"] Cons.prems by simp
  moreover have "0 < int (length (enc r))" by (simp add: enc_def)
  then have "0 < int (length (enc r)) + int (length (concat (map encodeRune rs)))" by linarith
  ultimately show ?case by (subst stringToRunes_unfold) (simp_all add: encodeRune_enc [OF v])
qed

lemma three_valid: "224 \<le> r \<Longrightarrow> r < 240 \<Longrightarrow> cont t \<Longrightarrow> cont u \<Longrightarrow> r = 224 \<longrightarrow> 160 \<le> t \<Longrightarrow> r = 237 \<longrightarrow> t < 160 \<Longrightarrow>
    valid_rune ((r - 224) * 4096 + (t - 128) * 64 + (u - 128))"
  using value_ranges3 [of t u r] unfolding cont_def valid_rune_def by auto

lemma four_valid: "240 \<le> r \<Longrightarrow> r < 245 \<Longrightarrow> cont t \<Longrightarrow> cont u \<Longrightarrow> cont v \<Longrightarrow> r = 240 \<longrightarrow> 144 \<le> t \<Longrightarrow> r = 244 \<longrightarrow> t < 144 \<Longrightarrow>
    valid_rune ((r - 240) * 262144 + (t - 128) * 4096 + (u - 128) * 64 + (v - 128))"
  using value_ranges4 [of t u v r] unfolding cont_def valid_rune_def by auto

lemma small_valid: "0 \<le> r \<Longrightarrow> r < 128 \<Longrightarrow> valid_rune r" "valid_rune 65533"
    "194 \<le> r \<Longrightarrow> r < 224 \<Longrightarrow> cont t \<Longrightarrow> valid_rune ((r - 192) * 64 + (t - 128))"
  by (auto simp: valid_rune_def cont_def)

lemma dec_valid:
  assumes "bytes s" "s \<noteq> []"
  shows "valid_rune (fst (dec s))" "snd (dec s) \<le> int (length s)"
proof -
  show "valid_rune (fst (dec s))" using assms
    by (cases s rule: dec.cases) (simp_all add: bytes_def small_valid small_valid(3) [simplified] three_valid [simplified] four_valid [simplified])
  show "snd (dec s) \<le> int (length s)" using assms by (cases s rule: dec.cases) auto
qed

lemma bytes_drop: "bytes s \<Longrightarrow> bytes (drop n s)"
  by (auto simp: bytes_def dest: in_set_dropD)

lemma runes_from_valid:
  "bytes s \<Longrightarrow> 0 \<le> i \<Longrightarrow> i \<le> int (length s) \<Longrightarrow>
     (\<forall>r \<in> set (stringToRunes_from s i). valid_rune r) \<and> int (length (stringToRunes_from s i)) \<le> int (length s) - i"
proof (induction s i rule: stringToRunes_from.induct)
  case (1 s i)
  show ?case
  proof (cases "i < int (length s)")
    case True
    obtain r n where d: "dec (drop (nat i) s) = (r, n)" by fastforce
    have v: "valid_rune r" "n \<le> int (length s) - i"
      using dec_valid [OF bytes_drop [OF 1(2), of "nat i"]] True 1(3) d by auto
    have n: "1 \<le> n" using decodeRune_size [of s i] 1(3) d by (simp add: decodeRune_drop)
    then have "(\<forall>r \<in> set (stringToRunes_from s (i + n)). valid_rune r) \<and>
        int (length (stringToRunes_from s (i + n))) \<le> int (length s) - (i + n)"
      using 1(1) [OF True, of "(r, n)" r n] 1(2,3) v(2) d by (simp add: decodeRune_drop)
    moreover have "stringToRunes_from s i = r # stringToRunes_from s (i + n)"
      using True 1(3) d by (subst stringToRunes_unfold) simp_all
    ultimately show ?thesis using v(1) n by auto
  qed (use 1(3,4) in \<open>simp add: stringToRunes_unfold\<close>)
qed

lemma bytes_concat: "(\<And>x. x \<in> set xs \<Longrightarrow> bytes (f x)) \<Longrightarrow> bytes (concat (map f xs))"
  by (fastforce simp: bytes_def)

section \<open>The correctness of the codec\<close>

text \<open>C32: the runtime's decoder and the package's decoder agree at every position of every byte string, valid
  or not: same rune, same width, and the package's never indexes out of range.\<close>

theorem decoders_agree:
  assumes "bytes s" "0 \<le> i" "i < int (length s)"
  shows "DecodeRune (drop (nat i) s) = Inr (decodeRune s i)"
  using DecodeRune_dec [OF bytes_drop [OF assms(1), of "nat i"]] assms(2,3) by (simp add: decodeRune_drop)

theorem decoders_agree_witness: "DecodeRune (drop (nat 1) [65, 240, 159, 152, 128]) = Inr (decodeRune [65, 240, 159, 152, 128] 1)"
  by (rule decoders_agree) (simp_all add: bytes_def)

text \<open>converting valid runes to a string and back gives the runes; the string is the concatenation of the bytes
  of each rune.\<close>

theorem runes_roundtrip:
  assumes "\<forall>r \<in> set rs. valid_rune r"
  shows "stringToRunes (runesToString rs) = rs"
  using runes_of_encoded [OF assms, of "[]"] by (simp add: stringToRunes_def runesToString_def)

theorem runes_roundtrip_witness: "stringToRunes (runesToString [72, 233, 8364, 128512]) = [72, 233, 8364, 128512]"
  by (rule runes_roundtrip) (simp add: valid_rune_def)

text \<open>C39: the conversions are well typed: any string of bytes becomes valid runes, at most one per byte (malformed
  input included), and any list of integers becomes a string of bytes.\<close>

theorem conversions_typed:
  "(bytes s \<longrightarrow> (\<forall>r \<in> set (stringToRunes s). valid_rune r) \<and> length (stringToRunes s) \<le> length s) \<and> bytes (runesToString rs)"
proof -
  have "bytes (encodeRune r)" for r using encodeRune_any [of r] dec_enc(2) by metis
  then show ?thesis using runes_from_valid [of s 0] bytes_concat [of rs encodeRune]
    by (auto simp: stringToRunes_def runesToString_def)
qed

theorem conversions_typed_witness:
  "list_all valid_rune (stringToRunes [237, 160, 128, 65]) \<and> length (stringToRunes [237, 160, 128, 65]) \<le> 4 \<and>
     bytes (runesToString [-1, 55296, 1114112])"
  using conversions_typed [of "[237, 160, 128, 65]" "[-1, 55296, 1114112]"] by (simp add: bytes_def list_all_iff)

end
