(* ===== verification/Utf8_Count.thy ===== *)
theory Utf8_Count
  imports Utf8
begin

text \<open>
  The functions of \<open>unicode/utf8\<close> that walk over a string: \<open>RuneCount\<close>, \<open>RuneCountInString\<close>, \<open>ValidString\<close>, \<open>DecodeLastRune\<close>.
  A string is the list of its bytes, so that the variants for slices and strings have the same list argument; \<open>charCodeAt\<close>
  is used only at places that exist.
\<close>

section \<open>Counting\<close>

text \<open>The body of the loop: how far it moves on from the byte at \<open>d\<close>.\<close>

definition rune_step :: "int list \<Rightarrow> int \<Rightarrow> int res" where
  "rune_step a d =
     res_bind (js_index a d) (\<lambda>e.
     if e < 128 then Inr 1 else
     res_bind (js_index first e) (\<lambda>f.
     if f = 241 then Inr 1 else
     let g = js_sar (js_shr (js_and f 7) 0) 0 in
     if js_sar (d + g) 0 > int (length a) then Inr 1 else
     res_bind (js_index acceptRanges (to_u8 (js_shr f 4))) (\<lambda>(lo, hi).
     res_bind (js_index a (js_sar (d + 1) 0)) (\<lambda>k.
     if k < lo \<or> hi < k then Inr 1 else if g = 2 then Inr g else
     res_bind (js_index a (js_sar (d + 2) 0)) (\<lambda>m.
     if m < 128 \<or> 191 < m then Inr 1 else if g = 3 then Inr g else
     res_bind (js_index a (js_sar (d + 3) 0)) (\<lambda>x.
     if x < 128 \<or> 191 < x then Inr 1 else Inr g))))))"

partial_function (option) count_from :: "int list \<Rightarrow> int \<Rightarrow> int \<Rightarrow> int res option" where
  "count_from a d c =
     (if \<not> d < int (length a) then Some (Inr c)
      else bind2 (Some (rune_step a d)) (\<lambda>g. count_from a (js_sar (d + g) 0) (js_sar (c + 1) 0)))"

definition RuneCount :: "int list \<Rightarrow> int res option" where
  "RuneCount a = count_from a 0 0"

definition RuneCountInString :: "int list \<Rightarrow> int res option" where
  "RuneCountInString a = count_from a 0 0"

section \<open>Validity\<close>

text \<open>The body of the loop of \<open>ValidString\<close>: \<open>None\<close> when it returns false.\<close>

definition valid_step :: "int list \<Rightarrow> int \<Rightarrow> int option res" where
  "valid_step a c =
     res_bind (js_index a c) (\<lambda>d.
     if d < 128 then Inr (Some 1) else
     res_bind (js_index first d) (\<lambda>e.
     if e = 241 then Inr None else
     let f = js_sar (js_shr (js_and e 7) 0) 0 in
     if js_sar (c + f) 0 > int (length a) then Inr None else
     res_bind (js_index acceptRanges (to_u8 (js_shr e 4))) (\<lambda>(lo, hi).
     res_bind (js_index a (js_sar (c + 1) 0)) (\<lambda>i.
     if i < lo \<or> hi < i then Inr None else if f = 2 then Inr (Some f) else
     res_bind (js_index a (js_sar (c + 2) 0)) (\<lambda>j.
     if j < 128 \<or> 191 < j then Inr None else if f = 3 then Inr (Some f) else
     res_bind (js_index a (js_sar (c + 3) 0)) (\<lambda>k.
     if k < 128 \<or> 191 < k then Inr None else Inr (Some f)))))))"

partial_function (option) valid_from :: "int list \<Rightarrow> int \<Rightarrow> bool res option" where
  "valid_from a c =
     (if \<not> c < int (length a) then Some (Inr True)
      else bind2 (Some (valid_step a c)) (\<lambda>f. case f of None \<Rightarrow> Some (Inr False) | Some g \<Rightarrow> valid_from a (js_sar (c + g) 0)))"

definition ValidString :: "int list \<Rightarrow> bool res option" where
  "ValidString a = valid_from a 0"

definition ValidRune :: "int \<Rightarrow> bool" where
  "ValidRune a = (if 0 \<le> a \<and> a < 55296 then True else if 57343 < a \<and> a \<le> 1114111 then True else False)"

section \<open>The last rune\<close>

text \<open>The loop back to the start of a rune, from \<open>g\<close> down to \<open>j\<close>.\<close>

function back_to_start :: "int list \<Rightarrow> int \<Rightarrow> int \<Rightarrow> int res" where
  "back_to_start a j g =
     (if \<not> g \<ge> j then Inr g
      else res_bind (js_index a g) (\<lambda>b. if RuneStart b then Inr g else back_to_start a j (g - 1)))"
  by pat_completeness auto
termination by (relation "measure (\<lambda>(a, j, g). nat (g - j + 1))") auto

declare back_to_start.simps [simp del]

definition DecodeLastRune :: "int list \<Rightarrow> (int \<times> int) res" where
  "DecodeLastRune a =
     (let d = int (length a) in
      if d = 0 then Inr (65533, 0) else
      let g = js_sar (d - 1) 0 in
      res_bind (js_index a g) (\<lambda>b.
      if b < 128 then Inr (b, 1) else
      let j = js_sar (d - 4) 0; j = (if j < 0 then 0 else j) in
      res_bind (back_to_start a j (js_sar (g - 1) 0)) (\<lambda>g.
      let g = (if g < 0 then 0 else g) in
      res_bind (DecodeRune (drop (nat g) a)) (\<lambda>(b, c).
      if js_sar (g + c) 0 \<noteq> d then Inr (65533, 1) else Inr (b, c)))))"

section \<open>The steps, from the reference decoder\<close>

lemma sar_id: "0 \<le> i \<Longrightarrow> i < 2 ^ 31 \<Longrightarrow> js_sar i 0 = i"
  by (simp add: js_sar_eq ToInt32_id)

lemma js_index_drop: "0 \<le> d \<Longrightarrow> 0 \<le> k \<Longrightarrow> js_index a (d + k) = js_index (drop (nat d) a) k"
  by (auto simp: js_index_def nat_add_distrib)

text \<open>Both steps look at the string from \<open>d\<close> on; \<open>scan\<close> is what they find there.\<close>

definition scan :: "int list \<Rightarrow> int option res" where
  "scan s =
     res_bind (js_index s 0) (\<lambda>e.
     if e < 128 then Inr (Some 1) else
     res_bind (js_index first e) (\<lambda>f.
     if f = 241 then Inr None else
     let g = js_sar (js_shr (js_and f 7) 0) 0 in
     if g > int (length s) then Inr None else
     res_bind (js_index acceptRanges (to_u8 (js_shr f 4))) (\<lambda>(lo, hi).
     res_bind (js_index s 1) (\<lambda>k.
     if k < lo \<or> hi < k then Inr None else if g = 2 then Inr (Some g) else
     res_bind (js_index s 2) (\<lambda>m.
     if m < 128 \<or> 191 < m then Inr None else if g = 3 then Inr (Some g) else
     res_bind (js_index s 3) (\<lambda>x.
     if x < 128 \<or> 191 < x then Inr None else Inr (Some g)))))))"

lemma first_bytes: "\<forall>f \<in> set first. 0 \<le> js_sar (js_shr (js_and f 7) 0) 0 \<and> js_sar (js_shr (js_and f 7) 0) 0 < 8"
  by code_simp

lemma js_index_in: "js_index xs i = Inr x \<Longrightarrow> x \<in> set xs"
  by (auto simp: js_index_def split: if_splits)

lemma steps_scan:
  assumes "0 \<le> d" "d < int (length a)" "length a < 2 ^ 31 - 8"
  shows "valid_step a d = scan (drop (nat d) a)"
    and "rune_step a d = res_bind (scan (drop (nat d) a)) (\<lambda>r. Inr (case r of None \<Rightarrow> 1 | Some g \<Rightarrow> g))"
proof -
  have i: "js_index a (js_sar (d + k) 0) = js_index (drop (nat d) a) k" if "0 \<le> k" "k < 8" for k
    using that assms js_index_drop [of d k a] by (simp add: sar_id)
  have i0: "js_index a d = js_index (drop (nat d) a) 0" using js_index_drop [of d 0 a] assms(1) by simp
  have g: "js_sar (d + js_sar (js_shr (js_and f 7) 0) 0) 0 > int (length a) \<longleftrightarrow>
      js_sar (js_shr (js_and f 7) 0) 0 > int (length (drop (nat d) a))" if "f \<in> set first" for f
    using that first_bytes assms by (auto simp: sar_id)
  obtain e where e: "js_index (drop (nat d) a) 0 = Inr e" using assms by (auto simp: js_index_def)
  note unf = valid_step_def rune_step_def scan_def i0 e i [of 1, simplified] i [of 2, simplified] i [of 3, simplified]
  have "valid_step a d = scan (drop (nat d) a) \<and>
    rune_step a d = res_bind (scan (drop (nat d) a)) (\<lambda>r. Inr (case r of None \<Rightarrow> 1 | Some g \<Rightarrow> g))"
  proof (cases "e < 128")
    case False
    show ?thesis
    proof (cases "js_index first e")
      case (Inr f)
      note g = g [OF js_index_in [OF Inr]]
      show ?thesis
      proof (cases "f = 241 \<or> js_sar (js_shr (js_and f 7) 0) 0 > int (length (drop (nat d) a))")
        case True
        then show ?thesis using False Inr g unfolding unf by (auto simp: Let_def)
      next
        case room: False
        have ra: "\<not> js_sar (d + js_sar (js_shr (js_and f 7) 0) 0) 0 > int (length a)" using g room by simp
        define l where "l = js_sar (js_shr (js_and f 7) 0) 0"
        show ?thesis using False Inr room ra unfolding unf l_def [symmetric]
          by (simp add: Let_def l_def [symmetric] res_bind_def cong: if_cong split: prod.split sum.split)
      qed
    qed (use False in \<open>simp add: unf\<close>)
  qed (simp add: unf)
  then show "valid_step a d = scan (drop (nat d) a)"
    and "rune_step a d = res_bind (scan (drop (nat d) a)) (\<lambda>r. Inr (case r of None \<Rightarrow> 1 | Some g \<Rightarrow> g))" by blast+
qed

lemma first_table: "\<forall>e \<in> set [0..255]. js_index first e = Inr (first ! nat e) \<and>
    (if e < 128 then first ! nat e = 240 else first ! nat e = 241 \<or>
       first ! nat e < 240 \<and> js_sar (js_shr (js_and (first ! nat e) 7) 0) 0 = js_shr (js_and (first ! nat e) 7) 0 \<and>
       js_shr (js_and (first ! nat e) 7) 0 \<in> {2, 3, 4} \<and> to_u8 (js_shr (first ! nat e) 4) \<in> {0, 1, 2, 3, 4})"
  by code_simp

lemma scan_Decode:
  assumes "bytes s" "s \<noteq> []"
  shows "scan s = res_bind (DecodeRune s) (\<lambda>(r, n). Inr (if hd s < 128 \<or> n \<noteq> 1 then Some n else None))"
proof -
  obtain e t where s: "s = e # t" using assms(2) by (cases s) auto
  have e: "e \<in> set [0..255]" using assms(1) by (simp add: s bytes_def)
  note f = first_table [THEN bspec, OF e]
  have e0: "js_index s 0 = Inr e" by (simp add: s js_index_def)
  have d: "\<not> int (length s) < 1" by (simp add: s)
  show ?thesis
  proof (cases "e < 128 \<or> first ! nat e = 241")
    case True
    then show ?thesis using f e0 d by (auto simp: scan_def DecodeRune_def Let_def s)
  next
    case False
    define h l k where "h = first ! nat e" and "l = js_shr (js_and (first ! nat e) 7) 0" and "k = to_u8 (js_shr (first ! nat e) 4)"
    have f': "js_index first e = Inr h" "h < 240" "h \<noteq> 241" "js_sar l 0 = l" "l = 2 \<or> l = 3 \<or> l = 4" "k \<in> {0, 1, 2, 3, 4}"
      "js_shr (js_and h 7) 0 = l" "to_u8 (js_shr h 4) = k"
      using f False by (auto simp: h_def l_def k_def)
    obtain lo hi where lh: "js_index acceptRanges k = Inr (lo, hi)" using f'(6) acceptRanges_index by auto
    have dec: "DecodeRune s = decode_tail s e l lo hi" by (rule DecodeRune_tail [OF s f'(1,2,7,8) lh])
    have sc: "scan s = (if l > int (length s) then Inr None else
       res_bind (js_index s 1) (\<lambda>k.
       if k < lo \<or> hi < k then Inr None else if l = 2 then Inr (Some l) else
       res_bind (js_index s 2) (\<lambda>m.
       if m < 128 \<or> 191 < m then Inr None else if l = 3 then Inr (Some l) else
       res_bind (js_index s 3) (\<lambda>x. if x < 128 \<or> 191 < x then Inr None else Inr (Some l)))))"
      using e0 f' lh False by (simp add: scan_def Let_def)
    have hd: "\<not> hd s < 128" using False by (simp add: s)
    show ?thesis unfolding dec sc decode_tail_def using f'(5) hd
      by (auto simp: js_index_def)
  qed
qed

lemma scan_dec:
  assumes "bytes s" "s \<noteq> []"
  shows "scan s = Inr (if hd s < 128 \<or> snd (dec s) \<noteq> 1 then Some (snd (dec s)) else None)"
  using scan_Decode [OF assms] DecodeRune_dec [OF assms] by (simp add: split_beta)

lemma dec_one: "bytes s \<Longrightarrow> s \<noteq> [] \<Longrightarrow> snd (dec s) = 1 \<Longrightarrow> \<not> hd s < 128 \<Longrightarrow> fst (dec s) = 65533"
  by (cases s rule: dec.cases) (auto split: if_splits)

lemma div_mod_64: "0 \<le> x \<Longrightarrow> x < 64 \<Longrightarrow> (m * 64 + x) div 64 = m \<and> (m * 64 + x) mod 64 = x" for m x :: int
  by simp

lemma dec_shape:
  assumes "s \<noteq> []" "hd s < 128 \<or> snd (dec s) \<noteq> 1"
  shows "(\<exists>r t. s = r # t \<and> r < 128 \<and> dec s = (r, 1)) \<or>
    (\<exists>r t q. s = r # t # q \<and> 194 \<le> r \<and> r < 224 \<and> cont t \<and> dec s = ((r - 192) * 64 + (t - 128), 2)) \<or>
    (\<exists>r t u q. s = r # t # u # q \<and> 224 \<le> r \<and> r < 240 \<and> cont t \<and> cont u \<and> (r = 224 \<longrightarrow> 160 \<le> t) \<and>
       dec s = ((r - 224) * 4096 + (t - 128) * 64 + (u - 128), 3)) \<or>
    (\<exists>r t u v q. s = r # t # u # v # q \<and> 240 \<le> r \<and> r < 245 \<and> cont t \<and> cont u \<and> cont v \<and> (r = 240 \<longrightarrow> 144 \<le> t) \<and>
       dec s = ((r - 240) * 262144 + (t - 128) * 4096 + (u - 128) * 64 + (v - 128), 4))"
  using assms by (cases s rule: dec.cases) (simp_all split: if_splits)

lemma dec_bytes:
  assumes "bytes s" "s \<noteq> []" "hd s < 128 \<or> snd (dec s) \<noteq> 1"
  shows "enc (fst (dec s)) @ drop (nat (snd (dec s))) s = s"
proof -
  have two: "enc ((r - 192) * 64 + (t - 128)) = [r, t]" if a: "194 \<le> r" "r < 224" "cont t" for r t
  proof -
    obtain y x where "r = 192 + y" "t = 128 + x" by (metis add.commute diff_add_cancel)
    then show ?thesis using a by (auto simp: enc_def cont_def)
  qed
  have three: "enc ((r - 224) * 4096 + (t - 128) * 64 + (u - 128)) = [r, t, u]"
    if a: "224 \<le> r" "r < 240" "cont t" "cont u" "r = 224 \<longrightarrow> 160 \<le> t" for r t u
  proof -
    obtain z y x where k: "r = 224 + z" "t = 128 + y" "u = 128 + x" by (metis add.commute diff_add_cancel)
    have b: "0 \<le> z" "z < 16" "0 \<le> y" "y < 64" "0 \<le> x" "x < 64" "z = 0 \<longrightarrow> 32 \<le> y" using a by (auto simp: k cont_def)
    have v: "z * 4096 + y * 64 + x = (z * 64 + y) * 64 + x" by simp
    have q: "((z * 64 + y) * 64 + x) div 64 = z * 64 + y" "((z * 64 + y) * 64 + x) mod 64 = x" "(z * 64 + y) div 64 = z" "(z * 64 + y) mod 64 = y"
      using b div_mod_64 [of x "z * 64 + y"] div_mod_64 [of y z] by blast+
    have "(z * 4096 + y * 64 + x) div 4096 = (z * 4096 + y * 64 + x) div 64 div 64" using zdiv_zmult2_eq [of 64 "z * 4096 + y * 64 + x" 64] by simp
    then have "enc (z * 4096 + y * 64 + x) = [224 + z, 128 + y, 128 + x]"
      using b q unfolding enc_def v by auto
    then show ?thesis by (simp add: k)
  qed
  have four: "enc ((r - 240) * 262144 + (t - 128) * 4096 + (u - 128) * 64 + (v - 128)) = [r, t, u, v]"
    if a: "240 \<le> r" "r < 245" "cont t" "cont u" "cont v" "r = 240 \<longrightarrow> 144 \<le> t" for r t u v
  proof -
    obtain w z y x where k: "r = 240 + w" "t = 128 + z" "u = 128 + y" "v = 128 + x" by (metis add.commute diff_add_cancel)
    have b: "0 \<le> w" "w < 5" "0 \<le> z" "z < 64" "0 \<le> y" "y < 64" "0 \<le> x" "x < 64" "w = 0 \<longrightarrow> 16 \<le> z" using a by (auto simp: k cont_def)
    let ?m = "(w * 64 + z) * 64 + y"
    have v: "w * 262144 + z * 4096 + y * 64 + x = ?m * 64 + x" by simp
    have q: "(?m * 64 + x) div 64 = ?m" "(?m * 64 + x) mod 64 = x" "?m div 64 = w * 64 + z" "?m mod 64 = y"
      "(w * 64 + z) div 64 = w" "(w * 64 + z) mod 64 = z"
      using b div_mod_64 [of x ?m] div_mod_64 [of y "w * 64 + z"] div_mod_64 [of z w] by blast+
    have "(?m * 64 + x) div 4096 = (?m * 64 + x) div 64 div 64" "(?m * 64 + x) div 262144 = (?m * 64 + x) div 64 div 64 div 64"
      using zdiv_zmult2_eq [of 64 "?m * 64 + x" 64] zdiv_zmult2_eq [of 64 "?m * 64 + x" 4096] zdiv_zmult2_eq [of 64 "(?m * 64 + x) div 64" 64] by simp_all
    then have d: "(?m * 64 + x) div 4096 = w * 64 + z" "(?m * 64 + x) div 262144 = w" unfolding q by simp_all
    have big: "\<not> ?m * 64 + x \<le> 65535" using b by (cases "w = 0") simp_all
    then have "\<not> ?m * 64 + x \<le> 127" "\<not> ?m * 64 + x \<le> 2047" by linarith+
    then have "enc (?m * 64 + x) = [240 + w, 128 + z, 128 + y, 128 + x]" using big unfolding enc_def d q by simp
    then show ?thesis by (simp add: k mult.commute)
  qed
  from dec_shape [OF assms(2,3)] show ?thesis
  proof (elim disjE exE conjE)
    fix r t assume "s = r # t" "r < 128" "dec s = (r, 1)"
    then show ?thesis by (simp add: enc_def)
  next
    fix r t q assume "s = r # t # q" "194 \<le> r" "r < 224" "cont t" "dec s = ((r - 192) * 64 + (t - 128), 2)"
    then show ?thesis using two [of r t] by (simp only: fst_conv snd_conv) simp
  next
    fix r t u q assume "s = r # t # u # q" "224 \<le> r" "r < 240" "cont t" "cont u" "r = 224 \<longrightarrow> 160 \<le> t"
      "dec s = ((r - 224) * 4096 + (t - 128) * 64 + (u - 128), 3)"
    then show ?thesis using three [of r t u] by (simp only: fst_conv snd_conv) simp
  next
    fix r t u v q assume "s = r # t # u # v # q" "240 \<le> r" "r < 245" "cont t" "cont u" "cont v" "r = 240 \<longrightarrow> 144 \<le> t"
      "dec s = ((r - 240) * 262144 + (t - 128) * 4096 + (u - 128) * 64 + (v - 128), 4)"
    then show ?thesis using four [of r t u v] by (simp only: fst_conv snd_conv) simp
  qed
qed

section \<open>Whole strings\<close>

lemma dec_size: "s \<noteq> [] \<Longrightarrow> 1 \<le> snd (dec s)"
  by (cases s rule: dec.cases) auto

lemma rune_step_dec:
  assumes "bytes s" "0 \<le> d" "d < int (length s)" "length s < 2 ^ 31 - 8"
  shows "rune_step s d = Inr (snd (dec (drop (nat d) s)))"
proof -
  have "drop (nat d) s \<noteq> []" using assms by auto
  then show ?thesis using steps_scan(2) [OF assms(2-4)] scan_dec [OF bytes_drop [OF assms(1), of "nat d"]] by auto
qed

lemma count_from_runes:
  assumes "bytes s" "length s < 2 ^ 31 - 8"
  shows "0 \<le> d \<Longrightarrow> d \<le> int (length s) \<Longrightarrow> 0 \<le> c \<Longrightarrow> c \<le> d \<Longrightarrow>
    count_from s d c = Some (Inr (c + int (length (stringToRunes_from s d))))"
proof (induction "nat (int (length s) - d)" arbitrary: d c rule: less_induct)
  case less
  show ?case
  proof (cases "d < int (length s)")
    case False
    then show ?thesis using less.prems by (subst count_from.simps) (simp add: stringToRunes_unfold)
  next
    case True
    let ?n = "snd (dec (drop (nat d) s))"
    have ne: "drop (nat d) s \<noteq> []" using True less.prems by auto
    have n: "1 \<le> ?n" "?n \<le> int (length s) - d"
      using dec_size [OF ne] dec_valid(2) [OF bytes_drop [OF assms(1)] ne] less.prems True by auto
    have sar: "js_sar (d + ?n) 0 = d + ?n" "js_sar (c + 1) 0 = c + 1" using n less.prems assms(2) by (simp_all add: sar_id)
    have "count_from s (d + ?n) (c + 1) = Some (Inr (c + 1 + int (length (stringToRunes_from s (d + ?n)))))"
      using less.hyps [of "d + ?n" "c + 1"] n less.prems by simp
    then show ?thesis using True less.prems rune_step_dec [OF assms(1) less.prems(1) True assms(2)] sar
      by (subst count_from.simps) (simp add: stringToRunes_unfold [of d])
  qed
qed

theorem RuneCount_runes:
  assumes "bytes s" "length s < 2 ^ 31 - 8"
  shows "RuneCount s = Some (Inr (int (length (stringToRunes s)))) \<and> RuneCountInString s = RuneCount s"
  using count_from_runes [OF assms, of 0 0] by (simp add: RuneCount_def RuneCountInString_def stringToRunes_def)

theorem RuneCount_runes_witness: "RuneCount [65, 240, 159, 152, 128, 255] = Some (Inr (int (length (stringToRunes [65, 240, 159, 152, 128, 255]))))"
  using RuneCount_runes [of "[65, 240, 159, 152, 128, 255]"] by (simp add: bytes_def)

lemma reencode_step:
  assumes "bytes s" "s \<noteq> []"
  shows "enc (fst (dec s)) @ t = s \<longleftrightarrow> (hd s < 128 \<or> snd (dec s) \<noteq> 1) \<and> t = drop (nat (snd (dec s))) s"
proof (cases "hd s < 128 \<or> snd (dec s) \<noteq> 1")
  case True
  then show ?thesis using dec_bytes [OF assms True] by (metis append_same_eq same_append_eq)
next
  case False
  then have r: "fst (dec s) = 65533" using dec_one [OF assms] by simp
  have "enc (fst (dec s)) @ t \<noteq> s"
  proof
    assume "enc (fst (dec s)) @ t = s"
    then have "dec s = (65533, int (length (enc 65533)))" using dec_enc(1) [OF small_valid(2), of t] r by simp
    then show False using False by (simp add: enc_def)
  qed
  with False show ?thesis by simp
qed

lemma valid_from_runes:
  assumes "bytes s" "length s < 2 ^ 31 - 8"
  shows "0 \<le> d \<Longrightarrow> d \<le> int (length s) \<Longrightarrow>
    valid_from s d = Some (Inr (concat (map enc (stringToRunes_from s d)) = drop (nat d) s))"
proof (induction "nat (int (length s) - d)" arbitrary: d rule: less_induct)
  case less
  show ?case
  proof (cases "d < int (length s)")
    case False
    then show ?thesis using less.prems by (subst valid_from.simps) (simp add: stringToRunes_unfold)
  next
    case True
    let ?t = "drop (nat d) s" let ?n = "snd (dec ?t)"
    have ne: "?t \<noteq> []" using True less.prems by auto
    note bt = bytes_drop [OF assms(1), of "nat d"]
    have n: "1 \<le> ?n" "?n \<le> int (length s) - d" using dec_size [OF ne] dec_valid(2) [OF bt ne] less.prems True by auto
    have sar: "js_sar (d + ?n) 0 = d + ?n" using n less.prems assms(2) by (simp add: sar_id)
    have dr: "drop (nat (d + ?n)) s = drop (nat ?n) ?t" using n less.prems by (simp add: nat_add_distrib add.commute)
    have vs: "valid_step s d = Inr (if hd ?t < 128 \<or> ?n \<noteq> 1 then Some ?n else None)"
      using steps_scan(1) [OF less.prems(1) True assms(2)] scan_dec [OF bt ne] by simp
    have ih: "valid_from s (d + ?n) = Some (Inr (concat (map enc (stringToRunes_from s (d + ?n))) = drop (nat ?n) ?t))"
      using less.hyps [of "d + ?n"] n less.prems dr by simp
    have "concat (map enc (stringToRunes_from s d)) = ?t \<longleftrightarrow>
        (hd ?t < 128 \<or> ?n \<noteq> 1) \<and> concat (map enc (stringToRunes_from s (d + ?n))) = drop (nat ?n) ?t"
      using reencode_step [OF bt ne] True less.prems(1) by (simp add: stringToRunes_unfold [of d])
    then show ?thesis using True vs ih sar by (subst valid_from.simps) auto
  qed
qed

text \<open>
  C33: \<open>ValidString\<close> decides validity: it terminates on every string and returns true exactly when converting the string
  to runes and back gives the same bytes, so that no byte had to be replaced.
\<close>

theorem ValidString_reencodes:
  assumes "bytes s" "length s < 2 ^ 31 - 8"
  shows "ValidString s = Some (Inr (runesToString (stringToRunes s) = s))"
proof -
  have "\<forall>r \<in> set (stringToRunes_from s 0). valid_rune r" using runes_from_valid [OF assms(1), of 0] by simp
  then have "map encodeRune (stringToRunes_from s 0) = map enc (stringToRunes_from s 0)" by (simp add: encodeRune_enc)
  then have "runesToString (stringToRunes s) = concat (map enc (stringToRunes_from s 0))"
    by (simp only: runesToString_def stringToRunes_def)
  then show ?thesis using valid_from_runes [OF assms, of 0] by (simp add: ValidString_def)
qed

theorem ValidString_reencodes_witness:
  "ValidString [65, 240, 159, 152] = Some (Inr (runesToString (stringToRunes [65, 240, 159, 152]) = [65, 240, 159, 152]))"
  by (rule ValidString_reencodes) (simp_all add: bytes_def)

lemma ValidRune_valid: "ValidRune r \<longleftrightarrow> valid_rune r"
  by (auto simp: ValidRune_def valid_rune_def)

section \<open>The last rune of an encoded string\<close>

lemma RuneStart_table: "\<forall>b \<in> set [0..255]. RuneStart b = (\<not> cont b)"
  by code_simp

lemma js_index_int: "n < length xs \<Longrightarrow> js_index xs (int n) = Inr (xs ! n)"
  by (simp add: js_index_def)

lemma back_over_conts:
  assumes "a = p @ x # cs" "bytes a" "\<forall>t \<in> set cs. cont t" "\<not> cont x" "j \<le> int (length p)"
  shows "k \<le> length cs \<Longrightarrow> back_to_start a j (int (length p + k)) = Inr (int (length p))"
proof (induction k)
  case 0
  have "x \<in> set [0..255]" using assms(1,2) by (simp add: bytes_def)
  then have "RuneStart x" using RuneStart_table assms(4) by blast
  moreover have "js_index a (int (length p)) = Inr x" by (simp add: assms(1) js_index_def nth_append)
  ultimately show ?case using assms(5) by (subst back_to_start.simps) simp
next
  case (Suc k)
  have "length p + Suc k < length a" "a ! (length p + Suc k) = cs ! k" using Suc.prems by (simp_all add: assms(1) nth_append)
  then have i: "js_index a (int (length p + Suc k)) = Inr (cs ! k)" using js_index_int [of "length p + Suc k" a] by (simp only:)
  have c: "cs ! k \<in> set cs" using Suc.prems by simp
  then have "0 \<le> cs ! k" "cs ! k < 256" using assms(1,2) by (auto simp: bytes_def)
  then have "cs ! k \<in> set [0..255]" by simp
  then have "\<not> RuneStart (cs ! k)" using RuneStart_table assms(3) c by blast
  moreover have "int (length p + Suc k) - 1 = int (length p + k)" by simp
  ultimately show ?case using Suc assms(5) i by (subst back_to_start.simps) simp
qed

lemma enc_parts:
  assumes "valid_rune r"
  shows "r \<le> 127 \<and> enc r = [r] \<or> (\<exists>x cs. enc r = x # cs \<and> cs \<noteq> [] \<and> length cs \<le> 3 \<and> \<not> cont x \<and> (\<forall>t \<in> set cs. cont t))"
proof -
  have n: "cont (128 + x mod 64)" for x using pos_mod_bound [of 64 x] by (simp add: cont_def)
  have "0 \<le> r div 64" "0 \<le> r div 4096" "0 \<le> r div 262144" using assms by (simp_all add: valid_rune_def pos_imp_zdiv_nonneg_iff)
  then show ?thesis using n by (auto simp: enc_def cont_def)
qed

theorem DecodeLastRune_encoded:
  assumes "valid_rune r" "bytes p" "length p < 2 ^ 31 - 8"
  shows "DecodeLastRune (p @ enc r) = Inr (r, int (length (enc r)))"
proof -
  let ?a = "p @ enc r" and ?d = "int (length (p @ enc r))"
  have ba: "bytes ?a" using assms(2) dec_enc(2) [OF assms(1)] by (auto simp: bytes_def)
  from enc_parts [OF assms(1)] show ?thesis
  proof (elim disjE exE conjE)
    assume "r \<le> 127" "enc r = [r]"
    then show ?thesis using assms(3) by (simp add: DecodeLastRune_def Let_def sar_id js_index_def nth_append)
  next
    fix x cs assume e: "enc r = x # cs" "cs \<noteq> []" "length cs \<le> 3" "\<not> cont x" "\<forall>t \<in> set cs. cont t"
    have d: "?d = int (length p) + 1 + int (length cs)" by (simp add: e)
    have sar: "js_sar (?d - 1) 0 = ?d - 1" "js_sar (?d - 1 - 1) 0 = ?d - 2" "js_sar (?d - 4) 0 = ?d - 4"
      using d assms(3) e(2,3) by (simp_all add: js_sar_eq ToInt32_id Suc_le_eq)
    have last: "js_index ?a (?d - 1) = Inr (last cs)"
    proof -
      have "?d - 1 = int (length p + length cs)" using d by simp
      moreover have "length p + length cs < length ?a" "?a ! (length p + length cs) = last cs"
        using e(1,2) by (simp_all add: nth_append last_conv_nth nth_Cons')
      ultimately show ?thesis using js_index_int [of "length p + length cs" ?a] by (simp only:)
    qed
    have c: "128 \<le> last cs" using e(2,5) last_in_set [of cs] by (auto simp: cont_def)
    define j where "j = (if ?d - 4 < 0 then 0 else ?d - 4)"
    have j: "j \<le> int (length p)" using d e(3) by (simp add: j_def)
    have k: "int (length p + (length cs - 1)) = ?d - 2" using d e(2) by (cases cs) simp_all
    have bk: "back_to_start ?a j (?d - 2) = Inr (int (length p))"
      using back_over_conts [OF _ ba e(5,4) j, of "length cs - 1"] e(1) unfolding k by simp
    have dr: "DecodeRune (drop (length p) ?a) = Inr (r, int (length (enc r)))"
      using DecodeRune_dec [of "enc r"] dec_enc(1) [OF assms(1), of "[]"] dec_enc(2) [OF assms(1)] e(1) by simp
    have fin: "js_sar (int (length p) + int (length (enc r))) 0 = ?d" using assms(3) e(1,3) by (simp add: sar_id)
    have ne: "?d \<noteq> 0" using d by simp
    have jj: "(if ?d - 4 < 0 then 0 else ?d - 4) = j" by (simp add: j_def)
    have "DecodeLastRune ?a = res_bind (DecodeRune (drop (nat (int (length p))) ?a))
       (\<lambda>(b, c). if js_sar (int (length p) + c) 0 \<noteq> ?d then Inr (65533, 1) else Inr (b, c))"
      unfolding DecodeLastRune_def Let_def sar jj last res_bind_simps bk using c ne by simp
    then show ?thesis using dr fin by simp
  qed
qed

theorem DecodeLastRune_encoded_witness: "DecodeLastRune ([255, 65] @ enc 8364) = Inr (8364, int (length (enc 8364)))"
  by (rule DecodeLastRune_encoded) (simp_all add: valid_rune_def bytes_def)

end
