(* ===== verification/Strings_Funcs.thy ===== *)
theory Strings_Funcs
  imports Strings_Builder Strconv Utf8_Count
begin

text \<open>
  The functions of package \<open>strings\<close>.  A string is the list of its bytes; JavaScript's \<open>indexOf\<close> and \<open>lastIndexOf\<close> are
  written out as searches.
\<close>

section \<open>Searching\<close>

fun indexOf :: "int list \<Rightarrow> int list \<Rightarrow> nat \<Rightarrow> int" where
  "indexOf f [] k = (if f = [] then int k else -1)"
| "indexOf f (x # xs) k = (if take (length f) (x # xs) = f then int k else indexOf f xs (Suc k))"

fun lastIndexOf :: "int list \<Rightarrow> int list \<Rightarrow> nat \<Rightarrow> int" where
  "lastIndexOf f [] k = (if f = [] then int k else -1)"
| "lastIndexOf f (x # xs) k =
     (let r = lastIndexOf f xs (Suc k) in if r \<ge> 0 then r else if take (length f) (x # xs) = f then int k else -1)"

definition strings_IndexByte :: "int list \<Rightarrow> int \<Rightarrow> int" where
  "strings_IndexByte e f = js_sar (indexOf [f] e 0) 0"

definition strings_Index :: "int list \<Rightarrow> int list \<Rightarrow> int" where
  "strings_Index e f = js_sar (indexOf f e 0) 0"

definition strings_LastIndex :: "int list \<Rightarrow> int list \<Rightarrow> int" where
  "strings_LastIndex e f = js_sar (lastIndexOf f e 0) 0"

definition strings_Contains :: "int list \<Rightarrow> int list \<Rightarrow> bool" where
  "strings_Contains e f \<longleftrightarrow> strings_Index e f \<ge> 0"

function last_byte_from :: "int list \<Rightarrow> int \<Rightarrow> int \<Rightarrow> int" where
  "last_byte_from e f g = (if \<not> g \<ge> 0 then -1 else if e ! nat g = f then g else last_byte_from e f (g - 1))"
  by pat_completeness auto
termination by (relation "measure (\<lambda>(e, f, g). nat (g + 1))") auto

declare last_byte_from.simps [simp del]

definition strings_LastIndexByte :: "int list \<Rightarrow> int \<Rightarrow> int" where
  "strings_LastIndexByte e f = last_byte_from e f (js_sar (int (length e) - 1) 0)"

definition substring_from :: "int list \<Rightarrow> int \<Rightarrow> int list res" where
  "substring_from s lo = (if lo < 0 then Inl (RuntimeError ''slice bounds out of range'') else Inr (drop (nat lo) s))"

partial_function (option) count_loop :: "int list \<Rightarrow> int list \<Rightarrow> int \<Rightarrow> int res option" where
  "count_loop e f g =
     (let h = strings_Index e f in
      if h = -1 then Some (Inr g)
      else bind2 (Some (substring_from e (js_sar (h + int (length f)) 0))) (\<lambda>e. count_loop e f (js_sar (g + 1) 0)))"

definition strings_Count :: "int list \<Rightarrow> int list \<Rightarrow> int res option" where
  "strings_Count e f =
     (if length f = 0 then bind2 (RuneCountInString e) (\<lambda>n. Some (Inr (js_sar (n + 1) 0)))
      else if length f > length e then Some (Inr 0)
      else if length f = length e then Some (Inr (if f = e then 1 else 0))
      else count_loop e f 0)"

definition strings_HasPrefix :: "int list \<Rightarrow> int list \<Rightarrow> bool res" where
  "strings_HasPrefix e f =
     (if \<not> length e \<ge> length f then Inr False else res_bind (substring e 0 (int (length f))) (\<lambda>s. Inr (s = f)))"

definition strings_HasSuffix :: "int list \<Rightarrow> int list \<Rightarrow> bool res" where
  "strings_HasSuffix e f =
     (if \<not> length e \<ge> length f then Inr False
      else res_bind (substring_from e (js_sar (int (length e) - int (length f)) 0)) (\<lambda>s. Inr (s = f)))"

definition strings_TrimPrefix :: "int list \<Rightarrow> int list \<Rightarrow> int list res" where
  "strings_TrimPrefix e f =
     res_bind (strings_HasPrefix e f) (\<lambda>b. if b then substring_from e (int (length f)) else Inr e)"

section \<open>Splitting and joining\<close>

definition set_at :: "int \<Rightarrow> 'a \<Rightarrow> 'a list \<Rightarrow> 'a list res" where
  "set_at i x xs = (if i < 0 \<or> i \<ge> int (length xs) then Inl (RuntimeError ''index out of range'') else Inr (xs[nat i := x]))"

definition string_slice :: "int \<Rightarrow> int list list res" where
  "string_slice n = (if n < 0 \<or> n > 2147483647 then Inl (RuntimeError ''makeslice: len out of range'') else Inr (replicate (nat n) []))"

text \<open>\<open>explode\<close>: one string per rune, the invalid bytes replaced, the last one the rest.\<close>

partial_function (option) explode_loop :: "int list \<Rightarrow> int \<Rightarrow> int list list \<Rightarrow> int \<Rightarrow> (int list \<times> int list list) res option" where
  "explode_loop e f h i =
     (if \<not> i < js_sar (f - 1) 0 then Some (Inr (e, h))
      else bind2 (Some (DecodeRune e)) (\<lambda>(k, l).
        bind2 (Some (substring e 0 l)) (\<lambda>s.
        bind2 (Some (set_at i s h)) (\<lambda>h.
        bind2 (Some (substring_from e l)) (\<lambda>e.
        bind2 (Some (if k = 65533 then set_at i [239, 191, 189] h else Inr h)) (\<lambda>h.
        explode_loop e f h (js_sar (i + 1) 0)))))))"

definition explode :: "int list \<Rightarrow> int \<Rightarrow> int list list res option" where
  "explode e f =
     bind2 (RuneCountInString e) (\<lambda>g.
     let f = (if f < 0 \<or> f > g then g else f) in
     bind2 (Some (string_slice f)) (\<lambda>h.
     bind2 (explode_loop e f h 0) (\<lambda>(e, h).
     Some (if f > 0 then set_at (js_sar (f - 1) 0) e h else Inr h))))"

partial_function (option) split_loop :: "int list \<Rightarrow> int list \<Rightarrow> int \<Rightarrow> int \<Rightarrow> int list list \<Rightarrow> int
    \<Rightarrow> (int list \<times> int list list \<times> int) res option" where
  "split_loop e f g h i j =
     (if \<not> j < h then Some (Inr (e, i, j))
      else let k = strings_Index e f in
        if k < 0 then Some (Inr (e, i, j))
        else bind2 (Some (substring e 0 (js_sar (k + g) 0))) (\<lambda>s.
          bind2 (Some (set_at j s i)) (\<lambda>i.
          bind2 (Some (substring_from e (js_sar (k + int (length f)) 0))) (\<lambda>e.
          split_loop e f g h i (js_sar (j + 1) 0)))))"

definition genSplit :: "int list \<Rightarrow> int list \<Rightarrow> int \<Rightarrow> int \<Rightarrow> int list list res option" where
  "genSplit e f g h =
     (if h = 0 then Some (Inr [])
      else if f = [] then explode e h
      else bind2 (if h < 0 then bind2 (strings_Count e f) (\<lambda>c. Some (Inr (js_sar (c + 1) 0))) else Some (Inr h)) (\<lambda>h.
        bind2 (Some (string_slice h)) (\<lambda>i.
        bind2 (split_loop e f g (js_sar (h - 1) 0) i 0) (\<lambda>(e, i, j).
        bind2 (Some (set_at j e i)) (\<lambda>i.
        Some (if js_sar (j + 1) 0 < 0 \<or> js_sar (j + 1) 0 > int (length i) then Inl (RuntimeError ''slice bounds out of range'')
              else Inr (take (nat (js_sar (j + 1) 0)) i)))))))"

definition SplitN :: "int list \<Rightarrow> int list \<Rightarrow> int \<Rightarrow> int list list res option" where
  "SplitN e f g = genSplit e f 0 g"

definition Split :: "int list \<Rightarrow> int list \<Rightarrow> int list list res option" where
  "Split e f = genSplit e f 0 (-1)"

text \<open>\<open>WriteString\<close> and \<open>Join\<close>, which appends to a fresh builder at the address \<open>self\<close>.\<close>

definition builder_WriteString :: "nat \<Rightarrow> int list \<Rightarrow> builder \<times> int store \<Rightarrow> ((int \<times> go_error option) \<times> builder \<times> int store) res" where
  "builder_WriteString self s bh = (case bh of (b, h) \<Rightarrow>
     res_bind (copyCheck self b) (\<lambda>b.
       let (p, h1) = alloc h s; (buf, h2) = internalAppend True 0 h1 (b_buf b) p 0 (length s)
       in Inr ((int (length s), None), b\<lparr>b_buf := buf\<rparr>, h2)))"

fun join_writes :: "nat \<Rightarrow> int list \<Rightarrow> int list list \<Rightarrow> builder \<times> int store \<Rightarrow> (builder \<times> int store) res" where
  "join_writes self f [] bh = Inr bh"
| "join_writes self f (m # k) bh =
     res_bind (builder_WriteString self f bh) (\<lambda>(r, bh).
     res_bind (builder_WriteString self m bh) (\<lambda>(r, bh). join_writes self f k bh))"

definition join_size :: "int list list \<Rightarrow> int list \<Rightarrow> int" where
  "join_size e f = foldl (\<lambda>h s. js_sar (h + int (length s)) 0) (js_imul (int (length f)) (js_sar (int (length e) - 1) 0)) e"

definition Join :: "nat \<Rightarrow> int store \<Rightarrow> int list list \<Rightarrow> int list \<Rightarrow> int list res" where
  "Join self hp e f =
     (case e of
        [] \<Rightarrow> Inr []
      | [x] \<Rightarrow> Inr x
      | x # y # zs \<Rightarrow>
          res_bind (builder_Grow self (join_size e f) (\<lparr>b_addr = None, b_buf = nil_slice\<rparr>, hp)) (\<lambda>bh.
          res_bind (builder_WriteString self x bh) (\<lambda>(r, bh).
          res_bind (join_writes self f (y # zs) bh) (\<lambda>bh. Inr (builder_String bh)))))"

section \<open>Occurrences and pieces\<close>

text \<open>\<open>f\<close> occurs in \<open>e\<close> at place \<open>i\<close>.\<close>

definition occurs_at :: "int list \<Rightarrow> int list \<Rightarrow> nat \<Rightarrow> bool" where
  "occurs_at f e i \<longleftrightarrow> i + length f \<le> length e \<and> take (length f) (drop i e) = f"

lemma occurs_Cons: "occurs_at f (x # e) i \<longleftrightarrow> (case i of 0 \<Rightarrow> take (length f) (x # e) = f | Suc i \<Rightarrow> occurs_at f e i)"
proof (cases i)
  case 0
  have "length f \<le> length (x # e)" if "take (length f) (x # e) = f" using arg_cong [OF that, of length] by simp
  then show ?thesis by (auto simp: 0 occurs_at_def)
qed (simp add: occurs_at_def)

lemma occurs_Nil: "occurs_at f [] i \<longleftrightarrow> f = [] \<and> i = 0"
  by (auto simp: occurs_at_def)

lemma indexOf_cases:
  "(\<forall>i. \<not> occurs_at f e i) \<and> indexOf f e k = -1 \<or>
   (\<exists>i. occurs_at f e i \<and> (\<forall>j < i. \<not> occurs_at f e j) \<and> indexOf f e k = int (k + i))"
proof (induction e arbitrary: k)
  case Nil
  then show ?case by (auto simp: occurs_Nil)
next
  case (Cons x e)
  show ?case
  proof (cases "take (length f) (x # e) = f")
    case True
    then show ?thesis by (intro disjI2 exI [of _ 0]) (simp add: occurs_Cons)
  next
    case False
    from Cons.IH [of "Suc k"] show ?thesis
    proof (elim disjE exE conjE)
      assume a: "\<forall>i. \<not> occurs_at f e i" "indexOf f e (Suc k) = -1"
      then have "\<forall>i. \<not> occurs_at f (x # e) i" using False by (simp add: occurs_Cons split: nat.split)
      with a False show ?thesis by simp
    next
      fix i assume a: "occurs_at f e i" "\<forall>j < i. \<not> occurs_at f e j" "indexOf f e (Suc k) = int (Suc k + i)"
      then have "\<forall>j < Suc i. \<not> occurs_at f (x # e) j" using False by (auto simp: occurs_Cons split: nat.split)
      with a False show ?thesis by (intro disjI2 exI [of _ "Suc i"]) (simp add: occurs_Cons)
    qed
  qed
qed

text \<open>The pieces of a string between the occurrences of a separator.\<close>

function pieces :: "int list \<Rightarrow> int list \<Rightarrow> int list list" where
  "pieces e f =
     (let i = indexOf f e 0 in
      if f = [] \<or> i < 0 then [e] else take (nat i) e # pieces (drop (nat i + length f) e) f)"
  by pat_completeness auto

termination
proof (relation "measure (length \<circ> fst)")
  fix e f :: "int list" and i assume "i = indexOf f e 0" "\<not> (f = [] \<or> i < 0)"
  then obtain k where "occurs_at f e k" using indexOf_cases [of f e 0] by auto
  then show "((drop (nat i + length f) e, f), e, f) \<in> measure (length \<circ> fst)"
    using \<open>\<not> (f = [] \<or> i < 0)\<close> by (cases e) (auto simp: occurs_at_def)
qed simp

declare pieces.simps [simp del]

lemma pieces_none: "\<forall>i. \<not> occurs_at f e i \<Longrightarrow> pieces e f = [e]"
  using indexOf_cases [of f e 0] by (subst pieces.simps) (auto simp: Let_def)

lemma pieces_first:
  "f \<noteq> [] \<Longrightarrow> occurs_at f e i \<Longrightarrow> \<forall>j < i. \<not> occurs_at f e j \<Longrightarrow> pieces e f = take i e # pieces (drop (i + length f) e) f"
proof -
  assume a: "f \<noteq> []" "occurs_at f e i" "\<forall>j < i. \<not> occurs_at f e j"
  from indexOf_cases [of f e 0] obtain k where "occurs_at f e k" "\<forall>j < k. \<not> occurs_at f e j" "indexOf f e 0 = int k"
    using a by auto
  moreover from this a have "k = i" by (metis linorder_neqE_nat)
  ultimately show ?thesis using a by (subst pieces.simps) (simp add: Let_def)
qed

text \<open>The two cases of a proof about the pieces, as an induction rule.\<close>

lemma pieces_induct [consumes 1, case_names last more]:
  assumes "f \<noteq> []"
    and "\<And>e. \<forall>i. \<not> occurs_at f e i \<Longrightarrow> P e"
    and "\<And>e i. occurs_at f e i \<Longrightarrow> \<forall>j < i. \<not> occurs_at f e j \<Longrightarrow> P (drop (i + length f) e) \<Longrightarrow> P e"
  shows "P e"
proof (induction "length e" arbitrary: e rule: less_induct)
  case less
  from indexOf_cases [of f e 0] show ?case
  proof (elim disjE exE conjE)
    fix i assume a: "occurs_at f e i" "\<forall>j < i. \<not> occurs_at f e j"
    have "length (drop (i + length f) e) < length e" using a(1) assms(1) by (cases e) (auto simp: occurs_at_def)
    from assms(3) [OF a less [OF this]] show ?thesis .
  qed (rule assms(2))
qed

fun intercalate :: "int list \<Rightarrow> int list list \<Rightarrow> int list" where
  "intercalate f [] = []"
| "intercalate f (x # xs) = x @ concat (map (\<lambda>y. f @ y) xs)"

lemma pieces_ne: "pieces e f \<noteq> []"
  by (subst pieces.simps) (simp add: Let_def)

lemma intercalate_Cons: "xs \<noteq> [] \<Longrightarrow> intercalate f (x # xs) = x @ f @ intercalate f xs"
  by (cases xs) simp_all

lemma intercalate_pieces:
  assumes f: "f \<noteq> []"
  shows "intercalate f (pieces e f) = e"
  using f
proof (induction e rule: pieces_induct)
  case (last e)
  then show ?case by (simp add: pieces_none)
next
  case (more e i)
  have "drop i e = f @ drop (i + length f) e"
    using append_take_drop_id [of "length f" "drop i e"] more(1) by (simp add: occurs_at_def add.commute)
  then have "take i e @ f @ drop (i + length f) e = e" by (metis append_take_drop_id)
  with more(3) show ?case unfolding pieces_first [OF f more(1,2)] intercalate_Cons [OF pieces_ne] by simp
qed

lemma pieces_free:
  assumes f: "f \<noteq> []"
  shows "p \<in> set (pieces e f) \<Longrightarrow> \<not> occurs_at f p k"
  using f
proof (induction e rule: pieces_induct)
  case (last e)
  then show ?case by (simp add: pieces_none)
next
  case (more e i)
  have "\<not> occurs_at f (take i e) k"
  proof
    assume "occurs_at f (take i e) k"
    then have "k + length f \<le> i" "occurs_at f e k" by (auto simp: occurs_at_def take_drop min_def split: if_splits)
    with more(2) f show False by (cases f) auto
  qed
  with more(3,4) show ?case by (auto simp: pieces_first [OF f more(1,2)])
qed

section \<open>The functions over the pieces\<close>

lemma strings_Index_indexOf: "length e < 2 ^ 31 \<Longrightarrow> strings_Index e f = indexOf f e 0"
  using indexOf_cases [of f e 0] by (auto simp: strings_Index_def js_sar_eq ToInt32_id occurs_at_def)

text \<open>\<open>Index\<close> is -1 when the string does not occur and the first place where it does otherwise.\<close>

lemma strings_Index_spec:
  assumes "length e < 2 ^ 31"
  shows "(\<forall>i. \<not> occurs_at f e i) \<and> strings_Index e f = -1 \<or>
    (\<exists>i. occurs_at f e i \<and> (\<forall>j < i. \<not> occurs_at f e j) \<and> strings_Index e f = int i)"
  using indexOf_cases [of f e 0] unfolding strings_Index_indexOf [OF assms] by simp

lemma lastIndexOf_cases:
  "(\<forall>i. \<not> occurs_at f e i) \<and> lastIndexOf f e k = -1 \<or>
   (\<exists>i. occurs_at f e i \<and> (\<forall>j. occurs_at f e j \<longrightarrow> j \<le> i) \<and> lastIndexOf f e k = int (k + i))"
proof (induction e arbitrary: k)
  case Nil
  then show ?case by (auto simp: occurs_Nil)
next
  case (Cons x e)
  from Cons.IH [of "Suc k"] show ?case
  proof (elim disjE exE conjE)
    assume a: "\<forall>i. \<not> occurs_at f e i" "lastIndexOf f e (Suc k) = -1"
    then show ?thesis
      by (cases "take (length f) (x # e) = f") (auto simp: occurs_Cons split: nat.splits intro!: exI [of _ 0])
  next
    fix i assume a: "occurs_at f e i" "\<forall>j. occurs_at f e j \<longrightarrow> j \<le> i" "lastIndexOf f e (Suc k) = int (Suc k + i)"
    then show ?thesis by (intro disjI2 exI [of _ "Suc i"]) (auto simp: occurs_Cons split: nat.splits)
  qed
qed

theorem strings_LastIndex_last:
  assumes "length e < 2 ^ 31"
  shows "(\<forall>i. \<not> occurs_at f e i) \<and> strings_LastIndex e f = -1 \<or>
    (\<exists>i. occurs_at f e i \<and> (\<forall>j. occurs_at f e j \<longrightarrow> j \<le> i) \<and> strings_LastIndex e f = int i)"
  using lastIndexOf_cases [of f e 0] assms by (auto simp: strings_LastIndex_def js_sar_eq ToInt32_id occurs_at_def)

theorem strings_LastIndex_last_witness: "\<exists>i. occurs_at [1] [1, 2, 1] i \<and> strings_LastIndex [1, 2, 1] [1] = int i"
proof -
  have o: "occurs_at [1] [1, 2, 1] 0" by (simp add: occurs_at_def)
  have "length [1, 2, 1 :: int] < 2 ^ 31" by simp
  from strings_LastIndex_last [OF this, of "[1]"] o show ?thesis by blast
qed

lemma count_loop_pieces:
  assumes "f \<noteq> []"
  shows "length e < 2 ^ 31 \<Longrightarrow> 0 \<le> g \<Longrightarrow> g + int (length e) < 2 ^ 31 \<Longrightarrow>
    count_loop e f g = Some (Inr (g + int (length (pieces e f)) - 1))"
  using assms
proof (induction e arbitrary: g rule: pieces_induct)
  case (last e)
  then show ?case using strings_Index_spec [of e f] by (subst count_loop.simps) (auto simp: Let_def pieces_none)
next
  case (more e i)
  have len: "i + length f \<le> length e" "1 \<le> length f" using more(1) assms by (auto simp: occurs_at_def Suc_le_eq)
  have ix: "strings_Index e f = int i"
    using strings_Index_spec [OF more(4)] more(1,2) by (metis linorder_neqE_nat)
  have sar: "js_sar (int i + int (length f)) 0 = int i + int (length f)" "js_sar (g + 1) 0 = g + 1"
    using len more(4-6) by (simp_all add: sar_id)
  have "count_loop (drop (i + length f) e) f (g + 1) = Some (Inr (g + 1 + int (length (pieces (drop (i + length f) e) f)) - 1))"
    by (rule more(3)) (use len more(4-6) in auto)
  then show ?case
    using sar by (subst count_loop.simps) (simp add: ix substring_from_def nat_add_distrib pieces_first [OF assms more(1,2)])
qed

lemma pieces_length:
  assumes f: "f \<noteq> []"
  shows "length (pieces e f) \<le> Suc (length e)"
  using f
proof (induction e rule: pieces_induct)
  case (last e)
  then show ?case by (simp add: pieces_none)
next
  case (more e i)
  have "1 \<le> length f" "i + length f \<le> length e" using f more(1) by (simp_all add: occurs_at_def Suc_le_eq)
  with more(3) show ?case by (simp add: pieces_first [OF f more(1,2)])
qed

lemma strings_Count_pieces:
  assumes "f \<noteq> []" "length e < 2 ^ 31"
  shows "strings_Count e f = Some (Inr (int (length (pieces e f)) - 1))"
proof -
  have none: "pieces e f = [e]" if "length f > length e \<or> length f = length e \<and> f \<noteq> e"
    by (rule pieces_none) (use that in \<open>auto simp: occurs_at_def\<close>)
  have one: "pieces f f = [[], []]"
    using pieces_first [of f f 0] assms(1) pieces_none [of f "[]"] by (simp add: occurs_at_def)
  show ?thesis
    using none one assms count_loop_pieces [OF assms, of 0] by (auto simp: strings_Count_def)
qed

lemma set_at_ok: "j < length xs \<Longrightarrow> set_at (int j) x xs = Inr (xs[j := x])"
  by (simp add: set_at_def)

lemma split_loop_pieces:
  assumes f: "f \<noteq> []"
  shows "length e < 2 ^ 31 \<Longrightarrow> j + length (pieces e f) = length xs \<Longrightarrow> length xs < 2 ^ 31 \<Longrightarrow>
    split_loop e f 0 (int (length xs) - 1) xs (int j) =
      Some (Inr (last (pieces e f), take j xs @ butlast (pieces e f) @ drop (length xs - 1) xs, int (length xs) - 1))"
  using f
proof (induction e arbitrary: j xs rule: pieces_induct)
  case (last e)
  then have "length xs = Suc j" by (simp add: pieces_none)
  with last(1) show ?case by (subst split_loop.simps) (simp add: pieces_none)
next
  case (more e i)
  let ?e = "drop (i + length f) e"
  have p: "pieces e f = take i e # pieces ?e f" by (rule pieces_first [OF f more(1,2)])
  have len: "i + length f \<le> length e" using more(1) by (simp add: occurs_at_def)
  have ix: "strings_Index e f = int i"
    using strings_Index_spec [OF more(4)] more(1,2) by (metis linorder_neqE_nat)
  have j: "j < length xs" "Suc j < length xs" using more(5) pieces_ne [of ?e f] p by (cases "pieces ?e f", simp_all)+
  have sar: "js_sar (int i + int (length f)) 0 = int i + int (length f)" "js_sar (int i) 0 = int i" "js_sar (int j + 1) 0 = int (Suc j)"
    using len more(4,6) j by (simp_all add: sar_id)
  have sub: "substring e 0 (int i) = Inr (take i e)" using len by (simp add: substring_def)
  have "split_loop ?e f 0 (int (length (xs[j := take i e])) - 1) (xs[j := take i e]) (int (Suc j)) =
      Some (Inr (last (pieces ?e f), take (Suc j) (xs[j := take i e]) @ butlast (pieces ?e f) @
        drop (length (xs[j := take i e]) - 1) (xs[j := take i e]), int (length (xs[j := take i e])) - 1))"
    by (rule more(3)) (use more(4-6) p in auto)
  moreover have "take (Suc j) (xs[j := take i e]) = take j xs @ [take i e]" using j by (simp add: take_Suc_conv_app_nth)
  moreover have "drop (length xs - 1) (xs[j := take i e]) = drop (length xs - 1) xs" using j by simp
  ultimately show ?case
    using j sar sub pieces_ne [of ?e f]
    by (subst split_loop.simps) (simp add: ix p set_at_ok substring_from_def nat_add_distrib)
qed

lemma Split_pieces:
  assumes f: "f \<noteq> []" and e: "length e < 2 ^ 31 - 1"
  shows "Split e f = Some (Inr (pieces e f))"
proof -
  let ?n = "length (pieces e f)"
  have n: "1 \<le> ?n" "?n < 2 ^ 31" using pieces_ne [of e f] pieces_length [OF f, of e] e by (simp_all add: Suc_le_eq)
  have sl: "string_slice (int ?n) = Inr (replicate ?n [])" using n by (simp add: string_slice_def)
  have sar: "js_sar (int ?n) 0 = int ?n" "js_sar (int ?n - 1) 0 = int ?n - 1"
    using n by (auto intro!: sar_id)
  have loop: "split_loop e f 0 (int ?n - 1) (replicate ?n []) 0 =
      Some (Inr (last (pieces e f), butlast (pieces e f) @ drop (?n - 1) (replicate ?n []), int ?n - 1))"
    using split_loop_pieces [OF f, of e 0 "replicate ?n []"] e n by simp
  have "drop (?n - 1) (replicate ?n ([] :: int list)) = [[]]" using n by simp
  then have set: "set_at (int ?n - 1) (last (pieces e f)) (butlast (pieces e f) @ drop (?n - 1) (replicate ?n [])) = Inr (pieces e f)"
    using n set_at_ok [of "?n - 1" "butlast (pieces e f) @ [[]]" "last (pieces e f)"] pieces_ne [of e f]
    by (simp add: of_nat_diff list_update_append)
  show ?thesis
    using f e n sar loop set strings_Count_pieces [OF f, of e] sl by (simp add: Split_def genSplit_def)
qed

section \<open>The builder of Join\<close>

lemma builder_WriteString_spec:
  assumes "builder_ok self bh"
  shows "\<exists>bh'. builder_WriteString self s bh = Inr ((int (length s), None), bh') \<and> builder_ok self bh' \<and>
    builder_String bh' = builder_String bh @ s"
proof -
  obtain b h where bh: "bh = (b, h)" by (cases bh)
  obtain h1 where al: "alloc h s = (fresh h, h1)" "fresh h1 = Suc (fresh h)" "arrays h1 = (arrays h)(fresh h := s)"
    by (rule that [of "snd (alloc h s)"]) (simp_all add: alloc_def)
  let ?e = "\<lparr>s_array = fresh h, s_offset = 0, s_length = length s, s_capacity = length s, s_nil = False\<rparr>"
  have wf: "wf_slice h (b_buf b)" using assms by (simp add: builder_ok_def bh)
  then have wf': "wf_slice h1 (b_buf b)" "sliceToArray h1 (b_buf b) = sliceToArray h (b_buf b)"
    by (simp_all add: wf_slice_def sliceToArray_def al)
  have we: "wf_slice h1 ?e" "sliceToArray h1 ?e = s" by (simp_all add: wf_slice_def sliceToArray_def al)
  obtain buf h' where app: "internalAppend True 0 h1 (b_buf b) (fresh h) 0 (length s) = (buf, h')"
    by (cases "internalAppend True 0 h1 (b_buf b) (fresh h) 0 (length s)")
  then have "appendSlice True 0 h1 (b_buf b) ?e = (buf, h')" by (simp add: appendSlice_def)
  from appendSlice_spec [OF wf'(1) we(1) this]
  have r: "wf_slice h' buf" "sliceToArray h' buf = sliceToArray h (b_buf b) @ s" unfolding wf'(2) we(2) by simp_all
  have "copyCheck self b = Inr (b\<lparr>b_addr := Some self\<rparr>)"
    using assms by (cases b) (auto simp: copyCheck_def builder_ok_def bh)
  then show ?thesis using app r al(1) by (simp add: builder_WriteString_def bh builder_ok_def builder_String_def)
qed

lemma join_writes_spec:
  assumes "builder_ok self bh"
  shows "\<exists>bh'. join_writes self f ps bh = Inr bh' \<and> builder_ok self bh' \<and>
    builder_String bh' = builder_String bh @ concat (map (\<lambda>p. f @ p) ps)"
  using assms
proof (induction ps arbitrary: bh)
  case (Cons p ps)
  obtain b1 where b1: "builder_WriteString self f bh = Inr ((int (length f), None), b1)" "builder_ok self b1"
    "builder_String b1 = builder_String bh @ f" using builder_WriteString_spec [OF Cons.prems] by blast
  obtain b2 where b2: "builder_WriteString self p b1 = Inr ((int (length p), None), b2)" "builder_ok self b2"
    "builder_String b2 = builder_String b1 @ p" using builder_WriteString_spec [OF b1(2)] by blast
  from Cons.IH [OF b2(2)] b1 b2 show ?case by auto
qed simp

lemma builder_Grow_fresh:
  assumes "0 \<le> n" "n < 2 ^ 31" "0 < fresh hp"
  shows "\<exists>bh. builder_Grow self n (\<lparr>b_addr = None, b_buf = nil_slice\<rparr>, hp) = Inr bh \<and> builder_ok self bh \<and> builder_String bh = []"
proof (cases "n = 0")
  case True
  then show ?thesis using assms(3)
    by (simp add: builder_Grow_def copyCheck_def nil_slice_def builder_ok_def builder_String_def wf_slice_def sliceToArray_def
        js_sar_eq ToInt32_id)
next
  case False
  have "js_imul 2 0 = 0" by (simp add: js_imul_def ToInt32_id)
  then show ?thesis using assms False
    by (auto simp: builder_Grow_def copyCheck_def nil_slice_def builder_ok_def builder_String_def builder_grow_def sar_id makeSlice_def
        alloc_def copySlice_def copyArray_def wf_slice_def sliceToArray_def)
qed

lemma foldl_sizes:
  assumes "0 \<le> a" "a + sum_list (map (\<lambda>p. int (length p)) ps) < 2 ^ 31"
  shows "foldl (\<lambda>h s. js_sar (h + int (length s)) 0) a ps = a + sum_list (map (\<lambda>p. int (length p)) ps)"
  using assms
proof (induction ps arbitrary: a)
  case (Cons p ps)
  have "0 \<le> sum_list (map (\<lambda>p. int (length p)) ps)" by (rule sum_list_nonneg) auto
  with Cons.prems have "js_sar (a + int (length p)) 0 = a + int (length p)" by (intro sar_id) auto
  with Cons show ?case by (simp add: add.assoc)
qed simp

lemma length_intercalate:
  "int (length (intercalate f (x # xs))) = int (length f) * int (length xs) + sum_list (map (\<lambda>p. int (length p)) (x # xs))"
  by (induction xs) (simp_all add: algebra_simps)

lemma Join_intercalate:
  assumes "int (length (intercalate f ps)) < 2 ^ 31" "0 < fresh hp"
  shows "Join self hp ps f = Inr (intercalate f ps)"
proof (cases ps)
  case (Cons x xs)
  show ?thesis
  proof (cases xs)
    case (Cons y ys)
    let ?s = "sum_list (map (\<lambda>p. int (length p)) ps)"
    have ps: "ps = x # y # ys" using Cons \<open>ps = x # xs\<close> by simp
    have len: "int (length f) * int (Suc (length ys)) + ?s < 2 ^ 31"
      using assms(1) length_intercalate [of f x "y # ys"] by (simp add: ps)
    have nn: "0 \<le> ?s" by (rule sum_list_nonneg) auto
    have n: "int (length ps) - 1 = int (Suc (length ys))" by (simp_all add: ps)
    have "js_imul (int (length f)) (js_sar (int (length ps) - 1) 0) = int (length f) * int (Suc (length ys))"
    proof (cases "f = []")
      case False
      then have "1 * int (Suc (length ys)) \<le> int (length f) * int (Suc (length ys))"
        by (intro mult_right_mono) (simp_all add: Suc_le_eq)
      moreover have m: "int (length f) * int (Suc (length ys)) < 2 ^ 31" by (rule le_less_trans [OF _ len]) (use nn in simp)
      ultimately have "int (Suc (length ys)) < 2 ^ 31" by (metis le_less_trans mult_1)
      moreover have "ToInt32 (int (length f) * int (Suc (length ys))) = int (length f) * int (Suc (length ys))"
        by (rule ToInt32_id [OF _ m]) (rule order_trans [of _ 0], simp_all)
      ultimately show ?thesis unfolding n js_imul_def by (simp only: sar_id of_nat_0_le_iff)
    qed (simp add: js_imul_def ToInt32_id)
    then have "join_size ps f = int (length f) * int (Suc (length ys)) + ?s"
      using foldl_sizes [of "int (length f) * int (Suc (length ys))" ps] len unfolding join_size_def by simp
    then obtain b1 where b1: "builder_Grow self (join_size ps f) (\<lparr>b_addr = None, b_buf = nil_slice\<rparr>, hp) = Inr b1"
      "builder_ok self b1" "builder_String b1 = []"
      using builder_Grow_fresh [of "join_size ps f" hp self] len nn assms(2) by auto
    obtain b2 where b2: "builder_WriteString self x b1 = Inr ((int (length x), None), b2)" "builder_ok self b2"
      "builder_String b2 = x" using builder_WriteString_spec [OF b1(2), of x] b1(3) by auto
    show ?thesis using join_writes_spec [OF b2(2), of f "y # ys"] b1 b2 by (auto simp: ps Join_def)
  qed (simp add: \<open>ps = x # xs\<close> Join_def)
qed (simp add: Join_def)

section \<open>Splitting and joining\<close>

lemma pieces_short:
  assumes f: "f \<noteq> []"
  shows "p \<in> set (pieces e f) \<Longrightarrow> length p \<le> length e"
  using f
proof (induction e rule: pieces_induct)
  case (more e i)
  then show ?case by (auto simp: pieces_first [OF f more(1,2)])
qed (simp add: pieces_none)

text \<open>
  C31: \<open>Split\<close> terminates on every string and every separator that is not empty: it returns one piece more than \<open>Count\<close>
  counts, no piece contains the separator, and \<open>Join\<close> of the pieces with the separator gives the string back.  (With an empty
  separator \<open>Split\<close> returns the runes, and \<open>Count\<close> is one more than their number.)
\<close>

theorem Split_Join:
  assumes "f \<noteq> []" "length e < 2 ^ 31 - 1" "0 < fresh hp"
  shows "\<exists>ps. Split e f = Some (Inr ps) \<and> strings_Count e f = Some (Inr (int (length ps) - 1)) \<and>
    (\<forall>p \<in> set ps. \<not> strings_Contains p f) \<and> Join self hp ps f = Inr e"
proof (intro exI conjI ballI)
  show "Split e f = Some (Inr (pieces e f))" by (rule Split_pieces [OF assms(1,2)])
  show "strings_Count e f = Some (Inr (int (length (pieces e f)) - 1))"
    using strings_Count_pieces [OF assms(1)] assms(2) by simp
  show "Join self hp (pieces e f) f = Inr e"
    using Join_intercalate [of f "pieces e f" hp self] intercalate_pieces [OF assms(1), of e] assms by simp
  fix p assume p: "p \<in> set (pieces e f)"
  then have "length p < 2 ^ 31" using pieces_short [OF assms(1)] assms(2) by fastforce
  then show "\<not> strings_Contains p f"
    using strings_Index_spec [of p f] pieces_free [OF assms(1) p] by (auto simp: strings_Contains_def)
qed

theorem Split_Join_witness:
  "\<exists>ps. Split [97, 44, 44, 98] [44] = Some (Inr ps) \<and>
     Join 1 \<lparr>arrays = (\<lambda>_. []), fresh = 1\<rparr> ps [44] = Inr [97, 44, 44, 98]"
  using Split_Join [of "[44]" "[97, 44, 44, 98]" "\<lparr>arrays = (\<lambda>_. []), fresh = 1\<rparr>" 1] by auto

end
