(* ===== verification/Strconv_Parse.thy ===== *)
theory Strconv_Parse
  imports Strconv
begin

text \<open>
  Package \<open>strconv\<close>: \<open>ParseUint\<close>, \<open>ParseInt\<close> and \<open>Atoi\<close>, against a reader on unbounded integers, and the round
  trips with the formatting functions.
\<close>

section \<open>Errors\<close>

text \<open>
  \<open>NumError\<close>.  Its error is one of the two package-level errors, compared by identity, or a new one with the given
  text.
\<close>

datatype num_cause = ErrSyntax | ErrRange | FreshError "int list"

record num_error =
  Func :: string
  Num :: "int list"
  Err :: num_cause

type_synonym parsed = "(js64 \<times> num_error option) res option"

definition failed :: "string \<Rightarrow> int list \<Rightarrow> num_cause \<Rightarrow> num_error option" where
  "failed f s e = Some \<lparr>Func = f, Num = s, Err = e\<rparr>"

definition syntaxError :: "string \<Rightarrow> int list \<Rightarrow> num_error option" where
  "syntaxError f s = failed f s ErrSyntax"

definition rangeError :: "string \<Rightarrow> int list \<Rightarrow> num_error option" where
  "rangeError f s = failed f s ErrRange"

definition baseError :: "string \<Rightarrow> int list \<Rightarrow> int \<Rightarrow> num_error option res option" where
  "baseError f s b = bind2 (Itoa b) (\<lambda>t. Some (Inr (failed f s (FreshError (map of_char ''invalid base '' @ t)))))"

definition bitSizeError :: "string \<Rightarrow> int list \<Rightarrow> int \<Rightarrow> num_error option res option" where
  "bitSizeError f s c = bind2 (Itoa c) (\<lambda>t. Some (Inr (failed f s (FreshError (map of_char ''invalid bit size '' @ t)))))"

section \<open>\<open>ParseUint\<close>\<close>

definition uint_zero :: js64 where "uint_zero = new64 KUint64 0 0"

text \<open>The value of a byte as a digit, before it is compared with the base.\<close>

definition byte_digit :: "int \<Rightarrow> int option" where
  "byte_digit m =
     (if 48 \<le> m \<and> m \<le> 57 then Some (to_u8 (m - 48))
      else if 97 \<le> m \<and> m \<le> 122 then Some (to_u8 (to_u8 (m - 97) + 10))
      else if 65 \<le> m \<and> m \<le> 90 then Some (to_u8 (to_u8 (m - 65) + 10))
      else None)"

text \<open>The loop: \<open>d\<close> is the whole input, \<open>e\<close> the cutoff, \<open>i\<close> the largest result and \<open>j\<close> the number read so far.\<close>

fun parse_loop :: "int list \<Rightarrow> int \<Rightarrow> js64 \<Rightarrow> js64 \<Rightarrow> js64 \<Rightarrow> int list \<Rightarrow> js64 \<times> num_error option" where
  "parse_loop d b e i j [] = (j, None)"
| "parse_loop d b e i j (m # ms) =
     (case byte_digit m of
        None \<Rightarrow> (uint_zero, syntaxError ''ParseUint'' d)
      | Some n \<Rightarrow>
          if n \<ge> to_u8 b then (uint_zero, syntaxError ''ParseUint'' d)
          else if le64 e j then (i, rangeError ''ParseUint'' d)
          else let j = mul64 j (uint64_of b); p = add64 j (uint64_of n) in
            if less64 p j \<or> less64 i p then (i, rangeError ''ParseUint'' d) else parse_loop d b e i p ms)"

definition parse_cutoff :: "int \<Rightarrow> js64 res option" where
  "parse_cutoff b =
     (if b = 10 then Some (Inr (new64 KUint64 429496729 2576980378))
      else if b = 16 then Some (Inr (new64 KUint64 268435456 0))
      else bind2 (div64 (new64 KUint64 4294967295 4294967295) (uint64_of b) False)
             (\<lambda>g. Some (Inr (new64 KUint64 (high g + 0) (low g + 1)))))"

definition parse_max :: "int \<Rightarrow> js64" where
  "parse_max c = (let h = shiftLeft64 (uint64_of 1) (nat (js_shr c 0)) in new64 KUint64 (high h - 0) (low h - 1))"

definition parse_digits :: "int list \<Rightarrow> int list \<Rightarrow> int \<Rightarrow> int \<Rightarrow> parsed" where
  "parse_digits d a b c =
     (if c < 0 \<or> c > 64 then bind2 (bitSizeError ''ParseUint'' d c) (\<lambda>e. Some (Inr (uint_zero, e)))
      else bind2 (parse_cutoff b) (\<lambda>e.
        Some (Inr (parse_loop d b e (parse_max (if c = 0 then 32 else c)) uint_zero a))))"

definition ParseUint :: "int list \<Rightarrow> int \<Rightarrow> int \<Rightarrow> parsed" where
  "ParseUint a b c =
     (if a = [] then Some (Inr (uint_zero, syntaxError ''ParseUint'' a))
      else if 2 \<le> b \<and> b \<le> 36 then parse_digits a a b c
      else if b = 0 then
        (if hd a = 48 \<and> length a > 1 \<and> (a ! 1 = 120 \<or> a ! 1 = 88) then
           (if length a < 3 then Some (Inr (uint_zero, syntaxError ''ParseUint'' a)) else parse_digits a (drop 2 a) 16 c)
         else if hd a = 48 then parse_digits a (drop 1 a) 8 c
         else parse_digits a a 10 c)
      else bind2 (baseError ''ParseUint'' a b) (\<lambda>e. Some (Inr (uint_zero, e))))"

section \<open>\<open>ParseInt\<close> and \<open>Atoi\<close>\<close>

definition parse_signed :: "bool \<Rightarrow> int list \<Rightarrow> int \<Rightarrow> js64 \<times> num_error option \<Rightarrow> js64 \<times> num_error option" where
  "parse_signed neg h c r = (case r of (j, e) \<Rightarrow>
     if e \<noteq> None \<and> Err (the e) \<noteq> ErrRange then (int64_of 0, map_option (\<lambda>x. x\<lparr>Func := ''ParseInt'', Num := h\<rparr>) e)
     else let c = (if c = 0 then 32 else c);
              n = shiftLeft64 (uint64_of 1) (nat (js_shr (js_sar (c - 1) 0) 0)) in
       if \<not> neg \<and> le64 n j then
         (let p = new64 KUint64 (high n - 0) (low n - 1) in (new64 KInt64 (high p) (low p), rangeError ''ParseInt'' h))
       else if neg \<and> less64 n j then
         (let s = new64 KInt64 (high n) (low n) in (new64 KInt64 (- high s) (- low s), rangeError ''ParseInt'' h))
       else let u = new64 KInt64 (high j) (low j) in
         (if neg then new64 KInt64 (- high u) (- low u) else u, None))"

definition ParseInt :: "int list \<Rightarrow> int \<Rightarrow> int \<Rightarrow> parsed" where
  "ParseInt a b c =
     (if a = [] then Some (Inr (int64_of 0, syntaxError ''ParseInt'' a))
      else let neg = (hd a \<noteq> 43 \<and> hd a = 45); a' = (if hd a = 43 \<or> hd a = 45 then drop 1 a else a) in
        bind2 (ParseUint a' b c) (\<lambda>r. Some (Inr (parse_signed neg a c r))))"

fun atoi_loop :: "int list \<Rightarrow> int \<Rightarrow> int list \<Rightarrow> int \<times> num_error option" where
  "atoi_loop c d [] = (if hd c = 45 then (- d, None) else (d, None))"
| "atoi_loop c d (g # gs) =
     (let g = to_u8 (g - 48) in
      if g > 9 then (0, failed ''Atoi'' c ErrSyntax) else atoi_loop c (js_sar (js_imul d 10 + js_sar g 0) 0) gs)"

definition Atoi :: "int list \<Rightarrow> (int \<times> num_error option) res option" where
  "Atoi a =
     (if 0 < length a \<and> length a < 10 then
        (if hd a = 45 \<or> hd a = 43 then
           (if length (drop 1 a) < 1 then Some (Inr (0, failed ''Atoi'' a ErrSyntax)) else Some (Inr (atoi_loop a 0 (drop 1 a))))
         else Some (Inr (atoi_loop a 0 a)))
      else bind2 (ParseInt a 10 0) (\<lambda>(i, e). Some (Inr (to_int32 i, map_option (\<lambda>x. x\<lparr>Func := ''Atoi''\<rparr>) e))))"

section \<open>Reading a number with unbounded integers\<close>

definition digit_of :: "int \<Rightarrow> int option" where
  "digit_of m = (if 48 \<le> m \<and> m \<le> 57 then Some (m - 48) else if 97 \<le> m \<and> m \<le> 122 then Some (m - 87)
     else if 65 \<le> m \<and> m \<le> 90 then Some (m - 55) else None)"

fun read_num :: "int \<Rightarrow> int \<Rightarrow> int \<Rightarrow> int list \<Rightarrow> num_cause + int" where
  "read_num b M acc [] = Inr acc"
| "read_num b M acc (m # ms) =
     (case digit_of m of
        None \<Rightarrow> Inl ErrSyntax
      | Some n \<Rightarrow> if b \<le> n then Inl ErrSyntax else if M < acc * b + n then Inl ErrRange else read_num b M (acc * b + n) ms)"

definition read_text :: "int \<Rightarrow> int \<Rightarrow> int list \<Rightarrow> num_cause + int" where
  "read_text b M a =
     (case a of
        [] \<Rightarrow> Inl ErrSyntax
      | m # ms \<Rightarrow>
          if b \<noteq> 0 then read_num b M 0 a
          else if m \<noteq> 48 then read_num 10 M 0 a
          else (case ms of
                  [] \<Rightarrow> Inr 0
                | x # rest \<Rightarrow> if x \<in> {120, 88} then (if rest = [] then Inl ErrSyntax else read_num 16 M 0 rest) else read_num 8 M 0 ms))"

definition width :: "int \<Rightarrow> nat" where
  "width c = (if c = 0 then 32 else nat c)"

definition uint_result :: "int list \<Rightarrow> int \<Rightarrow> num_cause + int \<Rightarrow> js64 \<times> num_error option" where
  "uint_result d M r = (case r of
     Inr n \<Rightarrow> (uint64_of n, None)
   | Inl e \<Rightarrow> (uint64_of (if e = ErrRange then M else 0), failed ''ParseUint'' d e))"

definition int_result :: "int list \<Rightarrow> nat \<Rightarrow> bool \<Rightarrow> num_cause + int \<Rightarrow> js64 \<times> num_error option" where
  "int_result d w neg r = (case r of
     Inr n \<Rightarrow>
       if neg then (if n > 2 ^ (w - 1) then (int64_of (- (2 ^ (w - 1))), failed ''ParseInt'' d ErrRange) else (int64_of (- n), None))
       else (if n > 2 ^ (w - 1) - 1 then (int64_of (2 ^ (w - 1) - 1), failed ''ParseInt'' d ErrRange) else (int64_of n, None))
   | Inl e \<Rightarrow>
       (int64_of (if e = ErrRange then (if neg then - (2 ^ (w - 1)) else 2 ^ (w - 1) - 1) else 0), failed ''ParseInt'' d e))"

section \<open>The unsigned parser\<close>

lemma byte_digit_table: "\<forall>m \<in> set [48..122]. byte_digit m = digit_of m"
  by code_simp

lemma byte_digit_digit_of: "byte_digit m = digit_of m"
proof (cases "48 \<le> m \<and> m \<le> 122")
  case True
  then show ?thesis using byte_digit_table [THEN bspec, of m] by (simp only: set_upto atLeastAtMost_iff simp_thms)
qed (auto simp: byte_digit_def digit_of_def)

lemma digit_of_range: "digit_of m = Some n \<Longrightarrow> 0 \<le> n \<and> n < 36"
  by (auto simp: digit_of_def split: if_splits)

lemma u64_eqI: "u64 x \<Longrightarrow> 0 \<le> v \<Longrightarrow> v < 2 ^ 64 \<Longrightarrow> val64 x = v \<Longrightarrow> x = uint64_of v"
  using wf64_eqI [of x "uint64_of v"] val64_of [of v] by (simp add: u64_def)

lemma to_u8_base: "2 \<le> b \<Longrightarrow> b \<le> 36 \<Longrightarrow> to_u8 b = b"
proof -
  assume "2 \<le> b" "b \<le> 36"
  moreover have "\<forall>b \<in> set [2..36]. to_u8 b = b" by code_simp
  ultimately show ?thesis by (auto dest: bspec [of _ _ b] simp del: upto_rec_numeral)
qed

lemma u64_sum:
  assumes "u64 x" "u64 y"
  shows "u64 (add64 x y)" "val64 (add64 x y) = (val64 x + val64 y) mod 2 ^ 64"
  using assms val64_add64 [of x y] by (simp_all add: add64_def u64_def wrap64_def take_bit_eq_mod)

lemma u64_product:
  assumes "u64 x" "u64 y"
  shows "u64 (mul64 x y)" "val64 (mul64 x y) = (val64 x * val64 y) mod 2 ^ 64"
  using assms mul64_value [of x y] by (simp_all add: mul64_def u64_def wrap64_def take_bit_eq_mod)

lemma u64_less: "u64 x \<Longrightarrow> u64 y \<Longrightarrow> less64 x y \<longleftrightarrow> val64 x < val64 y"
  by (simp add: u64_def less64_val)

lemma parse_loop_step:
  assumes "u64 j" "u64 e" "u64 i" "val64 e = (2 ^ 64 - 1) div b + 1" "val64 j \<le> val64 i" "2 \<le> b" "b \<le> 36" "0 \<le> n" "n < b"
  defines "j' \<equiv> mul64 j (uint64_of b)"
  defines "p \<equiv> add64 j' (uint64_of n)"
  shows "(le64 e j \<or> less64 p j' \<or> less64 i p) \<longleftrightarrow> val64 i < val64 j * b + n"
    and "\<not> val64 i < val64 j * b + n \<Longrightarrow> u64 p \<and> val64 p = val64 j * b + n"
proof -
  have r: "0 \<le> val64 j" "0 \<le> val64 i" "val64 i < 2 ^ 64" using u64_range [OF assms(1)] u64_range [OF assms(3)] by simp_all
  have bv: "val64 (uint64_of b) = b" "val64 (uint64_of n) = n" using assms(6-9) by (simp_all add: val64_of)
  have j': "u64 j'" "val64 j' = val64 j * b mod 2 ^ 64" using u64_product [OF assms(1) u64_of, of b] bv by (simp_all add: j'_def)
  have p: "u64 p" "val64 p = (val64 j' + n) mod 2 ^ 64" using u64_sum [OF j'(1) u64_of, of n] bv by (simp_all add: p_def)
  have le: "le64 e j \<longleftrightarrow> (2 ^ 64 - 1) div b < val64 j" using le64_val [OF assms(2,1)] assms(4) by auto
  have big: "le64 e j \<longleftrightarrow> 2 ^ 64 - 1 < val64 j * b"
    using assms(6) le int_div_less_mult [of b "2 ^ 64 - 1" "val64 j"] by simp
  have bits: "less64 p j' \<longleftrightarrow> val64 p < val64 j'" "less64 i p \<longleftrightarrow> val64 i < val64 p"
    using u64_less [OF p(1) j'(1)] u64_less [OF assms(3) p(1)] by simp_all
  have nb: "0 \<le> val64 j * b" using r(1) assms(6) by simp
  have small: "val64 j' = val64 j * b" if "\<not> le64 e j" using that big nb j'(2) by simp
  have wrapped: "val64 p = val64 j * b + n - 2 ^ 64" if "\<not> le64 e j" "2 ^ 64 \<le> val64 j * b + n"
  proof -
    have "val64 j * b + n - 2 ^ 64 < 2 ^ 64" using that(1) big assms(7,9) by simp
    with that(2) have "(val64 j * b + n - 2 ^ 64) mod 2 ^ 64 = val64 j * b + n - 2 ^ 64"
      by (intro mod_pos_pos_trivial) simp_all
    moreover have "(val64 j * b + n - 2 ^ 64) mod 2 ^ 64 = (val64 j * b + n) mod 2 ^ 64" by (simp only: minus_mod_self2)
    ultimately show ?thesis unfolding p(2) small [OF that(1)] by metis
  qed
  have exact: "val64 p = val64 j * b + n" if "\<not> le64 e j" "val64 j * b + n < 2 ^ 64"
    using that p(2) small nb assms(8) by simp
  show iff: "(le64 e j \<or> less64 p j' \<or> less64 i p) \<longleftrightarrow> val64 i < val64 j * b + n"
  proof (cases "le64 e j")
    case True
    then show ?thesis using big r assms(8) by simp
  next
    case False
    then show ?thesis using wrapped exact small bits r assms(7-9) by (cases "2 ^ 64 \<le> val64 j * b + n") auto
  qed
  show "u64 p \<and> val64 p = val64 j * b + n" if "\<not> val64 i < val64 j * b + n"
    using that iff exact p(1) r(3) by simp
qed

lemma parse_loop_reference:
  "u64 j \<Longrightarrow> u64 e \<Longrightarrow> u64 i \<Longrightarrow> val64 e = (2 ^ 64 - 1) div b + 1 \<Longrightarrow> val64 j \<le> val64 i \<Longrightarrow> 2 \<le> b \<Longrightarrow> b \<le> 36 \<Longrightarrow>
   parse_loop d b e i j ms = uint_result d (val64 i) (read_num b (val64 i) (val64 j) ms)"
proof (induction ms arbitrary: j)
  case Nil
  then show ?case using u64_range [OF Nil.prems(1)] u64_eqI [OF Nil.prems(1)] by (simp add: uint_result_def)
next
  case (Cons m ms)
  have z: "uint_zero = uint64_of 0" by (simp add: uint_zero_def uint64_of_def)
  have i: "uint64_of (val64 i) = i" using u64_eqI [OF Cons.prems(3)] u64_range [OF Cons.prems(3)] by simp
  show ?case
  proof (cases "digit_of m")
    case None
    then show ?thesis by (simp add: byte_digit_digit_of uint_result_def syntaxError_def z)
  next
    case (Some n)
    show ?thesis
    proof (cases "b \<le> n")
      case True
      then show ?thesis using Some Cons.prems(6,7) by (simp add: byte_digit_digit_of uint_result_def syntaxError_def z to_u8_base)
    next
      case False
      have n: "0 \<le> n" "n < b" using digit_of_range [OF Some] False by simp_all
      note step = parse_loop_step [OF Cons.prems(1-7) n]
      show ?thesis
      proof (cases "val64 i < val64 j * b + n")
        case True
        then show ?thesis using step(1) Some False Cons.prems(6,7)
          by (auto simp: byte_digit_digit_of uint_result_def rangeError_def i to_u8_base Let_def)
      next
        case small: False
        let ?p = "add64 (mul64 j (uint64_of b)) (uint64_of n)"
        have p: "u64 ?p" "val64 ?p = val64 j * b + n" using step(2) [OF small] by simp_all
        then have "val64 ?p \<le> val64 i" using small by simp
        from Cons.IH [OF p(1) Cons.prems(2-4) this Cons.prems(6,7)] show ?thesis
          using step(1) small Some False Cons.prems(6,7) p(2) by (simp add: byte_digit_digit_of to_u8_base Let_def)
      qed
    qed
  qed
qed

lemma parse_cutoff_value:
  assumes "2 \<le> b" "b \<le> 36"
  shows "\<exists>e. parse_cutoff b = Some (Inr e) \<and> u64 e \<and> val64 e = (2 ^ 64 - 1) div b + 1"
proof -
  have "val64 (new64 KUint64 429496729 2576980378) = 1844674407370955162" "val64 (new64 KUint64 268435456 0) = 1152921504606846976"
    by code_simp+
  moreover
  { assume "b \<noteq> 10" "b \<noteq> 16"
    have m: "val64 (new64 KUint64 4294967295 4294967295) = 2 ^ 64 - 1" by code_simp
    have bv: "val64 (uint64_of b) = b" using assms by (simp add: val64_of)
    then obtain g where g: "div64 (new64 KUint64 4294967295 4294967295) (uint64_of b) False = Some (Inr g)" "u64 g"
      "val64 g = (2 ^ 64 - 1) div b" using u64_quotient [OF u64_new u64_of, of b 4294967295 4294967295] assms(1) m by auto
    have "val64 (new64 KUint64 (high g + 0) (low g + 1)) = (val64 g + 1) mod 2 ^ 64"
      by (simp add: val64_new64 wrap64_def take_bit_eq_mod) (simp add: val64_def add.assoc)
    moreover have "(2 ^ 64 - 1) div b \<le> (2 ^ 64 - 1) div 2" using zdiv_mono2 [of "2 ^ 64 - 1" 2 b] assms(1) by simp
    moreover have "0 \<le> (2 ^ 64 - 1) div b" using assms(1) by (simp add: pos_imp_zdiv_nonneg_iff)
    ultimately have "val64 (new64 KUint64 (high g + 0) (low g + 1)) = (2 ^ 64 - 1) div b + 1" using g(3) by simp
    then have ?thesis using g(1) \<open>b \<noteq> 10\<close> \<open>b \<noteq> 16\<close> by (simp add: parse_cutoff_def)
  }
  ultimately show ?thesis by (cases "b = 10"; cases "b = 16") (simp_all add: parse_cutoff_def)
qed

lemma max_table: "\<forall>c \<in> set [0..64]. val64 (parse_max c) = 2 ^ nat c - 1"
  by code_simp

lemma parse_max_value: "0 \<le> c \<Longrightarrow> c \<le> 64 \<Longrightarrow> u64 (parse_max c) \<and> val64 (parse_max c) = 2 ^ nat c - 1"
  using max_table [THEN bspec, of c] by (simp only: set_upto atLeastAtMost_iff simp_thms) (simp add: parse_max_def Let_def)

lemma width_nat: "width c = nat (if c = 0 then 32 else c)"
  by (simp add: width_def)

lemma parse_digits_reference:
  assumes "2 \<le> b" "b \<le> 36" "0 \<le> c" "c \<le> 64"
  shows "parse_digits d a b c = Some (Inr (uint_result d (2 ^ width c - 1) (read_num b (2 ^ width c - 1) 0 a)))"
proof -
  let ?c = "if c = 0 then 32 else c"
  obtain e where e: "parse_cutoff b = Some (Inr e)" "u64 e" "val64 e = (2 ^ 64 - 1) div b + 1"
    using parse_cutoff_value [OF assms(1,2)] by blast
  have m: "u64 (parse_max ?c)" "val64 (parse_max ?c) = 2 ^ width c - 1"
    using parse_max_value [of ?c] assms(3,4) by (simp_all add: width_nat)
  have z: "u64 uint_zero" "val64 uint_zero = 0" by (simp_all add: uint_zero_def val64_new64 wrap64_def)
  have "val64 uint_zero \<le> val64 (parse_max ?c)" using m(2) z(2) by simp
  from parse_loop_reference [OF z(1) e(2) m(1) e(3) this assms(1,2)] show ?thesis
    using e(1) m(2) z(2) assms(3,4) by (simp add: parse_digits_def)
qed

theorem ParseUint_reference:
  assumes "b = 0 \<or> 2 \<le> b \<and> b \<le> 36" "0 \<le> c" "c \<le> 64"
  shows "ParseUint a b c = Some (Inr (uint_result a (2 ^ width c - 1) (read_text b (2 ^ width c - 1) a)))"
proof -
  have z: "uint_zero = uint64_of 0" by (simp add: uint_zero_def uint64_of_def)
  have pd: "parse_digits d s b' c = Some (Inr (uint_result d (2 ^ width c - 1) (read_num b' (2 ^ width c - 1) 0 s)))"
    if "b' \<in> {8, 10, 16, b}" "b' \<noteq> 0" for d s b'
    using parse_digits_reference [of b' c d s] assms that by auto
  show ?thesis
  proof (cases a)
    case Nil
    then show ?thesis by (simp add: ParseUint_def read_text_def uint_result_def syntaxError_def z)
  next
    case (Cons m ms)
    show ?thesis
    proof (cases "b = 0 \<and> m = 48")
      case False
      then show ?thesis using Cons assms(1) by (auto simp: ParseUint_def read_text_def pd)
    next
      case True
      then show ?thesis using Cons
        by (cases ms) (auto simp: ParseUint_def read_text_def pd uint_result_def syntaxError_def z Suc_le_eq)
    qed
  qed
qed

section \<open>The signed parser\<close>

lemma read_num_range: "0 \<le> acc \<Longrightarrow> acc \<le> M \<Longrightarrow> 0 \<le> b \<Longrightarrow> read_num b M acc ms = Inr n \<Longrightarrow> 0 \<le> n \<and> n \<le> M"
proof (induction ms arbitrary: acc)
  case (Cons m ms)
  obtain k where k: "digit_of m = Some k" using Cons.prems(4) by (cases "digit_of m") auto
  have "0 \<le> k" using digit_of_range [OF k] by simp
  then show ?case using Cons.prems k Cons.IH [of "acc * b + k"] by (auto split: if_splits)
qed simp

lemma read_text_range: "0 \<le> b \<Longrightarrow> 0 \<le> M \<Longrightarrow> read_text b M a = Inr n \<Longrightarrow> 0 \<le> n \<and> n \<le> M"
  using read_num_range [of 0 M b _ n] read_num_range [of 0 M 10 _ n] read_num_range [of 0 M 16 _ n] read_num_range [of 0 M 8 _ n]
  by (auto simp: read_text_def simp del: read_num.simps split: list.splits if_splits)

lemma one_bit:
  assumes "n < 64"
  shows "u64 (shiftLeft64 (uint64_of 1) n) \<and> val64 (shiftLeft64 (uint64_of 1) n) = 2 ^ n"
proof -
  have "(2::int) ^ n < 2 ^ 64" using assms by (intro power_strict_increasing) simp_all
  then show ?thesis using shiftLeft64_value [of "uint64_of 1" n] by (simp add: u64_def shiftLeft64_def val64_of wrap64_in_range in_range64_def)
qed

lemma signed_of_unsigned:
  assumes "u64 x"
  shows "val64 (new64 KInt64 (high x) (low x)) = wrap64 KInt64 (val64 x)"
  unfolding val64_new64 by (simp add: val64_def)

lemma val64_neg: "val64 (new64 KInt64 (- high x) (- low x)) = wrap64 KInt64 (- val64 x)"
  by (simp add: val64_new64) (simp add: val64_def)

lemma i64_eqI: "wf64 x \<Longrightarrow> ctor x = KInt64 \<Longrightarrow> - (2 ^ 63) \<le> v \<Longrightarrow> v < 2 ^ 63 \<Longrightarrow> val64 x = v \<Longrightarrow> x = int64_of v"
  using wf64_eqI [of x "int64_of v"] val64_int64_of [of v] by simp

lemma wrap64_neg: "wrap64 KInt64 (- wrap64 KInt64 v) = wrap64 KInt64 (- v)"
  by (rule wrap64_cong) (metis take_bit_minus take_bit_wrap64)

lemma signed_result:
  assumes "u64 x" "val64 x \<le> 2 ^ 63"
  shows "new64 KInt64 (- high (new64 KInt64 (high x) (low x))) (- low (new64 KInt64 (high x) (low x))) = int64_of (- val64 x)"
    and "val64 x < 2 ^ 63 \<Longrightarrow> new64 KInt64 (high x) (low x) = int64_of (val64 x)"
proof -
  have r: "0 \<le> val64 x" using u64_range [OF assms(1)] by simp
  have "val64 (new64 KInt64 (- high (new64 KInt64 (high x) (low x))) (- low (new64 KInt64 (high x) (low x)))) = - val64 x"
    using r assms(2) by (simp add: val64_neg signed_of_unsigned [OF assms(1)] wrap64_neg wrap64_int)
  then show "new64 KInt64 (- high (new64 KInt64 (high x) (low x))) (- low (new64 KInt64 (high x) (low x))) = int64_of (- val64 x)"
    using r assms(2) by (intro i64_eqI) simp_all
  show "new64 KInt64 (high x) (low x) = int64_of (val64 x)" if "val64 x < 2 ^ 63"
    using that r by (intro i64_eqI) (simp_all add: signed_of_unsigned [OF assms(1)] wrap64_int)
qed

lemma parse_signed_reference:
  assumes "0 \<le> c" "c \<le> 64" "c \<noteq> 1" "\<And>n. r = Inr n \<Longrightarrow> 0 \<le> n \<and> n \<le> 2 ^ width c - 1" "\<And>t. r \<noteq> Inl (FreshError t)"
  shows "parse_signed neg h c (uint_result d (2 ^ width c - 1) r) = int_result h (width c) neg r"
proof -
  define w where "w = width c"
  have w: "2 \<le> w" "w \<le> 64" "nat (js_shr (js_sar ((if c = 0 then 32 else c) - 1) 0) 0) = w - 1"
    using assms(1-3) by (auto simp: w_def width_def js_shr_0 js_sar_eq ToInt32_id nat_diff_distrib)
  let ?n = "shiftLeft64 (uint64_of 1) (w - 1)"
  have n: "u64 ?n" "val64 ?n = 2 ^ (w - 1)" using one_bit [of "w - 1"] w(2,1) by auto
  have pw: "(2::int) ^ (w - 1) \<le> 2 ^ 63" "(2::int) ^ w \<le> 2 ^ 64" "(2::int) ^ w = 2 * 2 ^ (w - 1)" "2 \<le> (2::int) ^ (w - 1)"
    using w(1,2) power_increasing [of "w - 1" 63 "2::int"] power_increasing [of w 64 "2::int"] power_increasing [of 1 "w - 1" "2::int"]
      power_Suc [of "2::int" "w - 1"] by simp_all
  have mx: "new64 KInt64 (high (new64 KUint64 (high ?n - 0) (low ?n - 1))) (low (new64 KUint64 (high ?n - 0) (low ?n - 1))) = int64_of (2 ^ (w - 1) - 1)"
  proof -
    have "val64 (new64 KUint64 (high ?n - 0) (low ?n - 1)) = take_bit 64 (val64 ?n - 1)"
      by (simp add: val64_new64 wrap64_def) (simp add: val64_def add_diff_eq)
    also have "\<dots> = 2 ^ (w - 1) - 1" using pw n(2) by (simp add: take_bit_int_eq_self)
    finally show ?thesis using signed_result(2) [OF u64_new] pw by simp
  qed
  have mn: "new64 KInt64 (- high (new64 KInt64 (high ?n) (low ?n))) (- low (new64 KInt64 (high ?n) (low ?n))) = int64_of (- (2 ^ (w - 1)))"
    using signed_result(1) [OF n(1)] pw n(2) by simp
  have cmp: "le64 ?n (uint64_of m) \<longleftrightarrow> 2 ^ (w - 1) \<le> m" "less64 ?n (uint64_of m) \<longleftrightarrow> 2 ^ (w - 1) < m" if "0 \<le> m" "m \<le> 2 ^ w - 1" for m
    using that pw(2) n le64_val [OF n(1) u64_of, of m] u64_less [OF n(1) u64_of, of m] by (simp_all add: val64_of)
  have ui: "new64 KInt64 (high (uint64_of m)) (low (uint64_of m)) = int64_of m" if "0 \<le> m" "m < 2 ^ (w - 1)" for m
    using signed_result(2) [OF u64_of, of m] that pw(1) by (simp add: val64_of)
  have un: "new64 KInt64 (- high (new64 KInt64 (high (uint64_of m)) (low (uint64_of m)))) (- low (new64 KInt64 (high (uint64_of m)) (low (uint64_of m)))) = int64_of (- m)"
    if "0 \<le> m" "m \<le> 2 ^ (w - 1)" for m
    using signed_result(1) [OF u64_of, of m] that pw(1) by (simp add: val64_of)
  show ?thesis unfolding w_def [symmetric]
  proof (cases r)
    case (Inl e)
    show "parse_signed neg h c (uint_result d (2 ^ w - 1) r) = int_result h w neg r"
    proof (cases "e = ErrRange")
      case True
      have "0 \<le> (2::int) ^ w - 1" using pw by simp
      from cmp [OF this order_refl] show ?thesis using True Inl pw w(3) mx mn
        by (simp add: parse_signed_def uint_result_def int_result_def failed_def rangeError_def Let_def)
    next
      case False
      then show ?thesis using Inl by (simp add: parse_signed_def uint_result_def int_result_def failed_def)
    qed
  next
    case (Inr m)
    have m: "0 \<le> m" "m \<le> 2 ^ w - 1" using assms(4) [OF Inr] by (simp_all add: w_def)
    show "parse_signed neg h c (uint_result d (2 ^ w - 1) r) = int_result h w neg r"
      using Inr m cmp [OF m] ui [of m] un [of m] w(3) mx mn
      by (auto simp: parse_signed_def uint_result_def int_result_def rangeError_def Let_def)
  qed
qed

definition split_sign :: "int list \<Rightarrow> bool \<times> int list" where
  "split_sign a = (case a of [] \<Rightarrow> (False, []) | m # ms \<Rightarrow> if m = 45 then (True, ms) else if m = 43 then (False, ms) else (False, a))"

lemma read_num_not_fresh: "read_num b M acc ms \<noteq> Inl (FreshError t)"
  by (induction ms arbitrary: acc) (auto split: option.splits)

lemma read_text_not_fresh: "read_text b M a \<noteq> Inl (FreshError t)"
  by (auto simp: read_text_def read_num_not_fresh simp del: read_num.simps split: list.splits)

text \<open>
  C34: \<open>ParseInt\<close>, for every base it takes (0 with the prefixes, 2 to 36) and every bit size but one: whatever the string,
  it returns what reading the sign and the digits with unbounded integers gives - the number, a syntax error, or a range
  error with the nearest number of the type - although the code computes with 64-bit words, a cutoff and a wrap test.
\<close>

theorem ParseInt_reference:
  assumes "b = 0 \<or> 2 \<le> b \<and> b \<le> 36" "0 \<le> c" "c \<le> 64" "c \<noteq> 1"
  shows "ParseInt a b c = Some (Inr
    (int_result a (width c) (fst (split_sign a)) (read_text b (2 ^ width c - 1) (snd (split_sign a)))))"
proof (cases a)
  case Nil
  then show ?thesis by (simp add: ParseInt_def split_sign_def read_text_def int_result_def syntaxError_def)
next
  case (Cons m ms)
  let ?r = "read_text b (2 ^ width c - 1) (snd (split_sign a))"
  have "0 \<le> b" "0 \<le> (2::int) ^ width c - 1" using assms(1) by auto
  from read_text_range [OF this] have "parse_signed neg a c (uint_result d (2 ^ width c - 1) ?r) = int_result a (width c) neg ?r" for neg d
    by (intro parse_signed_reference [OF assms(2-4)]) (auto simp: read_text_not_fresh)
  then show ?thesis using Cons by (auto simp: ParseInt_def split_sign_def ParseUint_reference [OF assms(1-3)] Let_def)
qed

theorem ParseInt_reference_witness:
  "ParseInt (map of_char ''-0x80'') 0 8 = Some (Inr
    (int_result (map of_char ''-0x80'') (width 8) (fst (split_sign (map of_char ''-0x80'')))
      (read_text 0 (2 ^ width 8 - 1) (snd (split_sign (map of_char ''-0x80''))))))"
  by (rule ParseInt_reference) simp_all

text \<open>With a bit size of one, a negative number out of range is returned as -1 without an error.\<close>

lemma ParseInt_one_bit: "ParseInt (map of_char ''-5'') 10 1 = Some (Inr (int64_of (- 1), None))"
proof -
  have "ParseUint (map of_char ''5'') 10 1 = Some (Inr (uint64_of 1, failed ''ParseUint'' (map of_char ''5'') ErrRange))"
    by (subst ParseUint_reference) (simp_all add: read_text_def width_def digit_of_def uint_result_def)
  moreover have "parse_signed True (map of_char ''-5'') 1 (uint64_of 1, failed ''ParseUint'' (map of_char ''5'') ErrRange) = (int64_of (- 1), None)"
    by code_simp
  ultimately show ?thesis by (simp add: ParseInt_def Let_def)
qed

section \<open>Round trips\<close>

lemma digit_of_digit: "0 \<le> d \<Longrightarrow> d < 36 \<Longrightarrow> digit_of (digit d) = Some d"
  by (auto simp: digit_of_def digit_def)

abbreviation digits_value :: "int \<Rightarrow> int \<Rightarrow> int list \<Rightarrow> int" where
  "digits_value c acc ds \<equiv> foldl (\<lambda>a d. a * c + d) acc ds"

lemma digits_value_ge: "0 \<le> acc \<Longrightarrow> 1 \<le> c \<Longrightarrow> \<forall>d \<in> set ds. 0 \<le> d \<Longrightarrow> acc \<le> digits_value c acc ds"
proof (induction ds arbitrary: acc)
  case (Cons d ds)
  have "acc * 1 \<le> acc * c" using Cons.prems(1,2) by (intro mult_left_mono)
  then show ?case using Cons.IH [of "acc * c + d"] Cons.prems by simp
qed simp

lemma digs_range: "2 \<le> c \<Longrightarrow> 0 \<le> v \<Longrightarrow> \<forall>d \<in> set (digs c v). 0 \<le> d \<and> d < c"
proof (induction c v rule: digs.induct)
  case (1 c v)
  show ?case
  proof (cases "v < c")
    case True
    then show ?thesis using "1.prems" by (simp add: digs_small)
  next
    case False
    then have "0 \<le> v div c" using "1.prems" by (simp add: pos_imp_zdiv_nonneg_iff)
    then show ?thesis using False "1.IH" "1.prems" digs_step [of c v] by simp
  qed
qed

lemma digs_value: "2 \<le> c \<Longrightarrow> 0 \<le> v \<Longrightarrow> digits_value c 0 (digs c v) = v"
proof (induction c v rule: digs.induct)
  case (1 c v)
  show ?case
  proof (cases "v < c")
    case True
    then show ?thesis using "1.prems" by (simp add: digs_small)
  next
    case False
    then have "0 \<le> v div c" using "1.prems" by (simp add: pos_imp_zdiv_nonneg_iff)
    then show ?thesis using False "1.IH" "1.prems" digs_step [of c v] by simp
  qed
qed

lemma read_num_digits:
  "2 \<le> c \<Longrightarrow> c \<le> 36 \<Longrightarrow> 0 \<le> acc \<Longrightarrow> \<forall>d \<in> set ds. 0 \<le> d \<and> d < c \<Longrightarrow> digits_value c acc ds \<le> M \<Longrightarrow>
   read_num c M acc (map digit ds) = Inr (digits_value c acc ds)"
proof (induction ds arbitrary: acc)
  case (Cons d ds)
  have "acc * c + d \<le> M" using Cons.prems digits_value_ge [of "acc * c + d" c ds] by simp
  then show ?case using Cons by (simp add: digit_of_digit)
qed simp

lemma text_of_not_Nil: "digs c v \<noteq> []"
  using digs_not_Nil [of c v] by simp

lemma read_text_text_of:
  assumes "2 \<le> c" "c \<le> 36" "0 \<le> v" "v \<le> M"
  shows "read_text c M (text_of c v) = Inr v"
  using read_num_digits [OF assms(1,2) order_refl digs_range [OF assms(1,3)], of M] digs_value [OF assms(1,3)] text_of_not_Nil [of c v] assms
  by (cases "digs c v") (simp_all add: read_text_def del: read_num.simps)

lemma split_sign_int_text:
  assumes "2 \<le> c"
  shows "split_sign (int_text c v) = (v < 0, text_of c \<bar>v\<bar>)"
proof (cases "v < 0")
  case False
  obtain d ds where ds: "digs c v = d # ds" using text_of_not_Nil [of c v] by (cases "digs c v") auto
  have "0 \<le> d" using digs_range [OF assms, of v] False ds by simp
  then have "digit d \<noteq> 45" "digit d \<noteq> 43" by (auto simp: digit_def)
  then show ?thesis using False ds by (simp add: int_text_def split_sign_def)
qed (simp add: int_text_def split_sign_def)

text \<open>
  Reading inverts writing: the text \<open>FormatInt\<close> makes of any 64-bit integer in any base from 2 to 36 is read back by
  \<open>ParseInt\<close> as the same object, without an error.
\<close>

theorem ParseInt_FormatInt:
  assumes "wf64 x" "ctor x = KInt64" "2 \<le> c" "c \<le> 36"
  shows "\<exists>t. FormatInt x c = Some (Inr t) \<and> ParseInt t c 64 = Some (Inr (x, None))"
proof -
  have r: "- (2 ^ 63) \<le> val64 x" "val64 x < 2 ^ 63" using in_range64_val64 [OF assms(1)] assms(2) by (simp_all add: in_range64_def)
  have "0 \<le> \<bar>val64 x\<bar>" "\<bar>val64 x\<bar> \<le> 2 ^ 64 - 1" using r by simp_all
  note rd = read_text_text_of [OF assms(3,4) this]
  have x: "x = int64_of (val64 x)" using r by (intro i64_eqI [OF assms(1,2)]) simp_all
  have "int_result (int_text c (val64 x)) 64 (val64 x < 0) (Inr \<bar>val64 x\<bar>) = (int64_of (val64 x), None)"
    using r by (auto simp: int_result_def)
  then have "ParseInt (int_text c (val64 x)) c 64 = Some (Inr (x, None))"
    using ParseInt_reference [of c 64 "int_text c (val64 x)"] assms(3,4) rd x by (simp add: width_def split_sign_int_text)
  then show ?thesis using FormatInt_text [OF assms] by blast
qed

theorem ParseInt_FormatInt_witness:
  "\<exists>t. FormatInt (int64_of (- 42)) 7 = Some (Inr t) \<and> ParseInt t 7 64 = Some (Inr (int64_of (- 42), None))"
  using ParseInt_FormatInt [of "int64_of (- 42)" 7] by simp

section \<open>The fast path of \<open>Atoi\<close>\<close>

lemma atoi_bytes: "\<forall>g \<in> set [0..255]. (if to_u8 (g - 48) > 9 then \<forall>n \<in> set_option (digit_of g). 10 \<le> n else digit_of g = Some (to_u8 (g - 48)))"
  by code_simp

lemma atoi_loop_read:
  assumes "\<forall>g \<in> set gs. 0 \<le> g \<and> g < 256" "0 \<le> d" "(d + 1) * 10 ^ length gs \<le> 10 ^ 9"
  shows "(\<exists>n. read_num 10 (2 ^ 32 - 1) d gs = Inr n \<and> 0 \<le> n \<and> n < 10 ^ 9 \<and> atoi_loop c d gs = (if hd c = 45 then - n else n, None)) \<or>
     read_num 10 (2 ^ 32 - 1) d gs = Inl ErrSyntax \<and> atoi_loop c d gs = (0, failed ''Atoi'' c ErrSyntax)"
  using assms
proof (induction gs arbitrary: d)
  case (Cons g gs)
  have "g \<in> set [0..255]" using Cons.prems(1) by simp
  note g = atoi_bytes [THEN bspec, OF this]
  show ?case
  proof (cases "to_u8 (g - 48) > 9")
    case True
    then show ?thesis using g by (cases "digit_of g") auto
  next
    case False
    then have n: "digit_of g = Some (to_u8 (g - 48))" using g by simp
    define k where "k = to_u8 (g - 48)"
    have k: "0 \<le> k" "k \<le> 9" using digit_of_range [OF n] False by (simp_all add: k_def)
    have p: "(1::int) \<le> 10 ^ length gs" by simp
    have "(d * 10 + k + 1) * 10 ^ length gs \<le> ((d + 1) * 10) * 10 ^ length gs" using k by (intro mult_right_mono) simp_all
    also have "\<dots> \<le> 10 ^ 9" using Cons.prems(3) by (simp only: length_Cons power_Suc mult.assoc)
    finally have next_le: "(d * 10 + k + 1) * 10 ^ length gs \<le> 10 ^ 9" .
    moreover have "d * 10 + k + 1 \<le> (d * 10 + k + 1) * 10 ^ length gs" using mult_left_mono [OF p, of "d * 10 + k + 1"] k Cons.prems(2) by simp
    ultimately have small: "d * 10 + k + 1 \<le> 10 ^ 9" by (rule order.trans [rotated])
    have "js_sar (js_imul d 10 + js_sar k 0) 0 = d * 10 + k"
      using small k Cons.prems(2) by (simp add: js_imul_def js_sar_eq ToInt32_id)
    then have "atoi_loop c d (g # gs) = atoi_loop c (d * 10 + k) gs" using False by (simp add: k_def Let_def)
    moreover have "read_num 10 (2 ^ 32 - 1) d (g # gs) = read_num 10 (2 ^ 32 - 1) (d * 10 + k) gs"
      using n small k False by (simp add: k_def)
    moreover have "0 \<le> d * 10 + k" "\<forall>g \<in> set gs. 0 \<le> g \<and> g < 256" using k Cons.prems(1,2) by simp_all
    ultimately show ?thesis using Cons.IH [OF _ _ next_le] by metis
  qed
qed auto

lemma to_int32_int64_of: "- (2 ^ 31) \<le> n \<Longrightarrow> n < 2 ^ 31 \<Longrightarrow> to_int32 (int64_of n) = n"
proof -
  assume n: "- (2 ^ 31) \<le> n" "n < 2 ^ 31"
  have "to_int32 (int64_of n) = ToInt32 (n mod 2 ^ 32 + js_sar (high (int64_of n)) 31 * 2 ^ 32)"
    by (simp add: to_int32_def js_sar_eq int64_of_def new64_def ToUint32_def take_bit_eq_mod)
  also have "\<dots> = ToInt32 n" unfolding ToInt32_def signed_take_bit_eq_iff_take_bit_eq
    by (simp add: take_bit_eq_mod)
  finally show ?thesis using n by (simp add: ToInt32_id)
qed

lemma Atoi_fast_path_facts:
  assumes "\<forall>m \<in> set a. 0 \<le> m \<and> m < 256"
  shows "Atoi a = bind2 (ParseInt a 10 0) (\<lambda>(i, e). Some (Inr (to_int32 i, map_option (\<lambda>x. x\<lparr>Func := ''Atoi''\<rparr>) e)))"
proof (cases "0 < length a \<and> length a < 10")
  case True
  let ?rest = "snd (split_sign a)"
  have sub: "set ?rest \<subseteq> set a" "length ?rest \<le> length a" by (auto simp: split_sign_def split: list.splits)
  have "(10::int) ^ length ?rest \<le> 10 ^ 9" using sub(2) True by (intro power_increasing) simp_all
  then have len: "(0 + 1) * (10::int) ^ length ?rest \<le> 10 ^ 9" by simp
  have bytes: "\<forall>g \<in> set ?rest. 0 \<le> g \<and> g < 256" using assms sub(1) by blast
  have neg: "fst (split_sign a) \<longleftrightarrow> hd a = 45" using True by (cases a) (auto simp: split_sign_def)
  have atoi: "Atoi a = (if ?rest = [] then Some (Inr (0, failed ''Atoi'' a ErrSyntax)) else Some (Inr (atoi_loop a 0 ?rest)))"
    using True by (cases a) (auto simp: Atoi_def split_sign_def Suc_le_eq simp del: atoi_loop.simps)
  have rt: "read_text 10 M ?rest = (if ?rest = [] then Inl ErrSyntax else read_num 10 M 0 ?rest)" for M
    by (simp add: read_text_def del: read_num.simps split: list.splits)
  have slow: "ParseInt a 10 0 = Some (Inr (int_result a 32 (hd a = 45) (if ?rest = [] then Inl ErrSyntax else read_num 10 (2 ^ 32 - 1) 0 ?rest)))"
    using ParseInt_reference [of 10 0 a] neg by (simp add: width_def rt)
  have i32: "to_int32 (int64_of n) = n" if "- (2 ^ 31) \<le> n" "n < 2 ^ 31" for n
    using that by (simp add: to_int32_int64_of)
  have syn: "int_result a 32 s (Inl ErrSyntax) = (int64_of 0, failed ''ParseInt'' a ErrSyntax)" for s by (simp add: int_result_def)
  have ok: "int_result a 32 s (Inr n) = (int64_of (if s then - n else n), None)" if "0 \<le> n" "n < 10 ^ 9" for s n
    using that by (simp add: int_result_def)
  show ?thesis
  proof (cases "?rest = []")
    case True
    then show ?thesis using atoi slow syn i32 [of 0] by (simp add: failed_def)
  next
    case False
    from atoi_loop_read [OF bytes order_refl len, of a] show ?thesis
      using False atoi slow syn ok i32 i32 [of 0] by (auto simp: failed_def)
  qed
next
  case False
  then show ?thesis by (auto simp: Atoi_def)
qed

theorem Atoi_fast_path:
  assumes "\<forall>m \<in> set a. 0 \<le> m \<and> m < 256"
  shows "Atoi a = bind2 (ParseInt a 10 0) (\<lambda>(i, e). Some (Inr (to_int32 i, map_option (\<lambda>x. x\<lparr>Func := ''Atoi''\<rparr>) e)))"
  using assms by (rule Atoi_fast_path_facts)

theorem Atoi_fast_path_witness:
  "Atoi (map of_char ''-73'') =
     bind2 (ParseInt (map of_char ''-73'') 10 0) (\<lambda>(i, e). Some (Inr (to_int32 i, map_option (\<lambda>x. x\<lparr>Func := ''Atoi''\<rparr>) e)))"
  by (rule Atoi_fast_path) simp

lemma ParseInt_int_text:
  assumes "- (2 ^ 31) \<le> n" "n < 2 ^ 31"
  shows "ParseInt (int_text 10 n) 10 0 = Some (Inr (int64_of n, None))"
proof -
  have "0 \<le> \<bar>n\<bar>" "\<bar>n\<bar> \<le> 2 ^ 32 - 1" using assms by simp_all
  note rd = read_text_text_of [of 10, OF _ _ this]
  have "int_result (int_text 10 n) 32 (n < 0) (Inr \<bar>n\<bar>) = (int64_of n, None)" using assms by (auto simp: int_result_def)
  then show ?thesis using ParseInt_reference [of 10 0 "int_text 10 n"] rd by (simp add: width_def split_sign_int_text)
qed

lemma digit_byte: "0 \<le> d \<and> d < 10 \<Longrightarrow> 0 \<le> digit d \<and> digit d < 256"
  by (simp add: digit_def)

theorem Atoi_Itoa:
  assumes "- (2 ^ 31) \<le> n" "n < 2 ^ 31"
  shows "\<exists>t. Itoa n = Some (Inr t) \<and> Atoi t = Some (Inr (n, None))"
proof -
  have "\<forall>d \<in> set (digs 10 \<bar>n\<bar>). 0 \<le> d \<and> d < 10" by (rule digs_range) simp_all
  then have "\<forall>m \<in> set (text_of 10 \<bar>n\<bar>). 0 \<le> m \<and> m < 256" using digit_byte by simp
  then have "\<forall>m \<in> set (int_text 10 n). 0 \<le> m \<and> m < 256" by (cases "n < 0") (auto simp: int_text_def)
  from Atoi_fast_path_facts [OF this] have "Atoi (int_text 10 n) = Some (Inr (n, None))"
    using ParseInt_int_text [OF assms] to_int32_int64_of [OF assms] by simp
  then show ?thesis using Itoa_text [of n] assms by simp
qed

theorem Atoi_Itoa_witness: "\<exists>t. Itoa (- 2147483648) = Some (Inr t) \<and> Atoi t = Some (Inr (- 2147483648, None))"
  using Atoi_Itoa [of "- 2147483648"] by simp

end
