(* ===== verification/Container_Heap.thy ===== *)
theory Container_Heap
  imports Prelude "HOL-Library.Multiset"
begin

text \<open>
  Package \<open>container/heap\<close>: \<open>Push\<close>, \<open>Pop\<close> and the sift loops \<open>up\<close> (\<open>H\<close> in the bundle) and \<open>down\<close> (\<open>I\<close>).
  They work on any value of the interface \<open>heap.Interface\<close>; its five methods are the fields of the
  record below, with the panics a method may raise.  The locale \<open>heap_interface\<close> states what the
  package relies on: the container is a list that \<open>Less\<close> compares by key, \<open>Swap\<close> exchanges, \<open>Push\<close>
  extends and \<open>Pop\<close> shortens at its end.
\<close>

section \<open>The package\<close>

record ('h, 'x) heap_iface =
  iface_Len :: "'h \<Rightarrow> int"
  iface_Less :: "'h \<Rightarrow> int \<Rightarrow> int \<Rightarrow> bool res"
  iface_Swap :: "'h \<Rightarrow> int \<Rightarrow> int \<Rightarrow> 'h res"
  iface_Push :: "'h \<Rightarrow> 'x \<Rightarrow> 'h"
  iface_Pop :: "'h \<Rightarrow> ('x \<times> 'h) res"

partial_function (option) heap_up :: "('h, 'x) heap_iface \<Rightarrow> 'h \<Rightarrow> int \<Rightarrow> 'h res option" where
  "heap_up I h b =
     (let d = tdiv (js_sar (b - 1) 0) 2 in
      if d = b then Some (Inr h)
      else case iface_Less I h b d of
             Inl p \<Rightarrow> Some (Inl p)
           | Inr l \<Rightarrow>
               if \<not> l then Some (Inr h)
               else case iface_Swap I h d b of
                      Inl p \<Rightarrow> Some (Inl p)
                    | Inr h' \<Rightarrow> heap_up I h' d)"

text \<open>The loop of \<open>down\<close> ends with the position the element came to.\<close>

partial_function (option) heap_down_loop :: "('h, 'x) heap_iface \<Rightarrow> 'h \<Rightarrow> int \<Rightarrow> int \<Rightarrow> (int \<times> 'h) res option" where
  "heap_down_loop I h d c =
     (let e = js_sar (js_imul 2 d + 1) 0; g = js_sar (e + 1) 0 in
      if e \<ge> c \<or> e < 0 then Some (Inr (d, h))
      else case (if \<not> g < c then Inr False else iface_Less I h g e) of
             Inl p \<Rightarrow> Some (Inl p)
           | Inr right \<Rightarrow>
               (let f = (if right then g else e) in
                case iface_Less I h f d of
                  Inl p \<Rightarrow> Some (Inl p)
                | Inr l \<Rightarrow>
                    if \<not> l then Some (Inr (d, h))
                    else case iface_Swap I h d f of
                           Inl p \<Rightarrow> Some (Inl p)
                         | Inr h' \<Rightarrow> heap_down_loop I h' f c))"

definition heap_down :: "('h, 'x) heap_iface \<Rightarrow> 'h \<Rightarrow> int \<Rightarrow> int \<Rightarrow> (bool \<times> 'h) res option" where
  "heap_down I h b c = (case heap_down_loop I h b c of
       None \<Rightarrow> None | Some (Inl p) \<Rightarrow> Some (Inl p) | Some (Inr (d, h')) \<Rightarrow> Some (Inr (d > b, h')))"

definition heap_Push :: "('h, 'x) heap_iface \<Rightarrow> 'h \<Rightarrow> 'x \<Rightarrow> 'h res option" where
  "heap_Push I h x = (let h1 = iface_Push I h x in heap_up I h1 (js_sar (iface_Len I h1 - 1) 0))"

definition heap_Pop :: "('h, 'x) heap_iface \<Rightarrow> 'h \<Rightarrow> ('x \<times> 'h) res option" where
  "heap_Pop I h =
     (let c = js_sar (iface_Len I h - 1) 0 in
      case iface_Swap I h 0 c of
        Inl p \<Rightarrow> Some (Inl p)
      | Inr h' \<Rightarrow>
          (case heap_down I h' 0 c of
             None \<Rightarrow> None
           | Some (Inl p) \<Rightarrow> Some (Inl p)
           | Some (Inr (_, h'')) \<Rightarrow> Some (iface_Pop I h'')))"

section \<open>Heaps as lists\<close>

definition swap_list :: "nat \<Rightarrow> nat \<Rightarrow> 'x list \<Rightarrow> 'x list" where
  "swap_list i j xs = xs[i := xs ! j, j := xs ! i]"

lemma length_swap_list [simp]: "length (swap_list i j xs) = length xs"
  by (simp add: swap_list_def)

lemma swap_list_nth:
  "i < length xs \<Longrightarrow> j < length xs \<Longrightarrow> swap_list i j xs ! k = (if k = j then xs ! i else if k = i then xs ! j else xs ! k)"
  by (simp add: swap_list_def nth_list_update)

lemma mset_swap_list [simp]: "i < length xs \<Longrightarrow> j < length xs \<Longrightarrow> mset (swap_list i j xs) = mset xs"
  by (cases "i = j") (simp_all add: swap_list_def mset_swap)

text \<open>The first \<open>n\<close> elements are ordered like a heap: no key is below its parent's.\<close>

definition heap_ordered :: "('x \<Rightarrow> 'k::linorder) \<Rightarrow> nat \<Rightarrow> 'x list \<Rightarrow> bool" where
  "heap_ordered key n xs \<longleftrightarrow> (\<forall>i. 0 < i \<and> i < n \<longrightarrow> key (xs ! ((i - 1) div 2)) \<le> key (xs ! i))"

definition up_inv :: "('x \<Rightarrow> 'k::linorder) \<Rightarrow> nat \<Rightarrow> 'x list \<Rightarrow> bool" where
  "up_inv key j xs \<longleftrightarrow> j < length xs \<and>
     (\<forall>i. 0 < i \<and> i < length xs \<and> i \<noteq> j \<longrightarrow> key (xs ! ((i - 1) div 2)) \<le> key (xs ! i)) \<and>
     (\<forall>i. 0 < i \<and> i < length xs \<and> (i - 1) div 2 = j \<and> 0 < j \<longrightarrow> key (xs ! ((j - 1) div 2)) \<le> key (xs ! i))"

lemma up_inv_start: "heap_ordered key (length xs) xs \<Longrightarrow> up_inv key (length xs) (xs @ [x])"
proof -
  assume h: "heap_ordered key (length xs) xs"
  have "(i - Suc 0) div 2 \<noteq> length xs" if "i < Suc (length xs)" "xs \<noteq> []" for i
  proof -
    have "0 < length xs" using that(2) by simp
    then show ?thesis using that(1) by presburger
  qed
  then show ?thesis using h by (auto simp: up_inv_def heap_ordered_def nth_append)
qed

lemma up_inv_done: "up_inv key j xs \<Longrightarrow> j = 0 \<or> \<not> key (xs ! j) < key (xs ! ((j - 1) div 2)) \<Longrightarrow> heap_ordered key (length xs) xs"
  by (auto simp: up_inv_def heap_ordered_def not_less)

lemma up_inv_swap:
  assumes "up_inv key j xs" "0 < j" "key (xs ! j) < key (xs ! ((j - 1) div 2))"
  shows "up_inv key ((j - 1) div 2) (swap_list ((j - 1) div 2) j xs)"
proof -
  define p where "p = (j - 1) div 2"
  let ?ys = "swap_list p j xs"
  have j: "j < length xs" "p < length xs" "p < j" using assms(1,2) by (auto simp: up_inv_def p_def)
  have lt: "key (xs ! j) < key (xs ! p)" using assms(3) by (simp add: p_def)
  note nth = swap_list_nth [OF j(2,1)]
  have ord: "\<And>i. 0 < i \<Longrightarrow> i < length xs \<Longrightarrow> i \<noteq> j \<Longrightarrow> key (xs ! ((i - 1) div 2)) \<le> key (xs ! i)"
    and ch: "\<And>i. 0 < i \<Longrightarrow> i < length xs \<Longrightarrow> (i - 1) div 2 = j \<Longrightarrow> key (xs ! p) \<le> key (xs ! i)"
    using assms(1,2) by (auto simp: up_inv_def p_def)
  have "key (?ys ! ((i - 1) div 2)) \<le> key (?ys ! i)" if i: "0 < i" "i < length xs" "i \<noteq> p" for i
  proof -
    define q where "q = (i - 1) div 2"
    have ij: "i = j \<Longrightarrow> q = p" by (simp add: q_def p_def)
    have "key (?ys ! q) \<le> key (?ys ! i)"
    proof (cases "i = j")
      case True
      then show ?thesis using lt j ij by (simp add: nth)
    next
      case False
      have o: "key (xs ! q) \<le> key (xs ! i)" using ord [OF i(1,2) False] by (simp add: q_def)
      have c: "q = j \<Longrightarrow> key (xs ! p) \<le> key (xs ! i)" using ch [OF i(1,2)] by (simp add: q_def)
      show ?thesis using False i(3) o c lt j by (cases "q = j"; cases "q = p") (simp_all add: nth)
    qed
    then show ?thesis by (simp add: q_def)
  qed
  moreover have "key (?ys ! ((p - 1) div 2)) \<le> key (?ys ! i)"
    if i: "0 < i" "i < length xs" "(i - 1) div 2 = p" "0 < p" for i
  proof -
    define q where "q = (p - 1) div 2"
    have q: "q < p" using i(4) by (simp add: q_def)
    have le: "key (xs ! q) \<le> key (xs ! p)" using ord [of p] i(4) j by (simp add: q_def)
    have "?ys ! q = xs ! q" using q j by (simp add: nth)
    moreover have "key (xs ! p) \<le> key (?ys ! i)"
    proof (cases "i = j")
      case False
      then have "key (xs ! p) \<le> key (xs ! i)" using ord [OF i(1,2)] i(3) by simp
      moreover have "i \<noteq> p" using i by auto
      ultimately show ?thesis using False by (simp add: nth)
    qed (simp add: nth)
    ultimately show ?thesis using le by (simp add: q_def)
  qed
  ultimately have "up_inv key p ?ys" using j by (simp add: up_inv_def)
  then show ?thesis by (simp add: p_def)
qed

definition down_inv :: "('x \<Rightarrow> 'k::linorder) \<Rightarrow> nat \<Rightarrow> nat \<Rightarrow> 'x list \<Rightarrow> bool" where
  "down_inv key n j xs \<longleftrightarrow>
     (\<forall>i. 0 < i \<and> i < n \<and> (i - 1) div 2 \<noteq> j \<longrightarrow> key (xs ! ((i - 1) div 2)) \<le> key (xs ! i)) \<and>
     (\<forall>i. 0 < i \<and> i < n \<and> (i - 1) div 2 = j \<and> 0 < j \<longrightarrow> key (xs ! ((j - 1) div 2)) \<le> key (xs ! i))"

lemma children: "0 < i \<Longrightarrow> (i - 1) div 2 = j \<longleftrightarrow> i = 2 * j + 1 \<or> i = 2 * j + (2::nat)"
  by presburger

lemma down_inv_done:
  assumes "down_inv key n j xs"
    and "\<And>i. i < n \<Longrightarrow> i = 2 * j + 1 \<or> i = 2 * j + 2 \<Longrightarrow> key (xs ! j) \<le> key (xs ! i)"
  shows "heap_ordered key n xs"
  unfolding heap_ordered_def
proof (intro allI impI)
  fix i assume i: "0 < i \<and> i < n"
  show "key (xs ! ((i - 1) div 2)) \<le> key (xs ! i)"
  proof (cases "(i - 1) div 2 = j")
    case True
    then have "i = 2 * j + 1 \<or> i = 2 * j + 2" using children i by blast
    then show ?thesis using assms(2) [of i] i unfolding True by blast
  next
    case False
    then show ?thesis using assms(1) i unfolding down_inv_def by blast
  qed
qed

lemma down_inv_swap:
  assumes "down_inv key n j xs" "n \<le> length xs" "f < n" "f = 2 * j + 1 \<or> f = 2 * j + 2"
    and "key (xs ! f) < key (xs ! j)"
    and "\<And>i. i < n \<Longrightarrow> i = 2 * j + 1 \<or> i = 2 * j + 2 \<Longrightarrow> key (xs ! f) \<le> key (xs ! i)"
  shows "down_inv key n f (swap_list j f xs)"
proof -
  let ?ys = "swap_list j f xs"
  have fj: "(f - 1) div 2 = j" "j < f" "0 < f" using assms(4) by auto
  have len: "j < length xs" "f < length xs" using assms(2,3) fj by auto
  note nth = swap_list_nth [OF len]
  have ord: "\<And>i. 0 < i \<Longrightarrow> i < n \<Longrightarrow> (i - 1) div 2 \<noteq> j \<Longrightarrow> key (xs ! ((i - 1) div 2)) \<le> key (xs ! i)"
    and up: "\<And>i. 0 < i \<Longrightarrow> i < n \<Longrightarrow> (i - 1) div 2 = j \<Longrightarrow> 0 < j \<Longrightarrow> key (xs ! ((j - 1) div 2)) \<le> key (xs ! i)"
    using assms(1) by (auto simp: down_inv_def)
  have "key (?ys ! ((i - 1) div 2)) \<le> key (?ys ! i)" if i: "0 < i" "i < n" "(i - 1) div 2 \<noteq> f" for i
  proof (cases "(i - 1) div 2 = j")
    case True
    then have c: "i = 2 * j + 1 \<or> i = 2 * j + 2" using children i(1) by blast
    have "?ys ! j = xs ! f" using fj by (simp add: nth)
    moreover have "key (xs ! f) \<le> key (?ys ! i)"
      using assms(6) [OF i(2) c] assms(5) c by (auto simp: nth)
    ultimately show ?thesis unfolding True by simp
  next
    case False
    have p: "?ys ! ((i - 1) div 2) = xs ! ((i - 1) div 2)" using False i(3) by (simp add: nth)
    show ?thesis
    proof (cases "i = j")
      case True
      then have "key (xs ! ((j - 1) div 2)) \<le> key (xs ! f)" using up [of f] fj assms(3) i(1) by simp
      then show ?thesis using True fj p by (simp add: nth)
    next
      case ij: False
      have "i \<noteq> f" using False fj by auto
      then show ?thesis using ord [OF i(1,2) False] p ij by (simp add: nth)
    qed
  qed
  moreover have "key (?ys ! ((f - 1) div 2)) \<le> key (?ys ! i)" if i: "0 < i" "i < n" "(i - 1) div 2 = f" for i
  proof -
    have c: "i = 2 * f + 1 \<or> i = 2 * f + 2" using children i(1,3) by blast
    then have "i \<noteq> j" "i \<noteq> f" using fj by auto
    moreover have "key (xs ! f) \<le> key (xs ! i)" using ord [OF i(1,2)] i(3) fj by simp
    ultimately show ?thesis using fj by (simp add: nth)
  qed
  ultimately show ?thesis by (simp add: down_inv_def)
qed

lemma heap_ordered_root:
  assumes "heap_ordered key n xs" "i < n"
  shows "key (xs ! 0) \<le> key (xs ! i)"
  using assms(2)
proof (induction i rule: less_induct)
  case (less i)
  show ?case
  proof (cases "i = 0")
    case False
    then have "key (xs ! 0) \<le> key (xs ! ((i - 1) div 2))" using less.prems by (intro less.IH) auto
    also have "\<dots> \<le> key (xs ! i)" using assms(1) False less.prems by (simp add: heap_ordered_def)
    finally show ?thesis .
  qed simp
qed

section \<open>The contract of the interface\<close>

locale heap_interface =
  fixes I :: "('h, 'x) heap_iface" and els :: "'h \<Rightarrow> 'x list" and key :: "'x \<Rightarrow> 'k::linorder"
    and ok :: "'x \<Rightarrow> bool"
  assumes Len: "iface_Len I h = int (length (els h))"
    and Less: "\<forall>x \<in> set (els h). ok x \<Longrightarrow> i < length (els h) \<Longrightarrow> j < length (els h) \<Longrightarrow>
      iface_Less I h (int i) (int j) = Inr (key (els h ! i) < key (els h ! j))"
    and Swap: "i < length (els h) \<Longrightarrow> j < length (els h) \<Longrightarrow>
      \<exists>h'. iface_Swap I h (int i) (int j) = Inr h' \<and> els h' = swap_list i j (els h)"
    and Push: "els (iface_Push I h x) = els h @ [x]"
    and Pop: "els h \<noteq> [] \<Longrightarrow> \<exists>h'. iface_Pop I h = Inr (last (els h), h') \<and> els h' = butlast (els h)"
begin

definition ok_heap :: "'h \<Rightarrow> bool" where
  "ok_heap h \<longleftrightarrow> (\<forall>x \<in> set (els h). ok x) \<and> length (els h) < 2 ^ 30"

lemma set_swap: "i < length xs \<Longrightarrow> j < length xs \<Longrightarrow> set (swap_list i j xs) = set xs"
  using mset_swap_list [of i xs j] by (metis set_mset_mset)

lemma parent_index:
  "j < 2 ^ 30 \<Longrightarrow> tdiv (js_sar (int j - 1) 0) 2 = (if j = 0 then 0 else int ((j - 1) div 2))"
proof (cases j)
  case 0
  have "js_sar (- 1) 0 = - 1" by (simp add: js_sar_eq ToInt32_id)
  then show ?thesis using 0 by (simp add: tdiv_def)
next
  case (Suc k)
  moreover assume "j < 2 ^ 30"
  ultimately have "js_sar (int j - 1) 0 = int k" by (simp add: js_sar_eq ToInt32_id)
  then show ?thesis using Suc by (cases "k = 0") (simp_all add: tdiv_def sgn_if zdiv_int)
qed

lemma child_index:
  "Suc d < 2 ^ 30 \<Longrightarrow> js_sar (js_imul 2 (int d) + 1) 0 = int (2 * d + 1) \<and> js_sar (int (2 * d + 1) + 1) 0 = int (2 * d + 2)"
  by (simp add: js_sar_eq js_imul_def ToInt32_id)

lemma up_correct:
  assumes "ok_heap h" "up_inv key j (els h)"
  shows "\<exists>h'. heap_up I h (int j) = Some (Inr h') \<and> mset (els h') = mset (els h) \<and>
    heap_ordered key (length (els h')) (els h')"
  using assms
proof (induction j arbitrary: h rule: less_induct)
  case (less j)
  have j: "j < length (els h)" using less.prems(2) by (simp add: up_inv_def)
  then have small: "j < 2 ^ 30" using less.prems(1) by (simp add: ok_heap_def)
  show ?case
  proof (cases "j = 0")
    case True
    then have "heap_up I h (int j) = Some (Inr h)" using parent_index [OF small] by (subst heap_up.simps) simp
    then show ?thesis using up_inv_done [OF less.prems(2)] True by simp
  next
    case False
    define p where "p = (j - 1) div 2"
    have p: "p < j" "p < length (els h)" using False j by (simp_all add: p_def)
    have d: "tdiv (js_sar (int j - 1) 0) 2 = int p" using parent_index [OF small] False by (simp add: p_def)
    have l: "iface_Less I h (int j) (int p) = Inr (key (els h ! j) < key (els h ! p))"
      using less.prems(1) j p by (intro Less) (simp_all add: ok_heap_def)
    show ?thesis
    proof (cases "key (els h ! j) < key (els h ! p)")
      case True
      from Swap [OF p(2) j] obtain h1 where h1: "iface_Swap I h (int p) (int j) = Inr h1" "els h1 = swap_list p j (els h)"
        by blast
      have "ok_heap h1" using less.prems(1) p j by (simp add: ok_heap_def h1(2) set_swap)
      moreover have "up_inv key p (els h1)"
        using up_inv_swap [OF less.prems(2)] False True by (simp add: h1(2) p_def)
      ultimately obtain h2 where "heap_up I h1 (int p) = Some (Inr h2)" "mset (els h2) = mset (els h1)"
        "heap_ordered key (length (els h2)) (els h2)"
        using less.IH [OF p(1)] by blast
      then show ?thesis using p j d l True h1 by (subst heap_up.simps) (simp add: Let_def)
    next
      case le: False
      then have "heap_up I h (int j) = Some (Inr h)" using p d l by (subst heap_up.simps) (simp add: Let_def)
      then show ?thesis using up_inv_done [OF less.prems(2)] le by (simp add: p_def)
    qed
  qed
qed

lemma down_correct:
  assumes "ok_heap h" "n \<le> length (els h)" "down_inv key n j (els h)" "j < length (els h)"
  shows "\<exists>d h'. heap_down_loop I h (int j) (int n) = Some (Inr (d, h')) \<and> mset (els h') = mset (els h) \<and>
    drop n (els h') = drop n (els h) \<and> heap_ordered key n (els h')"
  using assms
proof (induction "n - j" arbitrary: j h rule: less_induct)
  case less
  have small: "Suc j < 2 ^ 30" using less.prems(1,4) by (simp add: ok_heap_def)
  note ix = child_index [OF small]
  let ?e = "2 * j + 1" and ?g = "2 * j + 2"
  let ?k = "\<lambda>i. key (els h ! i)"
  show ?case
  proof (cases "?e < n")
    case False
    then have "heap_down_loop I h (int j) (int n) = Some (Inr (int j, h))"
      using ix by (subst heap_down_loop.simps) (simp add: Let_def)
    then show ?thesis using down_inv_done [OF less.prems(3)] False by simp
  next
    case e: True
    define f where "f = (if ?g < n \<and> ?k ?g < ?k ?e then ?g else ?e)"
    have f: "f < n" "f = ?e \<or> f = ?g" "j < f" using e by (auto simp: f_def)
    have fmin: "?k f \<le> ?k i" if "i < n" "i = ?e \<or> i = ?g" for i
      using that by (auto simp: f_def not_less)
    have right: "(if \<not> int ?g < int n then Inr False else iface_Less I h (int ?g) (int ?e))
        = Inr (?g < n \<and> ?k ?g < ?k ?e)"
    proof (cases "?g < n")
      case True
      then have "iface_Less I h (int ?g) (int ?e) = Inr (?k ?g < ?k ?e)"
        using less.prems(1,2) e by (intro Less) (simp_all add: ok_heap_def)
      with True show ?thesis by (simp only: of_nat_less_iff if_False not_not) simp
    qed simp
    have l: "iface_Less I h (int f) (int j) = Inr (?k f < ?k j)"
      using less.prems f by (intro Less) (simp_all add: ok_heap_def)
    have step: "heap_down_loop I h (int j) (int n) =
        (if \<not> ?k f < ?k j then Some (Inr (int j, h))
         else case iface_Swap I h (int j) (int f) of Inl p \<Rightarrow> Some (Inl p)
            | Inr h' \<Rightarrow> heap_down_loop I h' (int f) (int n))"
    proof -
      have ff: "(if ?g < n \<and> ?k ?g < ?k ?e then int ?g else int ?e) = int f" by (simp add: f_def)
      show ?thesis
        by (subst heap_down_loop.simps)
          (simp only: ix Let_def right sum.case ff l not_not, use e in simp)
    qed
    show ?thesis
    proof (cases "?k f < ?k j")
      case True
      from Swap [of j h f] less.prems f obtain h1 where
        h1: "iface_Swap I h (int j) (int f) = Inr h1" "els h1 = swap_list j f (els h)" by auto
      have "ok_heap h1" "f < length (els h1)"
        using less.prems f by (simp_all add: ok_heap_def h1(2) set_swap)
      moreover have "down_inv key n f (els h1)"
        unfolding h1(2) by (rule down_inv_swap [OF less.prems(3,2) f(1,2) True fmin])
      moreover have "n \<le> length (els h1)" using less.prems(2) by (simp add: h1(2))
      moreover have "n - f < n - j" using f by simp
      ultimately obtain d h2 where "heap_down_loop I h1 (int f) (int n) = Some (Inr (d, h2))"
        "mset (els h2) = mset (els h1)" "drop n (els h2) = drop n (els h1)" "heap_ordered key n (els h2)"
        using less.hyps by blast
      moreover have "drop n (els h1) = drop n (els h)" "mset (els h1) = mset (els h)"
        using f less.prems by (simp_all add: h1(2) swap_list_def mset_swap_list [unfolded swap_list_def])
      ultimately show ?thesis using True h1(1) step by simp
    next
      case False
      then have "?k j \<le> ?k i" if "i < n" "i = ?e \<or> i = ?g" for i
        using fmin [OF that] by (simp add: not_less)
      then show ?thesis using False step down_inv_done [OF less.prems(3)] by simp
    qed
  qed
qed

lemma Push_correct:
  assumes "ok_heap h" "ok x" "Suc (length (els h)) < 2 ^ 30" "heap_ordered key (length (els h)) (els h)"
  shows "\<exists>h'. heap_Push I h x = Some (Inr h') \<and> mset (els h') = add_mset x (mset (els h)) \<and>
    heap_ordered key (length (els h')) (els h')"
proof -
  let ?h = "iface_Push I h x"
  have e: "els ?h = els h @ [x]" by (rule Push)
  have "ok_heap ?h" using assms(1-3) by (auto simp: ok_heap_def e)
  moreover have "up_inv key (length (els h)) (els ?h)" unfolding e by (rule up_inv_start [OF assms(4)])
  ultimately obtain h' where "heap_up I ?h (int (length (els h))) = Some (Inr h')" "mset (els h') = mset (els ?h)"
    "heap_ordered key (length (els h')) (els h')"
    using up_correct by blast
  moreover have "js_sar (iface_Len I ?h - 1) 0 = int (length (els h))"
    using assms(3) by (simp add: Len e js_sar_eq ToInt32_id)
  ultimately show ?thesis by (simp add: heap_Push_def Let_def e)
qed

lemma Pop_correct:
  assumes "ok_heap h" "els h \<noteq> []" "heap_ordered key (length (els h)) (els h)"
  shows "\<exists>x h'. heap_Pop I h = Some (Inr (x, h')) \<and> mset (els h) = add_mset x (mset (els h')) \<and>
    (\<forall>y \<in> set (els h). key x \<le> key y) \<and> heap_ordered key (length (els h')) (els h')"
proof -
  define n where "n = length (els h) - 1"
  have len: "length (els h) = Suc n" using assms(2) by (cases "els h") (simp_all add: n_def)
  have c: "js_sar (iface_Len I h - 1) 0 = int n"
    using assms(1) len by (simp add: Len js_sar_eq ToInt32_id ok_heap_def)
  from Swap [of 0 h n] len obtain h1 where h1: "iface_Swap I h 0 (int n) = Inr h1" "els h1 = swap_list 0 n (els h)"
    by auto
  have ok1: "ok_heap h1" using assms(1) len by (simp add: ok_heap_def h1(2) set_swap)
  have "down_inv key n 0 (els h1)"
    using assms(3) len by (auto simp: down_inv_def heap_ordered_def h1(2) swap_list_nth)
  from down_correct [OF ok1 _ this] len obtain d h2 where h2: "heap_down_loop I h1 0 (int n) = Some (Inr (d, h2))"
    "mset (els h2) = mset (els h1)" "drop n (els h2) = drop n (els h1)" "heap_ordered key n (els h2)"
    by (auto simp: h1(2))
  have len2: "length (els h2) = Suc n" using h2(2) len by (metis h1(2) length_swap_list size_mset)
  then have ne: "els h2 \<noteq> []" by auto
  have "last (els h2) = els h2 ! n" using ne len2 by (simp add: last_conv_nth)
  also have "\<dots> = drop n (els h2) ! 0" using len2 by simp
  also have "\<dots> = els h ! 0" using len by (simp add: h2(3) h1(2) swap_list_nth)
  finally have lst: "last (els h2) = els h ! 0" .
  from Pop [OF ne] obtain h3 where h3: "iface_Pop I h2 = Inr (els h ! 0, h3)" "els h3 = butlast (els h2)"
    by (auto simp: lst)
  have "els h2 = els h3 @ [els h ! 0]" using ne lst by (metis append_butlast_last_id h3(2))
  then have "mset (els h2) = add_mset (els h ! 0) (mset (els h3))" by simp
  then have "mset (els h) = add_mset (els h ! 0) (mset (els h3))" using len h2(2) by (simp add: h1(2))
  moreover have "heap_ordered key (length (els h3)) (els h3)"
    using h2(4) len2 by (auto simp: heap_ordered_def h3(2) nth_butlast)
  moreover have "\<forall>y \<in> set (els h). key (els h ! 0) \<le> key y"
    using heap_ordered_root [OF assms(3)] by (auto simp: in_set_conv_nth)
  moreover have "heap_Pop I h = Some (Inr (els h ! 0, h3))"
    by (simp add: heap_Pop_def c h1(1) heap_down_def h2(1) h3(1) Let_def)
  ultimately show ?thesis by blast
qed

lemma Pop_empty:
  assumes "els h = []" "iface_Swap I h 0 (- 1) = Inl p"
  shows "heap_Pop I h = Some (Inl p)"
proof -
  have "js_sar (- 1) 0 = - 1" by (simp add: js_sar_eq ToInt32_id)
  then show ?thesis using assms by (simp add: heap_Pop_def Len Let_def)
qed

end

end
