(* ===== verification/Smux_Frame.thy ===== *)
theory Smux_Frame
  imports Encoding_Binary Errors Container_Heap Io
begin

text \<open>
  The protocol level of smux: frames and their 8-byte header (\<open>Q\<close>, \<open>S\<close>, \<open>R\<close> of the bundle's smux line), the
  8-byte window update (\<open>T\<close>), the configuration (\<open>U\<close>, \<open>V\<close>, \<open>W\<close>), the encoding of a frame by
  \<open>sendLoop\<close>, and the queue of write requests of \<open>shaperLoop\<close>, a heap ordered by priority (\<open>AE\<close>).
\<close>

section \<open>Frames\<close>

text \<open>The commands of the protocol, as \<open>recvLoop\<close> and the writers use them.\<close>

definition cmdSYN :: int where "cmdSYN = 0"
definition cmdFIN :: int where "cmdFIN = 1"
definition cmdPSH :: int where "cmdPSH = 2"
definition cmdNOP :: int where "cmdNOP = 3"
definition cmdUPD :: int where "cmdUPD = 4"

lemmas cmd_defs = cmdSYN_def cmdFIN_def cmdPSH_def cmdNOP_def cmdUPD_def

record frame =
  ver :: int
  cmd :: int
  sid :: int
  data :: "int list"

definition newFrame :: "int \<Rightarrow> int \<Rightarrow> int \<Rightarrow> frame" where
  "newFrame version c i = \<lparr>ver = version, cmd = c, sid = i, data = []\<rparr>"

text \<open>The accessors of a raw header, an array of eight bytes.\<close>

definition hdr_Version :: "int list \<Rightarrow> int" where "hdr_Version h = h ! 0"
definition hdr_Cmd :: "int list \<Rightarrow> int" where "hdr_Cmd h = h ! 1"
definition hdr_Length :: "int list \<Rightarrow> int res" where "hdr_Length h = LE_Uint16 (drop 2 h)"
definition hdr_StreamID :: "int list \<Rightarrow> int res" where "hdr_StreamID h = LE_Uint32 (drop 4 h)"

definition upd_Consumed :: "int list \<Rightarrow> int res" where "upd_Consumed h = LE_Uint32 h"
definition upd_Window :: "int list \<Rightarrow> int res" where "upd_Window h = LE_Uint32 (drop 4 h)"

text \<open>The data of the frame \<open>sendWindowUpdate\<close> sends.\<close>

definition window_update :: "int \<Rightarrow> int \<Rightarrow> int list res" where
  "window_update consumed maxStreamBuffer =
     res_bind (LE_PutUint32 (replicate 8 0) consumed) (\<lambda>b.
     res_bind (LE_PutUint32 (drop 4 b) (js_shr maxStreamBuffer 0)) (\<lambda>c. Inr (take 4 b @ c)))"

text \<open>
  The encoding in \<open>sendLoop\<close> with its buffer \<open>b\<close> (65544 bytes, kept between frames) for a connection
  without \<open>WriteBuffers\<close>: the new contents of the buffer and the bytes passed to \<open>conn.Write\<close>.
\<close>

definition encode_frame :: "int list \<Rightarrow> frame \<Rightarrow> (int list \<times> int list) res" where
  "encode_frame b k =
     res_bind (if 1 < length b then Inr (b[0 := ver k, 1 := cmd k]) else out_of_range) (\<lambda>b.
     res_bind (LE_PutUint16 (drop 2 b) (to_u16 (int (length (data k))))) (\<lambda>c.
     let b = take 2 b @ c in
     res_bind (LE_PutUint32 (drop 4 b) (sid k)) (\<lambda>c.
     let b = take 4 b @ c;
         n = min (length b - 8) (length (data k));
         b = take 8 b @ take n (data k) @ drop (8 + n) b
     in if length b < 8 + length (data k) then Inl (RuntimeError ''slice bounds out of range'')
        else Inr (b, take (8 + length (data k)) b))))"

definition frame_ok :: "frame \<Rightarrow> bool" where
  "frame_ok k \<longleftrightarrow> 0 \<le> ver k \<and> ver k < 256 \<and> 0 \<le> cmd k \<and> cmd k < 256 \<and> u32_ok (sid k) \<and>
     length (data k) < 65536"

definition header_bytes :: "frame \<Rightarrow> int list" where
  "header_bytes k = [ver k, cmd k] @ le_bytes 2 (int (length (data k))) @ le_bytes 4 (sid k)"

lemma length_header_bytes [simp]: "length (header_bytes k) = 8"
  by (simp add: header_bytes_def)

lemma encode_frame_bytes:
  assumes "frame_ok k" "8 + length (data k) \<le> length b"
  shows "\<exists>b'. encode_frame b k = Inr (b', header_bytes k @ data k) \<and> length b' = length b"
proof -
  let ?b1 = "b[0 := ver k, 1 := cmd k]"
  have n16: "u16_ok (int (length (data k)))" using assms(1) by (simp add: u16_ok_def frame_ok_def)
  have t: "take 2 ?b1 = [ver k, cmd k]"
  proof -
    obtain x0 x1 r where "b = x0 # x1 # r" using list_split2 [of b] assms(2) by auto
    then show ?thesis by simp
  qed
  have u: "to_u16 (int (length (data k))) = int (length (data k))"
    using n16 by (simp add: to_u16_mod u16_ok_def)
  have p1: "LE_PutUint16 (drop 2 ?b1) (int (length (data k))) = Inr (le_bytes 2 (int (length (data k))) @ drop 4 ?b1)"
    using le16.put_bytes [OF n16, of "drop 2 ?b1"] assms(2) by simp
  let ?b2 = "take 2 ?b1 @ le_bytes 2 (int (length (data k))) @ drop 4 ?b1"
  have d4: "drop 4 ?b2 = drop 4 ?b1" "take 4 ?b2 = [ver k, cmd k] @ le_bytes 2 (int (length (data k)))"
    unfolding t by simp_all
  have s: "u32_ok (sid k)" using assms(1) by (simp add: frame_ok_def)
  have p2: "LE_PutUint32 (drop 4 ?b2) (sid k) = Inr (le_bytes 4 (sid k) @ drop 8 ?b1)"
    using le32.put_bytes [OF s, of "drop 4 ?b1"] assms(2) unfolding d4 by simp
  let ?b3 = "take 4 ?b2 @ le_bytes 4 (sid k) @ drop 8 ?b1"
  have b3: "?b3 = header_bytes k @ drop 8 ?b1" unfolding d4 header_bytes_def by simp
  have l3: "length ?b3 = length b" unfolding b3 using assms(2) by simp
  have m: "min (length ?b3 - 8) (length (data k)) = length (data k)" unfolding l3 using assms(2) by simp
  have lb: "1 < length b" using assms(2) by simp
  let ?b4 = "header_bytes k @ data k @ drop (8 + length (data k)) ?b1"
  have b4: "take 8 ?b3 @ take (length (data k)) (data k) @ drop (8 + length (data k)) ?b3 = ?b4"
    unfolding b3 by (simp add: add.commute)
  have "encode_frame b k = Inr (?b4, take (8 + length (data k)) ?b4)"
    unfolding encode_frame_def using lb assms(2)
    by (simp only: if_True res_bind_simps u p1 p2 Let_def m b4) simp
  moreover have "length ?b4 = length b" using assms(2) by simp
  ultimately show ?thesis by simp
qed

lemma header_accessors:
  assumes "frame_ok k"
  shows "hdr_Version (header_bytes k) = ver k" "hdr_Cmd (header_bytes k) = cmd k"
    "hdr_Length (header_bytes k) = Inr (int (length (data k)))" "hdr_StreamID (header_bytes k) = Inr (sid k)"
proof -
  have n: "u16_ok (int (length (data k)))" "u32_ok (sid k)"
    using assms by (simp_all add: u16_ok_def frame_ok_def)
  have l: "le_value (le_bytes 2 (int (length (data k)))) = int (length (data k))" "le_value (le_bytes 4 (sid k)) = sid k"
    using n by (simp_all add: le_value_le_bytes u16_ok_def u32_ok_def)
  have "bytes (le_bytes 2 (int (length (data k))) @ le_bytes 4 (sid k))" by simp
  from le16.get_num [OF this] l(1) show "hdr_Length (header_bytes k) = Inr (int (length (data k)))"
    by (auto simp: hdr_Length_def header_bytes_def)
  have "bytes (le_bytes 4 (sid k))" by simp
  from le32.get_num [OF this] l(2) show "hdr_StreamID (header_bytes k) = Inr (sid k)"
    by (auto simp: hdr_StreamID_def header_bytes_def)
qed (simp_all add: hdr_Version_def hdr_Cmd_def header_bytes_def)

section \<open>Configuration\<close>

record config =
  Version :: int
  KeepAliveDisabled :: bool
  KeepAliveInterval :: js64
  KeepAliveTimeout :: js64
  MaxFrameSize :: int
  MaxReceiveBuffer :: int
  MaxStreamBuffer :: int

definition DefaultConfig :: config where
  "DefaultConfig = \<lparr>Version = 1, KeepAliveDisabled = False, KeepAliveInterval = new64 KInt64 2 1410065408,
     KeepAliveTimeout = new64 KInt64 6 4230196224, MaxFrameSize = 32768, MaxReceiveBuffer = 4194304,
     MaxStreamBuffer = 65536\<rparr>"

definition VerifyConfig :: "config \<Rightarrow> nat \<Rightarrow> go_error option" where
  "VerifyConfig a errs =
     (if \<not> (Version a = 1 \<or> Version a = 2) then Some (NewError errs ''unsupported protocol version'')
      else if \<not> KeepAliveDisabled a \<and> high (KeepAliveInterval a) = 0 \<and> low (KeepAliveInterval a) = 0
      then Some (NewError errs ''keep-alive interval must be positive'')
      else if \<not> KeepAliveDisabled a \<and> less64 (KeepAliveTimeout a) (KeepAliveInterval a)
      then Some (NewError errs ''keep-alive timeout must be larger than keep-alive interval'')
      else if MaxFrameSize a \<le> 0 then Some (NewError errs ''max frame size must be positive'')
      else if MaxFrameSize a > 65535 then Some (NewError errs ''max frame size must not be larger than 65535'')
      else if MaxReceiveBuffer a \<le> 0 then Some (NewError errs ''max receive buffer must be positive'')
      else if MaxStreamBuffer a \<le> 0 then Some (NewError errs ''max stream buffer must be positive'')
      else if MaxStreamBuffer a > MaxReceiveBuffer a
      then Some (NewError errs ''max stream buffer must not be larger than max receive buffer'')
      else if MaxStreamBuffer a > 2147483647
      then Some (NewError errs ''max stream buffer cannot be larger than 2147483647'')
      else None)"

section \<open>The queue of write requests\<close>

text \<open>A request: priority, frame, and the channel of its result.\<close>

record write_request =
  prio :: js64
  wr_frame :: frame
  wr_result :: nat

definition shaper_Len :: "write_request list \<Rightarrow> int" where "shaper_Len h = int (length h)"

definition shaper_Less :: "write_request list \<Rightarrow> int \<Rightarrow> int \<Rightarrow> bool res" where
  "shaper_Less h a b = res_bind (js_index h a) (\<lambda>x. res_bind (js_index h b) (\<lambda>y. Inr (less64 (prio x) (prio y))))"

definition shaper_Swap :: "write_request list \<Rightarrow> int \<Rightarrow> int \<Rightarrow> write_request list res" where
  "shaper_Swap h a b = res_bind (js_index h b) (\<lambda>d. res_bind (js_index h a) (\<lambda>e. Inr (h[nat a := d, nat b := e])))"

definition shaper_Push :: "write_request list \<Rightarrow> write_request \<Rightarrow> write_request list" where
  "shaper_Push h x = h @ [x]"

definition shaper_Pop :: "write_request list \<Rightarrow> (write_request \<times> write_request list) res" where
  "shaper_Pop h = res_bind (js_index h (int (length h) - 1)) (\<lambda>e. Inr (e, take (length h - 1) h))"

definition shaperHeap :: "(write_request list, write_request) heap_iface" where
  "shaperHeap = \<lparr>iface_Len = shaper_Len, iface_Less = shaper_Less, iface_Swap = shaper_Swap,
     iface_Push = shaper_Push, iface_Pop = shaper_Pop\<rparr>"

definition request_ok :: "write_request \<Rightarrow> bool" where
  "request_ok x \<longleftrightarrow> wf64 (prio x) \<and> ctor (prio x) = KUint64"

interpretation shaper: heap_interface shaperHeap "\<lambda>h. h" "\<lambda>x. val64 (prio x)" request_ok
proof (unfold_locales, goal_cases)
  case (2 h i j)
  then have "request_ok (h ! i)" "request_ok (h ! j)" by simp_all
  with 2 show ?case by (simp add: shaperHeap_def shaper_Less_def js_index_ok less64_val request_ok_def)
next
  case (5 h)
  then show ?case
    by (simp add: shaperHeap_def shaper_Pop_def js_index_ok last_conv_nth butlast_conv_take nat_diff_distrib Suc_leI)
qed (simp_all add: shaperHeap_def shaper_Len_def shaper_Swap_def shaper_Push_def js_index_ok swap_list_def)

section \<open>The shaper loop\<close>

text \<open>
  One turn of \<open>shaperLoop\<close>: with requests queued it pops the first one and offers it to \<open>sendLoop\<close>;
  then its \<open>$select\<close> is answered by a new request, which is pushed after the popped one is put back, or
  by \<open>sendLoop\<close> taking the offer.  \<open>Taken\<close> is not possible with an empty queue: the channel of that case is
  then the nil channel.  The result is the request taken, if any, and the queue.
\<close>

datatype shaper_event = Request write_request | Taken

definition shaper_turn :: "shaper_event \<Rightarrow> write_request list
    \<Rightarrow> (write_request option \<times> write_request list) res option" where
  "shaper_turn ev a =
     (if a = [] then
        (case ev of Request h \<Rightarrow> map_option (map_sum id (\<lambda>a. (None, a))) (heap_Push shaperHeap a h) | Taken \<Rightarrow> None)
      else case heap_Pop shaperHeap a of
             None \<Rightarrow> None
           | Some (Inl p) \<Rightarrow> Some (Inl p)
           | Some (Inr (c, a)) \<Rightarrow>
               (case ev of
                  Taken \<Rightarrow> Some (Inr (Some c, a))
                | Request h \<Rightarrow>
                    (case heap_Push shaperHeap a c of
                       None \<Rightarrow> None
                     | Some (Inl p) \<Rightarrow> Some (Inl p)
                     | Some (Inr a) \<Rightarrow> map_option (map_sum id (\<lambda>a. (None, a))) (heap_Push shaperHeap a h))))"

abbreviation prio_ordered :: "write_request list \<Rightarrow> bool" where
  "prio_ordered a \<equiv> heap_ordered (\<lambda>x. val64 (prio x)) (length a) a"

lemma request_ok_mset: "mset a = mset b \<Longrightarrow> \<forall>x \<in> set a. request_ok x \<Longrightarrow> \<forall>x \<in> set b. request_ok x"
  by (metis set_mset_mset)

lemma push_request:
  assumes "\<forall>x \<in> set a. request_ok x" "request_ok r" "Suc (length a) < 2 ^ 30" "prio_ordered a"
  shows "\<exists>a'. heap_Push shaperHeap a r = Some (Inr a') \<and> mset a' = add_mset r (mset a) \<and> prio_ordered a'"
  using shaper.Push_correct [of a r] assms by (simp add: shaper.ok_heap_def)

lemma pop_request:
  assumes "\<forall>x \<in> set a. request_ok x" "a \<noteq> []" "length a < 2 ^ 30" "prio_ordered a"
  shows "\<exists>x a'. heap_Pop shaperHeap a = Some (Inr (x, a')) \<and> mset a = add_mset x (mset a') \<and>
    (\<forall>y \<in> set a. val64 (prio x) \<le> val64 (prio y)) \<and> prio_ordered a'"
  using shaper.Pop_correct [of a] assms by (simp add: shaper.ok_heap_def)

text \<open>
  C20: the shaper loop is a priority queue: a turn never panics and always ends; a new request joins the
  queue, and the request \<open>sendLoop\<close> takes is one of least priority number among all that are queued and
  leaves it.  No request is lost or duplicated by the pops and pushes of the turns in between.
\<close>

theorem shaper_priority:
  assumes "\<forall>x \<in> set a. request_ok x" "prio_ordered a" "Suc (length a) < 2 ^ 30" "request_ok r"
  shows "(\<exists>a'. shaper_turn (Request r) a = Some (Inr (None, a')) \<and> mset a' = add_mset r (mset a) \<and> prio_ordered a') \<and>
    (a \<noteq> [] \<longrightarrow> (\<exists>x a'. shaper_turn Taken a = Some (Inr (Some x, a')) \<and> mset a = add_mset x (mset a') \<and>
       (\<forall>y \<in> set a. val64 (prio x) \<le> val64 (prio y)) \<and> prio_ordered a'))"
proof (cases "a = []")
  case True
  then show ?thesis using push_request [OF assms(1,4,3,2)] by (auto simp: shaper_turn_def)
next
  case False
  have "length a < 2 ^ 30" using assms(3) by simp
  from pop_request [OF assms(1) False this assms(2)] obtain x a1 where
    pop: "heap_Pop shaperHeap a = Some (Inr (x, a1))" "mset a = add_mset x (mset a1)"
      "\<forall>y \<in> set a. val64 (prio x) \<le> val64 (prio y)" "prio_ordered a1" by blast
  have set: "set a = insert x (set a1)" using pop(2) by (metis set_mset_add_mset_insert set_mset_mset)
  have len: "length a = Suc (length a1)" using pop(2) by (metis size_add_mset size_mset)
  from push_request [of a1 x] assms(1,3) set len pop(4) obtain a2 where
    push: "heap_Push shaperHeap a1 x = Some (Inr a2)" "mset a2 = mset a" "prio_ordered a2"
    by (auto simp: pop(2))
  have ok2: "\<forall>y \<in> set a2. request_ok y" using request_ok_mset [OF push(2) [symmetric] assms(1)] .
  have "length a2 = length a" using push(2) by (metis size_mset)
  with push_request [OF ok2 assms(4) _ push(3)] assms(3) obtain a3 where
    "heap_Push shaperHeap a2 r = Some (Inr a3)" "mset a3 = add_mset r (mset a)" "prio_ordered a3"
    by (auto simp: push(2))
  then show ?thesis using False pop push by (auto simp: shaper_turn_def)
qed

definition demo_request :: "int \<Rightarrow> nat \<Rightarrow> write_request" where
  "demo_request p n = \<lparr>prio = uint64_of p, wr_frame = newFrame 1 cmdPSH 3, wr_result = n\<rparr>"

theorem shaper_priority_witness:
  "\<exists>x a'. shaper_turn Taken [demo_request 2 0, demo_request 3 1] = Some (Inr (Some x, a')) \<and> val64 (prio x) \<le> 2"
proof -
  let ?a = "[demo_request 2 0, demo_request 3 1]"
  have v: "val64 (prio (demo_request 2 n)) = 2" "val64 (prio (demo_request 3 n)) = 3" for n
    by (simp_all add: demo_request_def uint64_of_def val64_new64 wrap64_def take_bit_int_eq_self)
  have "\<forall>x \<in> set ?a. request_ok x" "request_ok (demo_request 2 5)" by (simp_all add: request_ok_def demo_request_def)
  moreover have "prio_ordered ?a" by (auto simp: heap_ordered_def v less_Suc_eq)
  ultimately obtain x a' where "shaper_turn Taken ?a = Some (Inr (Some x, a'))" "\<forall>y \<in> set ?a. val64 (prio x) \<le> val64 (prio y)"
    using shaper_priority [of ?a "demo_request 2 5"] by auto
  then show ?thesis by (auto simp: v)
qed

section \<open>Properties of the protocol level\<close>

text \<open>
  C22: what \<open>sendLoop\<close> puts on the connection for a frame is its 8-byte header followed by its data, and
  reading the header back gives the version, the command, the stream and the length it was made from;
  the send buffer keeps its size.
\<close>

theorem frame_roundtrip:
  assumes "frame_ok k" "length b = 65544"
  shows "\<exists>b' h. encode_frame b k = Inr (b', h @ data k) \<and> length b' = 65544 \<and> length h = 8 \<and>
    hdr_Version h = ver k \<and> hdr_Cmd h = cmd k \<and> hdr_Length h = Inr (int (length (data k))) \<and>
    hdr_StreamID h = Inr (sid k)"
proof -
  have "8 + length (data k) \<le> length b" using assms by (simp add: frame_ok_def)
  from encode_frame_bytes [OF assms(1) this] obtain b' where
    "encode_frame b k = Inr (b', header_bytes k @ data k)" "length b' = length b" by blast
  then show ?thesis using header_accessors [OF assms(1)] assms(2)
    by (intro exI [of _ b'] exI [of _ "header_bytes k"]) simp
qed

theorem frame_roundtrip_witness:
  "\<exists>b' h. encode_frame (replicate 65544 0) \<lparr>ver = 1, cmd = 2, sid = 3, data = [7, 8]\<rparr> = Inr (b', h @ [7, 8]) \<and>
     hdr_StreamID h = Inr 3 \<and> hdr_Length h = Inr 2"
proof -
  have "frame_ok \<lparr>ver = 1, cmd = 2, sid = 3, data = [7, 8]\<rparr>" by (simp add: frame_ok_def u32_ok_def)
  from frame_roundtrip [OF this, of "replicate 65544 0"] show ?thesis by (simp only: length_replicate frame.simps) auto
qed

text \<open>
  \<open>VerifyConfig\<close> accepts exactly the configurations with version 1 or 2, a keep-alive (unless disabled)
  whose interval is not zero and not longer than the timeout, a frame size of 1 to 65535, and stream and
  receive buffers that are positive, the former not larger than the latter and below \<open>2 ^ 31\<close>; it accepts
  the default configuration.  A negative interval and a timeout equal to the interval pass, although the
  messages say the interval must be positive and the timeout larger.
\<close>

theorem VerifyConfig_accepts:
  assumes "wf64 (KeepAliveInterval c)" "wf64 (KeepAliveTimeout c)"
  shows "(VerifyConfig c errs = None \<longleftrightarrow>
      (Version c = 1 \<or> Version c = 2) \<and>
      (KeepAliveDisabled c \<or> val64 (KeepAliveInterval c) \<noteq> 0 \<and> val64 (KeepAliveInterval c) \<le> val64 (KeepAliveTimeout c)) \<and>
      0 < MaxFrameSize c \<and> MaxFrameSize c \<le> 65535 \<and> 0 < MaxStreamBuffer c \<and>
      MaxStreamBuffer c \<le> MaxReceiveBuffer c \<and> MaxStreamBuffer c \<le> 2147483647) \<and>
    VerifyConfig DefaultConfig errs = None"
proof -
  have z: "high (KeepAliveInterval c) = 0 \<and> low (KeepAliveInterval c) = 0 \<longleftrightarrow> val64 (KeepAliveInterval c) = 0"
  proof -
    have "0 \<le> low (KeepAliveInterval c)" "low (KeepAliveInterval c) < 2 ^ 32" using assms(1) by (simp_all add: wf64_def)
    then show ?thesis unfolding val64_def
      by (cases "high (KeepAliveInterval c)" "0::int" rule: linorder_cases) simp_all
  qed
  have l: "less64 (KeepAliveTimeout c) (KeepAliveInterval c) \<longleftrightarrow> val64 (KeepAliveTimeout c) < val64 (KeepAliveInterval c)"
    using assms by (simp add: less64_val)
  have "VerifyConfig DefaultConfig errs = None"
    by (simp add: VerifyConfig_def DefaultConfig_def new64_def less64_def ToInt32_id ToUint32_id)
  moreover have "VerifyConfig c errs = None \<longleftrightarrow>
      (Version c = 1 \<or> Version c = 2) \<and>
      (KeepAliveDisabled c \<or> val64 (KeepAliveInterval c) \<noteq> 0 \<and> val64 (KeepAliveInterval c) \<le> val64 (KeepAliveTimeout c)) \<and>
      0 < MaxFrameSize c \<and> MaxFrameSize c \<le> 65535 \<and> 0 < MaxStreamBuffer c \<and>
      MaxStreamBuffer c \<le> MaxReceiveBuffer c \<and> MaxStreamBuffer c \<le> 2147483647"
    unfolding VerifyConfig_def z l by (auto split: if_splits)
  ultimately show ?thesis by blast
qed

theorem VerifyConfig_accepts_witness:
  "VerifyConfig (DefaultConfig\<lparr>KeepAliveInterval := new64 KInt64 (- 1) 0\<rparr>) 0 = None"
proof -
  let ?c = "DefaultConfig\<lparr>KeepAliveInterval := new64 KInt64 (- 1) 0\<rparr>"
  have "val64 (new64 KInt64 (- 1) 0) = - 4294967296" "val64 (new64 KInt64 6 4230196224) = 30000000000" by code_simp+
  then show ?thesis using VerifyConfig_accepts [of ?c 0] by (simp add: DefaultConfig_def)
qed

end
