(* ===== verification/Fifo.thy ===== *)
theory Fifo
  imports Main
begin

text \<open>
  The contract of a queue (a put may add several values) that may hand values straight to a waiting consumer: \<open>put\<close> and \<open>get\<close>
  return the values that left the queue.  \<open>fifo_run\<close> runs a sequence of puts and gets and collects the
  values put and the values that left.
\<close>

fun fifo_run :: "('a \<Rightarrow> 's \<Rightarrow> 'v list \<times> 's) \<Rightarrow> ('b \<Rightarrow> 's \<Rightarrow> 'v list \<times> 's) \<Rightarrow> ('a \<Rightarrow> 'v list) \<Rightarrow> ('a + 'b) list \<Rightarrow> 's
    \<Rightarrow> 'v list \<times> 'v list \<times> 's" where
  "fifo_run put get val [] s = ([], [], s)"
| "fifo_run put get val (Inl a # ops) s =
     (let (out, s1) = put a s; (ins, outs, s2) = fifo_run put get val ops s1 in (val a @ ins, out @ outs, s2))"
| "fifo_run put get val (Inr b # ops) s =
     (let (out, s1) = get b s; (ins, outs, s2) = fifo_run put get val ops s1 in (ins, out @ outs, s2))"

locale fifo =
  fixes inv :: "'s \<Rightarrow> bool" and content :: "'s \<Rightarrow> 'v list" and val :: "'a \<Rightarrow> 'v list"
    and put :: "'a \<Rightarrow> 's \<Rightarrow> 'v list \<times> 's" and get :: "'b \<Rightarrow> 's \<Rightarrow> 'v list \<times> 's"
  assumes put_law: "inv s \<Longrightarrow> put a s = (out, s') \<Longrightarrow> inv s' \<and> out @ content s' = content s @ val a"
    and get_law: "inv s \<Longrightarrow> get b s = (out, s') \<Longrightarrow> inv s' \<and> out @ content s' = content s"
begin

lemma run_order:
  assumes "inv s" "fifo_run put get val ops s = (ins, outs, s')"
  shows "inv s' \<and> content s @ ins = outs @ content s'"
  using assms
proof (induction ops arbitrary: s ins outs s')
  case (Cons op ops)
  show ?case
  proof (cases op)
    case (Inl a)
    obtain out s1 where p: "put a s = (out, s1)" by (cases "put a s")
    obtain ins' outs' s2 where r: "fifo_run put get val ops s1 = (ins', outs', s2)" by (cases "fifo_run put get val ops s1")
    have l: "inv s1" "out @ content s1 = content s @ val a" using put_law [OF Cons.prems(1) p] by simp_all
    have IH: "inv s2" "content s1 @ ins' = outs' @ content s2" using Cons.IH [OF l(1) r] by simp_all
    have "content s @ val a @ ins' = (out @ content s1) @ ins'" by (simp add: l(2))
    also have "\<dots> = (out @ outs') @ content s2" by (simp add: IH(2))
    finally show ?thesis using Cons.prems(2) Inl p r IH(1) by auto
  next
    case (Inr b)
    obtain out s1 where p: "get b s = (out, s1)" by (cases "get b s")
    obtain ins' outs' s2 where r: "fifo_run put get val ops s1 = (ins', outs', s2)" by (cases "fifo_run put get val ops s1")
    have l: "inv s1" "out @ content s1 = content s" using get_law [OF Cons.prems(1) p] by simp_all
    have IH: "inv s2" "content s1 @ ins' = outs' @ content s2" using Cons.IH [OF l(1) r] by simp_all
    have "content s @ ins' = (out @ content s1) @ ins'" by (simp add: l(2))
    also have "\<dots> = (out @ outs') @ content s2" by (simp add: IH(2))
    finally show ?thesis using Cons.prems(2) Inr p r IH(1) by auto
  qed
qed simp

end

end
