(* ===== verification/Smux_Stream.thy ===== *)
theory Smux_Stream
  imports Smux_Frame Fifo
begin

text \<open>
  The stream of smux (type \<open>AF\<close> of the bundle's smux line): the receive side with its list of buffers
  and the send side with its counters.  A method of the code is modelled by its critical section under
  \<open>bufferLock\<close> and the code up to its next blocking point; what other parts of the program supply (the
  outcome of \<open>writeFrameInternal\<close>, the events \<open>$select\<close> picks) is an argument.  The one-place channels
  \<open>chReadEvent\<close> and \<open>chUpdate\<close> are flags: they hold a token or not.
\<close>

record stream =
  st_id :: int
  buffers :: "int list list"     \<comment> \<open>unread data, first buffer first\<close>
  heads :: "int list list"       \<comment> \<open>the slices the buffers were received in, to give back\<close>
  frameSize :: int
  chReadEvent :: bool
  st_die :: bool
  chFinEvent :: bool
  numRead :: int
  incr :: int
  numWritten :: int
  peerConsumed :: int
  peerWindow :: int
  chUpdate :: bool

definition newStream :: "int \<Rightarrow> int \<Rightarrow> stream" where
  "newStream i fs = \<lparr>st_id = i, buffers = [], heads = [], frameSize = fs, chReadEvent = False, st_die = False,
     chFinEvent = False, numRead = 0, incr = 0, numWritten = 0, peerConsumed = 0, peerWindow = 262144,
     chUpdate = False\<rparr>"

section \<open>The receive side\<close>

definition pushBytes :: "int list \<Rightarrow> stream \<Rightarrow> stream" where
  "pushBytes a st = st\<lparr>buffers := buffers st @ [a], heads := heads st @ [a]\<rparr>"

definition notifyReadEvent :: "stream \<Rightarrow> stream" where
  "notifyReadEvent st = st\<lparr>chReadEvent := True\<rparr>"

definition fin :: "stream \<Rightarrow> stream" where
  "fin st = st\<lparr>chFinEvent := True\<rparr>"

text \<open>
  The locked section of \<open>tryRead\<close> and \<open>tryReadv2\<close> for a slice of length \<open>n\<close>: the bytes copied, the slices
  given to the allocator, and the stream.
\<close>

definition take_some :: "nat \<Rightarrow> stream \<Rightarrow> int list \<times> int list list \<times> stream" where
  "take_some n st = (case buffers st of
       [] \<Rightarrow> ([], [], st)
     | buf # bufs \<Rightarrow>
         (let bs = take n buf; rest = drop n buf
          in if rest = [] then (bs, [hd (heads st)], st\<lparr>buffers := bufs, heads := tl (heads st)\<rparr>)
             else (bs, [], st\<lparr>buffers := rest # bufs\<rparr>)))"

text \<open>The locked section of \<open>WriteTo\<close> and \<open>writeTov2\<close>: the whole first buffer, or nil.\<close>

definition take_buffer_out :: "stream \<Rightarrow> int list option \<times> stream" where
  "take_buffer_out st = (case buffers st of
       [] \<Rightarrow> (None, st)
     | buf # bufs \<Rightarrow> (Some buf, st\<lparr>buffers := bufs, heads := tl (heads st)\<rparr>))"

text \<open>
  The counters of version 2, updated in the same section: after \<open>b\<close> bytes the value for a window update
  (\<open>notifyConsumed\<close>, zero for none) and the stream.
\<close>

definition count_read :: "int \<Rightarrow> nat \<Rightarrow> stream \<Rightarrow> int \<times> stream" where
  "count_read maxStreamBuffer b st =
     (let nr = js_shr (numRead st + js_shr (int b) 0) 0;
          ic = js_shr (incr st + js_shr (int b) 0) 0
      in if ic \<ge> js_shr (tdiv maxStreamBuffer 2) 0 \<or> nr = js_shr (int b) 0
         then (nr, st\<lparr>numRead := nr, incr := 0\<rparr>)
         else (0, st\<lparr>numRead := nr, incr := ic\<rparr>))"

text \<open>
  What a read call returns: the bytes (or an error), the number of tokens it returns to the session,
  the slices for the allocator and, in version 2, the window update it then sends.
\<close>

record read_result =
  rd_bytes :: "int list"
  rd_error :: "go_error option"
  rd_tokens :: nat
  rd_freed :: "int list list"
  rd_update :: "int option"

definition tryReadv1 :: "nat \<Rightarrow> stream \<Rightarrow> read_result \<times> stream" where
  "tryReadv1 n st =
     (if n = 0 then (\<lparr>rd_bytes = [], rd_error = None, rd_tokens = 0, rd_freed = [], rd_update = None\<rparr>, st)
      else let (bs, freed, st') = take_some n st
           in if bs \<noteq> [] then (\<lparr>rd_bytes = bs, rd_error = None, rd_tokens = length bs, rd_freed = freed, rd_update = None\<rparr>, st')
              else (\<lparr>rd_bytes = [], rd_error = Some (if st_die st' then EOF else ErrWouldBlock), rd_tokens = 0,
                      rd_freed = freed, rd_update = None\<rparr>, st'))"

definition tryReadv2 :: "int \<Rightarrow> nat \<Rightarrow> stream \<Rightarrow> read_result \<times> stream" where
  "tryReadv2 maxStreamBuffer n st =
     (if n = 0 then (\<lparr>rd_bytes = [], rd_error = None, rd_tokens = 0, rd_freed = [], rd_update = None\<rparr>, st)
      else let (bs, freed, st') = take_some n st;
               (g, st'') = count_read maxStreamBuffer (length bs) st'
           in if bs \<noteq> [] then (\<lparr>rd_bytes = bs, rd_error = None, rd_tokens = length bs, rd_freed = freed,
                                 rd_update = (if g > 0 then Some g else None)\<rparr>, st'')
              else (\<lparr>rd_bytes = [], rd_error = Some (if st_die st'' then EOF else ErrWouldBlock), rd_tokens = 0,
                      rd_freed = freed, rd_update = None\<rparr>, st''))"

definition tryRead :: "config \<Rightarrow> nat \<Rightarrow> stream \<Rightarrow> read_result \<times> stream" where
  "tryRead cf n st = (if Version cf = 2 then tryReadv2 (MaxStreamBuffer cf) n st else tryReadv1 n st)"

text \<open>
  \<open>waitRead\<close>: the answer to the event its \<open>$select\<close> picks.  After a FIN it returns \<open>io.EOF\<close> only when the
  buffers are empty.
\<close>

datatype read_event = ReadEvent | FinEvent | SocketReadError "go_error option" | ProtoError "go_error option"
  | ReadDeadline | Die

definition waitRead :: "read_event \<Rightarrow> stream \<Rightarrow> go_error option \<times> stream" where
  "waitRead ev st = (case ev of
       ReadEvent \<Rightarrow> (None, st\<lparr>chReadEvent := False\<rparr>)
     | FinEvent \<Rightarrow> (if buffers st \<noteq> [] then None else Some EOF, st)
     | SocketReadError e \<Rightarrow> (e, st)
     | ProtoError e \<Rightarrow> (e, st)
     | ReadDeadline \<Rightarrow> (Some ErrTimeout, st)
     | Die \<Rightarrow> (Some ErrClosedPipe, st))"

text \<open>
  \<open>recycleTokens\<close>: the bytes still buffered are given up; their number, the slices for the allocator.
  The loop reads \<open>buffers[i]\<close> and \<open>heads[i]\<close> for every \<open>i\<close> below the number of buffers.
\<close>

definition recycleTokens :: "stream \<Rightarrow> (int \<times> int list list \<times> stream) res" where
  "recycleTokens st =
     (if length (heads st) < length (buffers st) then Inl (RuntimeError ''index out of range'')
      else Inr (fold (\<lambda>buf n. js_sar (n + int (length buf)) 0) (buffers st) 0, take (length (buffers st)) (heads st),
                st\<lparr>buffers := [], heads := []\<rparr>))"

section \<open>The send side\<close>

definition update :: "int \<Rightarrow> int \<Rightarrow> stream \<Rightarrow> stream" where
  "update consumed window st = st\<lparr>peerConsumed := consumed, peerWindow := window, chUpdate := True\<rparr>"

section \<open>Reading returns what was pushed\<close>

definition st_content :: "stream \<Rightarrow> int list" where
  "st_content st = concat (buffers st)"

definition st_inv :: "stream \<Rightarrow> bool" where
  "st_inv st \<longleftrightarrow> length (heads st) = length (buffers st) \<and> [] \<notin> set (buffers st)"

lemma st_inv_new: "st_inv (newStream i fs)" and st_content_new: "st_content (newStream i fs) = []"
  by (simp_all add: newStream_def st_inv_def st_content_def)

lemma push_spec: "st_inv st \<Longrightarrow> a \<noteq> [] \<Longrightarrow> st_inv (pushBytes a st) \<and> st_content (pushBytes a st) = st_content st @ a"
  by (simp add: pushBytes_def st_inv_def st_content_def)

lemma take_some_spec:
  assumes "st_inv st" "0 < n" "take_some n st = (bs, freed, st')"
  shows "st_inv st' \<and> bs @ st_content st' = st_content st \<and> length bs \<le> n \<and> (bs = [] \<longleftrightarrow> st_content st = []) \<and>
    freed @ heads st' = heads st"
proof (cases "buffers st")
  case Nil
  then show ?thesis using assms by (simp add: take_some_def st_content_def)
next
  case (Cons buf bufs)
  then have b: "buf \<noteq> []" "heads st \<noteq> []" using assms(1) by (auto simp: st_inv_def)
  show ?thesis
  proof (cases "drop n buf = []")
    case True
    then show ?thesis using assms Cons b by (auto simp: take_some_def st_inv_def st_content_def)
  next
    case False
    then have "bs = take n buf" "st' = st\<lparr>buffers := drop n buf # bufs\<rparr>" "freed = []"
      using assms(3) Cons by (simp_all add: take_some_def)
    with False show ?thesis using assms(1,2) Cons b by (auto simp: st_inv_def st_content_def)
  qed
qed

lemma count_read_buffers [simp]:
  "buffers (snd (count_read m b st)) = buffers st" "heads (snd (count_read m b st)) = heads st"
  "st_die (snd (count_read m b st)) = st_die st"
  by (simp_all add: count_read_def Let_def)

lemma tryRead_spec:
  assumes "st_inv st" "tryRead cf n st = (r, st')"
  shows "st_inv st' \<and> rd_bytes r @ st_content st' = st_content st \<and> rd_tokens r = length (rd_bytes r) \<and>
    length (rd_bytes r) \<le> n \<and>
    rd_error r = (if n = 0 \<or> st_content st \<noteq> [] then None else if st_die st then Some EOF else Some ErrWouldBlock)"
proof (cases "n = 0")
  case True
  then show ?thesis using assms by (auto simp: tryRead_def tryReadv1_def tryReadv2_def split: if_splits)
next
  case False
  obtain bs freed st1 where t: "take_some n st = (bs, freed, st1)" by (cases "take_some n st") auto
  have s: "st_inv st1" "bs @ st_content st1 = st_content st" "length bs \<le> n" "bs = [] \<longleftrightarrow> st_content st = []"
    using take_some_spec [OF assms(1) _ t] False by simp_all
  have d: "st_die st1 = st_die st" using t by (auto simp: take_some_def Let_def split: list.splits if_splits)
  show ?thesis
  proof (cases "Version cf = 2")
    case True
    obtain g st2 where c: "count_read (MaxStreamBuffer cf) (length bs) st1 = (g, st2)" by (metis prod.exhaust)
    have b2: "buffers st2 = buffers st1" "heads st2 = heads st1" "st_die st2 = st_die st1"
      using count_read_buffers [of "MaxStreamBuffer cf" "length bs" st1] by (simp_all add: c)
    then have "st_inv st2" "st_content st2 = st_content st1" using s(1) by (simp_all add: st_inv_def st_content_def)
    then show ?thesis using assms(2) False True t c s d b2
      by (auto simp: tryRead_def tryReadv2_def split: if_splits)
  next
    case v1: False
    then show ?thesis using assms(2) False t s d by (auto simp: tryRead_def tryReadv1_def split: if_splits)
  qed
qed

definition stream_put :: "int list \<Rightarrow> stream \<Rightarrow> int list \<times> stream" where
  "stream_put a st = ([], if a = [] then st else notifyReadEvent (pushBytes a st))"

definition stream_get :: "config \<Rightarrow> nat \<Rightarrow> stream \<Rightarrow> int list \<times> stream" where
  "stream_get cf n st = (let (r, st') = tryRead cf n st in (rd_bytes r, st'))"

interpretation stream_fifo: fifo st_inv st_content "\<lambda>a. a" stream_put "stream_get cf" for cf
proof (unfold_locales, goal_cases)
  case (1 s a out s')
  then show ?case using push_spec [of s a]
    by (auto simp: stream_put_def notifyReadEvent_def st_inv_def st_content_def split: if_splits)
next
  case (2 s b out s')
  then show ?case using tryRead_spec [of s cf b] by (auto simp: stream_get_def split: prod.splits)
qed

text \<open>
  C11: a stream delivers its bytes in order: whatever data frames \<open>recvLoop\<close> pushes and whatever slices
  \<open>Read\<close> is called with, in whatever order (both protocol versions), the bytes read so far followed by the
  bytes still buffered are the bytes pushed so far.
\<close>

theorem stream_in_order:
  assumes "fifo_run stream_put (stream_get cf) (\<lambda>a. a) ops (newStream i fs) = (pushed, got, st)"
  shows "pushed = got @ st_content st"
  using stream_fifo.run_order [OF st_inv_new assms] by (simp add: st_content_new)

theorem stream_in_order_witness:
  "\<exists>st. fifo_run stream_put (stream_get DefaultConfig) (\<lambda>a. a) [Inl [1, 2, 3], Inr 2, Inl [4], Inr 5] (newStream 3 100)
     = ([1, 2, 3, 4], [1, 2, 3], st) \<and> st_content st = [4]"
proof -
  obtain st where "fifo_run stream_put (stream_get DefaultConfig) (\<lambda>a. a) [Inl [1, 2, 3], Inr 2, Inl [4], Inr 5] (newStream 3 100)
      = ([1, 2, 3, 4], [1, 2, 3], st)"
    by (simp add: stream_put_def stream_get_def tryRead_def tryReadv1_def take_some_def newStream_def pushBytes_def
        notifyReadEvent_def DefaultConfig_def Let_def)
  with stream_in_order [OF this] show ?thesis by simp
qed

end
