(* ===== verification/Websocket.thy ===== *)
theory Websocket
  imports Bytes_Reader
begin

text \<open>
  \<open>conn\<close> of package \<open>gopherjs/websocket\<close> (type \<open>P\<close>), the connection over a browser WebSocket, and
  \<open>Send\<close> of package \<open>websocketjs\<close>.  The browser object is not the bundle's: what its \<open>send\<close> does (return, or throw a value) is
  an argument.

  The channel \<open>ch\<close> is the queue of the events handed over by \<open>onMessage\<close> and \<open>onClose\<close>: one goroutine per
  event sends on \<open>ch\<close>, so the queue holds the buffered event and then the blocked senders, first come first.
  \<open>None\<close> is the nil frame of a close event; the browser raises no message event after it.
\<close>

record ws_conn =
  ws_ch :: "int list option list"
  ws_closed :: bool
  readBuf :: "bytes_reader option"

definition ws_init :: ws_conn where
  "ws_init = \<lparr>ws_ch = [], ws_closed = False, readBuf = None\<rparr>"

definition onMessage :: "int list \<Rightarrow> ws_conn \<Rightarrow> ws_conn" where
  "onMessage m c = c\<lparr>ws_ch := ws_ch c @ [Some m]\<rparr>"

definition onClose :: "ws_conn \<Rightarrow> ws_conn" where
  "onClose c = c\<lparr>ws_ch := ws_ch c @ [None]\<rparr>"

text \<open>What \<open>$recv\<close> gives for \<open>ch\<close>: the event and whether it was sent; no result while the receiver waits.\<close>

definition ch_recv :: "ws_conn \<Rightarrow> ((int list option \<times> bool) \<times> ws_conn) option" where
  "ch_recv c = (case ws_ch c of
       f # fs \<Rightarrow> Some ((f, True), c\<lparr>ws_ch := fs\<rparr>)
     | [] \<Rightarrow> if ws_closed c then Some ((None, False), c) else None)"

definition handleFrame :: "int list option \<Rightarrow> bool \<Rightarrow> ws_conn \<Rightarrow> (int list option \<times> go_error option) \<times> ws_conn" where
  "handleFrame f ok c =
     (if \<not> ok then ((None, Some EOF), c)
      else case f of None \<Rightarrow> ((None, Some EOF), c\<lparr>ws_closed := True\<rparr>)
                   | Some m \<Rightarrow> ((Some m, None), c))"

text \<open>
  \<open>receiveFrame\<close>.  \<open>deadline\<close> says what the read deadline does: none is set, it has passed, or the timer
  fires before an event arrives (\<open>Pending\<close> with \<open>True\<close>).  The error is the variable \<open>N\<close> of the
  package, a \<open>*deadlineErr\<close>.
\<close>

datatype deadline = NoDeadline | Passed | Pending bool

definition receiveFrame :: "deadline \<Rightarrow> go_error \<Rightarrow> ws_conn \<Rightarrow> ((int list option \<times> go_error option) \<times> ws_conn) option" where
  "receiveFrame dl errDeadlineReached c =
     (case ch_recv c of
        Some ((f, ok), c') \<Rightarrow> (if dl = Pending True then Some ((None, Some errDeadlineReached), c)
                               else Some (handleFrame f ok c'))
      | None \<Rightarrow> (if dl = Passed \<or> dl = Pending True then Some ((None, Some errDeadlineReached), c) else None))"

text \<open>\<open>Read\<close> for a slice of length \<open>n\<close>: the bytes copied into it and the error; no result while it waits.\<close>

definition read_frame :: "deadline \<Rightarrow> go_error \<Rightarrow> int \<Rightarrow> ws_conn \<Rightarrow> ((int list \<times> go_error option) \<times> ws_conn) option" where
  "read_frame dl edl n c =
     (case receiveFrame dl edl c of
        None \<Rightarrow> None
      | Some ((f, e), c') \<Rightarrow>
          (case e of Some x \<Rightarrow> Some (([], Some x), c')
           | None \<Rightarrow>
             (let k = (case f of Some m \<Rightarrow> m | None \<Rightarrow> []); b = take (nat n) k
              in if length b \<ge> length k then Some ((b, None), c')
                 else Some ((b, None), c'\<lparr>readBuf := Some (NewReader (drop (length b) k))\<rparr>))))"

definition ws_Read :: "deadline \<Rightarrow> go_error \<Rightarrow> int \<Rightarrow> ws_conn \<Rightarrow> ((int list \<times> go_error option) \<times> ws_conn) option" where
  "ws_Read dl edl n c =
     (case readBuf c of
        None \<Rightarrow> read_frame dl edl n c
      | Some rb \<Rightarrow>
          (let ((bs, e), rb') = br_Read n rb;
               (c', e') = (if e = Some EOF then (c\<lparr>readBuf := None\<rparr>, None) else (c\<lparr>readBuf := Some rb'\<rparr>, e))
           in if bs \<noteq> [] then Some ((bs, e'), c') else read_frame dl edl n c'))"

text \<open>
  \<open>Send\<close> of \<open>websocketjs\<close>: its deferred function turns a thrown JavaScript error into an error value;
  another panic goes on.  \<open>Write\<close> returns 0 and that error, or the length.
\<close>

datatype js_outcome = Returned | ThrewError go_error | ThrewOther go_panic

fun js_recovered :: "js_outcome \<Rightarrow> go_error option res" where
  "js_recovered Returned = Inr None"
| "js_recovered (ThrewError e) = Inr (Some e)"
| "js_recovered (ThrewOther p) = Inl p"

definition ws_Send :: "js_outcome \<Rightarrow> go_error option res" where
  "ws_Send oc = js_recovered oc"

definition ws_Write :: "js_outcome \<Rightarrow> int list \<Rightarrow> (int \<times> go_error option) res" where
  "ws_Write oc a = res_bind (ws_Send oc) (\<lambda>c. Inr (if c \<noteq> None then (0, c) else (int (length a), None)))"

lemma ws_Write_cases:
  "ws_Write Returned a = Inr (int (length a), None)" "ws_Write (ThrewError e) a = Inr (0, Some e)"
  "ws_Write (ThrewOther p) a = Inl p"
  by (simp_all add: ws_Write_def ws_Send_def res_bind_def)

section \<open>A connection as a reader\<close>

text \<open>
  A connection whose peer has sent non-empty messages and then closed: reads never wait, and deliver
  the bytes of the messages.
\<close>

fun messages :: "int list option list \<Rightarrow> int list list" where
  "messages [] = []"
| "messages (None # fs) = []"
| "messages (Some m # fs) = m # messages fs"

definition ws_bytes :: "ws_conn \<Rightarrow> int list" where
  "ws_bytes c = (case readBuf c of None \<Rightarrow> [] | Some rb \<Rightarrow> br_rest rb) @ concat (messages (ws_ch c))"

definition ws_ok :: "ws_conn \<Rightarrow> bool" where
  "ws_ok c \<longleftrightarrow> (ws_closed c \<or> None \<in> set (ws_ch c)) \<and> (ws_closed c \<longrightarrow> ws_ch c = []) \<and>
     (\<forall>m. Some m \<in> set (ws_ch c) \<longrightarrow> m \<noteq> [] \<and> length m < 2 ^ 31) \<and>
     (\<exists>ms. ws_ch c = map Some ms \<or> ws_ch c = map Some ms @ [None]) \<and>
     (case readBuf c of None \<Rightarrow> True | Some rb \<Rightarrow> br_ok rb)"

text \<open>The result of a read that waits is left open; it does not arise under \<open>ws_ok\<close>.\<close>

definition ws_reader :: "ws_conn read_fun" where
  "ws_reader n c = (case ws_Read NoDeadline ErrTimeout n c of Some x \<Rightarrow> x | None \<Rightarrow> (([], None), c))"

lemma ws_ok_cases:
  assumes "ws_ok c"
  obtains (msg) m fs where "ws_ch c = Some m # fs" "m \<noteq> []" "length m < 2 ^ 31" "ws_ok (c\<lparr>ws_ch := fs\<rparr>)" "\<not> ws_closed c"
  | (close) "ws_ch c = [None]" "\<not> ws_closed c"
  | (closed) "ws_ch c = []" "ws_closed c"
proof (cases "ws_ch c")
  case Nil
  then show ?thesis using assms closed by (auto simp: ws_ok_def)
next
  case (Cons f fs)
  obtain ms where ms: "ws_ch c = map Some ms \<or> ws_ch c = map Some ms @ [None]" using assms by (auto simp: ws_ok_def)
  have nc: "\<not> ws_closed c" "None \<in> set (ws_ch c)" using assms Cons by (auto simp: ws_ok_def)
  then have ms': "ws_ch c = map Some ms @ [None]" using ms by auto
  show ?thesis
  proof (cases ms)
    case Nil
    then show ?thesis using ms' nc close by simp
  next
    case (Cons m ms2)
    then have c: "ws_ch c = Some m # (map Some ms2 @ [None])" using ms' by simp
    moreover have "ws_ok (c\<lparr>ws_ch := map Some ms2 @ [None]\<rparr>)" using assms c nc unfolding ws_ok_def by auto
    moreover have "m \<noteq> []" "length m < 2 ^ 31" using assms c by (auto simp: ws_ok_def)
    ultimately show ?thesis using msg nc by blast
  qed
qed

lemma read_frame_step:
  assumes "ws_ok c" "readBuf c = None" "0 < n"
  shows "\<exists>bs e c'. read_frame NoDeadline edl n c = Some ((bs, e), c') \<and> ws_ok c' \<and> int (length bs) \<le> n \<and>
    ws_bytes c = bs @ ws_bytes c' \<and> (e \<noteq> None \<longrightarrow> e = Some EOF \<and> ws_bytes c' = []) \<and> (e = None \<longrightarrow> bs \<noteq> [])"
  using assms(1)
proof (cases rule: ws_ok_cases)
  case (msg m fs)
  let ?b = "take (nat n) m" and ?c = "c\<lparr>ws_ch := fs\<rparr>"
  have r: "receiveFrame NoDeadline edl c = Some ((Some m, None), ?c)"
    using msg by (simp add: receiveFrame_def ch_recv_def handleFrame_def)
  have b: "?b \<noteq> []" using msg(2) assms(3) by simp
  show ?thesis
  proof (cases "length ?b \<ge> length m")
    case True
    then show ?thesis using r msg b assms(2,3)
      by (intro exI [of _ ?b] exI [of _ None] exI [of _ ?c]) (auto simp: read_frame_def ws_bytes_def)
  next
    case False
    let ?d = "drop (length ?b) m"
    let ?c2 = "?c\<lparr>readBuf := Some (NewReader ?d)\<rparr>"
    have ok: "br_ok (NewReader ?d)" "br_rest (NewReader ?d) = ?d" using br_ok_new [of ?d] msg(3) by simp_all
    have n: "nat n < length m" using False by auto
    have "ws_ok ?c2" using msg(4) ok(1) by (simp add: ws_ok_def)
    moreover have "read_frame NoDeadline edl n c = Some ((?b, None), ?c2)"
      using r False by (simp add: read_frame_def)
    moreover have "ws_bytes c = ?b @ ws_bytes ?c2"
      using msg(1) assms(2) ok(2) n by (simp add: ws_bytes_def)
    ultimately show ?thesis using b assms(3) n by (intro exI [of _ ?b] exI [of _ None] exI [of _ ?c2]) simp
  qed
next
  case close
  then show ?thesis using assms
    by (auto simp: read_frame_def receiveFrame_def ch_recv_def handleFrame_def ws_ok_def ws_bytes_def)
next
  case closed
  then show ?thesis using assms
    by (auto simp: read_frame_def receiveFrame_def ch_recv_def handleFrame_def ws_ok_def ws_bytes_def)
qed

lemma ws_Read_step:
  assumes "ws_ok c" "0 < n" "n < 2 ^ 31"
  shows "\<exists>bs e c'. ws_Read NoDeadline edl n c = Some ((bs, e), c') \<and> ws_ok c' \<and> int (length bs) \<le> n \<and>
    ws_bytes c = bs @ ws_bytes c' \<and> (e \<noteq> None \<longrightarrow> e = Some EOF \<and> ws_bytes c' = []) \<and> (e = None \<longrightarrow> bs \<noteq> [])"
proof (cases "readBuf c")
  case None
  then show ?thesis using read_frame_step [OF assms(1) None assms(2)] by (simp add: ws_Read_def)
next
  case (Some rb)
  have ok: "br_ok rb" using assms(1) Some by (simp add: ws_ok_def)
  obtain bs e rb' where r: "br_Read n rb = ((bs, e), rb')" by (metis prod.exhaust)
  note s = br_Read_step [OF ok assms(2,3) r]
  let ?c = "c\<lparr>readBuf := None\<rparr>"
  show ?thesis
  proof (cases e)
    case None
    then have "bs \<noteq> []" using s by simp
    then have "ws_Read NoDeadline edl n c = Some ((bs, None), c\<lparr>readBuf := Some rb'\<rparr>)"
      using Some r None by (simp add: ws_Read_def)
    then show ?thesis using s Some assms(1) \<open>bs \<noteq> []\<close> by (simp add: ws_bytes_def ws_ok_def)
  next
    case e: (Some x)
    then have x: "x = EOF" "br_rest rb' = []" using s by simp_all
    have nil: "bs = []" using r e by (auto simp: br_Read_def split: if_splits)
    then have "ws_Read NoDeadline edl n c = read_frame NoDeadline edl n ?c" using Some r e x by (simp add: ws_Read_def)
    moreover have "ws_ok ?c" using assms(1) by (simp add: ws_ok_def)
    moreover have "ws_bytes ?c = ws_bytes c" using Some s nil x by (simp add: ws_bytes_def)
    ultimately show ?thesis using read_frame_step [of ?c n edl] assms(2) by simp
  qed
qed

interpretation ws_reader: reader ws_reader ws_bytes ws_ok
proof -
  have "ws_ok c \<Longrightarrow> 0 < n \<Longrightarrow> n < 2 ^ 31 \<Longrightarrow> ws_reader n c = ((bs, e), c') \<Longrightarrow>
      ws_ok c' \<and> int (length bs) \<le> n \<and> ws_bytes c = bs @ ws_bytes c' \<and>
      (e \<noteq> None \<longrightarrow> e = Some EOF \<and> ws_bytes c' = []) \<and> (e = None \<longrightarrow> bs \<noteq> [])" for c n bs e c'
    using ws_Read_step [of c n ErrTimeout] by (auto simp: ws_reader_def)
  then show "reader ws_reader ws_bytes ws_ok" by unfold_locales blast+
qed

text \<open>
  \<open>Read\<close> with an empty slice loses data: while \<open>readBuf\<close> still holds bytes of the last message, such a
  call goes on to receive the next message and puts it in the place of those bytes; it returns no error.
\<close>

theorem empty_read_drops:
  assumes "readBuf c = Some rb" "br_ok rb" "br_rest rb \<noteq> []" "ws_ch c = Some m # fs" "m \<noteq> []" "length m < 2 ^ 31"
  shows "\<exists>c'. ws_Read NoDeadline edl 0 c = Some (([], None), c') \<and>
    ws_bytes c = br_rest rb @ ws_bytes c' \<and> ws_bytes c' = m @ concat (messages fs)"
proof -
  have "\<not> br_done rb" using br_done_iff [OF assms(2)] assms(3) by simp
  then obtain rb' where r: "br_Read 0 rb = (([], None), rb')" by (simp add: br_Read_def)
  have n: "br_rest (NewReader m) = m" using br_ok_new [OF assms(6)] by simp
  have "ws_Read NoDeadline edl 0 c = Some (([], None), c\<lparr>readBuf := Some (NewReader m), ws_ch := fs\<rparr>)"
    using assms(1,4,5) r by (simp add: ws_Read_def read_frame_def receiveFrame_def ch_recv_def handleFrame_def)
  then show ?thesis using assms(1,4) n by (simp add: ws_bytes_def)
qed

theorem empty_read_drops_witness:
  "\<exists>c'. ws_Read NoDeadline ErrTimeout 0 (onMessage [7, 8] (ws_init\<lparr>readBuf := Some (NewReader [1, 2])\<rparr>)) = Some (([], None), c') \<and>
    ws_bytes c' = [7, 8]"
proof -
  have b: "br_ok (NewReader [1, 2])" "br_rest (NewReader [1, 2]) = [1, 2]" using br_ok_new [of "[1, 2]"] by simp_all
  show ?thesis
    using empty_read_drops [of "onMessage [7, 8] (ws_init\<lparr>readBuf := Some (NewReader [1, 2])\<rparr>)" "NewReader [1, 2]"
        "[7, 8]" "[]" ErrTimeout] b
    by (auto simp: ws_init_def onMessage_def)
qed

end
