(* ===== verification/Smux_Write.thy ===== *)
theory Smux_Write
  imports Smux_Stream Websocket
begin

text \<open>
  Sending on a smux stream: \<open>writeFrameInternal\<close> and \<open>sendLoop\<close> of the session, which carry one frame to the
  connection, and \<open>Write\<close> and \<open>writeV2\<close> of the stream, which cut data into frames.  The loops rest on the
  contract \<open>frame_writer\<close>, which the session's path provides.
\<close>

section \<open>One frame\<close>

text \<open>
  What becomes of the request for a frame: the shaper and \<open>sendLoop\<close> pass it on (with what the WebSocket's
  \<open>send\<close> does), or one of the other events of the two \<open>$select\<close>s of \<open>writeFrameInternal\<close> comes first, or
  nothing ever happens.  The error slot of \<open>SessionWriteError\<close> was stored before its channel was closed.

  The model is one call at a time, from the request to its answer.  After \<open>DeadlineHit\<close> or \<open>SessionDied\<close> the request may still
  be in the shaper's queue, and \<open>sendLoop\<close> may send its frame later, when nobody waits for the answer.  \<open>wire\<close> and
  \<open>acked\<close> hold what was sent before the answers, so the theorems that say what the other side gets are stated for writes whose
  calls succeed; of a write that fails they give what it had sent when its last answer came.
\<close>

datatype frame_event = Sent js_outcome | SessionDied | SessionWriteError go_error | DeadlineHit | Waits

record session_out =
  sendbuf :: "int list"                \<comment> \<open>the buffer of \<open>sendLoop\<close>\<close>
  wire :: "int list"                   \<comment> \<open>the bytes given to the connection\<close>
  acked :: "(frame \<times> js64) list"     \<comment> \<open>the frames written without error, with their priorities\<close>
  event_at :: "nat \<Rightarrow> frame_event"
  requests :: nat

definition session_out_init :: "(nat \<Rightarrow> frame_event) \<Rightarrow> session_out" where
  "session_out_init ev = \<lparr>sendbuf = replicate 65544 0, wire = [], acked = [], event_at = ev, requests = 0\<rparr>"

text \<open>
  The part of \<open>sendLoop\<close> that writes one frame: the answer, the buffer and the bytes that reached the
  connection.
\<close>

definition sendLoop_frame :: "int list \<Rightarrow> frame \<Rightarrow> js_outcome \<Rightarrow> ((int \<times> go_error option) \<times> int list \<times> int list) res" where
  "sendLoop_frame b k oc =
     res_bind (encode_frame b k) (\<lambda>(b', out).
     res_bind (ws_Write oc out) (\<lambda>(c, d).
       let c = js_sar (c - 8) 0; c = (if c < 0 then 0 else c)
       in Inr ((c, d), b', if d = None then out else [])))"

definition writeFrameInternal :: "frame \<Rightarrow> js64 \<Rightarrow> session_out \<Rightarrow> ((int \<times> go_error option) \<times> session_out) option" where
  "writeFrameInternal a pr s =
     (let s' = s\<lparr>requests := requests s + 1\<rparr> in
      case event_at s (requests s) of
        SessionDied \<Rightarrow> Some ((0, Some ErrClosedPipe), s')
      | SessionWriteError e \<Rightarrow> Some ((0, Some e), s')
      | DeadlineHit \<Rightarrow> Some ((0, Some ErrTimeout), s')
      | Waits \<Rightarrow> None
      | Sent oc \<Rightarrow>
          (case sendLoop_frame (sendbuf s) a oc of
             Inl _ \<Rightarrow> None
           | Inr ((n, e), b, out) \<Rightarrow>
               Some ((n, e), s'\<lparr>sendbuf := b, wire := wire s @ out,
                               acked := (if e = None then acked s @ [(a, pr)] else acked s)\<rparr>)))"

section \<open>Cutting data into frames\<close>

type_synonym 's frame_writer = "frame \<Rightarrow> js64 \<Rightarrow> 's \<Rightarrow> ((int \<times> go_error option) \<times> 's) option"

text \<open>
  The loop shared by \<open>Write\<close> and \<open>writeV2\<close> over \<open>q\<close>, the data still to be sent: a frame of at most
  \<open>frameSize\<close> bytes is sent with \<open>writeFrameInternal\<close> (\<open>wfi\<close>, given the frame and its priority, the old
  \<open>numWritten\<close>) before the next; \<open>cnt\<close> is what a frame of that many bytes adds to \<open>numWritten\<close>
  (1 in \<open>Write\<close>, the bytes in \<open>writeV2\<close>); \<open>sent\<close> counts the bytes written.
\<close>

partial_function (option) write_loop ::
  "(int \<Rightarrow> int) \<Rightarrow> 's frame_writer \<Rightarrow> frame \<Rightarrow> int list \<Rightarrow> int \<Rightarrow> stream \<Rightarrow> 's
     \<Rightarrow> ((int \<times> go_error option) \<times> stream \<times> 's) option" where
  "write_loop cnt wfi p q sent st s =
     (if q = [] then Some ((sent, None), st, s)
      else let r = (if int (length q) > frameSize st then frameSize st else int (length q));
               p' = p\<lparr>data := take (nat r) q\<rparr>
           in Option.bind (wfi p' (uint64_of (numWritten st)) s) (\<lambda>((n, e), s').
             let st' = st\<lparr>numWritten := js_shr (numWritten st + cnt r) 0\<rparr>;
                 sent' = js_sar (sent + n) 0
             in if e \<noteq> None then Some ((sent', e), st', s')
                else write_loop cnt wfi p' (drop (nat r) q) sent' st' s'))"

definition Write_v1 :: "'s frame_writer \<Rightarrow> config \<Rightarrow> int list \<Rightarrow> stream \<Rightarrow> 's \<Rightarrow> ((int \<times> go_error option) \<times> stream \<times> 's) option" where
  "Write_v1 wfi cf a st s =
     (if st_die st then Some ((0, Some ErrClosedPipe), st, s)
      else write_loop (\<lambda>_. 1) wfi (newFrame (to_u8 (Version cf)) cmdPSH (st_id st)) a 0 st s)"

text \<open>
  The head of the loop of \<open>writeV2\<close> with \<open>a\<close> still to be written: \<open>ErrConsumed\<close> when the peer claims to
  have consumed more than was sent, otherwise the part that fits the peer's window and the rest.
\<close>

definition write_window :: "int list \<Rightarrow> stream \<Rightarrow> (go_error, int list \<times> int list) sum" where
  "write_window a st =
     (let inflight = js_sar (js_shr (numWritten st - peerConsumed st) 0) 0 in
      if inflight < 0 then Inl ErrConsumed
      else let win = js_sar (js_sar (peerWindow st) 0 - inflight) 0 in
           if win > 0 then (if win > js_sar (int (length a)) 0 then Inr (a, [])
                            else Inr (take (nat win) a, drop (nat win) a))
           else Inr ([], a))"

text \<open>
  \<open>writeV2\<close>, with the events its \<open>$select\<close> picks while the window is full.  \<open>Updated\<close> is a window update
  that \<open>recvLoop\<close> stores with \<open>update\<close> and whose token the select takes.  With the events used up the call
  waits, having written \<open>sent\<close> bytes with \<open>a\<close> left.
\<close>

datatype write_event = PeerFin | StreamDied | WriteTimeout | SocketWriteError go_error | Updated int int

datatype write_result = Finished int "go_error option" | Blocked "int list" int

text \<open>One turn of the loop, up to its end or to the wait.\<close>

definition writeV2_turn :: "'s frame_writer \<Rightarrow> frame \<Rightarrow> int list \<Rightarrow> int \<Rightarrow> stream \<Rightarrow> 's
    \<Rightarrow> (write_result \<times> stream \<times> 's) option" where
  "writeV2_turn wfi p a sent st s =
     (case write_window a st of
        Inl e \<Rightarrow> Some (Finished 0 (Some e), st, s)
      | Inr (q, a') \<Rightarrow>
          Option.bind (write_loop (\<lambda>v. js_shr v 0) wfi p q sent st s) (\<lambda>((sent', e), st', s').
            Some (if e \<noteq> None then Finished sent' e else if a' \<noteq> [] then Blocked a' sent' else Finished sent' None, st', s')))"

fun writeV2_loop :: "'s frame_writer \<Rightarrow> frame \<Rightarrow> write_event list \<Rightarrow> int list \<Rightarrow> int \<Rightarrow> stream \<Rightarrow> 's
    \<Rightarrow> (write_result \<times> stream \<times> 's) option" where
  "writeV2_loop wfi p [] a sent st s = writeV2_turn wfi p a sent st s"
| "writeV2_loop wfi p (ev # evs) a sent st s =
     (case writeV2_turn wfi p a sent st s of
        Some (Blocked a' sent', st', s') \<Rightarrow>
          (case ev of
             PeerFin \<Rightarrow> Some (Finished 0 (Some EOF), st', s')
           | StreamDied \<Rightarrow> Some (Finished sent' (Some ErrClosedPipe), st', s')
           | WriteTimeout \<Rightarrow> Some (Finished sent' (Some ErrTimeout), st', s')
           | SocketWriteError e \<Rightarrow> Some (Finished sent' (Some e), st', s')
           | Updated consumed window \<Rightarrow>
               writeV2_loop wfi p evs a' sent' ((update consumed window st')\<lparr>chUpdate := False\<rparr>) s')
      | r \<Rightarrow> r)"

definition writeV2 :: "'s frame_writer \<Rightarrow> config \<Rightarrow> write_event list \<Rightarrow> int list \<Rightarrow> stream \<Rightarrow> 's
    \<Rightarrow> (write_result \<times> stream \<times> 's) option" where
  "writeV2 wfi cf evs a st s =
     (if a = [] then Some (Finished 0 None, st, s)
      else if st_die st then Some (Finished 0 (Some ErrClosedPipe), st, s)
      else writeV2_loop wfi (newFrame (to_u8 (Version cf)) cmdPSH (st_id st)) evs a 0 st s)"

section \<open>The contract of a frame writer\<close>

function chunk_list :: "nat \<Rightarrow> 'a list \<Rightarrow> 'a list list" where
  "chunk_list k xs = (if k = 0 \<or> xs = [] then [] else take k xs # chunk_list k (drop k xs))"
  by pat_completeness auto
termination by (relation "measure (\<lambda>(k, xs). length xs)") auto

declare chunk_list.simps [simp del]

lemma chunk_list_Nil [simp]: "chunk_list k [] = []"
  by (subst chunk_list.simps) simp

lemma chunk_list_cons: "0 < k \<Longrightarrow> xs \<noteq> [] \<Longrightarrow> chunk_list k xs = take k xs # chunk_list k (drop k xs)"
  by (subst chunk_list.simps) simp

lemma concat_chunk_list: "0 < k \<Longrightarrow> concat (chunk_list k xs) = xs"
proof (induction k xs rule: chunk_list.induct)
  case (1 k xs)
  then show ?case by (cases "xs = []") (simp_all add: chunk_list_cons)
qed

lemma chunk_list_length: "c \<in> set (chunk_list k xs) \<Longrightarrow> 0 < length c \<and> length c \<le> k"
proof (induction k xs rule: chunk_list.induct)
  case (1 k xs)
  then show ?case by (subst (asm) chunk_list.simps) (auto split: if_splits)
qed

text \<open>The frames with their priorities for chunks \<open>cs\<close>, from counter \<open>n\<close> on, and the counter after them.\<close>

fun frames_of :: "(int \<Rightarrow> int) \<Rightarrow> frame \<Rightarrow> int \<Rightarrow> int list list \<Rightarrow> (frame \<times> js64) list" where
  "frames_of cnt p n [] = []"
| "frames_of cnt p n (c # cs) =
     (p\<lparr>data := c\<rparr>, uint64_of n) # frames_of cnt p (js_shr (n + cnt (int (length c))) 0) cs"

fun count_after :: "(int \<Rightarrow> int) \<Rightarrow> int \<Rightarrow> int list list \<Rightarrow> int" where
  "count_after cnt n [] = n"
| "count_after cnt n (c # cs) = count_after cnt (js_shr (n + cnt (int (length c))) 0) cs"

lemma frames_of_data [simp]: "frames_of cnt (p\<lparr>data := d\<rparr>) n cs = frames_of cnt p n cs"
  by (induction cs arbitrary: n) simp_all

lemma map_frames_of: "map (data \<circ> fst) (frames_of cnt p n cs) = cs"
  by (induction cs arbitrary: n) simp_all

locale frame_writer =
  fixes wfi :: "'s frame_writer" and log :: "'s \<Rightarrow> (frame \<times> js64) list" and inv :: "'s \<Rightarrow> bool" and good :: "'s \<Rightarrow> bool"
  assumes ack: "inv s \<Longrightarrow> frame_ok p \<Longrightarrow> wfi p pr s = Some ((n, e), s') \<Longrightarrow> inv s' \<and> 0 \<le> n \<and> n \<le> int (length (data p)) \<and>
      (e = None \<longrightarrow> n = int (length (data p)) \<and> log s' = log s @ [(p, pr)]) \<and> (e \<noteq> None \<longrightarrow> log s' = log s)"
    and good_ack: "inv s \<Longrightarrow> good s \<Longrightarrow> frame_ok p \<Longrightarrow> \<exists>s' n. wfi p pr s = Some ((n, None), s') \<and> good s'"
begin

text \<open>What the loop has done when it returns, whatever the writer answers.\<close>

lemma write_loop_spec:
  assumes "inv s" "frame_ok (p\<lparr>data := []\<rparr>)" "0 < frameSize st" "frameSize st < 65536"
    and "0 \<le> sent" "sent + int (length q) < 2 ^ 31"
    and "write_loop cnt wfi p q sent st s = Some ((n, e), st', s')"
  shows "inv s' \<and> (\<exists>nw. st' = st\<lparr>numWritten := nw\<rparr>) \<and> (\<exists>done rest. chunk_list (nat (frameSize st)) q = done @ rest \<and>
    log s' = log s @ frames_of cnt p (numWritten st) done \<and>
    sent + int (length (concat done)) \<le> n \<and> n \<le> sent + int (length q) \<and>
    (e = None \<longrightarrow> rest = [] \<and> numWritten st' = count_after cnt (numWritten st) done))"
  using assms
proof (induction "length q" arbitrary: q sent st p s rule: less_induct)
  case less
  let ?k = "nat (frameSize st)"
  show ?case
  proof (cases "q = []")
    case True
    then have "n = sent \<and> e = None \<and> st' = st \<and> s' = s" using less.prems(7) by (subst (asm) write_loop.simps) simp
    then show ?thesis using True less.prems(1)
      by (intro conjI exI [of _ "numWritten st"] exI [of _ "[]"]) simp_all
  next
    case False
    define r where "r = (if int (length q) > frameSize st then frameSize st else int (length q))"
    define c where "c = take ?k q"
    have rc: "take (nat r) q = c" "drop (nat r) q = drop ?k q" and rl: "int (length c) = r"
      using less.prems(3) by (auto simp: r_def c_def)
    have cl: "chunk_list ?k q = c # chunk_list ?k (drop ?k q)"
      using False less.prems(3) by (simp add: chunk_list_cons c_def)
    define p' where "p' = p\<lparr>data := c\<rparr>"
    define st1 where "st1 = st\<lparr>numWritten := js_shr (numWritten st + cnt r) 0\<rparr>"
    have lc: "length c \<le> ?k" by (simp add: c_def)
    have p': "frame_ok p'" "p'\<lparr>data := []\<rparr> = p\<lparr>data := []\<rparr>"
      using less.prems(2,3,4) lc by (auto simp: p'_def frame_ok_def)
    have step: "write_loop cnt wfi p q sent st s = Option.bind (wfi p' (uint64_of (numWritten st)) s) (\<lambda>((m, e1), s1).
        if e1 \<noteq> None then Some ((js_sar (sent + m) 0, e1), st1, s1)
        else write_loop cnt wfi p' (drop ?k q) (js_sar (sent + m) 0) st1 s1)"
      using False by (subst write_loop.simps) (simp add: Let_def r_def [symmetric] rc p'_def st1_def cong: if_cong)
    from less.prems(7) obtain m e1 s1 where w: "wfi p' (uint64_of (numWritten st)) s = Some ((m, e1), s1)"
      and eq: "(if e1 \<noteq> None then Some ((js_sar (sent + m) 0, e1), st1, s1)
        else write_loop cnt wfi p' (drop ?k q) (js_sar (sent + m) 0) st1 s1) = Some ((n, e), st', s')"
      unfolding step by (auto simp only: bind_eq_Some_conv prod.case split_paired_Ex)
    note a = ack [OF less.prems(1) p'(1) w]
    have dp: "data p' = c" by (simp add: p'_def)
    have lq: "length c \<le> length q" by (simp add: c_def)
    have sm: "js_sar (sent + m) 0 = sent + m" using a less.prems(5,6) lq by (simp add: js_sar_eq ToInt32_id dp)
    show ?thesis
    proof (cases "e1 = None")
      case False
      then have "n = sent + m" "e = e1" "st' = st1" "s' = s1" using eq sm by simp_all
      moreover obtain x where "e1 = Some x" using False by auto
      ultimately show ?thesis using a less.prems(5) lq dp
        by (intro conjI exI [of _ "[]"] exI [of _ "chunk_list ?k q"]) (auto simp: st1_def)
    next
      case True
      then have m: "m = int (length c)" "log s1 = log s @ [(p', uint64_of (numWritten st))]" "inv s1" using a dp by simp_all
      have eq': "write_loop cnt wfi p' (drop ?k q) (sent + int (length c)) st1 s1 = Some ((n, e), st', s')"
        using eq True sm m by simp
      have less': "length (drop ?k q) < length q" using False less.prems(3) by (cases q) simp_all
      have lcd: "int (length c) + int (length (drop ?k q)) = int (length q)"
        unfolding c_def by (metis append_take_drop_id length_append of_nat_add)
      have fs: "frameSize st1 = frameSize st" by (simp add: st1_def)
      have len: "sent + int (length c) + int (length (drop ?k q)) < 2 ^ 31" "0 \<le> sent + int (length c)"
        using less.prems(5,6) lcd by simp_all
      from less.hyps [OF less' m(3), of p' st1 "sent + int (length c)"] p'(2) less.prems(2,3,4) fs len eq'
      have IH: "inv s'" "\<exists>nw. st' = st1\<lparr>numWritten := nw\<rparr>" "\<exists>done rest. chunk_list ?k (drop ?k q) = done @ rest \<and>
        log s' = log s1 @ frames_of cnt p' (numWritten st1) done \<and>
        sent + int (length c) + int (length (concat done)) \<le> n \<and> n \<le> sent + int (length c) + int (length (drop ?k q)) \<and>
        (e = None \<longrightarrow> rest = [] \<and> numWritten st' = count_after cnt (numWritten st1) done)" by simp_all
      from IH(3) obtain cs rest where cs: "chunk_list ?k (drop ?k q) = cs @ rest"
        "log s' = log s1 @ frames_of cnt p' (numWritten st1) cs"
        "sent + int (length c) + int (length (concat cs)) \<le> n" "n \<le> sent + int (length c) + int (length (drop ?k q))"
        "e = None \<longrightarrow> rest = [] \<and> numWritten st' = count_after cnt (numWritten st1) cs" by blast
      have "log s' = log s @ frames_of cnt p (numWritten st) (c # cs)"
        using cs(2) m(2) rl by (simp add: p'_def st1_def)
      moreover have "count_after cnt (numWritten st1) cs = count_after cnt (numWritten st) (c # cs)"
        using rl by (simp add: st1_def)
      moreover have "\<exists>nw. st' = st\<lparr>numWritten := nw\<rparr>" using IH(2) by (auto simp: st1_def)
      ultimately show ?thesis using IH(1) cs cl lcd
        by (intro conjI exI [of _ "c # cs"] exI [of _ rest]) simp_all
    qed
  qed
qed

text \<open>A good writer lets the loop finish.\<close>

lemma write_loop_good:
  assumes "inv s" "good s" "frame_ok (p\<lparr>data := []\<rparr>)" "0 < frameSize st" "frameSize st < 65536"
  shows "\<exists>n st' s'. write_loop cnt wfi p q sent st s = Some ((n, None), st', s') \<and> good s'"
  using assms
proof (induction "length q" arbitrary: q sent st p s rule: less_induct)
  case less
  show ?case
  proof (cases "q = []")
    case True
    then show ?thesis using less.prems by (subst write_loop.simps) simp
  next
    case False
    define r where "r = (if int (length q) > frameSize st then frameSize st else int (length q))"
    let ?c = "take (nat r) q"
    let ?p = "p\<lparr>data := ?c\<rparr>"
    let ?st = "st\<lparr>numWritten := js_shr (numWritten st + cnt r) 0\<rparr>"
    have r: "0 < nat r" "r < 65536" using False less.prems(4,5) by (auto simp: r_def)
    have p': "frame_ok ?p" "frame_ok (?p\<lparr>data := []\<rparr>)"
      using less.prems(3) r by (auto simp: frame_ok_def)
    obtain s1 n where w: "wfi ?p (uint64_of (numWritten st)) s = Some ((n, None), s1)" "good s1"
      using good_ack [OF less.prems(1,2) p'(1)] by blast
    have i: "inv s1" using ack [OF less.prems(1) p'(1) w(1)] by simp
    have "length (drop (nat r) q) < length q" using False r by (cases q) simp_all
    from less.hyps [OF this i w(2) p'(2), of ?st "js_sar (sent + n) 0"] less.prems(4,5)
    obtain m st' s' where "write_loop cnt wfi ?p (drop (nat r) q) (js_sar (sent + n) 0) ?st s1 = Some ((m, None), st', s')"
      "good s'" by auto
    then show ?thesis using False w(1) by (subst write_loop.simps) (simp add: Let_def r_def)
  qed
qed

end

section \<open>The session as a frame writer\<close>

definition frame_bytes :: "frame \<Rightarrow> int list" where
  "frame_bytes p = header_bytes p @ data p"

definition out_ok :: "session_out \<Rightarrow> bool" where
  "out_ok s \<longleftrightarrow> length (sendbuf s) = 65544 \<and> wire s = concat (map (frame_bytes \<circ> fst) (acked s))"

definition reliable :: "session_out \<Rightarrow> bool" where
  "reliable s \<longleftrightarrow> (\<forall>i \<ge> requests s. event_at s i = Sent Returned)"

lemma out_ok_init: "out_ok (session_out_init ev)"
  by (simp add: out_ok_def session_out_init_def)

lemma sendLoop_frame_ok:
  assumes "frame_ok p" "length b = 65544"
  shows "\<exists>b'. length b' = 65544 \<and>
    sendLoop_frame b p Returned = Inr ((int (length (data p)), None), b', frame_bytes p) \<and>
    (\<forall>e. sendLoop_frame b p (ThrewError e) = Inr ((0, Some e), b', [])) \<and>
    (\<forall>x. sendLoop_frame b p (ThrewOther x) = Inl x)"
proof -
  have l: "length (data p) < 65536" using assms(1) by (simp add: frame_ok_def)
  then have "8 + length (data p) \<le> length b" using assms(2) by simp
  from encode_frame_bytes [OF assms(1) this] obtain b' where
    b': "encode_frame b p = Inr (b', header_bytes p @ data p)" "length b' = length b" by blast
  have c: "js_sar (int (length (frame_bytes p)) - 8) 0 = int (length (data p))"
    using l by (simp add: frame_bytes_def js_sar_eq ToInt32_id)
  have m: "js_sar (- 8) 0 = - 8" by (simp add: js_sar_eq ToInt32_id)
  show ?thesis using b' assms(2) c m
    by (intro exI [of _ b']) (simp add: sendLoop_frame_def res_bind_simps ws_Write_cases frame_bytes_def [symmetric])
qed

interpretation session_writer: frame_writer writeFrameInternal acked out_ok reliable
proof (unfold_locales, goal_cases)
  case (1 s p pr n e s')
  then have b: "length (sendbuf s) = 65544" by (simp add: out_ok_def)
  obtain b' where b': "length b' = 65544"
    "sendLoop_frame (sendbuf s) p Returned = Inr ((int (length (data p)), None), b', frame_bytes p)"
    "\<And>e. sendLoop_frame (sendbuf s) p (ThrewError e) = Inr ((0, Some e), b', [])"
    "\<And>x. sendLoop_frame (sendbuf s) p (ThrewOther x) = Inl x"
    using sendLoop_frame_ok [OF 1(2) b] by blast
  show ?case
  proof (cases "event_at s (requests s)")
    case (Sent oc)
    then show ?thesis using 1(1,3) b' by (cases oc) (auto simp: writeFrameInternal_def Let_def out_ok_def)
  qed (use 1(1,3) in \<open>auto simp: writeFrameInternal_def Let_def out_ok_def\<close>)
next
  case (2 s p pr)
  then have b: "length (sendbuf s) = 65544" by (simp add: out_ok_def)
  obtain b' where "sendLoop_frame (sendbuf s) p Returned = Inr ((int (length (data p)), None), b', frame_bytes p)"
    using sendLoop_frame_ok [OF 2(3) b] by blast
  then show ?case using 2(2) by (auto simp: writeFrameInternal_def Let_def reliable_def)
qed

lemma wire_frames_of:
  "concat (map (frame_bytes \<circ> fst) (frames_of cnt p n cs)) = concat (map (\<lambda>c. frame_bytes (p\<lparr>data := c\<rparr>)) cs)"
  by (induction cs arbitrary: n) simp_all

definition stream_ok :: "config \<Rightarrow> stream \<Rightarrow> bool" where
  "stream_ok cf st \<longleftrightarrow> (Version cf = 1 \<or> Version cf = 2) \<and> u32_ok (st_id st) \<and> 0 < frameSize st \<and> frameSize st < 65536"

lemma psh_frame_ok: "stream_ok cf st \<Longrightarrow> frame_ok ((newFrame (to_u8 (Version cf)) cmdPSH (st_id st))\<lparr>data := []\<rparr>)"
  by (auto simp: stream_ok_def frame_ok_def newFrame_def to_u8_mod cmd_defs)

lemma Write_v1_spec:
  assumes "\<not> st_die st" "stream_ok cf st" "length a < 2 ^ 31" "out_ok s"
    and "Write_v1 writeFrameInternal cf a st s = Some ((n, e), st', s')"
  shows "out_ok s' \<and> (\<exists>nw. st' = st\<lparr>numWritten := nw\<rparr>) \<and> (\<exists>done rest. chunk_list (nat (frameSize st)) a = done @ rest \<and>
    acked s' = acked s @ frames_of (\<lambda>_. 1) (newFrame (to_u8 (Version cf)) cmdPSH (st_id st)) (numWritten st) done \<and>
    int (length (concat done)) \<le> n \<and> n \<le> int (length a) \<and> (e = None \<longrightarrow> rest = []))"
proof -
  have f: "0 < frameSize st" "frameSize st < 65536" using assms(2) by (simp_all add: stream_ok_def)
  have w: "write_loop (\<lambda>_. 1) writeFrameInternal (newFrame (to_u8 (Version cf)) cmdPSH (st_id st)) a 0 st s = Some ((n, e), st', s')"
    using assms(1,5) by (simp add: Write_v1_def)
  have l: "0 + int (length a) < 2 ^ 31" using assms(3) by simp
  from session_writer.write_loop_spec [OF assms(4) psh_frame_ok [OF assms(2)] f order_refl l w] show ?thesis
    by simp blast
qed

text \<open>
  C21: \<open>Write\<close> (version 1) over a session whose connection takes every frame returns the length of its data
  and no error; the frames it sends are PSH frames of its stream of at most \<open>frameSize\<close> bytes whose data
  make up exactly the data written, in order, numbered by the priorities \<open>numWritten\<close>, \<open>numWritten + 1\<close>,
  \<dots> modulo \<open>2 ^ 32\<close>, and the connection gets their headers and data one after the other.
\<close>

theorem Write_delivers:
  assumes "\<not> st_die st" "stream_ok cf st" "length a < 2 ^ 31" "out_ok s" "reliable s"
  shows "\<exists>st' s'. let p = newFrame (to_u8 (Version cf)) cmdPSH (st_id st); cs = chunk_list (nat (frameSize st)) a in
    Write_v1 writeFrameInternal cf a st s = Some ((int (length a), None), st', s') \<and>
    acked s' = acked s @ frames_of (\<lambda>_. 1) p (numWritten st) cs \<and>
    wire s' = wire s @ concat (map (\<lambda>c. frame_bytes (p\<lparr>data := c\<rparr>)) cs) \<and>
    concat cs = a \<and> (\<forall>c \<in> set cs. 0 < length c \<and> length c \<le> nat (frameSize st))"
proof -
  let ?p = "newFrame (to_u8 (Version cf)) cmdPSH (st_id st)" and ?cs = "chunk_list (nat (frameSize st)) a"
  have f: "0 < frameSize st" "frameSize st < 65536" using assms(2) by (simp_all add: stream_ok_def)
  obtain n st' s' where w: "Write_v1 writeFrameInternal cf a st s = Some ((n, None), st', s')"
    using session_writer.write_loop_good [OF assms(4,5) psh_frame_ok [OF assms(2)] f, of "\<lambda>_. 1" a 0] assms(1)
    by (auto simp: Write_v1_def)
  from Write_v1_spec [OF assms(1-4) w] have s: "out_ok s'" "acked s' = acked s @ frames_of (\<lambda>_. 1) ?p (numWritten st) ?cs"
    "int (length (concat ?cs)) \<le> n" "n \<le> int (length a)" by auto
  have c: "concat ?cs = a" using f by (simp add: concat_chunk_list)
  have "wire s' = wire s @ concat (map (\<lambda>c. frame_bytes (?p\<lparr>data := c\<rparr>)) ?cs)"
    using s(1,2) assms(4) by (simp add: out_ok_def wire_frames_of)
  then show ?thesis using w s c chunk_list_length [of _ "nat (frameSize st)" a]
    by (intro exI [of _ st'] exI [of _ s']) (simp add: Let_def)
qed

theorem Write_delivers_witness:
  "\<exists>st' s'. Write_v1 writeFrameInternal DefaultConfig [1, 2, 3, 4, 5] (newStream 3 2) (session_out_init (\<lambda>_. Sent Returned))
     = Some ((5, None), st', s') \<and> map (data \<circ> fst) (acked s') = [[1, 2], [3, 4], [5]]"
proof -
  have "chunk_list 2 [1, 2, 3, 4, 5 :: int] = [[1, 2], [3, 4], [5]]" by (simp add: chunk_list_cons)
  then show ?thesis
    using Write_delivers [of "newStream 3 2" DefaultConfig "[1, 2, 3, 4, 5]" "session_out_init (\<lambda>_. Sent Returned)"]
      out_ok_init [of "\<lambda>_. Sent Returned"]
    by (auto simp: newStream_def stream_ok_def DefaultConfig_def u32_ok_def reliable_def session_out_init_def
        Let_def map_frames_of simp del: frames_of.simps)
qed

text \<open>
  Whatever happens to the frames, a \<open>Write\<close> that returns has sent the first of its chunks in order and
  returns at least their bytes; a nil error means every chunk was sent.
\<close>

theorem Write_partial:
  assumes "\<not> st_die st" "stream_ok cf st" "length a < 2 ^ 31" "out_ok s"
    and "Write_v1 writeFrameInternal cf a st s = Some ((n, e), st', s')"
  shows "\<exists>done rest. let p = newFrame (to_u8 (Version cf)) cmdPSH (st_id st) in
    chunk_list (nat (frameSize st)) a = done @ rest \<and> acked s' = acked s @ frames_of (\<lambda>_. 1) p (numWritten st) done \<and>
    wire s' = wire s @ concat (map (\<lambda>c. frame_bytes (p\<lparr>data := c\<rparr>)) done) \<and>
    int (length (concat done)) \<le> n \<and> n \<le> int (length a) \<and> (e = None \<longrightarrow> rest = [] \<and> n = int (length a))"
proof -
  obtain cs rest where c: "out_ok s'" "chunk_list (nat (frameSize st)) a = cs @ rest"
    "acked s' = acked s @ frames_of (\<lambda>_. 1) (newFrame (to_u8 (Version cf)) cmdPSH (st_id st)) (numWritten st) cs"
    "int (length (concat cs)) \<le> n" "n \<le> int (length a)" "e = None \<longrightarrow> rest = []"
    using Write_v1_spec [OF assms] by blast
  have "e = None \<Longrightarrow> n = int (length a)"
    using c(2,4-6) concat_chunk_list [of "nat (frameSize st)" a] assms(2) by (simp add: stream_ok_def)
  then show ?thesis using c assms(4)
    by (intro exI [of _ cs] exI [of _ rest]) (simp add: Let_def out_ok_def wire_frames_of)
qed

theorem Write_partial_witness:
  "\<exists>n e st' s'. Write_v1 writeFrameInternal DefaultConfig [1, 2, 3, 4, 5] (newStream 3 2)
      (session_out_init (\<lambda>i. if i = 1 then DeadlineHit else Sent Returned)) = Some ((n, e), st', s') \<and> n \<le> 5"
proof -
  let ?s = "session_out_init (\<lambda>i. if i = 1 then DeadlineHit else Sent Returned)" and ?st = "newStream 3 2"
  have k: "\<not> st_die ?st" "stream_ok DefaultConfig ?st" "length [1, 2, 3, 4, 5 :: int] < 2 ^ 31"
    by (simp_all add: newStream_def stream_ok_def DefaultConfig_def u32_ok_def bytes_def)
  define p where "p = (newFrame (to_u8 (Version DefaultConfig)) cmdPSH (st_id ?st))\<lparr>data := [1, 2]\<rparr>"
  have p: "frame_ok p" "length (sendbuf ?s) = 65544"
    by (simp_all add: p_def newFrame_def frame_ok_def to_u8_mod DefaultConfig_def cmd_defs newStream_def u32_ok_def
        session_out_init_def)
  obtain b where b: "sendLoop_frame (sendbuf ?s) p Returned = Inr ((2, None), b, frame_bytes p)"
    using sendLoop_frame_ok [OF p] by (auto simp: p_def)
  have f: "frameSize ?st = 2" "numWritten ?st = 0" "event_at ?s 0 = Sent Returned" "requests ?s = 0"
    "event_at ?s 1 = DeadlineHit" by (simp_all add: newStream_def session_out_init_def)
  have "\<exists>n e st' s'. Write_v1 writeFrameInternal DefaultConfig [1, 2, 3, 4, 5] ?st ?s = Some ((n, e), st', s')"
    unfolding Write_v1_def using k(1) f b
    by (simp add: write_loop.simps [of _ _ _ "[1, 2, 3, 4, 5]"] write_loop.simps [of _ _ _ "[3, 4, 5]"]
        writeFrameInternal_def Let_def p_def)
  then obtain n e st' s' where w: "Write_v1 writeFrameInternal DefaultConfig [1, 2, 3, 4, 5] ?st ?s = Some ((n, e), st', s')"
    by blast
  from Write_partial [OF k out_ok_init w] have "n \<le> 5" by (auto simp: Let_def)
  with w show ?thesis by blast
qed

end
