(* ===== verification/Struc.thy ===== *)
theory Struc
  imports Bytes_Reader Encoding_Binary
begin

text \<open>
  \<open>struc.Unpack\<close> for structs of unsigned numbers, byte slices and strings (package \<open>lunixbochs/struc\<close>), and
  \<open>ReadRequest\<close> of the bridge's package \<open>proto\<close>, which uses it twice.  The field descriptors \<open>parseFields\<close>
  makes by reflection from the struct types and their tags are constants here.
\<close>

section \<open>Fields\<close>

record field =
  f_Type :: int          \<comment> \<open>5 uint8, 7 uint16, 9 uint32, 14 string\<close>
  f_Len :: int
  f_Slice :: bool
  f_String :: bool       \<comment> \<open>the Go kind is string\<close>
  f_Sizefrom :: "nat option"

datatype field_value = VUint int | VBytes "int list" | VString "int list"

text \<open>\<open>Type.Size\<close>.\<close>

definition type_Size :: "int \<Rightarrow> int res" where
  "type_Size c =
     (if c = 17 \<or> c = 18 then Inl (Panic ''Size_t/Off_t types must be converted to another type using options.PtrSize'')
      else if c = 1 \<or> c = 14 \<or> c = 4 \<or> c = 5 \<or> c = 2 then Inr 1
      else if c = 6 \<or> c = 7 then Inr 2
      else if c = 8 \<or> c = 9 \<or> c = 12 then Inr 4
      else if c = 10 \<or> c = 11 \<or> c = 13 then Inr 8
      else Inl (Panic ''Cannot resolve size of type:''))"

text \<open>\<open>sizefrom\<close>: the value of the counting field as an int; a negative one counts as 0.\<close>

definition sizefrom :: "field_value list \<Rightarrow> nat \<Rightarrow> int res" where
  "sizefrom vs c = (if length vs \<le> c then Inl (RuntimeError ''index out of range'')
     else case vs ! c of
       VUint u \<Rightarrow> Inr (let i = js_sar u 0 in if i < 0 then 0 else i)
     | _ \<Rightarrow> Inl (Panic ''sizeof field not an integer type''))"

text \<open>\<open>unpackVal\<close> for the unsigned types, in big-endian order.\<close>

definition unpackVal :: "int \<Rightarrow> int list \<Rightarrow> field_value res" where
  "unpackVal j b =
     (if j = 2 \<or> j = 5 then map_sum id VUint (js_index b 0)
      else if j = 7 then map_sum id VUint (BE_Uint16 b)
      else if j = 9 then map_sum id VUint (BE_Uint32 b)
      else Inl (Panic ''no unpack handler for type: ''))"

text \<open>\<open>Field.Unpack\<close> with the bytes \<open>b\<close> and the count \<open>d\<close>; the slices are of bytes.\<close>

definition field_Unpack :: "field \<Rightarrow> int list \<Rightarrow> int \<Rightarrow> field_value res" where
  "field_Unpack f b d =
     (if f_String f then Inr (VString b)
      else if f_Slice f then Inr (VBytes (take (nat d) b))
      else unpackVal (f_Type f) b)"

text \<open>
  \<open>Fields.Unpack\<close>: for every field its length (from an earlier field, or fixed), \<open>ReadFull\<close> of that many
  elements, and the conversion.  \<open>vs\<close> are the fields unpacked so far.
\<close>

fun fields_Unpack :: "'r read_fun \<Rightarrow> field list \<Rightarrow> field_value list \<Rightarrow> 'r \<Rightarrow> ((go_error option \<times> field_value list) res \<times> 'r) option" where
  "fields_Unpack rd [] vs r = Some (Inr (None, vs), r)"
| "fields_Unpack rd (l # ls) vs r =
     (case (case f_Sizefrom l of None \<Rightarrow> Inr (f_Len l) | Some c \<Rightarrow> sizefrom vs c) of
        Inl p \<Rightarrow> Some (Inl p, r)
      | Inr len \<Rightarrow>
     (case type_Size (f_Type l) of
        Inl p \<Rightarrow> Some (Inl p, r)
      | Inr sz \<Rightarrow>
          (let at = js_imul len sz in
           if at < 0 then Some (Inl (RuntimeError ''slice bounds out of range''), r)
           else case ReadFull rd (replicate (nat at) 0) r of
                  None \<Rightarrow> None
                | Some (h, n, e, r') \<Rightarrow>
                    (if e \<noteq> None then Some (Inr (e, vs), r')
                     else case field_Unpack l h len of
                            Inl p \<Rightarrow> Some (Inl p, r')
                          | Inr v \<Rightarrow> fields_Unpack rd ls (vs @ [v]) r'))))"

section \<open>Requests\<close>

definition WebsocketLength :: "field list" where
  "WebsocketLength = [\<lparr>f_Type = 9, f_Len = 1, f_Slice = False, f_String = False, f_Sizefrom = None\<rparr>,
     \<lparr>f_Type = 5, f_Len = -1, f_Slice = True, f_String = False, f_Sizefrom = Some 0\<rparr>]"

definition WebsocketConnectionRequest :: "field list" where
  "WebsocketConnectionRequest = [\<lparr>f_Type = 9, f_Len = 1, f_Slice = False, f_String = False, f_Sizefrom = None\<rparr>,
     \<lparr>f_Type = 14, f_Len = 1, f_Slice = False, f_String = True, f_Sizefrom = Some 0\<rparr>]"

text \<open>The result of \<open>ReadRequest\<close>: an error, or the destination.\<close>

definition ReadRequest :: "'r read_fun \<Rightarrow> 'r \<Rightarrow> ((go_error, int list) sum res \<times> 'r) option" where
  "ReadRequest rd r =
     (case fields_Unpack rd WebsocketLength [] r of
        None \<Rightarrow> None
      | Some (Inl p, r') \<Rightarrow> Some (Inl p, r')
      | Some (Inr (Some e, _), r') \<Rightarrow> Some (Inr (Inl e), r')
      | Some (Inr (None, vs), r') \<Rightarrow>
          (case fields_Unpack br_Read WebsocketConnectionRequest [] (NewReader (case vs ! 1 of VBytes d \<Rightarrow> d | _ \<Rightarrow> [])) of
             None \<Rightarrow> None
           | Some (Inl p, _) \<Rightarrow> Some (Inl p, r')
           | Some (Inr (Some e, _), _) \<Rightarrow> Some (Inr (Inl e), r')
           | Some (Inr (None, ws), _) \<Rightarrow> Some (Inr (Inr (case ws ! 1 of VString s \<Rightarrow> s | _ \<Rightarrow> [])), r')))"

text \<open>The wire form of a request: both lengths as 32-bit big-endian numbers.\<close>

definition be_bytes4 :: "int \<Rightarrow> int list" where
  "be_bytes4 n = rev (le_bytes 4 n)"

definition request_bytes :: "int list \<Rightarrow> int list" where
  "request_bytes dest = be_bytes4 (int (length dest) + 4) @ be_bytes4 (int (length dest)) @ dest"

lemma be_bytes4_length [simp]: "length (be_bytes4 n) = 4"
  by (simp add: be_bytes4_def)

lemma BE_Uint32_be_bytes4: "u32_ok n \<Longrightarrow> BE_Uint32 (be_bytes4 n) = Inr n"
proof -
  assume n: "u32_ok n"
  have "bytes (be_bytes4 n)" using bytes_le_bytes [of 4 n] by (simp add: be_bytes4_def bytes_def)
  from be32.get_num [OF this] obtain v where "BE_Uint32 (be_bytes4 n) = Inr v" "v = le_value (le_bytes 4 n)"
    by (auto simp: be_bytes4_def)
  then show ?thesis using n by (simp add: le_value_le_bytes u32_ok_def)
qed

context reader
begin

text \<open>One length field and the data after it.\<close>

lemma Unpack_sized:
  assumes "inv r" "n < 2 ^ 31" "stream r = be_bytes4 (int n) @ d" "f_Type l = 5 \<or> f_Type l = 14" "f_Sizefrom l = Some 0"
    and "f_String l \<longleftrightarrow> f_Type l = 14" "f_Slice l \<longleftrightarrow> f_Type l = 5"
  shows "\<exists>r'. fields_Unpack rd [\<lparr>f_Type = 9, f_Len = 1, f_Slice = False, f_String = False, f_Sizefrom = None\<rparr>, l] [] r =
     Some (Inr (if n \<le> length d then (None, [VUint (int n), if f_String l then VString (take n d) else VBytes (take n d)])
                else (Some (if d = [] then EOF else ErrUnexpectedEOF), [VUint (int n)])), r') \<and>
     inv r' \<and> stream r' = drop n d"
proof -
  have k: "js_imul 1 4 = 4" "js_imul (int n) 1 = int n" "js_sar (int n) 0 = int n"
    using assms(2) by (simp_all add: js_imul_def js_sar_eq ToInt32_id)
  have l4: "length (replicate 4 (0::int)) < 2 ^ 31" "length (replicate n (0::int)) < 2 ^ 31" using assms(2) by simp_all
  obtain r1 where r1: "inv r1" "ReadFull rd (replicate 4 0) r = Some (be_bytes4 (int n), 4, None, r1)" "stream r1 = d"
    using ReadFull_spec [OF assms(1) l4(1)] assms(3) by (auto simp: Let_def)
  obtain r2 where r2: "inv r2" "stream r2 = drop n d"
    "ReadFull rd (replicate n 0) r1 = Some (take n d @ replicate (n - length d) 0, int (min n (length d)),
       if n \<le> length d then None else if d = [] then Some EOF else Some ErrUnexpectedEOF, r2)"
    using ReadFull_spec [OF r1(1) l4(2)] r1(3) by (auto simp: Let_def min_def split: if_splits)
  have u: "BE_Uint32 (be_bytes4 (int n)) = Inr (int n)"
    using BE_Uint32_be_bytes4 assms(2) by (simp add: u32_ok_def)
  have f: "field_Unpack \<lparr>f_Type = 9, f_Len = 1, f_Slice = False, f_String = False, f_Sizefrom = None\<rparr> (be_bytes4 (int n)) 1
      = Inr (VUint (int n))" using u by (simp add: field_Unpack_def unpackVal_def)
  have t: "type_Size 9 = Inr 4" "type_Size (f_Type l) = Inr 1" using assms(4) by (auto simp: type_Size_def)
  have z: "sizefrom [VUint (int n)] 0 = Inr (int n)" using k(3) by (simp add: sizefrom_def)
  have g: "field_Unpack l (take n d) (int n) = Inr (if f_String l then VString (take n d) else VBytes (take n d))"
    using assms(4,6,7) by (auto simp: field_Unpack_def)
  show ?thesis using r1 r2 k f t z g assms(5) by (simp add: Let_def)
qed

lemma ReadRequest_spec:
  assumes "inv r" "n < 2 ^ 31" "m < 2 ^ 31" "stream r = be_bytes4 (int n) @ be_bytes4 (int m) @ d" "n = 4 + m" "m \<le> length d"
  shows "\<exists>r'. ReadRequest rd r = Some (Inr (Inr (take m d)), r') \<and> inv r' \<and> stream r' = drop m d"
proof -
  let ?d = "be_bytes4 (int m) @ d"
  obtain r' where r': "fields_Unpack rd WebsocketLength [] r = Some (Inr (None, [VUint (int n), VBytes (take n ?d)]), r')"
    "inv r'" "stream r' = drop n ?d"
    using Unpack_sized [OF assms(1,2,4), of "\<lparr>f_Type = 5, f_Len = -1, f_Slice = True, f_String = False, f_Sizefrom = Some 0\<rparr>"]
      assms(5,6) by (auto simp: WebsocketLength_def)
  have t: "take n ?d = be_bytes4 (int m) @ take m d" "drop n ?d = drop m d" using assms(5) by simp_all
  have "length (take n ?d) < 2 ^ 31" using assms(2) by simp
  from br_ok_new [OF this] have b: "br_ok (NewReader (take n ?d))" "br_rest (NewReader (take n ?d)) = be_bytes4 (int m) @ take m d"
    using t(1) by simp_all
  obtain q where "fields_Unpack br_Read WebsocketConnectionRequest [] (NewReader (take n ?d)) =
      Some (Inr (None, [VUint (int m), VString (take m d)]), q)"
    using bytes_reader.Unpack_sized [OF b(1) assms(3) b(2), of "\<lparr>f_Type = 14, f_Len = 1, f_Slice = False, f_String = True, f_Sizefrom = Some 0\<rparr>"]
      assms(6) by (auto simp: WebsocketConnectionRequest_def)
  then show ?thesis using r' t by (simp add: ReadRequest_def)
qed

end

end
