(* ===== verification/Smux_Copy.thy ===== *)
theory Smux_Copy
  imports Smux_Write Struc
begin

text \<open>
  The blocking reads of a smux stream, \<open>Read\<close> and \<open>WriteTo\<close> (the method \<open>io.Copy\<close> uses), and the stream as
  a source and a target of copies.  A call that waits sees a script: for each \<open>waitRead\<close>, the slices \<open>recvLoop\<close>
  pushed meanwhile and the event the \<open>$select\<close> then picked.  \<open>FinEvent\<close> means that a FIN was handled, after
  which \<open>chFinEvent\<close> stays closed.
\<close>

type_synonym script = "(int list list \<times> read_event) list"

definition arrive :: "int list list \<Rightarrow> stream \<Rightarrow> stream" where
  "arrive ps st = fold (\<lambda>a st. notifyReadEvent (pushBytes a st)) ps st"

definition wait_for :: "int list list \<times> read_event \<Rightarrow> stream \<Rightarrow> go_error option \<times> stream" where
  "wait_for w st = (let st' = arrive (fst w) st; st'' = (if snd w = FinEvent then fin st' else st') in waitRead (snd w) st'')"

definition read_failed :: "go_error option \<Rightarrow> read_result" where
  "read_failed e = \<lparr>rd_bytes = [], rd_error = e, rd_tokens = 0, rd_freed = [], rd_update = None\<rparr>"

text \<open>\<open>Read\<close> for a slice of length \<open>n\<close>; no result when it waits for good.\<close>

fun stream_Read :: "config \<Rightarrow> nat \<Rightarrow> script \<Rightarrow> stream \<Rightarrow> (read_result \<times> script \<times> stream) option" where
  "stream_Read cf n [] st =
     (let (r, st') = tryRead cf n st in
      if rd_error r \<noteq> Some ErrWouldBlock then Some (r, [], st')
      else if chFinEvent st' then Some (read_failed (Some EOF), [], st') else None)"
| "stream_Read cf n (w # evs) st =
     (let (r, st') = tryRead cf n st in
      if rd_error r \<noteq> Some ErrWouldBlock then Some (r, w # evs, st')
      else let (e, st'') = wait_for w st' in
           if e \<noteq> None then Some (read_failed e, evs, st'') else stream_Read cf n evs st'')"

text \<open>
  \<open>WriteTo\<close> for version 1 with the writer \<open>wr\<close>: the result (none while it waits), the tokens returned to
  the session, the script left, the stream and the writer.
\<close>

function WriteTo_v1 :: "'w write_fun \<Rightarrow> js64 \<Rightarrow> nat \<Rightarrow> script \<Rightarrow> stream \<Rightarrow> 'w
    \<Rightarrow> (js64 \<times> go_error option) option \<times> nat \<times> stream \<times> 'w" where
  "WriteTo_v1 wr b toks evs st w =
     (case take_buffer_out st of
        (Some g, st') \<Rightarrow>
          (let ((k, l), w') = wr g w;
               b' = (if k > 0 then add64 b (int64_of k) else b);
               toks' = toks + length g
           in if l \<noteq> None then (Some (b', l), toks', st', w') else WriteTo_v1 wr b' toks' evs st' w')
      | (None, st') \<Rightarrow>
          (case evs of
             [] \<Rightarrow> (if chFinEvent st' then Some (b, Some EOF) else None, toks, st', w)
           | ev # evs' \<Rightarrow>
               (let (q, st'') = wait_for ev st' in
                if q \<noteq> None then (Some (b, q), toks, st'', w) else WriteTo_v1 wr b toks evs' st'' w)))"
  by pat_completeness auto
termination
  by (relation "measures [\<lambda>(wr, b, toks, evs, st, w). length evs, \<lambda>(wr, b, toks, evs, st, w). length (buffers st)]")
    (auto simp: take_buffer_out_def split: list.splits)

declare WriteTo_v1.simps [simp del]

section \<open>A stream as a reader\<close>

text \<open>A script in which data arrives and then the FIN, which comes last.\<close>

fun script_ok :: "bool \<Rightarrow> script \<Rightarrow> bool" where
  "script_ok fin_seen [] = fin_seen"
| "script_ok fin_seen ((ps, ev) # evs) \<longleftrightarrow> \<not> fin_seen \<and> [] \<notin> set ps \<and>
     (ev = ReadEvent \<and> script_ok False evs \<or> ev = FinEvent \<and> evs = [])"

definition script_data :: "script \<Rightarrow> int list" where
  "script_data evs = concat (concat (map fst evs))"

definition rd_ok :: "script \<times> stream \<Rightarrow> bool" where
  "rd_ok x \<longleftrightarrow> st_inv (snd x) \<and> \<not> st_die (snd x) \<and> script_ok (chFinEvent (snd x)) (fst x)"

definition rd_data :: "script \<times> stream \<Rightarrow> int list" where
  "rd_data x = st_content (snd x) @ script_data (fst x)"

definition stream_reader :: "config \<Rightarrow> (script \<times> stream) read_fun" where
  "stream_reader cf n x = (case stream_Read cf (nat n) (fst x) (snd x) of
       Some (r, evs, st) \<Rightarrow> ((rd_bytes r, rd_error r), (evs, st))
     | None \<Rightarrow> (([], None), x))"

lemma arrive_spec:
  "st_inv st \<Longrightarrow> [] \<notin> set ps \<Longrightarrow> st_inv (arrive ps st) \<and> st_content (arrive ps st) = st_content st @ concat ps \<and>
    st_die (arrive ps st) = st_die st \<and> chFinEvent (arrive ps st) = chFinEvent st"
  unfolding arrive_def
  by (induction ps arbitrary: st) (auto simp: notifyReadEvent_def pushBytes_def st_inv_def st_content_def)

lemma wait_for_spec:
  assumes "rd_ok (w # evs, st)"
  shows "\<exists>e st'. wait_for w st = (e, st') \<and> rd_ok (evs, st') \<and> rd_data (evs, st') = rd_data (w # evs, st) \<and>
    (e = None \<or> e = Some EOF \<and> rd_data (evs, st') = [] \<and> buffers st' = [])"
proof -
  obtain ps ev where w: "w = (ps, ev)" by (cases w)
  have a: "st_inv (arrive ps st)" "st_content (arrive ps st) = st_content st @ concat ps" "\<not> st_die (arrive ps st)"
    "chFinEvent (arrive ps st) = chFinEvent st"
    using arrive_spec [of st ps] assms by (auto simp: rd_ok_def w)
  have ev: "ev = ReadEvent \<and> script_ok False evs \<or> ev = FinEvent \<and> evs = []" "\<not> chFinEvent st"
    using assms by (auto simp: rd_ok_def w)
  from ev(1) show ?thesis
  proof
    assume "ev = ReadEvent \<and> script_ok False evs"
    then show ?thesis using a ev(2)
      by (auto simp: wait_for_def w waitRead_def rd_ok_def rd_data_def script_data_def st_inv_def st_content_def Let_def)
  next
    assume "ev = FinEvent \<and> evs = []"
    then show ?thesis using a
      by (auto simp: wait_for_def w waitRead_def rd_ok_def rd_data_def script_data_def st_inv_def st_content_def fin_def Let_def)
  qed
qed

lemma tryRead_ok:
  assumes "rd_ok (evs, st)" "0 < n" "tryRead cf n st = (r, st')"
  shows "rd_ok (evs, st') \<and> rd_bytes r @ rd_data (evs, st') = rd_data (evs, st) \<and> length (rd_bytes r) \<le> n \<and>
    (if st_content st = [] then rd_error r = Some ErrWouldBlock else rd_error r = None \<and> rd_bytes r \<noteq> [])"
proof -
  have i: "st_inv st" "\<not> st_die st" using assms(1) by (simp_all add: rd_ok_def)
  note t = tryRead_spec [OF i(1) assms(3)]
  have f: "st_die st' = st_die st" "chFinEvent st' = chFinEvent st"
    using assms(2,3) by (auto simp: tryRead_def tryReadv1_def tryReadv2_def take_some_def count_read_def Let_def
        split: list.splits if_splits prod.splits)
  have "rd_bytes r \<noteq> []" if "st_content st \<noteq> []"
  proof -
    obtain bs freed st1 where s: "take_some n st = (bs, freed, st1)" by (cases "take_some n st") auto
    then have "bs \<noteq> []" using take_some_spec [OF i(1) assms(2)] that by auto
    then show ?thesis using assms(2,3) s by (auto simp: tryRead_def tryReadv1_def tryReadv2_def split: if_splits prod.splits)
  qed
  moreover have "rd_bytes r @ rd_data (evs, st') = rd_data (evs, st)" using t by (simp add: rd_data_def)
  ultimately show ?thesis using t f assms(1,2) i(2) by (auto simp: rd_ok_def)
qed

lemma stream_Read_step:
  assumes "rd_ok (evs, st)" "0 < n"
  shows "\<exists>r evs' st'. stream_Read cf n evs st = Some (r, evs', st') \<and> rd_ok (evs', st') \<and>
    rd_bytes r @ rd_data (evs', st') = rd_data (evs, st) \<and> length (rd_bytes r) \<le> n \<and>
    (rd_error r = None \<and> rd_bytes r \<noteq> [] \<or> rd_error r = Some EOF \<and> rd_data (evs', st') = [])"
  using assms
proof (induction evs arbitrary: st)
  case Nil
  obtain r st' where t: "tryRead cf n st = (r, st')" by (cases "tryRead cf n st")
  note s = tryRead_ok [OF Nil.prems t]
  show ?case
  proof (cases "st_content st = []")
    case True
    then have "chFinEvent st'" using s by (simp add: rd_ok_def)
    then have "stream_Read cf n [] st = Some (read_failed (Some EOF), [], st')" using t s True by simp
    then show ?thesis using s True by (simp add: read_failed_def rd_data_def script_data_def)
  next
    case False
    then have "stream_Read cf n [] st = Some (r, [], st')" using t s by simp
    then show ?thesis using s False by simp
  qed
next
  case (Cons w evs)
  obtain r st1 where t: "tryRead cf n st = (r, st1)" by (cases "tryRead cf n st")
  note s = tryRead_ok [OF Cons.prems t]
  show ?case
  proof (cases "st_content st = []")
    case True
    have w1: "rd_ok (w # evs, st1)" using s by simp
    obtain e st2 where w: "wait_for w st1 = (e, st2)" "rd_ok (evs, st2)" "rd_data (evs, st2) = rd_data (w # evs, st1)"
      "e = None \<or> e = Some EOF \<and> rd_data (evs, st2) = [] \<and> buffers st2 = []" using wait_for_spec [OF w1] by blast
    have nil: "rd_bytes r = []" using s True t Cons.prems(2) by (auto simp: tryRead_def tryReadv1_def tryReadv2_def split: prod.splits if_splits)
    have d: "rd_data (evs, st2) = rd_data (w # evs, st)" using s w(3) nil by simp
    show ?thesis
    proof (cases e)
      case None
      then have "stream_Read cf n (w # evs) st = stream_Read cf n evs st2" using t s True w(1) by simp
      then show ?thesis using Cons.IH [OF w(2) Cons.prems(2)] d by simp
    next
      case (Some x)
      then have "stream_Read cf n (w # evs) st = Some (read_failed (Some EOF), evs, st2)" using t s True w(1,4) by simp
      then show ?thesis using w(2,4) Some d by (simp add: read_failed_def)
    qed
  next
    case False
    then have "stream_Read cf n (w # evs) st = Some (r, w # evs, st1)" using t s by simp
    then show ?thesis using s False by simp
  qed
qed

interpretation stream_reader: reader "stream_reader cf" rd_data rd_ok for cf
proof -
  have "rd_ok x \<Longrightarrow> 0 < n \<Longrightarrow> n < 2 ^ 31 \<Longrightarrow> stream_reader cf n x = ((bs, e), x') \<Longrightarrow>
      rd_ok x' \<and> int (length bs) \<le> n \<and> rd_data x = bs @ rd_data x' \<and>
      (e \<noteq> None \<longrightarrow> e = Some EOF \<and> rd_data x' = []) \<and> (e = None \<longrightarrow> bs \<noteq> [])" for x n bs e x'
    using stream_Read_step [of "fst x" "snd x" "nat n" cf] by (cases x) (auto simp: stream_reader_def le_nat_iff)
  then show "reader (stream_reader cf) rd_data rd_ok" by unfold_locales blast+
qed

section \<open>Copying a stream to a writer\<close>

lemma take_buffer_out_spec:
  assumes "rd_ok (evs, st)" "take_buffer_out st = (g, st')"
  shows "rd_ok (evs, st') \<and> (case g of None \<Rightarrow> st' = st \<and> st_content st = [] \<and> buffers st = []
    | Some bs \<Rightarrow> rd_data (evs, st) = bs @ rd_data (evs, st') \<and> bs \<noteq> [])"
proof (cases "buffers st")
  case Nil
  then show ?thesis using assms by (auto simp: take_buffer_out_def st_content_def)
next
  case (Cons buf bufs)
  then have "heads st \<noteq> []" using assms(1) by (auto simp: rd_ok_def st_inv_def)
  then show ?thesis using assms Cons
    by (auto simp: take_buffer_out_def rd_ok_def st_inv_def st_content_def rd_data_def)
qed

context sink
begin

text \<open>The buffers present are written out; then the call waits.\<close>

lemma WriteTo_drain:
  assumes "rd_ok (evs, st)" "winv w" "length (st_content st) < 2 ^ 31"
    and "wf64 b" "ctor b = KInt64" "0 \<le> val64 b" "val64 b + int (length (st_content st)) < 2 ^ 63"
  shows "\<exists>b' st' w'. WriteTo_v1 wr b toks evs st w = WriteTo_v1 wr b' (toks + length (st_content st)) evs st' w' \<and>
    rd_ok (evs, st') \<and> buffers st' = [] \<and> winv w' \<and> written w' = written w @ st_content st \<and>
    wf64 b' \<and> ctor b' = KInt64 \<and> val64 b' = val64 b + int (length (st_content st))"
  using assms
proof (induction "length (buffers st)" arbitrary: b toks st w)
  case 0
  then show ?case by (intro exI [of _ b] exI [of _ st] exI [of _ w]) (simp add: st_content_def)
next
  case (Suc k)
  then obtain g bufs where g: "buffers st = g # bufs" by (cases "buffers st") auto
  let ?st = "st\<lparr>buffers := bufs, heads := tl (heads st)\<rparr>"
  have t: "take_buffer_out st = (Some g, ?st)" by (simp add: take_buffer_out_def g)
  have s: "rd_ok (evs, ?st)" "st_content st = g @ st_content ?st" "g \<noteq> []"
    using take_buffer_out_spec [OF Suc.prems(1) t] by (simp_all add: rd_data_def)
  have lg: "length g < 2 ^ 31" using s(2) Suc.prems(3) by simp
  obtain w1 where w1: "wr g w = ((int (length g), None), w1)" "written w1 = written w @ g" "winv w1"
    using write_all [OF Suc.prems(2) lg] by blast
  let ?b = "add64 b (int64_of (int (length g)))"
  have len: "length (st_content st) = length g + length (st_content ?st)" using s(2) by (metis length_append)
  have vb: "val64 ?b = val64 b + int (length g)"
    using Suc.prems(5-7) lg len by (simp add: val64_add64 val64_int64_of wrap64_int)
  have k: "k = length (buffers ?st)" using Suc.hyps(2) g by simp
  have pre: "length (st_content ?st) < 2 ^ 31" "wf64 ?b" "ctor ?b = KInt64" "0 \<le> val64 ?b"
    "val64 ?b + int (length (st_content ?st)) < 2 ^ 63" using Suc.prems(3-7) len vb by simp_all
  from Suc.hyps(1) [OF k s(1) w1(3) pre] obtain b' st' w' where r:
    "WriteTo_v1 wr ?b (toks + length g) evs ?st w1 = WriteTo_v1 wr b' (toks + length g + length (st_content ?st)) evs st' w'"
    "rd_ok (evs, st')" "buffers st' = []" "winv w'" "written w' = written w1 @ st_content ?st"
    "wf64 b'" "ctor b' = KInt64" "val64 b' = val64 ?b + int (length (st_content ?st))" by blast
  have step: "WriteTo_v1 wr b toks evs st w = WriteTo_v1 wr ?b (toks + length g) evs ?st w1"
    using s(3) by (subst WriteTo_v1.simps) (simp add: t w1(1) Let_def)
  have cat: "written w1 @ st_content ?st = written w @ st_content st" using w1(2) s(2) by simp
  have n: "toks + length g + length (st_content ?st) = toks + length (st_content st)"
    "val64 ?b + int (length (st_content ?st)) = val64 b + int (length (st_content st))" using len vb by simp_all
  show ?case using r unfolding step cat n by blast
qed

lemma WriteTo_all:
  assumes "rd_ok (evs, st)" "winv w" "length (rd_data (evs, st)) < 2 ^ 31"
    and "wf64 b" "ctor b = KInt64" "0 \<le> val64 b" "val64 b + int (length (rd_data (evs, st))) < 2 ^ 63"
  shows "\<exists>b' st' w'. WriteTo_v1 wr b toks evs st w = (Some (b', Some EOF), toks + length (rd_data (evs, st)), st', w') \<and>
    val64 b' = val64 b + int (length (rd_data (evs, st))) \<and> buffers st' = [] \<and> winv w' \<and>
    written w' = written w @ rd_data (evs, st)"
  using assms
proof (induction evs arbitrary: b toks st w)
  case Nil
  have c: "rd_data ([], st) = st_content st" by (simp add: rd_data_def script_data_def)
  from WriteTo_drain [OF Nil.prems(1,2) Nil.prems(3) [unfolded c] Nil.prems(4-6) Nil.prems(7) [unfolded c], of toks]
  obtain b' st' w' where d: "WriteTo_v1 wr b toks [] st w = WriteTo_v1 wr b' (toks + length (st_content st)) [] st' w'"
    "rd_ok ([], st')" "buffers st' = []" "winv w'" "written w' = written w @ st_content st"
    "val64 b' = val64 b + int (length (st_content st))" by blast
  have "take_buffer_out st' = (None, st')" "chFinEvent st'" using d(2,3) by (simp_all add: take_buffer_out_def rd_ok_def)
  then have "WriteTo_v1 wr b' (toks + length (st_content st)) [] st' w' = (Some (b', Some EOF), toks + length (st_content st), st', w')"
    by (subst WriteTo_v1.simps) simp
  then show ?case using d c by simp
next
  case (Cons x evs)
  have len: "length (rd_data (x # evs, st)) = length (st_content st) + length (script_data (x # evs))" by (simp add: rd_data_def)
  have pre: "length (st_content st) < 2 ^ 31" "val64 b + int (length (st_content st)) < 2 ^ 63"
    using Cons.prems(3,7) len by simp_all
  from WriteTo_drain [OF Cons.prems(1,2) pre(1) Cons.prems(4-6) pre(2), of toks]
  obtain b' st' w' where d: "WriteTo_v1 wr b toks (x # evs) st w = WriteTo_v1 wr b' (toks + length (st_content st)) (x # evs) st' w'"
    "rd_ok (x # evs, st')" "buffers st' = []" "winv w'" "written w' = written w @ st_content st"
    "wf64 b'" "ctor b' = KInt64" "val64 b' = val64 b + int (length (st_content st))" by blast
  have n: "take_buffer_out st' = (None, st')" "st_content st' = []" using d(3) by (simp_all add: take_buffer_out_def st_content_def)
  obtain e st2 where w: "wait_for x st' = (e, st2)" "rd_ok (evs, st2)" "rd_data (evs, st2) = rd_data (x # evs, st')"
    "e = None \<or> e = Some EOF \<and> rd_data (evs, st2) = [] \<and> buffers st2 = []" using wait_for_spec [OF d(2)] by blast
  have r: "rd_data (x # evs, st) = st_content st @ rd_data (evs, st2)" using w(3) n(2) by (simp add: rd_data_def)
  show ?case
  proof (cases e)
    case None
    have step: "WriteTo_v1 wr b' (toks + length (st_content st)) (x # evs) st' w' = WriteTo_v1 wr b' (toks + length (st_content st)) evs st2 w'"
      using n w(1) None by (subst WriteTo_v1.simps) simp
    have p: "length (rd_data (evs, st2)) < 2 ^ 31" "0 \<le> val64 b'" "val64 b' + int (length (rd_data (evs, st2))) < 2 ^ 63"
      using Cons.prems(3,6,7) r d(8) by simp_all
    from Cons.IH [OF w(2) d(4) p(1) d(6,7) p(2,3), of "toks + length (st_content st)"] show ?thesis
      using d step r by (simp add: add.assoc)
  next
    case (Some y)
    have "WriteTo_v1 wr b' (toks + length (st_content st)) (x # evs) st' w' = (Some (b', Some EOF), toks + length (st_content st), st2, w')"
      using n w(1,4) Some by (subst WriteTo_v1.simps) simp
    then show ?thesis using d w(4) r Some by simp
  qed
qed

end

end
