(* ===== verification/Bridge.thy ===== *)
theory Bridge
  imports Smux_Copy
begin

text \<open>
  The bridge (package \<open>BrowserBridge/bridge\<close>): for every stream the server opens it reads a request, dials the
  destination as a WebSocket and copies in both directions with \<open>io.Copy\<close>.  The stream provides \<open>WriteTo\<close>, so the
  copy to the socket uses it; the copy to the stream is the loop of \<open>io\<close>.
\<close>

section \<open>The two ends as writers\<close>

text \<open>The socket whose \<open>send\<close> succeeds, with the messages sent.\<close>

definition ws_writer :: "int list list write_fun" where
  "ws_writer bs msgs = (case ws_Write Returned bs of
       Inr r \<Rightarrow> (r, msgs @ [bs])
     | Inl _ \<Rightarrow> ((0, None), msgs))"

interpretation ws_writer: sink ws_writer concat "\<lambda>_. True"
  by unfold_locales (simp add: ws_writer_def ws_Write_cases)

text \<open>
  The stream as a writer, with the session below it.  \<open>Stream.Write\<close> goes to \<open>writeV2\<close> when the session's configuration has
  version 2; the bridge makes its session with \<open>smux.Client(conn, nil)\<close>, so with \<open>DefaultConfig\<close>, whose version is 1.  This
  is the path of version 1 only, and says nothing of a stream of a session with version 2; \<open>writeV2\<close> is in theories
  Smux_Write and Smux_Window.  \<open>Write\<close> has no result when a frame waits for ever; \<open>writer_ok\<close>, the condition of all that is
  proved of this writer, excludes it.
\<close>

definition stream_writer :: "config \<Rightarrow> (stream \<times> session_out) write_fun" where
  "stream_writer cf bs x = (case Write_v1 writeFrameInternal cf bs (fst x) (snd x) of
       Some (r, st', s') \<Rightarrow> (r, (st', s'))
     | None \<Rightarrow> ((0, None), x))"

definition stream_written :: "stream \<times> session_out \<Rightarrow> int list" where
  "stream_written x = concat (map (data \<circ> fst) (acked (snd x)))"

definition writer_ok :: "config \<Rightarrow> stream \<times> session_out \<Rightarrow> bool" where
  "writer_ok cf x \<longleftrightarrow> \<not> st_die (fst x) \<and> stream_ok cf (fst x) \<and> out_ok (snd x) \<and> reliable (snd x)"

interpretation stream_copy: copying ws_reader ws_bytes ws_ok "stream_writer cf" stream_written "writer_ok cf" for cf
proof (unfold_locales, goal_cases)
  case (1 x bs)
  obtain st s where x: "x = (st, s)" by (cases x)
  have a: "\<not> st_die st" "stream_ok cf st" "out_ok s" "reliable s" using 1(1) by (simp_all add: writer_ok_def x)
  have f: "0 < frameSize st" "frameSize st < 65536" using a(2) by (simp_all add: stream_ok_def)
  obtain n st' s' where w: "Write_v1 writeFrameInternal cf bs st s = Some ((n, None), st', s')" "reliable s'"
    using session_writer.write_loop_good [OF a(3,4) psh_frame_ok [OF a(2)] f, of "\<lambda>_. 1" bs 0] a(1)
    by (auto simp: Write_v1_def)
  from Write_v1_spec [OF a(1,2) 1(2) a(3) w(1)] have r: "out_ok s'" "\<exists>nw. st' = st\<lparr>numWritten := nw\<rparr>"
    "acked s' = acked s @ frames_of (\<lambda>_. 1) (newFrame (to_u8 (Version cf)) cmdPSH (st_id st)) (numWritten st) (chunk_list (nat (frameSize st)) bs)"
    "int (length (concat (chunk_list (nat (frameSize st)) bs))) \<le> n" "n \<le> int (length bs)" by auto
  have c: "concat (chunk_list (nat (frameSize st)) bs) = bs" using f by (simp add: concat_chunk_list)
  have "n = int (length bs)" using r(4,5) c by simp
  moreover have "stream_written (st', s') = stream_written (st, s) @ bs" using r(3) c
    by (simp add: stream_written_def map_frames_of)
  moreover have "writer_ok cf (st', s')" using r(1,2) a w(2) by (auto simp: writer_ok_def stream_ok_def)
  ultimately show ?case using w(1) x by (simp add: stream_writer_def)
qed

section \<open>A stream of the bridge\<close>

text \<open>\<open>WriteTo\<close>, version 1, as \<open>io.Copy\<close> calls it; no result while it waits.\<close>

definition stream_WriteTo :: "'w write_fun \<Rightarrow> script \<times> stream \<Rightarrow> 'w \<Rightarrow> (js64 \<times> go_error option \<times> (script \<times> stream) \<times> 'w) option" where
  "stream_WriteTo wr x w = (case WriteTo_v1 wr (int64_of 0) 0 (fst x) (snd x) w of
       (Some (n, e), _, st', w') \<Rightarrow> Some (n, e, ([], st'), w')
     | (None, _, _, _) \<Rightarrow> None)"

text \<open>
  The goroutine of a stream: what it prints, dials and closes, the result of its copy to the socket, and the
  messages sent.  \<open>dial\<close> is the outcome of \<open>websocket.Dial\<close>: an error or a connection.  The copy from the stream is the
  \<open>WriteTo\<close> of version 1, as for the writer above: with version 2 the code takes \<open>writeTov2\<close>, which sends window updates as it
  goes, and the bridge's sessions do not have it.
\<close>

datatype bridge_action = Printed go_error | Dialled "int list" | SpawnedCopy | Copied js64 "go_error option" | ClosedStream

definition handle_stream :: "config \<Rightarrow> (int list \<Rightarrow> go_error option) \<Rightarrow> script \<times> stream
    \<Rightarrow> (bridge_action list \<times> int list list) res option" where
  "handle_stream cf dial k =
     (case ReadRequest (stream_reader cf) k of
        None \<Rightarrow> None
      | Some (Inl p, _) \<Rightarrow> Some (Inl p)
      | Some (Inr (Inl e), _) \<Rightarrow> Some (Inr ([Printed e], []))
      | Some (Inr (Inr dest), k') \<Rightarrow>
          (case dial dest of
             Some e \<Rightarrow> Some (Inr ([Dialled dest, Printed e, ClosedStream], []))
           | None \<Rightarrow>
               (case copy_with (Some (stream_WriteTo ws_writer)) None (stream_reader cf) ws_writer None k' [] of
                  None \<Rightarrow> None
                | Some (n, e, _, msgs) \<Rightarrow>
                    Some (Inr ([Dialled dest, SpawnedCopy, Copied n e, ClosedStream], msgs)))))"

text \<open>
  C4: what the server sends reaches the destination: on a stream that carries a request for \<open>dest\<close>, then any
  payload, then a FIN, cut into frames in any way and arriving at any time, and with a dial and a socket that work, the bridge dials
  exactly \<open>dest\<close>, sends exactly the payload in order, reports its length and closes the stream.  The copy
  returns \<open>io.EOF\<close>, not nil, since \<open>WriteTo\<close> passes on the error of \<open>waitRead\<close>.
\<close>

theorem upload_complete:
  assumes "rd_ok k" "rd_data k = request_bytes dest @ payload" "length (rd_data k) < 2 ^ 31" "dial dest = None"
  shows "\<exists>n msgs. handle_stream cf dial k =
      Some (Inr ([Dialled dest, SpawnedCopy, Copied n (Some EOF), ClosedStream], msgs)) \<and>
    concat msgs = payload \<and> val64 n = int (length payload)"
proof -
  have d: "rd_data k = be_bytes4 (int (4 + length dest)) @ be_bytes4 (int (length dest)) @ dest @ payload"
    using assms(2) by (simp add: request_bytes_def add.commute)
  have l: "4 + length dest < 2 ^ 31" "length dest < 2 ^ 31" "length payload < 2 ^ 31" using assms(3) d by simp_all
  obtain k' where k': "ReadRequest (stream_reader cf) k = Some (Inr (Inr dest), k')" "rd_ok k'" "rd_data k' = payload"
    using stream_reader.ReadRequest_spec [OF assms(1) l(1,2) d refl, of cf] by auto
  obtain evs st where k: "k' = (evs, st)" by (cases k')
  have z: "wf64 (int64_of 0)" "ctor (int64_of 0) = KInt64" "val64 (int64_of 0) = 0" by (simp_all add: val64_int64_of)
  have p: "length (rd_data (evs, st)) < 2 ^ 31" "0 \<le> val64 (int64_of 0)"
    "val64 (int64_of 0) + int (length (rd_data (evs, st))) < 2 ^ 63" using k'(3) l(3) k z by simp_all
  obtain n st' msgs where c: "WriteTo_v1 ws_writer (int64_of 0) 0 evs st [] = (Some (n, Some EOF), length payload, st', msgs)"
    "val64 n = int (length payload)" "concat msgs = payload"
    using ws_writer.WriteTo_all [OF k'(2) [unfolded k] TrueI p(1) z(1,2) p(2,3), of 0 "[]"] k'(3) k z by auto
  have "copy_with (Some (stream_WriteTo ws_writer)) None (stream_reader cf) ws_writer None k' [] = Some (n, Some EOF, ([], st'), msgs)"
    using c by (simp add: copy_with_def stream_WriteTo_def k)
  then show ?thesis using k' c(2,3) assms(4) by (simp add: handle_stream_def)
qed

text \<open>A stream on which a request for \<open>x\<close> and the payload \<open>[9]\<close> arrive in two slices.\<close>

definition demo_stream :: "script \<times> stream" where
  "demo_stream = ([([[0, 0, 0, 5, 0, 0, 0, 1]], ReadEvent), ([[120, 9]], FinEvent)], newStream 3 100)"

lemma demo_stream_ok: "rd_ok demo_stream \<and> rd_data demo_stream = request_bytes [120] @ [9]"
  by (simp add: demo_stream_def rd_ok_def rd_data_def newStream_def st_inv_def st_content_def script_data_def
      request_bytes_def be_bytes4_def eval_nat_numeral)

theorem upload_complete_witness:
  "\<exists>n msgs. handle_stream DefaultConfig (\<lambda>_. None) demo_stream =
     Some (Inr ([Dialled [120], SpawnedCopy, Copied n (Some EOF), ClosedStream], msgs)) \<and> concat msgs = [9]"
proof -
  have "length (rd_data demo_stream) < 2 ^ 31" using demo_stream_ok by (simp add: request_bytes_def)
  from upload_complete [OF demo_stream_ok [THEN conjunct1] demo_stream_ok [THEN conjunct2] this, of "\<lambda>_. None" DefaultConfig]
  show ?thesis by auto
qed

text \<open>
  C15: what the destination sends reaches the server: \<open>io.Copy\<close> from a socket whose peer has sent non-empty
  messages and closed, to a stream of a session that takes every frame, returns with a nil error and the
  number of bytes, and the data of the frames written are exactly the bytes of the messages, in order.
\<close>

theorem download_complete:
  assumes "ws_ok c" "writer_ok cf (st, s)" "length (ws_bytes c) < 2 ^ 63 - 1"
  shows "\<exists>n c' st' s'. copy_with None None ws_reader (stream_writer cf) None c (st, s) = Some (n, None, c', (st', s')) \<and>
    val64 n = int (length (ws_bytes c)) \<and> ws_bytes c' = [] \<and>
    stream_written (st', s') = stream_written (st, s) @ ws_bytes c"
proof -
  have z: "wf64 (int64_of 0)" "ctor (int64_of 0) = KInt64" "0 \<le> val64 (int64_of 0)" "val64 (int64_of 0) = 0"
    by (simp_all add: val64_int64_of)
  have b: "(0::int) < copy_size None" "copy_size None < 2 ^ 31" by (simp_all add: copy_size_def)
  have "val64 (int64_of 0) + int (length (ws_bytes c)) < 2 ^ 63" using assms(3) z(4) by simp
  from stream_copy.copy_loop_all [OF assms(1,2) b z(1-3) this] show ?thesis
    by (auto simp: copy_with_def z(4))
qed

theorem download_complete_witness:
  "\<exists>n c' st' s'. copy_with None None ws_reader (stream_writer DefaultConfig) None
      (onClose (onMessage [4, 5] (onMessage [1, 2, 3] ws_init))) (newStream 3 2, session_out_init (\<lambda>_. Sent Returned))
     = Some (n, None, c', (st', s')) \<and> stream_written (st', s') = [1, 2, 3, 4, 5]"
proof -
  let ?c = "onClose (onMessage [4, 5] (onMessage [1, 2, 3] ws_init))"
  have "ws_ok ?c" unfolding ws_ok_def
    by (auto simp: onClose_def onMessage_def ws_init_def intro: exI [of _ "[[1, 2, 3], [4, 5]]"])
  moreover have "writer_ok DefaultConfig (newStream 3 2, session_out_init (\<lambda>_. Sent Returned))"
    using out_ok_init [of "\<lambda>_. Sent Returned"]
    by (simp add: writer_ok_def newStream_def stream_ok_def DefaultConfig_def u32_ok_def reliable_def session_out_init_def)
  moreover have b: "ws_bytes ?c = [1, 2, 3, 4, 5]" by (simp add: ws_bytes_def onClose_def onMessage_def ws_init_def)
  ultimately show ?thesis
    using download_complete [of ?c DefaultConfig "newStream 3 2" "session_out_init (\<lambda>_. Sent Returned)"]
    by (fastforce simp: stream_written_def session_out_init_def)
qed

text \<open>A stream that ends inside the first length.\<close>

lemma Unpack_cut_length:
  assumes "rd_ok k" "length (rd_data k) < 4"
  shows "\<exists>k'. fields_Unpack (stream_reader cf) WebsocketLength [] k =
     Some (Inr (Some (if rd_data k = [] then EOF else ErrUnexpectedEOF), []), k')"
proof -
  have "length (replicate 4 (0::int)) < 2 ^ 31" by simp
  from stream_reader.ReadFull_spec [OF assms(1) this, of cf] assms(2) obtain b m k' where
    "ReadFull (stream_reader cf) (replicate 4 0) k = Some (b, m, Some (if rd_data k = [] then EOF else ErrUnexpectedEOF), k')"
    by (auto simp: Let_def min_def split: if_splits)
  moreover have "js_imul 1 4 = 4" by code_simp
  ultimately show ?thesis by (simp add: WebsocketLength_def type_Size_def Let_def)
qed

text \<open>
  C36: a stream whose request is cut off, by a FIN at any place before its end, in the length (or before it) or in the data,
  ends the goroutine with one printed error and no dial; the stream is not closed, in contrast to a failed dial.  The error
  is \<open>io.EOF\<close> when nothing of the length, or nothing of the data, has arrived, and \<open>io.ErrUnexpectedEOF\<close> otherwise.
\<close>

theorem truncated_request:
  assumes "rd_ok k" "length d = n" "n < 2 ^ 31" "j < 4 + n" "rd_data k = take j (be_bytes4 (int n) @ d)"
  shows "handle_stream cf dial k = Some (Inr ([Printed (if j = 0 \<or> j = 4 then EOF else ErrUnexpectedEOF)], []))"
proof -
  have "\<exists>vs k'. fields_Unpack (stream_reader cf) WebsocketLength [] k =
      Some (Inr (Some (if j = 0 \<or> j = 4 then EOF else ErrUnexpectedEOF), vs), k')"
  proof (cases "j < 4")
    case True
    then have l: "length (rd_data k) = j" using assms(5) by simp
    then have "rd_data k = [] \<longleftrightarrow> j = 0 \<or> j = 4" using True by auto
    then show ?thesis using Unpack_cut_length [OF assms(1), of cf] True l by auto
  next
    case False
    then have d: "rd_data k = be_bytes4 (int n) @ take (j - 4) d" using assms(5) by simp
    have e: "length (take (j - 4) d) < n" "take (j - 4) d = [] \<longleftrightarrow> j = 0 \<or> j = 4" using False assms(2,4) by auto
    show ?thesis
      using stream_reader.Unpack_sized [OF assms(1,3) d, of "\<lparr>f_Type = 5, f_Len = -1, f_Slice = True, f_String = False, f_Sizefrom = Some 0\<rparr>" cf]
        e by (auto simp: WebsocketLength_def simp del: fields_Unpack.simps)
  qed
  then show ?thesis by (auto simp: handle_stream_def ReadRequest_def)
qed

theorem truncated_request_witness:
  "handle_stream DefaultConfig (\<lambda>_. None) ([([[0, 0]], FinEvent)], newStream 3 100) = Some (Inr ([Printed ErrUnexpectedEOF], [])) \<and>
   handle_stream DefaultConfig (\<lambda>_. None) ([([[0, 0, 0, 2, 9]], FinEvent)], newStream 3 100) = Some (Inr ([Printed ErrUnexpectedEOF], [])) \<and>
   handle_stream DefaultConfig (\<lambda>_. None) ([([], FinEvent)], newStream 3 100) = Some (Inr ([Printed EOF], []))"
proof (intro conjI)
  have ok: "rd_ok ([([[0, 0]], FinEvent)], newStream 3 100)" "rd_ok ([([[0, 0, 0, 2, 9]], FinEvent)], newStream 3 100)"
    "rd_ok ([([], FinEvent)], newStream 3 100)"
    by (simp_all add: rd_ok_def rd_data_def newStream_def st_inv_def st_content_def script_data_def)
  have d: "rd_data ([([[0, 0]], FinEvent)], newStream 3 100) = take 2 (be_bytes4 (int 2) @ [9, 9])"
    "rd_data ([([[0, 0, 0, 2, 9]], FinEvent)], newStream 3 100) = take 5 (be_bytes4 (int 2) @ [9, 9])"
    "rd_data ([([], FinEvent)], newStream 3 100) = take 0 (be_bytes4 (int 2) @ [9, 9])"
    by (simp_all add: rd_data_def newStream_def st_content_def script_data_def be_bytes4_def eval_nat_numeral)
  show "handle_stream DefaultConfig (\<lambda>_. None) ([([[0, 0]], FinEvent)], newStream 3 100) = Some (Inr ([Printed ErrUnexpectedEOF], []))"
    using truncated_request [OF ok(1) _ _ _ d(1), of DefaultConfig "\<lambda>_. None"] by simp
  show "handle_stream DefaultConfig (\<lambda>_. None) ([([[0, 0, 0, 2, 9]], FinEvent)], newStream 3 100) = Some (Inr ([Printed ErrUnexpectedEOF], []))"
    using truncated_request [OF ok(2) _ _ _ d(2), of DefaultConfig "\<lambda>_. None"] by simp
  show "handle_stream DefaultConfig (\<lambda>_. None) ([([], FinEvent)], newStream 3 100) = Some (Inr ([Printed EOF], []))"
    using truncated_request [OF ok(3) _ _ _ d(3), of DefaultConfig "\<lambda>_. None"] by simp
qed

end
