(* ===== verification/Websocket_Dial.thy ===== *)
theory Websocket_Dial
  imports Websocket
begin

text \<open>
  \<open>Dial\<close> of package \<open>gopherjs/websocket\<close> and the rest of package \<open>websocketjs\<close>.  The browser's WebSocket object is
  not the bundle's: its constructor's outcome and the events it raises are arguments.  A callback runs to its end when
  its event is dispatched; the goroutine a callback starts runs later, as an event of its own.
\<close>

section \<open>\<open>websocketjs\<close>\<close>

definition ReadyState_String :: "int \<Rightarrow> string" where
  "ReadyState_String b =
     (if b = 0 then ''Connecting'' else if b = 1 then ''Open'' else if b = 2 then ''Closing''
      else if b = 3 then ''Closed'' else ''Unknown'')"

text \<open>\<open>New\<close> and \<open>Close\<close> recover as \<open>Send\<close> does: the error they return, or the panic that goes on.\<close>

definition ws_New :: "js_outcome \<Rightarrow> go_error option res" where
  "ws_New oc = js_recovered oc"

definition ws_Close :: "js_outcome \<Rightarrow> go_error option res" where
  "ws_Close oc = js_recovered oc"

text \<open>
  The listeners of the object, in the order they were added.  The four functions of the bundle that are registered: the
  two of \<open>Dial\<close> (\<open>J\<close> for an open event, \<open>L\<close> for a close event) and the methods \<open>onMessage\<close> and \<open>onClose\<close> of the connection.
\<close>

datatype callback = DialOpen | DialClose | ConnMessage | ConnClose

datatype js_event = OpenEvent | MessageEvent "int list" | CloseEvent go_error

fun event_type :: "js_event \<Rightarrow> string" where
  "event_type OpenEvent = ''open''"
| "event_type (MessageEvent m) = ''message''"
| "event_type (CloseEvent e) = ''close''"

section \<open>\<open>Dial\<close>\<close>

text \<open>
  The channel \<open>h\<close> of capacity 1 that \<open>Dial\<close> receives from is \<open>h_buf\<close> and \<open>h_closed\<close>; \<open>h_senders\<close> are the goroutines
  started by \<open>L\<close> that have not sent yet, with their errors.
\<close>

record dialing =
  listeners :: "(string \<times> callback) list"
  d_conn :: ws_conn
  h_buf :: "go_error list"
  h_closed :: bool
  h_senders :: "go_error list"

definition AddEventListener :: "string \<Rightarrow> callback \<Rightarrow> dialing \<Rightarrow> dialing" where
  "AddEventListener t f s = (if (t, f) \<in> set (listeners s) then s else s\<lparr>listeners := listeners s @ [(t, f)]\<rparr>)"

definition RemoveEventListener :: "string \<Rightarrow> callback \<Rightarrow> dialing \<Rightarrow> dialing" where
  "RemoveEventListener t f s = s\<lparr>listeners := filter (\<lambda>x. x \<noteq> (t, f)) (listeners s)\<rparr>"

definition initialize :: "dialing \<Rightarrow> dialing" where
  "initialize s = AddEventListener ''close'' ConnClose (AddEventListener ''message'' ConnMessage s)"

definition remove_both :: "dialing \<Rightarrow> dialing" where
  "remove_both s = RemoveEventListener ''close'' DialClose (RemoveEventListener ''open'' DialOpen s)"

definition close_h :: "dialing \<Rightarrow> dialing res" where
  "close_h s = (if h_closed s then Inl (RuntimeError ''close of closed channel'') else Inr (s\<lparr>h_closed := True\<rparr>))"

text \<open>The constructor threw: the error is returned at once.  Otherwise \<open>Dial\<close> registers its listeners and receives.\<close>

definition Dial_begin :: "js_outcome \<Rightarrow> (go_error + dialing) res" where
  "Dial_begin oc = res_bind (ws_New oc) (\<lambda>e. case e of
     Some x \<Rightarrow> Inr (Inl x)
   | None \<Rightarrow> Inr (Inr (AddEventListener ''close'' DialClose (AddEventListener ''open'' DialOpen
       (initialize \<lparr>listeners = [], d_conn = ws_init, h_buf = [], h_closed = False, h_senders = []\<rparr>)))))"

fun run_callback :: "callback \<Rightarrow> js_event \<Rightarrow> dialing \<Rightarrow> dialing res" where
  "run_callback DialOpen e s = close_h (remove_both s)"
| "run_callback DialClose e s =
     (case e of CloseEvent x \<Rightarrow> Inr ((remove_both s)\<lparr>h_senders := h_senders s @ [x]\<rparr>) | _ \<Rightarrow> Inr (remove_both s))"
| "run_callback ConnMessage e s = (case e of MessageEvent m \<Rightarrow> Inr (s\<lparr>d_conn := onMessage m (d_conn s)\<rparr>) | _ \<Rightarrow> Inr s)"
| "run_callback ConnClose e s = Inr (s\<lparr>d_conn := onClose (d_conn s)\<rparr>)"

text \<open>The object calls the listeners it had for the event's type, except one removed meanwhile.\<close>

fun dispatch_each :: "callback list \<Rightarrow> js_event \<Rightarrow> dialing \<Rightarrow> dialing res" where
  "dispatch_each [] e s = Inr s"
| "dispatch_each (f # fs) e s =
     (if (event_type e, f) \<in> set (listeners s) then res_bind (run_callback f e s) (dispatch_each fs e) else dispatch_each fs e s)"

definition dispatch :: "js_event \<Rightarrow> dialing \<Rightarrow> dialing res" where
  "dispatch e s = dispatch_each (map snd (filter (\<lambda>x. fst x = event_type e) (listeners s))) e s"

text \<open>The goroutine of \<open>L\<close>: it sends its error, waiting while the buffer is full, then closes the channel.\<close>

definition run_sender :: "dialing \<Rightarrow> dialing res" where
  "run_sender s = (case h_senders s of
     [] \<Rightarrow> Inr s
   | e # es \<Rightarrow>
       if h_closed s then Inl (RuntimeError ''send on closed channel'')
       else if h_buf s \<noteq> [] then Inr s
       else close_h (s\<lparr>h_buf := h_buf s @ [e], h_senders := es\<rparr>))"

datatype dial_event = Browser js_event | SenderRuns

fun dial_step :: "dial_event \<Rightarrow> dialing \<Rightarrow> dialing res" where
  "dial_step (Browser e) s = dispatch e s"
| "dial_step SenderRuns s = run_sender s"

fun dial_steps :: "dial_event list \<Rightarrow> dialing \<Rightarrow> dialing res" where
  "dial_steps [] s = Inr s"
| "dial_steps (e # es) s = res_bind (dial_step e s) (dial_steps es)"

text \<open>What \<open>Dial\<close> returns once it runs again: the connection or the error; no result while it waits.\<close>

definition Dial_end :: "dialing \<Rightarrow> (go_error + ws_conn) option" where
  "Dial_end s = (case h_buf s of
     e # es \<Rightarrow> Some (Inl e)
   | [] \<Rightarrow> if h_closed s then Some (Inr (d_conn s)) else None)"

section \<open>What \<open>Dial\<close> promises\<close>

datatype dial_mode = Waiting | Opened | Failing go_error | Failed go_error

fun mode_step :: "dial_mode \<Rightarrow> dial_event \<Rightarrow> dial_mode" where
  "mode_step Waiting (Browser OpenEvent) = Opened"
| "mode_step Waiting (Browser (CloseEvent e)) = Failing e"
| "mode_step (Failing e) SenderRuns = Failed e"
| "mode_step m ev = m"

fun conn_step :: "ws_conn \<Rightarrow> dial_event \<Rightarrow> ws_conn" where
  "conn_step c (Browser (MessageEvent m)) = onMessage m c"
| "conn_step c (Browser (CloseEvent e)) = onClose c"
| "conn_step c ev = c"

abbreviation conn_listeners :: "(string \<times> callback) list" where
  "conn_listeners \<equiv> [(''message'', ConnMessage), (''close'', ConnClose)]"

fun dial_state :: "dial_mode \<Rightarrow> ws_conn \<Rightarrow> dialing" where
  "dial_state Waiting c = \<lparr>listeners = conn_listeners @ [(''open'', DialOpen), (''close'', DialClose)], d_conn = c,
     h_buf = [], h_closed = False, h_senders = []\<rparr>"
| "dial_state Opened c = \<lparr>listeners = conn_listeners, d_conn = c, h_buf = [], h_closed = True, h_senders = []\<rparr>"
| "dial_state (Failing e) c = \<lparr>listeners = conn_listeners, d_conn = c, h_buf = [], h_closed = False, h_senders = [e]\<rparr>"
| "dial_state (Failed e) c = \<lparr>listeners = conn_listeners, d_conn = c, h_buf = [e], h_closed = True, h_senders = []\<rparr>"

lemmas dial_defs = dispatch_def run_sender_def close_h_def remove_both_def RemoveEventListener_def res_bind_def

lemma Dial_begin_waiting: "Dial_begin Returned = Inr (Inr (dial_state Waiting ws_init))"
  by (simp add: Dial_begin_def ws_New_def initialize_def AddEventListener_def res_bind_def)

lemma dial_step_mode: "dial_step ev (dial_state m c) = Inr (dial_state (mode_step m ev) (conn_step c ev))"
proof (cases ev)
  case (Browser e)
  then show ?thesis by (cases m; cases e) (simp_all add: dial_defs)
next
  case SenderRuns
  then show ?thesis by (cases m) (simp_all add: dial_defs)
qed

lemma dial_steps_mode: "dial_steps es (dial_state m c) = Inr (dial_state (foldl mode_step m es) (foldl conn_step c es))"
  by (induction es arbitrary: m c) (simp_all add: dial_step_mode res_bind_def)

lemma Dial_end_mode:
  "Dial_end (dial_state m c) = (case m of Opened \<Rightarrow> Some (Inr c) | Failed e \<Rightarrow> Some (Inl e) | _ \<Rightarrow> None)"
  by (cases m) (simp_all add: Dial_end_def)

text \<open>
  C6: \<open>Dial\<close> settles once and loses nothing: whatever events the browser raises and whenever the goroutines it starts
  run, no step panics (the result channel is closed at most once and never sent on after), an open event that comes before
  any close event makes \<open>Dial\<close> return the connection, a close event that comes first makes it return that error, and the
  connection's queue holds every message and close event so far, in order.
\<close>

theorem Dial_settles:
  "\<exists>s. Dial_begin Returned = Inr (Inr s) \<and>
     (\<exists>s'. dial_steps es s = Inr s' \<and>
       Dial_end s' = (case foldl mode_step Waiting es of
          Opened \<Rightarrow> Some (Inr (foldl conn_step ws_init es)) | Failed e \<Rightarrow> Some (Inl e) | _ \<Rightarrow> None))"
  using Dial_begin_waiting dial_steps_mode [of es Waiting ws_init] Dial_end_mode by simp

theorem Dial_settles_witness:
  "\<exists>s. Dial_begin Returned = Inr (Inr s) \<and>
     (\<exists>s'. dial_steps [Browser (CloseEvent EOF), SenderRuns, Browser OpenEvent] s = Inr s' \<and> Dial_end s' = Some (Inl EOF))"
  using Dial_settles [of "[Browser (CloseEvent EOF), SenderRuns, Browser OpenEvent]"] by auto

section \<open>Deadlines\<close>

text \<open>The connection with its field \<open>readDeadline\<close>; the zero \<open>Time\<close> is \<open>None\<close>, other times are nanoseconds.\<close>

record timed_conn =
  tc_conn :: ws_conn
  readDeadline :: "int option"

definition SetDeadline :: "int option \<Rightarrow> timed_conn \<Rightarrow> go_error option \<times> timed_conn" where
  "SetDeadline t c = (None, c\<lparr>readDeadline := t\<rparr>)"

definition SetReadDeadline :: "int option \<Rightarrow> timed_conn \<Rightarrow> go_error option \<times> timed_conn" where
  "SetReadDeadline t c = (None, c\<lparr>readDeadline := t\<rparr>)"

definition SetWriteDeadline :: "int option \<Rightarrow> timed_conn \<Rightarrow> go_error option \<times> timed_conn" where
  "SetWriteDeadline t c = (None, c)"

text \<open>What the deadline does to a read that begins at \<open>now\<close>; \<open>fires\<close> says whether the timer fires before an event arrives.\<close>

definition conn_deadline :: "int \<Rightarrow> bool \<Rightarrow> timed_conn \<Rightarrow> deadline" where
  "conn_deadline now fires c =
     (case readDeadline c of None \<Rightarrow> NoDeadline | Some t \<Rightarrow> if now > t then Passed else Pending fires)"

definition timed_Read :: "int \<Rightarrow> bool \<Rightarrow> go_error \<Rightarrow> int \<Rightarrow> timed_conn \<Rightarrow> ((int list \<times> go_error option) \<times> timed_conn) option" where
  "timed_Read now fires edl n c =
     map_option (\<lambda>(r, x). (r, c\<lparr>tc_conn := x\<rparr>)) (ws_Read (conn_deadline now fires c) edl n (tc_conn c))"

text \<open>The text of a timeout and the methods \<open>Timeout\<close> and \<open>Temporary\<close> of the error; \<open>LocalAddr\<close> always panics.\<close>

definition deadlineErr_Error :: string where "deadlineErr_Error = ''i/o timeout: deadline reached''"
definition deadlineErr_Timeout :: bool where "deadlineErr_Timeout = True"
definition deadlineErr_Temporary :: bool where "deadlineErr_Temporary = True"

definition conn_LocalAddr :: "string res" where
  "conn_LocalAddr = Inl (Panic ''we are unable to implement websocket.conn.LocalAddr() due to limitations in the underlying JavaScript API'')"

lemma timed_Read_expired:
  assumes "ws_ch (tc_conn c) = []" "\<not> ws_closed (tc_conn c)" "readBuf (tc_conn c) = None" "t < now"
  shows "timed_Read now fires edl n (snd (SetReadDeadline (Some t) c)) = Some (([], Some edl), snd (SetReadDeadline (Some t) c))"
  using assms by (simp add: timed_Read_def SetReadDeadline_def conn_deadline_def ws_Read_def read_frame_def receiveFrame_def ch_recv_def)

lemma timed_Read_waits:
  assumes "ws_ch (tc_conn c) = []" "\<not> ws_closed (tc_conn c)" "readBuf (tc_conn c) = None"
  shows "timed_Read now fires edl n (snd (SetDeadline None c)) = None"
  using assms by (simp add: timed_Read_def SetDeadline_def conn_deadline_def ws_Read_def read_frame_def receiveFrame_def ch_recv_def)

end
