(* ===== verification/Time_Timer.thy ===== *)
theory Time_Timer
  imports Strconv
begin

text \<open>
  The timers of package \<open>time\<close>: \<open>NewTimer\<close>, \<open>NewTicker\<close>, \<open>Stop\<close>, \<open>Reset\<close> over the browser's \<open>setTimeout\<close>.  The clock is the
  number of milliseconds \<open>Date.getTime()\<close> gives, an argument; a callback set with a delay of \<open>l\<close> milliseconds at \<open>now\<close> runs
  at \<open>now + l\<close> or later, which is what the browser promises.
\<close>

text \<open>\<open>runtimeNano\<close>: nanoseconds.\<close>

definition nanotime :: "int \<Rightarrow> js64" where
  "nanotime ms = mul64 (int64_of ms) (int64_of 1000000)"

text \<open>\<open>runtimeTimer\<close>; \<open>t_due\<close> is the pending callback (\<open>timeout\<close>) by the earliest time it runs.\<close>

record gtimer =
  t_when :: js64
  t_period :: js64
  t_active :: bool
  t_due :: "int option"

definition startTimer :: "int \<Rightarrow> gtimer \<Rightarrow> gtimer res option" where
  "startTimer now i =
     (let i = i\<lparr>t_active := True\<rparr> in
      bind2 (div64 (sub64 (t_when i) (nanotime now)) (int64_of 1000000) False) (\<lambda>l.
      if high l > 0 \<or> high l = 0 \<and> low l > 2147483647 then Some (Inr i)
      else let l = (if high l < 0 \<or> high l = 0 \<and> low l < 0 then int64_of 0 else l) in
        Some (Inr (i\<lparr>t_due := Some (now + flatten64 (new64 KInt64 (high l + 0) (low l + 1)))\<rparr>))))"

definition stopTimer :: "gtimer \<Rightarrow> bool \<times> gtimer" where
  "stopTimer i = (t_active i, i\<lparr>t_due := None, t_active := False\<rparr>)"

text \<open>The callback; the goroutine it starts sends the time on the timer's channel.\<close>

definition timer_callback :: "int \<Rightarrow> gtimer \<Rightarrow> gtimer res option" where
  "timer_callback now i =
     (let i = i\<lparr>t_due := None, t_active := False\<rparr>; p = t_period i in
      if \<not> (high p = 0 \<and> low p = 0) then startTimer now (i\<lparr>t_when := add64 (t_when i) p\<rparr>) else Some (Inr i))"

text \<open>\<open>when\<close>: the time a duration ends, or the last instant there is.\<close>

definition time_when :: "int \<Rightarrow> js64 \<Rightarrow> js64" where
  "time_when now d =
     (if high d < 0 \<or> high d = 0 \<and> low d \<le> 0 then nanotime now
      else let l = add64 (nanotime now) (new64 KInt64 (high d) (low d)) in
        if high l < 0 \<or> high l = 0 \<and> low l < 0 then new64 KInt64 2147483647 4294967295 else l)"

definition NewTimer :: "int \<Rightarrow> js64 \<Rightarrow> gtimer res option" where
  "NewTimer now d = startTimer now \<lparr>t_when = time_when now d, t_period = int64_of 0, t_active = False, t_due = None\<rparr>"

definition NewTicker :: "int \<Rightarrow> js64 \<Rightarrow> gtimer res option" where
  "NewTicker now d =
     (if high d < 0 \<or> high d = 0 \<and> low d \<le> 0 then Some (Inl (Panic ''non-positive interval for NewTicker''))
      else startTimer now \<lparr>t_when = time_when now d, t_period = new64 KInt64 (high d) (low d), t_active = False, t_due = None\<rparr>)"

definition Timer_Reset :: "int \<Rightarrow> js64 \<Rightarrow> gtimer \<Rightarrow> (bool \<times> gtimer) res option" where
  "Timer_Reset now d j =
     (let k = time_when now d; (l, j) = stopTimer j in bind2 (startTimer now (j\<lparr>t_when := k\<rparr>)) (\<lambda>j. Some (Inr (l, j))))"

section \<open>When a callback may run\<close>

definition s64 :: "js64 \<Rightarrow> bool" where
  "s64 x \<longleftrightarrow> wf64 x \<and> ctor x = KInt64"

lemma s64_simps [simp]: "s64 (int64_of n)" "s64 (new64 KInt64 h l)" "s64 x \<Longrightarrow> s64 (add64 x y)" "s64 x \<Longrightarrow> s64 (sub64 x y)" "s64 (nanotime ms)"
  by (simp_all add: s64_def nanotime_def mul64_def)

lemma s64_range: "s64 x \<Longrightarrow> - (2 ^ 63) \<le> val64 x \<and> val64 x < 2 ^ 63"
  using in_range64_val64 [of x] by (simp add: s64_def in_range64_def)

lemma s64_le_zero: "s64 d \<Longrightarrow> (high d < 0 \<or> high d = 0 \<and> low d \<le> 0) \<longleftrightarrow> val64 d \<le> 0"
  by (auto simp: s64_def wf64_def val64_def)

lemma s64_less_zero: "s64 d \<Longrightarrow> (high d < 0 \<or> high d = 0 \<and> low d < 0) \<longleftrightarrow> val64 d < 0"
  by (auto simp: s64_def wf64_def val64_def)

lemma s64_greater: "s64 d \<Longrightarrow> 0 \<le> k \<Longrightarrow> k < 2 ^ 32 \<Longrightarrow> (high d > 0 \<or> high d = 0 \<and> low d > k) \<longleftrightarrow> val64 d > k"
  by (auto simp: s64_def wf64_def val64_def)

lemma val64_copy: "s64 d \<Longrightarrow> new64 KInt64 (high d) (low d) = d"
proof -
  assume d: "s64 d"
  have "val64 (new64 KInt64 (high d) (low d)) = wrap64 KInt64 (val64 d)" unfolding val64_new64 by (simp add: val64_def)
  then show ?thesis using d wrap64_val64 [of d] by (intro wf64_eqI) (simp_all add: s64_def)
qed

lemma val64_nanotime: "0 \<le> ms \<Longrightarrow> ms * 1000000 < 2 ^ 63 \<Longrightarrow> val64 (nanotime ms) = ms * 1000000"
  using mul64_value [of "int64_of ms" "int64_of 1000000"] by (simp add: nanotime_def val64_int64_of wrap64_int)

lemma s64_sub: "s64 x \<Longrightarrow> val64 (sub64 x y) = wrap64 KInt64 (val64 x - val64 y)"
  by (simp add: s64_def sub64_def val64_new64) (simp add: val64_def algebra_simps)

lemma s64_add: "s64 x \<Longrightarrow> val64 (add64 x y) = wrap64 KInt64 (val64 x + val64 y)"
  by (simp add: s64_def val64_add64)

definition timer_delay :: "int \<Rightarrow> gtimer \<Rightarrow> int" where
  "timer_delay now i = tdiv (val64 (t_when i) - now * 1000000) 1000000"

lemma startTimer_spec:
  assumes "s64 (t_when i)" "0 \<le> val64 (t_when i)" "0 \<le> now" "now * 1000000 < 2 ^ 63"
  shows "startTimer now i = Some (Inr (if timer_delay now i > 2147483647 then i\<lparr>t_active := True\<rparr>
     else i\<lparr>t_active := True, t_due := Some (now + max 0 (timer_delay now i) + 1)\<rparr>))"
proof -
  let ?i = "i\<lparr>t_active := True\<rparr>" and ?x = "sub64 (t_when i) (nanotime now)"
  have w: "val64 (t_when i) < 2 ^ 63" using s64_range [OF assms(1)] by simp
  have x: "s64 ?x" "val64 ?x = val64 (t_when i) - now * 1000000"
    using assms w by (simp_all add: s64_sub val64_nanotime wrap64_int)
  have m: "s64 (int64_of 1000000)" "val64 (int64_of 1000000) = 1000000" by (simp_all add: val64_int64_of)
  obtain l where l: "div64 ?x (int64_of 1000000) False = Some (Inr l)" "s64 l" "val64 l = wrap64 KInt64 (timer_delay now i)"
    using div64_correct [of ?x "int64_of 1000000" False] x m by (auto simp: s64_def timer_delay_def)
  have "\<bar>timer_delay now i\<bar> = \<bar>val64 ?x\<bar> div 1000000" by (simp add: timer_delay_def tdiv_def x(2) abs_mult sgn_if)
  also have "\<dots> \<le> \<bar>val64 ?x\<bar>" by (rule div_le_self) simp_all
  finally have "\<bar>timer_delay now i\<bar> \<le> \<bar>val64 ?x\<bar>" .
  moreover have "\<bar>val64 ?x\<bar> < 2 ^ 63" using assms w x(2) by simp
  ultimately have v: "val64 l = timer_delay now i" using l(3) by (simp add: wrap64_int)
  have big: "(high l > 0 \<or> high l = 0 \<and> low l > 2147483647) \<longleftrightarrow> timer_delay now i > 2147483647" using s64_greater [OF l(2), of 2147483647] v by simp
  define k where "k = (if high l < 0 \<or> high l = 0 \<and> low l < 0 then int64_of 0 else l)"
  have k: "s64 k" "val64 k = max 0 (timer_delay now i)" using l(2) v s64_less_zero [OF l(2)] by (auto simp: k_def val64_int64_of)
  have fl: "flatten64 (new64 KInt64 (high k + 0) (low k + 1)) = max 0 (timer_delay now i) + 1" if "\<not> timer_delay now i > 2147483647"
  proof -
    have "val64 (new64 KInt64 (high k + 0) (low k + 1)) = wrap64 KInt64 (val64 k + 1)"
      unfolding val64_new64 by (simp add: val64_def add.assoc)
    also have "\<dots> = max 0 (timer_delay now i) + 1" using that k(2) by (simp add: wrap64_int)
    finally show ?thesis by (simp add: flatten64_val64)
  qed
  show ?thesis
  proof (cases "timer_delay now i > 2147483647")
    case True
    then show ?thesis using l(1) big by (simp add: startTimer_def Let_def)
  next
    case False
    then show ?thesis using l(1) big fl [OF False] by (auto simp: startTimer_def Let_def k_def [symmetric])
  qed
qed

text \<open>The callback is never set for a time before the one asked for, and less than a millisecond too late.\<close>

lemma delay_bounds:
  "val64 (t_when i) \<le> (now + max 0 (timer_delay now i) + 1) * 1000000"
  "now * 1000000 \<le> val64 (t_when i) \<Longrightarrow> (now + max 0 (timer_delay now i)) * 1000000 \<le> val64 (t_when i)"
proof -
  define x where "x = val64 (t_when i) - now * 1000000"
  have "timer_delay now i = (if x < 0 then - ((- x) div 1000000) else x div 1000000)"
    by (simp add: timer_delay_def tdiv_def x_def [symmetric] sgn_if)
  then have d: "max 0 (timer_delay now i) = (if x < 0 then 0 else x div 1000000)"
    by (auto simp: max_def pos_imp_zdiv_nonneg_iff)
  have m: "x < (x div 1000000 + 1) * 1000000" "\<not> x < x div 1000000 * 1000000"
    using int_div_less_mult [of 1000000 x "x div 1000000 + 1"] int_div_less_mult [of 1000000 x "x div 1000000"] by simp_all
  have "x \<le> (max 0 (timer_delay now i) + 1) * 1000000" using m(1) unfolding d by (cases "x < 0") simp_all
  then show "val64 (t_when i) \<le> (now + max 0 (timer_delay now i) + 1) * 1000000" by (simp add: x_def algebra_simps)
  show "(now + max 0 (timer_delay now i)) * 1000000 \<le> val64 (t_when i)" if "now * 1000000 \<le> val64 (t_when i)"
  proof -
    have "0 \<le> x" using that by (simp add: x_def)
    then have "max 0 (timer_delay now i) * 1000000 \<le> x" using m(2) unfolding d by (cases "x < 0") simp_all
    then show ?thesis by (simp add: x_def algebra_simps)
  qed
qed

section \<open>Timers and tickers\<close>

lemma time_when_value:
  assumes "s64 d" "0 \<le> now" "now * 1000000 + max 0 (val64 d) < 2 ^ 63"
  shows "s64 (time_when now d) \<and> val64 (time_when now d) = now * 1000000 + max 0 (val64 d)"
proof (cases "val64 d \<le> 0")
  case True
  then show ?thesis using assms s64_le_zero [OF assms(1)] by (simp add: time_when_def val64_nanotime)
next
  case False
  let ?l = "add64 (nanotime now) d"
  have "val64 ?l = now * 1000000 + val64 d" using False assms by (simp add: s64_add val64_nanotime wrap64_int)
  then show ?thesis using False assms s64_le_zero [OF assms(1)] s64_less_zero [of ?l]
    by (auto simp: time_when_def Let_def val64_copy)
qed

lemma NewTimer_callback:
  assumes "s64 d" "0 \<le> now" "now * 1000000 + max 0 (val64 d) < 2 ^ 63" "val64 d < 2147483648 * 1000000"
  shows "\<exists>i due. NewTimer now d = Some (Inr i) \<and> t_active i \<and> t_due i = Some due \<and>
    now * 1000000 + val64 d \<le> due * 1000000 \<and> due * 1000000 \<le> now * 1000000 + max 0 (val64 d) + 1000000 \<and>
    (\<forall>t. timer_callback t i = Some (Inr (i\<lparr>t_active := False, t_due := None\<rparr>)))"
proof -
  let ?i = "\<lparr>t_when = time_when now d, t_period = int64_of 0, t_active = False, t_due = None\<rparr>"
  note w = time_when_value [OF assms(1-3)]
  have n: "now * 1000000 < 2 ^ 63" using assms(3) by simp
  have start: "startTimer now ?i = Some (Inr (if timer_delay now ?i > 2147483647 then ?i\<lparr>t_active := True\<rparr>
     else ?i\<lparr>t_active := True, t_due := Some (now + max 0 (timer_delay now ?i) + 1)\<rparr>))"
    using w assms(2) by (intro startTimer_spec n) simp_all
  have b: "now * 1000000 + max 0 (val64 d) \<le> (now + max 0 (timer_delay now ?i) + 1) * 1000000"
    "(now + max 0 (timer_delay now ?i)) * 1000000 \<le> now * 1000000 + max 0 (val64 d)"
    using delay_bounds [where i = ?i and now = now] w by simp_all
  have "max 0 (timer_delay now ?i) * 1000000 \<le> max 0 (val64 d)" using b(2) by (simp add: algebra_simps)
  then have "\<not> timer_delay now ?i > 2147483647" using assms(4) by linarith
  moreover have "(now + max 0 (timer_delay now ?i) + 1) * 1000000 = (now + max 0 (timer_delay now ?i)) * 1000000 + 1000000"
    by (simp add: algebra_simps)
  moreover have "high (int64_of 0) = 0" "low (int64_of 0) = 0" by code_simp+
  ultimately show ?thesis using start b by (simp add: NewTimer_def timer_callback_def Let_def)
qed

theorem NewTimer_fires:
  assumes "s64 d" "0 \<le> now" "now * 1000000 + max 0 (val64 d) < 2 ^ 63" "val64 d < 2147483648 * 1000000"
  shows "\<exists>i due. NewTimer now d = Some (Inr i) \<and> t_active i \<and> t_due i = Some due \<and>
    now * 1000000 + val64 d \<le> due * 1000000 \<and> due * 1000000 \<le> now * 1000000 + max 0 (val64 d) + 1000000 \<and>
    (\<forall>t. timer_callback t i = Some (Inr (i\<lparr>t_active := False, t_due := None\<rparr>)))"
  by (rule NewTimer_callback [OF assms])

theorem NewTimer_fires_witness:
  "\<exists>i due. NewTimer 1700000000000 (int64_of 1500000) = Some (Inr i) \<and> t_due i = Some due \<and>
    1700000000001500000 \<le> due * 1000000 \<and> due * 1000000 \<le> 1700000000002500000"
  using NewTimer_fires [of "int64_of 1500000" 1700000000000] by (auto simp: val64_int64_of)

text \<open>
  The times \<open>ts\<close> at which the browser may run the callback: it does so once the callback is due, and the result counts
  how often.
\<close>

fun ticks :: "int list \<Rightarrow> gtimer \<Rightarrow> (nat \<times> gtimer) res option" where
  "ticks [] i = Some (Inr (0, i))"
| "ticks (t # ts) i =
     (if t_due i = None \<or> t < the (t_due i) then ticks ts i
      else bind2 (timer_callback t i) (\<lambda>i. bind2 (ticks ts i) (\<lambda>(n, i). Some (Inr (Suc n, i)))))"

definition ticker_at :: "int \<Rightarrow> js64 \<Rightarrow> gtimer \<Rightarrow> bool" where
  "ticker_at w p i \<longleftrightarrow> s64 (t_when i) \<and> val64 (t_when i) = w \<and> t_period i = p \<and> (\<forall>due. t_due i = Some due \<longrightarrow> w \<le> due * 1000000)"

lemma ticker_callback:
  assumes "ticker_at w p i" "s64 p" "0 < val64 p" "0 \<le> w" "w + val64 p < 2 ^ 63" "0 \<le> t" "t * 1000000 < 2 ^ 63"
  shows "\<exists>i'. timer_callback t i = Some (Inr i') \<and> ticker_at (w + val64 p) p i'"
proof -
  let ?i = "i\<lparr>t_due := None, t_active := False, t_when := add64 (t_when i) (t_period i)\<rparr>"
  have p: "t_period i = p" "\<not> (high p = 0 \<and> low p = 0)" using assms(1,3) by (auto simp: ticker_at_def val64_def)
  have w: "s64 (t_when ?i)" "val64 (t_when ?i) = w + val64 p"
    using assms by (simp_all add: ticker_at_def s64_add wrap64_int)
  from startTimer_spec [OF w(1) _ assms(6,7)] w(2) assms(3,4) have
    "startTimer t ?i = Some (Inr (if timer_delay t ?i > 2147483647 then ?i\<lparr>t_active := True\<rparr>
     else ?i\<lparr>t_active := True, t_due := Some (t + max 0 (timer_delay t ?i) + 1)\<rparr>))" by simp
  moreover have "w + val64 p \<le> (t + max 0 (timer_delay t ?i) + 1) * 1000000" using delay_bounds(1) [of ?i t] w(2) by simp
  ultimately show ?thesis using p w by (auto simp: timer_callback_def Let_def ticker_at_def)
qed

lemma ticks_bound:
  assumes "s64 p" "0 < val64 p" "T * 1000000 + 2 * val64 p < 2 ^ 63"
  shows "ticker_at w p i \<Longrightarrow> 0 \<le> w \<Longrightarrow> w \<le> T * 1000000 + val64 p \<Longrightarrow> \<forall>t \<in> set ts. 0 \<le> t \<and> t \<le> T \<Longrightarrow>
    \<exists>n i'. ticks ts i = Some (Inr (n, i')) \<and> (n \<noteq> 0 \<longrightarrow> w + int (n - 1) * val64 p \<le> T * 1000000)"
proof (induction ts arbitrary: w i)
  case (Cons t ts)
  show ?case
  proof (cases "t_due i = None \<or> t < the (t_due i)")
    case True
    then show ?thesis using Cons.IH [OF Cons.prems(1-3)] Cons.prems(4) by simp
  next
    case False
    then obtain due where due: "t_due i = Some due" "due \<le> t" by auto
    have t: "0 \<le> t" "t \<le> T" using Cons.prems(4) by simp_all
    have w: "w \<le> T * 1000000" using Cons.prems(1) due t by (auto simp: ticker_at_def)
    have r: "w + val64 p < 2 ^ 63" "t * 1000000 < 2 ^ 63" using w t assms(2,3) by linarith+
    obtain i1 where i1: "timer_callback t i = Some (Inr i1)" "ticker_at (w + val64 p) p i1"
      using ticker_callback [OF Cons.prems(1) assms(1,2) Cons.prems(2) r(1) t(1) r(2)] by blast
    obtain n i' where n: "ticks ts i1 = Some (Inr (n, i'))" "n \<noteq> 0 \<longrightarrow> (w + val64 p) + int (n - 1) * val64 p \<le> T * 1000000"
      using Cons.IH [OF i1(2)] Cons.prems(2,4) w assms(2) by auto
    have "w + int (Suc n - 1) * val64 p \<le> T * 1000000" using n(2) w by (cases n) (auto simp: algebra_simps)
    then show ?thesis using False i1(1) n(1) due by simp
  qed
qed simp

text \<open>
  A ticker never runs ahead of its period and never fails: whenever the browser runs its callback once it is due, the
  number of ticks by the time \<open>T\<close> times the period is at most the time since the ticker was made, however late some of the
  callbacks were.
\<close>

theorem ticker_rate:
  assumes "s64 p" "0 < val64 p" "0 \<le> now" "now \<le> T" "T * 1000000 + 2 * val64 p < 2 ^ 63" "\<forall>t \<in> set ts. 0 \<le> t \<and> t \<le> T"
  shows "\<exists>i n i'. NewTicker now p = Some (Inr i) \<and> ticks ts i = Some (Inr (n, i')) \<and> int n * val64 p \<le> (T - now) * 1000000"
proof -
  let ?i = "\<lparr>t_when = time_when now p, t_period = p, t_active = False, t_due = None\<rparr>"
  have b: "now * 1000000 + max 0 (val64 p) < 2 ^ 63" "now * 1000000 < 2 ^ 63" using assms(2-5) by linarith+
  have w: "s64 (time_when now p)" "val64 (time_when now p) = now * 1000000 + val64 p"
    using time_when_value [OF assms(1,3) b(1)] assms(2) by simp_all
  have "startTimer now ?i = Some (Inr (if timer_delay now ?i > 2147483647 then ?i\<lparr>t_active := True\<rparr>
     else ?i\<lparr>t_active := True, t_due := Some (now + max 0 (timer_delay now ?i) + 1)\<rparr>))"
    using w assms(2,3) by (intro startTimer_spec b) simp_all
  moreover have "val64 (time_when now p) \<le> (now + max 0 (timer_delay now ?i) + 1) * 1000000" using delay_bounds(1) [of ?i now] by simp
  ultimately obtain i where i: "NewTicker now p = Some (Inr i)" "ticker_at (now * 1000000 + val64 p) p i"
    using w assms(2) s64_le_zero [OF assms(1)] by (auto simp: NewTicker_def ticker_at_def val64_copy [OF assms(1)])
  have "now * 1000000 + val64 p \<le> T * 1000000 + val64 p" "0 \<le> now * 1000000 + val64 p" using assms(2-4) by simp_all
  from ticks_bound [OF assms(1,2,5) i(2) this(2,1) assms(6)] obtain n i' where
    n: "ticks ts i = Some (Inr (n, i'))" "n \<noteq> 0 \<longrightarrow> now * 1000000 + val64 p + int (n - 1) * val64 p \<le> T * 1000000" by blast
  have "int n * val64 p \<le> (T - now) * 1000000" using n(2) assms(4) by (cases n) (auto simp: algebra_simps)
  then show ?thesis using i(1) n(1) by blast
qed

theorem ticker_rate_witness:
  "\<exists>i n i'. NewTicker 5 (int64_of 2000000) = Some (Inr i) \<and> ticks [6, 8, 9, 15] i = Some (Inr (n, i')) \<and>
    int n * 2000000 \<le> 10000000"
  using ticker_rate [of "int64_of 2000000" 5 15 "[6, 8, 9, 15]"] by (auto simp: val64_int64_of)

text \<open>A stopped timer has no callback; \<open>Stop\<close> says whether it was active.\<close>

lemma stopTimer_no_callback: "stopTimer i = (a, i') \<Longrightarrow> a = t_active i \<and> ticks ts i' = Some (Inr (0, i'))"
  by (induction ts) (auto simp: stopTimer_def)

end
