(* ===== verification/Bridge_Loop.thy ===== *)
theory Bridge_Loop
  imports Bridge Websocket_Dial Time_Timer
begin

text \<open>
  The outer loop of the bridge: a one-second timer, one attempt (dial the server, open the client session, accept
  streams until an error, a goroutine for each), then a receive from the timer's channel, for ever.  What the dial and
  \<open>Accept\<close> give, how long an attempt takes and how late the browser runs a timer's callback are arguments.
\<close>

datatype 'k bridge_log = Dials "int list" | Prints go_error | Spawns 'k

record 'k attempt =
  a_dial :: "go_error option"
  a_accepts :: "(go_error + 'k) list"
  a_ms :: int
  a_late :: int

fun accept_loop :: "(go_error + 'k) list \<Rightarrow> 'k bridge_log list" where
  "accept_loop [] = []"
| "accept_loop (Inl e # rs) = [Prints e]"
| "accept_loop (Inr k # rs) = Spawns k # accept_loop rs"

text \<open>One attempt; \<open>Client\<close> with a nil configuration verifies the default one.\<close>

definition bridge_attempt :: "int list \<Rightarrow> 'k attempt \<Rightarrow> 'k bridge_log list" where
  "bridge_attempt addr a = Dials addr #
     (case a_dial a of
        Some e \<Rightarrow> [Prints e]
      | None \<Rightarrow> (case VerifyConfig DefaultConfig 0 of Some e \<Rightarrow> [] | None \<Rightarrow> accept_loop (a_accepts a)))"

text \<open>The attempts with the times they begin; a timer that is never set would block the loop.\<close>

fun bridge_run :: "int list \<Rightarrow> int \<Rightarrow> 'k attempt list \<Rightarrow> (int \<times> 'k bridge_log list) list res option" where
  "bridge_run addr now [] = Some (Inr [])"
| "bridge_run addr now (a # as) =
     bind2 (NewTimer now (int64_of 1000000000)) (\<lambda>i.
       case t_due i of
         None \<Rightarrow> Some (Inr [(now, bridge_attempt addr a)])
       | Some d \<Rightarrow> bind2 (bridge_run addr (max (now + a_ms a) (d + a_late a)) as)
                    (\<lambda>r. Some (Inr ((now, bridge_attempt addr a) # r))))"

section \<open>The loop goes on and does not hurry\<close>

lemma accept_loop_all: "accept_loop (map Inr ks @ Inl e # rs) = map Spawns ks @ [Prints e]"
  by (induction ks) simp_all

lemma DefaultConfig_ok: "VerifyConfig DefaultConfig 0 = None"
  by (simp add: VerifyConfig_def DefaultConfig_def new64_def less64_def ToInt32_id ToUint32_id)

definition attempt_span :: "'k attempt \<Rightarrow> int" where
  "attempt_span a = a_ms a + a_late a + 1001"

definition paced :: "int \<times> 'k bridge_log list \<Rightarrow> int \<times> 'k bridge_log list \<Rightarrow> bool" where
  "paced x y \<longleftrightarrow> fst x + 1000 \<le> fst y"

lemma second_timer:
  assumes "0 \<le> now" "now * 1000000 + 1000000000 < 2 ^ 63"
  obtains i where "NewTimer now (int64_of 1000000000) = Some (Inr i)" "t_due i = Some (now + 1001)"
proof -
  let ?d = "int64_of 1000000000"
  let ?i = "\<lparr>t_when = time_when now ?d, t_period = int64_of 0, t_active = False, t_due = None\<rparr>"
  have w: "s64 (time_when now ?d)" "val64 (time_when now ?d) = now * 1000000 + 1000000000"
    using time_when_value [of ?d now] assms by (simp_all add: val64_int64_of)
  have delay: "timer_delay now ?i = 1000" using w(2) by (simp add: timer_delay_def tdiv_def)
  have "now * 1000000 < 2 ^ 63" using assms(2) by simp
  then have "NewTimer now ?d = Some (Inr (?i\<lparr>t_active := True, t_due := Some (now + 1001)\<rparr>))"
    using startTimer_spec [of ?i now] w assms(1) delay by (simp add: NewTimer_def)
  then show ?thesis using that by simp
qed

text \<open>When the attempt after \<open>a\<close>, which began at \<open>t\<close>, begins.\<close>

definition next_start :: "int \<Rightarrow> 'k attempt \<Rightarrow> int" where
  "next_start t a = max (t + a_ms a) (t + 1001 + a_late a)"

lemma next_start_bounds:
  "0 \<le> a_ms a \<Longrightarrow> 0 \<le> a_late a \<Longrightarrow> t + 1000 \<le> next_start t a \<and> next_start t a \<le> t + attempt_span a"
  by (auto simp: next_start_def attempt_span_def)

lemma bridge_run_paced:
  "\<forall>a \<in> set as. 0 \<le> a_ms a \<and> 0 \<le> a_late a \<Longrightarrow> 0 \<le> now \<Longrightarrow> (now + sum_list (map attempt_span as)) * 1000000 + 1000000000 < 2 ^ 63 \<Longrightarrow>
   \<exists>r. bridge_run addr now as = Some (Inr r) \<and> map snd r = map (bridge_attempt addr) as \<and> sorted_wrt paced r \<and>
     (\<forall>x \<in> set r. now \<le> fst x) \<and> (\<forall>i < length r. fst (r ! i) = (case i of 0 \<Rightarrow> now | Suc j \<Rightarrow> next_start (fst (r ! j)) (as ! j)))"
proof (induction as arbitrary: now)
  case (Cons a as)
  have span: "0 \<le> a_ms a" "0 \<le> a_late a" "0 \<le> sum_list (map attempt_span as)"
    using Cons.prems(1) by (auto simp: attempt_span_def intro!: sum_list_nonneg)
  note n = next_start_bounds [OF span(1,2), of now]
  let ?n = "next_start now a"
  have "now * 1000000 + 1000000000 < 2 ^ 63" using Cons.prems(3) n span(3) by simp
  then obtain i where d: "NewTimer now (int64_of 1000000000) = Some (Inr i)" "t_due i = Some (now + 1001)"
    using second_timer [OF Cons.prems(2)] by blast
  have "(?n + sum_list (map attempt_span as)) * 1000000 + 1000000000 < 2 ^ 63" using Cons.prems(3) n by simp
  then obtain r where r: "bridge_run addr ?n as = Some (Inr r)" "map snd r = map (bridge_attempt addr) as" "sorted_wrt paced r"
    "\<forall>x \<in> set r. ?n \<le> fst x"
    "\<forall>i < length r. fst (r ! i) = (case i of 0 \<Rightarrow> ?n | Suc j \<Rightarrow> next_start (fst (r ! j)) (as ! j))"
    using Cons.IH [of ?n] Cons.prems(1,2) n by auto
  let ?r = "(now, bridge_attempt addr a) # r"
  have "\<forall>i < length ?r. fst (?r ! i) = (case i of 0 \<Rightarrow> now | Suc j \<Rightarrow> next_start (fst (?r ! j)) ((a # as) ! j))"
    using r(5) by (auto simp: nth_Cons split: nat.splits)
  moreover have "\<forall>x \<in> set r. paced (now, bridge_attempt addr a) x \<and> now \<le> fst x" using r(4) n by (auto simp: paced_def)
  ultimately show ?case using d r(1-3) by (intro exI [of _ ?r]) (simp add: next_start_def)
qed simp

text \<open>
  C5: the bridge never gives up and never hurries: whatever the dials, the sessions and their \<open>Accept\<close> calls give and
  however long they take, every attempt is followed by another, each with its dial, a goroutine for every stream accepted
  and the error printed; the first begins at once, and every other exactly when the attempt before has ended and the
  callback of its timer has run, 1001 milliseconds after that attempt began and as late as the browser makes it, whichever
  is later; so two attempts begin at least a second apart.
\<close>

theorem bridge_keeps_trying:
  assumes "\<forall>a \<in> set as. 0 \<le> a_ms a \<and> 0 \<le> a_late a" "0 \<le> now" "(now + sum_list (map attempt_span as)) * 1000000 + 1000000000 < 2 ^ 63"
  shows "\<exists>r. bridge_run addr now as = Some (Inr r) \<and> map snd r = map (bridge_attempt addr) as \<and> sorted_wrt paced r \<and>
     (\<forall>i < length r. fst (r ! i) = (case i of 0 \<Rightarrow> now
        | Suc j \<Rightarrow> max (fst (r ! j) + a_ms (as ! j)) (fst (r ! j) + 1001 + a_late (as ! j))))"
  using bridge_run_paced [OF assms] unfolding next_start_def by blast

theorem bridge_keeps_trying_witness:
  "\<exists>r. bridge_run [120] 7 [\<lparr>a_dial = Some (ConnError 1), a_accepts = [], a_ms = 5, a_late = 2\<rparr>,
        \<lparr>a_dial = None, a_accepts = [Inr True, Inl EOF], a_ms = 4000, a_late = 0\<rparr>,
        \<lparr>a_dial = None, a_accepts = [Inl EOF], a_ms = 1, a_late = 0\<rparr>] = Some (Inr r) \<and>
     map snd r = [[Dials [120], Prints (ConnError 1)], [Dials [120], Spawns True, Prints EOF], [Dials [120], Prints EOF]] \<and>
     map fst r = [7, 1010, 5010]"
proof -
  let ?as = "[\<lparr>a_dial = Some (ConnError 1), a_accepts = [], a_ms = 5, a_late = 2\<rparr>,
        \<lparr>a_dial = None, a_accepts = [Inr True, Inl EOF], a_ms = 4000, a_late = 0\<rparr>,
        \<lparr>a_dial = None, a_accepts = [Inl EOF], a_ms = 1, a_late = 0\<rparr>]"
  obtain r where r: "bridge_run [120] 7 ?as = Some (Inr r)" "map snd r = map (bridge_attempt [120]) ?as"
    "\<forall>i < length r. fst (r ! i) = (case i of 0 \<Rightarrow> 7
        | Suc j \<Rightarrow> max (fst (r ! j) + a_ms (?as ! j)) (fst (r ! j) + 1001 + a_late (?as ! j)))"
    using bridge_keeps_trying [of ?as 7 "[120]"] by (auto simp: attempt_span_def)
  have "length r = 3" using arg_cong [OF r(2), of length] by simp
  then obtain x y z where xyz: "r = [x, y, z]" by (auto simp: numeral_3_eq_3 length_Suc_conv)
  have "fst x = 7" using r(3) [rule_format, of 0] by (simp add: xyz)
  moreover have "fst y = 1010" using r(3) [rule_format, of 1] calculation by (simp add: xyz)
  moreover have "fst z = 5010" using r(3) [rule_format, of 2] calculation by (simp add: xyz numeral_2_eq_2)
  ultimately have "map fst r = [7, 1010, 5010]" by (simp add: xyz)
  then show ?thesis using r(1,2) by (auto simp: bridge_attempt_def DefaultConfig_ok)
qed

end
