(* ===== verification/Smux_Window.thy ===== *)
theory Smux_Window
  imports Smux_Write
begin

text \<open>
  The two ends of a stream in protocol version 2: the sender obeys the window, the receiver reports what it has
  consumed.  A step is what the code does between two points where it can block: the writer's call of \<open>writeV2\<close> goes
  from the head of its loop to the first frame, from a frame given to the session to its answer (only then is
  \<open>numWritten\<close> raised, while the bytes may already have been read and reported), and to the wait for an update; the
  reader calls \<open>Read\<close>, the receive loops push frames and store updates.  The frames in flight and the updates in flight
  are queues; the session keeps the order of each.  One goroutine writes to the stream and one reads from it, with
  \<open>Read\<close> (two writers would both see the same window; \<open>WriteTo\<close> is left out), and every frame given to the session
  reaches the other end.
\<close>

text \<open>
  Where the writer is: in no call; at the head of the loop with data to write; with frames to send within the window and
  the rest; waiting for the answer for a frame of so many bytes; asleep in the \<open>$select\<close> with data left.
\<close>

datatype writer = Idle | Head "int list" | Sending "int list" "int list" | Acking int "int list" "int list" | Waiting "int list"

record window_sys =
  w_snd :: stream
  w_rcv :: stream
  w_phase :: writer
  w_fly :: "int list list" \<comment> \<open>the data of the frames in flight\<close>
  w_upd :: "int list"      \<comment> \<open>updates in flight: the consumed counts\<close>
  w_total :: nat           \<comment> \<open>bytes given to the session so far\<close>

definition window_start :: "int \<Rightarrow> int \<Rightarrow> int \<Rightarrow> window_sys" where
  "window_start i fs fs' = \<lparr>w_snd = newStream i fs, w_rcv = newStream i fs', w_phase = Idle,
     w_fly = [], w_upd = [], w_total = 0\<rparr>"

text \<open>Where the writer goes with \<open>q\<close> still to be sent in this turn and \<open>a\<close> left after it.\<close>

definition after_frames :: "int list \<Rightarrow> int list \<Rightarrow> writer" where
  "after_frames q a = (if q \<noteq> [] then Sending q a else if a \<noteq> [] then Waiting a else Idle)"

datatype window_label = StartWrite "int list" | LoopHead | SendFrame | FrameDone | WakeUp | GiveUp
  | Deliver | ReadSome nat | GetUpdate

text \<open>\<open>GiveUp\<close> is the write deadline; the other end has the same \<open>MaxStreamBuffer\<close>.\<close>

fun window_next :: "config \<Rightarrow> window_label \<Rightarrow> window_sys \<Rightarrow> window_sys option" where
  "window_next cf (StartWrite a) y =
     (if w_phase y = Idle \<and> a \<noteq> [] \<and> int (length a) < 2147483648 then Some (y\<lparr>w_phase := Head a\<rparr>) else None)"
| "window_next cf LoopHead y = (case w_phase y of
       Head a \<Rightarrow> Some (y\<lparr>w_phase := (case write_window a (w_snd y) of Inl e \<Rightarrow> Idle | Inr (q, a') \<Rightarrow> after_frames q a')\<rparr>)
     | _ \<Rightarrow> None)"
| "window_next cf SendFrame y = (case w_phase y of
       Sending q a \<Rightarrow>
         (let r = (if int (length q) > frameSize (w_snd y) then frameSize (w_snd y) else int (length q))
          in Some (y\<lparr>w_phase := Acking r (drop (nat r) q) a, w_fly := w_fly y @ [take (nat r) q],
                     w_total := w_total y + length (take (nat r) q)\<rparr>))
     | _ \<Rightarrow> None)"
| "window_next cf FrameDone y = (case w_phase y of
       Acking r q a \<Rightarrow>
         Some (y\<lparr>w_snd := (w_snd y)\<lparr>numWritten := js_shr (numWritten (w_snd y) + js_shr r 0) 0\<rparr>, w_phase := after_frames q a\<rparr>)
     | _ \<Rightarrow> None)"
| "window_next cf WakeUp y = (case w_phase y of
       Waiting a \<Rightarrow> if chUpdate (w_snd y) then Some (y\<lparr>w_snd := (w_snd y)\<lparr>chUpdate := False\<rparr>, w_phase := Head a\<rparr>) else None
     | _ \<Rightarrow> None)"
| "window_next cf GiveUp y = (case w_phase y of Waiting a \<Rightarrow> Some (y\<lparr>w_phase := Idle\<rparr>) | _ \<Rightarrow> None)"
| "window_next cf Deliver y = (case w_fly y of
       [] \<Rightarrow> None
     | b # rest \<Rightarrow> Some (y\<lparr>w_rcv := notifyReadEvent (pushBytes b (w_rcv y)), w_fly := rest\<rparr>))"
| "window_next cf (ReadSome n) y =
     (if n = 0 then None
      else let (r, st') = tryReadv2 (MaxStreamBuffer cf) n (w_rcv y)
           in Some (y\<lparr>w_rcv := st', w_upd := w_upd y @ (case rd_update r of Some g \<Rightarrow> [g] | None \<Rightarrow> [])\<rparr>))"
| "window_next cf GetUpdate y = (case w_upd y of
       [] \<Rightarrow> None
     | g # us \<Rightarrow> Some (y\<lparr>w_snd := update g (js_shr (MaxStreamBuffer cf) 0) (w_snd y), w_upd := us\<rparr>))"

definition window_step :: "config \<Rightarrow> window_sys \<Rightarrow> window_sys \<Rightarrow> bool" where
  "window_step cf y y' \<longleftrightarrow> (\<exists>l. window_next cf l y = Some y')"

definition window_reachable :: "config \<Rightarrow> window_sys \<Rightarrow> window_sys \<Rightarrow> bool" where
  "window_reachable cf = (window_step cf)\<^sup>*\<^sup>*"

text \<open>The steps with the labels \<open>ls\<close>.\<close>

fun window_run :: "config \<Rightarrow> window_label list \<Rightarrow> window_sys \<Rightarrow> window_sys option" where
  "window_run cf [] y = Some y"
| "window_run cf (l # ls) y = Option.bind (window_next cf l y) (window_run cf ls)"

lemma window_run_reachable: "window_run cf ls y = Some y' \<Longrightarrow> window_reachable cf y y'"
proof (induction ls arbitrary: y)
  case (Cons l ls)
  then obtain z where z: "window_next cf l y = Some z" "window_run cf ls z = Some y'" by (auto simp: bind_eq_Some_conv)
  then have "window_step cf y z" by (auto simp: window_step_def)
  then show ?case using Cons.IH [OF z(2)] unfolding window_reachable_def by simp
qed (simp add: window_reachable_def)

definition window_cf :: "config \<Rightarrow> bool" where
  "window_cf cf \<longleftrightarrow> Version cf = 2 \<and> 0 < MaxStreamBuffer cf \<and> MaxStreamBuffer cf < 2 ^ 31"

section \<open>The window\<close>

lemma write_window_cases:
  assumes "u32_ok (numWritten st)" "u32_ok (peerConsumed st)" "0 \<le> peerWindow st" "peerWindow st < 2 ^ 31"
    and "length a < 2 ^ 31" "inflight = (numWritten st - peerConsumed st) mod 2 ^ 32" "inflight < 2 ^ 31"
  shows "write_window a st = (let win = peerWindow st - inflight in
    if win > int (length a) then Inr (a, []) else Inr (take (nat win) a, drop (nat win) a))"
proof -
  have i: "0 \<le> inflight" by (simp add: assms(6))
  have "js_sar (js_shr (numWritten st - peerConsumed st) 0) 0 = inflight"
    using assms(6,7) i by (simp add: js_shr_0 js_sar_eq ToInt32_id)
  moreover have "js_sar (js_sar (peerWindow st) 0 - inflight) 0 = peerWindow st - inflight"
    using assms(3,4,7) i by (simp add: js_sar_eq ToInt32_id)
  moreover have "js_sar (int (length a)) 0 = int (length a)" using assms(5) by (simp add: js_sar_eq ToInt32_id)
  ultimately show ?thesis using i by (auto simp: write_window_def Let_def)
qed

lemma write_window_token: "write_window a (st\<lparr>chUpdate := b\<rparr>) = write_window a st"
  by (simp add: write_window_def Let_def cong: if_cong)

text \<open>
  The window of \<open>writeV2\<close>: with more bytes acknowledged than sent the call ends with \<open>ErrConsumed\<close>;
  otherwise it takes a prefix of the data that keeps the unacknowledged bytes within the peer's window, and
  it leaves data only when the window is used up.
\<close>

theorem write_window_flow:
  assumes "u32_ok (numWritten st)" "u32_ok (peerConsumed st)" "0 \<le> peerWindow st" "peerWindow st < 2 ^ 31"
    and "length a < 2 ^ 31" "inflight = (numWritten st - peerConsumed st) mod 2 ^ 32"
  shows "if 2 ^ 31 \<le> inflight then write_window a st = Inl ErrConsumed
    else \<exists>q r. write_window a st = Inr (q, r) \<and> q @ r = a \<and> (q = [] \<or> inflight + int (length q) \<le> peerWindow st) \<and>
      (r = [] \<or> peerWindow st \<le> inflight + int (length q))"
proof (cases "2 ^ 31 \<le> inflight")
  case True
  have "js_sar (js_shr (numWritten st - peerConsumed st) 0) 0 = inflight - 2 ^ 32"
  proof -
    have "(inflight - 2 ^ 32) mod 2 ^ 32 = inflight mod 2 ^ 32" by simp
    then have "ToInt32 inflight = ToInt32 (inflight - 2 ^ 32)" using ToInt32_of_mod by metis
    also have "\<dots> = inflight - 2 ^ 32" using assms(6) True by (simp add: ToInt32_id)
    finally show ?thesis using assms(6) by (simp add: js_shr_0 js_sar_eq)
  qed
  then show ?thesis using True assms(6) by (simp add: write_window_def Let_def)
next
  case False
  then have f: "inflight < 2 ^ 31" by simp
  show ?thesis using False unfolding write_window_cases [OF assms f] by (auto simp: Let_def)
qed

theorem write_window_flow_witness:
  "write_window [1, 2, 3] ((newStream 3 10)\<lparr>numWritten := 5, peerConsumed := 4294967295, peerWindow := 8\<rparr>)
     = Inr ([1, 2], [3])"
  (is "write_window ?a ?st = _")
proof -
  have i: "(6::int) = (numWritten ?st - peerConsumed ?st) mod 2 ^ 32" by simp
  have "\<exists>q r. write_window ?a ?st = Inr (q, r) \<and> q @ r = ?a \<and> (q = [] \<or> 6 + int (length q) \<le> peerWindow ?st) \<and>
      (r = [] \<or> peerWindow ?st \<le> 6 + int (length q))"
  proof -
    have c: "u32_ok (numWritten ?st)" "u32_ok (peerConsumed ?st)" "0 \<le> peerWindow ?st" "peerWindow ?st < 2 ^ 31" "length ?a < 2 ^ 31"
      by (simp_all add: u32_ok_def)
    have "\<not> 2 ^ 31 \<le> (6::int)" by simp
    with write_window_flow [OF c i] show ?thesis by (simp only: if_False)
  qed
  then obtain q r where q: "write_window ?a ?st = Inr (q, r)" "q @ r = ?a" "q = [] \<or> length q \<le> 2" "r = [] \<or> 2 \<le> length q"
    by auto
  then have l: "length q \<le> 2" by auto
  have "r \<noteq> []" using q(2) l by auto
  then have "length q = 2" using q(4) l by simp
  then have "q = [1, 2]" "r = [3]" using q(2) by (simp_all add: append_eq_conv_conj)
  with q(1) show ?thesis by simp
qed

section \<open>Consumption and credit\<close>

text \<open>What \<open>count_read\<close> does below the wrap-around: a count that reaches half the buffer is reported.\<close>

lemma count_read_cases:
  assumes "0 \<le> numRead st" "0 \<le> incr st" "incr st \<le> numRead st" "numRead st + int b < 2 ^ 32" "0 < m" "m < 2 ^ 31" "0 < b"
  shows "count_read m b st =
    (if m div 2 \<le> incr st + int b \<or> numRead st = 0 then (numRead st + int b, st\<lparr>numRead := numRead st + int b, incr := 0\<rparr>)
     else (0, st\<lparr>numRead := numRead st + int b, incr := incr st + int b\<rparr>))"
proof -
  have b: "js_shr (int b) 0 = int b" "js_shr (numRead st + int b) 0 = numRead st + int b" "js_shr (incr st + int b) 0 = incr st + int b"
    using assms(1-4) by (simp_all add: js_shr_0)
  have "tdiv m 2 = m div 2" using assms(5) by (simp add: tdiv_def)
  then have "js_shr (tdiv m 2) 0 = m div 2" using assms(5,6) by (simp add: js_shr_0)
  with b show ?thesis by (simp add: count_read_def Let_def)
qed

text \<open>What the writer has under way: bytes sent and not yet counted, bytes of this turn, data left after the turn.\<close>

fun pending :: "writer \<Rightarrow> int" where
  "pending (Acking r q a) = r"
| "pending p = 0"

fun queued :: "writer \<Rightarrow> int list" where
  "queued (Sending q a) = q"
| "queued (Acking r q a) = q"
| "queued p = []"

fun left_over :: "writer \<Rightarrow> int list" where
  "left_over (Sending q a) = a"
| "left_over (Acking r q a) = a"
| "left_over (Waiting a) = a"
| "left_over p = []"

fun phase_ok :: "writer \<Rightarrow> bool" where
  "phase_ok Idle \<longleftrightarrow> True"
| "phase_ok (Head a) \<longleftrightarrow> a \<noteq> [] \<and> int (length a) < 2 ^ 31"
| "phase_ok (Sending q a) \<longleftrightarrow> q \<noteq> [] \<and> int (length a) < 2 ^ 31"
| "phase_ok (Acking r q a) \<longleftrightarrow> 0 < r \<and> r < 65536 \<and> int (length a) < 2 ^ 31"
| "phase_ok (Waiting a) \<longleftrightarrow> a \<noteq> [] \<and> int (length a) < 2 ^ 31"

lemma after_frames_simps [simp]:
  "pending (after_frames q a) = 0" "queued (after_frames q a) = q"
  "left_over (after_frames q a) = a \<or> q = [] \<and> a = []"
  "int (length a) < 2 ^ 31 \<Longrightarrow> phase_ok (after_frames q a)"
  by (simp_all add: after_frames_def)

text \<open>
  The counters agree with the bytes under way, what was sent and may still be sent in this turn is within the window, and a
  writer that has to wait has a token or a window that is used up.
\<close>

definition credit_inv :: "config \<Rightarrow> window_sys \<Rightarrow> bool" where
  "credit_inv cf y \<longleftrightarrow> (let c = peerConsumed (w_snd y); r = numRead (w_rcv y); i = incr (w_rcv y); m = MaxStreamBuffer cf;
       u = int (w_total y) + int (length (queued (w_phase y))) - c in
     numWritten (w_snd y) + pending (w_phase y) = int (w_total y) \<and> 0 \<le> numWritten (w_snd y) \<and>
     int (w_total y) = r + int (length (st_content (w_rcv y))) + int (length (concat (w_fly y))) \<and>
     0 \<le> i \<and> 0 \<le> c \<and> sorted (c # w_upd y) \<and> last (c # w_upd y) = r - i \<and>
     (i = 0 \<or> i < m div 2) \<and> (0 < r \<longrightarrow> 0 < r - i) \<and>
     (peerWindow (w_snd y) = m \<or> c = 0 \<and> peerWindow (w_snd y) = 262144) \<and>
     u \<le> max 262144 m \<and> (left_over (w_phase y) = [] \<or> chUpdate (w_snd y) \<or> peerWindow (w_snd y) \<le> u))"

definition ends_ok :: "config \<Rightarrow> window_sys \<Rightarrow> bool" where
  "ends_ok cf y \<longleftrightarrow> stream_ok cf (w_snd y) \<and> st_inv (w_rcv y) \<and> phase_ok (w_phase y) \<and> [] \<notin> set (w_fly y)"

lemma start_inv:
  assumes "window_cf cf" "0 < fs" "fs < 65536" "u32_ok i"
  shows "ends_ok cf (window_start i fs fs') \<and> credit_inv cf (window_start i fs fs')"
  using assms by (simp add: ends_ok_def credit_inv_def window_start_def newStream_def stream_ok_def window_cf_def
      st_inv_def st_content_def)

lemma total_mono: "window_next cf l y = Some y' \<Longrightarrow> w_total y \<le> w_total y'"
  by (cases l) (auto simp: Let_def split: writer.splits if_splits list.splits prod.splits)

lemma sorted_le_last: "sorted xs \<Longrightarrow> x \<in> set xs \<Longrightarrow> x \<le> last xs" for x :: int
  by (induction xs) auto

lemma last_le: "sorted (c # us) \<Longrightarrow> c \<le> last (c # us)" for c :: int
  by (rule sorted_le_last) simp_all

text \<open>A read, as the counters see it.\<close>

lemma tryReadv2_counts:
  assumes "0 < n" "st_inv st" "tryReadv2 m n st = (r, st')" "0 < m" "m < 2 ^ 31"
    and "0 \<le> incr st" "incr st \<le> numRead st" "incr st = 0 \<or> incr st < m div 2"
    and "numRead st + int (length (st_content st)) < 2 ^ 32"
  shows "st_inv st' \<and> rd_bytes r @ st_content st' = st_content st \<and> numRead st' = numRead st + int (length (rd_bytes r)) \<and>
    (if rd_bytes r \<noteq> [] \<and> (m div 2 \<le> incr st + int (length (rd_bytes r)) \<or> numRead st = 0)
     then rd_update r = Some (numRead st') \<and> incr st' = 0
     else rd_update r = None \<and> incr st' = incr st + int (length (rd_bytes r)))"
proof -
  obtain bs freed st1 where t: "take_some n st = (bs, freed, st1)" by (cases "take_some n st") auto
  have s: "st_inv st1" "bs @ st_content st1 = st_content st" using take_some_spec [OF assms(2,1) t] by simp_all
  have f: "numRead st1 = numRead st" "incr st1 = incr st"
    using t by (auto simp: take_some_def Let_def split: list.splits if_splits)
  obtain g st2 where c: "count_read m (length bs) st1 = (g, st2)" by (metis prod.exhaust)
  have b2: "buffers st2 = buffers st1" "heads st2 = heads st1"
    using count_read_buffers [of m "length bs" st1] by (simp_all add: c)
  then have i2: "st_inv st2" "st_content st2 = st_content st1" using s(1) by (simp_all add: st_inv_def st_content_def)
  show ?thesis
  proof (cases "bs = []")
    case True
    have nr: "numRead st1 < 2 ^ 32" "0 \<le> numRead st1" using f assms(6,7,9) by simp_all
    have h: "js_shr (tdiv m 2) 0 = m div 2" using assms(4,5) by (simp add: tdiv_def js_shr_0)
    have z: "js_shr (numRead st1) 0 = numRead st1" "js_shr (incr st1) 0 = incr st1" "js_shr 0 0 = 0"
      using nr f assms(6,7) by (simp_all add: js_shr_0)
    have "count_read m 0 st1 = (if m div 2 \<le> incr st1 \<or> numRead st1 = 0 then (numRead st1, st1\<lparr>numRead := numRead st1, incr := 0\<rparr>)
        else (0, st1\<lparr>numRead := numRead st1, incr := incr st1\<rparr>))"
      by (simp add: count_read_def Let_def z h)
    then have st2: "st2 = st1\<lparr>numRead := numRead st1, incr := 0\<rparr> \<and> (m div 2 \<le> incr st1 \<or> numRead st1 = 0) \<or>
        st2 = st1\<lparr>numRead := numRead st1, incr := incr st1\<rparr>"
      using c True by (simp split: if_splits)
    have "m div 2 \<le> incr st \<Longrightarrow> incr st = 0" "numRead st = 0 \<Longrightarrow> incr st = 0" using assms(6-8) by auto
    then have "numRead st2 = numRead st" "incr st2 = incr st" using st2 f by auto
    moreover have "rd_bytes r = []" "rd_update r = None" "st' = st2" using True assms(1,3) t c by (auto simp: tryReadv2_def)
    ultimately show ?thesis using True s(2) i2 by simp
  next
    case False
    have b: "0 < length bs" using False by simp
    have "length (st_content st) = length bs + length (st_content st1)" using s(2) by (metis length_append)
    then have l: "numRead st1 + int (length bs) < 2 ^ 32" using assms(9) f by simp
    have n0: "0 \<le> numRead st" using assms(6,7) by simp
    note cr = count_read_cases [of st1 "length bs" m, unfolded f c, OF n0 assms(6,7) l [unfolded f] assms(4,5) b]
    have "0 < int (length bs)" using b by simp
    then have pos: "0 < numRead st + int (length bs)" using assms(6,7) by linarith
    show ?thesis using False assms(1,3) t c s i2 f cr pos by (auto simp: tryReadv2_def split: if_splits)
  qed
qed

lemma credit_head:
  assumes "window_cf cf" "ends_ok cf y" "credit_inv cf y" "w_total y < 2 ^ 32" "w_phase y = Head a \<or> w_phase y = Waiting a"
  defines "i \<equiv> int (w_total y) - peerConsumed (w_snd y)"
  shows "write_window a (w_snd y) = (let win = peerWindow (w_snd y) - i in
    if win > int (length a) then Inr (a, []) else Inr (take (nat win) a, drop (nat win) a))"
proof -
  note inv = assms(3) [unfolded credit_inv_def Let_def]
  have p: "pending (w_phase y) = 0" "queued (w_phase y) = []" "length a < 2 ^ 31" using assms(2,5) by (auto simp: ends_ok_def)
  have c: "0 \<le> peerConsumed (w_snd y)" "peerConsumed (w_snd y) \<le> int (w_total y)"
    using last_le [of "peerConsumed (w_snd y)" "w_upd y"] inv by auto
  have nw: "numWritten (w_snd y) = int (w_total y)" using inv p by simp
  have u: "u32_ok (numWritten (w_snd y))" "u32_ok (peerConsumed (w_snd y))" using nw c assms(4) by (auto simp: u32_ok_def)
  have m: "0 < MaxStreamBuffer cf" "MaxStreamBuffer cf < 2 ^ 31" using assms(1) by (simp_all add: window_cf_def)
  have pw: "0 \<le> peerWindow (w_snd y)" "peerWindow (w_snd y) < 2 ^ 31" using inv m by auto
  have "i \<le> max 262144 (MaxStreamBuffer cf)" using inv p by (simp add: i_def)
  then have "i < 2 ^ 31" using m by simp
  moreover have "i = (numWritten (w_snd y) - peerConsumed (w_snd y)) mod 2 ^ 32" using nw c assms(4) by (simp add: i_def)
  ultimately show ?thesis by (intro write_window_cases [OF u pw p(3)])
qed

lemma credit_writer:
  assumes "window_cf cf" "window_next cf l y = Some y'" "w_total y' < 2 ^ 32" "ends_ok cf y" "credit_inv cf y"
    and "l \<in> {StartWrite a, SendFrame, FrameDone, WakeUp, GiveUp}"
  shows "ends_ok cf y' \<and> credit_inv cf y'"
proof -
  have fs: "0 < frameSize (w_snd y)" "frameSize (w_snd y) < 65536" using assms(4) by (simp_all add: ends_ok_def stream_ok_def)
  note inv = assms(5) [unfolded credit_inv_def Let_def]
  show ?thesis
  proof (cases l)
    case (StartWrite b)
    then have "w_phase y = Idle" "b \<noteq> []" "int (length b) < 2 ^ 31" and y': "y' = y\<lparr>w_phase := Head b\<rparr>"
      using assms(2) by (auto split: if_splits)
    then show ?thesis using assms(4) inv by (simp add: ends_ok_def credit_inv_def Let_def)
  next
    case SendFrame
    then obtain q b where q: "w_phase y = Sending q b" using assms(2) by (auto split: writer.splits)
    define r where "r = (if int (length q) > frameSize (w_snd y) then frameSize (w_snd y) else int (length q))"
    have y': "y' = y\<lparr>w_phase := Acking r (drop (nat r) q) b, w_fly := w_fly y @ [take (nat r) q],
        w_total := w_total y + length (take (nat r) q)\<rparr>" using assms(2) SendFrame q by (simp add: Let_def r_def)
    have r: "0 < r" "r < 65536" "int (length (take (nat r) q)) = r" "take (nat r) q \<noteq> []"
      "int (length (drop (nat r) q)) = int (length q) - r"
      using fs assms(4) q by (auto simp: r_def ends_ok_def)
    have "ends_ok cf y'" using assms(4) q r by (simp add: ends_ok_def y')
    moreover have "int (w_total y') + int (length (queued (w_phase y'))) = int (w_total y) + int (length (queued (w_phase y)))"
      "left_over (w_phase y') = left_over (w_phase y)" "w_snd y' = w_snd y" "w_rcv y' = w_rcv y" "w_upd y' = w_upd y"
      "int (w_total y') = int (w_total y) + r" "pending (w_phase y') = r" "pending (w_phase y) = 0"
      "int (length (concat (w_fly y'))) = int (length (concat (w_fly y))) + r"
      using r(3,5) by (simp_all add: y' q)
    then have "credit_inv cf y'" using inv unfolding credit_inv_def Let_def by (simp only:) auto
    ultimately show ?thesis by simp
  next
    case FrameDone
    then obtain r q b where q: "w_phase y = Acking r q b" using assms(2) by (auto split: writer.splits)
    have r: "0 < r" "r < 65536" "int (length b) < 2 ^ 31" using assms(4) q by (simp_all add: ends_ok_def)
    have tot: "w_total y' = w_total y" using assms(2) FrameDone q by auto
    have nw: "numWritten (w_snd y) + r = int (w_total y)" "0 \<le> numWritten (w_snd y)" using inv q by simp_all
    then have "js_shr (numWritten (w_snd y) + js_shr r 0) 0 = int (w_total y)"
      using r assms(3) tot by (simp add: js_shr_0)
    then have y': "y' = y\<lparr>w_snd := (w_snd y)\<lparr>numWritten := int (w_total y)\<rparr>, w_phase := after_frames q b\<rparr>"
      using assms(2) FrameDone q by auto
    have "ends_ok cf y'" using assms(4) r(3) by (simp add: ends_ok_def y' stream_ok_def)
    moreover have "left_over (after_frames q b) = [] \<or> left_over (after_frames q b) = b" by (auto simp: after_frames_def)
    then have "credit_inv cf y'" using inv q by (auto simp: credit_inv_def Let_def y')
    ultimately show ?thesis by simp
  next
    case WakeUp
    then obtain b where "w_phase y = Waiting b" "y' = y\<lparr>w_snd := (w_snd y)\<lparr>chUpdate := False\<rparr>, w_phase := Head b\<rparr>"
      using assms(2) by (auto split: writer.splits if_splits)
    then show ?thesis using assms(4) inv by (simp add: ends_ok_def credit_inv_def Let_def stream_ok_def)
  next
    case GiveUp
    then obtain b where "w_phase y = Waiting b" "y' = y\<lparr>w_phase := Idle\<rparr>" using assms(2) by (auto split: writer.splits)
    then show ?thesis using assms(4) inv by (simp add: ends_ok_def credit_inv_def Let_def)
  qed (use assms(6) in auto)
qed

lemma credit_loop_head:
  assumes "window_cf cf" "window_next cf LoopHead y = Some y'" "w_total y' < 2 ^ 32" "ends_ok cf y" "credit_inv cf y"
  shows "ends_ok cf y' \<and> credit_inv cf y'"
proof -
  note inv = assms(5) [unfolded credit_inv_def Let_def]
  obtain a where a: "w_phase y = Head a" using assms(2) by (auto split: writer.splits)
  let ?w = "peerWindow (w_snd y) - (int (w_total y) - peerConsumed (w_snd y))"
  have w: "write_window a (w_snd y) = (if ?w > int (length a) then Inr (a, []) else Inr (take (nat ?w) a, drop (nat ?w) a))"
    using credit_head [OF assms(1,4,5)] a assms(2,3) by (auto simp: Let_def)
  define q where "q = (if ?w > int (length a) then a else take (nat ?w) a)"
  define b where "b = (if ?w > int (length a) then [] else drop (nat ?w) a)"
  have y': "y' = y\<lparr>w_phase := after_frames q b\<rparr>" using assms(2) a w by (auto simp: q_def b_def)
  have al: "a \<noteq> []" "int (length a) < 2 ^ 31" using assms(4) a by (simp_all add: ends_ok_def)
  have lb: "int (length b) < 2 ^ 31" using al by (auto simp: b_def)
  have u: "int (w_total y) + int (length q) - peerConsumed (w_snd y) \<le> max 262144 (MaxStreamBuffer cf)"
  proof (cases "q = []")
    case True
    then show ?thesis using inv a by simp
  next
    case False
    then have "int (length q) \<le> ?w" by (cases "?w > int (length a)") (auto simp: q_def)
    moreover have "peerWindow (w_snd y) \<le> max 262144 (MaxStreamBuffer cf)" using inv by auto
    ultimately show ?thesis by linarith
  qed
  have f: "b = [] \<or> peerWindow (w_snd y) \<le> int (w_total y) + int (length q) - peerConsumed (w_snd y)"
    by (auto simp: q_def b_def min_def)
  have "left_over (after_frames q b) = [] \<or> left_over (after_frames q b) = b" by (auto simp: after_frames_def)
  then have "credit_inv cf y'" using inv a u f by (auto simp: credit_inv_def Let_def y')
  moreover have "ends_ok cf y'" using assms(4) lb by (simp add: ends_ok_def y')
  ultimately show ?thesis by simp
qed

lemma credit_reader:
  assumes "window_cf cf" "window_next cf (ReadSome n) y = Some y'" "w_total y' < 2 ^ 32" "ends_ok cf y" "credit_inv cf y"
  shows "ends_ok cf y' \<and> credit_inv cf y'"
proof -
  note inv = assms(5) [unfolded credit_inv_def Let_def]
  obtain r st' where rd: "tryReadv2 (MaxStreamBuffer cf) n (w_rcv y) = (r, st')" by (metis prod.exhaust)
  have n: "0 < n" and y': "y' = y\<lparr>w_rcv := st', w_upd := w_upd y @ (case rd_update r of Some g \<Rightarrow> [g] | None \<Rightarrow> [])\<rparr>"
    using assms(2) rd by (auto split: if_splits)
  have m: "0 < MaxStreamBuffer cf" "MaxStreamBuffer cf < 2 ^ 31" using assms(1) by (simp_all add: window_cf_def)
  have ri: "st_inv (w_rcv y)" using assms(4) by (simp add: ends_ok_def)
  have c: "0 \<le> peerConsumed (w_snd y)" "peerConsumed (w_snd y) \<le> numRead (w_rcv y) - incr (w_rcv y)"
    using last_le [of "peerConsumed (w_snd y)" "w_upd y"] inv by auto
  have tot: "int (w_total y) < 2 ^ 32" using y' assms(3) by simp
  have k: "0 \<le> incr (w_rcv y)" "incr (w_rcv y) \<le> numRead (w_rcv y)"
    "incr (w_rcv y) = 0 \<or> incr (w_rcv y) < MaxStreamBuffer cf div 2"
    "numRead (w_rcv y) + int (length (st_content (w_rcv y))) < 2 ^ 32" using inv c tot by simp_all
  note t = tryReadv2_counts [OF n ri rd m k]
  have t3: "numRead st' = numRead (w_rcv y) + int (length (rd_bytes r))" using t by blast
  note t4 = t [THEN conjunct2, THEN conjunct2, THEN conjunct2]
  have len: "length (st_content (w_rcv y)) = length (rd_bytes r) + length (st_content st')" using t by (metis length_append)
  have e: "ends_ok cf y'" using assms(4) t y' by (simp add: ends_ok_def)
  have I: "sorted (peerConsumed (w_snd y) # w_upd y)" "last (peerConsumed (w_snd y) # w_upd y) = numRead (w_rcv y) - incr (w_rcv y)"
    "0 < numRead (w_rcv y) \<longrightarrow> 0 < numRead (w_rcv y) - incr (w_rcv y)" using inv by blast+
  have le: "x \<le> numRead (w_rcv y) + int (length (rd_bytes r))" if "x \<in> set (peerConsumed (w_snd y) # w_upd y)" for x
    using sorted_le_last [OF I(1) that] I(2) k(1) by linarith
  have s: "numRead st' + int (length (st_content st')) = numRead (w_rcv y) + int (length (st_content (w_rcv y)))"
    using len t3 by simp
  have w: "w_rcv y' = st'" "w_snd y' = w_snd y" "w_fly y' = w_fly y" "w_total y' = w_total y" "w_phase y' = w_phase y"
    using y' by simp_all
  show ?thesis
  proof (cases "rd_update r")
    case None
    then have u: "incr st' = incr (w_rcv y) + int (length (rd_bytes r))" "numRead st' = numRead (w_rcv y) + int (length (rd_bytes r))"
      "rd_bytes r = [] \<or> incr (w_rcv y) + int (length (rd_bytes r)) < MaxStreamBuffer cf div 2 \<and> numRead (w_rcv y) \<noteq> 0"
      using t4 t3 by (simp_all split: if_splits) linarith?
    have "0 \<le> numRead (w_rcv y)" using k by simp
    then have nz: "incr st' = 0 \<or> incr st' < MaxStreamBuffer cf div 2" "0 < numRead st' \<longrightarrow> 0 < numRead st' - incr st'"
      "0 \<le> incr st'" "numRead st' - incr st' = numRead (w_rcv y) - incr (w_rcv y)"
      using u I(3) k(1-3) by auto
    have wu: "w_upd y' = w_upd y" using y' None by simp
    have "credit_inv cf y'" unfolding credit_inv_def Let_def w wu nz(4) s using inv nz(1,3) nz(2) [unfolded nz(4)] by blast
    then show ?thesis using e by simp
  next
    case (Some g)
    then have g: "g = numRead (w_rcv y) + int (length (rd_bytes r))" "incr st' = 0" "rd_bytes r \<noteq> []"
      "numRead st' = numRead (w_rcv y) + int (length (rd_bytes r))"
      using t4 t3 by (simp_all split: if_splits)
    have "sorted ((peerConsumed (w_snd y) # w_upd y) @ [g])"
      using I(1) le g(1) unfolding sorted_append by simp
    then have so: "sorted (peerConsumed (w_snd y) # w_upd y @ [g])" by simp
    have pos: "0 < numRead st'" using g k by (cases "rd_bytes r") auto
    have wu: "w_upd y' = w_upd y @ [g]" using y' Some by simp
    have la: "last (peerConsumed (w_snd y) # w_upd y @ [g]) = numRead st' - incr st'" using g by simp
    have "credit_inv cf y'" unfolding credit_inv_def Let_def w wu s using inv g(2) so la pos by (simp only: simp_thms) auto
    then show ?thesis using e by simp
  qed
qed

lemma credit_step:
  assumes "window_cf cf" "window_next cf l y = Some y'" "w_total y' < 2 ^ 32" "ends_ok cf y" "credit_inv cf y"
  shows "ends_ok cf y' \<and> credit_inv cf y'"
proof (cases l)
  case LoopHead
  then show ?thesis using credit_loop_head assms by simp
next
  case (ReadSome n)
  then show ?thesis using credit_reader assms by simp
next
  case Deliver
  then obtain b rest where b: "w_fly y = b # rest" "y' = y\<lparr>w_rcv := notifyReadEvent (pushBytes b (w_rcv y)), w_fly := rest\<rparr>"
    using assms(2) by (auto split: list.splits)
  then show ?thesis using assms(4,5) push_spec [of "w_rcv y" b]
    by (auto simp: ends_ok_def credit_inv_def Let_def notifyReadEvent_def pushBytes_def st_inv_def st_content_def)
next
  case GetUpdate
  then obtain g us where g: "w_upd y = g # us" "y' = y\<lparr>w_snd := update g (js_shr (MaxStreamBuffer cf) 0) (w_snd y), w_upd := us\<rparr>"
    using assms(2) by (auto split: list.splits)
  have m: "js_shr (MaxStreamBuffer cf) 0 = MaxStreamBuffer cf" using assms(1) by (simp add: js_shr_0 window_cf_def)
  show ?thesis using assms(4,5) g m by (auto simp: ends_ok_def credit_inv_def Let_def update_def stream_ok_def)
qed (use credit_writer [OF assms] in blast)+

lemma credit_reachable:
  assumes "window_cf cf" "0 < fs" "fs < 65536" "u32_ok i"
    and "window_reachable cf (window_start i fs fs') y" "w_total y < 2 ^ 32"
  shows "ends_ok cf y \<and> credit_inv cf y"
  using assms(5,6) unfolding window_reachable_def
proof (induction rule: rtranclp_induct)
  case base
  then show ?case using start_inv [OF assms(1-4)] by simp
next
  case (step y z)
  then obtain l where l: "window_next cf l y = Some z" by (auto simp: window_step_def)
  then have "ends_ok cf y \<and> credit_inv cf y" using total_mono [OF l] step by simp
  then show ?case using credit_step [OF assms(1) l step(4)] by simp
qed

section \<open>The steps of one turn\<close>

text \<open>
  The writer's steps are those of \<open>writeV2\<close>: from the head of the loop, undisturbed, they do what \<open>writeV2_turn\<close> does when
  every frame is answered without an error.
\<close>

lemma frames_steps:
  assumes "w_phase y = Sending q a" "q \<noteq> []" "0 < frameSize (w_snd y)"
    and "write_loop (\<lambda>v. js_shr v 0) wfi p q sent (w_snd y) s = Some ((n, None), st', s')"
  shows "\<exists>y'. window_reachable cf y y' \<and> w_snd y' = st' \<and> w_phase y' = after_frames [] a \<and>
    concat (w_fly y') = concat (w_fly y) @ q \<and> w_rcv y' = w_rcv y \<and> w_upd y' = w_upd y"
  using assms
proof (induction "length q" arbitrary: q sent y s p rule: less_induct)
  case less
  define r where "r = (if int (length q) > frameSize (w_snd y) then frameSize (w_snd y) else int (length q))"
  define st1 where "st1 = (w_snd y)\<lparr>numWritten := js_shr (numWritten (w_snd y) + js_shr r 0) 0\<rparr>"
  define y1 where "y1 = y\<lparr>w_phase := after_frames (drop (nat r) q) a, w_fly := w_fly y @ [take (nat r) q],
      w_total := w_total y + length (take (nat r) q), w_snd := st1\<rparr>"
  have "window_run cf [SendFrame, FrameDone] y = Some y1"
    using less.prems(1) by (simp add: Let_def r_def [symmetric] y1_def st1_def)
  then have y1: "window_reachable cf y y1" by (rule window_run_reachable)
  obtain m s1 where w: "write_loop (\<lambda>v. js_shr v 0) wfi (p\<lparr>data := take (nat r) q\<rparr>) (drop (nat r) q) m st1 s1 = Some ((n, None), st', s')"
    using less.prems(4) \<open>q \<noteq> []\<close>
    by (subst (asm) write_loop.simps) (auto simp: Let_def r_def [symmetric] st1_def bind_eq_Some_conv split: if_splits prod.splits)
  show ?case
  proof (cases "drop (nat r) q = []")
    case True
    then have "st' = st1" using w by (subst (asm) write_loop.simps) simp
    moreover have "take (nat r) q = q" using True by simp
    ultimately show ?thesis using y1 True by (intro exI [of _ y1]) (simp add: y1_def)
  next
    case False
    have "length (drop (nat r) q) < length q" using less.prems(2,3) by (cases q) (auto simp: r_def)
    moreover have "w_phase y1 = Sending (drop (nat r) q) a" "w_snd y1 = st1" "frameSize st1 = frameSize (w_snd y)"
      using False by (simp_all add: y1_def after_frames_def st1_def)
    ultimately obtain y' where y': "window_reachable cf y1 y'" "w_snd y' = st'" "w_phase y' = after_frames [] a"
      "concat (w_fly y') = concat (w_fly y1) @ drop (nat r) q" "w_rcv y' = w_rcv y1" "w_upd y' = w_upd y1"
      using less.hyps [of "drop (nat r) q" y1] False less.prems(3) w by metis
    have "window_reachable cf y y'" using y1 y'(1) unfolding window_reachable_def by simp
    then show ?thesis using y' by (intro exI [of _ y']) (simp add: y1_def)
  qed
qed

lemma turn_steps:
  assumes "w_phase y = Head a" "0 < frameSize (w_snd y)"
    and "writeV2_turn wfi p a sent (w_snd y) s = Some (res, st', s')" "res = Finished n None \<or> res = Blocked a' n"
  shows "\<exists>y' q. window_reachable cf y y' \<and> w_snd y' = st' \<and> concat (w_fly y') = concat (w_fly y) @ q \<and>
    w_rcv y' = w_rcv y \<and> w_upd y' = w_upd y \<and>
    (case res of Finished _ _ \<Rightarrow> w_phase y' = Idle \<and> a = q | Blocked a' _ \<Rightarrow> w_phase y' = Waiting a' \<and> a = q @ a')"
proof -
  obtain q b where w: "write_window a (w_snd y) = Inr (q, b)"
    using assms(3,4) by (cases "write_window a (w_snd y)") (auto simp: writeV2_turn_def)
  obtain m where l: "write_loop (\<lambda>v. js_shr v 0) wfi p q sent (w_snd y) s = Some ((m, None), st', s')"
    "res = (if b \<noteq> [] then Blocked b m else Finished m None)"
    using assms(3,4) w by (auto simp: writeV2_turn_def bind_eq_Some_conv split: if_splits)
  have a: "a = q @ b" using w by (auto simp: write_window_def Let_def split: if_splits)
  let ?y = "y\<lparr>w_phase := after_frames q b\<rparr>"
  have "window_run cf [LoopHead] y = Some ?y" using assms(1) w by simp
  then have h: "window_reachable cf y ?y" by (rule window_run_reachable)
  show ?thesis
  proof (cases "q = []")
    case True
    then have "st' = w_snd y" using l(1) by (subst (asm) write_loop.simps) simp
    then show ?thesis using h True l(2) a by (intro exI [of _ ?y] exI [of _ "[]"]) (simp add: after_frames_def)
  next
    case False
    then have "w_phase ?y = Sending q b" by (simp add: after_frames_def)
    from frames_steps [OF this False, of wfi p sent s m st' s' cf] assms(2) l(1) obtain y' where
      y': "window_reachable cf ?y y'" "w_snd y' = st'" "w_phase y' = after_frames [] b"
      "concat (w_fly y') = concat (w_fly y) @ q" "w_rcv y' = w_rcv y" "w_upd y' = w_upd y" by auto
    have "window_reachable cf y y'" using h y'(1) unfolding window_reachable_def by simp
    then show ?thesis using y' l(2) a by (intro exI [of _ y'] exI [of _ q]) (simp add: after_frames_def)
  qed
qed

section \<open>Properties\<close>

text \<open>
  C14: flow control never stalls a stream that has carried fewer than \<open>2 ^ 32\<close> bytes: in every state the two ends reach
  with one writer and one reader, when all data sent has been delivered and read and the updates sent for it have arrived,
  a \<open>writeV2\<close> that sleeps with data left has a token in \<open>chUpdate\<close>, so that it wakes up, and at the head of its loop it
  finds the window open and goes on to send some of the data (the reader reports at half the buffer, and on its first
  read).
\<close>

theorem window_opens:
  assumes "window_cf cf" "0 < fs" "fs < 65536" "u32_ok i"
    and "window_reachable cf (window_start i fs fs') y" "w_total y < 2 ^ 32"
    and "w_fly y = []" "w_upd y = []" "st_content (w_rcv y) = []"
  shows "(\<forall>a. w_phase y = Waiting a \<longrightarrow> (\<exists>y1 y2 q r. window_step cf y y1 \<and> w_phase y1 = Head a \<and>
      window_step cf y1 y2 \<and> w_phase y2 = Sending q r \<and> q \<noteq> [] \<and> q @ r = a)) \<and>
    (\<forall>a. w_phase y = Head a \<longrightarrow> (\<exists>y1 q r. window_step cf y y1 \<and> w_phase y1 = Sending q r \<and> q \<noteq> [] \<and> q @ r = a))"
proof -
  have inv: "credit_inv cf y" "ends_ok cf y" using credit_reachable [OF assms(1-6)] by simp_all
  have m: "0 < MaxStreamBuffer cf" "MaxStreamBuffer cf < 2 ^ 31" using assms(1) by (simp_all add: window_cf_def)
  note I = inv(1) [unfolded credit_inv_def Let_def]
  have lt: "int (w_total y) - peerConsumed (w_snd y) < peerWindow (w_snd y)" using I assms(7-9) m by auto
  have head: "\<exists>y1 q r. window_step cf z y1 \<and> w_phase y1 = Sending q r \<and> q \<noteq> [] \<and> q @ r = a"
    if z: "w_phase z = Head a" "write_window a (w_snd z) = write_window a (w_snd y)" and p: "w_phase y = Head a \<or> w_phase y = Waiting a"
    for a z
  proof -
    have "a \<noteq> []" using inv(2) p by (auto simp: ends_ok_def)
    then have "\<exists>q r. write_window a (w_snd y) = Inr (q, r) \<and> q @ r = a \<and> q \<noteq> []"
      using credit_head [OF assms(1) inv(2,1) assms(6) p] lt by (auto simp: Let_def)
    then obtain q r where q: "write_window a (w_snd y) = Inr (q, r)" "q @ r = a" "q \<noteq> []" by blast
    then have "window_next cf LoopHead z = Some (z\<lparr>w_phase := Sending q r\<rparr>)" using z by (simp add: after_frames_def)
    then have "window_step cf z (z\<lparr>w_phase := Sending q r\<rparr>)" unfolding window_step_def by blast
    then show ?thesis using q(2,3) by (intro exI [of _ "z\<lparr>w_phase := Sending q r\<rparr>"] exI [of _ q] exI [of _ r]) simp
  qed
  have "\<exists>y1 y2 q r. window_step cf y y1 \<and> w_phase y1 = Head a \<and> window_step cf y1 y2 \<and> w_phase y2 = Sending q r \<and> q \<noteq> [] \<and> q @ r = a"
    if a: "w_phase y = Waiting a" for a
  proof -
    let ?y = "y\<lparr>w_snd := (w_snd y)\<lparr>chUpdate := False\<rparr>, w_phase := Head a\<rparr>"
    have "chUpdate (w_snd y)" using I lt a inv(2) by (auto simp: ends_ok_def)
    then have "window_next cf WakeUp y = Some ?y" using a by simp
    then have "window_step cf y ?y" unfolding window_step_def by blast
    moreover have "\<exists>y2 q r. window_step cf ?y y2 \<and> w_phase y2 = Sending q r \<and> q \<noteq> [] \<and> q @ r = a"
      by (rule head) (simp_all add: a write_window_token)
    moreover have "w_phase ?y = Head a" by simp
    ultimately show ?thesis by blast
  qed
  then show ?thesis using head by blast
qed

text \<open>A run with frames of two bytes and a buffer of four in which the writer has to wait.\<close>

definition demo_cf :: config where
  "demo_cf = DefaultConfig\<lparr>Version := 2, MaxStreamBuffer := 4\<rparr>"

definition demo_labels :: "window_label list" where
  "demo_labels = [StartWrite [1, 2], LoopHead, SendFrame, FrameDone, Deliver, ReadSome 1, GetUpdate,
     StartWrite [3, 4, 5, 6, 7, 8], LoopHead, SendFrame, FrameDone, SendFrame, Deliver, FrameDone, WakeUp, LoopHead]"

lemma demo_run:
  "map_option (\<lambda>y. (w_phase y, chUpdate (w_snd y), w_fly y, w_upd y, buffers (w_rcv y), w_total y))
     (window_run demo_cf demo_labels (window_start 3 2 2)) = Some (Waiting [6, 7, 8], False, [[5]], [], [[2], [3, 4]], 5)"
  by code_simp

lemma demo_run_drained:
  "map_option (\<lambda>y. (w_phase y, w_fly y, w_upd y, st_content (w_rcv y), w_total y))
     (window_run demo_cf (demo_labels @ [Deliver, ReadSome 1, ReadSome 2, GetUpdate, ReadSome 9]) (window_start 3 2 2))
     = Some (Waiting [6, 7, 8], [], [], [], 5)"
  by code_simp

lemma demo_ok: "window_cf demo_cf" "u32_ok 3"
  by (simp_all add: window_cf_def demo_cf_def DefaultConfig_def u32_ok_def)

theorem window_opens_witness:
  "\<exists>y y1 y2 q r. window_run demo_cf (demo_labels @ [Deliver, ReadSome 1, ReadSome 2, GetUpdate, ReadSome 9]) (window_start 3 2 2) = Some y \<and>
     w_phase y = Waiting [6, 7, 8] \<and> window_step demo_cf y y1 \<and> window_step demo_cf y1 y2 \<and> w_phase y2 = Sending q r \<and>
     q \<noteq> [] \<and> q @ r = [6, 7, 8]"
proof -
  obtain y where y: "window_run demo_cf (demo_labels @ [Deliver, ReadSome 1, ReadSome 2, GetUpdate, ReadSome 9]) (window_start 3 2 2) = Some y"
    "w_phase y = Waiting [6, 7, 8]" "w_fly y = []" "w_upd y = []" "st_content (w_rcv y) = []" "w_total y = 5"
    using demo_run_drained by (auto simp only: map_option_eq_Some prod.inject)
  have t: "w_total y < 2 ^ 32" using y(6) by simp
  have "\<exists>y1 y2 q r. window_step demo_cf y y1 \<and> w_phase y1 = Head [6, 7, 8] \<and> window_step demo_cf y1 y2 \<and>
      w_phase y2 = Sending q r \<and> q \<noteq> [] \<and> q @ r = [6, 7, 8]"
    using window_opens [OF demo_ok(1) _ _ demo_ok(2) window_run_reachable [OF y(1)] t y(3-5)] y(2) by simp
  then show ?thesis using y(1,2) by blast
qed

text \<open>
  C28: the window bounds what the receiver holds: in every state that one writer (calls of \<open>writeV2\<close>, one after the other,
  frame by frame) and one reader (calls of \<open>Read\<close>) reach before \<open>2 ^ 32\<close> bytes were sent, the bytes in flight and the bytes
  buffered but not yet read together are at most the larger of the initial window (262144) and \<open>MaxStreamBuffer\<close>.
\<close>

theorem unread_bounded:
  assumes "window_cf cf" "0 < fs" "fs < 65536" "u32_ok i"
    and "window_reachable cf (window_start i fs fs') y" "w_total y < 2 ^ 32"
  shows "int (length (concat (w_fly y))) + int (length (st_content (w_rcv y))) \<le> max 262144 (MaxStreamBuffer cf)"
proof -
  have inv: "credit_inv cf y" using credit_reachable [OF assms] by simp
  have "peerConsumed (w_snd y) \<le> last (peerConsumed (w_snd y) # w_upd y)"
    using inv by (intro last_le) (simp add: credit_inv_def Let_def)
  also have "\<dots> \<le> numRead (w_rcv y)" using inv by (simp add: credit_inv_def Let_def)
  finally show ?thesis using inv by (simp add: credit_inv_def Let_def)
qed

theorem unread_bounded_witness:
  "\<exists>y. window_run demo_cf demo_labels (window_start 3 2 2) = Some y \<and> w_fly y = [[5]] \<and> buffers (w_rcv y) = [[2], [3, 4]] \<and>
     int (length (concat (w_fly y))) + int (length (st_content (w_rcv y))) \<le> 262144"
proof -
  obtain y where y: "window_run demo_cf demo_labels (window_start 3 2 2) = Some y" "w_fly y = [[5]]"
    "buffers (w_rcv y) = [[2], [3, 4]]" "w_total y = 5"
    using demo_run by (auto simp only: map_option_eq_Some prod.inject)
  have "w_total y < 2 ^ 32" "max 262144 (MaxStreamBuffer demo_cf) = 262144" using y(4) by (simp_all add: demo_cf_def)
  then show ?thesis using unread_bounded [OF demo_ok(1) _ _ demo_ok(2) window_run_reachable [OF y(1)]] y by simp
qed

text \<open>
  C40: past \<open>2 ^ 32\<close> bytes the promise fails: with a \<open>MaxStreamBuffer\<close> no larger than a frame, a read that
  takes the whole window and brings \<open>numRead\<close> to exactly 0 modulo \<open>2 ^ 32\<close> resets \<open>incr\<close> but sends no update (0
  stands for none), while the sender's window is used up: the stream stalls for good.
\<close>

theorem window_stalls_at_wrap:
  assumes "0 < m" "m < 2 ^ 31" "int (length buf) = m" "length buf \<le> n" "length a < 2 ^ 31"
    and "rcvr = (newStream i fs)\<lparr>buffers := [buf], heads := [buf], numRead := 2 ^ 32 - m\<rparr>"
    and "sndr = (newStream i fs)\<lparr>numWritten := 0, peerConsumed := 2 ^ 32 - m, peerWindow := m\<rparr>"
  shows "(\<exists>r rcvr'. tryReadv2 m n rcvr = (r, rcvr') \<and> rd_bytes r = buf \<and> rd_update r = None \<and>
      buffers rcvr' = [] \<and> numRead rcvr' = 0 \<and> incr rcvr' = 0) \<and> write_window a sndr = Inr ([], a)"
proof
  have b: "buf \<noteq> []" "0 < n" using assms(1,3,4) by auto
  have t: "tdiv m 2 = m div 2" using assms(1) by (simp add: tdiv_def)
  have c: "js_shr (numRead rcvr + js_shr m 0) 0 = 0" "js_shr (incr rcvr + js_shr m 0) 0 = m" "js_shr (m div 2) 0 = m div 2"
    using assms(1,2) by (simp_all add: assms(6) js_shr_0 newStream_def)
  have e: "take_some n rcvr = (buf, [buf], rcvr\<lparr>buffers := [], heads := []\<rparr>)"
    using assms(4) by (simp add: take_some_def assms(6) Let_def)
  have "m div 2 \<le> m" using assms(1) by simp
  then have "count_read m (length buf) (rcvr\<lparr>buffers := [], heads := []\<rparr>) = (0, rcvr\<lparr>buffers := [], heads := [], numRead := 0, incr := 0\<rparr>)"
    using c by (simp add: count_read_def Let_def assms(3) t)
  then show "\<exists>r rcvr'. tryReadv2 m n rcvr = (r, rcvr') \<and> rd_bytes r = buf \<and> rd_update r = None \<and>
      buffers rcvr' = [] \<and> numRead rcvr' = 0 \<and> incr rcvr' = 0"
    using e b by (simp add: tryReadv2_def)
  have i: "m = (numWritten sndr - peerConsumed sndr) mod 2 ^ 32" using assms(1,2) by (simp add: assms(7))
  have "u32_ok (numWritten sndr)" "u32_ok (peerConsumed sndr)" "0 \<le> peerWindow sndr" "peerWindow sndr < 2 ^ 31"
    using assms(1,2) by (simp_all add: assms(7) u32_ok_def)
  from write_window_cases [OF this assms(5) i assms(2)] show "write_window a sndr = Inr ([], a)"
    by (simp add: assms(7) Let_def)
qed

theorem window_stalls_at_wrap_witness:
  "write_window [1] ((newStream 3 9)\<lparr>numWritten := 0, peerConsumed := 2 ^ 32 - 2, peerWindow := 2\<rparr>) = Inr ([], [1])"
  using window_stalls_at_wrap [of 2 "[5, 6]" 2 "[1]" _ 3 9] by simp

end
