(* ===== verification/Sync_Pool.thy ===== *)
theory Sync_Pool
  imports Prelude
begin

text \<open>
  \<open>sync.Pool\<close> of the bundle: \<open>Get\<close> takes the element last put, or calls \<open>New\<close> on an empty pool;
  \<open>Put\<close> ignores nil.  An element is of any type with nil as \<open>None\<close>; \<open>New\<close> may change the program's
  state.
\<close>

definition pool_Get :: "('s \<Rightarrow> 'a option \<times> 's) option \<Rightarrow> 'a list \<Rightarrow> 's \<Rightarrow> 'a option \<times> 'a list \<times> 's" where
  "pool_Get new st s =
     (if st = [] then (case new of None \<Rightarrow> (None, st, s) | Some f \<Rightarrow> (let (x, s') = f s in (x, st, s')))
      else (Some (last st), butlast st, s))"

definition pool_Put :: "'a option \<Rightarrow> 'a list \<Rightarrow> 'a list" where
  "pool_Put x st = (case x of None \<Rightarrow> st | Some a \<Rightarrow> st @ [a])"

lemma pool_Get_Put: "pool_Get new (pool_Put (Some x) st) s = (Some x, st, s)"
  by (simp add: pool_Get_def pool_Put_def)

end
