(* ===== verification/Smux_Alloc.thy ===== *)
theory Smux_Alloc
  imports Encoding_Binary Runtime_Slice Sync_Pool
begin

text \<open>
  The buffer allocator of smux (types \<open>N\<close>, functions \<open>O\<close>, \<open>P\<close> of the bundle's smux line): 17 pools of
  byte slices, the \<open>k\<close>-th for slices of capacity \<open>2 ^ k\<close>.  \<open>msb\<close> finds the pool: it fills the bits
  below the highest set bit and looks the result up with a de Bruijn multiplication.
\<close>

unbundle bit_operations_syntax

definition debruijnPos :: "int list" where
  "debruijnPos = [0,9,1,10,13,21,2,29,11,14,16,18,22,25,3,30,8,12,20,28,15,17,24,7,19,27,23,6,26,5,4,31]"

definition smear :: "int \<Rightarrow> nat \<Rightarrow> int" where
  "smear b k = js_shr (js_or b (js_shr (js_shr b k) 0)) 0"

definition msb :: "int \<Rightarrow> int res" where
  "msb a = (let b = smear (smear (smear (smear (smear (js_shr a 0) 1) 2) 4) 8) 16
            in js_index debruijnPos (js_shr (js_shr (js_shr (js_imul b 130329821) 0) 27) 0))"

text \<open>\<open>(d = c, d < 32 ? (1 << d) : 0) >> 0\<close>\<close>

definition pow_int :: "int \<Rightarrow> int" where
  "pow_int d = js_sar (if d < 32 then js_shl 1 (nat d) else 0) 0"

record allocator =
  pools :: "slice list list"

definition NewAllocator :: allocator where
  "NewAllocator = \<lparr>pools = replicate 17 []\<rparr>"

text \<open>The \<open>New\<close> function of pool \<open>k\<close>; a panic of \<open>$makeSlice\<close> cannot happen for \<open>k \<le> 16\<close>.\<close>

definition new_buffer :: "int \<Rightarrow> int store \<Rightarrow> slice option \<times> int store" where
  "new_buffer k h = (case makeSlice 0 h (pow_int k) None of Inl p \<Rightarrow> (None, h) | Inr (s, h') \<Rightarrow> (Some s, h'))"

text \<open>\<open>buffers[i].Get()\<close> followed by the type assertion and \<open>$subslice(x, 0, a)\<close>.\<close>

definition take_buffer :: "allocator \<Rightarrow> int store \<Rightarrow> int \<Rightarrow> int \<Rightarrow> (slice option \<times> allocator \<times> int store) res" where
  "take_buffer al h i a =
     res_bind (js_index (pools al) i) (\<lambda>st.
       case pool_Get (Some (new_buffer i)) st h of
         (None, _, _) \<Rightarrow> Inl (Panic ''interface conversion'')
       | (Some s, st', h') \<Rightarrow>
           res_bind (subslice s 0 (Some a) None) (\<lambda>s'.
             Inr (Some s', al\<lparr>pools := (pools al)[nat i := st']\<rparr>, h')))"

definition Allocator_Get :: "allocator \<Rightarrow> int store \<Rightarrow> int \<Rightarrow> (slice option \<times> allocator \<times> int store) res" where
  "Allocator_Get al h a =
     (if a \<le> 0 \<or> a > 65536 then Inr (None, al, h)
      else res_bind (msb a) (\<lambda>c.
        if a = pow_int c then take_buffer al h c a
        else take_buffer al h (to_u8 (c + 1)) a))"

definition Allocator_Put :: "allocator \<Rightarrow> slice \<Rightarrow> (string option \<times> allocator) res" where
  "Allocator_Put al s =
     res_bind (msb (int (s_capacity s))) (\<lambda>c.
       if s_capacity s = 0 \<or> s_capacity s > 65536 \<or> int (s_capacity s) \<noteq> pow_int c
       then Inr (Some ''allocator Put() incorrect buffer size'', al)
       else res_bind (js_index (pools al) c) (\<lambda>st.
              Inr (None, al\<lparr>pools := (pools al)[nat c := pool_Put (Some s) st]\<rparr>)))"

section \<open>The highest set bit\<close>

text \<open>\<open>covers k a x\<close>: bit \<open>i\<close> of \<open>x\<close> says whether \<open>a\<close> has a bit among \<open>i, ..., i + k - 1\<close>.\<close>

definition covers :: "nat \<Rightarrow> int \<Rightarrow> int \<Rightarrow> bool" where
  "covers k a x \<longleftrightarrow> 0 \<le> x \<and> x < 2 ^ 32 \<and> (\<forall>i. bit x i \<longleftrightarrow> (\<exists>j<k. bit a (i + j)))"

lemma js_or_u32:
  assumes "0 \<le> x" "x < 2 ^ 32" "0 \<le> y" "y < 2 ^ 32"
  shows "js_shr (js_or x y) 0 = x OR y"
proof -
  have "js_shr (js_or x y) 0 = take_bit 32 x OR take_bit 32 y"
    by (simp only: js_shr_0 take_bit_eq_mod [symmetric] js_or_def take_bit_or mod_ToInt32)
  also have "\<dots> = x OR y" using assms by (simp add: take_bit_int_eq_self)
  finally show ?thesis .
qed

lemma smear_u32:
  assumes "0 \<le> x" "x < 2 ^ 32" "k < 32"
  shows "smear x k = x OR drop_bit k x" "0 \<le> smear x k" "smear x k < 2 ^ 32"
proof -
  have d: "0 \<le> drop_bit k x" "drop_bit k x \<le> x"
    using assms zdiv_mono2 [of x 1 "2 ^ k"] by (simp_all add: drop_bit_eq_div pos_imp_zdiv_nonneg_iff)
  have "js_shr x k = drop_bit k x" using assms by (simp add: js_shr_eq drop_bit_eq_div)
  moreover have "js_shr (drop_bit k x) 0 = drop_bit k x" using assms d by (simp add: js_shr_0)
  ultimately show e: "smear x k = x OR drop_bit k x"
    unfolding smear_def using assms d by (simp add: js_or_u32)
  show "0 \<le> smear x k" "smear x k < 2 ^ 32"
    unfolding e using assms d OR_upper [of x 32 "drop_bit k x"] by simp_all
qed

lemma split_ex: "(\<exists>j<k. P j) \<or> (\<exists>j. k \<le> j \<and> j < 2 * k \<and> P j) \<longleftrightarrow> (\<exists>j<2 * (k::nat). P j)"
proof
  assume "(\<exists>j<k. P j) \<or> (\<exists>j. k \<le> j \<and> j < 2 * k \<and> P j)"
  then show "\<exists>j<2 * k. P j"
  proof
    assume "\<exists>j<k. P j"
    then obtain j where "j < k" "P j" by blast
    then show ?thesis by (intro exI [of _ j]) simp
  qed blast
next
  assume "\<exists>j<2 * k. P j"
  then show "(\<exists>j<k. P j) \<or> (\<exists>j. k \<le> j \<and> j < 2 * k \<and> P j)" using not_le by blast
qed

lemma covers_smear:
  assumes "covers k a x" "k < 32"
  shows "covers (2 * k) a (smear x k)"
proof -
  have x: "0 \<le> x" "x < 2 ^ 32" "\<And>i. bit x i \<longleftrightarrow> (\<exists>j<k. bit a (i + j))" using assms(1) by (simp_all add: covers_def)
  have "bit (smear x k) i \<longleftrightarrow> (\<exists>j<2 * k. bit a (i + j))" for i
  proof -
    have "bit (smear x k) i \<longleftrightarrow> (\<exists>j<k. bit a (i + j)) \<or> (\<exists>j<k. bit a (k + i + j))"
      by (simp add: smear_u32(1) [OF x(1,2) assms(2)] bit_or_iff bit_drop_bit_eq x(3))
    also have "(\<exists>j<k. bit a (k + i + j)) \<longleftrightarrow> (\<exists>j. k \<le> j \<and> j < 2 * k \<and> bit a (i + j))"
    proof
      assume "\<exists>j<k. bit a (k + i + j)"
      then obtain j where "j < k" "bit a (k + i + j)" by blast
      then show "\<exists>j. k \<le> j \<and> j < 2 * k \<and> bit a (i + j)" by (intro exI [of _ "k + j"]) (simp add: add.assoc add.left_commute)
    next
      assume "\<exists>j. k \<le> j \<and> j < 2 * k \<and> bit a (i + j)"
      then obtain j where "k \<le> j" "j < 2 * k" "bit a (i + j)" by blast
      then show "\<exists>j<k. bit a (k + i + j)" by (intro exI [of _ "j - k"]) simp
    qed
    finally show ?thesis by (simp only: split_ex)
  qed
  then show ?thesis using smear_u32(2,3) [OF x(1,2) assms(2)] by (simp add: covers_def)
qed

lemma debruijn_table:
  "list_all (\<lambda>n. debruijnPos ! nat (((2 ^ Suc n - 1) * 130329821) mod 2 ^ 32 div 2 ^ 27) = int n) [0..<32]"
  by code_simp

lemma msb_spec:
  assumes "2 ^ n \<le> a" "a < 2 ^ Suc n" "n < 32"
  shows "msb a = Inr (int n)"
proof -
  have "(2::int) ^ Suc n \<le> 2 ^ 32" using assms(3) by (intro power_increasing) simp_all
  then have a: "0 \<le> a" "a < 2 ^ 32" using assms(1,2) by (simp_all add: order_trans [OF _ assms(1)])
  have top: "bit a i \<longrightarrow> i \<le> n" for i
  proof (rule impI, rule ccontr)
    assume b: "bit a i" "\<not> i \<le> n"
    have "take_bit (Suc n) a = a" using a assms(2) by (simp add: take_bit_int_eq_self)
    with b show False by (metis bit_take_bit_iff not_less_eq_eq le_less_trans nat_less_le linorder_not_le Suc_leI)
  qed
  have bitn: "bit a n"
  proof -
    have "a div 2 ^ n = 1"
    proof (rule antisym)
      have "a div 2 ^ n < 2" using assms(2) by (intro int_div_less) simp_all
      then show "a div 2 ^ n \<le> 1" by simp
      show "1 \<le> a div 2 ^ n" using zdiv_mono1 [OF assms(1), of "2 ^ n"] by simp
    qed
    then show ?thesis by (simp add: bit_iff_odd)
  qed
  have "covers 1 a (js_shr a 0)" using a by (simp add: covers_def js_shr_0)
  from covers_smear [OF covers_smear [OF covers_smear [OF covers_smear [OF covers_smear [OF this]]]]]
  have cov: "covers 32 a (smear (smear (smear (smear (smear (js_shr a 0) 1) 2) 4) 8) 16)" (is "covers 32 a ?b")
    by simp
  have "bit ?b i \<longleftrightarrow> i \<le> n" for i
  proof
    assume "bit ?b i"
    then obtain j where "bit a (i + j)" using cov by (auto simp: covers_def)
    then show "i \<le> n" using top [of "i + j"] by simp
  next
    assume "i \<le> n"
    then have "bit a (i + (n - i))" "n - i < 32" using bitn assms(3) by simp_all
    then show "bit ?b i" using cov unfolding covers_def by blast
  qed
  then have b: "?b = 2 ^ Suc n - 1"
    by (intro bit_eqI) (simp only: mask_eq_exp_minus_1 [symmetric] bit_mask_iff, simp add: less_Suc_eq_le)
  let ?x = "((2 ^ Suc n - 1) * 130329821) mod 2 ^ 32 :: int"
  have "js_shr (js_imul (2 ^ Suc n - 1) 130329821) 0 = ?x"
    using ToInt32_mod [of "(2 ^ Suc n - 1) * 130329821"] by (simp add: js_shr_0 js_imul_def)
  moreover have range: "0 \<le> ?x div 2 ^ 27" "?x div 2 ^ 27 < 32"
    by (simp_all add: pos_imp_zdiv_nonneg_iff int_div_less)
  ultimately have ix: "js_shr (js_shr (js_shr (js_imul (2 ^ Suc n - 1) 130329821) 0) 27) 0 = ?x div 2 ^ 27"
    by (simp add: js_shr_eq)
  have "debruijnPos ! nat (?x div 2 ^ 27) = int n"
    using debruijn_table assms(3) by (simp only: list_all_iff) simp
  moreover have "length debruijnPos = 32" by (simp add: debruijnPos_def)
  ultimately have "js_index debruijnPos (?x div 2 ^ 27) = Inr (int n)" using range by (simp add: js_index_ok)
  then show ?thesis by (simp only: msb_def Let_def b ix)
qed

lemma floor_log:
  assumes "0 < a" "a < 2 ^ m"
  shows "\<exists>n<m. 2 ^ n \<le> a \<and> a < (2::int) ^ Suc n"
  using assms
proof (induction m)
  case (Suc m)
  then show ?case by (cases "a < 2 ^ m") (auto simp: not_less intro: less_SucI)
qed simp

section \<open>The allocator\<close>

definition alloc_ok :: "int store \<Rightarrow> allocator \<Rightarrow> bool" where
  "alloc_ok h al \<longleftrightarrow> length (pools al) = 17 \<and>
     (\<forall>k<17. \<forall>s \<in> set (pools al ! k). wf_slice h s \<and> s_capacity s = 2 ^ k \<and> \<not> s_nil s)"

lemma alloc_ok_new: "alloc_ok h NewAllocator"
  by (simp add: alloc_ok_def NewAllocator_def)

lemma pow_int_eq:
  assumes "k < 31"
  shows "pow_int (int k) = 2 ^ k"
proof -
  have p: "(2::int) ^ k < 2 ^ 31" using assms by (intro power_strict_increasing) simp_all
  have t: "ToInt32 (2 ^ k) = 2 ^ k" by (rule ToInt32_id) (use p in \<open>simp_all add: order_trans [of _ 0]\<close>)
  have "js_shl 1 k = 2 ^ k"
    using assms t by (simp add: js_shl_def ToInt32_id push_bit_eq_mult)
  then show ?thesis using assms t by (simp add: pow_int_def js_sar_eq)
qed

lemma wf_slice_mono:
  "wf_slice h s \<Longrightarrow> fresh h \<le> fresh h' \<Longrightarrow> \<forall>p < fresh h. arrays h' p = arrays h p \<Longrightarrow> wf_slice h' s"
  by (auto simp: wf_slice_def)

lemma new_buffer_ok:
  assumes "k \<le> 16"
  shows "\<exists>s h'. new_buffer (int k) h = (Some s, h') \<and> wf_slice h' s \<and> s_capacity s = 2 ^ k \<and> \<not> s_nil s \<and>
    fresh h \<le> fresh h' \<and> (\<forall>p < fresh h. arrays h' p = arrays h p)"
proof -
  have p: "pow_int (int k) = 2 ^ k" using assms by (simp add: pow_int_eq)
  have "(2::int) ^ k \<le> 2 ^ 16" using assms by (intro power_increasing) simp_all
  then show ?thesis
    by (simp add: new_buffer_def p makeSlice_def alloc_def wf_slice_def nat_power_eq)
qed

lemma alloc_ok_pool:
  "alloc_ok h al \<Longrightarrow> k \<le> 16 \<Longrightarrow> s \<in> set (pools al ! k) \<Longrightarrow> wf_slice h s \<and> s_capacity s = 2 ^ k \<and> \<not> s_nil s"
proof -
  assume a: "alloc_ok h al" "k \<le> 16" "s \<in> set (pools al ! k)"
  from a(2) have "k < 17" by simp
  with a(1,3) show ?thesis unfolding alloc_ok_def by blast
qed

lemma take_buffer_ok:
  assumes "alloc_ok h al" "k \<le> 16" "0 < n" "n \<le> 2 ^ k"
  shows "\<exists>s al' h'. take_buffer al h (int k) n = Inr (Some s, al', h') \<and> s_length s = nat n \<and>
    s_capacity s = 2 ^ k \<and> wf_slice h' s \<and> \<not> s_nil s \<and> alloc_ok h' al' \<and> (\<forall>p < fresh h. arrays h' p = arrays h p)"
proof -
  let ?st = "pools al ! k"
  have ix: "js_index (pools al) (int k) = Inr ?st"
    using assms(1,2) by (simp add: js_index_ok alloc_ok_def)
  obtain s st' h' where get: "pool_Get (Some (new_buffer (int k))) ?st h = (Some s, st', h')"
    and s: "wf_slice h' s" "s_capacity s = 2 ^ k" "\<not> s_nil s"
    and h': "fresh h \<le> fresh h'" "\<forall>p < fresh h. arrays h' p = arrays h p" and st': "set st' \<subseteq> set ?st"
  proof (cases "?st = []")
    case True
    from new_buffer_ok [OF assms(2), of h] obtain s h' where "new_buffer (int k) h = (Some s, h')" "wf_slice h' s"
      "s_capacity s = 2 ^ k" "\<not> s_nil s" "fresh h \<le> fresh h'" "\<forall>p < fresh h. arrays h' p = arrays h p" by blast
    with True show ?thesis by (intro that [of s "?st" h']) (simp_all add: pool_Get_def)
  next
    case False
    then have "last ?st \<in> set ?st" "set (butlast ?st) \<subseteq> set ?st" by (auto dest: in_set_butlastD)
    with False assms(1,2) show ?thesis
      using alloc_ok_pool [OF assms(1,2)]
      by (intro that [of "last ?st" "butlast ?st" h]) (simp_all add: pool_Get_def)
  qed
  let ?s = "\<lparr>s_array = s_array s, s_offset = s_offset s, s_length = nat n, s_capacity = 2 ^ k, s_nil = False\<rparr>"
  have "nat n \<le> 2 ^ k" using assms(3,4) by (simp add: nat_le_iff)
  then have sub: "subslice s 0 (Some n) None = Inr ?s" and wf: "wf_slice h' ?s"
    using s assms(3,4) by (simp_all add: subslice_def wf_slice_def)
  have "alloc_ok h' (al\<lparr>pools := (pools al)[k := st']\<rparr>)"
    unfolding alloc_ok_def
  proof (intro conjI allI impI ballI)
    show "length (pools (al\<lparr>pools := (pools al)[k := st']\<rparr>)) = 17" using assms(1) by (simp add: alloc_ok_def)
  next
    fix i x assume "i < 17" "x \<in> set (pools (al\<lparr>pools := (pools al)[k := st']\<rparr>) ! i)"
    then have "x \<in> set (pools al ! i)" using st' assms(1) by (cases "i = k") (auto simp: alloc_ok_def)
    then show "wf_slice h' x" "s_capacity x = 2 ^ i" "\<not> s_nil x"
      using assms(1) \<open>i < 17\<close> h' by (auto simp: alloc_ok_def intro: wf_slice_mono)
  qed
  moreover have "take_buffer al h (int k) n = Inr (Some ?s, al\<lparr>pools := (pools al)[k := st']\<rparr>, h')"
    by (simp add: take_buffer_def ix get sub)
  ultimately show ?thesis using wf h' by auto
qed

text \<open>
  C29: the allocator hands out, for every size from 1 to 65536, a slice of exactly that length whose
  capacity is the least power of two that holds it, leaves every array already in use alone, and takes
  the slice back: \<open>Put\<close> accepts it and the next \<open>Get\<close> of that size returns it.  For other sizes \<open>Get\<close>
  returns nil.
\<close>

theorem Allocator_roundtrip:
  assumes "alloc_ok h al"
  shows "if n \<le> 0 \<or> n > 65536 then Allocator_Get al h n = Inr (None, al, h)
    else \<exists>s al' h' k. Allocator_Get al h n = Inr (Some s, al', h') \<and> alloc_ok h' al' \<and> wf_slice h' s \<and>
      int (s_length s) = n \<and> s_capacity s = 2 ^ k \<and> n \<le> 2 ^ k \<and> 2 ^ k < 2 * n \<and>
      (\<forall>p < fresh h. arrays h' p = arrays h p) \<and>
      (\<exists>al''. Allocator_Put al' s = Inr (None, al'') \<and> alloc_ok h' al'' \<and> last (pools al'' ! k) = s)"
proof (cases "n \<le> 0 \<or> n > 65536")
  case True
  then show ?thesis by (simp add: Allocator_Get_def)
next
  case False
  then obtain m where m: "m < 17" "2 ^ m \<le> n" "n < 2 ^ Suc m"
    using floor_log [of n 17] by auto
  have msb: "msb n = Inr (int m)" using m by (intro msb_spec) simp_all
  have pm: "pow_int (int m) = 2 ^ m" using m(1) by (simp add: pow_int_eq)
  define k where "k = (if n = 2 ^ m then m else Suc m)"
  have k: "k \<le> 16"
  proof (cases "m = 16")
    case True
    then have "n = 2 ^ m" using m(2) False by simp
    then show ?thesis using True by (simp add: k_def)
  qed (use m(1) in \<open>simp add: k_def\<close>)
  have n: "0 < n" "n \<le> 2 ^ k" "2 ^ k < 2 * n" using False m by (auto simp: k_def)
  have "Allocator_Get al h n = take_buffer al h (int k) n"
    using False m(1) by (simp add: Allocator_Get_def msb pm k_def to_u8_mod algebra_simps)
  then obtain s al' h' where g: "Allocator_Get al h n = Inr (Some s, al', h')" "s_length s = nat n" "s_capacity s = 2 ^ k"
    "wf_slice h' s" "\<not> s_nil s" "alloc_ok h' al'" "\<forall>p < fresh h. arrays h' p = arrays h p"
    using take_buffer_ok [OF assms k n(1,2)] by auto
  have "msb (int (s_capacity s)) = Inr (int k)" using k g(3) by (intro msb_spec) simp_all
  moreover have "(2::nat) ^ k \<le> 2 ^ 16" using k by (intro power_increasing) simp_all
  moreover have "js_index (pools al') (int k) = Inr (pools al' ! k)"
    using g(6) k by (simp add: js_index_ok alloc_ok_def)
  ultimately have put: "Allocator_Put al' s = Inr (None, al'\<lparr>pools := (pools al')[k := pools al' ! k @ [s]]\<rparr>)"
    using g(3) k by (simp add: Allocator_Put_def pow_int_eq pool_Put_def)
  moreover have "alloc_ok h' (al'\<lparr>pools := (pools al')[k := pools al' ! k @ [s]]\<rparr>)"
    unfolding alloc_ok_def
  proof (intro conjI allI impI ballI)
    show "length (pools (al'\<lparr>pools := (pools al')[k := pools al' ! k @ [s]]\<rparr>)) = 17" using g(6) by (simp add: alloc_ok_def)
  next
    fix i x assume "i < 17" "x \<in> set (pools (al'\<lparr>pools := (pools al')[k := pools al' ! k @ [s]]\<rparr>) ! i)"
    then have "x \<in> set (pools al' ! i) \<or> x = s \<and> i = k"
      using g(6) by (cases "i = k") (auto simp: alloc_ok_def)
    then show "wf_slice h' x" "s_capacity x = 2 ^ i" "\<not> s_nil x"
      using alloc_ok_pool [OF g(6), of i x] \<open>i < 17\<close> g(3-5) by auto
  qed
  moreover have "last ((pools al')[k := pools al' ! k @ [s]] ! k) = s" using g(6) k by (simp add: alloc_ok_def)
  moreover have "int (s_length s) = n" using g(2) n(1) by simp
  ultimately show ?thesis using False g n by auto
qed

theorem Allocator_roundtrip_witness:
  "\<exists>s al' h' k. Allocator_Get NewAllocator \<lparr>arrays = (\<lambda>_. []), fresh = 0\<rparr> 1000 = Inr (Some s, al', h') \<and>
     s_capacity s = 2 ^ k \<and> (1000::int) \<le> 2 ^ k \<and> (2::int) ^ k < 2000"
  using Allocator_roundtrip [OF alloc_ok_new [of "\<lparr>arrays = (\<lambda>_. []), fresh = 0\<rparr>"], of 1000] by auto

end
