(* ===== verification/Runtime_Sched.thy ===== *)
theory Runtime_Sched
  imports Prelude
begin

text \<open>
  The goroutine scheduler of the runtime (first line of the bundle's runtime): \<open>$go\<close>, \<open>$schedule\<close>,
  \<open>$runScheduled\<close>, \<open>$setTimeout\<close>, \<open>$block\<close> and the deadlock check, with the other places of the bundle that change its
  variables: \<open>stopTimer\<close> of package \<open>time\<close> clears a timeout, \<open>$externalizeFunction\<close> turns the check off, the main package
  sets \<open>$mainFinished\<close>.  \<open>runtime.Goexit\<close> is left out: only \<open>syscall.exit\<close> calls it.  A goroutine is a number,
  zero the object \<open>$noGoroutine\<close>; its function object's fields \<open>asleep\<close> and \<open>exit\<close> are maps from goroutines.  A goroutine runs in slices:
  \<open>$runScheduled\<close> takes it from \<open>$scheduled\<close>, it runs until its function returns, blocks or throws,
  and the \<open>finally\<close> block does the accounting.  What a slice does to the rest of the program is a
  parameter, the goroutine's body.
\<close>

type_synonym gid = nat

section \<open>State\<close>

record sched =
  cur :: "gid option"            \<comment> \<open>\<open>$curGoroutine\<close>; \<open>None\<close> is \<open>$noGoroutine\<close>\<close>
  total :: int                   \<comment> \<open>\<open>$totalGoroutines\<close>\<close>
  awake :: int                   \<comment> \<open>\<open>$awakeGoroutines\<close>\<close>
  check_deadlock :: bool         \<comment> \<open>\<open>$checkForDeadlock\<close>\<close>
  main_finished :: bool          \<comment> \<open>\<open>$mainFinished\<close>\<close>
  scheduled :: "gid list"        \<comment> \<open>\<open>$scheduled\<close>\<close>
  g_asleep :: "gid \<Rightarrow> bool"
  g_exit :: "gid \<Rightarrow> bool"
  created :: "gid list"          \<comment> \<open>goroutines made by \<open>$go\<close> so far\<close>
  timers :: nat                  \<comment> \<open>pending \<open>$setTimeout\<close> callbacks\<close>
  run_later :: bool              \<comment> \<open>\<open>setTimeout($runScheduled, 0)\<close> was called\<close>
  deadlock :: bool               \<comment> \<open>the deadlock error was reported\<close>
  stopped :: nat                 \<comment> \<open>pending timers that were cleared; no variable of the code\<close>
  crashed :: "gid list"          \<comment> \<open>goroutines whose function threw awake; no variable of the code\<close>

definition sched_init :: sched where
  "sched_init = \<lparr>cur = None, total = 0, awake = 0, check_deadlock = True, main_finished = False,
     scheduled = [], g_asleep = (\<lambda>_. False), g_exit = (\<lambda>_. False), created = [], timers = 0,
     run_later = False, deadlock = False, stopped = 0, crashed = []\<rparr>"

section \<open>Operations\<close>

text \<open>
  \<open>$schedule\<close>: wake a sleeping goroutine, queue it, and, outside every goroutine (a JavaScript
  callback), run the queue; \<open>run\<close> stands for that call of \<open>$runScheduled\<close>.
\<close>

definition wake :: "gid \<Rightarrow> 'a sched_scheme \<Rightarrow> 'a sched_scheme" where
  "wake g s =
     (let s = (if g_asleep s g then s\<lparr>g_asleep := (g_asleep s)(g := False), awake := awake s + 1\<rparr> else s)
      in s\<lparr>scheduled := scheduled s @ [g]\<rparr>)"

definition schedule :: "('a sched_scheme \<Rightarrow> 'a sched_scheme) \<Rightarrow> gid \<Rightarrow> 'a sched_scheme \<Rightarrow> 'a sched_scheme" where
  "schedule run g s = (let s = wake g s in if cur s = None then run s else s)"

definition go_new :: "gid \<Rightarrow> 'a sched_scheme \<Rightarrow> 'a sched_scheme" where
  "go_new g s = s\<lparr>total := total s + 1, awake := awake s + 1, g_asleep := (g_asleep s)(g := False),
     g_exit := (g_exit s)(g := False), created := g # created s\<rparr>"

definition go :: "('a sched_scheme \<Rightarrow> 'a sched_scheme) \<Rightarrow> gid \<Rightarrow> 'a sched_scheme \<Rightarrow> 'a sched_scheme" where
  "go run g s = schedule run g (go_new g s)"

definition block :: "'a sched_scheme \<Rightarrow> unit res \<times> 'a sched_scheme" where
  "block s = (case cur s of
       None \<Rightarrow> (Inl (RuntimeError ''cannot block in JavaScript callback, fix by wrapping code in goroutine''), s)
     | Some g \<Rightarrow> (Inr (), s\<lparr>g_asleep := (g_asleep s)(g := True)\<rparr>))"

definition set_timeout :: "'a sched_scheme \<Rightarrow> 'a sched_scheme" where
  "set_timeout s = s\<lparr>awake := awake s + 1, timers := Suc (timers s)\<rparr>"

text \<open>The first statement of the timer's callback; the callback proper follows.\<close>

definition timer_fires :: "'a sched_scheme \<Rightarrow> 'a sched_scheme" where
  "timer_fires s = s\<lparr>awake := awake s - 1, timers := timers s - 1\<rparr>"

text \<open>
  \<open>clearTimeout\<close> in \<open>stopTimer\<close>: a pending callback goes and what \<open>$setTimeout\<close> added to \<open>$awakeGoroutines\<close> stays; a
  timeout that has run, or was never set, is left alone.
\<close>

definition clear_timeout :: "bool \<Rightarrow> 'a sched_scheme \<Rightarrow> 'a sched_scheme" where
  "clear_timeout pending s = (if pending then s\<lparr>timers := timers s - 1, stopped := Suc (stopped s)\<rparr> else s)"

text \<open>The first statement for a function given to JavaScript, and the last of the main package's \<open>$init\<close>.\<close>

definition externalize_check :: "'a sched_scheme \<Rightarrow> 'a sched_scheme" where
  "externalize_check s = s\<lparr>check_deadlock := False\<rparr>"

definition main_done :: "'a sched_scheme \<Rightarrow> 'a sched_scheme" where
  "main_done s = s\<lparr>main_finished := True\<rparr>"

text \<open>
  One slice: the goroutine's function returned (\<open>r.exit\<close> is set), returned a blocked call, or threw;
  an exception of a goroutine that has exited (\<open>runtime.Goexit\<close> sets the flag) is swallowed.  The \<open>finally\<close> block of \<open>$go\<close> is \<open>end_slice\<close>.
\<close>

datatype slice_end = Returns | Suspends | Throws

definition end_slice :: "gid \<Rightarrow> slice_end \<Rightarrow> 'a sched_scheme \<Rightarrow> 'a sched_scheme" where
  "end_slice g k s =
     (let s = (if k = Returns then s\<lparr>g_exit := (g_exit s)(g := True)\<rparr> else s);
          s = s\<lparr>cur := None\<rparr>;
          s = (if g_exit s g then s\<lparr>total := total s - 1, g_asleep := (g_asleep s)(g := True)\<rparr> else s)
      in if g_asleep s g
         then let s = s\<lparr>awake := awake s - 1\<rparr>
              in if \<not> main_finished s \<and> awake s = 0 \<and> check_deadlock s then s\<lparr>deadlock := True\<rparr> else s
         else if k = Throws then s\<lparr>crashed := g # crashed s\<rparr> else s)"

definition run_slice :: "(gid \<Rightarrow> 'a sched_scheme \<Rightarrow> slice_end \<times> 'a sched_scheme) \<Rightarrow> gid \<Rightarrow> 'a sched_scheme
    \<Rightarrow> slice_end \<times> 'a sched_scheme" where
  "run_slice body g s = (let (k, s') = body g (s\<lparr>cur := Some g\<rparr>)
      in (if k = Throws \<and> g_exit s' g then Returns else k, end_slice g k s'))"

text \<open>
  \<open>$runScheduled\<close>; no result when goroutines wake each other for ever.  A slice that throws ends the loop; the
  \<open>finally\<close> block then asks for another run when goroutines are still queued.
\<close>

partial_function (option) runScheduled :: "(gid \<Rightarrow> 'a sched_scheme \<Rightarrow> slice_end \<times> 'a sched_scheme) \<Rightarrow> 'a sched_scheme
    \<Rightarrow> 'a sched_scheme option" where
  "runScheduled body s =
     (case scheduled s of
        [] \<Rightarrow> Some s
      | g # gs \<Rightarrow>
          (case run_slice body g (s\<lparr>scheduled := gs\<rparr>) of
             (k, s') \<Rightarrow>
               (if k = Throws
                then Some (if scheduled s' \<noteq> [] then s'\<lparr>run_later := True\<rparr> else s')
                else runScheduled body s')))"

text \<open>No queued goroutine is forgotten: a run that ends leaves the queue empty or has asked for another.\<close>

lemma runScheduled_drains:
  assumes "runScheduled body s = Some t"
  shows "scheduled t = [] \<or> run_later t"
proof (rule runScheduled.raw_induct [of "\<lambda>_ _ t. scheduled t = [] \<or> run_later t", OF _ assms], goal_cases)
  case (1 f body s t)
  then show ?case by (auto split: list.splits prod.splits if_splits)
qed

section \<open>Accounting\<close>

text \<open>
  The goroutines that still count: created, not asleep, or asleep only since the current slice
  blocked.  \<open>$awakeGoroutines\<close> is their number plus the timers set and not run, pending or cleared.
\<close>

definition counted :: "'a sched_scheme \<Rightarrow> gid set" where
  "counted s = {g \<in> set (created s). \<not> g_asleep s g \<or> cur s = Some g}"

definition live :: "'a sched_scheme \<Rightarrow> gid set" where
  "live s = {g \<in> set (created s). \<not> g_exit s g}"

definition sched_inv :: "'a sched_scheme \<Rightarrow> bool" where
  "sched_inv s \<longleftrightarrow> distinct (created s) \<and> awake s = int (card (counted s)) + int (timers s) + int (stopped s) \<and>
     total s = int (card (live s)) \<and> distinct (crashed s) \<and>
     (\<forall>g \<in> set (crashed s). g \<in> set (created s) \<and> \<not> g_asleep s g \<and> \<not> g_exit s g \<and> g \<notin> set (scheduled s) \<and> cur s \<noteq> Some g) \<and>
     set (scheduled s) \<subseteq> set (created s) \<and> distinct (scheduled s) \<and>
     (\<forall>g \<in> set (scheduled s). \<not> g_asleep s g \<and> \<not> g_exit s g) \<and>
     (\<forall>g. cur s = Some g \<longrightarrow> g \<in> set (created s) \<and> \<not> g_exit s g \<and> g \<notin> set (scheduled s)) \<and>
     (\<forall>g \<in> set (created s). g_exit s g \<longrightarrow> g_asleep s g) \<and>
     (\<forall>g \<in> set (created s). \<not> g_asleep s g \<longrightarrow> g \<in> set (scheduled s) \<or> g \<in> set (crashed s) \<or> cur s = Some g)"

section \<open>The scheduler as a transition system\<close>

text \<open>
  The operations a running program performs, with the conditions under which the compiled code
  performs them: a fresh goroutine for \<open>$go\<close>, a sleeping one for \<open>$schedule\<close> (its callers hold a
  blocked goroutine), a goroutine that ends its slice has returned, has blocked or has thrown.  In a JavaScript
  callback the slices that \<open>$schedule\<close> runs are the \<open>Begin\<close> and \<open>End\<close> steps that follow.
\<close>

datatype sched_label = Go gid | Wake gid | Block | Timeout | Fire | Clear bool | Externalize | MainDone
  | Begin gid | End slice_end

inductive sched_step :: "sched_label \<Rightarrow> sched \<Rightarrow> sched \<Rightarrow> bool" where
  Go: "g \<notin> set (created s) \<Longrightarrow> sched_step (Go g) s (wake g (go_new g s))"
| Wake: "g \<in> set (created s) \<Longrightarrow> g_asleep s g \<Longrightarrow> \<not> g_exit s g \<Longrightarrow> cur s \<noteq> Some g \<Longrightarrow>
    sched_step (Wake g) s (wake g s)"
| Block: "cur s = Some g \<Longrightarrow> sched_step Block s (snd (block s))"
| Timeout: "sched_step Timeout s (set_timeout s)"
| Fire: "cur s = None \<Longrightarrow> 0 < timers s \<Longrightarrow> sched_step Fire s (timer_fires s)"
| Clear: "(p \<Longrightarrow> 0 < timers s) \<Longrightarrow> sched_step (Clear p) s (clear_timeout p s)"
| Externalize: "sched_step Externalize s (externalize_check s)"
| MainDone: "cur s = Some g \<Longrightarrow> sched_step MainDone s (main_done s)"
| Begin: "cur s = None \<Longrightarrow> scheduled s = g # gs \<Longrightarrow>
    sched_step (Begin g) s (s\<lparr>scheduled := gs, cur := Some g\<rparr>)"
| End: "cur s = Some g \<Longrightarrow> (k = Suspends \<Longrightarrow> g_asleep s g) \<Longrightarrow>
    sched_step (End k) s (end_slice g k s)"

inductive_cases sched_stepE: "sched_step l s s'"

text \<open>The steps are deterministic given their label; the same relation as a guard and a function.\<close>

fun enabled :: "sched_label \<Rightarrow> sched \<Rightarrow> bool" where
  "enabled (Go g) s \<longleftrightarrow> g \<notin> set (created s)"
| "enabled (Wake g) s \<longleftrightarrow> g \<in> set (created s) \<and> g_asleep s g \<and> \<not> g_exit s g \<and> cur s \<noteq> Some g"
| "enabled Block s \<longleftrightarrow> cur s \<noteq> None"
| "enabled Timeout s \<longleftrightarrow> True"
| "enabled Fire s \<longleftrightarrow> cur s = None \<and> 0 < timers s"
| "enabled (Clear p) s \<longleftrightarrow> p \<longrightarrow> 0 < timers s"
| "enabled Externalize s \<longleftrightarrow> True"
| "enabled MainDone s \<longleftrightarrow> cur s \<noteq> None"
| "enabled (Begin g) s \<longleftrightarrow> cur s = None \<and> (\<exists>gs. scheduled s = g # gs)"
| "enabled (End k) s \<longleftrightarrow> (\<exists>g. cur s = Some g \<and> (k = Suspends \<longrightarrow> g_asleep s g))"

fun apply_label :: "sched_label \<Rightarrow> sched \<Rightarrow> sched" where
  "apply_label (Go g) s = wake g (go_new g s)"
| "apply_label (Wake g) s = wake g s"
| "apply_label Block s = snd (block s)"
| "apply_label Timeout s = set_timeout s"
| "apply_label Fire s = timer_fires s"
| "apply_label (Clear p) s = clear_timeout p s"
| "apply_label Externalize s = externalize_check s"
| "apply_label MainDone s = main_done s"
| "apply_label (Begin g) s = s\<lparr>scheduled := tl (scheduled s), cur := Some g\<rparr>"
| "apply_label (End k) s = end_slice (the (cur s)) k s"

lemma sched_step_iff: "sched_step l s s' \<longleftrightarrow> enabled l s \<and> s' = apply_label l s"
  by (cases l) (auto elim!: sched_stepE intro: sched_step.intros)

inductive sched_trace :: "sched_label list \<Rightarrow> sched \<Rightarrow> sched \<Rightarrow> bool" where
  Nil: "sched_trace [] s s"
| Cons: "sched_step l s s' \<Longrightarrow> sched_trace ls s' s'' \<Longrightarrow> sched_trace (l # ls) s s''"

inductive_simps sched_trace_simps [simp]: "sched_trace [] s s'" "sched_trace (l # ls) s s'"

lemma sched_inv_init: "sched_inv sched_init"
  by (simp add: sched_inv_def sched_init_def counted_def live_def)

lemma finite_counted [simp]: "finite (counted s)" and finite_live [simp]: "finite (live s)"
  by (simp_all add: counted_def live_def)

lemma sched_inv_go:
  assumes "sched_inv s" "g \<notin> set (created s)"
  shows "sched_inv (wake g (go_new g s))"
proof -
  have "counted (wake g (go_new g s)) = insert g (counted s)" "g \<notin> counted s"
    and "live (wake g (go_new g s)) = insert g (live s)" "g \<notin> live s"
    using assms(2) by (auto simp: counted_def live_def wake_def go_new_def)
  then show ?thesis using assms by (auto simp: sched_inv_def wake_def go_new_def)
qed

lemma sched_inv_wake:
  assumes "sched_inv s" "g \<in> set (created s)" "g_asleep s g" "\<not> g_exit s g" "cur s \<noteq> Some g"
  shows "sched_inv (wake g s)"
proof -
  have "counted (wake g s) = insert g (counted s)" "g \<notin> counted s" "live (wake g s) = live s"
    using assms(2-5) by (auto simp: counted_def live_def wake_def)
  then show ?thesis using assms by (auto simp: sched_inv_def wake_def)
qed

lemma sched_inv_block:
  assumes "sched_inv s" "cur s = Some g"
  shows "sched_inv (snd (block s))"
proof -
  have "counted (snd (block s)) = counted s" "live (snd (block s)) = live s"
    using assms(2) by (auto simp: counted_def live_def block_def)
  then show ?thesis using assms by (auto simp: sched_inv_def block_def)
qed

lemma sched_inv_timers:
  assumes "sched_inv s"
  shows "sched_inv (set_timeout s)" "0 < timers s \<Longrightarrow> sched_inv (timer_fires s)"
    "(p \<Longrightarrow> 0 < timers s) \<Longrightarrow> sched_inv (clear_timeout p s)"
  using assms by (auto simp: sched_inv_def set_timeout_def timer_fires_def clear_timeout_def counted_def live_def)

lemma sched_inv_flags:
  assumes "sched_inv s"
  shows "sched_inv (externalize_check s)" "sched_inv (main_done s)"
  using assms by (auto simp: sched_inv_def externalize_check_def main_done_def counted_def live_def)

lemma sched_inv_begin:
  assumes "sched_inv s" "cur s = None" "scheduled s = g # gs"
  shows "sched_inv (s\<lparr>scheduled := gs, cur := Some g\<rparr>)"
proof -
  have "counted (s\<lparr>scheduled := gs, cur := Some g\<rparr>) = counted s" "live (s\<lparr>scheduled := gs, cur := Some g\<rparr>) = live s"
    using assms by (auto simp: counted_def live_def sched_inv_def)
  then show ?thesis using assms by (auto simp: sched_inv_def)
qed

lemma end_slice_fields:
  assumes "k = Returns \<or> g_asleep s g" "\<not> g_exit s g"
  shows "cur (end_slice g k s) = None \<and> awake (end_slice g k s) = awake s - 1 \<and>
    g_asleep (end_slice g k s) = (g_asleep s)(g := True) \<and>
    g_exit (end_slice g k s) = (if k = Returns then (g_exit s)(g := True) else g_exit s) \<and>
    total (end_slice g k s) = (if k = Returns then total s - 1 else total s) \<and>
    created (end_slice g k s) = created s \<and> scheduled (end_slice g k s) = scheduled s \<and>
    timers (end_slice g k s) = timers s \<and> stopped (end_slice g k s) = stopped s \<and> crashed (end_slice g k s) = crashed s \<and>
    (deadlock (end_slice g k s) \<longleftrightarrow> deadlock s \<or> \<not> main_finished s \<and> awake s = 1 \<and> check_deadlock s)"
proof (cases "k = Returns")
  case True
  then show ?thesis by (auto simp: end_slice_def Let_def)
next
  case False
  with assms have a: "g_asleep s g" by simp
  then have "(g_asleep s)(g := True) = g_asleep s" by (simp add: fun_eq_iff)
  with a assms(2) False show ?thesis by (auto simp: end_slice_def Let_def)
qed

text \<open>A slice that throws awake changes nothing but the current goroutine: it is never queued or counted out again.\<close>

lemma end_slice_crash:
  assumes "\<not> g_asleep s g" "\<not> g_exit s g"
  shows "end_slice g Throws s = s\<lparr>cur := None, crashed := g # crashed s\<rparr>"
  using assms by (simp add: end_slice_def Let_def)

lemma sched_inv_end:
  assumes "sched_inv s" "cur s = Some g" "k = Suspends \<longrightarrow> g_asleep s g"
  shows "sched_inv (end_slice g k s)"
proof -
  have g: "g \<in> set (created s)" "\<not> g_exit s g" "g \<notin> set (scheduled s)" "g \<notin> set (crashed s)"
    using assms(1,2) by (auto simp: sched_inv_def)
  show ?thesis
  proof (cases "k = Returns \<or> g_asleep s g")
    case True
    note f = end_slice_fields [OF True g(2)]
    have c: "counted (end_slice g k s) = counted s - {g}" "g \<in> counted s"
      using assms(2) g by (auto simp: counted_def f)
    have l: "live (end_slice g k s) = (if k = Returns then live s - {g} else live s)" "g \<in> live s"
      using g by (auto simp: live_def f)
    have cc: "int (card (counted (end_slice g k s))) = int (card (counted s)) - 1"
      unfolding c(1) using card_Suc_Diff1 [OF finite_counted c(2)] by linarith
    have ll: "int (card (live s - {g})) = int (card (live s)) - 1"
      using card_Suc_Diff1 [OF finite_live l(2)] by linarith
    show ?thesis using assms(1,2) g cc l(1) ll by (auto simp: sched_inv_def f split: if_splits)
  next
    case False
    then have k: "k = Throws" using assms(3) by (cases k) simp_all
    have e: "end_slice g k s = s\<lparr>cur := None, crashed := g # crashed s\<rparr>" using False g(2) unfolding k by (intro end_slice_crash) simp_all
    have "counted (end_slice g k s) = counted s" "live (end_slice g k s) = live s"
      using False assms(2) by (auto simp: e counted_def live_def)
    then show ?thesis using assms(1,2) g False unfolding sched_inv_def by (auto simp: e)
  qed
qed

lemma sched_inv_step: "sched_step l s s' \<Longrightarrow> sched_inv s \<Longrightarrow> sched_inv s'"
  by (erule sched_stepE)
    (auto intro: sched_inv_go sched_inv_wake sched_inv_block sched_inv_timers sched_inv_flags sched_inv_begin sched_inv_end)

lemma sched_inv_trace: "sched_trace ls s s' \<Longrightarrow> sched_inv s \<Longrightarrow> sched_inv s'"
  by (induction rule: sched_trace.induct) (auto dest: sched_inv_step)

section \<open>Properties\<close>

lemmas sched_eval = sched_init_def wake_def go_new_def block_def end_slice_def set_timeout_def timer_fires_def
  clear_timeout_def externalize_check_def main_done_def Let_def

lemma counted_size:
  assumes "sched_inv s"
  shows "card (counted s) = length (scheduled s) + length (crashed s) + (if cur s = None then 0 else 1)"
proof -
  have d: "distinct (scheduled s @ crashed s)" using assms by (auto simp: sched_inv_def)
  show ?thesis
  proof (cases "cur s")
    case None
    then have "counted s = set (scheduled s @ crashed s)" using assms by (auto simp: sched_inv_def counted_def)
    then show ?thesis using None distinct_card [OF d] by simp
  next
    case (Some g)
    then have "counted s = set (g # scheduled s @ crashed s)" "distinct (g # scheduled s @ crashed s)"
      using assms d by (auto simp: sched_inv_def counted_def)
    then have "card (counted s) = length (g # scheduled s @ crashed s)" by (simp only: distinct_card)
    then show ?thesis using Some by simp
  qed
qed

text \<open>
  C26: in every state a program reaches from the start of the runtime, \<open>$totalGoroutines\<close> is the number
  of goroutines created and not exited; outside a slice \<open>$awakeGoroutines\<close> is the length of the
  \<open>$scheduled\<close> queue, plus the timers set and not run (those that \<open>stopTimer\<close> cleared while they were pending stay
  counted for ever), plus the goroutines that threw while awake; no goroutine is queued twice, and none in the queue is
  asleep, exited or one that threw.
\<close>

theorem goroutine_accounting:
  assumes "sched_trace ls sched_init s"
  shows "total s = int (card {g \<in> set (created s). \<not> g_exit s g}) \<and>
    (cur s = None \<longrightarrow> awake s = int (length (scheduled s) + timers s + stopped s + length (crashed s))) \<and>
    distinct (scheduled s) \<and> (\<forall>g \<in> set (scheduled s). \<not> g_asleep s g \<and> \<not> g_exit s g \<and> g \<notin> set (crashed s))"
proof -
  have inv: "sched_inv s" using sched_inv_trace [OF assms sched_inv_init] .
  then have t: "total s = int (card (live s))" and q: "distinct (scheduled s)" "\<forall>g \<in> set (scheduled s). \<not> g_asleep s g \<and> \<not> g_exit s g"
    "\<forall>g \<in> set (crashed s). g \<notin> set (scheduled s)" by (simp_all add: sched_inv_def)
  have "awake s = int (length (scheduled s) + timers s + stopped s + length (crashed s))" if "cur s = None"
    using inv counted_size [OF inv] that by (simp add: sched_inv_def)
  then show ?thesis using t q by (auto simp: live_def)
qed

theorem goroutine_accounting_witness:
  "\<exists>s. sched_trace [Go 1, Go 2, Begin 1, Timeout, Timeout, Block, End Suspends, Clear True, Begin 2, Go 3, End Throws] sched_init s \<and>
     awake s = 4 \<and> total s = 3"
proof -
  let ?ls = "[Go 1, Go 2, Begin 1, Timeout, Timeout, Block, End Suspends, Clear True, Begin 2, Go 3, End Throws]"
  let ?s = "fold apply_label ?ls sched_init"
  have t: "sched_trace ?ls sched_init ?s"
    by (simp add: sched_step_iff) (simp add: sched_eval)
  have f: "created ?s = [3, 2, 1]" "g_exit ?s = (\<lambda>_. False)" "cur ?s = None" "scheduled ?s = [3]" "timers ?s = 1"
    "stopped ?s = 1" "crashed ?s = [2]"
    by (simp_all add: sched_eval fun_eq_iff)
  then have "{g \<in> set (created ?s). \<not> g_exit ?s g} = {1, 2, 3}" by auto
  then have "card {g \<in> set (created ?s). \<not> g_exit ?s g} = 3" by simp
  with f goroutine_accounting [OF t] have "awake ?s = 4 \<and> total ?s = 3" by simp
  with t show ?thesis by blast
qed

text \<open>
  C25: however a slice ends, with its function returned, blocked or thrown, the deadlock error is reported exactly when the
  goroutine no longer counts (it did not throw while awake), no goroutine is queued, no timer is pending, none was ever
  cleared while it was pending and no goroutine ever threw while awake, while the main function has not finished and no
  function was given to JavaScript.
\<close>

theorem deadlock_exact:
  assumes "sched_trace ls sched_init s" "cur s = Some g" "k = Suspends \<longrightarrow> g_asleep s g"
  shows "deadlock (end_slice g k s) \<longleftrightarrow>
    deadlock s \<or> \<not> main_finished s \<and> check_deadlock s \<and> scheduled s = [] \<and> timers s = 0 \<and> stopped s = 0 \<and>
      crashed s = [] \<and> (k = Throws \<longrightarrow> g_asleep s g)"
proof -
  have inv: "sched_inv s" using sched_inv_trace [OF assms(1) sched_inv_init] .
  have g: "\<not> g_exit s g" using inv assms(2) by (simp add: sched_inv_def)
  show ?thesis
  proof (cases "k = Returns \<or> g_asleep s g")
    case True
    have "awake s = int (card (counted s)) + int (timers s) + int (stopped s)" using inv by (simp add: sched_inv_def)
    moreover have "card (counted s) = Suc (length (scheduled s) + length (crashed s))" using counted_size [OF inv] assms(2) by simp
    ultimately have "awake s = 1 \<longleftrightarrow> length (scheduled s) = 0 \<and> length (crashed s) = 0 \<and> timers s = 0 \<and> stopped s = 0"
      by linarith
    then have "awake s = 1 \<longleftrightarrow> scheduled s = [] \<and> crashed s = [] \<and> timers s = 0 \<and> stopped s = 0" by simp
    moreover have "deadlock (end_slice g k s) \<longleftrightarrow> deadlock s \<or> \<not> main_finished s \<and> awake s = 1 \<and> check_deadlock s"
      using end_slice_fields [OF True g] by blast
    ultimately show ?thesis using True by auto
  next
    case False
    then have k: "k = Throws" using assms(3) by (cases k) simp_all
    show ?thesis using False g unfolding k by (simp add: end_slice_crash)
  qed
qed

theorem deadlock_exact_witness:
  "\<exists>s s'. sched_trace [Go 1, Begin 1, Block] sched_init s \<and> \<not> deadlock s \<and> deadlock (end_slice 1 Suspends s) \<and>
     sched_trace [Go 1, Begin 1, Timeout, Clear True, Block] sched_init s' \<and> \<not> deadlock (end_slice 1 Suspends s')"
proof -
  let ?ls = "[Go 1, Begin 1, Block]" and ?ls' = "[Go 1, Begin 1, Timeout, Clear True, Block]"
  let ?s = "fold apply_label ?ls sched_init" and ?s' = "fold apply_label ?ls' sched_init"
  have t: "sched_trace ?ls sched_init ?s" "sched_trace ?ls' sched_init ?s'"
    by (simp_all add: sched_step_iff) (simp_all add: sched_eval)
  have f: "cur ?s = Some 1" "g_asleep ?s 1" "\<not> deadlock ?s" "scheduled ?s = []" "timers ?s = 0"
      "check_deadlock ?s" "\<not> main_finished ?s" "stopped ?s = 0" "crashed ?s = []"
      "cur ?s' = Some 1" "g_asleep ?s' 1" "\<not> deadlock ?s'" "stopped ?s' = 1"
    by (simp_all add: sched_eval)
  have "deadlock (end_slice 1 Suspends ?s)" using deadlock_exact [OF t(1) f(1), of Suspends] f by blast
  moreover have "\<not> deadlock (end_slice 1 Suspends ?s')"
    unfolding deadlock_exact [OF t(2) f(10), of Suspends, OF impI, OF f(11)] using f(12,13) by simp
  ultimately show ?thesis using t f(3) by blast
qed

text \<open>No goroutine of the queue is overtaken: each \<open>Begin\<close> moves the others one place forward.\<close>

lemma queue_step:
  assumes "sched_step l s s'" "i < length (scheduled s)" "scheduled s ! i = g"
  shows "if \<exists>h. l = Begin h then (i = 0 \<and> l = Begin g) \<or> (0 < i \<and> i - 1 < length (scheduled s') \<and> scheduled s' ! (i - 1) = g)
         else i < length (scheduled s') \<and> scheduled s' ! i = g"
proof -
  have e: "enabled l s" "s' = apply_label l s" using assms(1) by (simp_all add: sched_step_iff)
  show ?thesis
  proof (cases l)
    case (Begin h)
    with e obtain gs where gs: "scheduled s = h # gs" by auto
    with e Begin assms(2,3) show ?thesis by (cases i) auto
  next
    case (End k)
    have "scheduled (end_slice h k s) = scheduled s" for h by (simp add: end_slice_def Let_def)
    with e End assms(2,3) show ?thesis by simp
  next
    case Block
    have "scheduled (snd (block s)) = scheduled s" by (simp add: block_def split: option.splits)
    with e Block assms(2,3) show ?thesis by simp
  qed (use e assms(2,3) in \<open>simp_all add: wake_def go_new_def set_timeout_def timer_fires_def clear_timeout_def
      externalize_check_def main_done_def Let_def nth_append\<close>)
qed

definition is_begin :: "sched_label \<Rightarrow> bool" where
  "is_begin l \<longleftrightarrow> (case l of Begin h \<Rightarrow> True | _ \<Rightarrow> False)"

lemma is_begin_iff: "is_begin l \<longleftrightarrow> (\<exists>h. l = Begin h)"
  by (simp add: is_begin_def split: sched_label.splits)

text \<open>
  C24: the scheduler starves no goroutine: one that is at position \<open>i\<close> of the \<open>$scheduled\<close> queue runs
  at the latest when the \<open>(i + 1)\<close>-st slice begins, whatever is scheduled in between and whatever slices throw.
\<close>

theorem no_starvation:
  assumes "sched_trace ls s s'" "i < length (scheduled s)" "scheduled s ! i = g"
    and "i < length (filter is_begin ls)"
  shows "Begin g \<in> set ls"
  using assms
proof (induction arbitrary: i rule: sched_trace.induct)
  case (Cons l s s' ls s'')
  note q = queue_step [OF Cons.hyps(1) Cons.prems(1,2)]
  show ?case
  proof (cases "is_begin l")
    case True
    with q consider "i = 0" "l = Begin g" | "0 < i" "i - 1 < length (scheduled s')" "scheduled s' ! (i - 1) = g"
      by (auto simp: is_begin_iff)
    then show ?thesis
    proof cases
      case 2
      then show ?thesis using Cons.IH [of "i - 1"] Cons.prems(3) True by auto
    qed simp
  next
    case False
    then show ?thesis using q Cons.IH [of i] Cons.prems(3) by (auto simp: is_begin_iff)
  qed
qed simp

theorem no_starvation_witness:
  "\<exists>s. sched_trace [Go 1, Go 2] sched_init s \<and>
     {ls. \<exists>s'. sched_trace ls s s' \<and> 2 \<le> length (filter is_begin ls)} \<subseteq> {ls. Begin 2 \<in> set ls} \<and>
     [Begin 1, Go 3, Block, End Suspends, Begin 2] \<in> {ls. \<exists>s'. sched_trace ls s s' \<and> 2 \<le> length (filter is_begin ls)}"
proof -
  let ?ls = "[Begin 1, Go 3, Block, End Suspends, Begin 2]"
  let ?s = "fold apply_label [Go 1, Go 2] sched_init"
  have t: "sched_trace [Go 1, Go 2] sched_init ?s" "sched_trace ?ls ?s (fold apply_label ?ls ?s)"
    by (simp_all add: sched_step_iff) (simp_all add: sched_eval)
  have q: "scheduled ?s = [1, 2]" by (simp add: sched_eval)
  have "Begin 2 \<in> set ls" if "sched_trace ls ?s s'" "2 \<le> length (filter is_begin ls)" for ls s'
    using no_starvation [OF that(1), of 1 2] that(2) q by simp
  then have "{ls. \<exists>s'. sched_trace ls ?s s' \<and> 2 \<le> length (filter is_begin ls)} \<subseteq> {ls. Begin 2 \<in> set ls}" by blast
  moreover have "2 \<le> length (filter is_begin ?ls)" by (simp add: is_begin_def)
  ultimately show ?thesis using t by blast
qed

end
