(* ===== verification/Runtime_Chan.thy ===== *)
theory Runtime_Chan
  imports Runtime_Sched Fifo
begin

text \<open>
  Channels of the runtime: \<open>$Chan\<close>, \<open>$chanNil\<close>, \<open>$send\<close>, \<open>$recv\<close>, \<open>$close\<close>, \<open>$select\<close>.  The wait queues of
  the code hold closures; here each closure is the datum it was made from: the goroutine to wake
  and the value to hand over, or the \<open>$select\<close> call and the index of its case.  A world is the
  scheduler's state with the channels, the result objects that blocked calls return and the
  registrations of the pending \<open>$select\<close> calls.
\<close>

section \<open>Data\<close>

datatype 'v sender = Sender (sender_gid: gid) (sender_val: 'v) | SelSender (sender_sel: nat) nat (sender_val: 'v)
datatype receiver = Receiver gid | SelReceiver nat nat

record 'v chan =
  capacity :: nat
  zero :: 'v                      \<comment> \<open>\<open>$elem.zero()\<close>\<close>
  buffer :: "'v list"
  sendQueue :: "'v sender list"
  recvQueue :: "receiver list"
  closed :: bool
  nil_chan :: bool                \<comment> \<open>\<open>$chanNil\<close>, whose queues ignore \<open>push\<close>\<close>

record 'v world = sched +
  chans :: "nat \<Rightarrow> 'v chan"
  recv_val :: "gid \<Rightarrow> ('v \<times> bool) option"     \<comment> \<open>\<open>i.value\<close> of a blocked \<open>$recv\<close>\<close>
  send_closed :: "gid \<Rightarrow> bool option"          \<comment> \<open>\<open>t\<close> of a blocked \<open>$send\<close>\<close>
  sel_gid :: "nat \<Rightarrow> gid"
  sel_reg :: "nat \<Rightarrow> (nat \<times> bool \<times> nat) list" \<comment> \<open>\<open>o\<close>: channel, is it the receive queue, case\<close>
  selection :: "nat \<Rightarrow> (nat \<times> ('v \<times> bool) option) option"
  next_sel :: nat

datatype 'v outcome = Done | Got 'v bool | Blocked

definition new_chan :: "'v \<Rightarrow> int \<Rightarrow> 'v chan res" where
  "new_chan z n = (if n < 0 \<or> n > 2147483647 then Inl (RuntimeError ''makechan: size out of range'')
     else Inr \<lparr>capacity = nat n, zero = z, buffer = [], sendQueue = [], recvQueue = [], closed = False,
            nil_chan = False\<rparr>)"

definition upd_chan :: "nat \<Rightarrow> ('v chan \<Rightarrow> 'v chan) \<Rightarrow> 'v world \<Rightarrow> 'v world" where
  "upd_chan c f w = w\<lparr>chans := (chans w)(c := f (chans w c))\<rparr>"

definition push_sender :: "'v sender \<Rightarrow> 'v chan \<Rightarrow> 'v chan" where
  "push_sender s ch = (if nil_chan ch then ch else ch\<lparr>sendQueue := sendQueue ch @ [s]\<rparr>)"

definition push_receiver :: "receiver \<Rightarrow> 'v chan \<Rightarrow> 'v chan" where
  "push_receiver r ch = (if nil_chan ch then ch else ch\<lparr>recvQueue := recvQueue ch @ [r]\<rparr>)"

text \<open>The current goroutine object; zero stands for \<open>$noGoroutine\<close>.\<close>

definition self :: "'v world \<Rightarrow> gid" where
  "self w = (case cur w of None \<Rightarrow> 0 | Some g \<Rightarrow> g)"

section \<open>Waking the waiters\<close>

fun remove_first :: "('a \<Rightarrow> bool) \<Rightarrow> 'a list \<Rightarrow> 'a list" where
  "remove_first P [] = []"
| "remove_first P (x # xs) = (if P x then xs else x # remove_first P xs)"

text \<open>The function \<open>u\<close> of \<open>$select\<close>: take the call's closures out of the queues they are still in.\<close>

definition unregister_one :: "nat \<Rightarrow> nat \<times> bool \<times> nat \<Rightarrow> 'v world \<Rightarrow> 'v world" where
  "unregister_one s e w = (case e of (c, is_recv, i) \<Rightarrow>
     if is_recv then upd_chan c (\<lambda>ch. ch\<lparr>recvQueue := remove_first (\<lambda>r. r = SelReceiver s i) (recvQueue ch)\<rparr>) w
     else upd_chan c (\<lambda>ch. ch\<lparr>sendQueue := remove_first (\<lambda>x. \<exists>v. x = SelSender s i v) (sendQueue ch)\<rparr>) w)"

definition unregister :: "nat \<Rightarrow> 'v world \<Rightarrow> 'v world" where
  "unregister s w = fold (unregister_one s) (sel_reg w s) w"

text \<open>Calling a closure of the receive queue with \<open>[v, ok]\<close>.\<close>

definition wake_receiver :: "('v world \<Rightarrow> 'v world) \<Rightarrow> receiver \<Rightarrow> 'v \<times> bool \<Rightarrow> 'v world \<Rightarrow> 'v world" where
  "wake_receiver run r e w = (case r of
       Receiver g \<Rightarrow> schedule run g (w\<lparr>recv_val := (recv_val w)(g := Some e)\<rparr>)
     | SelReceiver s i \<Rightarrow>
         let w = unregister s (w\<lparr>selection := (selection w)(s := Some (i, Some e))\<rparr>)
         in schedule run (sel_gid w s) w)"

text \<open>
  Calling a closure of the send queue of channel \<open>c\<close> with the flag "the channel is being closed".
  The closure of a \<open>$select\<close> ignores the flag and looks at the channel itself.
\<close>

definition fire_sender :: "('v world \<Rightarrow> 'v world) \<Rightarrow> nat \<Rightarrow> 'v sender \<Rightarrow> bool \<Rightarrow> 'v world \<Rightarrow> 'v res \<times> 'v world" where
  "fire_sender run c sd closing w = (case sd of
       Sender g v \<Rightarrow> (Inr v, schedule run g (w\<lparr>send_closed := (send_closed w)(g := Some closing)\<rparr>))
     | SelSender s i v \<Rightarrow>
         if closed (chans w c) then (Inl (RuntimeError ''send on closed channel''), w)
         else let w = unregister s (w\<lparr>selection := (selection w)(s := Some (i, None))\<rparr>)
              in (Inr v, schedule run (sel_gid w s) w))"

section \<open>Send, receive, close\<close>

definition block_with :: "'v outcome \<Rightarrow> 'v world \<Rightarrow> 'v outcome res \<times> 'v world" where
  "block_with r w = (case block w of (Inl p, w') \<Rightarrow> (Inl p, w') | (Inr _, w') \<Rightarrow> (Inr r, w'))"

definition send :: "('v world \<Rightarrow> 'v world) \<Rightarrow> nat \<Rightarrow> 'v \<Rightarrow> 'v world \<Rightarrow> 'v outcome res \<times> 'v world" where
  "send run c v w =
     (if closed (chans w c) then (Inl (RuntimeError ''send on closed channel''), w)
      else case recvQueue (chans w c) of
             r # rs \<Rightarrow> (Inr Done, wake_receiver run r (v, True) (upd_chan c (\<lambda>ch. ch\<lparr>recvQueue := rs\<rparr>) w))
           | [] \<Rightarrow>
               if length (buffer (chans w c)) < capacity (chans w c)
               then (Inr Done, upd_chan c (\<lambda>ch. ch\<lparr>buffer := buffer ch @ [v]\<rparr>) w)
               else block_with Blocked (upd_chan c (push_sender (Sender (self w) v))
                      (w\<lparr>send_closed := (send_closed w)(self w := None)\<rparr>)))"

text \<open>The first statement of \<open>$recv\<close>: a waiting sender's value goes to the end of the buffer.\<close>

definition take_sender :: "('v world \<Rightarrow> 'v world) \<Rightarrow> nat \<Rightarrow> 'v world \<Rightarrow> unit res \<times> 'v world" where
  "take_sender run c w = (case sendQueue (chans w c) of
       [] \<Rightarrow> (Inr (), w)
     | s # ss \<Rightarrow>
         (case fire_sender run c s False (upd_chan c (\<lambda>ch. ch\<lparr>sendQueue := ss\<rparr>) w) of
            (Inl p, w') \<Rightarrow> (Inl p, w')
          | (Inr v, w') \<Rightarrow> (Inr (), upd_chan c (\<lambda>ch. ch\<lparr>buffer := buffer ch @ [v]\<rparr>) w')))"

definition recv :: "('v world \<Rightarrow> 'v world) \<Rightarrow> nat \<Rightarrow> 'v world \<Rightarrow> 'v outcome res \<times> 'v world" where
  "recv run c w = (case take_sender run c w of
       (Inl p, w) \<Rightarrow> (Inl p, w)
     | (Inr _, w) \<Rightarrow>
         (case buffer (chans w c) of
            v # vs \<Rightarrow> (Inr (Got v True), upd_chan c (\<lambda>ch. ch\<lparr>buffer := vs\<rparr>) w)
          | [] \<Rightarrow>
              if closed (chans w c) then (Inr (Got (zero (chans w c)) False), w)
              else block_with Blocked (upd_chan c (push_receiver (Receiver (self w)))
                     (w\<lparr>recv_val := (recv_val w)(self w := None)\<rparr>))))"

text \<open>What the blocked calls return when their goroutine runs again (the \<open>$blk\<close> methods).\<close>

definition resume_send :: "gid \<Rightarrow> 'v world \<Rightarrow> unit res" where
  "resume_send g w = (if send_closed w g = Some True then Inl (RuntimeError ''send on closed channel'') else Inr ())"

definition resume_recv :: "gid \<Rightarrow> 'v world \<Rightarrow> ('v \<times> bool) option" where
  "resume_recv g w = recv_val w g"

definition resume_select :: "nat \<Rightarrow> 'v world \<Rightarrow> (nat \<times> ('v \<times> bool) option) option" where
  "resume_select s w = selection w s"

text \<open>The two loops of \<open>$close\<close>; they end when the queue is empty (\<open>close_returns\<close>).\<close>

partial_function (option) close_senders ::
  "('v world \<Rightarrow> 'v world) \<Rightarrow> nat \<Rightarrow> 'v world \<Rightarrow> (unit res \<times> 'v world) option" where
  "close_senders run c w = (case sendQueue (chans w c) of
       [] \<Rightarrow> Some (Inr (), w)
     | s # ss \<Rightarrow>
         (case fire_sender run c s True (upd_chan c (\<lambda>ch. ch\<lparr>sendQueue := ss\<rparr>) w) of
            (Inl p, w') \<Rightarrow> Some (Inl p, w')
          | (Inr _, w') \<Rightarrow> close_senders run c w'))"

partial_function (option) close_receivers ::
  "('v world \<Rightarrow> 'v world) \<Rightarrow> nat \<Rightarrow> 'v world \<Rightarrow> (unit res \<times> 'v world) option" where
  "close_receivers run c w = (case recvQueue (chans w c) of
       [] \<Rightarrow> Some (Inr (), w)
     | r # rs \<Rightarrow> close_receivers run c
         (wake_receiver run r (zero (chans w c), False) (upd_chan c (\<lambda>ch. ch\<lparr>recvQueue := rs\<rparr>) w)))"

definition close_chan :: "('v world \<Rightarrow> 'v world) \<Rightarrow> nat \<Rightarrow> 'v world \<Rightarrow> (unit res \<times> 'v world) option" where
  "close_chan run c w =
     (if closed (chans w c) then Some (Inl (RuntimeError ''close of closed channel''), w)
      else case close_senders run c (upd_chan c (\<lambda>ch. ch\<lparr>closed := True\<rparr>) w) of
             None \<Rightarrow> None
           | Some (Inl p, w') \<Rightarrow> Some (Inl p, w')
           | Some (Inr _, w') \<Rightarrow> close_receivers run c w')"

section \<open>Select\<close>

datatype 'v comm = Default | RecvCase nat | SendCase nat 'v
datatype 'v sel_outcome = Selected nat "'v outcome" | SelBlocked nat

text \<open>The first loop: the ready cases and the index of the default case.\<close>

fun scan_cases :: "'v world \<Rightarrow> nat \<Rightarrow> 'v comm list \<Rightarrow> nat list \<Rightarrow> nat option \<Rightarrow> (nat list \<times> nat option) res" where
  "scan_cases w t [] n r = Inr (n, r)"
| "scan_cases w t (Default # cs) n r = scan_cases w (Suc t) cs n (Some t)"
| "scan_cases w t (RecvCase c # cs) n r =
     (let ch = chans w c in scan_cases w (Suc t) cs
        (if sendQueue ch \<noteq> [] \<or> buffer ch \<noteq> [] \<or> closed ch then n @ [t] else n) r)"
| "scan_cases w t (SendCase c v # cs) n r =
     (let ch = chans w c in
      if closed ch then Inl (RuntimeError ''send on closed channel'')
      else scan_cases w (Suc t) cs
        (if recvQueue ch \<noteq> [] \<or> length (buffer ch) < capacity ch then n @ [t] else n) r)"

fun register_cases :: "nat \<Rightarrow> nat \<Rightarrow> 'v comm list \<Rightarrow> 'v world \<Rightarrow> 'v world" where
  "register_cases s t [] w = w"
| "register_cases s t (Default # cs) w = register_cases s (Suc t) cs w"
| "register_cases s t (RecvCase c # cs) w = register_cases s (Suc t) cs
     (upd_chan c (push_receiver (SelReceiver s t)) (w\<lparr>sel_reg := (sel_reg w)(s := sel_reg w s @ [(c, True, t)])\<rparr>))"
| "register_cases s t (SendCase c v # cs) w = register_cases s (Suc t) cs
     (upd_chan c (push_sender (SelSender s t v)) (w\<lparr>sel_reg := (sel_reg w)(s := sel_reg w s @ [(c, False, t)])\<rparr>))"

text \<open>\<open>pick\<close> stands for \<open>n[Math.floor(Math.random() * n.length)]\<close>.\<close>

definition select :: "('v world \<Rightarrow> 'v world) \<Rightarrow> (nat list \<Rightarrow> nat) \<Rightarrow> 'v comm list \<Rightarrow> 'v world
    \<Rightarrow> 'v sel_outcome res \<times> 'v world" where
  "select run pick cs w =
     (case scan_cases w 0 cs [] None of
        Inl p \<Rightarrow> (Inl p, w)
      | Inr (n, r) \<Rightarrow>
          (case (if n \<noteq> [] then Some (pick n) else r) of
             Some r \<Rightarrow>
               (case cs ! r of
                  Default \<Rightarrow> (Inr (Selected r Done), w)
                | RecvCase c \<Rightarrow> (case recv run c w of (Inl p, w') \<Rightarrow> (Inl p, w') | (Inr x, w') \<Rightarrow> (Inr (Selected r x), w'))
                | SendCase c v \<Rightarrow> (case send run c v w of (Inl p, w') \<Rightarrow> (Inl p, w') | (Inr x, w') \<Rightarrow> (Inr (Selected r Done), w')))
           | None \<Rightarrow>
               (let s = next_sel w;
                    w = w\<lparr>next_sel := Suc s, sel_gid := (sel_gid w)(s := self w), sel_reg := (sel_reg w)(s := []),
                          selection := (selection w)(s := None)\<rparr>
                in case block (register_cases s 0 cs w) of
                     (Inl p, w') \<Rightarrow> (Inl p, w')
                   | (Inr _, w') \<Rightarrow> (Inr (SelBlocked s), w'))))"

section \<open>What waking leaves unchanged\<close>

text \<open>
  \<open>shrunk ch' ch\<close>: \<open>ch'\<close> is \<open>ch\<close> with some waiters removed.  That is all a wake-up does to the
  channels, since a \<open>$select\<close> takes its other cases out of the queues.
\<close>

definition shrunk :: "'v chan \<Rightarrow> 'v chan \<Rightarrow> bool" where
  "shrunk ch' ch \<longleftrightarrow> capacity ch' = capacity ch \<and> zero ch' = zero ch \<and> buffer ch' = buffer ch \<and>
     closed ch' = closed ch \<and> nil_chan ch' = nil_chan ch \<and>
     set (sendQueue ch') \<subseteq> set (sendQueue ch) \<and> length (sendQueue ch') \<le> length (sendQueue ch) \<and>
     set (recvQueue ch') \<subseteq> set (recvQueue ch) \<and> length (recvQueue ch') \<le> length (recvQueue ch)"

definition shrunk_world :: "'v world \<Rightarrow> 'v world \<Rightarrow> bool" where
  "shrunk_world w' w \<longleftrightarrow> cur w' = cur w \<and> (\<forall>c. shrunk (chans w' c) (chans w c))"

lemma shrunk_refl [simp]: "shrunk ch ch"
  by (simp add: shrunk_def)

lemma shrunk_trans: "shrunk a b \<Longrightarrow> shrunk b c \<Longrightarrow> shrunk a c"
  by (auto simp: shrunk_def)

lemma shrunk_world_refl [simp]: "shrunk_world w w"
  by (simp add: shrunk_world_def)

lemma shrunk_world_trans: "shrunk_world a b \<Longrightarrow> shrunk_world b c \<Longrightarrow> shrunk_world a c"
  by (auto simp: shrunk_world_def intro: shrunk_trans)

lemma set_remove_first: "set (remove_first P xs) \<subseteq> set xs"
  and length_remove_first: "length (remove_first P xs) \<le> length xs"
  by (induction xs) auto

lemma shrunk_remove:
  "shrunk (ch\<lparr>recvQueue := remove_first P (recvQueue ch)\<rparr>) ch"
  "shrunk (ch\<lparr>sendQueue := remove_first Q (sendQueue ch)\<rparr>) ch"
  by (simp_all add: shrunk_def set_remove_first length_remove_first)

lemma shrunk_unregister_one: "shrunk_world (unregister_one s e w) w"
  by (cases e) (simp add: unregister_one_def upd_chan_def shrunk_world_def shrunk_remove)

lemma shrunk_unregister: "shrunk_world (unregister s w) w"
proof -
  have "shrunk_world (fold (unregister_one s) es w) w" for es
    by (induction es arbitrary: w) (auto intro: shrunk_world_trans shrunk_unregister_one)
  then show ?thesis by (simp add: unregister_def)
qed

lemma schedule_inside [simp]: "cur w = Some g \<Longrightarrow> schedule run h w = wake h w"
  by (simp add: schedule_def wake_def Let_def)

lemma wake_chans [simp]: "chans (wake g w) = chans w" "cur (wake g w) = cur w"
  by (simp_all add: wake_def Let_def)

lemma wake_receiver_shrunk:
  assumes "cur w = Some g"
  shows "shrunk_world (wake_receiver run r e w) w"
proof (cases r)
  case (Receiver h)
  then show ?thesis using assms by (simp add: wake_receiver_def shrunk_world_def)
next
  case (SelReceiver s i)
  let ?w = "w\<lparr>selection := (selection w)(s := Some (i, Some e))\<rparr>"
  have "shrunk_world (unregister s ?w) ?w" by (rule shrunk_unregister)
  then show ?thesis using assms SelReceiver
    by (simp add: wake_receiver_def shrunk_world_def Let_def)
qed

lemma fire_sender_shrunk:
  assumes "cur w = Some g"
  shows "shrunk_world (snd (fire_sender run c sd closing w)) w"
proof (cases sd)
  case (Sender h v)
  then show ?thesis using assms by (simp add: fire_sender_def shrunk_world_def)
next
  case (SelSender s i v)
  let ?w = "w\<lparr>selection := (selection w)(s := Some (i, None))\<rparr>"
  have "shrunk_world (unregister s ?w) ?w" by (rule shrunk_unregister)
  then show ?thesis using assms SelSender
    by (simp add: fire_sender_def shrunk_world_def Let_def)
qed

lemma fire_sender_val:
  "fst (fire_sender run c sd closing w) = Inr v \<Longrightarrow> v = sender_val sd"
  by (cases sd) (auto simp: fire_sender_def Let_def split: if_splits)

section \<open>The invariant of a channel\<close>

text \<open>
  The buffer holds at most \<open>$capacity\<close> values; receivers wait only while it is empty and senders only
  while it is full; a closed channel has no waiters; and a sender and a receiver that wait on one
  channel are cases of the same \<open>$select\<close>, so that no two goroutines that could meet are both asleep.
\<close>

definition chan_ok :: "'v chan \<Rightarrow> bool" where
  "chan_ok ch \<longleftrightarrow>
     (nil_chan ch \<longrightarrow> sendQueue ch = [] \<and> recvQueue ch = [] \<and> capacity ch = 0) \<and>
     length (buffer ch) \<le> capacity ch \<and>
     (recvQueue ch \<noteq> [] \<longrightarrow> buffer ch = []) \<and>
     (sendQueue ch \<noteq> [] \<longrightarrow> length (buffer ch) = capacity ch) \<and>
     (closed ch \<longrightarrow> sendQueue ch = [] \<and> recvQueue ch = []) \<and>
     (\<forall>s \<in> set (sendQueue ch). \<forall>r \<in> set (recvQueue ch). \<exists>x i j v. s = SelSender x i v \<and> r = SelReceiver x j)"

definition chan_inv :: "'v world \<Rightarrow> bool" where
  "chan_inv w \<longleftrightarrow> (\<forall>c. chan_ok (chans w c))"

lemma chan_ok_shrunk:
  assumes "chan_ok ch" "shrunk ch' ch"
  shows "chan_ok ch'"
proof -
  have eqs: "capacity ch' = capacity ch" "buffer ch' = buffer ch" "closed ch' = closed ch" "nil_chan ch' = nil_chan ch"
    and sets: "set (sendQueue ch') \<subseteq> set (sendQueue ch)" "set (recvQueue ch') \<subseteq> set (recvQueue ch)"
    using assms(2) by (simp_all add: shrunk_def)
  from sets have "sendQueue ch = [] \<Longrightarrow> sendQueue ch' = []" "recvQueue ch = [] \<Longrightarrow> recvQueue ch' = []" by simp_all
  moreover have "\<exists>x i j v. s = SelSender x i v \<and> r = SelReceiver x j"
    if "s \<in> set (sendQueue ch')" "r \<in> set (recvQueue ch')" for s r
    using assms(1) that sets unfolding chan_ok_def by blast
  ultimately show ?thesis using assms(1) unfolding chan_ok_def eqs by blast
qed

lemma chan_inv_shrunk: "chan_inv w \<Longrightarrow> shrunk_world w' w \<Longrightarrow> chan_inv w'"
  by (auto simp: chan_inv_def shrunk_world_def intro: chan_ok_shrunk)

lemma chan_inv_upd: "chan_inv w \<Longrightarrow> chan_ok (f (chans w c)) \<Longrightarrow> chan_inv (upd_chan c f w)"
  by (simp add: chan_inv_def upd_chan_def)

lemma chan_ok_new: "new_chan z n = Inr ch \<Longrightarrow> chan_ok ch"
  by (auto simp: new_chan_def chan_ok_def split: if_splits)

lemma chan_inv_cong: "chans w' = chans w \<Longrightarrow> chan_inv w' = chan_inv w"
  by (simp add: chan_inv_def)

lemma block_chans [simp]: "chans (snd (block w)) = chans w"
  by (simp add: block_def split: option.splits)

lemma block_with_inside:
  "cur w = Some g \<Longrightarrow> block_with r w = (Inr r, w\<lparr>g_asleep := (g_asleep w)(g := True)\<rparr>)"
  by (simp add: block_with_def block_def)

lemma upd_chan_simps [simp]:
  "chans (upd_chan c f w) = (chans w)(c := f (chans w c))" "cur (upd_chan c f w) = cur w"
  "selection (upd_chan c f w) = selection w" "sel_reg (upd_chan c f w) = sel_reg w"
  by (simp_all add: upd_chan_def)

lemma send_inv:
  assumes "chan_inv w" "cur w = Some g"
  shows "chan_inv (snd (send run c v w))"
proof -
  let ?ch = "chans w c"
  have ok: "chan_ok ?ch" using assms(1) by (simp add: chan_inv_def)
  show ?thesis
  proof (cases "closed ?ch")
    case True
    then show ?thesis using assms(1) by (simp add: send_def)
  next
    case opn: False
    show ?thesis
    proof (cases "recvQueue ?ch")
      case (Cons r rs)
      let ?w = "upd_chan c (\<lambda>ch. ch\<lparr>recvQueue := rs\<rparr>) w"
      have "chan_inv ?w"
        using assms(1) ok Cons by (intro chan_inv_upd) (auto simp: chan_ok_def)
      then show ?thesis
        using wake_receiver_shrunk [of ?w g run r "(v, True)"] assms(2) opn Cons
        by (simp add: send_def chan_inv_shrunk)
    next
      case Nil
      show ?thesis
      proof (cases "length (buffer ?ch) < capacity ?ch")
        case True
        then show ?thesis using opn Nil assms(1) ok
          by (auto simp: send_def chan_ok_def intro!: chan_inv_upd)
      next
        case False
        have "chan_ok (push_sender (Sender g v) ?ch)"
          using ok Nil opn False by (auto simp: chan_ok_def push_sender_def)
        then show ?thesis using opn Nil False assms
          by (simp add: send_def block_with_inside self_def) (simp add: chan_inv_def)
      qed
    qed
  qed
qed

text \<open>After its first statement \<open>$recv\<close> holds a channel that is well-formed once one value is taken.\<close>

lemma take_sender_cases:
  assumes "chan_inv w" "cur w = Some g"
  shows "(sendQueue (chans w c) = [] \<and> take_sender run c w = (Inr (), w)) \<or>
    (\<exists>s ss w'. sendQueue (chans w c) = s # ss \<and>
       take_sender run c w = (Inr (), upd_chan c (\<lambda>ch. ch\<lparr>buffer := buffer ch @ [sender_val s]\<rparr>) w') \<and>
       shrunk_world w' (upd_chan c (\<lambda>ch. ch\<lparr>sendQueue := ss\<rparr>) w))"
proof (cases "sendQueue (chans w c)")
  case Nil
  then show ?thesis by (simp add: take_sender_def)
next
  case (Cons s ss)
  let ?w = "upd_chan c (\<lambda>ch. ch\<lparr>sendQueue := ss\<rparr>) w"
  have "\<not> closed (chans w c)"
    using assms(1) Cons by (auto simp: chan_inv_def chan_ok_def)
  then obtain w' where w': "fire_sender run c s False ?w = (Inr (sender_val s), w')"
    by (cases s) (auto simp: fire_sender_def Let_def)
  moreover have "shrunk_world w' ?w"
    using fire_sender_shrunk [of ?w g run c s False] assms(2) w' by simp
  ultimately show ?thesis using Cons by (auto simp: take_sender_def)
qed

lemma recv_inv:
  assumes "chan_inv w" "cur w = Some g"
  shows "chan_inv (snd (recv run c w))"
  using take_sender_cases [OF assms, of c run]
proof (elim disjE exE conjE)
  assume a: "sendQueue (chans w c) = []" "take_sender run c w = (Inr (), w)"
  have ok: "chan_ok (chans w c)" using assms(1) by (simp add: chan_inv_def)
  show ?thesis
  proof (cases "buffer (chans w c)")
    case (Cons v vs)
    then have "chan_ok ((chans w c)\<lparr>buffer := vs\<rparr>)" using ok a(1) by (auto simp: chan_ok_def)
    then show ?thesis using a(2) Cons assms(1) by (simp add: recv_def chan_inv_upd)
  next
    case Nil
    then have "chan_ok (push_receiver (Receiver g) (chans w c))" if "\<not> closed (chans w c)"
      using ok a(1) that by (auto simp: chan_ok_def push_receiver_def)
    then show ?thesis using a(2) Nil assms
      by (simp add: recv_def block_with_inside self_def) (simp add: chan_inv_def)
  qed
next
  fix s ss w'
  assume a: "sendQueue (chans w c) = s # ss"
    "take_sender run c w = (Inr (), upd_chan c (\<lambda>ch. ch\<lparr>buffer := buffer ch @ [sender_val s]\<rparr>) w')"
    and sh: "shrunk_world w' (upd_chan c (\<lambda>ch. ch\<lparr>sendQueue := ss\<rparr>) w)"
  let ?w = "upd_chan c (\<lambda>ch. ch\<lparr>sendQueue := ss\<rparr>) w"
  let ?b = "buffer (chans w' c) @ [sender_val s]"
  have ok: "chan_ok (chans w c)" using assms(1) by (simp add: chan_inv_def)
  have inv: "chan_inv ?w" using ok a(1) by (intro chan_inv_upd assms(1)) (auto simp: chan_ok_def)
  then have inv': "chan_inv w'" using sh by (rule chan_inv_shrunk)
  have fields: "buffer (chans w' c) = buffer (chans w c)" "capacity (chans w' c) = capacity (chans w c)"
    using sh by (auto simp: shrunk_world_def shrunk_def dest: spec [of _ c])
  have full: "length (buffer (chans w c)) = capacity (chans w c)" using ok a(1) by (simp add: chan_ok_def)
  have ok': "chan_ok (chans w' c)" using inv' by (simp add: chan_inv_def)
  then have "chan_ok ((chans w' c)\<lparr>buffer := tl ?b\<rparr>)"
    using full fields by (cases "buffer (chans w c)") (auto simp: chan_ok_def)
  then have "chan_inv (upd_chan c (\<lambda>ch. ch\<lparr>buffer := tl ?b\<rparr>) w')" by (intro chan_inv_upd inv')
  moreover have "chans (snd (recv run c w)) = chans (upd_chan c (\<lambda>ch. ch\<lparr>buffer := tl ?b\<rparr>) w')"
    by (simp add: recv_def a(2) split: list.split)
  ultimately show ?thesis by (simp add: chan_inv_def)
qed

lemma upd_cur: "cur w = Some g \<Longrightarrow> cur (upd_chan c f w) = Some g"
  by simp

lemma close_senders_returns:
  assumes "cur w = Some g"
  shows "\<exists>r w'. close_senders run c w = Some (r, w') \<and> shrunk_world w' w \<and>
    (r = Inr () \<longrightarrow> sendQueue (chans w' c) = [])"
  using assms
proof (induction "length (sendQueue (chans w c))" arbitrary: w rule: less_induct)
  case less
  show ?case
  proof (cases "sendQueue (chans w c)")
    case Nil
    then show ?thesis by (subst close_senders.simps) simp
  next
    case (Cons s ss)
    let ?w = "upd_chan c (\<lambda>ch. ch\<lparr>sendQueue := ss\<rparr>) w"
    have wsh: "shrunk_world ?w w" using Cons by (auto simp: shrunk_world_def shrunk_def)
    obtain r w' where f: "fire_sender run c s True ?w = (r, w')" by (cases "fire_sender run c s True ?w") simp
    have sh: "shrunk_world w' ?w"
      using fire_sender_shrunk [of ?w g run c s True] less.prems f by simp
    then have c: "cur w' = Some g" "length (sendQueue (chans w' c)) < length (sendQueue (chans w c))"
      using less.prems Cons by (auto simp: shrunk_world_def shrunk_def dest!: spec [of _ c])
    from sh wsh have sh': "shrunk_world w' w" by (rule shrunk_world_trans)
    show ?thesis
    proof (cases r)
      case (Inl p)
      then show ?thesis using f Cons sh' by (subst close_senders.simps) simp
    next
      case (Inr v)
      from less.hyps [OF c(2,1)] obtain r2 w2 where
        "close_senders run c w' = Some (r2, w2)" "shrunk_world w2 w'" "r2 = Inr () \<longrightarrow> sendQueue (chans w2 c) = []"
        by blast
      then show ?thesis using f Cons Inr sh' by (subst close_senders.simps) (auto intro: shrunk_world_trans)
    qed
  qed
qed

lemma close_receivers_returns:
  assumes "cur w = Some g"
  shows "\<exists>w'. close_receivers run c w = Some (Inr (), w') \<and> shrunk_world w' w \<and> recvQueue (chans w' c) = []"
  using assms
proof (induction "length (recvQueue (chans w c))" arbitrary: w rule: less_induct)
  case less
  show ?case
  proof (cases "recvQueue (chans w c)")
    case Nil
    then show ?thesis by (subst close_receivers.simps) simp
  next
    case (Cons r rs)
    let ?w = "upd_chan c (\<lambda>ch. ch\<lparr>recvQueue := rs\<rparr>) w"
    let ?w' = "wake_receiver run r (zero (chans w c), False) ?w"
    have wsh: "shrunk_world ?w w" using Cons by (auto simp: shrunk_world_def shrunk_def)
    have sh: "shrunk_world ?w' ?w" by (rule wake_receiver_shrunk [OF upd_cur [OF less.prems]])
    then have c: "cur ?w' = Some g" "length (recvQueue (chans ?w' c)) < length (recvQueue (chans w c))"
      using less.prems Cons by (auto simp: shrunk_world_def shrunk_def dest!: spec [of _ c])
    from less.hyps [OF c(2,1)] obtain w2 where
      "close_receivers run c ?w' = Some (Inr (), w2)" "shrunk_world w2 ?w'" "recvQueue (chans w2 c) = []"
      by blast
    then show ?thesis using Cons shrunk_world_trans [OF _ shrunk_world_trans [OF sh wsh]]
      by (subst close_receivers.simps) auto
  qed
qed

text \<open>A small world: two goroutines and channels with one place.\<close>

definition demo_world :: "int world" where
  "demo_world = sched.extend (sched_init\<lparr>created := [1, 2]\<rparr>)
     \<lparr>chans = (\<lambda>_. \<lparr>capacity = 1, zero = 0, buffer = [], sendQueue = [], recvQueue = [], closed = False, nil_chan = False\<rparr>),
      recv_val = (\<lambda>_. None), send_closed = (\<lambda>_. None), sel_gid = (\<lambda>_. 0), sel_reg = (\<lambda>_. []),
      selection = (\<lambda>_. None), next_sel = 0\<rparr>"

lemma demo_world_simps [simp]:
  "chans demo_world c = \<lparr>capacity = 1, zero = 0, buffer = [], sendQueue = [], recvQueue = [], closed = False, nil_chan = False\<rparr>"
  "cur demo_world = None" "send_closed demo_world = (\<lambda>_. None)" "recv_val demo_world = (\<lambda>_. None)"
  by (simp_all add: demo_world_def sched_init_def sched.defs)

section \<open>Closing\<close>

definition is_sel_sender :: "'v sender \<Rightarrow> bool" where
  "is_sel_sender s \<longleftrightarrow> (case s of Sender g v \<Rightarrow> False | SelSender x i v \<Rightarrow> True)"

lemma wake_fields [simp]:
  "send_closed (wake g w) = send_closed w" "recv_val (wake g w) = recv_val w"
  "selection (wake g w) = selection w" "sel_gid (wake g w) = sel_gid w"
  by (simp_all add: wake_def Let_def)

text \<open>A goroutine that is awake and queued to run.\<close>

definition woken :: "gid \<Rightarrow> 'v world \<Rightarrow> bool" where
  "woken h w \<longleftrightarrow> h \<in> set (scheduled w) \<and> \<not> g_asleep w h"

lemma woken_wake [simp]: "woken h (wake g w) \<longleftrightarrow> h = g \<or> woken h w"
  by (auto simp: woken_def wake_def Let_def)

lemma woken_upd [simp]:
  "woken h (upd_chan c f w) = woken h w" "woken h (w\<lparr>recv_val := x\<rparr>) = woken h w"
  "woken h (w\<lparr>send_closed := y\<rparr>) = woken h w" "woken h (w\<lparr>selection := z\<rparr>) = woken h w"
  by (simp_all add: woken_def upd_chan_def)

lemma upd_chan_vals [simp]:
  "send_closed (upd_chan c f w) = send_closed w" "recv_val (upd_chan c f w) = recv_val w" "sel_gid (upd_chan c f w) = sel_gid w"
  by (simp_all add: upd_chan_def)

lemma unregister_vals [simp]:
  "send_closed (unregister s w) = send_closed w" "recv_val (unregister s w) = recv_val w"
  "selection (unregister s w) = selection w" "sel_gid (unregister s w) = sel_gid w" "woken h (unregister s w) = woken h w"
proof -
  have "send_closed (fold (unregister_one s) es w) = send_closed w \<and> recv_val (fold (unregister_one s) es w) = recv_val w \<and>
      selection (fold (unregister_one s) es w) = selection w \<and> sel_gid (fold (unregister_one s) es w) = sel_gid w \<and>
      woken h (fold (unregister_one s) es w) = woken h w" for es
    by (induction es arbitrary: w) (simp_all add: unregister_one_def split: prod.splits)
  then show "send_closed (unregister s w) = send_closed w" "recv_val (unregister s w) = recv_val w"
    "selection (unregister s w) = selection w" "sel_gid (unregister s w) = sel_gid w" "woken h (unregister s w) = woken h w"
    by (simp_all add: unregister_def)
qed

lemma cur_unregister [simp]: "cur (unregister s w) = cur w"
  using shrunk_unregister [of s w] by (simp add: shrunk_world_def)

lemma unregister_keeps:
  assumes "\<forall>i. r \<noteq> SelReceiver s i"
  shows "r \<in> set (recvQueue (chans (unregister s w) c)) \<longleftrightarrow> r \<in> set (recvQueue (chans w c))"
proof -
  have rf: "r \<in> set (remove_first (\<lambda>r. r = SelReceiver s i) xs) \<longleftrightarrow> r \<in> set xs" for i xs
    using assms by (induction xs) auto
  have "r \<in> set (recvQueue (chans (fold (unregister_one s) es w) c)) \<longleftrightarrow> r \<in> set (recvQueue (chans w c))" for es
    by (induction es arbitrary: w) (simp_all add: unregister_one_def rf split: prod.splits)
  then show ?thesis by (simp add: unregister_def)
qed

lemma no_senders_upd: "sendQueue ch = [] \<Longrightarrow> ch\<lparr>sendQueue := []\<rparr> = ch"
  by (cases ch) simp

text \<open>With plain senders only, the first loop runs through and leaves the flag with each of them.\<close>

lemma close_senders_plain:
  assumes "cur w = Some g" "\<forall>s \<in> set (sendQueue (chans w c)). \<not> is_sel_sender s"
  shows "\<exists>w'. close_senders run c w = Some (Inr (), w') \<and> cur w' = cur w \<and> recv_val w' = recv_val w \<and>
     chans w' = (chans w)(c := (chans w c)\<lparr>sendQueue := []\<rparr>) \<and>
     send_closed w' = (\<lambda>h. if \<exists>v. Sender h v \<in> set (sendQueue (chans w c)) then Some True else send_closed w h) \<and>
     selection w' = selection w \<and> sel_gid w' = sel_gid w \<and>
     (\<forall>h. woken h w' \<longleftrightarrow> woken h w \<or> (\<exists>v. Sender h v \<in> set (sendQueue (chans w c))))"
  using assms
proof (induction "sendQueue (chans w c)" arbitrary: w)
  case Nil
  then show ?case by (subst close_senders.simps) (simp add: no_senders_upd)
next
  case (Cons s ss)
  then obtain h v where s: "s = Sender h v" by (cases s) (auto simp: is_sel_sender_def simp flip: Cons.hyps(2))
  let ?w = "upd_chan c (\<lambda>ch. ch\<lparr>sendQueue := ss\<rparr>) w"
  let ?w1 = "wake h (?w\<lparr>send_closed := (send_closed ?w)(h := Some True)\<rparr>)"
  have f: "fire_sender run c s True ?w = (Inr v, ?w1)"
    using Cons.prems(1) by (simp add: fire_sender_def s)
  obtain w' where w': "close_senders run c ?w1 = Some (Inr (), w')" "cur w' = cur ?w1" "recv_val w' = recv_val ?w1"
    "chans w' = (chans ?w1)(c := (chans ?w1 c)\<lparr>sendQueue := []\<rparr>)"
    "send_closed w' = (\<lambda>h. if \<exists>v. Sender h v \<in> set (sendQueue (chans ?w1 c)) then Some True else send_closed ?w1 h)"
    "selection w' = selection ?w1" "sel_gid w' = sel_gid ?w1"
    "\<forall>h. woken h w' \<longleftrightarrow> woken h ?w1 \<or> (\<exists>v. Sender h v \<in> set (sendQueue (chans ?w1 c)))"
    using Cons.hyps(1) [of ?w1] Cons.prems by (auto simp flip: Cons.hyps(2))
  have "close_senders run c w = close_senders run c ?w1"
    by (subst close_senders.simps) (simp add: f flip: Cons.hyps(2))
  with w' show ?case by (auto simp: s fun_eq_iff simp flip: Cons.hyps(2))
qed

text \<open>
  What a receiver that waited on the channel has once the channel is closed: a goroutine the zero value and \<open>ok\<close> false, a
  \<open>$select\<close> the same for one of its cases on this channel; either way it is queued to run.
\<close>

definition recv_told :: "'v \<Rightarrow> gid \<Rightarrow> 'v world \<Rightarrow> bool" where
  "recv_told z h w \<longleftrightarrow> recv_val w h = Some (z, False) \<and> woken h w"

definition sel_told :: "receiver set \<Rightarrow> 'v \<Rightarrow> nat \<Rightarrow> 'v world \<Rightarrow> bool" where
  "sel_told R z x w \<longleftrightarrow> (\<exists>j. SelReceiver x j \<in> R \<and> selection w x = Some (j, Some (z, False)) \<and> woken (sel_gid w x) w)"

lemma wake_receiver_told:
  assumes "cur w = Some g" "r \<in> R" "w' = wake_receiver run r (z, False) w"
  shows "send_closed w' = send_closed w" "woken h w \<Longrightarrow> woken h w'"
    "r = Receiver h \<or> recv_told z h w \<Longrightarrow> recv_told z h w'"
    "r = SelReceiver x j \<or> sel_told R z x w \<Longrightarrow> sel_told R z x w'"
    "q \<in> set (recvQueue (chans w c)) \<Longrightarrow> q \<in> set (recvQueue (chans w' c)) \<or> (\<exists>x i j. r = SelReceiver x i \<and> q = SelReceiver x j)"
  using assms by (cases r; auto simp: wake_receiver_def Let_def recv_told_def sel_told_def unregister_keeps)+

lemma close_receivers_vals:
  assumes "cur w = Some g" "set (recvQueue (chans w c)) \<subseteq> R" "zero (chans w c) = z"
  shows "\<exists>w'. close_receivers run c w = Some (Inr (), w') \<and> send_closed w' = send_closed w \<and>
     (\<forall>h. woken h w \<longrightarrow> woken h w') \<and>
     (\<forall>h. Receiver h \<in> set (recvQueue (chans w c)) \<or> recv_told z h w \<longrightarrow> recv_told z h w') \<and>
     (\<forall>x. (\<exists>j. SelReceiver x j \<in> set (recvQueue (chans w c))) \<or> sel_told R z x w \<longrightarrow> sel_told R z x w')"
  using assms
proof (induction "length (recvQueue (chans w c))" arbitrary: w rule: less_induct)
  case less
  show ?case
  proof (cases "recvQueue (chans w c)")
    case Nil
    then show ?thesis by (subst close_receivers.simps) simp
  next
    case (Cons r rs)
    let ?w = "upd_chan c (\<lambda>ch. ch\<lparr>recvQueue := rs\<rparr>) w"
    define w1 where "w1 = wake_receiver run r (z, False) ?w"
    have sh: "shrunk_world w1 ?w" unfolding w1_def by (rule wake_receiver_shrunk [OF upd_cur [OF less.prems(1)]])
    then have sc: "cur w1 = cur w" "shrunk (chans w1 c) ((chans w c)\<lparr>recvQueue := rs\<rparr>)"
      by (auto simp: shrunk_world_def dest: spec [of _ c])
    then have c: "cur w1 = Some g" "length (recvQueue (chans w1 c)) < length (recvQueue (chans w c))" "zero (chans w1 c) = z"
      using less.prems Cons by (simp_all add: shrunk_def)
    have "set (recvQueue (chans w1 c)) \<subseteq> set rs" using sc(2) by (simp add: shrunk_def)
    then have c4: "set (recvQueue (chans w1 c)) \<subseteq> R" using less.prems(2) Cons by auto
    have "r \<in> R" using less.prems(2) Cons by simp
    note told = wake_receiver_told [OF upd_cur [OF less.prems(1)] this w1_def]
    obtain w2 where w2: "close_receivers run c w1 = Some (Inr (), w2)" "send_closed w2 = send_closed w1"
      "\<And>h. woken h w1 \<Longrightarrow> woken h w2"
      "\<And>h. Receiver h \<in> set (recvQueue (chans w1 c)) \<or> recv_told z h w1 \<Longrightarrow> recv_told z h w2"
      "\<And>x j. SelReceiver x j \<in> set (recvQueue (chans w1 c)) \<or> sel_told R z x w1 \<Longrightarrow> sel_told R z x w2"
      using less.hyps [OF c(2,1) c4 c(3)] by blast
    have "close_receivers run c w = Some (Inr (), w2)"
      using w2(1) Cons less.prems(3) by (subst close_receivers.simps) (simp add: w1_def)
    moreover have "recv_told z h w2" if h: "Receiver h \<in> set (recvQueue (chans w c)) \<or> recv_told z h w" for h
    proof (rule w2(4))
      consider "r = Receiver h \<or> recv_told z h ?w" | "Receiver h \<in> set (recvQueue (chans ?w c))"
        using h Cons by (auto simp: recv_told_def)
      then show "Receiver h \<in> set (recvQueue (chans w1 c)) \<or> recv_told z h w1" by cases (use told(3,5) in blast)+
    qed
    moreover have "sel_told R z x w2" if x: "SelReceiver x j \<in> set (recvQueue (chans w c)) \<or> sel_told R z x w" for x j
    proof (rule w2(5))
      consider "r = SelReceiver x j \<or> sel_told R z x ?w" | "SelReceiver x j \<in> set (recvQueue (chans ?w c))"
        using x Cons by (auto simp: sel_told_def)
      then show "SelReceiver x j \<in> set (recvQueue (chans w1 c)) \<or> sel_told R z x w1" by cases (use told(4,5) in blast)+
    qed
    moreover have "woken h w2" if "woken h w" for h using that told(2) w2(3) by simp
    ultimately show ?thesis using w2(2) told(1) by auto
  qed
qed

text \<open>Closing an open channel on which no \<open>$select\<close> waits to send.\<close>

lemma close_chan_open:
  assumes "cur w = Some g" "\<forall>s \<in> set (sendQueue (chans w c)). \<not> is_sel_sender s" "\<not> closed (chans w c)"
  obtains w' where "close_chan run c w = Some (Inr (), w')" "closed (chans w' c)" "sendQueue (chans w' c) = []"
    "recvQueue (chans w' c) = []" "buffer (chans w' c) = buffer (chans w c)"
    "\<And>h. Receiver h \<in> set (recvQueue (chans w c)) \<Longrightarrow> recv_told (zero (chans w c)) h w'"
    "\<And>x j. SelReceiver x j \<in> set (recvQueue (chans w c)) \<Longrightarrow> sel_told (set (recvQueue (chans w c))) (zero (chans w c)) x w'"
    "\<And>h v. Sender h v \<in> set (sendQueue (chans w c)) \<Longrightarrow> send_closed w' h = Some True \<and> woken h w'"
proof -
  let ?w = "upd_chan c (\<lambda>ch. ch\<lparr>closed := True\<rparr>) w"
  obtain w1 where w1: "close_senders run c ?w = Some (Inr (), w1)" "cur w1 = Some g" "recv_val w1 = recv_val w"
    "chans w1 = (chans ?w)(c := (chans ?w c)\<lparr>sendQueue := []\<rparr>)"
    "send_closed w1 = (\<lambda>h. if \<exists>v. Sender h v \<in> set (sendQueue (chans w c)) then Some True else send_closed ?w h)"
    "\<forall>h. woken h w1 \<longleftrightarrow> woken h ?w \<or> (\<exists>v. Sender h v \<in> set (sendQueue (chans w c)))"
    using close_senders_plain [of ?w g c run] assms(1,2) by auto
  obtain w2 where w2: "close_receivers run c w1 = Some (Inr (), w2)" "shrunk_world w2 w1" "recvQueue (chans w2 c) = []"
    using close_receivers_returns [OF w1(2)] by blast
  have q: "recvQueue (chans w1 c) = recvQueue (chans w c)" "zero (chans w1 c) = zero (chans w c)" by (simp_all add: w1(4))
  have vals: "send_closed w2 = send_closed w1" "\<And>h. woken h w1 \<Longrightarrow> woken h w2"
    "\<And>h. Receiver h \<in> set (recvQueue (chans w c)) \<Longrightarrow> recv_told (zero (chans w c)) h w2"
    "\<And>x j. SelReceiver x j \<in> set (recvQueue (chans w c)) \<Longrightarrow> sel_told (set (recvQueue (chans w c))) (zero (chans w c)) x w2"
    using close_receivers_vals [OF w1(2) _ q(2), of "set (recvQueue (chans w c))" run] w2(1) unfolding q(1) by auto
  have "shrunk (chans w2 c) (chans w1 c)" using w2(2) by (simp add: shrunk_world_def)
  then have f: "closed (chans w2 c)" "sendQueue (chans w2 c) = []" "buffer (chans w2 c) = buffer (chans w c)"
    by (simp_all add: shrunk_def w1(4))
  have "close_chan run c w = Some (Inr (), w2)" using assms(3) w1(1) w2(1) by (simp add: close_chan_def)
  moreover have "send_closed w2 h = Some True \<and> woken h w2" if "Sender h v \<in> set (sendQueue (chans w c))" for h v
    using that vals(2) w1(6) by (auto simp: vals(1) w1(5))
  ultimately show ?thesis using f w2(3) vals(3,4) that by blast
qed

lemma close_chan_inv:
  assumes "chan_inv w" "cur w = Some g" "close_chan run c w = Some (Inr (), w')"
  shows "chan_inv w'"
proof -
  let ?w = "upd_chan c (\<lambda>ch. ch\<lparr>closed := True\<rparr>) w"
  have open': "\<not> closed (chans w c)" using assms(3) by (auto simp: close_chan_def)
  obtain r1 w1 where w1: "close_senders run c ?w = Some (r1, w1)" "shrunk_world w1 ?w"
    "r1 = Inr () \<longrightarrow> sendQueue (chans w1 c) = []"
    using close_senders_returns [of ?w g run c] assms(2) by auto
  then have r1: "r1 = Inr ()" using assms(3) open' by (cases r1) (auto simp: close_chan_def)
  have "cur w1 = Some g" using w1(2) assms(2) by (simp add: shrunk_world_def)
  from close_receivers_returns [OF this, of run c] obtain w2 where
    w2: "close_receivers run c w1 = Some (Inr (), w2)" "shrunk_world w2 w1" "recvQueue (chans w2 c) = []"
    by blast
  have w': "w' = w2" using assms(3) open' w1(1) w2(1) r1 by (simp add: close_chan_def)
  have "sendQueue (chans w2 c) = []" using w1(3) r1 w2(2) by (auto simp: shrunk_world_def shrunk_def dest: spec [of _ c])
  have sh: "shrunk (chans w' d) (chans ?w d)" for d
    using shrunk_world_trans [OF w2(2) w1(2)] by (simp add: w' shrunk_world_def)
  have "chan_ok (chans w' d)" for d
  proof (cases "d = c")
    case True
    have "chan_ok (chans w c)" using assms(1) by (simp add: chan_inv_def)
    then show ?thesis using sh [of c] \<open>sendQueue (chans w2 c) = []\<close> w2(3) True
      by (auto simp: chan_ok_def shrunk_def w')
  next
    case False
    then show ?thesis using sh [of d] assms(1) by (auto simp: chan_inv_def intro: chan_ok_shrunk)
  qed
  then show ?thesis by (simp add: chan_inv_def)
qed

text \<open>
  C37: \<open>$close\<close> called by a goroutine always returns; closing a closed channel panics and changes
  nothing.  Otherwise, when no \<open>$select\<close> waits to send on the channel, it does not panic: the channel
  is closed, its queues are empty, its buffer is kept for later receives; every blocked receiver is
  handed the zero value with \<open>ok\<close> false, a waiting \<open>$select\<close> for one of its receive cases on the channel, every blocked
  sender panics when it runs again, and each of these goroutines is awake and queued to run.
\<close>

theorem close_chan_correct:
  assumes "chan_inv w" "cur w = Some g" "\<forall>s \<in> set (sendQueue (chans w c)). \<not> is_sel_sender s"
  shows "if closed (chans w c)
         then close_chan run c w = Some (Inl (RuntimeError ''close of closed channel''), w)
         else \<exists>w'. close_chan run c w = Some (Inr (), w') \<and> closed (chans w' c) \<and>
              sendQueue (chans w' c) = [] \<and> recvQueue (chans w' c) = [] \<and>
              buffer (chans w' c) = buffer (chans w c) \<and>
              (\<forall>h. Receiver h \<in> set (recvQueue (chans w c)) \<longrightarrow> resume_recv h w' = Some (zero (chans w c), False) \<and>
                 h \<in> set (scheduled w') \<and> \<not> g_asleep w' h) \<and>
              (\<forall>x i. SelReceiver x i \<in> set (recvQueue (chans w c)) \<longrightarrow>
                 (\<exists>j. SelReceiver x j \<in> set (recvQueue (chans w c)) \<and> resume_select x w' = Some (j, Some (zero (chans w c), False))) \<and>
                 sel_gid w' x \<in> set (scheduled w') \<and> \<not> g_asleep w' (sel_gid w' x)) \<and>
              (\<forall>h v. Sender h v \<in> set (sendQueue (chans w c)) \<longrightarrow>
                 resume_send h w' = Inl (RuntimeError ''send on closed channel'') \<and>
                 h \<in> set (scheduled w') \<and> \<not> g_asleep w' h)"
proof (cases "closed (chans w c)")
  case True
  then show ?thesis by (simp add: close_chan_def)
next
  case False
  obtain w' where w': "close_chan run c w = Some (Inr (), w')" "closed (chans w' c)" "sendQueue (chans w' c) = []"
    "recvQueue (chans w' c) = []" "buffer (chans w' c) = buffer (chans w c)"
    "\<And>h. Receiver h \<in> set (recvQueue (chans w c)) \<Longrightarrow> recv_told (zero (chans w c)) h w'"
    "\<And>x j. SelReceiver x j \<in> set (recvQueue (chans w c)) \<Longrightarrow> sel_told (set (recvQueue (chans w c))) (zero (chans w c)) x w'"
    "\<And>h v. Sender h v \<in> set (sendQueue (chans w c)) \<Longrightarrow> send_closed w' h = Some True \<and> woken h w'"
    using close_chan_open [OF assms(2,3) False] by metis
  have r: "resume_recv h w' = Some (zero (chans w c), False) \<and> h \<in> set (scheduled w') \<and> \<not> g_asleep w' h"
    if "Receiver h \<in> set (recvQueue (chans w c))" for h
    using w'(6) [OF that] by (simp add: resume_recv_def recv_told_def woken_def)
  have x: "(\<exists>j. SelReceiver x j \<in> set (recvQueue (chans w c)) \<and> resume_select x w' = Some (j, Some (zero (chans w c), False))) \<and>
      sel_gid w' x \<in> set (scheduled w') \<and> \<not> g_asleep w' (sel_gid w' x)"
    if "SelReceiver x i \<in> set (recvQueue (chans w c))" for x i
    using w'(7) [OF that] by (auto simp: resume_select_def sel_told_def woken_def)
  have "resume_send h w' = Inl (RuntimeError ''send on closed channel'') \<and> h \<in> set (scheduled w') \<and> \<not> g_asleep w' h"
    if "Sender h v \<in> set (sendQueue (chans w c))" for h v
    using w'(8) [OF that] by (simp add: resume_send_def woken_def)
  then show ?thesis using False w'(1-5) r x by auto
qed

text \<open>
  When a \<open>$select\<close> waits to send, its closure throws inside \<open>$close\<close>: the goroutine that closes gets the
  panic meant for the sender, and the waiters behind that closure stay in the queue of a closed
  channel.
\<close>

theorem close_chan_select_panics:
  assumes "\<not> closed (chans w c)" "sendQueue (chans w c) = SelSender s i v # ss"
  shows "\<exists>w'. close_chan run c w = Some (Inl (RuntimeError ''send on closed channel''), w') \<and>
     closed (chans w' c) \<and> sendQueue (chans w' c) = ss \<and> recvQueue (chans w' c) = recvQueue (chans w c) \<and>
     selection w' = selection w"
proof -
  let ?w = "upd_chan c (\<lambda>ch. ch\<lparr>closed := True\<rparr>) w"
  have "close_senders run c ?w = Some (Inl (RuntimeError ''send on closed channel''), upd_chan c (\<lambda>ch. ch\<lparr>sendQueue := ss\<rparr>) ?w)"
    by (subst close_senders.simps) (simp add: assms fire_sender_def)
  then show ?thesis using assms by (simp add: close_chan_def)
qed

theorem close_chan_select_panics_witness:
  "\<exists>w'. close_chan id 0 (upd_chan 0 (\<lambda>ch. ch\<lparr>sendQueue := [SelSender 0 0 5]\<rparr>) demo_world)
     = Some (Inl (RuntimeError ''send on closed channel''), w') \<and> closed (chans w' 0)"
  using close_chan_select_panics [of "upd_chan 0 (\<lambda>ch. ch\<lparr>sendQueue := [SelSender 0 0 5]\<rparr>) demo_world" 0 0 0 5 "[]" id]
  by auto

text \<open>
  Closing \<open>$chanNil\<close>, which Go answers with a panic, marks the one shared nil channel as closed: every
  later receive from a nil channel then returns at once instead of blocking.
\<close>

lemma close_nil_channel:
  assumes "nil_chan (chans w c)" "chan_ok (chans w c)" "\<not> closed (chans w c)"
  shows "close_chan run c w = Some (Inr (), upd_chan c (\<lambda>ch. ch\<lparr>closed := True\<rparr>) w) \<and>
    recv run c (upd_chan c (\<lambda>ch. ch\<lparr>closed := True\<rparr>) w)
      = (Inr (Got (zero (chans w c)) False), upd_chan c (\<lambda>ch. ch\<lparr>closed := True\<rparr>) w)"
proof -
  let ?w = "upd_chan c (\<lambda>ch. ch\<lparr>closed := True\<rparr>) w"
  have e: "sendQueue (chans w c) = []" "recvQueue (chans w c) = []" "buffer (chans w c) = []"
    using assms(1,2) by (auto simp: chan_ok_def)
  have "close_senders run c ?w = Some (Inr (), ?w)" by (subst close_senders.simps) (simp add: e)
  moreover have "close_receivers run c ?w = Some (Inr (), ?w)" by (subst close_receivers.simps) (simp add: e)
  ultimately show ?thesis using assms(3) e by (simp add: close_chan_def recv_def take_sender_def)
qed

section \<open>Select keeps the invariant\<close>

text \<open>A case that is not ready, when the only waiters of its channel on the other side belong to \<open>s\<close>.\<close>

definition stuck :: "nat \<Rightarrow> 'v world \<Rightarrow> 'v comm \<Rightarrow> bool" where
  "stuck s w cm = (case cm of
       Default \<Rightarrow> False
     | RecvCase c \<Rightarrow> buffer (chans w c) = [] \<and> \<not> closed (chans w c) \<and>
         (\<forall>x \<in> set (sendQueue (chans w c)). \<exists>i v. x = SelSender s i v)
     | SendCase c v \<Rightarrow> capacity (chans w c) \<le> length (buffer (chans w c)) \<and> \<not> closed (chans w c) \<and>
         (\<forall>x \<in> set (recvQueue (chans w c)). \<exists>i. x = SelReceiver s i))"

lemma scan_cases_stuck:
  assumes "scan_cases w t cs n r = Inr ([], None)"
  shows "n = [] \<and> r = None \<and> (\<forall>cm \<in> set cs. stuck s w cm)"
  using assms
  by (induction w t cs n r rule: scan_cases.induct)
    (auto simp: Let_def stuck_def split: if_splits)

lemma stuck_push:
  "stuck s w cm \<Longrightarrow> stuck s (upd_chan c (push_receiver (SelReceiver s t)) w) cm"
  "stuck s w cm \<Longrightarrow> stuck s (upd_chan c (push_sender (SelSender s t v)) w) cm"
  by (cases cm; auto simp: stuck_def push_receiver_def push_sender_def upd_chan_def)+

lemma chan_ok_push_sel:
  assumes "chan_ok (chans w c)"
  shows "stuck s w (RecvCase c) \<Longrightarrow> chan_ok (push_receiver (SelReceiver s t) (chans w c))"
    and "stuck s w (SendCase c v) \<Longrightarrow> chan_ok (push_sender (SelSender s t v) (chans w c))"
proof -
  assume st: "stuck s w (RecvCase c)"
  then have "\<exists>x i j v. sd = SelSender x i v \<and> SelReceiver s t = SelReceiver x j"
    if "sd \<in> set (sendQueue (chans w c))" for sd using that by (auto simp: stuck_def)
  then show "chan_ok (push_receiver (SelReceiver s t) (chans w c))"
    using assms st unfolding chan_ok_def stuck_def push_receiver_def by auto
next
  assume st: "stuck s w (SendCase c v)"
  then have "\<exists>x i j u. SelSender s t v = SelSender x i u \<and> r = SelReceiver x j"
    if "r \<in> set (recvQueue (chans w c))" for r using that by (auto simp: stuck_def)
  then show "chan_ok (push_sender (SelSender s t v) (chans w c))"
    using assms st unfolding chan_ok_def stuck_def push_sender_def by auto
qed

lemma register_cases_inv:
  assumes "chan_inv w" "\<forall>cm \<in> set cs. stuck s w cm"
  shows "chan_inv (register_cases s t cs w)"
  using assms
proof (induction s t cs w rule: register_cases.induct)
  case (3 s t c cs w)
  let ?w = "w\<lparr>sel_reg := (sel_reg w)(s := sel_reg w s @ [(c, True, t)])\<rparr>"
  have "chan_ok (push_receiver (SelReceiver s t) (chans w c))"
    using 3(2,3) by (intro chan_ok_push_sel) (simp_all add: chan_inv_def)
  then have "chan_inv (upd_chan c (push_receiver (SelReceiver s t)) ?w)"
    using 3(2) by (intro chan_inv_upd) (simp_all add: chan_inv_def)
  moreover have "\<forall>cm \<in> set cs. stuck s ?w cm" using 3(3) by (auto simp: stuck_def split: comm.splits)
  ultimately show ?case using 3(1) by (auto intro: stuck_push)
next
  case (4 s t c v cs w)
  let ?w = "w\<lparr>sel_reg := (sel_reg w)(s := sel_reg w s @ [(c, False, t)])\<rparr>"
  have "chan_ok (push_sender (SelSender s t v) (chans w c))"
    using 4(2,3) by (intro chan_ok_push_sel) (simp_all add: chan_inv_def)
  then have "chan_inv (upd_chan c (push_sender (SelSender s t v)) ?w)"
    using 4(2) by (intro chan_inv_upd) (simp_all add: chan_inv_def)
  moreover have "\<forall>cm \<in> set cs. stuck s ?w cm" using 4(3) by (auto simp: stuck_def split: comm.splits)
  ultimately show ?case using 4(1) by (auto intro: stuck_push)
qed auto

lemma snd_map_res:
  "snd (case X of (Inl p, w') \<Rightarrow> (Inl p, w') | (Inr x, w') \<Rightarrow> (Inr (f x), w')) = snd X"
  by (cases X; cases "fst X") auto

lemma select_inv:
  assumes "chan_inv w" "cur w = Some g"
  shows "chan_inv (snd (select run pick cs w))"
proof (cases "scan_cases w 0 cs [] None")
  case (Inl p)
  then show ?thesis using assms(1) by (simp add: select_def)
next
  case (Inr nr)
  obtain n r where nr: "nr = (n, r)" by (cases nr)
  show ?thesis
  proof (cases "if n \<noteq> [] then Some (pick n) else r")
    case (Some k)
    show ?thesis
    proof (cases "cs ! k")
      case (RecvCase c)
      then show ?thesis using Inr nr Some recv_inv [OF assms, of run c] by (simp add: select_def snd_map_res)
    next
      case (SendCase c v)
      then show ?thesis using Inr nr Some send_inv [OF assms, of run c v]
        by (simp add: select_def snd_map_res [where f = "\<lambda>_. Selected k Done"])
    qed (use assms(1) Inr nr Some in \<open>simp add: select_def\<close>)
  next
    case None
    then have "n = []" "r = None" by (auto split: if_splits)
    let ?s = "next_sel w"
    let ?w = "w\<lparr>next_sel := Suc ?s, sel_gid := (sel_gid w)(?s := self w), sel_reg := (sel_reg w)(?s := []),
                selection := (selection w)(?s := None)\<rparr>"
    have "\<forall>cm \<in> set cs. stuck ?s w cm"
      using scan_cases_stuck [of w 0 cs "[]" None ?s] Inr nr \<open>n = []\<close> \<open>r = None\<close> by simp
    then have "\<forall>cm \<in> set cs. stuck ?s ?w cm" by (auto simp: stuck_def split: comm.splits)
    then have "chan_inv (register_cases ?s 0 cs ?w)"
      using assms(1) by (intro register_cases_inv) (simp_all add: chan_inv_def)
    then have "chan_inv (snd (block (register_cases ?s 0 cs ?w)))" by (simp add: chan_inv_def)
    moreover have "snd (select run pick cs w) = snd (block (register_cases ?s 0 cs ?w))"
      using Inr nr \<open>n = []\<close> \<open>r = None\<close> by (simp add: select_def Let_def snd_map_res [where f = "\<lambda>_. SelBlocked ?s"])
    ultimately show ?thesis by simp
  qed
qed

section \<open>FIFO\<close>

text \<open>
  A channel used by \<open>$send\<close> and \<open>$recv\<close>: its content is the buffer and the values of the blocked
  senders.  \<open>chan_put\<close> and \<open>chan_get\<close> run the call in a goroutine and name the values that leave: what the \<open>$recv\<close> of the
  receiver that waited longest gives, with \<open>ok\<close> true, once \<open>$send\<close> has queued its goroutine to run (\<open>handed_over\<close>), and
  the value a \<open>$recv\<close> returns at once.
\<close>

definition chan_content :: "nat \<Rightarrow> 'v world \<Rightarrow> 'v list" where
  "chan_content c w = buffer (chans w c) @ map sender_val (sendQueue (chans w c))"

definition handed_over :: "receiver list \<Rightarrow> 'v world \<Rightarrow> 'v list" where
  "handed_over rs w = (case rs of
       Receiver h # _ \<Rightarrow> (case resume_recv h w of
           Some (x, True) \<Rightarrow> if h \<in> set (scheduled w) \<and> \<not> g_asleep w h then [x] else []
         | _ \<Rightarrow> [])
     | _ \<Rightarrow> [])"

definition chan_put :: "('v world \<Rightarrow> 'v world) \<Rightarrow> nat \<Rightarrow> gid \<times> 'v \<Rightarrow> 'v world \<Rightarrow> 'v list \<times> 'v world" where
  "chan_put run c gv w = (case gv of (g, v) \<Rightarrow>
     (let w' = snd (send run c v (w\<lparr>cur := Some g\<rparr>)) in (handed_over (recvQueue (chans w c)) w', w')))"

definition chan_get :: "('v world \<Rightarrow> 'v world) \<Rightarrow> nat \<Rightarrow> gid \<Rightarrow> 'v world \<Rightarrow> 'v list \<times> 'v world" where
  "chan_get run c g w = (case recv run c (w\<lparr>cur := Some g\<rparr>) of
       (Inr (Got v True), w') \<Rightarrow> ([v], w')
     | (_, w') \<Rightarrow> ([], w'))"

definition plain_open :: "nat \<Rightarrow> 'v world \<Rightarrow> bool" where
  "plain_open c w \<longleftrightarrow> chan_inv w \<and> \<not> closed (chans w c) \<and> \<not> nil_chan (chans w c) \<and>
     (\<forall>s \<in> set (sendQueue (chans w c)). \<exists>g v. s = Sender g v) \<and>
     (\<forall>r \<in> set (recvQueue (chans w c)). \<exists>g. r = Receiver g)"

lemma plain_open_put:
  assumes "plain_open c w" "chan_put run c a w = (out, w')"
  shows "plain_open c w' \<and> out @ chan_content c w' = chan_content c w @ [snd a]"
proof -
  obtain g v where a: "a = (g, v)" by (cases a)
  let ?w = "w\<lparr>cur := Some g\<rparr>"
  have ok: "chan_ok (chans w c)" and inv: "chan_inv ?w"
    using assms(1) by (simp_all add: plain_open_def chan_inv_def)
  have w': "w' = snd (send run c v ?w)" and out: "out = handed_over (recvQueue (chans w c)) w'"
    using assms(2) by (auto simp: chan_put_def a Let_def)
  have inv': "chan_inv w'" unfolding w' by (rule send_inv [OF inv]) simp
  show ?thesis
  proof (cases "recvQueue (chans w c)")
    case (Cons r rs)
    then obtain h where r: "r = Receiver h" using assms(1) by (auto simp: plain_open_def)
    have e: "buffer (chans w c) = []" "sendQueue (chans w c) = []"
      using ok Cons assms(1) r by (auto simp: chan_ok_def plain_open_def neq_Nil_conv)
    have w1: "w' = wake h ((upd_chan c (\<lambda>ch. ch\<lparr>recvQueue := rs\<rparr>) ?w)\<lparr>recv_val := (recv_val w)(h := Some (v, True))\<rparr>)"
      using Cons r assms(1) by (simp add: w' send_def wake_receiver_def plain_open_def upd_chan_def)
    then have "recv_val w' h = Some (v, True)" "woken h w'" by simp_all
    then have "out = [v]" by (simp add: out Cons r handed_over_def resume_recv_def woken_def)
    moreover have "chans w' c = (chans w c)\<lparr>recvQueue := rs\<rparr>" by (simp add: w1)
    ultimately show ?thesis using assms(1) inv' Cons e by (simp add: plain_open_def chan_content_def a)
  next
    case Nil
    have "chans w' c = (if length (buffer (chans w c)) < capacity (chans w c)
        then (chans w c)\<lparr>buffer := buffer (chans w c) @ [v]\<rparr>
        else (chans w c)\<lparr>sendQueue := sendQueue (chans w c) @ [Sender g v]\<rparr>)"
      using Nil assms(1) by (simp add: w' send_def plain_open_def block_with_inside self_def push_sender_def)
    moreover have "sendQueue (chans w c) = []" if "length (buffer (chans w c)) < capacity (chans w c)"
      using ok that by (auto simp: chan_ok_def)
    ultimately show ?thesis using assms(1) inv' Nil out
      by (auto simp: plain_open_def chan_content_def handed_over_def a)
  qed
qed

lemma plain_open_get:
  assumes "plain_open c w" "chan_get run c g w = (out, w')"
  shows "plain_open c w' \<and> out @ chan_content c w' = chan_content c w"
proof -
  let ?w = "w\<lparr>cur := Some g\<rparr>"
  have ok: "chan_ok (chans w c)" and inv: "chan_inv ?w"
    using assms(1) by (simp_all add: plain_open_def chan_inv_def)
  have w': "w' = snd (recv run c ?w)"
    using assms(2) by (auto simp: chan_get_def split: prod.splits sum.splits outcome.splits bool.splits)
  have inv': "chan_inv w'" unfolding w' by (rule recv_inv [OF inv]) simp
  show ?thesis
  proof (cases "sendQueue (chans w c)")
    case Nil
    show ?thesis
    proof (cases "buffer (chans w c)")
      case b: Nil
      then have "out = [] \<and> chans w' c = (chans w c)\<lparr>recvQueue := recvQueue (chans w c) @ [Receiver g]\<rparr>"
        using Nil assms by (auto simp: chan_get_def recv_def take_sender_def plain_open_def block_with_inside
            self_def push_receiver_def)
      then show ?thesis using assms(1) inv' Nil b by (auto simp: plain_open_def chan_content_def)
    next
      case (Cons v vs)
      then have "out = [v] \<and> chans w' c = (chans w c)\<lparr>buffer := vs\<rparr>"
        using Nil assms by (auto simp: chan_get_def recv_def take_sender_def)
      then show ?thesis using assms(1) inv' Nil Cons by (auto simp: plain_open_def chan_content_def)
    qed
  next
    case (Cons s ss)
    then obtain h v where s: "s = Sender h v" using assms(1) by (auto simp: plain_open_def)
    define w1 where "w1 = wake h ((upd_chan c (\<lambda>ch. ch\<lparr>sendQueue := ss\<rparr>) ?w)\<lparr>send_closed := (send_closed w)(h := Some False)\<rparr>)"
    have w1: "chans w1 = (chans w)(c := (chans w c)\<lparr>sendQueue := ss\<rparr>)" by (simp add: w1_def)
    have "take_sender run c ?w = (Inr (), upd_chan c (\<lambda>ch. ch\<lparr>buffer := buffer ch @ [v]\<rparr>) w1)"
      using Cons s by (simp add: take_sender_def fire_sender_def w1_def)
    then have "recv run c ?w = (Inr (Got (hd (buffer (chans w c) @ [v])) True),
        upd_chan c (\<lambda>ch. ch\<lparr>buffer := tl (buffer (chans w c) @ [v])\<rparr>) (upd_chan c (\<lambda>ch. ch\<lparr>buffer := buffer ch @ [v]\<rparr>) w1))"
      by (cases "buffer (chans w c)") (simp_all add: recv_def w1)
    then have o: "out = [hd (buffer (chans w c) @ [v])]"
      and ch: "chans w' c = (chans w c)\<lparr>sendQueue := ss, buffer := tl (buffer (chans w c) @ [v])\<rparr>"
      using assms(2) w' by (simp_all add: chan_get_def w1)
    have "out @ chan_content c w' = chan_content c w"
      using Cons s by (cases "buffer (chans w c)") (simp_all add: o chan_content_def ch)
    moreover have "plain_open c w'"
      using assms(1) inv' Cons by (simp add: plain_open_def ch)
    ultimately show ?thesis by simp
  qed
qed

interpretation chan_fifo: fifo "plain_open c" "chan_content c" "\<lambda>gv. [snd gv]" "chan_put run c" "chan_get run c" for run c
  by (unfold_locales; (rule plain_open_put plain_open_get; assumption))

section \<open>Properties\<close>

text \<open>
  C10: on an open channel without \<open>$select\<close> waiters, whatever goroutines send and receive in whatever
  order, buffered or not, the values come out in the order they went in: the values received (given by
  \<open>$recv\<close> at once, or handed by \<open>$send\<close> to the waiting \<open>$recv\<close> whose goroutine it wakes), followed by what the buffer and the blocked senders
  still hold, are what was there before followed by the values sent, none lost and none repeated.
\<close>

theorem channel_fifo:
  assumes "plain_open c w" "fifo_run (chan_put run c) (chan_get run c) (\<lambda>gv. [snd gv]) ops w = (sent, received, w')"
  shows "chan_content c w @ sent = received @ chan_content c w' \<and> plain_open c w'"
  using chan_fifo.run_order [OF assms] by simp

theorem channel_fifo_witness:
  "\<exists>w'. fifo_run (chan_put id 0) (chan_get id 0) (\<lambda>gv. [snd gv]) [Inr 2, Inl (1, 10), Inl (1, 11), Inl (1, 12), Inr 2] demo_world
          = ([10, 11, 12], [10, 11], w') \<and>
        chan_content 0 w' = [12]"
proof -
  let ?ops = "[Inr 2, Inl (1, 10), Inl (1, 11), Inl (1, 12), Inr 2]"
  have "plain_open 0 demo_world" by (simp add: plain_open_def chan_inv_def chan_ok_def)
  moreover obtain w' where r: "fifo_run (chan_put id 0) (chan_get id 0) (\<lambda>gv. [snd gv]) ?ops demo_world = ([10, 11, 12], [10, 11], w')"
    by (simp add: chan_put_def chan_get_def send_def recv_def take_sender_def fire_sender_def block_with_def block_def
        push_sender_def push_receiver_def self_def wake_receiver_def handed_over_def resume_recv_def wake_def upd_chan_def Let_def)
  ultimately have "chan_content 0 w' = [12]"
    using channel_fifo [of 0 demo_world id ?ops "[10, 11, 12]" "[10, 11]" w']
    by (simp add: chan_content_def)
  with r show ?thesis by blast
qed

text \<open>
  C16: no channel operation of a goroutine breaks the channel invariant, be it a send, a receive, a select or a close, with
  or without a panic (a close that meets a \<open>$select\<close> waiting to send is the exception: its panic leaves the waiters behind
  on the closed channel, \<open>close_chan_select_panics\<close>), so between operations a channel never has a sender and a receiver
  both waiting (unless both are cases of one \<open>$select\<close>), never has a receiver waiting while a value is buffered nor
  a sender waiting while the buffer has room, and never has a waiter once it is closed.
\<close>

theorem no_missed_rendezvous:
  assumes "chan_inv w" "cur w = Some g"
    and "w' = snd (send run c v w) \<or> w' = snd (recv run c w) \<or> w' = snd (select run pick cs w) \<or>
         close_chan run c w = Some (res, w') \<and> (closed (chans w c) \<or> (\<forall>s \<in> set (sendQueue (chans w c)). \<not> is_sel_sender s))"
  shows "chan_inv w' \<and>
    \<not> (Receiver r \<in> set (recvQueue (chans w' d)) \<and> (sendQueue (chans w' d) \<noteq> [] \<or> buffer (chans w' d) \<noteq> [])) \<and>
    \<not> (sendQueue (chans w' d) \<noteq> [] \<and> length (buffer (chans w' d)) < capacity (chans w' d)) \<and>
    \<not> (closed (chans w' d) \<and> (sendQueue (chans w' d) \<noteq> [] \<or> recvQueue (chans w' d) \<noteq> []))"
proof -
  have cl: "chan_inv w'" if cl: "close_chan run c w = Some (res, w')"
    "closed (chans w c) \<or> (\<forall>s \<in> set (sendQueue (chans w c)). \<not> is_sel_sender s)"
  proof (cases "closed (chans w c)")
    case True
    then show ?thesis using cl(1) assms(1) by (simp add: close_chan_def)
  next
    case False
    then obtain w1 where "close_chan run c w = Some (Inr (), w1)" using close_chan_open [OF assms(2)] cl(2) by metis
    then show ?thesis using close_chan_inv [OF assms(1,2)] cl(1) by simp
  qed
  have inv: "chan_inv w'"
    using assms(3) send_inv [OF assms(1,2)] recv_inv [OF assms(1,2)] cl select_inv [OF assms(1,2)] by blast
  then have ok: "chan_ok (chans w' d)" by (simp add: chan_inv_def)
  have "sendQueue (chans w' d) = [] \<and> buffer (chans w' d) = []" if r: "Receiver r \<in> set (recvQueue (chans w' d))"
  proof -
    have "s \<notin> set (sendQueue (chans w' d))" for s using ok r unfolding chan_ok_def by blast
    moreover have "recvQueue (chans w' d) \<noteq> []" using r by auto
    ultimately show ?thesis using ok by (cases "sendQueue (chans w' d)") (auto simp: chan_ok_def)
  qed
  moreover have "length (buffer (chans w' d)) = capacity (chans w' d)" if "sendQueue (chans w' d) \<noteq> []"
    using ok that by (simp add: chan_ok_def)
  moreover have "sendQueue (chans w' d) = [] \<and> recvQueue (chans w' d) = []" if "closed (chans w' d)"
    using ok that by (simp add: chan_ok_def)
  ultimately show ?thesis using inv by auto
qed

lemma recv_demo:
  defines "w \<equiv> snd (recv id 0 (demo_world\<lparr>cur := Some 1\<rparr>))"
  shows "chan_inv w" "recvQueue (chans w 0) = [Receiver 1]" "sendQueue (chans w 0) = []" "\<not> closed (chans w 0)"
    "zero (chans w 0) = 0" "cur w = Some 1"
proof -
  have "chan_inv (demo_world\<lparr>cur := Some 1\<rparr>)" by (simp add: chan_inv_def chan_ok_def)
  then show "chan_inv w" unfolding w_def by (rule recv_inv) simp
qed (simp_all add: w_def recv_def take_sender_def block_with_def block_def push_receiver_def self_def)

theorem no_missed_rendezvous_witness:
  "\<exists>w'. close_chan id 0 (snd (recv id 0 (demo_world\<lparr>cur := Some 1\<rparr>))) = Some (Inr (), w') \<and> chan_inv w' \<and>
     chan_inv (snd (send id 0 7 (snd (recv id 0 (demo_world\<lparr>cur := Some 1\<rparr>)))))"
proof -
  let ?w = "snd (recv id 0 (demo_world\<lparr>cur := Some 1\<rparr>))"
  obtain w' where c: "close_chan id 0 ?w = Some (Inr (), w')"
    using close_chan_open [OF recv_demo(6), of 0 id] recv_demo(3,4) by (metis empty_iff list.set(1))
  have "chan_inv w'" using no_missed_rendezvous [OF recv_demo(1,6), of w' id 0 0 hd "[]" "Inr ()"] c recv_demo(3) by auto
  moreover have "chan_inv (snd (send id 0 7 ?w))"
    using no_missed_rendezvous [OF recv_demo(1,6), of "snd (send id 0 7 ?w)" id 0 7] by auto
  ultimately show ?thesis using c by blast
qed

theorem close_chan_correct_witness:
  "\<exists>w'. close_chan id 0 (snd (recv id 0 (demo_world\<lparr>cur := Some 1\<rparr>))) = Some (Inr (), w') \<and>
        resume_recv 1 w' = Some (0, False) \<and> 1 \<in> set (scheduled w') \<and> \<not> g_asleep w' 1"
  using close_chan_correct [OF recv_demo(1,6), of 0 id] recv_demo(2-5) by auto

text \<open>
  A value is never received from a channel that is closed and drained, and never lost by closing:
  receiving from a closed channel gives the buffered values in order with \<open>ok\<close> true, and after them the
  zero value with \<open>ok\<close> false, without blocking; sending panics.
\<close>

theorem closed_channel:
  assumes "chan_inv w" "closed (chans w c)"
  shows "recv run c w = (case buffer (chans w c) of
       v # vs \<Rightarrow> (Inr (Got v True), upd_chan c (\<lambda>ch. ch\<lparr>buffer := vs\<rparr>) w)
     | [] \<Rightarrow> (Inr (Got (zero (chans w c)) False), w)) \<and>
    send run c v w = (Inl (RuntimeError ''send on closed channel''), w)"
proof -
  have "sendQueue (chans w c) = []" using assms by (auto simp: chan_inv_def chan_ok_def)
  then show ?thesis using assms(2) by (auto simp: recv_def take_sender_def send_def split: list.splits)
qed

theorem closed_channel_witness:
  "fst (recv id 0 (upd_chan 0 (\<lambda>ch. ch\<lparr>closed := True, buffer := [7]\<rparr>) demo_world)) = Inr (Got 7 True)"
proof -
  let ?w = "upd_chan 0 (\<lambda>ch. ch\<lparr>closed := True, buffer := [7]\<rparr>) demo_world"
  have "chan_inv ?w" by (simp add: chan_inv_def chan_ok_def)
  from closed_channel [OF this, of 0 id] show ?thesis by simp
qed

end
