(* ===== verification/Bytealg.thy ===== *)
theory Bytealg
  imports Encoding_Binary
begin

text \<open>
  Package \<open>internal/bytealg\<close>: comparison and search of bytes.  A slice is read through its contents, the list of
  its elements; \<open>js_index\<close> is the bundle's checked access.  \<open>Index\<close> and \<open>Cutover\<close> of this build only panic
  and \<open>MaxLen\<close> is 0, so that no caller reaches them.
\<close>

definition MaxLen :: int where "MaxLen = 0"

definition bytealg_Index :: "int list \<Rightarrow> int list \<Rightarrow> int res" where
  "bytealg_Index b c = Inl (Panic ''unimplemented'')"

definition Cutover :: "int \<Rightarrow> int res" where
  "Cutover b = Inl (Panic ''unimplemented'')"

text \<open>The loop of \<open>Equal\<close> from position \<open>e\<close>.\<close>

function equal_from :: "int list \<Rightarrow> int list \<Rightarrow> nat \<Rightarrow> bool res" where
  "equal_from b c e =
     (if \<not> e < length b then Inr True
      else res_bind (js_index b (int e)) (\<lambda>g. res_bind (js_index c (int e)) (\<lambda>h. if g \<noteq> h then Inr False else equal_from b c (e + 1))))"
  by pat_completeness auto
termination by (relation "measure (\<lambda>(b, c, e). length b - e)") auto

declare equal_from.simps [simp del]

definition bytealg_Equal :: "int list \<Rightarrow> int list \<Rightarrow> bool res" where
  "bytealg_Equal b c = (if length b \<noteq> length c then Inr False else equal_from b c 0)"

text \<open>The loop of \<open>IndexByteString\<close>; the counter is an \<open>int\<close> of 32 bits.\<close>

function index_byte_from :: "int list \<Rightarrow> int \<Rightarrow> nat \<Rightarrow> int" where
  "index_byte_from b c d = (if \<not> d < length b then -1 else if b ! d = c then int d else index_byte_from b c (d + 1))"
  by pat_completeness auto
termination by (relation "measure (\<lambda>(b, c, d). length b - d)") auto

declare index_byte_from.simps [simp del]

definition IndexByteString :: "int list \<Rightarrow> int \<Rightarrow> int" where
  "IndexByteString b c = index_byte_from b c 0"

lemma js_index_nat: "k < length xs \<Longrightarrow> js_index xs (int k) = Inr (xs ! k)"
  by (simp add: js_index_def)

lemma equal_from_spec: "length b = length c \<Longrightarrow> equal_from b c e = Inr (drop e b = drop e c)"
proof (induction b c e rule: equal_from.induct)
  case (1 b c e)
  show ?case
  proof (cases "e < length b")
    case True
    then have "drop e b = b ! e # drop (Suc e) b" "drop e c = c ! e # drop (Suc e) c"
      using 1(2) by (simp_all add: Cons_nth_drop_Suc)
    then show ?thesis using 1 True by (subst equal_from.simps) (auto simp: js_index_nat)
  qed (use 1(2) in \<open>subst equal_from.simps, simp\<close>)
qed

lemma bytealg_Equal_spec: "bytealg_Equal b c = Inr (b = c)"
  by (auto simp: bytealg_Equal_def equal_from_spec)


end
