(* ===== verification/Bytes_Index.thy ===== *)
theory Bytes_Index
  imports Bytealg Js_Bits
begin

text \<open>
  Searching in byte slices: \<open>IndexByte\<close>, \<open>Equal\<close>, \<open>HasPrefix\<close> and \<open>Index\<close> of package \<open>bytes\<close>, with the
  Rabin-Karp search \<open>Index\<close> falls back to.  A slice is the list of its elements, its capacity its length; a
  slice expression outside the bounds panics.
\<close>

definition js_sub :: "'a list \<Rightarrow> int \<Rightarrow> int \<Rightarrow> 'a list res" where
  "js_sub xs lo hi =
     (if lo < 0 \<or> hi < lo \<or> int (length xs) < hi then Inl (RuntimeError ''slice bounds out of range'')
      else Inr (take (nat (hi - lo)) (drop (nat lo) xs)))"

definition IndexByte :: "int list \<Rightarrow> int \<Rightarrow> int" where
  "IndexByte d e = index_byte_from d e 0"

definition bytes_Equal :: "int list \<Rightarrow> int list \<Rightarrow> bool res" where
  "bytes_Equal d e = (if length d \<noteq> length e then Inr False else equal_from d e 0)"

definition bytes_HasPrefix :: "int list \<Rightarrow> int list \<Rightarrow> bool res" where
  "bytes_HasPrefix d e =
     (if length d \<ge> length e then res_bind (js_sub d 0 (int (length e))) (\<lambda>w. bytes_Equal w e) else Inr False)"

section \<open>Rabin-Karp\<close>

definition hash_step :: "int \<Rightarrow> int \<Rightarrow> int" where
  "hash_step j b = js_shr (js_shr (js_imul j 16777619) 0 + js_shr b 0) 0"

text \<open>The powering loop of \<open>hashStr\<close>: the accumulator \<open>i\<close>, the square \<open>j\<close>, the exponent \<open>k\<close>.\<close>

function hash_pow :: "int \<Rightarrow> int \<Rightarrow> int \<Rightarrow> int" where
  "hash_pow i j k =
     (if \<not> k > 0 then i
      else hash_pow (if js_and k 1 \<noteq> 0 then js_shr (js_imul i j) 0 else i) (js_shr (js_imul j j) 0) (js_sar k 1))"
  by pat_completeness auto
termination
proof (relation "measure (\<lambda>(i, j, k). nat k)", goal_cases)
  case (2 i j k)
  have "js_sar k 1 < k"
  proof (cases "k < 2 ^ 31")
    case True
    with 2 show ?thesis by (simp add: js_sar_eq ToInt32_id)
  next
    case False
    have "ToInt32 k < 2 ^ 31" "- (2 ^ 31) \<le> ToInt32 k" using ToInt32_range by auto
    then have "js_sar k 1 < 2 ^ 31" by (simp add: js_sar_eq)
    with False show ?thesis by simp
  qed
  with 2 show ?case by simp
qed simp

declare hash_pow.simps [simp del]

definition hashStr :: "int list \<Rightarrow> int \<times> int" where
  "hashStr d = (foldl hash_step 0 d, hash_pow 1 16777619 (int (length d)))"

definition roll :: "int \<Rightarrow> int \<Rightarrow> int \<Rightarrow> int \<Rightarrow> int" where
  "roll j h new old =
     (let j = js_shr (js_imul j 16777619) 0; j = js_shr (j + js_shr new 0) 0
      in js_shr (j - js_shr (js_imul h (js_shr old 0)) 0) 0)"

text \<open>The second loop of \<open>indexRabinKarp\<close>: the window ends at \<open>l\<close>, its hash is \<open>j\<close>.\<close>

function rk_loop :: "int list \<Rightarrow> int list \<Rightarrow> int \<Rightarrow> int \<Rightarrow> int \<Rightarrow> int \<Rightarrow> int res" where
  "rk_loop d e g h j l =
     (let i = int (length e) in
      if \<not> l < int (length d) then Inr (-1)
      else res_bind (js_index d l) (\<lambda>new. res_bind (js_index d (l - i)) (\<lambda>old.
        let j' = roll j h new old; l' = l + 1 in
        res_bind (if j' = g then res_bind (js_sub d (l' - i) l') (\<lambda>w. bytes_Equal w e) else Inr False) (\<lambda>hit.
        if hit then Inr (l' - i) else rk_loop d e g h j' l'))))"
  by pat_completeness auto
termination by (relation "measure (\<lambda>(d, e, g, h, j, l). nat (int (length d) - l))") auto

declare rk_loop.simps [simp del]

definition indexRabinKarp :: "int list \<Rightarrow> int list \<Rightarrow> int res" where
  "indexRabinKarp d e =
     (let (g, h) = hashStr e; i = int (length e) in
      res_bind (js_sub d 0 i) (\<lambda>w.
      let j = foldl hash_step 0 w in
      res_bind (if j = g then bytes_Equal w e else Inr False) (\<lambda>hit. if hit then Inr 0 else rk_loop d e g h j i)))"

section \<open>\<open>Index\<close>\<close>

text \<open>
  One turn of the last loop of \<open>Index\<close>: a result, or the next \<open>q\<close> and \<open>r\<close>.  A failed \<open>IndexByte\<close> leaves the
  loop, and the function returns -1.
\<close>

definition index_turn :: "int list \<Rightarrow> int list \<Rightarrow> int \<Rightarrow> int \<Rightarrow> int \<Rightarrow> int \<Rightarrow> int \<Rightarrow> (int + int \<times> int) res" where
  "index_turn d e c p s q r =
     res_bind (js_index d q) (\<lambda>x.
     res_bind (if x \<noteq> c then res_bind (js_sub d q s) (\<lambda>w. Inr (IndexByte w c)) else Inr 0) (\<lambda>t.
     if t < 0 then Inr (Inl (-1)) else
     let q = q + t in
     res_bind (js_index d (q + 1)) (\<lambda>y.
     res_bind (if y = p then res_bind (js_sub d q (q + int (length e))) (\<lambda>w. bytes_Equal w e) else Inr False) (\<lambda>hit.
     if hit then Inr (Inl q) else
     let q = q + 1; r = r + 1 in
     if r \<ge> 4 + js_sar q 4 \<and> q < s then
       res_bind (js_sub d q (int (length d))) (\<lambda>w.
       res_bind (indexRabinKarp w e) (\<lambda>v. Inr (Inl (if v < 0 then -1 else q + v))))
     else Inr (Inr (q, r))))))"

lemma index_turn_next: "index_turn d e c p s q r = Inr (Inr (q', r')) \<Longrightarrow> q < q'"
  by (auto simp: index_turn_def res_bind_Inr_iff Let_def split: if_splits)

function index_loop :: "int list \<Rightarrow> int list \<Rightarrow> int \<Rightarrow> int \<Rightarrow> int \<Rightarrow> int \<Rightarrow> int \<Rightarrow> int res" where
  "index_loop d e c p s q r =
     (if \<not> q < s then Inr (-1)
      else case index_turn d e c p s q r of Inl x \<Rightarrow> Inl x | Inr (Inl v) \<Rightarrow> Inr v | Inr (Inr (q', r')) \<Rightarrow> index_loop d e c p s q' r')"
  by pat_completeness auto
termination by (relation "measure (\<lambda>(d, e, c, p, s, q, r). nat (s - q))") (auto dest: index_turn_next)

declare index_loop.simps [simp del]

text \<open>
  The branch for a pattern of at most \<open>MaxLen\<close> bytes: its loop ends in its first turn at the latest, by returning
  or by the panic of \<open>Cutover\<close>.
\<close>

definition index_short :: "int list \<Rightarrow> int list \<Rightarrow> int res" where
  "index_short d e =
     (if int (length d) \<le> 0 then bytealg_Index d e else
      res_bind (js_index e 0) (\<lambda>g. res_bind (js_index e 1) (\<lambda>h.
      let j = int (length d) - int (length e) + 1 in
      if \<not> 0 < j then Inr (-1) else
      res_bind (js_index d 0) (\<lambda>x.
      res_bind (if x \<noteq> g then res_bind (js_sub d 0 j) (\<lambda>w. Inr (IndexByte w g)) else Inr 0) (\<lambda>l.
      if l < 0 then Inr (-1) else
      res_bind (js_index d (l + 1)) (\<lambda>y.
      res_bind (if y = h then res_bind (js_sub d l (l + int (length e))) (\<lambda>w. bytes_Equal w e) else Inr False) (\<lambda>hit.
      if hit then Inr l else Cutover (l + 1))))))))"

definition bytes_Index :: "int list \<Rightarrow> int list \<Rightarrow> int res" where
  "bytes_Index d e =
     (let f = int (length e) in
      if f = 0 then Inr 0
      else if f = 1 then res_bind (js_index e 0) (\<lambda>c. Inr (IndexByte d c))
      else if f = int (length d) then res_bind (bytes_Equal e d) (\<lambda>b. if b then Inr 0 else Inr (-1))
      else if f > int (length d) then Inr (-1)
      else if f \<le> MaxLen then index_short d e
      else res_bind (js_index e 0) (\<lambda>c. res_bind (js_index e 1) (\<lambda>p.
        index_loop d e c p (int (length d) - f + 1) 0 0)))"

section \<open>First occurrences\<close>

text \<open>\<open>r\<close> is the least number below \<open>n\<close> with property \<open>P\<close>, or -1 when there is none.\<close>

definition first_at :: "(nat \<Rightarrow> bool) \<Rightarrow> nat \<Rightarrow> int \<Rightarrow> bool" where
  "first_at P n r \<longleftrightarrow> (r = -1 \<and> (\<forall>i < n. \<not> P i)) \<or> (\<exists>i < n. r = int i \<and> P i \<and> (\<forall>j < i. \<not> P j))"

definition occurs :: "int list \<Rightarrow> int list \<Rightarrow> nat \<Rightarrow> bool" where
  "occurs d e i \<longleftrightarrow> i + length e \<le> length d \<and> take (length e) (drop i d) = e"

lemma first_atI: "P i \<Longrightarrow> i < n \<Longrightarrow> \<forall>j < i. \<not> P j \<Longrightarrow> first_at P n (int i)"
  by (auto simp: first_at_def)

lemma first_at_none: "\<forall>i < n. \<not> P i \<Longrightarrow> first_at P n (-1)"
  by (simp add: first_at_def)

lemma index_byte_from_spec: "(\<And>i. i < k \<Longrightarrow> b ! i \<noteq> c) \<Longrightarrow> k \<le> length b \<Longrightarrow>
    first_at (\<lambda>i. b ! i = c) (length b) (index_byte_from b c k)"
proof (induction b c k rule: index_byte_from.induct)
  case (1 b c k)
  show ?case
  proof (cases "k < length b \<and> b ! k \<noteq> c")
    case True
    then have "first_at (\<lambda>i. b ! i = c) (length b) (index_byte_from b c (k + 1))"
      using 1(2) by (intro 1(1)) (auto simp: less_Suc_eq)
    then show ?thesis using True by (subst index_byte_from.simps) simp
  next
    case False
    then show ?thesis using 1(2,3) by (subst index_byte_from.simps) (auto simp: first_at_def)
  qed
qed

lemma IndexByte_first: "first_at (\<lambda>i. b ! i = c) (length b) (IndexByte b c)"
  unfolding IndexByte_def by (rule index_byte_from_spec) simp_all

lemma bytes_Equal_spec: "bytes_Equal d e = Inr (d = e)"
  by (auto simp: bytes_Equal_def equal_from_spec)

lemma js_sub_ok: "0 \<le> lo \<Longrightarrow> lo \<le> hi \<Longrightarrow> hi \<le> int (length xs) \<Longrightarrow> js_sub xs lo hi = Inr (take (nat (hi - lo)) (drop (nat lo) xs))"
  by (simp add: js_sub_def)

lemma js_sub_nat: "k \<le> n \<Longrightarrow> n \<le> length xs \<Longrightarrow> js_sub xs (int k) (int n) = Inr (take (n - k) (drop k xs))"
  by (simp add: js_sub_ok flip: of_nat_diff)

lemma bytes_HasPrefix_spec: "bytes_HasPrefix d e = Inr (take (length e) d = e)"
  by (auto simp: bytes_HasPrefix_def js_sub_ok bytes_Equal_spec)

section \<open>The rolling hash\<close>

text \<open>The hash without the reduction modulo \<open>2 ^ 32\<close>.\<close>

abbreviation prime :: int where "prime \<equiv> 16777619"

definition hash_sum :: "int \<Rightarrow> int list \<Rightarrow> int" where
  "hash_sum a bs = foldl (\<lambda>j b. j * prime + b) a bs"

lemma imul_mod: "js_shr (js_imul x y) 0 = x * y mod 2 ^ 32"
  by (simp only: js_shr_0 js_imul_def ToInt32_mod)

lemma hash_step_mod: "hash_step (x mod 2 ^ 32) b = (x * prime + b) mod 2 ^ 32"
proof -
  have "hash_step (x mod 2 ^ 32) b = (x mod 2 ^ 32 * prime mod 2 ^ 32 + b mod 2 ^ 32) mod 2 ^ 32"
    unfolding hash_step_def imul_mod js_shr_0 [of b] js_shr_0 [of "_ + _"] ..
  then show ?thesis by (simp only: mod_add_eq mod_mult_left_eq)
qed

lemma foldl_hash: "foldl hash_step (a mod 2 ^ 32) bs = hash_sum a bs mod 2 ^ 32"
proof (induction bs arbitrary: a)
  case (Cons b bs)
  then show ?case unfolding foldl_Cons hash_step_mod hash_sum_def by simp
qed (simp add: hash_sum_def)

lemma hash_sum_init: "hash_sum a bs = a * prime ^ length bs + hash_sum 0 bs"
proof (induction bs arbitrary: a)
  case (Cons b bs)
  have "hash_sum a (b # bs) = (a * prime + b) * prime ^ length bs + hash_sum 0 bs" "hash_sum 0 (b # bs) = b * prime ^ length bs + hash_sum 0 bs"
    using Cons [of "a * prime + b"] Cons [of b] by (simp_all add: hash_sum_def)
  then show ?case by (simp add: algebra_simps)
qed (simp add: hash_sum_def)

lemma hash_pow_mod:
  "0 \<le> k \<Longrightarrow> k < 2 ^ 31 \<Longrightarrow> hash_pow (x mod 2 ^ 32) (y mod 2 ^ 32) k = x * y ^ nat k mod 2 ^ 32"
proof (induction "nat k" arbitrary: k x y rule: less_induct)
  case less
  show ?case
  proof (cases "k > 0")
    case True
    have h: "js_sar k (Suc 0) = k div 2" "js_and k 1 = k mod 2"
      using less(2,3) js_sar_div [of k 1] js_and_masks(1) [of k] by simp_all
    let ?x = "if k mod 2 \<noteq> 0 then x * y else x"
    have "hash_pow (x mod 2 ^ 32) (y mod 2 ^ 32) k = hash_pow (?x mod 2 ^ 32) (y * y mod 2 ^ 32) (k div 2)"
      using True by (subst hash_pow.simps) (simp add: h imul_mod mod_mult_eq)
    also have "\<dots> = ?x * (y * y) ^ nat (k div 2) mod 2 ^ 32"
      using True less(2,3) by (intro less(1)) simp_all
    also have "?x * (y * y) ^ nat (k div 2) = x * y ^ nat k"
    proof -
      have "k = 2 * (k div 2) + k mod 2" by simp
      then have "nat k = 2 * nat (k div 2) + nat (k mod 2)" using True by linarith
      then have "y ^ nat k = (y * y) ^ nat (k div 2) * y ^ nat (k mod 2)"
        by (simp only: power_add power_mult power2_eq_square)
      moreover have "k mod 2 = 0 \<or> k mod 2 = 1" by linarith
      ultimately show ?thesis by auto
    qed
    finally show ?thesis .
  qed (use less in \<open>simp add: hash_pow.simps\<close>)
qed

lemma hashStr_mod: "length e < 2 ^ 31 \<Longrightarrow> hashStr e = (hash_sum 0 e mod 2 ^ 32, prime ^ length e mod 2 ^ 32)"
  using foldl_hash [of 0 e] hash_pow_mod [of "int (length e)" 1 prime] by (simp add: hashStr_def)

lemma roll_mod: "roll (x mod 2 ^ 32) (y mod 2 ^ 32) new old = (x * prime + new - y * old) mod 2 ^ 32"
proof -
  have "roll (x mod 2 ^ 32) (y mod 2 ^ 32) new old =
      ((x mod 2 ^ 32 * prime mod 2 ^ 32 + new mod 2 ^ 32) mod 2 ^ 32 - y mod 2 ^ 32 * (old mod 2 ^ 32) mod 2 ^ 32) mod 2 ^ 32"
    unfolding roll_def Let_def imul_mod unfolding js_shr_0 ..
  moreover have "(z - y * (old mod 2 ^ 32)) mod 2 ^ 32 = (z - y * old) mod 2 ^ 32" for z
    by (metis mod_diff_right_eq mod_mult_right_eq)
  ultimately show ?thesis by (simp only: mod_add_eq mod_mult_left_eq mod_diff_eq)
qed

text \<open>Moving the window by one byte.\<close>

lemma hash_window: "hash_sum 0 (ws @ [b]) = hash_sum 0 (a # ws) * prime + b - prime ^ length (a # ws) * a"
proof -
  have "hash_sum 0 (a # ws) = a * prime ^ length ws + hash_sum 0 ws" using hash_sum_init [of a ws] by (simp add: hash_sum_def)
  moreover have "hash_sum 0 (ws @ [b]) = hash_sum 0 ws * prime + b" by (simp add: hash_sum_def)
  ultimately show ?thesis by (simp add: algebra_simps)
qed

definition window :: "int list \<Rightarrow> nat \<Rightarrow> nat \<Rightarrow> int list" where
  "window d n i = take n (drop i d)"

lemma occurs_window: "i + length e \<le> length d \<Longrightarrow> occurs d e i \<longleftrightarrow> window d (length e) i = e"
  by (simp add: occurs_def window_def)

lemma window_next:
  assumes "0 < n" "i + n < length d"
  shows "\<exists>ws. window d n i = d ! i # ws \<and> window d n (Suc i) = ws @ [d ! (i + n)] \<and> length (d ! i # ws) = n"
proof -
  obtain m where n: "n = Suc m" using assms(1) gr0_implies_Suc by blast
  show ?thesis
  proof (intro exI conjI)
  show "window d n i = d ! i # take m (drop (Suc i) d)"
    using assms(2) by (simp add: window_def n Cons_nth_drop_Suc [symmetric])
  show "window d n (Suc i) = take m (drop (Suc i) d) @ [d ! (i + n)]"
    using assms(2) by (simp add: window_def n take_Suc_conv_app_nth)
  show "length (d ! i # take m (drop (Suc i) d)) = n" using assms(2) by (simp add: n)
  qed
qed

lemma rk_loop_step:
  assumes "i + length e < length d"
  shows "rk_loop d e g h j (int (i + length e)) =
    (let j' = roll j h (d ! (i + length e)) (d ! i) in
     if j' = g \<and> window d (length e) (Suc i) = e then Inr (int (Suc i)) else rk_loop d e g h j' (int (Suc i + length e)))"
proof -
  let ?n = "length e"
  have n: "int (i + ?n) - int ?n = int i" "int (i + ?n) + 1 = int (Suc i + ?n)" "int (Suc i + ?n) - int ?n = int (Suc i)" by simp_all
  have w: "js_sub d (int (Suc i)) (int (Suc i + ?n)) = Inr (window d ?n (Suc i))"
    using assms nat_int [of "Suc i"] by (subst js_sub_ok) (simp_all add: window_def)
  have x: "js_index d (int (i + ?n)) = Inr (d ! (i + ?n))" "js_index d (int i) = Inr (d ! i)" using assms by (simp_all only: js_index_nat)
  have l: "(int (i + ?n) < int (length d)) = True" using assms by simp
  show ?thesis
    by (subst rk_loop.simps) (simp only: Let_def l n x w bytes_Equal_spec res_bind_simps not_True_eq_False if_False split: if_split, simp)
qed

lemma rk_loop_first:
  assumes "length e < 2 ^ 31" "0 < length e"
  shows "i + length e \<le> length d \<Longrightarrow> (\<forall>k \<le> i. \<not> occurs d e k) \<Longrightarrow>
    \<exists>r. rk_loop d e (hash_sum 0 e mod 2 ^ 32) (prime ^ length e mod 2 ^ 32) (hash_sum 0 (window d (length e) i) mod 2 ^ 32)
      (int (i + length e)) = Inr r \<and> first_at (occurs d e) (length d) r"
proof (induction "length d - i" arbitrary: i rule: less_induct)
  case less
  let ?n = "length e" and ?g = "hash_sum 0 e mod 2 ^ 32" and ?h = "prime ^ length e mod 2 ^ 32"
  let ?j = "\<lambda>i. hash_sum 0 (window d ?n i) mod 2 ^ 32"
  show ?case
  proof (cases "i + ?n < length d")
    case True
    obtain ws where w: "window d ?n i = d ! i # ws" "window d ?n (Suc i) = ws @ [d ! (i + ?n)]" "length (d ! i # ws) = ?n"
      using window_next [OF assms(2) True] by blast
    have "roll (?j i) ?h (d ! (i + ?n)) (d ! i) = ?j (Suc i)"
      unfolding roll_mod w(1,2) hash_window [of ws _ "d ! i"] w(3) ..
    then have *: "rk_loop d e ?g ?h (?j i) (int (i + ?n)) =
        (if ?j (Suc i) = ?g \<and> window d ?n (Suc i) = e then Inr (int (Suc i)) else rk_loop d e ?g ?h (?j (Suc i)) (int (Suc i + ?n)))"
      by (simp only: rk_loop_step [OF True] Let_def)
    show ?thesis
    proof (cases "window d ?n (Suc i) = e")
      case hit: True
      then have "occurs d e (Suc i)" using True occurs_window [of "Suc i" e d] by simp
      then have "first_at (occurs d e) (length d) (int (Suc i))"
        using less(3) True assms(2) length_greater_0_conv [of e]
        by (intro first_atI) (auto simp: less_Suc_eq_le occurs_def simp del: length_greater_0_conv)
      then show ?thesis using * hit by auto
    next
      case False
      then have "\<not> occurs d e (Suc i)" using True occurs_window [of "Suc i" e d] by simp
      then have "\<forall>k \<le> Suc i. \<not> occurs d e k" using less(3) by (auto simp: le_Suc_eq)
      then show ?thesis using less(1) [of "Suc i"] True False * by simp
    qed
  next
    case False
    then have i: "i + ?n = length d" using less(2) by simp
    have "\<not> occurs d e k" for k using less(3) i by (cases "k \<le> i") (auto simp: occurs_def)
    then have "first_at (occurs d e) (length d) (-1)" by (simp add: first_at_def)
    then show ?thesis using i by (subst rk_loop.simps) simp
  qed
qed

lemma indexRabinKarp_first:
  assumes "length e < 2 ^ 31" "0 < length e" "length e \<le> length d"
  shows "\<exists>r. indexRabinKarp d e = Inr r \<and> first_at (occurs d e) (length d) r"
proof -
  let ?n = "length e" and ?g = "hash_sum 0 e mod 2 ^ 32" and ?h = "prime ^ length e mod 2 ^ 32"
  have w: "js_sub d 0 (int ?n) = Inr (window d ?n 0)" using assms(3) by (simp add: js_sub_ok window_def)
  have j: "foldl hash_step 0 (window d ?n 0) = hash_sum 0 (window d ?n 0) mod 2 ^ 32" using foldl_hash [of 0] by simp
  have *: "indexRabinKarp d e = (if window d ?n 0 = e then Inr 0 else rk_loop d e ?g ?h (hash_sum 0 (window d ?n 0) mod 2 ^ 32) (int ?n))"
    unfolding indexRabinKarp_def hashStr_mod [OF assms(1)] by (simp add: w j bytes_Equal_spec Let_def)
  show ?thesis
  proof (cases "window d ?n 0 = e")
    case True
    then have "first_at (occurs d e) (length d) 0" using assms occurs_window [of 0 e d] by (auto simp: first_at_def)
    then show ?thesis using * True by simp
  next
    case False
    then have "\<forall>k \<le> 0. \<not> occurs d e k" using assms occurs_window [of 0 e d] by simp
    then show ?thesis using * False rk_loop_first [OF assms(1,2), of 0 d] assms(3) by simp
  qed
qed

section \<open>\<open>Index\<close> finds the first occurrence\<close>

lemma first_at_shift:
  assumes "first_at (occurs (drop k d) e) n r" "\<forall>i < k. \<not> occurs d e i" "k \<le> length d" "n + k = m"
  shows "first_at (occurs d e) m (if r < 0 then -1 else int k + r)"
proof -
  have o: "occurs (drop k d) e i \<longleftrightarrow> occurs d e (k + i)" for i using assms(3) by (auto simp: occurs_def add.commute)
  consider "r = -1" "\<forall>i < n. \<not> occurs d e (k + i)" | i where "i < n" "r = int i" "occurs d e (k + i)" "\<forall>j < i. \<not> occurs d e (k + j)"
    using assms(1) unfolding first_at_def o by blast
  then show ?thesis
  proof cases
    case 1
    have "\<not> occurs d e i" if "i < m" for i
      using that assms(2,4) 1(2) [rule_format, of "i - k"] by (cases "i < k") auto
    then show ?thesis using 1(1) by (simp add: first_at_none)
  next
    case 2
    have "\<not> occurs d e j" if "j < k + i" for j
      using that assms(2) 2(4) [rule_format, of "j - k"] by (cases "j < k") auto
    then show ?thesis using 2(1-3) assms(4) first_atI [of "occurs d e" "k + i" m] by simp
  qed
qed

lemma not_occurs_head: "0 < length e \<Longrightarrow> i < length d \<Longrightarrow> d ! i \<noteq> e ! 0 \<Longrightarrow> \<not> occurs d e i"
  by (metis (no_types, lifting) occurs_def add_0_right nth_drop nth_take less_imp_le_nat)

text \<open>The skip to the next byte equal to the first of the pattern.\<close>

lemma index_skip:
  assumes "1 < length e" "k + length e \<le> length d" "\<forall>i < k. \<not> occurs d e i" "s = length d - length e + 1"
  shows "\<exists>t. (if d ! k \<noteq> e ! 0 then res_bind (js_sub d (int k) (int s)) (\<lambda>w. Inr (IndexByte w (e ! 0))) else Inr 0) = Inr t \<and>
    (t = -1 \<and> first_at (occurs d e) (length d) (-1) \<or> (\<exists>m. t = int m \<and> k + m < s \<and> (\<forall>i < k + m. \<not> occurs d e i)))"
proof (cases "d ! k = e ! 0")
  case True
  then show ?thesis using assms by (auto intro!: exI [of _ 0])
next
  case False
  have e: "0 < length e" using assms(1) by linarith
  let ?w = "take (s - k) (drop k d)"
  have w: "js_sub d (int k) (int s) = Inr ?w" using assms by (subst js_sub_nat) auto
  have l: "length ?w = s - k" "k < s" using assms by auto
  have x: "?w ! i = d ! (k + i)" if "i < s - k" for i using that assms by simp
  have late: "\<not> occurs d e i" if "s \<le> i" for i using that assms(1,2,4) by (auto simp: occurs_def)
  from IndexByte_first [of ?w "e ! 0"] consider "IndexByte ?w (e ! 0) = -1" "\<forall>i < s - k. d ! (k + i) \<noteq> e ! 0"
    | m where "m < s - k" "IndexByte ?w (e ! 0) = int m" "\<forall>i < m. d ! (k + i) \<noteq> e ! 0"
    unfolding first_at_def l(1) using x by fastforce
  then show ?thesis
  proof cases
    case 1
    have "\<not> occurs d e i" if "i < length d" for i
    proof (cases "i < k \<or> s \<le> i")
      case False
      then have "i - k < s - k" "k + (i - k) = i" by linarith+
      then show ?thesis using 1(2) [rule_format, of "i - k"] not_occurs_head [OF e that] by simp
    qed (use late assms(3) in auto)
    then show ?thesis using 1(1) w False by (simp add: first_at_none)
  next
    case 2
    have "\<not> occurs d e i" if "i < k + m" for i
    proof (cases "i < k")
      case False
      have "i < length d" using that 2(1) l assms(2,4) by linarith
      then show ?thesis using that False 2(3) [rule_format, of "i - k"] not_occurs_head [OF e, of i d] by simp
    qed (use assms(3) in auto)
    then show ?thesis using 2(1,2) w False by auto
  qed
qed

text \<open>What a turn of the loop establishes: a correct result, or a later position with nothing before it.\<close>

lemma index_turn_spec:
  assumes "length e < 2 ^ 31" "1 < length e" "k + length e \<le> length d" "\<forall>i < k. \<not> occurs d e i"
    and "s = length d - length e + 1"
  shows "\<exists>t. index_turn d e (e ! 0) (e ! 1) (int s) (int k) r = Inr t \<and>
    (case t of Inl v \<Rightarrow> first_at (occurs d e) (length d) v
     | Inr (q', r') \<Rightarrow> (\<exists>k'. q' = int k' \<and> k < k' \<and> (\<forall>i < k'. \<not> occurs d e i) \<and> k' \<le> s))"
proof -
  have k: "k < length d" using assms(2,3) by linarith
  obtain t where t: "(if d ! k \<noteq> e ! 0 then res_bind (js_sub d (int k) (int s)) (\<lambda>w. Inr (IndexByte w (e ! 0))) else Inr 0) = Inr t"
    and r: "t = -1 \<and> first_at (occurs d e) (length d) (-1) \<or> (\<exists>m. t = int m \<and> k + m < s \<and> (\<forall>i < k + m. \<not> occurs d e i))"
    using index_skip [OF assms(2-5)] by blast
  from r consider "t = -1" "first_at (occurs d e) (length d) (-1)" | m where "t = int m" "k + m < s" "\<forall>i < k + m. \<not> occurs d e i"
    by blast
  then show ?thesis
  proof cases
    case 1
    then show ?thesis using t k by (simp add: index_turn_def js_index_nat)
  next
    case 2
    define q where "q = k + m"
    have q: "q + length e \<le> length d" "q < s" "\<forall>i < q. \<not> occurs d e i" "int k + t = int q" "k \<le> q"
      using 2 assms(3,5) by (auto simp: q_def)
    have n: "int q + 1 = int (Suc q)" by simp
    have y: "js_index d (int (Suc q)) = Inr (d ! Suc q)" using q(1) assms(2) by (intro js_index_nat) linarith
    have w: "js_sub d (int q) (int q + int (length e)) = Inr (window d (length e) q)"
      using q(1) by (subst js_sub_ok) (simp_all add: window_def)
    have hit: "(if d ! Suc q = e ! 1 then res_bind (js_sub d (int q) (int q + int (length e))) (\<lambda>w. bytes_Equal w e) else Inr False)
        = Inr (occurs d e q)"
    proof -
      have "window d (length e) q ! 1 = d ! Suc q" using q(1) assms(2) by (simp add: window_def)
      then show ?thesis using occurs_window [OF q(1)] by (auto simp: w bytes_Equal_spec)
    qed
    have *: "index_turn d e (e ! 0) (e ! 1) (int s) (int k) r =
        (if occurs d e q then Inr (Inl (int q)) else
         if r + 1 \<ge> 4 + js_sar (int (Suc q)) 4 \<and> int (Suc q) < int s then
           res_bind (js_sub d (int (Suc q)) (int (length d))) (\<lambda>w.
           res_bind (indexRabinKarp w e) (\<lambda>v. Inr (Inl (if v < 0 then -1 else int (Suc q) + v))))
         else Inr (Inr (int (Suc q), r + 1)))"
    proof -
      have t0: "(t < 0) = False" using 2(1) by simp
      show ?thesis unfolding index_turn_def js_index_nat [OF k] res_bind_simps t t0 if_False Let_def q(4) n y hit ..
    qed
    show ?thesis
    proof (cases "occurs d e q")
      case True
      then show ?thesis unfolding * if_P [OF True] using q assms(2) by (simp add: first_atI)
    next
      case False
      then have none: "\<forall>i < Suc q. \<not> occurs d e i" using q(3) by (simp add: less_Suc_eq)
      show ?thesis
      proof (cases "r + 1 \<ge> 4 + js_sar (int (Suc q)) 4 \<and> int (Suc q) < int s")
        case True
        have d: "Suc q + length e \<le> length d" using True assms(3,5) by linarith
        obtain v where v: "indexRabinKarp (drop (Suc q) d) e = Inr v" "first_at (occurs (drop (Suc q) d) e) (length (drop (Suc q) d)) v"
          using indexRabinKarp_first [of e "drop (Suc q) d"] assms(1,2) d by fastforce
        have "first_at (occurs d e) (length d) (if v < 0 then -1 else int (Suc q) + v)"
          by (rule first_at_shift [OF v(2) none]) (use d in simp_all)
        moreover have "js_sub d (int (Suc q)) (int (length d)) = Inr (drop (Suc q) d)"
          using d nat_int [of "Suc q"] by (subst js_sub_ok) simp_all
        ultimately show ?thesis unfolding * using True False v(1) by simp
      next
        case nf: False
        show ?thesis unfolding * if_not_P [OF False] if_not_P [OF nf] using none q(2,5)
          by (auto intro!: exI [of _ "Suc q"])
      qed
    qed
  qed
qed

lemma index_loop_first:
  assumes "length e < 2 ^ 31" "1 < length e" "length e \<le> length d" "s = length d - length e + 1"
  shows "k \<le> s \<Longrightarrow> \<forall>i < k. \<not> occurs d e i \<Longrightarrow>
    \<exists>v. index_loop d e (e ! 0) (e ! 1) (int s) (int k) r = Inr v \<and> first_at (occurs d e) (length d) v"
proof (induction "s - k" arbitrary: k r rule: less_induct)
  case less
  show ?case
  proof (cases "k < s")
    case True
    then have "k + length e \<le> length d" using assms(3,4) by linarith
    from index_turn_spec [OF assms(1,2) this less(3) assms(4), of r] obtain t
      where t: "index_turn d e (e ! 0) (e ! 1) (int s) (int k) r = Inr t"
        "case t of Inl v \<Rightarrow> first_at (occurs d e) (length d) v
         | Inr (q', r') \<Rightarrow> (\<exists>k'. q' = int k' \<and> k < k' \<and> (\<forall>i < k'. \<not> occurs d e i) \<and> k' \<le> s)" by blast
    show ?thesis
    proof (cases t)
      case (Inl v)
      then show ?thesis using t True by (subst index_loop.simps) simp
    next
      case (Inr p)
      then obtain k' r' where k': "t = Inr (int k', r')" "k < k'" "\<forall>i < k'. \<not> occurs d e i" "k' \<le> s"
        using t(2) by (cases p) auto
      then show ?thesis using less(1) [of k' r'] t(1) True by (subst index_loop.simps) simp
    qed
  next
    case False
    have "\<not> occurs d e i" if "i < length d" for i
      using that less(2,3) False assms(3,4) by (cases "i < k") (auto simp: occurs_def)
    then show ?thesis using False by (subst index_loop.simps) (simp add: first_at_none)
  qed
qed

text \<open>C17: \<open>bytes.Index\<close>, through every one of its strategies (single byte, comparison, skip loop, Rabin-Karp with its
  32-bit rolling hash), terminates without a panic and returns the first occurrence of the pattern, -1 exactly when
  there is none.\<close>

theorem Index_first_occurrence:
  assumes "length e < 2 ^ 31"
  shows "\<exists>r. bytes_Index d e = Inr r \<and> first_at (occurs d e) (length d + 1) r"
proof -
  consider "length e = 0" | "length e = 1" | "1 < length e" "length e = length d" | "1 < length e" "length d < length e"
    | "1 < length e" "length e < length d" by linarith
  then show ?thesis
  proof cases
    case 1
    then show ?thesis using first_atI [of "occurs d e" 0] by (auto simp: bytes_Index_def occurs_def)
  next
    case 2
    then obtain c where e: "e = [c]" by (auto simp: length_Suc_conv)
    have o: "occurs d e i \<longleftrightarrow> i < length d \<and> d ! i = c" for i by (auto simp: occurs_def e take_Suc_conv_app_nth Suc_le_eq)
    show ?thesis using IndexByte_first [of d c] by (auto simp: bytes_Index_def e js_index_def first_at_def o [unfolded e] less_Suc_eq)
  next
    case 3
    then have "occurs d e i \<longleftrightarrow> i = 0 \<and> e = d" for i by (auto simp: occurs_def)
    then show ?thesis using 3 by (cases "e = d") (auto simp: bytes_Index_def bytes_Equal_spec first_at_def Let_def)
  next
    case 4
    then have "\<not> occurs d e i" for i by (auto simp: occurs_def)
    then have "first_at (occurs d e) (length d + 1) (-1)" by (simp add: first_at_none)
    moreover have "bytes_Index d e = Inr (-1)" using 4 by (auto simp: bytes_Index_def Let_def)
    ultimately show ?thesis by blast
  next
    case 5
    let ?s = "length d - length e + 1"
    have e: "e \<noteq> []" using 5 by auto
    then have "js_index e 0 = Inr (e ! 0)" "js_index e 1 = Inr (e ! 1)" using 5 js_index_nat [of 0 e] js_index_nat [of 1 e] by simp_all
    moreover have "int (length d) - int (length e) + 1 = int ?s" using 5 by simp
    ultimately have "bytes_Index d e = index_loop d e (e ! 0) (e ! 1) (int ?s) 0 0"
      using 5 e unfolding bytes_Index_def Let_def MaxLen_def by (simp add: algebra_simps)
    then obtain v where v: "bytes_Index d e = Inr v" "first_at (occurs d e) (length d) v"
      using index_loop_first [OF assms 5(1) less_imp_le [OF 5(2)] refl, of 0 0] by auto
    have "\<not> occurs d e (length d)" using e by (simp add: occurs_def)
    with v show ?thesis unfolding first_at_def by (auto simp: less_Suc_eq)
  qed
qed

theorem Index_first_occurrence_witness:
  "\<exists>r. bytes_Index [1, 2, 1, 2, 3, 1] [1, 2, 3] = Inr r \<and> first_at (occurs [1, 2, 1, 2, 3, 1] [1, 2, 3]) (length [1, 2, 1, 2, 3, 1::int] + 1) r"
  by (rule Index_first_occurrence) simp

end
