(* ===== verification/Net_Url.thy ===== *)
theory Net_Url
  imports Js_Bits Encoding_Binary
begin

text \<open>
  Percent-encoding of package \<open>net/url\<close>: \<open>shouldEscape\<close>, \<open>unescape\<close> and \<open>escape\<close>.  A string is the list
  of its bytes; the encoding mode is the number the bundle passes (1 path, 2 path segment, 3 host, 4 zone, 5 user and
  password, 6 query component, 7 fragment).
\<close>

datatype url_error = EscapeError "int list" | InvalidHostError "int list"

definition ishex :: "int \<Rightarrow> bool" where
  "ishex a \<longleftrightarrow> 48 \<le> a \<and> a \<le> 57 \<or> 97 \<le> a \<and> a \<le> 102 \<or> 65 \<le> a \<and> a \<le> 70"

definition unhex :: "int \<Rightarrow> int" where
  "unhex a = (if 48 \<le> a \<and> a \<le> 57 then to_u8 (a - 48)
     else if 97 \<le> a \<and> a \<le> 102 then to_u8 (to_u8 (a - 97) + 10)
     else if 65 \<le> a \<and> a \<le> 70 then to_u8 (to_u8 (a - 65) + 10) else 0)"

definition shouldEscape :: "int \<Rightarrow> nat \<Rightarrow> bool" where
  "shouldEscape a b =
     (if 65 \<le> a \<and> a \<le> 90 \<or> 97 \<le> a \<and> a \<le> 122 \<or> 48 \<le> a \<and> a \<le> 57 then False
      else if (b = 3 \<or> b = 4) \<and> a \<in> set [33, 36, 38, 39, 40, 41, 42, 43, 44, 59, 61, 58, 91, 93, 60, 62, 34] then False
      else if a \<in> set [45, 95, 46, 126] then False
      else if a \<in> set [36, 38, 43, 44, 47, 58, 59, 61, 63, 64] \<and> b = 1 then a = 63
      else if a \<in> set [36, 38, 43, 44, 47, 58, 59, 61, 63, 64] \<and> b = 2 then a = 47 \<or> a = 59 \<or> a = 44 \<or> a = 63
      else if a \<in> set [36, 38, 43, 44, 47, 58, 59, 61, 63, 64] \<and> b = 5 then a = 64 \<or> a = 47 \<or> a = 63 \<or> a = 58
      else if a \<in> set [36, 38, 43, 44, 47, 58, 59, 61, 63, 64] \<and> b = 6 then True
      else if a \<in> set [36, 38, 43, 44, 47, 58, 59, 61, 63, 64] \<and> b = 7 then False
      else if b = 7 \<and> a \<in> set [33, 40, 41, 42] then False
      else True)"

text \<open>The byte that two hexadecimal digits stand for.\<close>

definition hex_byte :: "int \<Rightarrow> int \<Rightarrow> int" where
  "hex_byte x y = js_shr (js_or (to_u8 (js_shl (unhex x) 4)) (unhex y)) 0"

section \<open>\<open>unescape\<close>\<close>

text \<open>
  The first loop, on the part of the string from the current position: the number \<open>c\<close> of escapes and whether a
  plus sign changes, or the error.
\<close>

fun unescape_scan :: "nat \<Rightarrow> int list \<Rightarrow> int \<Rightarrow> bool \<Rightarrow> url_error + int \<times> bool" where
  "unescape_scan b [] c d = Inr (c, d)"
| "unescape_scan b (f # s) c d =
     (if f = 37 then
        (if length s < 2 \<or> \<not> ishex (s ! 0) \<or> \<not> ishex (s ! 1) then Inl (EscapeError (take 3 (f # s)))
         else if b = 3 \<and> unhex (s ! 0) < 8 \<and> take 3 (f # s) \<noteq> [37, 50, 53] then Inl (EscapeError (take 3 (f # s)))
         else if b = 4 \<and> take 3 (f # s) \<noteq> [37, 50, 53] \<and> hex_byte (s ! 0) (s ! 1) \<noteq> 32 \<and> shouldEscape (hex_byte (s ! 0) (s ! 1)) 3
           then Inl (EscapeError (take 3 (f # s)))
         else unescape_scan b (drop 2 s) (js_sar (c + 1) 0) d)
      else if f = 43 then unescape_scan b s c (b = 6)
      else if (b = 3 \<or> b = 4) \<and> f < 128 \<and> shouldEscape f b then Inl (InvalidHostError [f])
      else unescape_scan b s c d)"

text \<open>
  \<open>$makeSlice\<close> of bytes, a checked write to a byte slice, and the second loop, writing the output \<open>h\<close> at \<open>i\<close>.
\<close>

definition make_bytes :: "int \<Rightarrow> int list res" where
  "make_bytes n = (if n < 0 \<or> n > 2147483647 then Inl (RuntimeError ''makeslice: len out of range'') else Inr (replicate (nat n) 0))"

definition put :: "int list \<Rightarrow> int \<Rightarrow> int \<Rightarrow> int list res" where
  "put h i x = (if i < 0 \<or> i \<ge> int (length h) then Inl (RuntimeError ''index out of range'') else Inr (h[nat i := x]))"

fun unescape_fill :: "nat \<Rightarrow> int list \<Rightarrow> int list \<Rightarrow> int \<Rightarrow> int list res" where
  "unescape_fill b [] h i = Inr h"
| "unescape_fill b (k # s) h i =
     (if k = 37 then res_bind (put h i (hex_byte (s ! 0) (s ! 1))) (\<lambda>h. unescape_fill b (drop 2 s) h (js_sar (i + 1) 0))
      else if k = 43 then res_bind (put h i (if b = 6 then 32 else 43)) (\<lambda>h. unescape_fill b s h (js_sar (i + 1) 0))
      else res_bind (put h i k) (\<lambda>h. unescape_fill b s h (js_sar (i + 1) 0)))"

definition unescape :: "int list \<Rightarrow> nat \<Rightarrow> (url_error + int list) res" where
  "unescape a b =
     (case unescape_scan b a 0 False of
        Inl e \<Rightarrow> Inr (Inl e)
      | Inr (c, d) \<Rightarrow>
          if c = 0 \<and> \<not> d then Inr (Inr a)
          else res_bind (make_bytes (js_sar (int (length a) - js_imul 2 c) 0)) (\<lambda>h.
               res_bind (unescape_fill b a h 0) (\<lambda>h. Inr (Inr h))))"

section \<open>\<open>escape\<close>\<close>

text \<open>The counts of spaces (\<open>e\<close>) and of other bytes to escape (\<open>f\<close>).\<close>

fun escape_count :: "nat \<Rightarrow> int list \<Rightarrow> int \<Rightarrow> int \<Rightarrow> int \<times> int" where
  "escape_count b [] e f = (e, f)"
| "escape_count b (h # s) e f =
     (if shouldEscape h b then
        (if h = 32 \<and> b = 6 then escape_count b s (js_sar (e + 1) 0) f else escape_count b s e (js_sar (f + 1) 0))
      else escape_count b s e f)"

definition hex_digits :: "int list" where
  "hex_digits = [48, 49, 50, 51, 52, 53, 54, 55, 56, 57, 65, 66, 67, 68, 69, 70]"

text \<open>The buffer of \<open>k\<close> bytes: the array of 64, cut with \<open>$subslice\<close>, when it is long enough.\<close>

definition escape_buffer :: "int \<Rightarrow> int list res" where
  "escape_buffer k =
     (if k \<le> 64 then (if k < 0 then Inl (RuntimeError ''slice bounds out of range'') else Inr (take (nat k) (replicate 64 0)))
      else make_bytes k)"

text \<open>The loop for spaces only, at position \<open>l\<close>, and the loop that escapes, at \<open>m\<close>.\<close>

fun escape_spaces :: "int list \<Rightarrow> int list \<Rightarrow> int \<Rightarrow> int list res" where
  "escape_spaces [] j l = Inr j"
| "escape_spaces (a # s) j l =
     (if a = 32 then res_bind (put j l 43) (\<lambda>j. escape_spaces s j (js_sar (l + 1) 0)) else escape_spaces s j (js_sar (l + 1) 0))"

fun escape_fill :: "nat \<Rightarrow> int list \<Rightarrow> int list \<Rightarrow> int \<Rightarrow> int list res" where
  "escape_fill b [] j m = Inr j"
| "escape_fill b (c # s) j m =
     (if c = 32 \<and> b = 6 then res_bind (put j m 43) (\<lambda>j. escape_fill b s j (js_sar (m + 1) 0))
      else if shouldEscape c b then
        res_bind (put j m 37) (\<lambda>j.
        res_bind (put j (js_sar (m + 1) 0) (hex_digits ! nat (to_u8 (js_shr c 4)))) (\<lambda>j.
        res_bind (put j (js_sar (m + 2) 0) (hex_digits ! nat (js_shr (js_and c 15) 0))) (\<lambda>j. escape_fill b s j (js_sar (m + 3) 0))))
      else res_bind (put j m c) (\<lambda>j. escape_fill b s j (js_sar (m + 1) 0)))"

definition escape :: "int list \<Rightarrow> nat \<Rightarrow> int list res" where
  "escape a b =
     (let (e, f) = escape_count b a 0 0 in
      if e = 0 \<and> f = 0 then Inr a
      else res_bind (escape_buffer (js_sar (int (length a) + js_imul 2 f) 0)) (\<lambda>j.
        if f = 0 then escape_spaces a (take (length j) a @ drop (length a) j) 0 else escape_fill b a j 0))"

definition QueryEscape :: "int list \<Rightarrow> int list res" where
  "QueryEscape a = escape a 6"

definition QueryUnescape :: "int list \<Rightarrow> (url_error + int list) res" where
  "QueryUnescape a = unescape a 6"

section \<open>The encoding of a byte\<close>

text \<open>The modes in which every byte can be escaped; the host and zone modes reject most escapes.\<close>

definition total_mode :: "nat \<Rightarrow> bool" where
  "total_mode b \<longleftrightarrow> b \<in> set [1, 2, 5, 6, 7]"

definition enc_byte :: "nat \<Rightarrow> int \<Rightarrow> int list" where
  "enc_byte b c = (if c = 32 \<and> b = 6 then [43]
     else if shouldEscape c b then [37, hex_digits ! nat (c div 16), hex_digits ! nat (c mod 16)] else [c])"

abbreviation encoded :: "nat \<Rightarrow> int list \<Rightarrow> int list" where
  "encoded b s \<equiv> concat (map (enc_byte b) s)"

definition escapes :: "nat \<Rightarrow> int list \<Rightarrow> nat" where
  "escapes b s = length (filter (\<lambda>c. shouldEscape c b \<and> \<not> (c = 32 \<and> b = 6)) s)"

lemma escapes_simps [simp]:
  "escapes b [] = 0"
  "escapes b (c # s) = (if shouldEscape c b \<and> \<not> (c = 32 \<and> b = 6) then Suc (escapes b s) else escapes b s)"
  by (simp_all add: escapes_def)

lemma hex_of_byte:
  assumes "0 \<le> c" "c < 256"
  shows "hex_digits ! nat (to_u8 (js_shr c 4)) = hex_digits ! nat (c div 16)"
    "hex_digits ! nat (js_shr (js_and c 15) 0) = hex_digits ! nat (c mod 16)"
    "ishex (hex_digits ! nat (c div 16))" "ishex (hex_digits ! nat (c mod 16))"
    "hex_byte (hex_digits ! nat (c div 16)) (hex_digits ! nat (c mod 16)) = c"
proof -
  have "\<forall>c \<in> set [0..255]. to_u8 (js_shr c 4) = c div 16 \<and> js_shr (js_and c 15) 0 = c mod 16 \<and>
    ishex (hex_digits ! nat (c div 16)) \<and> ishex (hex_digits ! nat (c mod 16)) \<and>
    hex_byte (hex_digits ! nat (c div 16)) (hex_digits ! nat (c mod 16)) = c" by code_simp
  then have *: "to_u8 (js_shr c 4) = c div 16 \<and> js_shr (js_and c 15) 0 = c mod 16 \<and>
    ishex (hex_digits ! nat (c div 16)) \<and> ishex (hex_digits ! nat (c mod 16)) \<and>
    hex_byte (hex_digits ! nat (c div 16)) (hex_digits ! nat (c mod 16)) = c" using assms by simp
  then show "hex_digits ! nat (to_u8 (js_shr c 4)) = hex_digits ! nat (c div 16)"
    "hex_digits ! nat (js_shr (js_and c 15) 0) = hex_digits ! nat (c mod 16)"
    "ishex (hex_digits ! nat (c div 16))" "ishex (hex_digits ! nat (c mod 16))"
    "hex_byte (hex_digits ! nat (c div 16)) (hex_digits ! nat (c mod 16)) = c" by (simp_all only: simp_thms)
qed

lemma always_escaped: "total_mode b \<Longrightarrow> shouldEscape 37 b" "shouldEscape 43 6" "shouldEscape 32 6"
  by (auto simp: total_mode_def shouldEscape_def)

lemma kept_byte: "total_mode b \<Longrightarrow> \<not> shouldEscape c b \<Longrightarrow> c \<noteq> 37 \<and> (b = 6 \<longrightarrow> c \<noteq> 43)"
  using always_escaped by blast

lemma enc_byte_cases:
  obtains (plus) "c = 32" "b = 6" "enc_byte b c = [43]"
    | (hex) "shouldEscape c b" "\<not> (c = 32 \<and> b = 6)" "enc_byte b c = [37, hex_digits ! nat (c div 16), hex_digits ! nat (c mod 16)]"
    | (same) "\<not> shouldEscape c b" "enc_byte b c = [c]"
  using always_escaped(3) unfolding enc_byte_def by (cases "shouldEscape c b"; cases "c = 32 \<and> b = 6") auto

lemma bytes_Cons: "bytes (c # s) \<longleftrightarrow> 0 \<le> c \<and> c < 256 \<and> bytes s"
  by (auto simp: bytes_def)

lemma put_at: "i = int (length p) \<Longrightarrow> put (p @ y # q) i x = Inr (p @ x # q)"
  by (simp add: put_def)

lemma sar0: "0 \<le> x \<Longrightarrow> x < 2147483648 \<Longrightarrow> js_sar x 0 = x"
  by (simp add: js_sar_eq ToInt32_id)

section \<open>What \<open>escape\<close> returns\<close>

lemma escape_count_spec:
  "0 \<le> e \<Longrightarrow> 0 \<le> f \<Longrightarrow> e + f + int (length s) < 2147483648 \<Longrightarrow>
    \<exists>k \<ge> 0. escape_count b s e f = (e + k, f + int (escapes b s)) \<and> (k > 0 \<longleftrightarrow> b = 6 \<and> 32 \<in> set s)"
proof (induction s arbitrary: e f)
  case (Cons c s)
  have 1: "\<exists>k \<ge> 0. escape_count b s (e + 1) f = (e + 1 + k, f + int (escapes b s)) \<and> (k > 0 \<longleftrightarrow> b = 6 \<and> 32 \<in> set s)"
    "\<exists>k \<ge> 0. escape_count b s e (f + 1) = (e + k, f + 1 + int (escapes b s)) \<and> (k > 0 \<longleftrightarrow> b = 6 \<and> 32 \<in> set s)"
    "\<exists>k \<ge> 0. escape_count b s e f = (e + k, f + int (escapes b s)) \<and> (k > 0 \<longleftrightarrow> b = 6 \<and> 32 \<in> set s)"
    using Cons.IH [of "e + 1" f] Cons.IH [of e "f + 1"] Cons.IH [of e f] Cons.prems by simp_all
  have s: "js_sar (e + 1) 0 = e + 1" "js_sar (f + 1) 0 = f + 1" using Cons.prems by (simp_all add: sar0)
  show ?case
  proof (cases "shouldEscape c b")
    case True
    show ?thesis
    proof (cases "c = 32 \<and> b = 6")
      case sp: True
      obtain k where "k \<ge> 0" "escape_count b s (e + 1) f = (e + 1 + k, f + int (escapes b s))" using 1(1) by blast
      then show ?thesis using True sp s by (intro exI [of _ "k + 1"]) simp
    next
      case False
      then show ?thesis using True s 1(2) by auto
    qed
  next
    case False
    then show ?thesis using 1(3) always_escaped(3) by auto
  qed
qed simp

lemma length_encoded: "length (encoded b s) = length s + 2 * escapes b s"
  by (induction s) (simp_all add: enc_byte_def)

lemma escape_fill_spec:
  "bytes s \<Longrightarrow> length q = length (encoded b s) \<Longrightarrow> int (length (p @ q)) < 2147483648 \<Longrightarrow>
   escape_fill b s (p @ q) (int (length p)) = Inr (p @ encoded b s)"
proof (induction s arbitrary: p q)
  case (Cons c s)
  have s: "bytes s" "0 \<le> c" "c < 256" using Cons.prems(1) by (simp_all add: bytes_Cons)
  note h = hex_of_byte [OF s(2,3)]
  show ?case
  proof (cases "shouldEscape c b \<and> \<not> (c = 32 \<and> b = 6)")
    case True
    let ?x = "hex_digits ! nat (c div 16)" and ?y = "hex_digits ! nat (c mod 16)"
    have e: "enc_byte b c = [37, ?x, ?y]" using True by (auto simp: enc_byte_def)
    then obtain x y z r where q: "q = x # y # z # r" "length r = length (encoded b s)"
      using Cons.prems(2) by (auto simp: length_Suc_conv)
    have j: "js_sar (int (length p) + 1) 0 = int (length p + 1)" "js_sar (int (length p) + 2) 0 = int (length p + 2)"
      "js_sar (int (length p) + 3) 0 = int (length p + 3)" using Cons.prems(3) q(1) by (simp_all add: sar0)
    have p1: "put (p @ q) (int (length p)) 37 = Inr (p @ 37 # y # z # r)" by (simp add: q put_at)
    have p2: "put (p @ 37 # y # z # r) (int (length p + 1)) ?x = Inr ((p @ [37]) @ ?x # z # r)"
      using put_at [of "int (length p + 1)" "p @ [37]" y] by simp
    have p3: "put ((p @ [37]) @ ?x # z # r) (int (length p + 2)) ?y = Inr ((p @ [37, ?x, ?y]) @ r)"
      using put_at [of "int (length p + 2)" "p @ [37, ?x]" z] by simp
    have c: "(c = 32 \<and> b = 6) = False" "shouldEscape c b = True" using True by blast+
    have "escape_fill b (c # s) (p @ q) (int (length p)) = escape_fill b s ((p @ [37, ?x, ?y]) @ r) (int (length (p @ [37, ?x, ?y])))"
      unfolding escape_fill.simps(2) h(1,2) c if_False if_True p1 res_bind_simps j p2 p3 by (simp add: add.commute)
    also have "\<dots> = Inr ((p @ [37, ?x, ?y]) @ encoded b s)" by (rule Cons.IH [OF s(1) q(2)]) (use Cons.prems(3) q(1) in simp)
    finally show ?thesis by (simp add: e)
  next
    case False
    have e: "enc_byte b c = [if c = 32 \<and> b = 6 then 43 else c]" using False always_escaped(3) by (cases b c rule: enc_byte_cases) auto
    then obtain x r where q: "q = x # r" "length r = length (encoded b s)"
      using Cons.prems(2) by (auto simp: length_Suc_conv)
    let ?c = "if c = 32 \<and> b = 6 then 43 else c"
    have j: "js_sar (int (length p) + 1) 0 = int (length (p @ [?c]))" using Cons.prems(3) q(1) by (simp add: sar0)
    have p: "put (p @ q) (int (length p)) ?c = Inr (p @ ?c # r)" by (simp only: q put_at)
    have "escape_fill b (c # s) (p @ q) (int (length p)) = escape_fill b s (p @ ?c # r) (int (length (p @ [?c])))"
    proof (cases "c = 32 \<and> b = 6")
      case True
      then have "put (p @ q) (int (length p)) 43 = Inr (p @ ?c # r)" using p by simp
      then show ?thesis using True j by simp
    next
      case plain: False
      then have "\<not> shouldEscape c b" using False by blast
      moreover have "put (p @ q) (int (length p)) c = Inr (p @ ?c # r)" using p plain by auto
      ultimately show ?thesis unfolding escape_fill.simps(2) if_not_P [OF plain]
        by (simp only: if_False res_bind_simps j if_not_P [OF plain])
    qed
    also have "\<dots> = Inr ((p @ [?c]) @ encoded b s)" using Cons.IH [OF s(1) q(2), of "p @ [?c]"] Cons.prems(3) q(1) by simp
    finally show ?thesis by (simp add: e)
  qed
qed simp

lemma escape_spaces_spec: "escapes b s = 0 \<Longrightarrow> b = 6 \<Longrightarrow> int (length (p @ s)) < 2147483648 \<Longrightarrow>
    escape_spaces s (p @ s) (int (length p)) = Inr (p @ encoded b s)"
proof (induction s arbitrary: p)
  case (Cons c s)
  have s: "escapes b s = 0" "c \<noteq> 32 \<Longrightarrow> \<not> shouldEscape c b" using Cons.prems by (auto split: if_splits)
  let ?c = "if c = 32 then 43 else c"
  have "js_sar (int (length p) + 1) 0 = int (length (p @ [?c]))" using Cons.prems(3) by (simp add: sar0)
  then show ?case using Cons.IH [OF s(1) Cons.prems(2), of "p @ [?c]"] s(2) Cons.prems(2,3)
    by (auto simp: enc_byte_def put_at)
qed simp

lemma encoded_same: "escapes b s = 0 \<Longrightarrow> \<not> (b = 6 \<and> 32 \<in> set s) \<Longrightarrow> encoded b s = s"
  by (induction s) (auto simp: enc_byte_def split: if_splits)

lemma escapes_le: "escapes b s \<le> length s"
  by (simp add: escapes_def)

lemma escape_buffer_ok: "0 \<le> k \<Longrightarrow> k < 2147483648 \<Longrightarrow> \<exists>j. escape_buffer k = Inr j \<and> int (length j) = k"
  by (auto simp: escape_buffer_def make_bytes_def min_def)

lemma escape_spec: "bytes a \<Longrightarrow> 3 * int (length a) < 2147483648 \<Longrightarrow> escape a b = Inr (encoded b a)"
proof -
  assume a: "bytes a" "3 * int (length a) < 2147483648"
  obtain k where k: "k \<ge> 0" "escape_count b a 0 0 = (k, int (escapes b a))" "k > 0 \<longleftrightarrow> b = 6 \<and> 32 \<in> set a"
    using escape_count_spec [of 0 0 a b] a(2) by auto
  have le: "int (length a) + 2 * int (escapes b a) < 2147483648" "int (escapes b a) < 1073741824"
    using escapes_le [of b a] a(2) by simp_all
  have "js_imul 2 (int (escapes b a)) = 2 * int (escapes b a)" using le(2) by (simp add: js_imul_def ToInt32_id)
  then have "js_sar (int (length a) + js_imul 2 (int (escapes b a))) 0 = int (length (encoded b a))"
    using le(1) by (simp add: sar0 length_encoded)
  then obtain j where j: "escape_buffer (js_sar (int (length a) + js_imul 2 (int (escapes b a))) 0) = Inr j" "length j = length (encoded b a)"
    using escape_buffer_ok [of "int (length (encoded b a))"] le(1) by (auto simp: length_encoded)
  show ?thesis
  proof (cases "escapes b a = 0")
    case True
    show ?thesis
    proof (cases "k > 0")
      case spaces: True
      have "length j = length a" using j(2) True by (simp add: length_encoded)
      then show ?thesis using True spaces k j(1) escape_spaces_spec [of b a "[]"] a(2) by (simp add: escape_def)
    next
      case False
      then show ?thesis using True k encoded_same [of b a] by (auto simp: escape_def)
    qed
  next
    case False
    then show ?thesis using k j escape_fill_spec [OF a(1) j(2), of "[]"] le(1)
      by (simp add: escape_def length_encoded)
  qed
qed

section \<open>What \<open>unescape\<close> makes of it\<close>

lemma scan_encoded: "bytes s \<Longrightarrow> total_mode b \<Longrightarrow> (d \<longrightarrow> b = 6) \<Longrightarrow> 0 \<le> c \<Longrightarrow> c + int (length s) < 2147483648 \<Longrightarrow>
    unescape_scan b (encoded b s) c d = Inr (c + int (escapes b s), d \<or> b = 6 \<and> 32 \<in> set s)"
proof (induction s arbitrary: c d)
  case (Cons x s)
  have s: "bytes s" "0 \<le> x" "x < 256" "b \<noteq> 3" "b \<noteq> 4"
    using Cons.prems(1,2) by (auto simp: bytes_Cons total_mode_def)
  have l: "0 \<le> c" "c + int (length s) < 2147483648" "0 \<le> c + 1" "c + 1 + int (length s) < 2147483648" "js_sar (c + 1) 0 = c + 1"
    using Cons.prems(4,5) by (simp_all add: sar0)
  show ?case
  proof (cases b x rule: enc_byte_cases)
    case plus
    then show ?thesis using Cons.IH [OF s(1) Cons.prems(2) _ l(1,2), of True] by (simp add: always_escaped)
  next
    case hex
    then show ?thesis using Cons.IH [OF s(1) Cons.prems(2,3) l(3,4)] hex_of_byte(3,4) [OF s(2,3)] s(4,5) l(5) by auto
  next
    case same
    then show ?thesis using Cons.IH [OF s(1) Cons.prems(2) _ l(1,2)] Cons.prems(3) kept_byte [OF Cons.prems(2) same(1)] always_escaped(3) s(4,5)
      by auto
  qed
qed simp

lemma fill_encoded: "bytes s \<Longrightarrow> total_mode b \<Longrightarrow> length q = length s \<Longrightarrow> int (length (p @ q)) < 2147483648 \<Longrightarrow>
    unescape_fill b (encoded b s) (p @ q) (int (length p)) = Inr (p @ s)"
proof (induction s arbitrary: p q)
  case (Cons x s)
  have s: "bytes s" "0 \<le> x" "x < 256" using Cons.prems(1) by (simp_all add: bytes_Cons)
  obtain y r where q: "q = y # r" "length r = length s" using Cons.prems(3) by (auto simp: length_Suc_conv)
  have j: "js_sar (int (length p) + 1) 0 = int (length p) + 1" using Cons.prems(4) q(1) by (simp add: sar0)
  have IH: "unescape_fill b (encoded b s) (p @ x # r) (int (length p) + 1) = Inr (p @ x # s)"
    using Cons.IH [OF s(1) Cons.prems(2) q(2), of "p @ [x]"] Cons.prems(4) q(1) by (simp add: add.commute)
  show ?case using IH j hex_of_byte(5) [OF s(2,3)] kept_byte [OF Cons.prems(2)]
    by (cases b x rule: enc_byte_cases) (auto simp: q put_at)
qed simp

text \<open>C30: percent-encoding round trip: in the path, segment, user, query and fragment modes \<open>escape\<close> terminates without
  a panic, and \<open>unescape\<close> in the same mode accepts what it returns and gives the string back, whatever its bytes, as long as
  three times its length is a 32-bit integer (beyond, the length of the result may wrap and making the buffer panics).\<close>

theorem escape_roundtrip:
  assumes "bytes s" "total_mode b" "3 * int (length s) < 2 ^ 31"
  shows "\<exists>t. escape s b = Inr t \<and> unescape t b = Inr (Inr s)"
proof (intro exI conjI)
  have l: "3 * int (length s) < 2147483648" using assms(3) by simp
  show "escape s b = Inr (encoded b s)" using assms(1) l by (rule escape_spec)
  have *: "unescape_scan b (encoded b s) 0 False = Inr (int (escapes b s), b = 6 \<and> 32 \<in> set s)"
    using scan_encoded [OF assms(1,2), of False 0] l by simp
  show "unescape (encoded b s) b = Inr (Inr s)"
  proof (cases "escapes b s = 0 \<and> \<not> (b = 6 \<and> 32 \<in> set s)")
    case True
    then show ?thesis using * encoded_same by (simp add: unescape_def)
  next
    case False
    have "js_imul 2 (int (escapes b s)) = 2 * int (escapes b s)"
      using escapes_le [of b s] l by (simp add: js_imul_def ToInt32_id)
    then have "js_sar (int (length (encoded b s)) - js_imul 2 (int (escapes b s))) 0 = int (length s)"
      using l by (simp only: length_encoded) (simp add: sar0)
    moreover have "make_bytes (int (length s)) = Inr (replicate (length s) 0)" using l by (simp add: make_bytes_def)
    moreover have "unescape_fill b (encoded b s) (replicate (length s) 0) 0 = Inr s"
      using fill_encoded [OF assms(1,2), of "replicate (length s) 0" "[]"] l by simp
    ultimately show ?thesis using * False by (auto simp: unescape_def)
  qed
qed

theorem escape_roundtrip_witness: "\<exists>t. escape [97, 32, 38, 37, 43, 255] 6 = Inr t \<and> unescape t 6 = Inr (Inr [97, 32, 38, 37, 43, 255])"
  by (rule escape_roundtrip) (simp_all add: bytes_def total_mode_def)

end
