(* ===== verification/Sync_Atomic.thy ===== *)
theory Sync_Atomic
  imports Runtime_Int64
begin

text \<open>
  Package \<open>sync/atomic\<close> and the locks of \<open>nosync\<close>.  The bundle runs one goroutine at a time and switches only
  where a goroutine blocks, so the atomic operations are plain reads and writes of a cell.  Each operation takes the
  content of the cell and returns its result with the new content.
\<close>

definition CompareAndSwapInt32 :: "int \<Rightarrow> int \<Rightarrow> int \<Rightarrow> bool \<times> int" where
  "CompareAndSwapInt32 x old new = (if x = old then (True, new) else (False, x))"

definition CompareAndSwapUint64 :: "js64 \<Rightarrow> js64 \<Rightarrow> js64 \<Rightarrow> bool \<times> js64" where
  "CompareAndSwapUint64 x old new = (if high x = high old \<and> low x = low old then (True, new) else (False, x))"

definition AddInt32 :: "int \<Rightarrow> int \<Rightarrow> int \<times> int" where
  "AddInt32 x d = (let f = js_sar (x + d) 0 in (f, f))"

definition AddUint32 :: "int \<Rightarrow> int \<Rightarrow> int \<times> int" where
  "AddUint32 x d = (let f = js_shr (x + d) 0 in (f, f))"

definition LoadUint32 :: "int \<Rightarrow> int" where "LoadUint32 x = x"
definition StoreUint32 :: "int \<Rightarrow> int \<Rightarrow> int" where "StoreUint32 x v = v"

text \<open>\<open>atomic.Value\<close>: an interface value is \<open>None\<close> (nil) or a type with a value of it.\<close>

definition Value_Load :: "('t \<times> 'v) option \<Rightarrow> ('t \<times> 'v) option" where
  "Value_Load v = v"

definition Value_Store :: "('t \<times> 'v) option \<Rightarrow> ('t \<times> 'v) option \<Rightarrow> ('t \<times> 'v) option res" where
  "Value_Store v x =
     (case x of None \<Rightarrow> Inl (Panic ''sync/atomic: store of nil value into Value'')
      | Some (t, a) \<Rightarrow>
          (case v of Some (t', a') \<Rightarrow> if t \<noteq> t' then Inl (Panic ''sync/atomic: store of inconsistently typed value into Value'') else Inr x
           | None \<Rightarrow> Inr x))"

lemma CompareAndSwapInt32_same [simp]: "CompareAndSwapInt32 x x y = (True, y)"
  by (simp add: CompareAndSwapInt32_def)

lemma AddInt32_exact: "- (2 ^ 31) \<le> x + d \<Longrightarrow> x + d < 2 ^ 31 \<Longrightarrow> AddInt32 x d = (x + d, x + d)"
  by (simp add: AddInt32_def js_sar_eq ToInt32_id Let_def)

lemma AddUint32_mod: "AddUint32 x d = ((x + d) mod 2 ^ 32, (x + d) mod 2 ^ 32)"
  by (simp add: AddUint32_def js_shr_0 Let_def)

text \<open>Once a value is stored, only values of its type can replace it.\<close>

lemma Value_typed: "Value_Store v x = Inr v' \<Longrightarrow> v \<noteq> None \<Longrightarrow> map_option fst v' = map_option fst v"
  by (auto simp: Value_Store_def split: option.splits if_splits)

section \<open>Package \<open>nosync\<close>\<close>

text \<open>\<open>nosync.Mutex\<close> is its flag \<open>locked\<close>.\<close>

definition nosync_Lock :: "bool \<Rightarrow> bool res" where
  "nosync_Lock locked = (if locked then Inl (Panic ''nosync: mutex is already locked'') else Inr True)"

definition nosync_Unlock :: "bool \<Rightarrow> bool res" where
  "nosync_Unlock locked = (if \<not> locked then Inl (Panic ''nosync: unlock of unlocked mutex'') else Inr False)"

text \<open>
  \<open>nosync.Once\<close>.  The function may use the same \<open>Once\<close>, so it takes and returns it with its own state; it returns or
  panics.  The deferred function runs in both cases, but is not yet registered when \<open>Do\<close> itself panics.
\<close>

record once =
  doing :: bool
  once_done :: bool

definition nosync_Do :: "(once \<times> 's \<Rightarrow> go_panic option \<times> once \<times> 's) \<Rightarrow> once \<times> 's \<Rightarrow> go_panic option \<times> once \<times> 's" where
  "nosync_Do f = (\<lambda>(b, s).
     if once_done b then (None, b, s)
     else if doing b then (Some (Panic ''nosync: Do called within f''), b, s)
     else (case f (b\<lparr>doing := True\<rparr>, s) of (p, b', s') \<Rightarrow> (p, b'\<lparr>doing := False, once_done := True\<rparr>, s')))"

text \<open>\<open>nosync.Pool\<close>, on the contents of its slice; nil is \<open>None\<close>.\<close>

definition nosync_Get :: "('s \<Rightarrow> 'a option \<times> 's) option \<Rightarrow> 'a list \<Rightarrow> 's \<Rightarrow> 'a option \<times> 'a list \<times> 's" where
  "nosync_Get new st s =
     (if st = [] then (case new of None \<Rightarrow> (None, st, s) | Some f \<Rightarrow> (let (x, s') = f s in (x, st, s')))
      else (Some (last st), butlast st, s))"

definition nosync_Put :: "'a option \<Rightarrow> 'a list \<Rightarrow> 'a list" where
  "nosync_Put x st = (case x of None \<Rightarrow> st | Some a \<Rightarrow> st @ [a])"

lemma nosync_Do_once: "nosync_Do f (b, s) = (p, b', s') \<Longrightarrow> \<not> doing b \<Longrightarrow> once_done b' \<and> nosync_Do f (b', s') = (None, b', s')"
  by (auto simp: nosync_Do_def split: if_splits prod.splits)

lemma nosync_Do_nested: "nosync_Do (nosync_Do f) (\<lparr>doing = False, once_done = False\<rparr>, s) =
    (Some (Panic ''nosync: Do called within f''), \<lparr>doing = False, once_done = True\<rparr>, s)"
  by (simp add: nosync_Do_def)

lemma nosync_Get_Put: "nosync_Get new (nosync_Put (Some x) st) s = (Some x, st, s)"
  by (simp add: nosync_Get_def nosync_Put_def)

end
