(* ===== verification/Sync_Mutex.thy ===== *)
theory Sync_Mutex
  imports Sync_Atomic Js_Bits
begin

text \<open>
  \<open>sync.Mutex\<close> with the semaphore the bundle implements on channels (\<open>runtime_Semacquire\<close>, \<open>runtime_Semrelease\<close>).
  A goroutine runs without interruption up to the point where it blocks, so \<open>Lock\<close> is cut there: \<open>lock_from\<close> up to
  the receive, \<open>resume\<close> after it.  The channel a goroutine waits on is named by the goroutine.
\<close>

type_synonym gid = nat

text \<open>
  A semaphore: the word and the entries of the tables \<open>semWaiters\<close> and \<open>semAwoken\<close> for it.  A mutex has one in its field
  \<open>sema\<close>, and its field \<open>state\<close> (bit 0 locked, bit 1 woken, bit 2 starving, the number of waiters above).
\<close>

record sema =
  m_sema :: int
  m_waiters :: "gid list"
  m_awoken :: int

record mutex = sema +
  m_state :: int

text \<open>
  Where a goroutine is: outside, blocked on the semaphore, sent to but not yet run again, past the semaphore without
  having blocked, or holding the mutex.  \<open>n\<close> and \<open>m\<close> are the variables of \<open>Lock\<close>: starving, and
  the time the wait began.
\<close>

datatype phase = is_Idle: Idle | is_Queued: Queued bool js64 | is_Woken: Woken bool js64 | is_Running: Running bool js64 | is_Holding: Holding

section \<open>The semaphore\<close>

text \<open>The first half of \<open>runtime_SemacquireMutex\<close>: whether the goroutine blocks; the second half, once sent to.\<close>

definition semacquire :: "gid \<Rightarrow> bool \<Rightarrow> 'a sema_scheme \<Rightarrow> bool \<times> 'a sema_scheme" where
  "semacquire g lifo w =
     (if js_shr (m_sema w - m_awoken w) 0 = 0
      then (True, w\<lparr>m_waiters := if lifo then g # m_waiters w else m_waiters w @ [g]\<rparr>)
      else (False, w\<lparr>m_sema := js_shr (m_sema w - 1) 0\<rparr>))"

definition sema_resume :: "'a sema_scheme \<Rightarrow> 'a sema_scheme" where
  "sema_resume w = w\<lparr>m_awoken := js_shr (m_awoken w - 1) 0, m_sema := js_shr (m_sema w - 1) 0\<rparr>"

text \<open>\<open>runtime_Semrelease\<close>: the goroutine it wakes.\<close>

definition semrelease :: "'a sema_scheme \<Rightarrow> gid option \<times> 'a sema_scheme" where
  "semrelease w =
     (let w = w\<lparr>m_sema := js_shr (m_sema w + 1) 0\<rparr> in
      case m_waiters w of
        [] \<Rightarrow> (None, w)
      | g # gs \<Rightarrow> (Some g, w\<lparr>m_waiters := gs, m_awoken := js_shr (m_awoken w + 1) 0\<rparr>))"

section \<open>\<open>Lock\<close> and \<open>Unlock\<close>\<close>

text \<open>\<open>runtime_nanotime\<close> is an argument \<open>now\<close>; \<open>runtime_canSpin\<close> is constantly false, so that the spinning loop is not entered.\<close>

definition zero64 :: js64 where "zero64 = \<lparr>ctor = KInt64, high = 0, low = 0\<rparr>"

definition is_zero :: "js64 \<Rightarrow> bool" where "is_zero m \<longleftrightarrow> high m = 0 \<and> low m = 0"

definition too_long :: "js64 \<Rightarrow> js64 \<Rightarrow> bool" where
  "too_long now m = (let t = sub64 now m in high t > 0 \<or> high t = 0 \<and> low t > 1000000)"

text \<open>
  The new state word \<open>Lock\<close> computes from the old word \<open>q\<close>.  The compare-and-swap that follows compares the word with
  what has just been read from it, so it succeeds (lemma \<open>CompareAndSwapInt32_same\<close>).
\<close>

definition lock_word :: "bool \<Rightarrow> bool \<Rightarrow> int \<Rightarrow> int res" where
  "lock_word n woke q =
     (let r = q;
          r = (if js_and q 4 = 0 then js_or r 1 else r);
          r = (if js_and q 5 \<noteq> 0 then js_sar (r + 8) 0 else r);
          r = (if n \<and> js_and q 1 \<noteq> 0 then js_or r 4 else r) in
      if woke then (if js_and r 2 = 0 then Inl (RuntimeError ''sync: inconsistent mutex state'') else Inr (js_sar (js_and r (-3)) 0))
      else Inr r)"

definition lock_from :: "gid \<Rightarrow> bool \<Rightarrow> bool \<Rightarrow> js64 \<Rightarrow> js64 \<Rightarrow> mutex \<Rightarrow> (phase \<times> mutex) res" where
  "lock_from g n woke m now w =
     (let q = m_state w in
      res_bind (lock_word n woke q) (\<lambda>r.
      let w = w\<lparr>m_state := snd (CompareAndSwapInt32 q q r)\<rparr> in
      if js_and q 5 = 0 then Inr (Holding, w)
      else
        let s = \<not> is_zero m; m = (if is_zero m then now else m); (blocked, w) = semacquire g s w in
        Inr (if blocked then (Queued n m, w) else (Running n m, w))))"

definition mutex_Lock :: "gid \<Rightarrow> js64 \<Rightarrow> mutex \<Rightarrow> (phase \<times> mutex) res" where
  "mutex_Lock g now w =
     (case CompareAndSwapInt32 (m_state w) 0 1 of
        (True, x) \<Rightarrow> Inr (Holding, w\<lparr>m_state := x\<rparr>)
      | (False, x) \<Rightarrow> lock_from g False False zero64 now w)"

text \<open>\<open>Lock\<close> after the semaphore was acquired.\<close>

definition acquired :: "gid \<Rightarrow> bool \<Rightarrow> js64 \<Rightarrow> js64 \<Rightarrow> mutex \<Rightarrow> (phase \<times> mutex) res" where
  "acquired g n m now w =
     (let n = (n \<or> too_long now m); q = m_state w in
      if js_and q 4 \<noteq> 0 then
        (if js_and q 3 \<noteq> 0 \<or> js_sar (js_sar q 3) 0 = 0 then Inl (RuntimeError ''sync: inconsistent mutex state'')
         else let v = -7; v = (if \<not> n \<or> js_sar (js_sar q 3) 0 = 1 then js_sar (v - 4) 0 else v)
              in Inr (Holding, w\<lparr>m_state := snd (AddInt32 q v)\<rparr>))
      else lock_from g n True m now w)"

definition resume :: "gid \<Rightarrow> bool \<Rightarrow> js64 \<Rightarrow> js64 \<Rightarrow> mutex \<Rightarrow> (phase \<times> mutex) res" where
  "resume g n m now w = acquired g n m now (sema_resume w)"

definition mutex_Unlock :: "mutex \<Rightarrow> (gid option \<times> mutex) res" where
  "mutex_Unlock w =
     (let (m, x) = AddInt32 (m_state w) (-1); w = w\<lparr>m_state := x\<rparr> in
      if js_and (js_sar (m + 1) 0) 1 = 0 then Inl (RuntimeError ''sync: unlock of unlocked mutex'')
      else if js_and m 4 = 0 then
        (if js_sar (js_sar m 3) 0 = 0 \<or> js_and m 7 \<noteq> 0 then Inr (None, w)
         else Inr (semrelease (w\<lparr>m_state := snd (CompareAndSwapInt32 (m_state w) m (js_or (js_sar (m - 8) 0) 2))\<rparr>)))
      else Inr (semrelease w))"

section \<open>Goroutines using one mutex\<close>

record locking =
  mu :: mutex
  phase_of :: "gid \<Rightarrow> phase"

datatype mutex_event = DoLock gid js64 | DoResume gid js64 | DoUnlock gid

definition unlocked :: locking where
  "unlocked = \<lparr>mu = \<lparr>m_sema = 0, m_waiters = [], m_awoken = 0, m_state = 0\<rparr>, phase_of = (\<lambda>g. Idle)\<rparr>"

definition set_phase :: "gid \<Rightarrow> (phase \<times> mutex) res \<Rightarrow> locking \<Rightarrow> locking res" where
  "set_phase g r s = res_bind r (\<lambda>(p, w). Inr \<lparr>mu = w, phase_of = (phase_of s)(g := p)\<rparr>)"

definition wake_phase :: "phase \<Rightarrow> phase" where
  "wake_phase p = (case p of Queued n m \<Rightarrow> Woken n m | _ \<Rightarrow> p)"

definition wake_up :: "gid option \<Rightarrow> (gid \<Rightarrow> phase) \<Rightarrow> gid \<Rightarrow> phase" where
  "wake_up g ph = (case g of None \<Rightarrow> ph | Some h \<Rightarrow> ph(h := wake_phase (ph h)))"

text \<open>One uninterrupted run of a goroutine; no value when the goroutine is not at that point.\<close>

definition mutex_step :: "mutex_event \<Rightarrow> locking \<Rightarrow> locking res option" where
  "mutex_step e s =
     (case e of
        DoLock g now \<Rightarrow> (case phase_of s g of Idle \<Rightarrow> Some (set_phase g (mutex_Lock g now (mu s)) s) | _ \<Rightarrow> None)
      | DoResume g now \<Rightarrow>
          (case phase_of s g of
             Woken n m \<Rightarrow> Some (set_phase g (resume g n m now (mu s)) s)
           | Running n m \<Rightarrow> Some (set_phase g (acquired g n m now (mu s)) s)
           | _ \<Rightarrow> None)
      | DoUnlock g \<Rightarrow>
          (case phase_of s g of
             Holding \<Rightarrow> Some (res_bind (mutex_Unlock (mu s)) (\<lambda>(h, w). Inr \<lparr>mu = w, phase_of = wake_up h ((phase_of s)(g := Idle))\<rparr>))
           | _ \<Rightarrow> None))"

text \<open>
  The states reached from an unlocked mutex; the number of waiting goroutines stays below the 28 bits the state word
  has for it.
\<close>

inductive locking_reachable :: "locking \<Rightarrow> bool" where
  start: "locking_reachable unlocked"
| step: "locking_reachable s \<Longrightarrow> length (m_waiters (mu s)) < 2 ^ 28 - 4 \<Longrightarrow> mutex_step e s = Some (Inr t) \<Longrightarrow> locking_reachable t"

section \<open>The state word\<close>

definition word :: "bool \<Rightarrow> bool \<Rightarrow> bool \<Rightarrow> nat \<Rightarrow> int" where
  "word l w s c = 8 * int c + (of_bool l + 2 * of_bool w + 4 * of_bool s)"


lemma low_and:
  fixes k m c :: int
  assumes "0 \<le> k" "k < 8" "0 \<le> m" "m < 8"
  shows "(8 * c + k) AND m = k AND m"
proof -
  have m: "take_bit 3 m = m" and k: "take_bit 3 (8 * c + k) = k" using assms by (simp_all add: take_bit_eq_mod)
  have "(8 * c + k) AND take_bit 3 m = take_bit 3 (8 * c + k) AND take_bit 3 m" by (rule bit_eqI) (auto simp: bit_simps)
  then show ?thesis by (simp only: m k)
qed

lemma high_or: "0 \<le> k \<Longrightarrow> k < 8 \<Longrightarrow> 8 * c + k = push_bit 3 c OR (k::int)"
  using or_eq_plus [of 3 "push_bit 3 c" k] by (simp add: push_bit_eq_mult mult.commute)

lemma low_or:
  fixes k m c :: int
  assumes "0 \<le> k" "k < 8" "0 \<le> m" "m < 8"
  shows "(8 * c + k) OR m = 8 * c + (k OR m)"
proof -
  have "k OR m < 8" "0 \<le> k OR m" using assms OR_upper [of k 3 m] by simp_all
  then show ?thesis by (simp only: high_or assms or.assoc)
qed

lemma low_clear:
  fixes k c :: int
  assumes "0 \<le> k" "k < 8"
  shows "(8 * c + k) AND NOT 2 = 8 * c + (k AND NOT 2)"
proof -
  have k: "0 \<le> k AND NOT 2" "k AND NOT 2 < 8" using assms AND_upper1 [of k "NOT 2"] by simp_all
  have two: "bit (2::int) n \<longleftrightarrow> n = 1" for n using bit_exp_iff [where ?'a = int, of 1 n] by auto
  have "push_bit 3 c AND NOT (2::int) = push_bit 3 c"
    by (rule bit_eqI) (simp only: bit_push_bit_iff bit_and_iff bit_not_iff two, auto)
  then show ?thesis unfolding high_or [OF assms] high_or [OF k] by (simp only: bit.conj_disj_distrib2)
qed

lemma flags_range: "(0::int) \<le> of_bool l + 2 * of_bool w + 4 * of_bool s" "of_bool l + 2 * of_bool w + 4 * of_bool s < (8::int)"
  by (cases l; cases w; cases s; simp)+

lemma word_range: "c < 2 ^ 28 \<Longrightarrow> 0 \<le> word l w s c \<and> word l w s c < 2 ^ 31"
  using flags_range [of l w s] by (simp add: word_def)

lemma word_and: "c < 2 ^ 28 \<Longrightarrow> 0 \<le> m \<Longrightarrow> m < 8 \<Longrightarrow> js_and (word l w s c) m = (of_bool l + 2 * of_bool w + 4 * of_bool s) AND m"
  using word_range [of c l w s] flags_range [of l w s] low_and [of "of_bool l + 2 * of_bool w + 4 * of_bool s" m "int c"]
  by (simp add: js_and_def ToInt32_id word_def)

lemma word_tests:
  assumes "c < 2 ^ 28"
  shows "js_and (word l w s c) 1 = of_bool l" "js_and (word l w s c) 2 = 2 * of_bool w" "js_and (word l w s c) 4 = 4 * of_bool s"
    "js_and (word l w s c) 3 = of_bool l + 2 * of_bool w" "js_and (word l w s c) 5 = of_bool l + 4 * of_bool s"
    "js_and (word l w s c) 7 = of_bool l + 2 * of_bool w + 4 * of_bool s" "js_sar (word l w s c) 3 = int c"
proof -
  show "js_and (word l w s c) 1 = of_bool l" "js_and (word l w s c) 2 = 2 * of_bool w" "js_and (word l w s c) 4 = 4 * of_bool s"
    "js_and (word l w s c) 3 = of_bool l + 2 * of_bool w" "js_and (word l w s c) 5 = of_bool l + 4 * of_bool s"
    "js_and (word l w s c) 7 = of_bool l + 2 * of_bool w + 4 * of_bool s"
    by (simp_all only: word_and [OF assms]) (cases l; cases w; cases s; simp)+
  show "js_sar (word l w s c) 3 = int c"
    using word_range [OF assms, of l w s] flags_range [of l w s] by (simp add: js_sar_eq ToInt32_id word_def)
qed

lemma word_or: "c < 2 ^ 28 \<Longrightarrow> 0 \<le> m \<Longrightarrow> m < 8 \<Longrightarrow> js_or (word l w s c) m = 8 * int c + ((of_bool l + 2 * of_bool w + 4 * of_bool s) OR m)"
  using word_range [of c l w s] flags_range [of l w s] low_or [of "of_bool l + 2 * of_bool w + 4 * of_bool s" m "int c"]
  by (simp add: js_or_def ToInt32_id word_def)

lemma word_set:
  assumes "c < 2 ^ 28"
  shows "js_or (word l w s c) 1 = word True w s c" "js_or (word l w s c) 4 = word l w True c" "js_or (word l w s c) 2 = word l True s c"
    "js_sar (js_and (word l w s c) (-3)) 0 = word l False s c"
proof -
  show "js_or (word l w s c) 1 = word True w s c" "js_or (word l w s c) 4 = word l w True c" "js_or (word l w s c) 2 = word l True s c"
    by (simp_all only: word_or [OF assms]) (cases l; cases w; cases s; simp add: word_def)+
  let ?k = "of_bool l + 2 * of_bool w + 4 * of_bool s :: int"
  have "js_and (word l w s c) (-3) = word l w s c AND NOT 2"
    using word_range [OF assms, of l w s] by (simp add: js_and_def ToInt32_id)
  also have "\<dots> = 8 * int c + (?k AND NOT 2)" unfolding word_def by (rule low_clear) (rule flags_range)+
  also have "\<dots> = word l False s c" by (cases l; cases w; cases s; simp add: word_def)
  finally show "js_sar (js_and (word l w s c) (-3)) 0 = word l False s c"
    using word_range [OF assms, of l False s] by (simp add: js_sar_eq ToInt32_id)
qed

lemma word_add:
  assumes "Suc c < 2 ^ 28"
  shows "js_sar (word l w s c + 8) 0 = word l w s (Suc c)"
    "l \<Longrightarrow> AddInt32 (word l w s c) (-1) = (word False w s c, word False w s c)"
    "0 < c \<Longrightarrow> AddInt32 (word False False True c) (-7) = (word True False True (c - 1), word True False True (c - 1))"
    "0 < c \<Longrightarrow> AddInt32 (word False False True c) (-11) = (word True False False (c - 1), word True False False (c - 1))"
    "0 < c \<Longrightarrow> js_sar (word l w s c - 8) 0 = word l w s (c - 1)"
  using assms flags_range [of l w s]
  by (simp_all add: word_def AddInt32_def Let_def js_sar_eq ToInt32_id of_nat_diff)

lemma word_zero: "word l w s c = 0 \<longleftrightarrow> \<not> l \<and> \<not> w \<and> \<not> s \<and> c = 0"
  by (cases l; cases w; cases s) (auto simp: word_def)

lemma lock_word_eval:
  assumes "Suc c < 2 ^ 28"
  shows "lock_word n woke (word l w s c) =
    (if woke \<and> \<not> w then Inl (RuntimeError ''sync: inconsistent mutex state'')
     else Inr (word (l \<or> \<not> s) (w \<and> \<not> woke) (s \<or> n \<and> l) (if l \<or> s then Suc c else c)))"
proof -
  have c: "c < 2 ^ 28" using assms by simp
  note t = word_tests [OF c] word_tests [OF assms] word_set [OF c] word_set [OF assms] word_add(1) [OF assms]
  show ?thesis unfolding lock_word_def Let_def
    by (cases l; cases s; cases n; cases w; cases woke) (simp_all add: t)
qed

section \<open>The invariant\<close>

text \<open>
  \<open>h\<close> is the goroutine holding the mutex, \<open>k\<close> the one that was woken and has not run yet, \<open>st\<close> the starvation mode.
  In starvation mode the mutex is handed over: its next holder is \<open>k\<close>, which is counted as a waiter until it runs.
\<close>

definition mutex_ok :: "gid option \<Rightarrow> gid option \<Rightarrow> bool \<Rightarrow> mutex \<Rightarrow> (gid \<Rightarrow> phase) \<Rightarrow> bool" where
  "mutex_ok h k st w ph \<longleftrightarrow>
     m_state w = word (h \<noteq> None) (k \<noteq> None \<and> \<not> st) st (length (m_waiters w) + of_bool (st \<and> h = None)) \<and>
     m_sema w = of_bool (k \<noteq> None) \<and> m_awoken w = of_bool (k \<noteq> None) \<and>
     (st \<longrightarrow> (k \<noteq> None) = (h = None)) \<and> (st \<and> h \<noteq> None \<longrightarrow> m_waiters w \<noteq> []) \<and>
     (h = None \<and> m_waiters w \<noteq> [] \<longrightarrow> k \<noteq> None) \<and>
     distinct (m_waiters w) \<and> (\<forall>g. g \<in> set (m_waiters w) \<longleftrightarrow> is_Queued (ph g)) \<and>
     (\<forall>g. h = Some g \<longleftrightarrow> is_Holding (ph g)) \<and> (\<forall>g. k = Some g \<longleftrightarrow> is_Woken (ph g)) \<and> (\<forall>g. \<not> is_Running (ph g))"

lemma mutex_ok_start: "mutex_ok None None False (mu unlocked) (phase_of unlocked)"
  by (simp add: mutex_ok_def unlocked_def word_def)

lemma semacquire_blocks: "m_sema w = m_awoken w \<Longrightarrow>
    semacquire g lifo w = (True, w\<lparr>m_waiters := if lifo then g # m_waiters w else m_waiters w @ [g]\<rparr>)"
  by (simp add: semacquire_def js_shr_0)

lemma lock_from_eval:
  assumes "Suc c < 2 ^ 28" "m_state w = word l wk s c" "woke \<longrightarrow> wk" "m_sema w = m_awoken w"
  shows "lock_from g n woke m now w = Inr
    (if \<not> l \<and> \<not> s then (Holding, w\<lparr>m_state := word True (wk \<and> \<not> woke) False c\<rparr>)
     else (Queued n (if is_zero m then now else m),
           w\<lparr>m_state := word l (wk \<and> \<not> woke) (s \<or> n \<and> l) (Suc c), m_waiters := if is_zero m then m_waiters w @ [g] else g # m_waiters w\<rparr>))"
proof -
  have c: "c < 2 ^ 28" using assms(1) by simp
  have "js_and (word l wk s c) 5 = 0 \<longleftrightarrow> \<not> l \<and> \<not> s" by (cases l; cases s; simp add: word_tests [OF c])
  moreover have "lock_word n woke (word l wk s c) = Inr (word (l \<or> \<not> s) (wk \<and> \<not> woke) (s \<or> n \<and> l) (if l \<or> s then Suc c else c))"
    using assms(3) by (simp add: lock_word_eval [OF assms(1)])
  ultimately show ?thesis using assms(4)
    by (cases l; cases s; simp add: lock_from_def Let_def assms(2) semacquire_blocks)
qed

text \<open>A goroutine that comes to the slow path from outside.\<close>

lemma lock_new:
  assumes ok: "mutex_ok h k st w ph" and g: "is_Idle (ph g)" and b: "length (m_waiters w) < 2 ^ 28 - 4"
  shows "\<exists>p w'. lock_from g False False zero64 now w = Inr (p, w') \<and>
    length (m_waiters w') \<le> Suc (length (m_waiters w)) \<and>
    (if h = None \<and> \<not> st then p = Holding \<and> mutex_ok (Some g) k st w' (ph(g := p))
     else p = Queued False now \<and> mutex_ok h k st w' (ph(g := p)) \<and> m_waiters w' = m_waiters w @ [g])"
proof -
  let ?c = "length (m_waiters w) + of_bool (st \<and> h = None)"
  have c: "Suc ?c < 2 ^ 28" "?c < 2 ^ 28" using b by simp_all
  have q: "m_state w = word (h \<noteq> None) (k \<noteq> None \<and> \<not> st) st ?c" "m_sema w = m_awoken w" using ok by (simp_all add: mutex_ok_def)
  have z: "is_zero zero64" by (simp add: is_zero_def zero64_def)
  note e = lock_from_eval [OF c(1) q(1), of False, simplified simp_thms, OF TrueI q(2)] z
  have nq: "g \<notin> set (m_waiters w)" "h \<noteq> Some g" "k \<noteq> Some g" using ok g by (auto simp: mutex_ok_def)
  show ?thesis
  proof (cases "h = None \<and> \<not> st")
    case True
    then have "lock_from g False False zero64 now w = Inr (Holding, w\<lparr>m_state := word True (k \<noteq> None) False (length (m_waiters w))\<rparr>)"
      by (simp add: e)
    moreover have "mutex_ok (Some g) k st (w\<lparr>m_state := word True (k \<noteq> None) False (length (m_waiters w))\<rparr>) (ph(g := Holding))"
      using ok True nq by (auto simp: mutex_ok_def)
    ultimately show ?thesis using True by simp
  next
    case False
    let ?w = "w\<lparr>m_state := word (h \<noteq> None) (k \<noteq> None \<and> \<not> st) st (Suc ?c), m_waiters := m_waiters w @ [g]\<rparr>"
    have "lock_from g False False zero64 now w = Inr (Queued False now, ?w)"
      using False by (auto simp: e)
    moreover have "mutex_ok h k st ?w (ph(g := Queued False now))"
      using ok False nq by (auto simp: mutex_ok_def)
    ultimately show ?thesis using False by simp
  qed
qed

text \<open>The woken goroutine, outside the starvation mode: it competes again.\<close>

lemma lock_again:
  assumes ok: "mutex_ok h (Some g) False w ph" and b: "length (m_waiters w) < 2 ^ 28 - 4"
  shows "\<exists>p w'. lock_from g n True m now (sema_resume w) = Inr (p, w') \<and>
    length (m_waiters w') \<le> Suc (length (m_waiters w)) \<and>
    (if h = None then p = Holding \<and> mutex_ok (Some g) None False w' (ph(g := p))
     else is_Queued p \<and> mutex_ok h None n w' (ph(g := p)))"
proof -
  let ?c = "length (m_waiters w)"
  have c: "Suc ?c < 2 ^ 28" "?c < 2 ^ 28" using b by simp_all
  have q: "m_state w = word (h \<noteq> None) True False ?c" "m_sema w = 1" "m_awoken w = 1" using ok by (simp_all add: mutex_ok_def)
  have r: "sema_resume w = w\<lparr>m_awoken := 0, m_sema := 0\<rparr>" using q by (simp add: sema_resume_def js_shr_0)
  have e: "lock_from g n True m now (sema_resume w) = Inr
      (if h = None then (Holding, w\<lparr>m_state := word True False False ?c, m_awoken := 0, m_sema := 0\<rparr>)
       else (Queued n (if is_zero m then now else m), w\<lparr>m_state := word True False n (Suc ?c), m_awoken := 0, m_sema := 0,
         m_waiters := if is_zero m then m_waiters w @ [g] else g # m_waiters w\<rparr>))"
    using lock_from_eval [OF c(1), of "sema_resume w" "h \<noteq> None" True False True g n m now] by (simp add: r q(1))
  have nq: "g \<notin> set (m_waiters w)" "h \<noteq> Some g" using ok by (auto simp: mutex_ok_def)
  show ?thesis
  proof (cases h)
    case None
    let ?w = "w\<lparr>m_state := word True False False ?c, m_awoken := 0, m_sema := 0\<rparr>"
    have "lock_from g n True m now (sema_resume w) = Inr (Holding, ?w)" by (simp add: e None)
    moreover have "mutex_ok (Some g) None False ?w (ph(g := Holding))"
      using ok None nq by (auto simp: mutex_ok_def)
    ultimately show ?thesis using None by simp
  next
    case (Some a)
    let ?ws = "if is_zero m then m_waiters w @ [g] else g # m_waiters w"
    let ?w = "w\<lparr>m_state := word True False n (Suc ?c), m_awoken := 0, m_sema := 0, m_waiters := ?ws\<rparr>"
    let ?m = "if is_zero m then now else m"
    have "lock_from g n True m now (sema_resume w) = Inr (Queued n ?m, ?w)" by (simp add: e Some)
    moreover have "mutex_ok h None n ?w (ph(g := Queued n ?m))"
      using ok Some nq by (auto simp: mutex_ok_def)
    ultimately show ?thesis using Some by auto
  qed
qed

text \<open>The woken goroutine in starvation mode: the mutex is handed to it.\<close>

lemma lock_handoff:
  assumes ok: "mutex_ok h (Some g) True w ph" and b: "length (m_waiters w) < 2 ^ 28 - 4"
  shows "\<exists>w' st'. resume g n m now w = Inr (Holding, w') \<and> mutex_ok (Some g) None st' w' (ph(g := Holding)) \<and>
    m_waiters w' = m_waiters w"
proof -
  let ?c = "Suc (length (m_waiters w))"
  have h: "h = None" using ok by (simp add: mutex_ok_def)
  have c: "Suc ?c < 2 ^ 28" "?c < 2 ^ 28" using b by simp_all
  have q: "m_state w = word False False True ?c" "m_sema w = 1" "m_awoken w = 1" using ok h by (simp_all add: mutex_ok_def)
  have r: "sema_resume w = w\<lparr>m_awoken := 0, m_sema := 0\<rparr>" using q by (simp add: sema_resume_def js_shr_0)
  have nq: "g \<notin> set (m_waiters w)" using ok by (auto simp: mutex_ok_def)
  let ?s = "\<not> (\<not> (n \<or> too_long now m) \<or> m_waiters w = [])"
  let ?w = "w\<lparr>m_state := word True False ?s (length (m_waiters w)), m_awoken := 0, m_sema := 0\<rparr>"
  have "js_sar (int ?c) 0 = int ?c" "js_sar (-7 - 4) 0 = -11" using c by (simp_all add: js_sar_eq ToInt32_id)
  then have "resume g n m now w = Inr (Holding, ?w)"
    using word_add(3,4) [OF c(1)]
    by (auto simp: resume_def acquired_def Let_def r q(1) word_tests [OF c(2)])
  moreover have "mutex_ok (Some g) None ?s ?w (ph(g := Holding))"
    using ok h nq by (auto simp: mutex_ok_def)
  ultimately show ?thesis by auto
qed

lemma semrelease_eval: "m_sema w = 0 \<Longrightarrow> m_awoken w = 0 \<Longrightarrow> m_waiters w = a # ws \<Longrightarrow>
    semrelease w = (Some a, w\<lparr>m_sema := 1, m_waiters := ws, m_awoken := 1\<rparr>)"
  by (simp add: semrelease_def js_shr_0 Let_def)

text \<open>\<open>Unlock\<close> by the holder.\<close>

lemma unlock_ok:
  assumes ok: "mutex_ok (Some g) k st w ph" and b: "length (m_waiters w) < 2 ^ 28 - 4"
  shows "\<exists>k' w'. mutex_Unlock w = Inr (k', w') \<and> length (m_waiters w') \<le> length (m_waiters w) \<and>
    mutex_ok None (if k = None then k' else k) st w' (wake_up k' (ph(g := Idle))) \<and>
    k' = (if k = None \<and> m_waiters w \<noteq> [] then Some (hd (m_waiters w)) else None)"
proof -
  let ?c = "length (m_waiters w)"
  have c: "Suc ?c < 2 ^ 28" "?c < 2 ^ 28" using b by simp_all
  have q: "m_state w = word True (k \<noteq> None \<and> \<not> st) st ?c" "m_sema w = of_bool (k \<noteq> None)" "m_awoken w = of_bool (k \<noteq> None)"
    "st \<longrightarrow> k = None \<and> m_waiters w \<noteq> []" using ok by (auto simp: mutex_ok_def)
  have t: "js_sar (word False (k \<noteq> None \<and> \<not> st) st ?c + 1) 0 = word True (k \<noteq> None \<and> \<not> st) st ?c"
    using word_range [OF c(2), of True "k \<noteq> None \<and> \<not> st" st] by (simp add: word_def js_sar_eq ToInt32_id)
  have c': "js_sar (int ?c) 0 = int ?c" using b by (simp add: js_sar_eq ToInt32_id)
  have e: "mutex_Unlock w =
      (if st then Inr (semrelease (w\<lparr>m_state := word False False True ?c\<rparr>))
       else if ?c = 0 \<or> k \<noteq> None then Inr (None, w\<lparr>m_state := word False (k \<noteq> None) False ?c\<rparr>)
       else Inr (semrelease (w\<lparr>m_state := js_or (js_sar (word False False False ?c - 8) 0) 2\<rparr>)))"
    using q(4) unfolding mutex_Unlock_def q(1) word_add(2) [OF c(1) TrueI] Let_def prod.case t word_tests [OF c(2)] c'
    by (cases st; cases "k = None") simp_all
  show ?thesis
  proof (cases "m_waiters w")
    case Nil
    then have "\<not> st" using q(4) by blast
    then have "mutex_Unlock w = Inr (None, w\<lparr>m_state := word False (k \<noteq> None) False 0\<rparr>)" using Nil by (simp add: e)
    then show ?thesis using ok Nil by (auto simp: mutex_ok_def wake_up_def)
  next
    case (Cons a ws)
    have a: "is_Queued (ph a)" "a \<noteq> g" using ok Cons by (auto simp: mutex_ok_def)
    then obtain n m where p: "ph a = Queued n m" by (auto simp: is_Queued_def)
    show ?thesis
    proof (cases "k = None")
      case True
      have "js_or (js_sar (word False False False ?c - 8) 0) 2 = word False True False (length ws)"
        using word_add(5) [OF c(1)] word_set(3) [of "length ws"] c Cons by simp
      then have "mutex_Unlock w = Inr (Some a, w\<lparr>m_state := word False (\<not> st) st (if st then ?c else length ws), m_sema := 1, m_waiters := ws, m_awoken := 1\<rparr>)"
        using True Cons q(2,3) by (cases st) (simp_all add: e semrelease_eval)
      moreover have "mutex_ok None (Some a) st (w\<lparr>m_state := word False (\<not> st) st (if st then ?c else length ws), m_sema := 1, m_waiters := ws, m_awoken := 1\<rparr>)
          (wake_up (Some a) (ph(g := Idle)))"
        using ok True Cons a p by (auto simp: mutex_ok_def wake_up_def wake_phase_def)
      ultimately show ?thesis using True Cons by simp
    next
      case False
      then have st: "\<not> st" using q(4) by blast
      then have "mutex_Unlock w = Inr (None, w\<lparr>m_state := word False True False ?c\<rparr>)" using False by (simp add: e)
      then show ?thesis using ok False st by (auto simp: mutex_ok_def wake_up_def)
    qed
  qed
qed

section \<open>Every run of goroutines\<close>

text \<open>A step that can be taken succeeds, and keeps the invariant.\<close>

lemma mutex_step_ok:
  assumes ok: "mutex_ok h k st (mu s) (phase_of s)" and b: "length (m_waiters (mu s)) < 2 ^ 28 - 4" and e: "mutex_step e s = Some r"
  shows "\<exists>t h' k' st'. r = Inr t \<and> mutex_ok h' k' st' (mu t) (phase_of t) \<and> length (m_waiters (mu t)) \<le> Suc (length (m_waiters (mu s))) \<and>
    (st \<and> k \<noteq> None \<and> (\<forall>g now. k = Some g \<longrightarrow> e \<noteq> DoResume g now) \<longrightarrow> h' = h \<and> k' = k \<and> st' = st)"
proof (cases e)
  case (DoLock g now)
  then have g: "is_Idle (phase_of s g)" and r: "r = set_phase g (mutex_Lock g now (mu s)) s"
    using e by (auto simp: mutex_step_def split: phase.splits)
  show ?thesis
  proof (cases "m_state (mu s) = 0")
    case True
    let ?w = "(mu s)\<lparr>m_state := 1\<rparr>"
    have "h = None" "m_waiters (mu s) = []" "k = None" "\<not> st" using ok True by (auto simp: mutex_ok_def word_zero)
    then have "mutex_ok (Some g) None False ?w ((phase_of s)(g := Holding))"
      using ok g by (auto simp: mutex_ok_def word_def)
    then show ?thesis using True \<open>\<not> st\<close> by (auto simp: r set_phase_def mutex_Lock_def CompareAndSwapInt32_def)
  next
    case False
    then have "mutex_Lock g now (mu s) = lock_from g False False zero64 now (mu s)" by (simp add: mutex_Lock_def CompareAndSwapInt32_def)
    then obtain p w' where l: "r = Inr \<lparr>mu = w', phase_of = (phase_of s)(g := p)\<rparr>" "length (m_waiters w') \<le> Suc (length (m_waiters (mu s)))"
      "if h = None \<and> \<not> st then p = Holding \<and> mutex_ok (Some g) k st w' ((phase_of s)(g := p))
       else p = Queued False now \<and> mutex_ok h k st w' ((phase_of s)(g := p)) \<and> m_waiters w' = m_waiters (mu s) @ [g]"
      using lock_new [OF ok g b, of now] by (auto simp: r set_phase_def)
    show ?thesis
    proof (cases "h = None \<and> \<not> st")
      case True
      have "mutex_ok (Some g) k st w' ((phase_of s)(g := p))" using l(3) unfolding if_P [OF True] by (rule conjunct2)
      then show ?thesis using l(1,2) True by auto
    next
      case False
      then have "mutex_ok h k st w' ((phase_of s)(g := p))" using l(3) by meson
      then show ?thesis using l(1,2) by auto
    qed
  qed
next
  case (DoResume g now)
  have "\<not> is_Running (phase_of s g)" using ok by (simp add: mutex_ok_def)
  then obtain n m where g: "phase_of s g = Woken n m" and r: "r = set_phase g (resume g n m now (mu s)) s"
    using e DoResume by (auto simp: mutex_step_def split: phase.splits)
  then have k: "k = Some g" using ok by (auto simp: mutex_ok_def)
  show ?thesis
  proof (cases st)
    case True
    then obtain w' st' where "r = Inr \<lparr>mu = w', phase_of = (phase_of s)(g := Holding)\<rparr>" "m_waiters w' = m_waiters (mu s)"
      "mutex_ok (Some g) None st' w' ((phase_of s)(g := Holding))"
      using lock_handoff [of h g "mu s" "phase_of s" n m now] ok b k by (auto simp: r set_phase_def)
    then show ?thesis using k DoResume by auto
  next
    case False
    then have q: "m_state (mu s) = word (h \<noteq> None) True False (length (m_waiters (mu s)))" using ok k by (simp add: mutex_ok_def)
    have "resume g n m now (mu s) = lock_from g (n \<or> too_long now m) True m now (sema_resume (mu s))"
      using word_tests(3) [of "length (m_waiters (mu s))"] b by (simp add: resume_def acquired_def sema_resume_def Let_def q)
    moreover have "mutex_ok h (Some g) False (mu s) (phase_of s)" using ok k False by simp
    ultimately obtain p w' h' st' where "r = Inr \<lparr>mu = w', phase_of = (phase_of s)(g := p)\<rparr>"
      "length (m_waiters w') \<le> Suc (length (m_waiters (mu s)))" "mutex_ok h' None st' w' ((phase_of s)(g := p))"
      using lock_again [of h g "mu s" "phase_of s" "n \<or> too_long now m" m now] b
      by (auto simp: r set_phase_def split: if_splits)
    then show ?thesis using False by auto
  qed
next
  case (DoUnlock g)
  then have "is_Holding (phase_of s g)" and r: "r = res_bind (mutex_Unlock (mu s)) (\<lambda>(h, w). Inr \<lparr>mu = w, phase_of = wake_up h ((phase_of s)(g := Idle))\<rparr>)"
    using e by (auto simp: mutex_step_def split: phase.splits)
  then have h: "h = Some g" using ok by (auto simp: mutex_ok_def)
  have "\<not> (st \<and> k \<noteq> None)" using ok h by (auto simp: mutex_ok_def)
  moreover obtain k' w' where "r = Inr \<lparr>mu = w', phase_of = wake_up k' ((phase_of s)(g := Idle))\<rparr>"
    "length (m_waiters w') \<le> length (m_waiters (mu s))"
    "mutex_ok None (if k = None then k' else k) st w' (wake_up k' ((phase_of s)(g := Idle)))"
    using unlock_ok [of g k st "mu s" "phase_of s"] ok b h by (auto simp: r)
  ultimately show ?thesis by auto
qed

lemma reachable_ok: "locking_reachable s \<Longrightarrow> \<exists>h k st. mutex_ok h k st (mu s) (phase_of s)"
proof (induction rule: locking_reachable.induct)
  case start
  then show ?case using mutex_ok_start by blast
next
  case (step s e t)
  then obtain h k st where "mutex_ok h k st (mu s) (phase_of s)" by blast
  from mutex_step_ok [OF this step(2,3)] obtain h' k' st' where "mutex_ok h' k' st' (mu t) (phase_of t)" by blast
  then show ?case by blast
qed

fun mutex_run :: "mutex_event list \<Rightarrow> locking \<Rightarrow> locking option" where
  "mutex_run [] s = Some s"
| "mutex_run (e # es) s = (case mutex_step e s of Some (Inr t) \<Rightarrow> mutex_run es t | _ \<Rightarrow> None)"

text \<open>While a goroutine is being handed the mutex, the others cannot take it.\<close>

lemma handoff_run:
  "mutex_ok h (Some a) True (mu s) (phase_of s) \<Longrightarrow> mutex_run es s = Some u \<Longrightarrow> (\<forall>now. DoResume a now \<notin> set es) \<Longrightarrow>
    length (m_waiters (mu s)) + length es < 2 ^ 28 - 4 \<Longrightarrow> mutex_ok h (Some a) True (mu u) (phase_of u)"
proof (induction es arbitrary: s)
  case (Cons e es)
  then obtain r where r: "mutex_step e s = Some r" by (auto split: option.splits)
  have b: "length (m_waiters (mu s)) < 2 ^ 28 - 4" using Cons.prems(4) by simp
  have "e \<noteq> DoResume a now" for now using Cons.prems(3) by auto
  then obtain t where "r = Inr t" "mutex_ok h (Some a) True (mu t) (phase_of t)" "length (m_waiters (mu t)) \<le> Suc (length (m_waiters (mu s)))"
    using mutex_step_ok [OF Cons.prems(1) b r] by auto
  then show ?case using Cons.IH [of t] Cons.prems(2-4) r by auto
qed simp

lemma run_reachable:
  "mutex_run es s = Some u \<Longrightarrow> locking_reachable s \<Longrightarrow> length (m_waiters (mu s)) + length es < 2 ^ 28 - 4 \<Longrightarrow> locking_reachable u"
proof (induction es arbitrary: s)
  case (Cons e es)
  then obtain t where t: "mutex_step e s = Some (Inr t)" "mutex_run es t = Some u" by (auto split: option.splits sum.splits)
  have b: "length (m_waiters (mu s)) < 2 ^ 28 - 4" using Cons.prems(3) by simp
  obtain h k st where "mutex_ok h k st (mu s) (phase_of s)" using reachable_ok [OF Cons.prems(2)] by blast
  from mutex_step_ok [OF this b t(1)] have "length (m_waiters (mu t)) \<le> Suc (length (m_waiters (mu s)))" by blast
  then show ?case using Cons.IH [OF t(2)] locking_reachable.step [OF Cons.prems(2) b t(1)] Cons.prems(3) by simp
qed simp

text \<open>
  Two runs: three goroutines lock and the first unlocks; a goroutine that was woken after two seconds finds the mutex
  taken again and turns the starvation mode on.
\<close>

definition at_ms :: "int \<Rightarrow> js64" where "at_ms t = \<lparr>ctor = KInt64, high = 0, low = t * 1000000\<rparr>"

definition contended :: locking where
  "contended = the (mutex_run [DoLock 0 (at_ms 1), DoLock 1 (at_ms 1), DoLock 2 (at_ms 1), DoUnlock 0] unlocked)"

definition starved :: locking where
  "starved = the (mutex_run [DoLock 0 (at_ms 1), DoLock 1 (at_ms 1), DoUnlock 0, DoLock 0 (at_ms 2), DoResume 1 (at_ms 2000)] unlocked)"

lemma run_reachable_the:
  "mutex_run es unlocked \<noteq> None \<Longrightarrow> length es < 1000 \<Longrightarrow> locking_reachable (the (mutex_run es unlocked))"
  using run_reachable [of es unlocked] locking_reachable.start by (auto simp: unlocked_def)

lemma lock_bit:
  assumes "locking_reachable s" "length (m_waiters (mu s)) < 2 ^ 28 - 4"
  shows "js_and (m_state (mu s)) 1 = 1 \<longleftrightarrow> (\<exists>g. is_Holding (phase_of s g))"
proof -
  obtain h k st where ok: "mutex_ok h k st (mu s) (phase_of s)" using reachable_ok [OF assms(1)] by blast
  let ?c = "length (m_waiters (mu s)) + of_bool (st \<and> h = None)"
  have "m_state (mu s) = word (h \<noteq> None) (k \<noteq> None \<and> \<not> st) st ?c" and h: "\<forall>g. h = Some g \<longleftrightarrow> is_Holding (phase_of s g)"
    using ok by (simp_all add: mutex_ok_def)
  moreover have "?c < 2 ^ 28" using assms(2) by simp
  ultimately show ?thesis by (auto simp: word_tests(1))
qed

lemma contended_facts:
  "locking_reachable contended" "length (m_waiters (mu contended)) = 1" "is_Queued (phase_of contended 2)"
  "js_and (m_state (mu contended)) 1 = 0"
proof -
  show "locking_reachable contended" unfolding contended_def by (rule run_reachable_the) code_simp+
qed code_simp+

lemma starved_facts:
  "locking_reachable starved" "length (m_waiters (mu starved)) = 1" "is_Holding (phase_of starved 0)" "js_and (m_state (mu starved)) 4 = 4"
  "hd (m_waiters (mu starved)) = 1"
proof -
  show "locking_reachable starved" unfolding starved_def by (rule run_reachable_the) code_simp+
qed code_simp+

text \<open>C7: mutual exclusion: in every state reached by any interleaving of \<open>Lock\<close>, wake-ups and \<open>Unlock\<close> at most one goroutine
  holds the mutex, the locked bit says whether one does, and no step that a goroutine can take ends in a fatal error.\<close>

theorem mutex_safe:
  assumes "locking_reachable s" "length (m_waiters (mu s)) < 2 ^ 28 - 4"
  shows "(\<forall>g g'. is_Holding (phase_of s g) \<and> is_Holding (phase_of s g') \<longrightarrow> g = g') \<and>
    (js_and (m_state (mu s)) 1 = 1 \<longleftrightarrow> (\<exists>g. is_Holding (phase_of s g))) \<and>
    (\<forall>e r. mutex_step e s = Some r \<longrightarrow> (\<exists>t. r = Inr t))"
proof -
  obtain h k st where ok: "mutex_ok h k st (mu s) (phase_of s)" using reachable_ok [OF assms(1)] by blast
  then have h: "\<forall>g. h = Some g \<longleftrightarrow> is_Holding (phase_of s g)" by (simp add: mutex_ok_def)
  have "\<forall>g g'. is_Holding (phase_of s g) \<and> is_Holding (phase_of s g') \<longrightarrow> g = g'" using h by (metis option.inject)
  moreover have "\<forall>e r. mutex_step e s = Some r \<longrightarrow> (\<exists>t. r = Inr t)" using mutex_step_ok [OF ok assms(2)] by blast
  ultimately show ?thesis using lock_bit [OF assms] by blast
qed

theorem mutex_safe_witness:
  "(\<forall>g. is_Holding (phase_of starved g) = (g = 0)) \<and> (\<exists>t. mutex_step (DoUnlock 0) starved = Some (Inr t))"
proof -
  have safe: "(\<forall>g g'. is_Holding (phase_of starved g) \<and> is_Holding (phase_of starved g') \<longrightarrow> g = g') \<and>
    (js_and (m_state (mu starved)) 1 = 1 \<longleftrightarrow> (\<exists>g. is_Holding (phase_of starved g))) \<and>
    (\<forall>e r. mutex_step e starved = Some r \<longrightarrow> (\<exists>t. r = Inr t))"
    by (rule mutex_safe) (simp_all add: starved_facts)
  have "\<exists>r. mutex_step (DoUnlock 0) starved = Some r"
    using starved_facts(3) by (simp add: mutex_step_def is_Holding_def)
  with safe show ?thesis using starved_facts(3) by blast
qed

text \<open>C23: no lost wake-up: when the mutex is free and goroutines wait for it, exactly one goroutine has been woken, and when
  it runs it holds the mutex.\<close>

theorem mutex_no_lost_wakeup:
  assumes "locking_reachable s" "length (m_waiters (mu s)) < 2 ^ 28 - 4"
    and "\<forall>g. \<not> is_Holding (phase_of s g)" "is_Queued (phase_of s q)"
  shows "\<exists>k. (\<forall>g. is_Woken (phase_of s g) \<longleftrightarrow> g = k) \<and>
    (\<forall>now. \<exists>t. mutex_step (DoResume k now) s = Some (Inr t) \<and> phase_of t k = Holding)"
proof -
  obtain h k st where ok: "mutex_ok h k st (mu s) (phase_of s)" using reachable_ok [OF assms(1)] by blast
  have h: "h = None" using ok assms(3) by (auto simp: mutex_ok_def)
  have "m_waiters (mu s) \<noteq> []" using ok assms(4) by (auto simp: mutex_ok_def)
  then obtain a where a: "k = Some a" using ok h by (auto simp: mutex_ok_def)
  have w: "is_Woken (phase_of s g) \<longleftrightarrow> g = a" for g using ok a by (auto simp: mutex_ok_def)
  have "\<exists>t. mutex_step (DoResume a now) s = Some (Inr t) \<and> phase_of t a = Holding" for now
  proof -
    obtain n m where p: "phase_of s a = Woken n m" using w [of a] by (auto simp: is_Woken_def)
    have "\<exists>w'. resume a n m now (mu s) = Inr (Holding, w')"
    proof (cases st)
      case True
      then show ?thesis using lock_handoff [of h a "mu s" "phase_of s" n m now] ok a assms(2) by auto
    next
      case False
      then have q: "m_state (mu s) = word False True False (length (m_waiters (mu s)))" using ok a h by (simp add: mutex_ok_def)
      have "resume a n m now (mu s) = lock_from a (n \<or> too_long now m) True m now (sema_resume (mu s))"
        using word_tests(3) [of "length (m_waiters (mu s))"] assms(2) by (simp add: resume_def acquired_def sema_resume_def Let_def q)
      then show ?thesis using lock_again [of h a "mu s" "phase_of s" "n \<or> too_long now m" m now] ok a assms(2) False h by auto
    qed
    then show ?thesis using p by (auto simp: mutex_step_def set_phase_def)
  qed
  with w show ?thesis by blast
qed

theorem mutex_no_lost_wakeup_witness:
  "\<exists>k. (\<forall>g. is_Woken (phase_of contended g) \<longleftrightarrow> g = k) \<and>
    (\<forall>now. \<exists>t. mutex_step (DoResume k now) contended = Some (Inr t) \<and> phase_of t k = Holding)"
proof (rule mutex_no_lost_wakeup [OF _ _ _ contended_facts(3)])
  show "\<forall>g. \<not> is_Holding (phase_of contended g)" using lock_bit [of contended] contended_facts by simp
qed (simp_all add: contended_facts)

text \<open>hand-over in starvation mode: \<open>Unlock\<close> wakes the goroutine that has waited at the head of the queue, and whatever the
  others do before it runs, \<open>Lock\<close> included, none of them gets the mutex.\<close>

theorem mutex_handoff:
  assumes "locking_reachable s" "length (m_waiters (mu s)) + length es < 2 ^ 28 - 4"
    and "is_Holding (phase_of s g)" "js_and (m_state (mu s)) 4 = 4"
    and "mutex_step (DoUnlock g) s = Some (Inr t)"
    and "mutex_run es t = Some u" "\<forall>now. DoResume (hd (m_waiters (mu s))) now \<notin> set es"
  shows "is_Woken (phase_of u (hd (m_waiters (mu s)))) \<and> (\<forall>x. \<not> is_Holding (phase_of u x))"
proof -
  obtain h k st where ok: "mutex_ok h k st (mu s) (phase_of s)" using reachable_ok [OF assms(1)] by blast
  have h: "h = Some g" using ok assms(3) by (auto simp: mutex_ok_def)
  have b: "length (m_waiters (mu s)) < 2 ^ 28 - 4" using assms(2) by simp
  have "m_state (mu s) = word True (k \<noteq> None \<and> \<not> st) st (length (m_waiters (mu s)))" using ok h by (simp add: mutex_ok_def)
  then have st: "st" using assms(4) b word_tests(3) [of "length (m_waiters (mu s))"] by (cases st) simp_all
  then have k: "k = None" "m_waiters (mu s) \<noteq> []" using ok h by (auto simp: mutex_ok_def)
  let ?a = "hd (m_waiters (mu s))"
  have "phase_of s g = Holding" using assms(3) by (simp add: is_Holding_def)
  then obtain w' where t: "t = \<lparr>mu = w', phase_of = wake_up (Some ?a) ((phase_of s)(g := Idle))\<rparr>"
    "length (m_waiters w') \<le> length (m_waiters (mu s))" "mutex_ok None (Some ?a) True w' (wake_up (Some ?a) ((phase_of s)(g := Idle)))"
    using unlock_ok [of g k st "mu s" "phase_of s"] ok h b k st assms(5) by (auto simp: mutex_step_def)
  have "mutex_ok None (Some ?a) True (mu u) (phase_of u)"
    using handoff_run [of None ?a t es u] t assms(2,6,7) by simp
  then show ?thesis by (auto simp: mutex_ok_def)
qed

theorem mutex_handoff_witness:
  "\<exists>t u. mutex_step (DoUnlock 0) starved = Some (Inr t) \<and> mutex_run [DoLock 2 (at_ms 2000)] t = Some u \<and>
    is_Woken (phase_of u 1) \<and> (\<forall>x. \<not> is_Holding (phase_of u x))"
proof -
  have "mutex_run [DoUnlock 0, DoLock 2 (at_ms 2000)] starved \<noteq> None" by code_simp
  then obtain t u where t: "mutex_step (DoUnlock 0) starved = Some (Inr t)" "mutex_run [DoLock 2 (at_ms 2000)] t = Some u"
    by (auto split: option.splits sum.splits)
  have "is_Woken (phase_of u (hd (m_waiters (mu starved)))) \<and> (\<forall>x. \<not> is_Holding (phase_of u x))"
    by (intro mutex_handoff [OF starved_facts(1) _ starved_facts(3,4) t]) (simp_all add: starved_facts)
  with t show ?thesis by (auto simp: starved_facts)
qed

end
