(* ===== verification/Sync_RWMutex.thy ===== *)
theory Sync_RWMutex
  imports Sync_Mutex
begin

text \<open>
  \<open>sync.RWMutex\<close>: a mutex \<open>w\<close> for the writers, two semaphores, the count of readers, which a writer lowers by
  \<open>rwmutexMaxReaders\<close> to announce itself, and the count of readers that writer still waits for.  As for the mutex, a goroutine
  runs without interruption up to the point where it blocks.
\<close>

section \<open>The code\<close>

text \<open>Where a goroutine is: outside, waiting or woken as a reader, reading, in the writers' mutex, waiting or woken as the writer, writing.\<close>

datatype rw_phase = Outside | R_Queued | R_Woken | Reading | W_Locking | W_Queued | W_Woken | Writing

record rwmutex =
  rw_w :: locking
  rw_writerSem :: sema
  rw_readerSem :: sema
  rw_readerCount :: int
  rw_readerWait :: int
  rw_phase_of :: "gid \<Rightarrow> rw_phase"

definition rw_at :: "gid \<Rightarrow> rw_phase \<Rightarrow> rwmutex \<Rightarrow> rwmutex" where
  "rw_at g p s = s\<lparr>rw_phase_of := (rw_phase_of s)(g := p)\<rparr>"

definition rw_wake :: "gid option \<Rightarrow> rwmutex \<Rightarrow> rwmutex" where
  "rw_wake h s = (case h of None \<Rightarrow> s
     | Some g \<Rightarrow> rw_at g (case rw_phase_of s g of R_Queued \<Rightarrow> R_Woken | W_Queued \<Rightarrow> W_Woken | p \<Rightarrow> p) s)"

definition RWMutex_RLock :: "gid \<Rightarrow> rwmutex \<Rightarrow> rwmutex" where
  "RWMutex_RLock g s =
     (let (c, x) = AddInt32 (rw_readerCount s) 1; s = s\<lparr>rw_readerCount := x\<rparr> in
      if c < 0 then
        let (blocked, q) = semacquire g False (rw_readerSem s)
        in rw_at g (if blocked then R_Queued else Reading) (s\<lparr>rw_readerSem := q\<rparr>)
      else rw_at g Reading s)"

definition RLock_resume :: "gid \<Rightarrow> rwmutex \<Rightarrow> rwmutex" where
  "RLock_resume g s = rw_at g Reading (s\<lparr>rw_readerSem := sema_resume (rw_readerSem s)\<rparr>)"

definition RWMutex_RUnlock :: "gid \<Rightarrow> rwmutex \<Rightarrow> rwmutex res" where
  "RWMutex_RUnlock g s =
     (let (m, x) = AddInt32 (rw_readerCount s) (-1); s = rw_at g Outside (s\<lparr>rw_readerCount := x\<rparr>) in
      if m < 0 then
        (if js_sar (m + 1) 0 = 0 \<or> js_sar (m + 1) 0 = -1073741824 then Inl (RuntimeError ''sync: RUnlock of unlocked RWMutex'')
         else let (k, y) = AddInt32 (rw_readerWait s) (-1); s = s\<lparr>rw_readerWait := y\<rparr> in
           if k = 0 then let (h, q) = semrelease (rw_writerSem s) in Inr (rw_wake h (s\<lparr>rw_writerSem := q\<rparr>))
           else Inr s)
      else Inr s)"

text \<open>\<open>Lock\<close>, once \<open>w.Lock\<close> has returned.\<close>

definition rw_announce :: "gid \<Rightarrow> rwmutex \<Rightarrow> rwmutex" where
  "rw_announce g s =
     (let (x, y) = AddInt32 (rw_readerCount s) (-1073741824); m = js_sar (x + 1073741824) 0; s = s\<lparr>rw_readerCount := y\<rparr> in
      if m = 0 then rw_at g Writing s
      else let (k, y) = AddInt32 (rw_readerWait s) m; s = s\<lparr>rw_readerWait := y\<rparr> in
        if k = 0 then rw_at g Writing s
        else let (blocked, q) = semacquire g False (rw_writerSem s)
          in rw_at g (if blocked then W_Queued else Writing) (s\<lparr>rw_writerSem := q\<rparr>))"

definition after_mutex :: "gid \<Rightarrow> locking res option \<Rightarrow> rwmutex \<Rightarrow> rwmutex res option" where
  "after_mutex g r s = map_option (\<lambda>r. res_bind r (\<lambda>l. let s = s\<lparr>rw_w := l\<rparr> in
     Inr (case phase_of l g of Holding \<Rightarrow> rw_announce g s | _ \<Rightarrow> rw_at g W_Locking s))) r"

definition RWMutex_Lock :: "gid \<Rightarrow> js64 \<Rightarrow> rwmutex \<Rightarrow> rwmutex res option" where
  "RWMutex_Lock g now s = after_mutex g (mutex_step (DoLock g now) (rw_w s)) s"

definition Lock_resume :: "gid \<Rightarrow> rwmutex \<Rightarrow> rwmutex" where
  "Lock_resume g s = rw_at g Writing (s\<lparr>rw_writerSem := sema_resume (rw_writerSem s)\<rparr>)"

text \<open>\<open>Unlock\<close>: one release of the readers' semaphore for every reader that waits, then \<open>w.Unlock\<close>.\<close>

fun release_readers :: "nat \<Rightarrow> rwmutex \<Rightarrow> rwmutex" where
  "release_readers 0 s = s"
| "release_readers (Suc n) s = (let (h, q) = semrelease (rw_readerSem s) in release_readers n (rw_wake h (s\<lparr>rw_readerSem := q\<rparr>)))"

definition RWMutex_Unlock :: "gid \<Rightarrow> rwmutex \<Rightarrow> rwmutex res option" where
  "RWMutex_Unlock g s =
     (let (m, x) = AddInt32 (rw_readerCount s) 1073741824; s = s\<lparr>rw_readerCount := x\<rparr> in
      if m \<ge> 1073741824 then Some (Inl (RuntimeError ''sync: Unlock of unlocked RWMutex''))
      else let s = release_readers (nat (js_sar m 0)) s in
        map_option (\<lambda>r. res_bind r (\<lambda>l. Inr (rw_at g Outside (s\<lparr>rw_w := l\<rparr>)))) (mutex_step (DoUnlock g) (rw_w s)))"

datatype rw_event = Do_RLock gid | Do_RResume gid | Do_RUnlock gid | Do_Lock gid js64 | Do_MResume gid js64 | Do_WResume gid | Do_Unlock gid

definition rw_step :: "rw_event \<Rightarrow> rwmutex \<Rightarrow> rwmutex res option" where
  "rw_step e s =
     (case e of
        Do_RLock g \<Rightarrow> (if rw_phase_of s g = Outside then Some (Inr (RWMutex_RLock g s)) else None)
      | Do_RResume g \<Rightarrow> (if rw_phase_of s g = R_Woken then Some (Inr (RLock_resume g s)) else None)
      | Do_RUnlock g \<Rightarrow> (if rw_phase_of s g = Reading then Some (RWMutex_RUnlock g s) else None)
      | Do_Lock g now \<Rightarrow> (if rw_phase_of s g = Outside then RWMutex_Lock g now s else None)
      | Do_MResume g now \<Rightarrow> (if rw_phase_of s g = W_Locking then after_mutex g (mutex_step (DoResume g now) (rw_w s)) s else None)
      | Do_WResume g \<Rightarrow> (if rw_phase_of s g = W_Woken then Some (Inr (Lock_resume g s)) else None)
      | Do_Unlock g \<Rightarrow> (if rw_phase_of s g = Writing then RWMutex_Unlock g s else None))"

definition free_sema :: sema where "free_sema = \<lparr>m_sema = 0, m_waiters = [], m_awoken = 0\<rparr>"

definition rw_unlocked :: rwmutex where
  "rw_unlocked = \<lparr>rw_w = unlocked, rw_writerSem = free_sema, rw_readerSem = free_sema, rw_readerCount = 0, rw_readerWait = 0,
     rw_phase_of = (\<lambda>g. Outside)\<rparr>"

text \<open>The code allows fewer than \<open>2 ^ 30\<close> readers at a time (\<open>rwmutexMaxReaders\<close>); their number can be read off the count.\<close>

definition rw_readers :: "rwmutex \<Rightarrow> nat" where
  "rw_readers s = nat (rw_readerCount s mod 2 ^ 30)"

definition rw_room :: "rwmutex \<Rightarrow> bool" where
  "rw_room s \<longleftrightarrow> rw_readers s < 2 ^ 30 - 1 \<and> length (m_waiters (mu (rw_w s))) < 2 ^ 28 - 4"

inductive rw_reachable :: "rwmutex \<Rightarrow> bool" where
  start: "rw_reachable rw_unlocked"
| step: "rw_reachable s \<Longrightarrow> rw_room s \<Longrightarrow> rw_step e s = Some (Inr t) \<Longrightarrow> rw_reachable t"

section \<open>The writers' mutex\<close>

definition locking_ok :: "locking \<Rightarrow> bool" where
  "locking_ok l \<longleftrightarrow> (\<exists>h k st. mutex_ok h k st (mu l) (phase_of l))"

lemma locking_facts:
  assumes "locking_ok l"
  shows "is_Holding (phase_of l g) \<Longrightarrow> is_Holding (phase_of l g') \<Longrightarrow> g = g'"
    and "is_Queued (phase_of l q) \<Longrightarrow> (\<exists>g. is_Holding (phase_of l g)) \<or> (\<exists>g. is_Woken (phase_of l g))"
    and "\<not> is_Running (phase_of l g)"
proof -
  obtain h k st where ok: "mutex_ok h k st (mu l) (phase_of l)" using assms by (auto simp: locking_ok_def)
  then have h: "\<And>g. is_Holding (phase_of l g) \<longleftrightarrow> h = Some g" and k: "\<And>g. is_Woken (phase_of l g) \<longleftrightarrow> k = Some g"
    and iq: "\<And>g. is_Queued (phase_of l g) \<longleftrightarrow> g \<in> set (m_waiters (mu l))"
    by (simp_all add: mutex_ok_def)
  have "h = None \<and> m_waiters (mu l) \<noteq> [] \<longrightarrow> k \<noteq> None" using ok unfolding mutex_ok_def by blast
  then have f: "h = None \<Longrightarrow> q \<in> set (m_waiters (mu l)) \<Longrightarrow> k \<noteq> None" by fastforce
  show "is_Holding (phase_of l g) \<Longrightarrow> is_Holding (phase_of l g') \<Longrightarrow> g = g'" using h by simp
  show "is_Queued (phase_of l q) \<Longrightarrow> (\<exists>g. is_Holding (phase_of l g)) \<or> (\<exists>g. is_Woken (phase_of l g))"
    using h k iq f by (cases h; cases k) auto
  show "\<not> is_Running (phase_of l g)" using ok by (simp add: mutex_ok_def)
qed

lemma locking_step:
  assumes "locking_ok l" "length (m_waiters (mu l)) < 2 ^ 28 - 4" "mutex_step e l = Some r"
  shows "\<exists>l'. r = Inr l' \<and> locking_ok l'"
proof -
  obtain h k st where ok: "mutex_ok h k st (mu l) (phase_of l)" using assms by (auto simp: locking_ok_def)
  then show ?thesis using mutex_step_ok [OF ok assms(2,3)] by (auto simp: locking_ok_def)
qed

lemma wake_phase_simps [simp]:
  "is_Holding (wake_phase p) \<longleftrightarrow> is_Holding p" "wake_phase p = Idle \<longleftrightarrow> p = Idle"
  "is_Queued (wake_phase p) \<or> is_Woken (wake_phase p) \<longleftrightarrow> is_Queued p \<or> is_Woken p"
  by (cases p; simp add: wake_phase_def)+

lemma wake_up_apply: "wake_up k ph x = (if k = Some x then wake_phase (ph x) else ph x)"
  by (simp add: wake_up_def split: option.splits)

lemma locking_phases:
  "mutex_step (DoLock g now) l = Some (Inr l') \<Longrightarrow> x \<noteq> g \<Longrightarrow> phase_of l' x = phase_of l x"
  "mutex_step (DoResume g now) l = Some (Inr l') \<Longrightarrow> x \<noteq> g \<Longrightarrow> phase_of l' x = phase_of l x"
  "mutex_step (DoUnlock g) l = Some (Inr l') \<Longrightarrow> \<exists>k. phase_of l' = wake_up k ((phase_of l)(g := Idle))"
  by (auto simp: mutex_step_def set_phase_def res_bind_Inr_iff split: phase.splits)

text \<open>What a step of the mutex does to the goroutines' places in it.\<close>

definition in_mutex :: "phase \<Rightarrow> bool" where
  "in_mutex p \<longleftrightarrow> is_Queued p \<or> is_Woken p"

lemma in_mutex_wake [simp]: "in_mutex (wake_phase p) \<longleftrightarrow> in_mutex p"
  by (simp add: in_mutex_def)

section \<open>The invariant\<close>

definition actives :: "(gid \<Rightarrow> rw_phase) \<Rightarrow> gid set" where
  "actives ph = {g. ph g = R_Woken \<or> ph g = Reading}"

definition wokens :: "(gid \<Rightarrow> rw_phase) \<Rightarrow> gid set" where
  "wokens ph = {g. ph g = R_Woken}"

definition is_writer :: "rw_phase \<Rightarrow> bool" where
  "is_writer p \<longleftrightarrow> p = W_Queued \<or> p = W_Woken \<or> p = Writing"

text \<open>\<open>wr\<close> is the goroutine that has the writers' mutex, if any, and where it is.\<close>

definition rw_ok :: "(gid \<times> rw_phase) option \<Rightarrow> rwmutex \<Rightarrow> bool" where
  "rw_ok wr s \<longleftrightarrow> locking_ok (rw_w s) \<and>
     (\<forall>g. is_Holding (phase_of (rw_w s) g) \<longleftrightarrow> is_writer (rw_phase_of s g)) \<and>
     (\<forall>g. in_mutex (phase_of (rw_w s) g) \<longleftrightarrow> rw_phase_of s g = W_Locking) \<and>
     (\<forall>g p. wr = Some (g, p) \<longleftrightarrow> rw_phase_of s g = p \<and> is_writer p) \<and>
     finite (actives (rw_phase_of s)) \<and>
     distinct (m_waiters (rw_readerSem s)) \<and> (\<forall>g. g \<in> set (m_waiters (rw_readerSem s)) \<longleftrightarrow> rw_phase_of s g = R_Queued) \<and>
     m_sema (rw_readerSem s) = int (card (wokens (rw_phase_of s))) \<and> m_awoken (rw_readerSem s) = m_sema (rw_readerSem s) \<and>
     rw_readerCount s = int (card (actives (rw_phase_of s))) + int (length (m_waiters (rw_readerSem s))) - (if wr = None then 0 else 2 ^ 30) \<and>
     card (actives (rw_phase_of s)) + length (m_waiters (rw_readerSem s)) < 2 ^ 30 \<and>
     (wr = None \<longrightarrow> m_waiters (rw_readerSem s) = []) \<and>
     (case wr of
        Some (g, W_Queued) \<Rightarrow> rw_writerSem s = \<lparr>m_sema = 0, m_waiters = [g], m_awoken = 0\<rparr> \<and>
          rw_readerWait s = int (card (actives (rw_phase_of s))) \<and> actives (rw_phase_of s) \<noteq> {}
      | Some (g, W_Woken) \<Rightarrow> rw_writerSem s = \<lparr>m_sema = 1, m_waiters = [], m_awoken = 1\<rparr> \<and> rw_readerWait s = 0 \<and> actives (rw_phase_of s) = {}
      | Some (g, _) \<Rightarrow> rw_writerSem s = free_sema \<and> rw_readerWait s = 0 \<and> actives (rw_phase_of s) = {}
      | None \<Rightarrow> rw_writerSem s = free_sema \<and> rw_readerWait s = 0)"

lemma rw_writer_at: "rw_ok (Some (h, p)) s \<Longrightarrow> rw_phase_of s h = p \<and> is_writer p \<and> is_Holding (phase_of (rw_w s) h)"
proof -
  assume "rw_ok (Some (h, p)) s"
  note a = this [unfolded rw_ok_def]
  have w: "\<forall>g q. Some (h, p) = Some (g, q) \<longleftrightarrow> rw_phase_of s g = q \<and> is_writer q" using a by (elim conjE)
  have m: "\<forall>g. is_Holding (phase_of (rw_w s) g) \<longleftrightarrow> is_writer (rw_phase_of s g)" using a by (elim conjE)
  show ?thesis using w [rule_format, of h p] m [rule_format, of h] by simp
qed

lemma card_readers:
  assumes "rw_ok wr s"
  shows "rw_readers s = card (actives (rw_phase_of s)) + length (m_waiters (rw_readerSem s))"
proof -
  define n where "n = card (actives (rw_phase_of s)) + length (m_waiters (rw_readerSem s))"
  have "rw_readerCount s = int n - (if wr = None then 0 else 2 ^ 30)" "n < 2 ^ 30" using assms by (simp_all add: rw_ok_def n_def)
  then have "rw_readerCount s mod 2 ^ 30 = int n" by (simp split: if_splits)
  then show ?thesis by (simp add: rw_readers_def n_def)
qed

lemma rw_ok_start: "rw_ok None rw_unlocked"
  using mutex_ok_start
  by (auto simp: rw_ok_def rw_unlocked_def free_sema_def actives_def wokens_def is_writer_def in_mutex_def locking_ok_def unlocked_def)

lemma sema_blocks: "m_sema q = m_awoken q \<Longrightarrow> semacquire g False q = (True, q\<lparr>m_waiters := m_waiters q @ [g]\<rparr>)"
  by (simp add: semacquire_def js_shr_0)

lemma rw_at_simps [simp]:
  "rw_w (rw_at g p s) = rw_w s" "rw_writerSem (rw_at g p s) = rw_writerSem s" "rw_readerSem (rw_at g p s) = rw_readerSem s"
  "rw_readerCount (rw_at g p s) = rw_readerCount s" "rw_readerWait (rw_at g p s) = rw_readerWait s"
  "rw_phase_of (rw_at g p s) = (rw_phase_of s)(g := p)"
  by (simp_all add: rw_at_def)

lemma actives_upd:
  "actives (ph(g := p)) = (if p = R_Woken \<or> p = Reading then insert g (actives ph) else actives ph - {g})"
  by (auto simp: actives_def)

lemma wokens_upd:
  "wokens (ph(g := p)) = (if p = R_Woken then insert g (wokens ph) else wokens ph - {g})"
  by (auto simp: wokens_def)

lemma not_among: "ph g \<noteq> R_Woken \<Longrightarrow> wokens ph - {g} = wokens ph"
  by (auto simp: wokens_def)

lemma RLock_ok:
  assumes ok: "rw_ok wr s" and g: "rw_phase_of s g = Outside" and room: "rw_room s"
  shows "rw_ok wr (RWMutex_RLock g s)"
proof -
  let ?A = "actives (rw_phase_of s)" and ?Q = "m_waiters (rw_readerSem s)"
  have c: "card ?A + length ?Q < 2 ^ 30 - 1" using room card_readers [OF ok] by (simp add: rw_room_def)
  have A: "finite ?A" "g \<notin> ?A" using ok g by (auto simp: rw_ok_def actives_def)
  have gq: "g \<notin> set ?Q" using ok g by (auto simp: rw_ok_def)
  have cnt: "rw_readerCount s = int (card ?A) + int (length ?Q) - (if wr = None then 0 else 2 ^ 30)" using ok by (simp add: rw_ok_def)
  have add: "AddInt32 (rw_readerCount s) 1 = (rw_readerCount s + 1, rw_readerCount s + 1)"
    using c by (simp add: AddInt32_def Let_def js_sar_eq ToInt32_id cnt)
  have neg: "rw_readerCount s + 1 < 0 \<longleftrightarrow> wr \<noteq> None" using c by (simp add: cnt)
  show ?thesis
  proof (cases wr)
    case None
    then have eq: "RWMutex_RLock g s = rw_at g Reading (s\<lparr>rw_readerCount := rw_readerCount s + 1\<rparr>)"
      using neg by (simp add: RWMutex_RLock_def add)
    show ?thesis unfolding eq using ok A g cnt None c
      by (auto simp: rw_ok_def actives_upd wokens_upd not_among is_writer_def)
  next
    case (Some gp)
    have "semacquire g False (rw_readerSem s) = (True, (rw_readerSem s)\<lparr>m_waiters := ?Q @ [g]\<rparr>)"
      using ok by (intro sema_blocks) (simp add: rw_ok_def)
    then have eq: "RWMutex_RLock g s = rw_at g R_Queued (s\<lparr>rw_readerCount := rw_readerCount s + 1,
        rw_readerSem := (rw_readerSem s)\<lparr>m_waiters := ?Q @ [g]\<rparr>\<rparr>)"
      using neg Some by (simp add: RWMutex_RLock_def add)
    have act: "actives ((rw_phase_of s)(g := R_Queued)) = ?A" using A by (simp add: actives_upd)
    show ?thesis unfolding eq rw_ok_def using ok g gq Some act c unfolding rw_ok_def
      by (simp add: is_writer_def wokens_upd not_among) (auto simp: is_writer_def)
  qed
qed

lemma RLock_resume_ok:
  assumes ok: "rw_ok wr s" and g: "rw_phase_of s g = R_Woken" and room: "rw_room s"
  shows "rw_ok wr (RLock_resume g s)"
proof -
  let ?ph = "rw_phase_of s"
  have A: "finite (actives ?ph)" "g \<in> actives ?ph" "finite (wokens ?ph)" "g \<in> wokens ?ph" "card (wokens ?ph) \<le> card (actives ?ph)"
    using ok g by (auto simp: rw_ok_def actives_def wokens_def intro: finite_subset [of _ "actives ?ph"] card_mono)
  have c: "card (wokens ?ph) < 2 ^ 30" "0 < card (wokens ?ph)"
    using room card_readers [OF ok] A by (auto simp: rw_room_def card_gt_0_iff)
  have q: "m_sema (rw_readerSem s) = int (card (wokens ?ph))" "m_awoken (rw_readerSem s) = int (card (wokens ?ph))"
    using ok by (auto simp: rw_ok_def)
  have r: "sema_resume (rw_readerSem s) = (rw_readerSem s)\<lparr>m_awoken := int (card (wokens ?ph - {g})), m_sema := int (card (wokens ?ph - {g}))\<rparr>"
    using c A(3,4) by (simp add: sema_resume_def q js_shr_0 of_nat_diff)
  have act: "actives (?ph(g := Reading)) = actives ?ph" "wokens (?ph(g := Reading)) = wokens ?ph - {g}"
    using A(2) by (auto simp: actives_upd wokens_upd)
  show ?thesis unfolding RLock_resume_def r rw_ok_def using ok g unfolding rw_ok_def
    by (simp add: is_writer_def act cong: option.case_cong rw_phase.case_cong) (auto simp: is_writer_def)
qed

text \<open>\<open>RUnlock\<close> of the last reader a writer waits for wakes the writer.\<close>

lemma RUnlock_ok:
  assumes ok: "rw_ok wr s" and g: "rw_phase_of s g = Reading" and room: "rw_room s"
  shows "\<exists>t wr'. RWMutex_RUnlock g s = Inr t \<and> rw_ok wr' t"
proof -
  let ?ph = "rw_phase_of s" and ?Q = "m_waiters (rw_readerSem s)"
  let ?A = "actives ?ph"
  have A: "finite ?A" "g \<in> ?A" using ok g by (auto simp: rw_ok_def actives_def)
  then have a: "0 < card ?A" "card (?A - {g}) = card ?A - 1" by (auto simp: card_gt_0_iff)
  have c: "card ?A + length ?Q < 2 ^ 30 - 1" using room card_readers [OF ok] by (simp add: rw_room_def)
  have cnt: "rw_readerCount s = int (card ?A) + int (length ?Q) - (if wr = None then 0 else 2 ^ 30)" using ok by (simp add: rw_ok_def)
  have add: "AddInt32 (rw_readerCount s) (-1) = (rw_readerCount s - 1, rw_readerCount s - 1)"
    using c a by (simp add: AddInt32_def Let_def js_sar_eq ToInt32_id cnt)
  have act: "actives (?ph(g := Outside)) = ?A - {g}" "wokens (?ph(g := Outside)) = wokens ?ph"
    using g by (auto simp: actives_upd wokens_upd wokens_def)
  show ?thesis
  proof (cases wr)
    case None
    then have "\<not> rw_readerCount s - 1 < 0" using a cnt by simp
    then have eq: "RWMutex_RUnlock g s = Inr (rw_at g Outside (s\<lparr>rw_readerCount := rw_readerCount s - 1\<rparr>))"
      by (simp add: RWMutex_RUnlock_def add)
    have "rw_ok None (rw_at g Outside (s\<lparr>rw_readerCount := rw_readerCount s - 1\<rparr>))"
      unfolding rw_ok_def using ok g a None unfolding rw_ok_def
      by (simp add: act) (auto simp: is_writer_def)
    then show ?thesis using eq by blast
  next
    case (Some hp)
    then obtain h where wr: "wr = Some (h, W_Queued)" "rw_phase_of s h = W_Queued"
      "rw_writerSem s = \<lparr>m_sema = 0, m_waiters = [h], m_awoken = 0\<rparr>" "rw_readerWait s = int (card ?A)"
      using ok A(2) by (cases hp; cases "snd hp") (auto simp: rw_ok_def is_writer_def)
    have s0: "js_sar (rw_readerCount s - 1 + 1) 0 = rw_readerCount s" "rw_readerCount s < 0" "rw_readerCount s \<noteq> - (2 ^ 30)"
      using c a wr(1) by (simp_all add: cnt js_sar_eq ToInt32_id)
    have w: "AddInt32 (rw_readerWait s) (-1) = (int (card ?A - 1), int (card ?A - 1))"
      using c a by (simp add: AddInt32_def Let_def js_sar_eq ToInt32_id wr(4) of_nat_diff)
    have hg: "h \<noteq> g" using wr(2) g by auto
    let ?s = "rw_at g Outside (s\<lparr>rw_readerCount := rw_readerCount s - 1, rw_readerWait := int (card ?A - 1)\<rparr>)"
    show ?thesis
    proof (cases "card ?A = 1")
      case True
      then have A0: "?A - {g} = {}" using a A by (metis card_0_eq diff_self_eq_0 finite_Diff)
      have "semrelease (rw_writerSem s) = (Some h, \<lparr>m_sema = 1, m_waiters = [], m_awoken = 1\<rparr>)"
        by (simp add: semrelease_def wr(3) Let_def js_shr_0)
      then have eq: "RWMutex_RUnlock g s = Inr (rw_at h W_Woken (?s\<lparr>rw_writerSem := \<lparr>m_sema = 1, m_waiters = [], m_awoken = 1\<rparr>\<rparr>))"
        using s0 w True hg wr(2) by (simp add: RWMutex_RUnlock_def add Let_def rw_at_def rw_wake_def)
      have act2: "actives (?ph(g := Outside, h := W_Woken)) = {}" "wokens (?ph(g := Outside, h := W_Woken)) = wokens ?ph"
        using A0 g wr(2) by (auto simp: actives_upd wokens_upd wokens_def)
      have "rw_ok (Some (h, W_Woken)) (rw_at h W_Woken (?s\<lparr>rw_writerSem := \<lparr>m_sema = 1, m_waiters = [], m_awoken = 1\<rparr>\<rparr>))"
        unfolding rw_ok_def using ok g wr True hg unfolding rw_ok_def
        by (simp add: act2) (auto simp: is_writer_def)
      then show ?thesis using eq by blast
    next
      case False
      then have eq: "RWMutex_RUnlock g s = Inr ?s" using s0 w a by (simp add: RWMutex_RUnlock_def add Let_def rw_at_def)
      have "?A - {g} \<noteq> {}" using False a by (metis card.empty One_nat_def Suc_pred)
      then have "rw_ok wr ?s" unfolding rw_ok_def using ok g wr a unfolding rw_ok_def
        by (simp add: act) (auto simp: is_writer_def)
      then show ?thesis using eq by blast
    qed
  qed
qed

lemma lock_from_phase: "lock_from g n woke m now w = Inr (p, w') \<Longrightarrow> p \<noteq> Idle"
  by (auto simp: lock_from_def Let_def res_bind_Inr_iff split: prod.splits if_splits)

lemma acquired_phase: "acquired g n m now w = Inr (p, w') \<Longrightarrow> p \<noteq> Idle"
  by (auto simp: acquired_def Let_def lock_from_phase split: if_splits)

lemma mutex_step_phase:
  "mutex_step (DoLock g now) l = Some (Inr l') \<Longrightarrow> phase_of l' g \<noteq> Idle"
  "mutex_step (DoResume g now) l = Some (Inr l') \<Longrightarrow> phase_of l' g \<noteq> Idle"
  by (auto simp: mutex_step_def set_phase_def res_bind_Inr_iff mutex_Lock_def resume_def dest: lock_from_phase acquired_phase
      split: phase.splits prod.splits bool.splits)

lemma announce_ok:
  assumes ok: "rw_ok None s" and g: "rw_phase_of s g = Outside \<or> rw_phase_of s g = W_Locking" and room: "rw_room s"
    and l: "locking_ok l" "phase_of l g = Holding" "\<And>x. x \<noteq> g \<Longrightarrow> phase_of l x = phase_of (rw_w s) x"
  shows "\<exists>wr. rw_ok wr (rw_announce g (s\<lparr>rw_w := l\<rparr>))"
proof -
  let ?ph = "rw_phase_of s"
  let ?A = "actives ?ph"
  have Q: "m_waiters (rw_readerSem s) = []" "rw_writerSem s = free_sema" "rw_readerWait s = 0" "rw_readerCount s = int (card ?A)" "finite ?A"
    using ok by (auto simp: rw_ok_def)
  have c: "card ?A < 2 ^ 30 - 1" using room card_readers [OF ok] by (simp add: rw_room_def Q)
  have nact: "g \<notin> ?A" "?ph g \<noteq> R_Woken" "?ph g \<noteq> R_Queued" using g by (auto simp: actives_def)
  have act: "actives (?ph(g := p)) = ?A" "wokens (?ph(g := p)) = wokens ?ph" if "is_writer p" for p
    using nact that by (auto simp: actives_upd wokens_upd not_among is_writer_def)
  have im: "\<not> in_mutex Holding" "is_Holding Holding" by (simp_all add: in_mutex_def)
  have nw: "\<not> is_writer (?ph x)" for x using ok by (auto simp: rw_ok_def)
  have nq: "?ph x \<noteq> R_Queued" for x using ok Q(1) by (auto simp: rw_ok_def)
  have a: "AddInt32 (rw_readerCount s) (-1073741824) = (rw_readerCount s - 2 ^ 30, rw_readerCount s - 2 ^ 30)"
    "js_sar (rw_readerCount s - 2 ^ 30 + 1073741824) 0 = rw_readerCount s"
    using c by (simp_all add: AddInt32_def Let_def js_sar_eq ToInt32_id Q(4))
  show ?thesis
  proof (cases "?A = {}")
    case True
    then have eq: "rw_announce g (s\<lparr>rw_w := l\<rparr>) = rw_at g Writing (s\<lparr>rw_w := l, rw_readerCount := rw_readerCount s - 2 ^ 30\<rparr>)"
      using a Q(4) by (simp add: rw_announce_def Let_def)
    have "rw_ok (Some (g, Writing)) (rw_at g Writing (s\<lparr>rw_w := l, rw_readerCount := rw_readerCount s - 2 ^ 30\<rparr>))"
      unfolding rw_ok_def using ok g l Q True nw nq unfolding rw_ok_def
      by (simp add: act is_writer_def) (auto simp: im l(3))
    then show ?thesis using eq by auto
  next
    case False
    then have n0: "card ?A \<noteq> 0" using Q(5) by simp
    have b: "AddInt32 (rw_readerWait s) (rw_readerCount s) = (rw_readerCount s, rw_readerCount s)"
      using c by (simp add: AddInt32_def Let_def js_sar_eq ToInt32_id Q(3,4))
    have sem: "semacquire g False (rw_writerSem s) = (True, \<lparr>m_sema = 0, m_waiters = [g], m_awoken = 0\<rparr>)"
      by (simp add: semacquire_def Q(2) free_sema_def js_shr_0)
    let ?t = "rw_at g W_Queued (s\<lparr>rw_w := l, rw_readerCount := rw_readerCount s - 2 ^ 30, rw_readerWait := rw_readerCount s,
        rw_writerSem := \<lparr>m_sema = 0, m_waiters = [g], m_awoken = 0\<rparr>\<rparr>)"
    have "rw_readerCount s \<noteq> 0" using n0 Q(4) by simp
    then have eq: "rw_announce g (s\<lparr>rw_w := l\<rparr>) = ?t" using a(2) by (simp add: rw_announce_def Let_def a(1) b sem)
    have "rw_ok (Some (g, W_Queued)) ?t"
      unfolding rw_ok_def using ok g l Q False nw nq unfolding rw_ok_def
      by (simp add: act is_writer_def) (auto simp: im l(3))
    then show ?thesis using eq by auto
  qed
qed

text \<open>A goroutine that comes to the writers' mutex: it gets it and announces itself, or waits there.\<close>

lemma after_mutex_ok:
  assumes ok: "rw_ok wr s" and g: "rw_phase_of s g = Outside \<or> rw_phase_of s g = W_Locking" and room: "rw_room s"
    and e: "e = DoLock g now \<or> e = DoResume g now" and step: "after_mutex g (mutex_step e (rw_w s)) s = Some r"
  shows "\<exists>t wr'. r = Inr t \<and> rw_ok wr' t"
proof -
  obtain q where q: "mutex_step e (rw_w s) = Some q" using step by (cases "mutex_step e (rw_w s)") (auto simp: after_mutex_def)
  have lok: "locking_ok (rw_w s)" "length (m_waiters (mu (rw_w s))) < 2 ^ 28 - 4" using ok room by (simp_all add: rw_ok_def rw_room_def)
  obtain l where l: "q = Inr l" "locking_ok l" using locking_step [OF lok q] by blast
  have ml: "mutex_step e (rw_w s) = Some (Inr l)" using q l by simp
  have other: "phase_of l x = phase_of (rw_w s) x" if "x \<noteq> g" for x using e ml that by (auto intro: locking_phases)
  have idle: "phase_of l g \<noteq> Idle" using e ml by (auto dest: mutex_step_phase)
  have r: "r = Inr (case phase_of l g of Holding \<Rightarrow> rw_announce g (s\<lparr>rw_w := l\<rparr>) | _ \<Rightarrow> rw_at g W_Locking (s\<lparr>rw_w := l\<rparr>))"
    using step q l by (simp add: after_mutex_def Let_def)
  show ?thesis
  proof (cases "phase_of l g = Holding")
    case True
    have "wr = None"
    proof (rule ccontr)
      assume "wr \<noteq> None"
      then obtain h p where "wr = Some (h, p)" by auto
      then have "is_Holding (phase_of (rw_w s) h)" "h \<noteq> g" using ok g rw_writer_at [of h p s] by (auto simp: is_writer_def)
      then have "is_Holding (phase_of l h)" using other by simp
      then show False using locking_facts(1) [OF l(2), of h g] True \<open>h \<noteq> g\<close> by (simp add: is_Holding_def)
    qed
    then show ?thesis using announce_ok [OF _ g room l(2) True other] ok r True by auto
  next
    case False
    let ?t = "rw_at g W_Locking (s\<lparr>rw_w := l\<rparr>)"
    have im: "in_mutex (phase_of l g)" "\<not> is_Holding (phase_of l g)"
      using False idle locking_facts(3) [OF l(2), of g] by (cases "phase_of l g"; simp add: in_mutex_def)+
    have act: "actives ((rw_phase_of s)(g := W_Locking)) = actives (rw_phase_of s)" "wokens ((rw_phase_of s)(g := W_Locking)) = wokens (rw_phase_of s)"
      using g by (auto simp: actives_upd wokens_upd actives_def wokens_def)
    let ?ph = "(rw_phase_of s)(g := W_Locking)"
    have w: "is_Holding (phase_of l x) \<longleftrightarrow> is_writer (?ph x)" "in_mutex (phase_of l x) \<longleftrightarrow> ?ph x = W_Locking"
      "?ph x = R_Queued \<longleftrightarrow> rw_phase_of s x = R_Queued" "?ph x = p \<and> is_writer p \<longleftrightarrow> rw_phase_of s x = p \<and> is_writer p" for x p
      using ok g im other [of x] by (auto simp: rw_ok_def is_writer_def)
    have "rw_ok wr ?t"
      using ok l(2) by (simp add: rw_ok_def act w del: fun_upd_apply cong: option.case_cong prod.case_cong rw_phase.case_cong)
    moreover have "r = Inr ?t" using r False by (cases "phase_of l g") simp_all
    ultimately show ?thesis by blast
  qed
qed

lemma Lock_resume_ok:
  assumes ok: "rw_ok wr s" and g: "rw_phase_of s g = W_Woken"
  shows "rw_ok (Some (g, Writing)) (Lock_resume g s)"
proof -
  have wr: "wr = Some (g, W_Woken)" using ok g by (auto simp: rw_ok_def is_writer_def)
  have r: "sema_resume (rw_writerSem s) = free_sema"
    using ok by (simp add: rw_ok_def wr sema_resume_def free_sema_def js_shr_0)
  have act: "actives ((rw_phase_of s)(g := Writing)) = actives (rw_phase_of s)" "wokens ((rw_phase_of s)(g := Writing)) = wokens (rw_phase_of s)"
    using g by (auto simp: actives_upd wokens_upd actives_def wokens_def)
  show ?thesis unfolding Lock_resume_def r rw_ok_def using ok g unfolding rw_ok_def wr
    by (simp add: act is_writer_def) (auto split: if_splits)
qed

lemma release_all:
  "rw_readerSem s = \<lparr>m_sema = int c, m_waiters = ws, m_awoken = int c\<rparr> \<Longrightarrow> distinct ws \<Longrightarrow> \<forall>x \<in> set ws. rw_phase_of s x = R_Queued \<Longrightarrow>
    c + length ws < 2 ^ 30 \<Longrightarrow> release_readers (length ws) s =
      s\<lparr>rw_readerSem := \<lparr>m_sema = int (c + length ws), m_waiters = [], m_awoken = int (c + length ws)\<rparr>,
        rw_phase_of := (\<lambda>x. if x \<in> set ws then R_Woken else rw_phase_of s x)\<rparr>"
proof (induction ws arbitrary: s c)
  case Nil
  then show ?case by simp
next
  case (Cons w ws)
  let ?q = "\<lparr>m_sema = int (Suc c), m_waiters = ws, m_awoken = int (Suc c)\<rparr>"
  let ?s = "rw_at w R_Woken (s\<lparr>rw_readerSem := ?q\<rparr>)"
  have "semrelease (rw_readerSem s) = (Some w, ?q)"
    using Cons.prems by (simp add: semrelease_def Let_def js_shr_0)
  then have "release_readers (length (w # ws)) s = release_readers (length ws) ?s"
    using Cons.prems(3) by (simp add: rw_wake_def Let_def)
  also have "\<dots> = ?s\<lparr>rw_readerSem := \<lparr>m_sema = int (Suc c + length ws), m_waiters = [], m_awoken = int (Suc c + length ws)\<rparr>,
      rw_phase_of := (\<lambda>x. if x \<in> set ws then R_Woken else rw_phase_of ?s x)\<rparr>"
    by (rule Cons.IH) (use Cons.prems in auto)
  finally show ?case using Cons.prems(2) by (simp add: rw_at_def fun_eq_iff)
qed

lemma Unlock_ok:
  assumes ok: "rw_ok wr s" and g: "rw_phase_of s g = Writing" and room: "rw_room s" and step: "RWMutex_Unlock g s = Some r"
  shows "\<exists>t. r = Inr t \<and> rw_ok None t"
proof -
  let ?ph = "rw_phase_of s"
  define Q where "Q = m_waiters (rw_readerSem s)"
  have wr: "wr = Some (g, Writing)" using ok g by (auto simp: rw_ok_def is_writer_def)
  have A: "actives ?ph = {}" "rw_writerSem s = free_sema" "rw_readerWait s = 0" "distinct Q" "\<And>x. x \<in> set Q \<longleftrightarrow> ?ph x = R_Queued"
    using ok by (auto simp: rw_ok_def wr Q_def)
  have W: "wokens ?ph = {}" using A(1) by (auto simp: actives_def wokens_def)
  have c: "length Q < 2 ^ 30 - 1" using room card_readers [OF ok] A(1) by (simp add: rw_room_def Q_def)
  have cnt: "rw_readerCount s = int (length Q) - 2 ^ 30" using ok A(1) by (simp add: rw_ok_def wr Q_def)
  have add: "AddInt32 (rw_readerCount s) 1073741824 = (int (length Q), int (length Q))" "js_sar (int (length Q)) 0 = int (length Q)"
    using c by (simp_all add: AddInt32_def Let_def js_sar_eq ToInt32_id cnt)
  have sem: "rw_readerSem s = \<lparr>m_sema = int 0, m_waiters = Q, m_awoken = int 0\<rparr>"
    using ok W by (cases "rw_readerSem s") (simp add: rw_ok_def Q_def)
  let ?s = "s\<lparr>rw_readerCount := int (length Q), rw_readerSem := \<lparr>m_sema = int (length Q), m_waiters = [], m_awoken = int (length Q)\<rparr>,
      rw_phase_of := (\<lambda>x. if x \<in> set Q then R_Woken else ?ph x)\<rparr>"
  have rel: "release_readers (length Q) (s\<lparr>rw_readerCount := int (length Q)\<rparr>) = ?s"
    using release_all [of "s\<lparr>rw_readerCount := int (length Q)\<rparr>" 0 Q] sem A(4,5) c by (simp cong: if_cong)
  obtain q where q: "mutex_step (DoUnlock g) (rw_w s) = Some q" "r = res_bind q (\<lambda>l. Inr (rw_at g Outside (?s\<lparr>rw_w := l\<rparr>)))"
    using step c by (auto simp: RWMutex_Unlock_def add Let_def rel)
  have lok: "locking_ok (rw_w s)" "length (m_waiters (mu (rw_w s))) < 2 ^ 28 - 4" using ok room by (simp_all add: rw_ok_def rw_room_def)
  obtain l where l: "q = Inr l" "locking_ok l" using locking_step [OF lok q(1)] by blast
  obtain k where k: "phase_of l = wake_up k ((phase_of (rw_w s))(g := Idle))" using locking_phases(3) q(1) l(1) by blast
  have hold: "is_Holding (phase_of l x) \<longleftrightarrow> is_Holding (phase_of (rw_w s) x) \<and> x \<noteq> g" "in_mutex (phase_of l x) \<longleftrightarrow> in_mutex (phase_of (rw_w s) x) \<and> x \<noteq> g" for x
    by (auto simp: k wake_up_apply in_mutex_def wake_phase_def split: phase.splits)
  let ?ph' = "(\<lambda>x. if x \<in> set Q then R_Woken else ?ph x)(g := Outside)"
  have gQ: "g \<notin> set Q" using A(5) g by simp
  have act: "actives ?ph' = set Q" "wokens ?ph' = set Q"
    using A(1) W gQ by (auto simp: actives_def wokens_def)
  have len: "card (set Q) = length Q" using A(4) by (rule distinct_card)
  have wrt: "is_writer (?ph' x) \<longleftrightarrow> False" for x
    using ok A(5) [of x] unfolding rw_ok_def wr by (auto simp: is_writer_def)
  have h2: "\<not> is_Holding (phase_of l x)" for x using hold(1) ok wrt [of x] A(5) [of x] unfolding rw_ok_def by (auto simp: is_writer_def split: if_splits)
  have i2: "in_mutex (phase_of l x) \<longleftrightarrow> ?ph' x = W_Locking" for x using hold(2) [of x] ok g A(5) [of x] unfolding rw_ok_def by auto
  have nq: "?ph' x \<noteq> R_Queued" for x using A(5) [of x] by auto
  have "rw_ok None (rw_at g Outside (?s\<lparr>rw_w := l\<rparr>))"
    unfolding rw_ok_def using l(2) A(2,3) h2 i2 wrt nq c by (simp add: act len del: fun_upd_apply)
  then show ?thesis using q(2) l(1) by simp
qed

section \<open>Every run of goroutines\<close>

lemma rw_step_ok:
  assumes ok: "rw_ok wr s" and room: "rw_room s" and e: "rw_step e s = Some r"
  shows "\<exists>t wr'. r = Inr t \<and> rw_ok wr' t"
proof (cases e)
  case (Do_RLock g)
  then show ?thesis using RLock_ok [OF ok _ room] e by (auto simp: rw_step_def split: if_splits)
next
  case (Do_RResume g)
  then show ?thesis using RLock_resume_ok [OF ok _ room] e by (auto simp: rw_step_def split: if_splits)
next
  case (Do_RUnlock g)
  then show ?thesis using RUnlock_ok [OF ok _ room] e by (auto simp: rw_step_def split: if_splits)
next
  case (Do_Lock g now)
  then show ?thesis using after_mutex_ok [OF ok _ room, of g "DoLock g now" now] e
    by (auto simp: rw_step_def RWMutex_Lock_def split: if_splits)
next
  case (Do_MResume g now)
  then show ?thesis using after_mutex_ok [OF ok _ room, of g "DoResume g now" now] e by (auto simp: rw_step_def split: if_splits)
next
  case (Do_WResume g)
  then show ?thesis using Lock_resume_ok [OF ok] e by (auto simp: rw_step_def split: if_splits)
next
  case (Do_Unlock g)
  then show ?thesis using Unlock_ok [OF ok _ room, of g r] e by (cases "rw_phase_of s g = Writing") (auto simp: rw_step_def)
qed

lemma rw_reachable_ok: "rw_reachable s \<Longrightarrow> \<exists>wr. rw_ok wr s"
proof (induction rule: rw_reachable.induct)
  case start
  then show ?case using rw_ok_start by blast
next
  case (step s e t)
  then show ?case using rw_step_ok by blast
qed

fun rw_run :: "rw_event list \<Rightarrow> rwmutex \<Rightarrow> rwmutex option" where
  "rw_run [] s = Some s"
| "rw_run (e # es) s = (case rw_step e s of Some (Inr t) \<Rightarrow> rw_run es t | _ \<Rightarrow> None)"

text \<open>Runs on which few goroutines meet, checked by evaluation.\<close>

definition rw_small :: "rwmutex \<Rightarrow> bool" where
  "rw_small s \<longleftrightarrow> rw_readers s < 9 \<and> length (m_waiters (mu (rw_w s))) < 9"

lemma rw_small_room: "rw_small s \<Longrightarrow> rw_room s"
  by (simp add: rw_small_def rw_room_def)

fun all_small :: "rw_event list \<Rightarrow> rwmutex \<Rightarrow> bool" where
  "all_small [] s \<longleftrightarrow> rw_small s"
| "all_small (e # es) s \<longleftrightarrow> rw_small s \<and> (case rw_step e s of Some (Inr t) \<Rightarrow> all_small es t | _ \<Rightarrow> False)"

lemma rw_run_reachable:
  "rw_reachable s \<Longrightarrow> all_small es s \<Longrightarrow> rw_reachable (the (rw_run es s)) \<and> rw_room (the (rw_run es s))"
proof (induction es arbitrary: s)
  case Nil
  then show ?case by (simp add: rw_small_room)
next
  case (Cons e es)
  then obtain u where u: "rw_step e s = Some (Inr u)" "all_small es u" by (auto split: option.splits sum.splits)
  then have "rw_reachable u" using rw_reachable.step [OF Cons.prems(1)] rw_small_room Cons.prems(2) by simp
  then show ?case using Cons.IH u by simp
qed

text \<open>A writer waits for a reader, a second reader waits behind the writer, the first reader leaves.\<close>

definition rw_demo :: rwmutex where
  "rw_demo = the (rw_run [Do_RLock 0, Do_Lock 1 (at_ms 1), Do_RLock 2, Do_RUnlock 0, Do_WResume 1] rw_unlocked)"

lemma rw_demo_facts:
  "rw_reachable rw_demo" "rw_room rw_demo" "rw_phase_of rw_demo 1 = Writing" "rw_phase_of rw_demo 2 = R_Queued"
proof -
  have "all_small [Do_RLock 0, Do_Lock 1 (at_ms 1), Do_RLock 2, Do_RUnlock 0, Do_WResume 1] rw_unlocked" by code_simp
  then show "rw_reachable rw_demo" "rw_room rw_demo" using rw_run_reachable rw_reachable.start unfolding rw_demo_def by blast+
  show "rw_phase_of rw_demo 1 = Writing" unfolding rw_demo_def by code_simp
  show "rw_phase_of rw_demo 2 = R_Queued" unfolding rw_demo_def by code_simp
qed

text \<open>
  C8: \<open>sync.RWMutex\<close> excludes: in every state reached by any interleaving of \<open>RLock\<close>, \<open>RUnlock\<close>, \<open>Lock\<close>, \<open>Unlock\<close> and wake-ups at
  most one goroutine writes, nobody reads while it does, and no step ends in a fatal error.
\<close>

theorem rwmutex_safe:
  assumes "rw_reachable s" "rw_room s"
  shows "(\<forall>g g'. rw_phase_of s g = Writing \<longrightarrow> (rw_phase_of s g' = Writing \<longrightarrow> g = g') \<and> rw_phase_of s g' \<noteq> Reading) \<and>
    (\<forall>e r. rw_step e s = Some r \<longrightarrow> (\<exists>t. r = Inr t))"
proof -
  obtain wr where ok: "rw_ok wr s" using rw_reachable_ok [OF assms(1)] by blast
  have w: "wr = Some (h, Writing)" if "rw_phase_of s h = Writing" for h using ok that by (auto simp: rw_ok_def is_writer_def)
  have "(rw_phase_of s g' = Writing \<longrightarrow> g = g') \<and> rw_phase_of s g' \<noteq> Reading" if g: "rw_phase_of s g = Writing" for g g'
  proof -
    have "actives (rw_phase_of s) = {}" using ok w [OF g] by (simp add: rw_ok_def)
    then show ?thesis using w [OF g] w [of g'] by (auto simp: actives_def)
  qed
  moreover have "\<forall>e r. rw_step e s = Some r \<longrightarrow> (\<exists>t. r = Inr t)" using rw_step_ok [OF ok assms(2)] by blast
  ultimately show ?thesis by blast
qed

theorem rwmutex_safe_witness:
  "(\<forall>g. rw_phase_of rw_demo g = Writing \<longleftrightarrow> g = 1) \<and> (\<exists>t. rw_step (Do_Unlock 1) rw_demo = Some (Inr t))"
proof -
  have "\<not> Option.is_none (rw_step (Do_Unlock 1) rw_demo)" unfolding rw_demo_def by code_simp
  then have "\<exists>r. rw_step (Do_Unlock 1) rw_demo = Some r" by (auto simp: Option.is_none_def)
  then show ?thesis using rwmutex_safe [OF rw_demo_facts(1,2)] rw_demo_facts(3) by blast
qed

text \<open>No lost wake-up: when a goroutine waits, another one reads, writes or has been woken.\<close>

theorem rwmutex_live:
  assumes "rw_reachable s" "rw_phase_of s q = R_Queued \<or> rw_phase_of s q = W_Queued \<or> rw_phase_of s q = W_Locking"
  shows "\<exists>g. rw_phase_of s g = Reading \<or> rw_phase_of s g = R_Woken \<or> rw_phase_of s g = W_Woken \<or> rw_phase_of s g = Writing \<or>
    is_Woken (phase_of (rw_w s) g)"
proof -
  obtain wr where ok: "rw_ok wr s" using rw_reachable_ok [OF assms(1)] by blast
  show ?thesis
  proof (cases wr)
    case None
    then have "rw_phase_of s q = W_Locking" using ok assms(2) unfolding rw_ok_def by (auto simp: is_writer_def)
    then have "in_mutex (phase_of (rw_w s) q)" "locking_ok (rw_w s)" using ok by (auto simp: rw_ok_def)
    moreover have "\<not> is_Holding (phase_of (rw_w s) g)" for g using ok None by (auto simp: rw_ok_def)
    ultimately show ?thesis using locking_facts(2) [of "rw_w s" q] by (auto simp: in_mutex_def)
  next
    case (Some hp)
    then obtain h p where wr: "wr = Some (h, p)" by (metis surj_pair)
    then have h: "rw_phase_of s h = p" "is_writer p" using rw_writer_at ok by auto
    have "\<exists>g. rw_phase_of s g = R_Woken \<or> rw_phase_of s g = Reading" if "p = W_Queued"
      using ok that unfolding rw_ok_def wr by (auto simp: actives_def)
    then show ?thesis using h by (auto simp: is_writer_def)
  qed
qed

theorem rwmutex_live_witness:
  "\<exists>g. rw_phase_of rw_demo g = Reading \<or> rw_phase_of rw_demo g = R_Woken \<or> rw_phase_of rw_demo g = W_Woken \<or>
    rw_phase_of rw_demo g = Writing \<or> is_Woken (phase_of (rw_w rw_demo) g)"
  by (rule rwmutex_live [OF rw_demo_facts(1), of 2]) (simp add: rw_demo_facts)

end
