(* ===== verification/Sync_Once.thy ===== *)
theory Sync_Once
  imports Sync_RWMutex
begin

text \<open>
  \<open>sync.Once\<close>: the fast path on \<open>done\<close>, the slow path under the mutex, and the deferred calls, which set \<open>done\<close> before they release
  the mutex and run whether the function returns or panics.
\<close>

section \<open>The code\<close>

text \<open>Where a goroutine is: before its call of \<open>Do\<close>, in the mutex, in the function, after its call.\<close>

datatype once_phase = O_Outside | O_Locking | O_Running | O_Returned

text \<open>\<open>o_calls\<close> records the calls of the function, by the goroutine that makes them.\<close>

record sync_once =
  o_m :: locking
  o_done :: int
  o_phase_of :: "gid \<Rightarrow> once_phase"
  o_calls :: "gid list"

definition o_at :: "gid \<Rightarrow> once_phase \<Rightarrow> sync_once \<Rightarrow> sync_once" where
  "o_at g p s = s\<lparr>o_phase_of := (o_phase_of s)(g := p)\<rparr>"

text \<open>The deferred \<open>m.Unlock\<close>, and the return.\<close>

definition once_unlock :: "gid \<Rightarrow> sync_once \<Rightarrow> sync_once res option" where
  "once_unlock g s = map_option (\<lambda>r. res_bind r (\<lambda>l. Inr (o_at g O_Returned (s\<lparr>o_m := l\<rparr>)))) (mutex_step (DoUnlock g) (o_m s))"

definition once_locked :: "gid \<Rightarrow> sync_once \<Rightarrow> sync_once res option" where
  "once_locked g s =
     (if o_done s = 0 then Some (Inr (o_at g O_Running (s\<lparr>o_calls := o_calls s @ [g]\<rparr>)))
      else once_unlock g s)"

definition once_enter :: "gid \<Rightarrow> locking res option \<Rightarrow> sync_once \<Rightarrow> sync_once res option" where
  "once_enter g r s =
     (case r of
        None \<Rightarrow> None
      | Some (Inl e) \<Rightarrow> Some (Inl e)
      | Some (Inr l) \<Rightarrow> let s = s\<lparr>o_m := l\<rparr> in
          (case phase_of l g of Holding \<Rightarrow> once_locked g s | _ \<Rightarrow> Some (Inr (o_at g O_Locking s))))"

definition Once_Do :: "gid \<Rightarrow> js64 \<Rightarrow> sync_once \<Rightarrow> sync_once res option" where
  "Once_Do g now s =
     (if LoadUint32 (o_done s) = 1 then Some (Inr (o_at g O_Returned s))
      else once_enter g (mutex_step (DoLock g now) (o_m s)) s)"

definition once_finish :: "gid \<Rightarrow> sync_once \<Rightarrow> sync_once res option" where
  "once_finish g s = once_unlock g (s\<lparr>o_done := StoreUint32 (o_done s) 1\<rparr>)"

text \<open>What can happen: a call, a wake-up in the mutex, the end of the function.\<close>

datatype once_event = Call_Do gid js64 | Call_Resume gid js64 | Call_Finish gid

definition once_step :: "once_event \<Rightarrow> sync_once \<Rightarrow> sync_once res option" where
  "once_step e s =
     (case e of
        Call_Do g now \<Rightarrow> (if o_phase_of s g = O_Outside \<or> o_phase_of s g = O_Returned then Once_Do g now s else None)
      | Call_Resume g now \<Rightarrow> (if o_phase_of s g = O_Locking then once_enter g (mutex_step (DoResume g now) (o_m s)) s else None)
      | Call_Finish g \<Rightarrow> (if o_phase_of s g = O_Running then once_finish g s else None))"

definition once_new :: sync_once where
  "once_new = \<lparr>o_m = unlocked, o_done = 0, o_phase_of = (\<lambda>g. O_Outside), o_calls = []\<rparr>"

definition once_room :: "sync_once \<Rightarrow> bool" where
  "once_room s \<longleftrightarrow> length (m_waiters (mu (o_m s))) < 2 ^ 28 - 5"

inductive once_reachable :: "sync_once \<Rightarrow> bool" where
  start: "once_reachable once_new"
| step: "once_reachable s \<Longrightarrow> once_room s \<Longrightarrow> once_step e s = Some (Inr t) \<Longrightarrow> once_reachable t"

section \<open>The invariant\<close>

definition once_ok :: "sync_once \<Rightarrow> bool" where
  "once_ok s \<longleftrightarrow> locking_ok (o_m s) \<and>
     (\<forall>g. is_Holding (phase_of (o_m s) g) \<longleftrightarrow> o_phase_of s g = O_Running) \<and>
     (\<forall>g. in_mutex (phase_of (o_m s) g) \<longleftrightarrow> o_phase_of s g = O_Locking) \<and>
     (if o_done s = 0 then (\<forall>g. o_phase_of s g \<noteq> O_Returned) \<and>
        (o_calls s = [] \<and> (\<forall>g. o_phase_of s g \<noteq> O_Running) \<or> (\<exists>h. o_calls s = [h] \<and> o_phase_of s h = O_Running))
      else o_done s = 1 \<and> length (o_calls s) = 1 \<and> (\<forall>g. o_phase_of s g \<noteq> O_Running))"

lemma once_ok_new: "once_ok once_new"
  using mutex_ok_start by (auto simp: once_ok_def once_new_def locking_ok_def unlocked_def in_mutex_def)

lemma o_at_simps [simp]:
  "o_m (o_at g p s) = o_m s" "o_done (o_at g p s) = o_done s" "o_calls (o_at g p s) = o_calls s"
  "o_phase_of (o_at g p s) = (o_phase_of s)(g := p)"
  by (simp_all add: o_at_def)

text \<open>The holder releases the mutex.\<close>

lemma holder_unlocks:
  assumes "locking_ok l" "length (m_waiters (mu l)) < 2 ^ 28 - 4" "phase_of l g = Holding"
  shows "\<exists>l'. mutex_step (DoUnlock g) l = Some (Inr l') \<and> locking_ok l' \<and>
    (\<forall>x. \<not> is_Holding (phase_of l' x)) \<and> (\<forall>x. in_mutex (phase_of l' x) \<longleftrightarrow> in_mutex (phase_of l x))"
proof -
  obtain r where r: "mutex_step (DoUnlock g) l = Some r" using assms(3) by (simp add: mutex_step_def)
  then obtain l' where l': "r = Inr l'" "locking_ok l'" using locking_step [OF assms(1,2)] by blast
  then obtain k where k: "phase_of l' = wake_up k ((phase_of l)(g := Idle))" using locking_phases(3) r by blast
  have one: "\<not> is_Holding (phase_of l x)" if "x \<noteq> g" for x using locking_facts(1) [OF assms(1), of x g] assms(3) that by auto
  have "\<not> is_Holding (phase_of l' x)" "in_mutex (phase_of l' x) \<longleftrightarrow> in_mutex (phase_of l x)" for x
    using one [of x] assms(3) by (auto simp: k wake_up_apply in_mutex_def wake_phase_def split: phase.splits)
  then show ?thesis using r l' by blast
qed

lemma locking_grows:
  assumes "locking_ok l" "length (m_waiters (mu l)) < 2 ^ 28 - 5" "mutex_step e l = Some r"
  shows "\<exists>l'. r = Inr l' \<and> locking_ok l' \<and> length (m_waiters (mu l')) < 2 ^ 28 - 4"
proof -
  obtain h k st where ok: "mutex_ok h k st (mu l) (phase_of l)" using assms by (auto simp: locking_ok_def)
  have "length (m_waiters (mu l)) < 2 ^ 28 - 4" using assms(2) by simp
  from mutex_step_ok [OF ok this assms(3)] obtain t h' k' st' where
    "r = Inr t" "mutex_ok h' k' st' (mu t) (phase_of t)" "length (m_waiters (mu t)) \<le> Suc (length (m_waiters (mu l)))" by blast
  then show ?thesis using assms(2) by (auto simp: locking_ok_def)
qed

text \<open>The end of the function, and the slow path that finds it done.\<close>

lemma once_unlock_ok:
  assumes l: "locking_ok (o_m s)" "length (m_waiters (mu (o_m s))) < 2 ^ 28 - 4" "phase_of (o_m s) g = Holding"
    and d: "o_done s = 1" "length (o_calls s) = 1"
    and ph: "\<And>x. x \<noteq> g \<Longrightarrow> o_phase_of s x \<noteq> O_Running \<and> (in_mutex (phase_of (o_m s) x) \<longleftrightarrow> o_phase_of s x = O_Locking)"
  shows "\<exists>t. once_unlock g s = Some (Inr t) \<and> once_ok t"
proof -
  obtain l' where l': "mutex_step (DoUnlock g) (o_m s) = Some (Inr l')" "locking_ok l'" "\<forall>x. \<not> is_Holding (phase_of l' x)"
    "\<forall>x. in_mutex (phase_of l' x) \<longleftrightarrow> in_mutex (phase_of (o_m s) x)"
    using holder_unlocks [OF l] by blast
  have "\<not> in_mutex (phase_of (o_m s) g)" using l(3) by (simp add: in_mutex_def)
  then have "once_ok (o_at g O_Returned (s\<lparr>o_m := l'\<rparr>))" using l' d ph by (auto simp: once_ok_def)
  then show ?thesis using l'(1) by (simp add: once_unlock_def)
qed

lemma once_enter_ok:
  assumes ok: "once_ok s" and room: "once_room s" and g: "o_phase_of s g \<noteq> O_Running"
    and e: "e = DoLock g now \<or> e = DoResume g now" and step: "once_enter g (mutex_step e (o_m s)) s = Some r"
  shows "\<exists>t. r = Inr t \<and> once_ok t"
proof -
  obtain q where q: "mutex_step e (o_m s) = Some q" using step by (auto simp: once_enter_def split: option.splits)
  have lok: "locking_ok (o_m s)" "length (m_waiters (mu (o_m s))) < 2 ^ 28 - 5" using ok room by (simp_all add: once_ok_def once_room_def)
  obtain l where l: "q = Inr l" "locking_ok l" "length (m_waiters (mu l)) < 2 ^ 28 - 4" using locking_grows [OF lok q] by blast
  have ml: "mutex_step e (o_m s) = Some (Inr l)" using q l by simp
  have other: "phase_of l x = phase_of (o_m s) x" if "x \<noteq> g" for x using e ml that by (auto intro: locking_phases)
  have idle: "phase_of l g \<noteq> Idle" using e ml by (auto dest: mutex_step_phase)
  have ph: "is_Holding (phase_of (o_m s) x) \<longleftrightarrow> o_phase_of s x = O_Running" "in_mutex (phase_of (o_m s) x) \<longleftrightarrow> o_phase_of s x = O_Locking" for x
    using ok by (auto simp: once_ok_def)
  show ?thesis
  proof (cases "phase_of l g = Holding")
    case True
    have nr: "o_phase_of s x \<noteq> O_Running" for x
      using locking_facts(1) [OF l(2), of x g] True other [of x] ph(1) [of x] g by (cases "x = g") auto
    have r: "once_locked g (s\<lparr>o_m := l\<rparr>) = Some r" using step ml True by (simp add: once_enter_def)
    show ?thesis
    proof (cases "o_done s = 0")
      case d: True
      have c: "o_calls s = []" "\<And>x. o_phase_of s x \<noteq> O_Returned" using ok d nr unfolding once_ok_def by auto
      have "once_ok (o_at g O_Running (s\<lparr>o_m := l, o_calls := [g]\<rparr>))"
        using l(2) True nr c d ph other by (auto simp: once_ok_def in_mutex_def)
      then show ?thesis using r d c by (auto simp: once_locked_def)
    next
      case d: False
      then have "o_done s = 1" "length (o_calls s) = 1" using ok by (auto simp: once_ok_def)
      moreover have "in_mutex (phase_of l x) \<longleftrightarrow> o_phase_of s x = O_Locking" if "x \<noteq> g" for x using ph(2) [of x] other that by simp
      ultimately show ?thesis using once_unlock_ok [of "s\<lparr>o_m := l\<rparr>" g] l(2,3) True nr r d by (auto simp: once_locked_def)
    qed
  next
    case False
    have im: "in_mutex (phase_of l g)" "\<not> is_Holding (phase_of l g)"
      using False idle locking_facts(3) [OF l(2), of g] by (cases "phase_of l g"; simp add: in_mutex_def)+
    have r: "r = Inr (o_at g O_Locking (s\<lparr>o_m := l\<rparr>))" using step ml False by (cases "phase_of l g") (simp_all add: once_enter_def)
    have a: "locking_ok l" "is_Holding (phase_of l x) \<longleftrightarrow> ((o_phase_of s)(g := O_Locking)) x = O_Running"
      "in_mutex (phase_of l x) \<longleftrightarrow> ((o_phase_of s)(g := O_Locking)) x = O_Locking" for x
      using l(2) im ph [of x] other [of x] by auto
    have "if o_done s = 0 then (\<forall>x. ((o_phase_of s)(g := O_Locking)) x \<noteq> O_Returned) \<and>
        (o_calls s = [] \<and> (\<forall>x. ((o_phase_of s)(g := O_Locking)) x \<noteq> O_Running) \<or>
         (\<exists>h. o_calls s = [h] \<and> ((o_phase_of s)(g := O_Locking)) h = O_Running))
      else o_done s = 1 \<and> length (o_calls s) = 1 \<and> (\<forall>x. ((o_phase_of s)(g := O_Locking)) x \<noteq> O_Running)"
      using ok g unfolding once_ok_def by (auto split: if_splits)
    then have "once_ok (o_at g O_Locking (s\<lparr>o_m := l\<rparr>))" using a by (simp add: once_ok_def del: fun_upd_apply cong: if_cong split del: if_split)
    then show ?thesis using r by blast
  qed
qed

lemma once_step_ok:
  assumes ok: "once_ok s" and room: "once_room s" and e: "once_step e s = Some r"
  shows "\<exists>t. r = Inr t \<and> once_ok t"
proof (cases e)
  case (Call_Do g now)
  then have g: "o_phase_of s g = O_Outside \<or> o_phase_of s g = O_Returned" and d: "Once_Do g now s = Some r"
    using e by (auto simp: once_step_def split: if_splits)
  show ?thesis
  proof (cases "o_done s = 1")
    case True
    have "once_ok (o_at g O_Returned s)" using ok g True by (auto simp: once_ok_def)
    then show ?thesis using d True by (auto simp: Once_Do_def LoadUint32_def)
  next
    case False
    then show ?thesis using d g once_enter_ok [OF ok room, of g "DoLock g now" now r] by (auto simp: Once_Do_def LoadUint32_def)
  qed
next
  case (Call_Resume g now)
  then show ?thesis using once_enter_ok [OF ok room, of g "DoResume g now" now r] e by (auto simp: once_step_def split: if_splits)
next
  case (Call_Finish g)
  then have g: "o_phase_of s g = O_Running" and f: "once_unlock g (s\<lparr>o_done := 1\<rparr>) = Some r"
    using e by (auto simp: once_step_def once_finish_def StoreUint32_def split: if_splits)
  have h: "is_Holding (phase_of (o_m s) g)" using ok g by (simp add: once_ok_def)
  have one: "o_phase_of s x \<noteq> O_Running" if "x \<noteq> g" for x using ok g h that locking_facts(1) [of "o_m s" x g] by (auto simp: once_ok_def)
  have "length (o_calls s) = 1" using ok g by (auto simp: once_ok_def split: if_splits)
  moreover have "in_mutex (phase_of (o_m s) x) \<longleftrightarrow> o_phase_of s x = O_Locking" for x using ok by (simp add: once_ok_def)
  moreover have "phase_of (o_m s) g = Holding" using h by (cases "phase_of (o_m s) g") auto
  moreover have "locking_ok (o_m s)" "length (m_waiters (mu (o_m s))) < 2 ^ 28 - 4" using ok room by (auto simp: once_ok_def once_room_def)
  ultimately show ?thesis using once_unlock_ok [of "s\<lparr>o_done := 1\<rparr>" g] one f by auto
qed

lemma once_reachable_ok: "once_reachable s \<Longrightarrow> once_ok s"
proof (induction rule: once_reachable.induct)
  case start
  then show ?case by (rule once_ok_new)
next
  case (step s e t)
  then show ?case using once_step_ok by blast
qed

section \<open>Runs\<close>

fun once_run :: "once_event list \<Rightarrow> sync_once \<Rightarrow> sync_once option" where
  "once_run [] s = Some s"
| "once_run (e # es) s = (case once_step e s of Some (Inr t) \<Rightarrow> once_run es t | _ \<Rightarrow> None)"

fun once_small :: "once_event list \<Rightarrow> sync_once \<Rightarrow> bool" where
  "once_small [] s \<longleftrightarrow> length (m_waiters (mu (o_m s))) < 9"
| "once_small (e # es) s \<longleftrightarrow> length (m_waiters (mu (o_m s))) < 9 \<and>
     (case once_step e s of Some (Inr t) \<Rightarrow> once_small es t | _ \<Rightarrow> False)"

lemma once_run_reachable:
  "once_reachable s \<Longrightarrow> once_small es s \<Longrightarrow> once_reachable (the (once_run es s)) \<and> once_room (the (once_run es s))"
proof (induction es arbitrary: s)
  case Nil
  then show ?case by (simp add: once_room_def)
next
  case (Cons e es)
  then obtain u where u: "once_step e s = Some (Inr u)" "once_small es u" by (auto split: option.splits sum.splits)
  then have "once_reachable u" using once_reachable.step [OF Cons.prems(1)] Cons.prems(2) by (simp add: once_room_def)
  then show ?case using Cons.IH u by simp
qed

text \<open>Two goroutines call at once: the second waits in the mutex until the first is done, and then finds it done.\<close>

definition once_demo :: sync_once where
  "once_demo = the (once_run [Call_Do 0 (at_ms 1), Call_Do 1 (at_ms 1), Call_Finish 0, Call_Resume 1 (at_ms 2)] once_new)"

lemma once_demo_facts:
  "once_reachable once_demo" "once_room once_demo" "o_phase_of once_demo 1 = O_Returned" "o_calls once_demo = [0]"
proof -
  have "once_small [Call_Do 0 (at_ms 1), Call_Do 1 (at_ms 1), Call_Finish 0, Call_Resume 1 (at_ms 2)] once_new" by code_simp
  then show "once_reachable once_demo" "once_room once_demo" using once_run_reachable once_reachable.start unfolding once_demo_def by blast+
  show "o_phase_of once_demo 1 = O_Returned" unfolding once_demo_def by code_simp
  show "o_calls once_demo = [0]" unfolding once_demo_def by code_simp
qed

text \<open>
  C9: \<open>sync.Once\<close>: under any interleaving the function is called at most once, no call of \<open>Do\<close> returns before it has been called and
  has ended, and no step ends in a fatal error.
\<close>

theorem once_runs_once:
  assumes "once_reachable s" "once_room s"
  shows "length (o_calls s) \<le> 1 \<and>
    (\<forall>g. o_phase_of s g = O_Returned \<longrightarrow> length (o_calls s) = 1 \<and> (\<forall>h. o_phase_of s h \<noteq> O_Running)) \<and>
    (\<forall>e r. once_step e s = Some r \<longrightarrow> (\<exists>t. r = Inr t))"
proof -
  have ok: "once_ok s" using once_reachable_ok [OF assms(1)] .
  have "\<forall>e r. once_step e s = Some r \<longrightarrow> (\<exists>t. r = Inr t)" using once_step_ok [OF ok assms(2)] by blast
  then show ?thesis using ok unfolding once_ok_def by (auto split: if_splits)
qed

theorem once_runs_once_witness:
  "length (o_calls once_demo) = 1 \<and> (\<forall>h. o_phase_of once_demo h \<noteq> O_Running)"
  using once_runs_once [OF once_demo_facts(1,2)] once_demo_facts(3) by blast

text \<open>While a call of \<open>Do\<close> waits, the function is running or a waiting goroutine has been woken.\<close>

lemma once_waits:
  assumes "once_reachable s" "o_phase_of s q = O_Locking"
  shows "(\<exists>g. o_phase_of s g = O_Running) \<or> (\<exists>g. is_Woken (phase_of (o_m s) g))"
proof -
  have ok: "once_ok s" using once_reachable_ok [OF assms(1)] .
  then have "in_mutex (phase_of (o_m s) q)" "locking_ok (o_m s)" "\<And>g. is_Woken (phase_of (o_m s) g) \<Longrightarrow> in_mutex (phase_of (o_m s) g)"
    using assms(2) by (auto simp: once_ok_def in_mutex_def)
  then show ?thesis using ok locking_facts(2) [of "o_m s" q] by (auto simp: once_ok_def in_mutex_def)
qed

end
