(* ===== verification/Unicode.thy ===== *)
theory Unicode
  imports Encoding_Binary Js_Bits
begin

text \<open>
  Package \<open>unicode\<close>: tables of ranges of code points, the searches in them, letter case.  The tables \<open>Digit\<close>, \<open>Letter\<close>, the
  properties of Latin-1, \<open>CaseRanges\<close>, \<open>asciiFold\<close> and \<open>caseOrbit\<close> are those of the bundle.
\<close>

section \<open>Searching\<close>

text \<open>A \<open>Range16\<close> or a \<open>Range32\<close>.\<close>

record urange =
  r_Lo :: int
  r_Hi :: int
  r_Stride :: int

record range_table =
  R16 :: "urange list"
  R32 :: "urange list"
  LatinOffset :: nat

record case_range =
  c_Lo :: int
  c_Hi :: int
  c_Delta :: "int list"

abbreviation ur :: "int \<Rightarrow> int \<Rightarrow> int \<Rightarrow> urange" where
  "ur l h s \<equiv> \<lparr>r_Lo = l, r_Hi = h, r_Stride = s\<rparr>"

abbreviation cr :: "int \<Rightarrow> int \<Rightarrow> int \<Rightarrow> int \<Rightarrow> int \<Rightarrow> case_range" where
  "cr l h u d t \<equiv> \<lparr>c_Lo = l, c_Hi = h, c_Delta = [u, d, t]\<rparr>"

text \<open>The middle of an interval, \<open>lo + (hi-lo)/2\<close>.\<close>

definition half :: "int \<Rightarrow> int \<Rightarrow> int" where
  "half i j = js_sar (i + js_sar (tdiv (js_sar (j - i) 0) 2) 0) 0"

text \<open>The binary search that \<open>is16\<close>, \<open>is32\<close> and \<open>to\<close> share, up to the range it stops at.\<close>

partial_function (option) range_search ::
  "('r \<Rightarrow> int) \<Rightarrow> ('r \<Rightarrow> int) \<Rightarrow> 'r list \<Rightarrow> int \<Rightarrow> int \<Rightarrow> int \<Rightarrow> 'r option res option" where
  "range_search lo hi b c i j =
     (if \<not> i < j then Some (Inr None)
      else bind2 (Some (js_index b (half i j))) (\<lambda>m.
        if lo m \<le> c \<and> c \<le> hi m then Some (Inr (Some m))
        else if c < lo m then range_search lo hi b c i (half i j)
        else range_search lo hi b c (js_sar (half i j + 1) 0) j))"

text \<open>The test on the stride; \<open>w\<close> is the conversion to the type of the range's fields.\<close>

definition in_stride :: "(int \<Rightarrow> int) \<Rightarrow> urange \<Rightarrow> int \<Rightarrow> bool res" where
  "in_stride w g c =
     (if r_Stride g = 1 then Inr True
      else if r_Stride g = 0 then Inl (RuntimeError ''integer divide by zero'')
      else Inr (tmod (w (c - r_Lo g)) (r_Stride g) = 0))"

fun scan_ranges :: "(int \<Rightarrow> int) \<Rightarrow> urange list \<Rightarrow> int \<Rightarrow> bool res" where
  "scan_ranges w [] c = Inr False"
| "scan_ranges w (g # gs) c = (if c < r_Lo g then Inr False else if c \<le> r_Hi g then in_stride w g c else scan_ranges w gs c)"

definition search_ranges :: "(int \<Rightarrow> int) \<Rightarrow> urange list \<Rightarrow> int \<Rightarrow> bool res option" where
  "search_ranges w b c = bind2 (range_search r_Lo r_Hi b c 0 (int (length b)))
     (\<lambda>r. Some (case r of None \<Rightarrow> Inr False | Some m \<Rightarrow> in_stride w m c))"

definition is16 :: "urange list \<Rightarrow> int \<Rightarrow> bool res option" where
  "is16 b c = (if length b \<le> 18 \<or> c \<le> 255 then Some (scan_ranges to_u16 b c) else search_ranges to_u16 b c)"

definition is32 :: "urange list \<Rightarrow> int \<Rightarrow> bool res option" where
  "is32 b c = (if length b \<le> 18 then Some (scan_ranges (\<lambda>x. js_shr x 0) b c) else search_ranges (\<lambda>x. js_shr x 0) b c)"

definition is_rest :: "range_table \<Rightarrow> int \<Rightarrow> bool res option" where
  "is_rest t c =
     (if R32 t \<noteq> [] \<and> c \<ge> js_sar (r_Lo (hd (R32 t))) 0 then is32 (R32 t) (js_shr c 0) else Some (Inr False))"

definition unicode_Is :: "range_table \<Rightarrow> int \<Rightarrow> bool res option" where
  "unicode_Is t c =
     (if R16 t \<noteq> [] \<and> c \<le> js_sar (r_Hi (last (R16 t))) 0 then is16 (R16 t) (to_u16 c) else is_rest t c)"

definition isExcludingLatin :: "range_table \<Rightarrow> int \<Rightarrow> bool res option" where
  "isExcludingLatin t c =
     (if length (R16 t) > LatinOffset t \<and> c \<le> js_sar (r_Hi (last (R16 t))) 0
      then is16 (drop (LatinOffset t) (R16 t)) (to_u16 c) else is_rest t c)"

fun unicode_In :: "int \<Rightarrow> range_table list \<Rightarrow> bool res option" where
  "unicode_In c [] = Some (Inr False)"
| "unicode_In c (t # ts) = bind2 (unicode_Is t c) (\<lambda>b. if b then Some (Inr True) else unicode_In c ts)"

section \<open>The tables\<close>

definition unicode_Digit :: range_table where
  "unicode_Digit = \<lparr>R16 = [
    ur 48 57 1, ur 1632 1641 1, ur 1776 1785 1, ur 1984 1993 1, ur 2406 2415 1, ur 2534 2543 1, ur 2662 2671 1, ur 2790 2799 1,
    ur 2918 2927 1, ur 3046 3055 1, ur 3174 3183 1, ur 3302 3311 1, ur 3430 3439 1, ur 3558 3567 1, ur 3664 3673 1,
    ur 3792 3801 1, ur 3872 3881 1, ur 4160 4169 1, ur 4240 4249 1, ur 6112 6121 1, ur 6160 6169 1, ur 6470 6479 1,
    ur 6608 6617 1, ur 6784 6793 1, ur 6800 6809 1, ur 6992 7001 1, ur 7088 7097 1, ur 7232 7241 1, ur 7248 7257 1,
    ur 42528 42537 1, ur 43216 43225 1, ur 43264 43273 1, ur 43472 43481 1, ur 43504 43513 1, ur 43600 43609 1, ur 44016 44025 1,
    ur 65296 65305 1],
   R32 = [
    ur 66720 66729 1, ur 69734 69743 1, ur 69872 69881 1, ur 69942 69951 1, ur 70096 70105 1, ur 70384 70393 1, ur 70736 70745 1,
    ur 70864 70873 1, ur 71248 71257 1, ur 71360 71369 1, ur 71472 71481 1, ur 71904 71913 1, ur 72784 72793 1, ur 73040 73049 1,
    ur 92768 92777 1, ur 93008 93017 1, ur 120782 120831 1, ur 125264 125273 1],
   LatinOffset = 1\<rparr>"

definition unicode_Letter :: range_table where
  "unicode_Letter = \<lparr>R16 = [
    ur 65 90 1, ur 97 122 1, ur 170 181 11, ur 186 192 6, ur 193 214 1, ur 216 246 1, ur 248 705 1, ur 710 721 1, ur 736 740 1,
    ur 748 750 2, ur 880 884 1, ur 886 887 1, ur 890 893 1, ur 895 902 7, ur 904 906 1, ur 908 910 2, ur 911 929 1,
    ur 931 1013 1, ur 1015 1153 1, ur 1162 1327 1, ur 1329 1366 1, ur 1369 1377 8, ur 1378 1415 1, ur 1488 1514 1,
    ur 1520 1522 1, ur 1568 1610 1, ur 1646 1647 1, ur 1649 1747 1, ur 1749 1765 16, ur 1766 1774 8, ur 1775 1786 11,
    ur 1787 1788 1, ur 1791 1808 17, ur 1810 1839 1, ur 1869 1957 1, ur 1969 1994 25, ur 1995 2026 1, ur 2036 2037 1,
    ur 2042 2048 6, ur 2049 2069 1, ur 2074 2084 10, ur 2088 2112 24, ur 2113 2136 1, ur 2144 2154 1, ur 2208 2228 1,
    ur 2230 2237 1, ur 2308 2361 1, ur 2365 2384 19, ur 2392 2401 1, ur 2417 2432 1, ur 2437 2444 1, ur 2447 2448 1,
    ur 2451 2472 1, ur 2474 2480 1, ur 2482 2486 4, ur 2487 2489 1, ur 2493 2510 17, ur 2524 2525 1, ur 2527 2529 1,
    ur 2544 2545 1, ur 2556 2565 9, ur 2566 2570 1, ur 2575 2576 1, ur 2579 2600 1, ur 2602 2608 1, ur 2610 2611 1,
    ur 2613 2614 1, ur 2616 2617 1, ur 2649 2652 1, ur 2654 2674 20, ur 2675 2676 1, ur 2693 2701 1, ur 2703 2705 1,
    ur 2707 2728 1, ur 2730 2736 1, ur 2738 2739 1, ur 2741 2745 1, ur 2749 2768 19, ur 2784 2785 1, ur 2809 2821 12,
    ur 2822 2828 1, ur 2831 2832 1, ur 2835 2856 1, ur 2858 2864 1, ur 2866 2867 1, ur 2869 2873 1, ur 2877 2908 31,
    ur 2909 2911 2, ur 2912 2913 1, ur 2929 2947 18, ur 2949 2954 1, ur 2958 2960 1, ur 2962 2965 1, ur 2969 2970 1,
    ur 2972 2974 2, ur 2975 2979 4, ur 2980 2984 4, ur 2985 2986 1, ur 2990 3001 1, ur 3024 3077 53, ur 3078 3084 1,
    ur 3086 3088 1, ur 3090 3112 1, ur 3114 3129 1, ur 3133 3160 27, ur 3161 3162 1, ur 3168 3169 1, ur 3200 3205 5,
    ur 3206 3212 1, ur 3214 3216 1, ur 3218 3240 1, ur 3242 3251 1, ur 3253 3257 1, ur 3261 3294 33, ur 3296 3297 1,
    ur 3313 3314 1, ur 3333 3340 1, ur 3342 3344 1, ur 3346 3386 1, ur 3389 3406 17, ur 3412 3414 1, ur 3423 3425 1,
    ur 3450 3455 1, ur 3461 3478 1, ur 3482 3505 1, ur 3507 3515 1, ur 3517 3520 3, ur 3521 3526 1, ur 3585 3632 1,
    ur 3634 3635 1, ur 3648 3654 1, ur 3713 3714 1, ur 3716 3719 3, ur 3720 3722 2, ur 3725 3732 7, ur 3733 3735 1,
    ur 3737 3743 1, ur 3745 3747 1, ur 3749 3751 2, ur 3754 3755 1, ur 3757 3760 1, ur 3762 3763 1, ur 3773 3776 3,
    ur 3777 3780 1, ur 3782 3804 22, ur 3805 3807 1, ur 3840 3904 64, ur 3905 3911 1, ur 3913 3948 1, ur 3976 3980 1,
    ur 4096 4138 1, ur 4159 4176 17, ur 4177 4181 1, ur 4186 4189 1, ur 4193 4197 4, ur 4198 4206 8, ur 4207 4208 1,
    ur 4213 4225 1, ur 4238 4256 18, ur 4257 4293 1, ur 4295 4301 6, ur 4304 4346 1, ur 4348 4680 1, ur 4682 4685 1,
    ur 4688 4694 1, ur 4696 4698 2, ur 4699 4701 1, ur 4704 4744 1, ur 4746 4749 1, ur 4752 4784 1, ur 4786 4789 1,
    ur 4792 4798 1, ur 4800 4802 2, ur 4803 4805 1, ur 4808 4822 1, ur 4824 4880 1, ur 4882 4885 1, ur 4888 4954 1,
    ur 4992 5007 1, ur 5024 5109 1, ur 5112 5117 1, ur 5121 5740 1, ur 5743 5759 1, ur 5761 5786 1, ur 5792 5866 1,
    ur 5873 5880 1, ur 5888 5900 1, ur 5902 5905 1, ur 5920 5937 1, ur 5952 5969 1, ur 5984 5996 1, ur 5998 6000 1,
    ur 6016 6067 1, ur 6103 6108 5, ur 6176 6263 1, ur 6272 6276 1, ur 6279 6312 1, ur 6314 6320 6, ur 6321 6389 1,
    ur 6400 6430 1, ur 6480 6509 1, ur 6512 6516 1, ur 6528 6571 1, ur 6576 6601 1, ur 6656 6678 1, ur 6688 6740 1,
    ur 6823 6917 94, ur 6918 6963 1, ur 6981 6987 1, ur 7043 7072 1, ur 7086 7087 1, ur 7098 7141 1, ur 7168 7203 1,
    ur 7245 7247 1, ur 7258 7293 1, ur 7296 7304 1, ur 7401 7404 1, ur 7406 7409 1, ur 7413 7414 1, ur 7424 7615 1,
    ur 7680 7957 1, ur 7960 7965 1, ur 7968 8005 1, ur 8008 8013 1, ur 8016 8023 1, ur 8025 8031 2, ur 8032 8061 1,
    ur 8064 8116 1, ur 8118 8124 1, ur 8126 8130 4, ur 8131 8132 1, ur 8134 8140 1, ur 8144 8147 1, ur 8150 8155 1,
    ur 8160 8172 1, ur 8178 8180 1, ur 8182 8188 1, ur 8305 8319 14, ur 8336 8348 1, ur 8450 8455 5, ur 8458 8467 1,
    ur 8469 8473 4, ur 8474 8477 1, ur 8484 8490 2, ur 8491 8493 1, ur 8495 8505 1, ur 8508 8511 1, ur 8517 8521 1,
    ur 8526 8579 53, ur 8580 11264 2684, ur 11265 11310 1, ur 11312 11358 1, ur 11360 11492 1, ur 11499 11502 1,
    ur 11506 11507 1, ur 11520 11557 1, ur 11559 11565 6, ur 11568 11623 1, ur 11631 11648 17, ur 11649 11670 1,
    ur 11680 11686 1, ur 11688 11694 1, ur 11696 11702 1, ur 11704 11710 1, ur 11712 11718 1, ur 11720 11726 1, ur 11728 11734 1,
    ur 11736 11742 1, ur 11823 12293 470, ur 12294 12337 43, ur 12338 12341 1, ur 12347 12348 1, ur 12353 12438 1,
    ur 12445 12447 1, ur 12449 12538 1, ur 12540 12543 1, ur 12549 12590 1, ur 12593 12686 1, ur 12704 12730 1, ur 12784 12799 1,
    ur 13312 19893 1, ur 19968 40938 1, ur 40960 42124 1, ur 42192 42237 1, ur 42240 42508 1, ur 42512 42527 1, ur 42538 42539 1,
    ur 42560 42606 1, ur 42623 42653 1, ur 42656 42725 1, ur 42775 42783 1, ur 42786 42888 1, ur 42891 42926 1, ur 42928 42935 1,
    ur 42999 43009 1, ur 43011 43013 1, ur 43015 43018 1, ur 43020 43042 1, ur 43072 43123 1, ur 43138 43187 1, ur 43250 43255 1,
    ur 43259 43261 2, ur 43274 43301 1, ur 43312 43334 1, ur 43360 43388 1, ur 43396 43442 1, ur 43471 43488 17,
    ur 43489 43492 1, ur 43494 43503 1, ur 43514 43518 1, ur 43520 43560 1, ur 43584 43586 1, ur 43588 43595 1, ur 43616 43638 1,
    ur 43642 43646 4, ur 43647 43695 1, ur 43697 43701 4, ur 43702 43705 3, ur 43706 43709 1, ur 43712 43714 2, ur 43739 43741 1,
    ur 43744 43754 1, ur 43762 43764 1, ur 43777 43782 1, ur 43785 43790 1, ur 43793 43798 1, ur 43808 43814 1, ur 43816 43822 1,
    ur 43824 43866 1, ur 43868 43877 1, ur 43888 44002 1, ur 44032 55203 1, ur 55216 55238 1, ur 55243 55291 1, ur 63744 64109 1,
    ur 64112 64217 1, ur 64256 64262 1, ur 64275 64279 1, ur 64285 64287 2, ur 64288 64296 1, ur 64298 64310 1, ur 64312 64316 1,
    ur 64318 64320 2, ur 64321 64323 2, ur 64324 64326 2, ur 64327 64433 1, ur 64467 64829 1, ur 64848 64911 1, ur 64914 64967 1,
    ur 65008 65019 1, ur 65136 65140 1, ur 65142 65276 1, ur 65313 65338 1, ur 65345 65370 1, ur 65382 65470 1, ur 65474 65479 1,
    ur 65482 65487 1, ur 65490 65495 1, ur 65498 65500 1],
   R32 = [
    ur 65536 65547 1, ur 65549 65574 1, ur 65576 65594 1, ur 65596 65597 1, ur 65599 65613 1, ur 65616 65629 1, ur 65664 65786 1,
    ur 66176 66204 1, ur 66208 66256 1, ur 66304 66335 1, ur 66349 66368 1, ur 66370 66377 1, ur 66384 66421 1, ur 66432 66461 1,
    ur 66464 66499 1, ur 66504 66511 1, ur 66560 66717 1, ur 66736 66771 1, ur 66776 66811 1, ur 66816 66855 1, ur 66864 66915 1,
    ur 67072 67382 1, ur 67392 67413 1, ur 67424 67431 1, ur 67584 67589 1, ur 67592 67594 2, ur 67595 67637 1, ur 67639 67640 1,
    ur 67644 67647 3, ur 67648 67669 1, ur 67680 67702 1, ur 67712 67742 1, ur 67808 67826 1, ur 67828 67829 1, ur 67840 67861 1,
    ur 67872 67897 1, ur 67968 68023 1, ur 68030 68031 1, ur 68096 68112 16, ur 68113 68115 1, ur 68117 68119 1,
    ur 68121 68147 1, ur 68192 68220 1, ur 68224 68252 1, ur 68288 68295 1, ur 68297 68324 1, ur 68352 68405 1, ur 68416 68437 1,
    ur 68448 68466 1, ur 68480 68497 1, ur 68608 68680 1, ur 68736 68786 1, ur 68800 68850 1, ur 69635 69687 1, ur 69763 69807 1,
    ur 69840 69864 1, ur 69891 69926 1, ur 69968 70002 1, ur 70006 70019 13, ur 70020 70066 1, ur 70081 70084 1,
    ur 70106 70108 2, ur 70144 70161 1, ur 70163 70187 1, ur 70272 70278 1, ur 70280 70282 2, ur 70283 70285 1, ur 70287 70301 1,
    ur 70303 70312 1, ur 70320 70366 1, ur 70405 70412 1, ur 70415 70416 1, ur 70419 70440 1, ur 70442 70448 1, ur 70450 70451 1,
    ur 70453 70457 1, ur 70461 70480 19, ur 70493 70497 1, ur 70656 70708 1, ur 70727 70730 1, ur 70784 70831 1,
    ur 70852 70853 1, ur 70855 71040 185, ur 71041 71086 1, ur 71128 71131 1, ur 71168 71215 1, ur 71236 71296 60,
    ur 71297 71338 1, ur 71424 71449 1, ur 71840 71903 1, ur 71935 72192 257, ur 72203 72242 1, ur 72250 72272 22,
    ur 72284 72323 1, ur 72326 72329 1, ur 72384 72440 1, ur 72704 72712 1, ur 72714 72750 1, ur 72768 72818 50,
    ur 72819 72847 1, ur 72960 72966 1, ur 72968 72969 1, ur 72971 73008 1, ur 73030 73728 698, ur 73729 74649 1,
    ur 74880 75075 1, ur 77824 78894 1, ur 82944 83526 1, ur 92160 92728 1, ur 92736 92766 1, ur 92880 92909 1, ur 92928 92975 1,
    ur 92992 92995 1, ur 93027 93047 1, ur 93053 93071 1, ur 93952 94020 1, ur 94032 94099 67, ur 94100 94111 1,
    ur 94176 94177 1, ur 94208 100332 1, ur 100352 101106 1, ur 110592 110878 1, ur 110960 111355 1, ur 113664 113770 1,
    ur 113776 113788 1, ur 113792 113800 1, ur 113808 113817 1, ur 119808 119892 1, ur 119894 119964 1, ur 119966 119967 1,
    ur 119970 119973 3, ur 119974 119977 3, ur 119978 119980 1, ur 119982 119993 1, ur 119995 119997 2, ur 119998 120003 1,
    ur 120005 120069 1, ur 120071 120074 1, ur 120077 120084 1, ur 120086 120092 1, ur 120094 120121 1, ur 120123 120126 1,
    ur 120128 120132 1, ur 120134 120138 4, ur 120139 120144 1, ur 120146 120485 1, ur 120488 120512 1, ur 120514 120538 1,
    ur 120540 120570 1, ur 120572 120596 1, ur 120598 120628 1, ur 120630 120654 1, ur 120656 120686 1, ur 120688 120712 1,
    ur 120714 120744 1, ur 120746 120770 1, ur 120772 120779 1, ur 124928 125124 1, ur 125184 125251 1, ur 126464 126467 1,
    ur 126469 126495 1, ur 126497 126498 1, ur 126500 126503 3, ur 126505 126514 1, ur 126516 126519 1, ur 126521 126523 2,
    ur 126530 126535 5, ur 126537 126541 2, ur 126542 126543 1, ur 126545 126546 1, ur 126548 126551 3, ur 126553 126561 2,
    ur 126562 126564 2, ur 126567 126570 1, ur 126572 126578 1, ur 126580 126583 1, ur 126585 126588 1, ur 126590 126592 2,
    ur 126593 126601 1, ur 126603 126619 1, ur 126625 126627 1, ur 126629 126633 1, ur 126635 126651 1, ur 131072 173782 1,
    ur 173824 177972 1, ur 177984 178205 1, ur 178208 183969 1, ur 183984 191456 1, ur 194560 195101 1],
   LatinOffset = 6\<rparr>"

definition latin_properties :: "int list" where
  "latin_properties = [
    1, 1, 1, 1, 1, 1, 1, 1, 1, 1, 1, 1, 1, 1, 1, 1, 1, 1, 1, 1, 1, 1, 1, 1, 1, 1, 1, 1, 1, 1, 1, 1, 144, 130, 130, 130, 136, 130,
    130, 130, 130, 130, 130, 136, 130, 130, 130, 130, 132, 132, 132, 132, 132, 132, 132, 132, 132, 132, 130, 130, 136, 136, 136,
    130, 130, 160, 160, 160, 160, 160, 160, 160, 160, 160, 160, 160, 160, 160, 160, 160, 160, 160, 160, 160, 160, 160, 160, 160,
    160, 160, 160, 130, 130, 130, 136, 130, 136, 192, 192, 192, 192, 192, 192, 192, 192, 192, 192, 192, 192, 192, 192, 192, 192,
    192, 192, 192, 192, 192, 192, 192, 192, 192, 192, 130, 136, 130, 136, 1, 1, 1, 1, 1, 1, 1, 1, 1, 1, 1, 1, 1, 1, 1, 1, 1, 1,
    1, 1, 1, 1, 1, 1, 1, 1, 1, 1, 1, 1, 1, 1, 1, 16, 130, 136, 136, 136, 136, 136, 130, 136, 136, 224, 130, 136, 0, 136, 136,
    136, 136, 132, 132, 136, 192, 130, 130, 136, 132, 224, 130, 132, 132, 132, 130, 160, 160, 160, 160, 160, 160, 160, 160, 160,
    160, 160, 160, 160, 160, 160, 160, 160, 160, 160, 160, 160, 160, 160, 136, 160, 160, 160, 160, 160, 160, 160, 192, 192, 192,
    192, 192, 192, 192, 192, 192, 192, 192, 192, 192, 192, 192, 192, 192, 192, 192, 192, 192, 192, 192, 192, 136, 192, 192, 192,
    192, 192, 192, 192, 192]"

definition CaseRanges :: "case_range list" where
  "CaseRanges = [
    cr 65 90 0 32 0, cr 97 122 (-32) 0 (-32), cr 181 181 743 0 743, cr 192 214 0 32 0, cr 216 222 0 32 0,
    cr 224 246 (-32) 0 (-32), cr 248 254 (-32) 0 (-32), cr 255 255 121 0 121, cr 256 303 1114112 1114112 1114112,
    cr 304 304 0 (-199) 0, cr 305 305 (-232) 0 (-232), cr 306 311 1114112 1114112 1114112, cr 313 328 1114112 1114112 1114112,
    cr 330 375 1114112 1114112 1114112, cr 376 376 0 (-121) 0, cr 377 382 1114112 1114112 1114112, cr 383 383 (-300) 0 (-300),
    cr 384 384 195 0 195, cr 385 385 0 210 0, cr 386 389 1114112 1114112 1114112, cr 390 390 0 206 0,
    cr 391 392 1114112 1114112 1114112, cr 393 394 0 205 0, cr 395 396 1114112 1114112 1114112, cr 398 398 0 79 0,
    cr 399 399 0 202 0, cr 400 400 0 203 0, cr 401 402 1114112 1114112 1114112, cr 403 403 0 205 0, cr 404 404 0 207 0,
    cr 405 405 97 0 97, cr 406 406 0 211 0, cr 407 407 0 209 0, cr 408 409 1114112 1114112 1114112, cr 410 410 163 0 163,
    cr 412 412 0 211 0, cr 413 413 0 213 0, cr 414 414 130 0 130, cr 415 415 0 214 0, cr 416 421 1114112 1114112 1114112,
    cr 422 422 0 218 0, cr 423 424 1114112 1114112 1114112, cr 425 425 0 218 0, cr 428 429 1114112 1114112 1114112,
    cr 430 430 0 218 0, cr 431 432 1114112 1114112 1114112, cr 433 434 0 217 0, cr 435 438 1114112 1114112 1114112,
    cr 439 439 0 219 0, cr 440 441 1114112 1114112 1114112, cr 444 445 1114112 1114112 1114112, cr 447 447 56 0 56,
    cr 452 452 0 2 1, cr 453 453 (-1) 1 0, cr 454 454 (-2) 0 (-1), cr 455 455 0 2 1, cr 456 456 (-1) 1 0, cr 457 457 (-2) 0 (-1),
    cr 458 458 0 2 1, cr 459 459 (-1) 1 0, cr 460 460 (-2) 0 (-1), cr 461 476 1114112 1114112 1114112, cr 477 477 (-79) 0 (-79),
    cr 478 495 1114112 1114112 1114112, cr 497 497 0 2 1, cr 498 498 (-1) 1 0, cr 499 499 (-2) 0 (-1),
    cr 500 501 1114112 1114112 1114112, cr 502 502 0 (-97) 0, cr 503 503 0 (-56) 0, cr 504 543 1114112 1114112 1114112,
    cr 544 544 0 (-130) 0, cr 546 563 1114112 1114112 1114112, cr 570 570 0 10795 0, cr 571 572 1114112 1114112 1114112,
    cr 573 573 0 (-163) 0, cr 574 574 0 10792 0, cr 575 576 10815 0 10815, cr 577 578 1114112 1114112 1114112,
    cr 579 579 0 (-195) 0, cr 580 580 0 69 0, cr 581 581 0 71 0, cr 582 591 1114112 1114112 1114112, cr 592 592 10783 0 10783,
    cr 593 593 10780 0 10780, cr 594 594 10782 0 10782, cr 595 595 (-210) 0 (-210), cr 596 596 (-206) 0 (-206),
    cr 598 599 (-205) 0 (-205), cr 601 601 (-202) 0 (-202), cr 603 603 (-203) 0 (-203), cr 604 604 42319 0 42319,
    cr 608 608 (-205) 0 (-205), cr 609 609 42315 0 42315, cr 611 611 (-207) 0 (-207), cr 613 613 42280 0 42280,
    cr 614 614 42308 0 42308, cr 616 616 (-209) 0 (-209), cr 617 617 (-211) 0 (-211), cr 618 618 42308 0 42308,
    cr 619 619 10743 0 10743, cr 620 620 42305 0 42305, cr 623 623 (-211) 0 (-211), cr 625 625 10749 0 10749,
    cr 626 626 (-213) 0 (-213), cr 629 629 (-214) 0 (-214), cr 637 637 10727 0 10727, cr 640 640 (-218) 0 (-218),
    cr 643 643 (-218) 0 (-218), cr 647 647 42282 0 42282, cr 648 648 (-218) 0 (-218), cr 649 649 (-69) 0 (-69),
    cr 650 651 (-217) 0 (-217), cr 652 652 (-71) 0 (-71), cr 658 658 (-219) 0 (-219), cr 669 669 42261 0 42261,
    cr 670 670 42258 0 42258, cr 837 837 84 0 84, cr 880 883 1114112 1114112 1114112, cr 886 887 1114112 1114112 1114112,
    cr 891 893 130 0 130, cr 895 895 0 116 0, cr 902 902 0 38 0, cr 904 906 0 37 0, cr 908 908 0 64 0, cr 910 911 0 63 0,
    cr 913 929 0 32 0, cr 931 939 0 32 0, cr 940 940 (-38) 0 (-38), cr 941 943 (-37) 0 (-37), cr 945 961 (-32) 0 (-32),
    cr 962 962 (-31) 0 (-31), cr 963 971 (-32) 0 (-32), cr 972 972 (-64) 0 (-64), cr 973 974 (-63) 0 (-63), cr 975 975 0 8 0,
    cr 976 976 (-62) 0 (-62), cr 977 977 (-57) 0 (-57), cr 981 981 (-47) 0 (-47), cr 982 982 (-54) 0 (-54),
    cr 983 983 (-8) 0 (-8), cr 984 1007 1114112 1114112 1114112, cr 1008 1008 (-86) 0 (-86), cr 1009 1009 (-80) 0 (-80),
    cr 1010 1010 7 0 7, cr 1011 1011 (-116) 0 (-116), cr 1012 1012 0 (-60) 0, cr 1013 1013 (-96) 0 (-96),
    cr 1015 1016 1114112 1114112 1114112, cr 1017 1017 0 (-7) 0, cr 1018 1019 1114112 1114112 1114112, cr 1021 1023 0 (-130) 0,
    cr 1024 1039 0 80 0, cr 1040 1071 0 32 0, cr 1072 1103 (-32) 0 (-32), cr 1104 1119 (-80) 0 (-80),
    cr 1120 1153 1114112 1114112 1114112, cr 1162 1215 1114112 1114112 1114112, cr 1216 1216 0 15 0,
    cr 1217 1230 1114112 1114112 1114112, cr 1231 1231 (-15) 0 (-15), cr 1232 1327 1114112 1114112 1114112, cr 1329 1366 0 48 0,
    cr 1377 1414 (-48) 0 (-48), cr 4256 4293 0 7264 0, cr 4295 4295 0 7264 0, cr 4301 4301 0 7264 0, cr 5024 5103 0 38864 0,
    cr 5104 5109 0 8 0, cr 5112 5117 (-8) 0 (-8), cr 7296 7296 (-6254) 0 (-6254), cr 7297 7297 (-6253) 0 (-6253),
    cr 7298 7298 (-6244) 0 (-6244), cr 7299 7300 (-6242) 0 (-6242), cr 7301 7301 (-6243) 0 (-6243),
    cr 7302 7302 (-6236) 0 (-6236), cr 7303 7303 (-6181) 0 (-6181), cr 7304 7304 35266 0 35266, cr 7545 7545 35332 0 35332,
    cr 7549 7549 3814 0 3814, cr 7680 7829 1114112 1114112 1114112, cr 7835 7835 (-59) 0 (-59), cr 7838 7838 0 (-7615) 0,
    cr 7840 7935 1114112 1114112 1114112, cr 7936 7943 8 0 8, cr 7944 7951 0 (-8) 0, cr 7952 7957 8 0 8, cr 7960 7965 0 (-8) 0,
    cr 7968 7975 8 0 8, cr 7976 7983 0 (-8) 0, cr 7984 7991 8 0 8, cr 7992 7999 0 (-8) 0, cr 8000 8005 8 0 8,
    cr 8008 8013 0 (-8) 0, cr 8017 8017 8 0 8, cr 8019 8019 8 0 8, cr 8021 8021 8 0 8, cr 8023 8023 8 0 8, cr 8025 8025 0 (-8) 0,
    cr 8027 8027 0 (-8) 0, cr 8029 8029 0 (-8) 0, cr 8031 8031 0 (-8) 0, cr 8032 8039 8 0 8, cr 8040 8047 0 (-8) 0,
    cr 8048 8049 74 0 74, cr 8050 8053 86 0 86, cr 8054 8055 100 0 100, cr 8056 8057 128 0 128, cr 8058 8059 112 0 112,
    cr 8060 8061 126 0 126, cr 8064 8071 8 0 8, cr 8072 8079 0 (-8) 0, cr 8080 8087 8 0 8, cr 8088 8095 0 (-8) 0,
    cr 8096 8103 8 0 8, cr 8104 8111 0 (-8) 0, cr 8112 8113 8 0 8, cr 8115 8115 9 0 9, cr 8120 8121 0 (-8) 0,
    cr 8122 8123 0 (-74) 0, cr 8124 8124 0 (-9) 0, cr 8126 8126 (-7205) 0 (-7205), cr 8131 8131 9 0 9, cr 8136 8139 0 (-86) 0,
    cr 8140 8140 0 (-9) 0, cr 8144 8145 8 0 8, cr 8152 8153 0 (-8) 0, cr 8154 8155 0 (-100) 0, cr 8160 8161 8 0 8,
    cr 8165 8165 7 0 7, cr 8168 8169 0 (-8) 0, cr 8170 8171 0 (-112) 0, cr 8172 8172 0 (-7) 0, cr 8179 8179 9 0 9,
    cr 8184 8185 0 (-128) 0, cr 8186 8187 0 (-126) 0, cr 8188 8188 0 (-9) 0, cr 8486 8486 0 (-7517) 0, cr 8490 8490 0 (-8383) 0,
    cr 8491 8491 0 (-8262) 0, cr 8498 8498 0 28 0, cr 8526 8526 (-28) 0 (-28), cr 8544 8559 0 16 0, cr 8560 8575 (-16) 0 (-16),
    cr 8579 8580 1114112 1114112 1114112, cr 9398 9423 0 26 0, cr 9424 9449 (-26) 0 (-26), cr 11264 11310 0 48 0,
    cr 11312 11358 (-48) 0 (-48), cr 11360 11361 1114112 1114112 1114112, cr 11362 11362 0 (-10743) 0,
    cr 11363 11363 0 (-3814) 0, cr 11364 11364 0 (-10727) 0, cr 11365 11365 (-10795) 0 (-10795),
    cr 11366 11366 (-10792) 0 (-10792), cr 11367 11372 1114112 1114112 1114112, cr 11373 11373 0 (-10780) 0,
    cr 11374 11374 0 (-10749) 0, cr 11375 11375 0 (-10783) 0, cr 11376 11376 0 (-10782) 0,
    cr 11378 11379 1114112 1114112 1114112, cr 11381 11382 1114112 1114112 1114112, cr 11390 11391 0 (-10815) 0,
    cr 11392 11491 1114112 1114112 1114112, cr 11499 11502 1114112 1114112 1114112, cr 11506 11507 1114112 1114112 1114112,
    cr 11520 11557 (-7264) 0 (-7264), cr 11559 11559 (-7264) 0 (-7264), cr 11565 11565 (-7264) 0 (-7264),
    cr 42560 42605 1114112 1114112 1114112, cr 42624 42651 1114112 1114112 1114112, cr 42786 42799 1114112 1114112 1114112,
    cr 42802 42863 1114112 1114112 1114112, cr 42873 42876 1114112 1114112 1114112, cr 42877 42877 0 (-35332) 0,
    cr 42878 42887 1114112 1114112 1114112, cr 42891 42892 1114112 1114112 1114112, cr 42893 42893 0 (-42280) 0,
    cr 42896 42899 1114112 1114112 1114112, cr 42902 42921 1114112 1114112 1114112, cr 42922 42922 0 (-42308) 0,
    cr 42923 42923 0 (-42319) 0, cr 42924 42924 0 (-42315) 0, cr 42925 42925 0 (-42305) 0, cr 42926 42926 0 (-42308) 0,
    cr 42928 42928 0 (-42258) 0, cr 42929 42929 0 (-42282) 0, cr 42930 42930 0 (-42261) 0, cr 42931 42931 0 928 0,
    cr 42932 42935 1114112 1114112 1114112, cr 43859 43859 (-928) 0 (-928), cr 43888 43967 (-38864) 0 (-38864),
    cr 65313 65338 0 32 0, cr 65345 65370 (-32) 0 (-32), cr 66560 66599 0 40 0, cr 66600 66639 (-40) 0 (-40),
    cr 66736 66771 0 40 0, cr 66776 66811 (-40) 0 (-40), cr 68736 68786 0 64 0, cr 68800 68850 (-64) 0 (-64),
    cr 71840 71871 0 32 0, cr 71872 71903 (-32) 0 (-32), cr 125184 125217 0 34 0, cr 125218 125251 (-34) 0 (-34)]"

definition asciiFold :: "int list" where
  "asciiFold = [
    0, 1, 2, 3, 4, 5, 6, 7, 8, 9, 10, 11, 12, 13, 14, 15, 16, 17, 18, 19, 20, 21, 22, 23, 24, 25, 26, 27, 28, 29, 30, 31, 32, 33,
    34, 35, 36, 37, 38, 39, 40, 41, 42, 43, 44, 45, 46, 47, 48, 49, 50, 51, 52, 53, 54, 55, 56, 57, 58, 59, 60, 61, 62, 63, 64,
    97, 98, 99, 100, 101, 102, 103, 104, 105, 106, 107, 108, 109, 110, 111, 112, 113, 114, 115, 116, 117, 118, 119, 120, 121,
    122, 91, 92, 93, 94, 95, 96, 65, 66, 67, 68, 69, 70, 71, 72, 73, 74, 8490, 76, 77, 78, 79, 80, 81, 82, 383, 84, 85, 86, 87,
    88, 89, 90, 123, 124, 125, 126, 127]"

definition caseOrbit :: "(int \<times> int) list" where
  "caseOrbit = [
    (75, 107), (83, 115), (107, 8490), (115, 383), (181, 924), (197, 229), (223, 7838), (229, 8491), (304, 304), (305, 305),
    (383, 83), (452, 453), (453, 454), (454, 452), (455, 456), (456, 457), (457, 455), (458, 459), (459, 460), (460, 458),
    (497, 498), (498, 499), (499, 497), (837, 921), (914, 946), (917, 949), (920, 952), (921, 953), (922, 954), (924, 956),
    (928, 960), (929, 961), (931, 962), (934, 966), (937, 969), (946, 976), (949, 1013), (952, 977), (953, 8126), (954, 1008),
    (956, 181), (960, 982), (961, 1009), (962, 963), (963, 931), (966, 981), (969, 8486), (976, 914), (977, 1012), (981, 934),
    (982, 928), (1008, 922), (1009, 929), (1012, 920), (1013, 917), (1042, 1074), (1044, 1076), (1054, 1086), (1057, 1089),
    (1058, 1090), (1066, 1098), (1074, 7296), (1076, 7297), (1086, 7298), (1089, 7299), (1090, 7300), (1098, 7302), (1122, 1123),
    (1123, 7303), (7296, 1042), (7297, 1044), (7298, 1054), (7299, 1057), (7300, 7301), (7301, 1058), (7302, 1066), (7303, 1122),
    (7304, 42570), (7776, 7777), (7777, 7835), (7835, 7776), (7838, 223), (8126, 837), (8486, 937), (8490, 75), (8491, 197),
    (42570, 42571), (42571, 7304)]"

section \<open>Classes of letters\<close>

definition IsDigit :: "int \<Rightarrow> bool res option" where
  "IsDigit b = (if b \<le> 255 then Some (Inr (48 \<le> b \<and> b \<le> 57)) else isExcludingLatin unicode_Digit b)"

definition IsLetter :: "int \<Rightarrow> bool res option" where
  "IsLetter b =
     (if js_shr b 0 \<le> 255 then bind2 (Some (js_index latin_properties (to_u8 b))) (\<lambda>p. Some (Inr (js_shr (js_and p 96) 0 \<noteq> 0)))
      else isExcludingLatin unicode_Letter b)"

section \<open>Letter case\<close>

text \<open>\<open>to\<close>: the mapped code point and whether a mapping was found; \<open>c_Delta\<close> above \<open>MaxRune\<close> marks alternating case.\<close>

definition unicode_to :: "int \<Rightarrow> int \<Rightarrow> case_range list \<Rightarrow> (int \<times> bool) res option" where
  "unicode_to b c d =
     (if b < 0 \<or> 3 \<le> b then Some (Inr (65533, False))
      else bind2 (range_search (\<lambda>m. js_sar (c_Lo m) 0) (\<lambda>m. js_sar (c_Hi m) 0) d c 0 (int (length d))) (\<lambda>r.
        case r of
          None \<Rightarrow> Some (Inr (c, False))
        | Some m \<Rightarrow> bind2 (Some (js_index (c_Delta m) b)) (\<lambda>k.
            if k > 1114111 then
              Some (Inr (js_sar (js_sar (c_Lo m) 0 +
                js_or (js_sar (js_and (js_sar (c - js_sar (c_Lo m) 0) 0) (-2)) 0) (js_sar (js_and b 1) 0)) 0, True))
            else Some (Inr (js_sar (c + k) 0, True)))))"

definition unicode_To :: "int \<Rightarrow> int \<Rightarrow> int res option" where
  "unicode_To b c = bind2 (unicode_to b c CaseRanges) (\<lambda>d. Some (Inr (fst d)))"

definition ToUpper :: "int \<Rightarrow> int res option" where
  "ToUpper b = (if b \<le> 127 then Some (Inr (if 97 \<le> b \<and> b \<le> 122 then js_sar (b - 32) 0 else b)) else unicode_To 0 b)"

definition ToLower :: "int \<Rightarrow> int res option" where
  "ToLower b = (if b \<le> 127 then Some (Inr (if 65 \<le> b \<and> b \<le> 90 then js_sar (b + 32) 0 else b)) else unicode_To 1 b)"

text \<open>\<open>SimpleFold\<close>: the next code point of the same letter in another case.\<close>

partial_function (option) orbit_search :: "(int \<times> int) list \<Rightarrow> int \<Rightarrow> int \<Rightarrow> int \<Rightarrow> int res option" where
  "orbit_search b r c d =
     (if \<not> c < d then Some (Inr c)
      else bind2 (Some (js_index b (half c d))) (\<lambda>m.
        if js_sar (fst m) 0 < r then orbit_search b r (js_sar (half c d + 1) 0) d
        else orbit_search b r c (half c d)))"

definition SimpleFold :: "int \<Rightarrow> int res option" where
  "SimpleFold b =
     (if b < 0 \<or> b > 1114111 then Some (Inr b)
      else if js_sar b 0 < 128 then bind2 (Some (js_index asciiFold b)) (\<lambda>x. Some (Inr (js_sar x 0)))
      else bind2 (orbit_search caseOrbit b 0 (int (length caseOrbit))) (\<lambda>c.
        if c < int (length caseOrbit) \<and> js_sar (fst (caseOrbit ! nat c)) 0 = b then Some (Inr (js_sar (snd (caseOrbit ! nat c)) 0))
        else bind2 (ToLower b) (\<lambda>g. if g \<noteq> b then Some (Inr g) else ToUpper b)))"

section \<open>The searches find what is there\<close>

lemma half_between:
  assumes "0 \<le> i" "i < j" "j < 2 ^ 31"
  shows "half i j = i + (j - i) div 2" "i \<le> half i j" "half i j < j"
proof -
  have a: "js_sar (j - i) 0 = j - i" using assms by (simp add: js_sar_eq ToInt32_id)
  have b: "tdiv (j - i) 2 = (j - i) div 2" using assms by (simp add: tdiv_def)
  have c: "js_sar ((j - i) div 2) 0 = (j - i) div 2" "js_sar (i + (j - i) div 2) 0 = i + (j - i) div 2"
    using assms by (simp_all add: js_sar_eq ToInt32_id)
  show eq: "half i j = i + (j - i) div 2" by (simp add: half_def a b c)
  show "i \<le> half i j" "half i j < j" using assms unfolding eq by linarith+
qed

text \<open>In a sorted list of ranges, the search finds the range that covers the code point.\<close>

definition covers :: "('r \<Rightarrow> int) \<Rightarrow> ('r \<Rightarrow> int) \<Rightarrow> int \<Rightarrow> 'r \<Rightarrow> bool" where
  "covers lo hi c g \<longleftrightarrow> lo g \<le> c \<and> c \<le> hi g"

definition apart :: "('r \<Rightarrow> int) \<Rightarrow> ('r \<Rightarrow> int) \<Rightarrow> 'r list \<Rightarrow> bool" where
  "apart lo hi b \<longleftrightarrow> sorted_wrt (\<lambda>g h. hi g < lo h) b \<and> list_all (\<lambda>g. lo g \<le> hi g) b"

lemma apart_nth: "apart lo hi b \<Longrightarrow> k < l \<Longrightarrow> l < length b \<Longrightarrow> hi (b ! k) < lo (b ! l)"
  by (auto simp: apart_def sorted_wrt_iff_nth_less)

lemma apart_unique:
  assumes "apart lo hi b" "g \<in> set b" "h \<in> set b" "covers lo hi c g" "covers lo hi c h"
  shows "g = h"
proof -
  obtain k l where kl: "k < length b" "l < length b" "g = b ! k" "h = b ! l" using assms(2,3) by (auto simp: in_set_conv_nth)
  consider "k < l" | "k = l" | "l < k" by linarith
  then show ?thesis
    using apart_nth [OF assms(1), of k l] apart_nth [OF assms(1), of l k] kl assms(4,5) by cases (auto simp: covers_def)
qed

lemma apart_le: "apart lo hi b \<Longrightarrow> g \<in> set b \<Longrightarrow> lo g \<le> hi g"
  by (auto simp: apart_def list_all_iff)

lemma range_search_find:
  assumes "apart lo hi b" "int (length b) < 2 ^ 31"
  shows "range_search lo hi b c 0 (int (length b)) = Some (Inr (find (covers lo hi c) b))"
proof -
  let ?n = "int (length b)"
  have "0 \<le> i \<Longrightarrow> i \<le> j \<Longrightarrow> j \<le> ?n \<Longrightarrow> (\<And>k. k < length b \<Longrightarrow> covers lo hi c (b ! k) \<Longrightarrow> i \<le> int k \<and> int k < j) \<Longrightarrow>
    range_search lo hi b c i j = Some (Inr (find (covers lo hi c) b))" for i j
  proof (induction "nat (j - i)" arbitrary: i j rule: less_induct)
    case less
    show ?case
    proof (cases "i < j")
      case False
      then have "\<not> (\<exists>g \<in> set b. covers lo hi c g)" using less.prems(4) by (fastforce simp: in_set_conv_nth)
      then have "find (covers lo hi c) b = None" by (auto simp: find_None_iff)
      then show ?thesis using False by (subst range_search.simps) simp
    next
      case True
      have h: "i \<le> half i j" "half i j < j" using half_between [of i j] less.prems True assms(2) by auto
      define l where "l = nat (half i j)"
      have l: "half i j = int l" "l < length b" using h less.prems by (auto simp: l_def)
      have s: "js_sar (int l + 1) 0 = int l + 1" using l h assms(2) by (simp add: js_sar_eq ToInt32_id)
      note step = range_search.simps [of lo hi b c i j, unfolded l(1) s]
      have idx: "js_index b (int l) = Inr (b ! l)" using l(2) by (simp add: js_index_def)
      consider (hit) "covers lo hi c (b ! l)" | (left) "c < lo (b ! l)" | (right) "hi (b ! l) < c"
        unfolding covers_def by linarith
      then show ?thesis
      proof cases
        case hit
        then obtain g where g: "find (covers lo hi c) b = Some g"
          using l(2) by (cases "find (covers lo hi c) b") (auto simp: find_None_iff)
        then have "g \<in> set b" "covers lo hi c g" by (auto simp: find_Some_iff)
        then have "g = b ! l" using apart_unique [OF assms(1)] hit l(2) by auto
        then show ?thesis using step True idx hit g by (simp add: covers_def)
      next
        case left
        have "range_search lo hi b c i (int l) = Some (Inr (find (covers lo hi c) b))"
        proof (rule less.hyps)
          show "k < length b \<Longrightarrow> covers lo hi c (b ! k) \<Longrightarrow> i \<le> int k \<and> int k < int l" for k
          proof -
            assume k: "k < length b" "covers lo hi c (b ! k)"
            have "\<not> l < k" using apart_nth [OF assms(1) _ k(1), of l] left k(2) apart_le [OF assms(1), of "b ! l"] l(2)
              by (auto simp: covers_def)
            moreover have "k \<noteq> l" using left k(2) by (auto simp: covers_def)
            ultimately show ?thesis using less.prems(4) [OF k] by auto
          qed
        qed (use h l less.prems in auto)
        then show ?thesis using step True idx left by simp
      next
        case right
        have "range_search lo hi b c (int l + 1) j = Some (Inr (find (covers lo hi c) b))"
        proof (rule less.hyps)
          show "k < length b \<Longrightarrow> covers lo hi c (b ! k) \<Longrightarrow> int l + 1 \<le> int k \<and> int k < j" for k
          proof -
            assume k: "k < length b" "covers lo hi c (b ! k)"
            have "\<not> k < l" using apart_nth [OF assms(1) _ l(2), of k] right k(2) apart_le [OF assms(1), of "b ! l"] l(2)
              by (auto simp: covers_def)
            moreover have "k \<noteq> l" using right k(2) by (auto simp: covers_def)
            ultimately show ?thesis using less.prems(4) [OF k] by auto
          qed
        qed (use h l less.prems in auto)
        moreover have "\<not> (lo (b ! l) \<le> c \<and> c \<le> hi (b ! l))" "\<not> c < lo (b ! l)"
          using right apart_le [OF assms(1), of "b ! l"] l(2) by auto
        ultimately show ?thesis using step True idx by simp
      qed
    qed
  qed
  from this [of 0 ?n] show ?thesis by simp
qed


section \<open>Membership in a table\<close>

definition range_has :: "int \<Rightarrow> urange \<Rightarrow> bool" where
  "range_has c g \<longleftrightarrow> r_Lo g \<le> c \<and> c \<le> r_Hi g \<and> (c - r_Lo g) mod r_Stride g = 0"

definition ranges_ok :: "int \<Rightarrow> int \<Rightarrow> urange list \<Rightarrow> bool" where
  "ranges_ok l h b \<longleftrightarrow> apart r_Lo r_Hi b \<and> list_all (\<lambda>g. l \<le> r_Lo g \<and> r_Hi g < h \<and> 0 < r_Stride g) b"

definition table_ok :: "range_table \<Rightarrow> bool" where
  "table_ok t \<longleftrightarrow> ranges_ok 0 65536 (R16 t) \<and> ranges_ok 65536 2147483648 (R32 t) \<and> length (R16 t) < 65536 \<and> length (R32 t) < 65536"

definition in_table :: "range_table \<Rightarrow> int \<Rightarrow> bool" where
  "in_table t c \<longleftrightarrow> list_ex (range_has c) (R16 t @ R32 t)"

lemma scan_ranges_find:
  "apart r_Lo r_Hi b \<Longrightarrow>
    scan_ranges w b c = (case find (covers r_Lo r_Hi c) b of None \<Rightarrow> Inr False | Some m \<Rightarrow> in_stride w m c)"
proof (induction b)
  case (Cons g gs)
  have "\<not> covers r_Lo r_Hi c h" if "c < r_Lo g" "h \<in> set gs" for h
    using Cons.prems that by (force simp: apart_def covers_def list_all_iff)
  then have "c < r_Lo g \<Longrightarrow> find (covers r_Lo r_Hi c) gs = None" by (auto simp: find_None_iff)
  then show ?case using Cons by (auto simp: covers_def [of r_Lo r_Hi c g] apart_def)
qed simp

lemma in_stride_has:
  assumes "covers r_Lo r_Hi c g" "0 < r_Stride g" "w (c - r_Lo g) = c - r_Lo g"
  shows "in_stride w g c = Inr (range_has c g)"
proof -
  have "sgn (c - r_Lo g) * ((c - r_Lo g) mod r_Stride g) = 0 \<longleftrightarrow> (c - r_Lo g) mod r_Stride g = 0"
    using assms(1) by (cases "c = r_Lo g") (auto simp: covers_def sgn_if)
  then show ?thesis using assms by (auto simp: in_stride_def range_has_def covers_def tmod_def)
qed

lemma find_has:
  assumes "ranges_ok l h b" "\<And>x. 0 \<le> x \<Longrightarrow> x < h - l \<Longrightarrow> w x = x"
  shows "(case find (covers r_Lo r_Hi c) b of None \<Rightarrow> Inr False | Some m \<Rightarrow> in_stride w m c) = Inr (list_ex (range_has c) b)"
proof (cases "find (covers r_Lo r_Hi c) b")
  case None
  then have "\<not> list_ex (range_has c) b" by (auto simp: find_None_iff list_ex_iff range_has_def covers_def)
  then show ?thesis by (simp add: None)
next
  case (Some m)
  then have m: "m \<in> set b" "covers r_Lo r_Hi c m" by (auto simp: find_Some_iff)
  then have f: "l \<le> r_Lo m" "r_Hi m < h" "0 < r_Stride m" using assms(1) by (auto simp: ranges_ok_def list_all_iff)
  then have "w (c - r_Lo m) = c - r_Lo m" using m(2) assms(2) by (auto simp: covers_def)
  then have "in_stride w m c = Inr (range_has c m)" using in_stride_has m f by blast
  moreover have "list_ex (range_has c) b \<Longrightarrow> range_has c m"
  proof -
    assume "list_ex (range_has c) b"
    then obtain g where g: "g \<in> set b" "range_has c g" by (auto simp: list_ex_iff)
    then have "covers r_Lo r_Hi c g" by (simp add: range_has_def covers_def)
    then have "g = m" using apart_unique [of r_Lo r_Hi b g m c] g m assms(1) by (simp add: ranges_ok_def)
    then show ?thesis using g by simp
  qed
  moreover have "range_has c m \<Longrightarrow> list_ex (range_has c) b" using m by (auto simp: list_ex_iff)
  ultimately show ?thesis using Some by auto
qed

lemma search_ranges_find:
  assumes "ranges_ok l h b" "length b < 65536"
  shows "search_ranges w b c = Some (case find (covers r_Lo r_Hi c) b of None \<Rightarrow> Inr False | Some m \<Rightarrow> in_stride w m c)"
  using range_search_find [of r_Lo r_Hi b c] assms by (simp add: search_ranges_def ranges_ok_def)

lemma is16_has: "ranges_ok 0 65536 b \<Longrightarrow> length b < 65536 \<Longrightarrow> is16 b c = Some (Inr (list_ex (range_has c) b))"
  using find_has [of 0 65536 b to_u16 c] search_ranges_find [of 0 65536 b to_u16 c] scan_ranges_find [of b to_u16 c]
  by (simp add: is16_def to_u16_mod ranges_ok_def)

lemma is32_has: "ranges_ok 65536 2147483648 b \<Longrightarrow> length b < 65536 \<Longrightarrow> is32 b c = Some (Inr (list_ex (range_has c) b))"
  using find_has [of 65536 2147483648 b "\<lambda>x. js_shr x 0" c] search_ranges_find [of 65536 2147483648 b "\<lambda>x. js_shr x 0" c]
    scan_ranges_find [of b "\<lambda>x. js_shr x 0" c]
  by (simp add: is32_def js_shr_0 ranges_ok_def)

lemma range_has_bounds: "ranges_ok l h b \<Longrightarrow> list_ex (range_has c) b \<Longrightarrow> l \<le> c \<and> c < h \<and> r_Lo (hd b) \<le> c \<and> c \<le> r_Hi (last b)"
proof -
  assume a: "ranges_ok l h b" "list_ex (range_has c) b"
  then obtain k where k: "k < length b" "range_has c (b ! k)" by (auto simp: list_ex_iff in_set_conv_nth)
  then have g: "l \<le> r_Lo (b ! k)" "r_Hi (b ! k) < h" "r_Lo (b ! k) \<le> c" "c \<le> r_Hi (b ! k)" "b \<noteq> []"
    using a(1) by (auto simp: ranges_ok_def list_all_iff range_has_def)
  have ap: "apart r_Lo r_Hi b" using a(1) by (simp add: ranges_ok_def)
  have "r_Lo (b ! 0) \<le> r_Lo (b ! k)"
    using apart_nth [OF ap _ k(1), of 0] apart_le [OF ap, of "b ! 0"] g(5) by (cases "k = 0") auto
  moreover have "r_Hi (b ! k) \<le> r_Hi (b ! (length b - 1))"
  proof (cases "k = length b - 1")
    case False
    then have "k < length b - 1" using k(1) by linarith
    then show ?thesis using apart_nth [OF ap, of k "length b - 1"] apart_le [OF ap, of "b ! (length b - 1)"] g(5) by simp
  qed simp
  ultimately show ?thesis using g by (auto simp: hd_conv_nth last_conv_nth)
qed

lemma is_rest_has:
  assumes "table_ok t" "0 \<le> c" "c < 2 ^ 31"
  shows "is_rest t c = Some (Inr (list_ex (range_has c) (R32 t)))"
proof -
  have r: "ranges_ok 65536 2147483648 (R32 t)" "length (R32 t) < 65536" using assms(1) by (auto simp: table_ok_def)
  have c: "js_shr c 0 = c" using assms by (simp add: js_shr_0)
  show ?thesis
  proof (cases "R32 t = []")
    case False
    then have "hd (R32 t) \<in> set (R32 t)" by simp
    then have "65536 \<le> r_Lo (hd (R32 t))" "r_Lo (hd (R32 t)) < 2147483648"
      using r(1) by (fastforce simp: ranges_ok_def list_all_iff dest: apart_le)+
    then have "js_sar (r_Lo (hd (R32 t))) 0 = r_Lo (hd (R32 t))" by (simp add: js_sar_eq ToInt32_id)
    then show ?thesis using False is32_has [OF r, of c] range_has_bounds [OF r(1), of c] c by (auto simp: is_rest_def)
  qed (simp add: is_rest_def)
qed

lemma last_hi:
  assumes "ranges_ok 0 65536 b" "b \<noteq> []"
  shows "js_sar (r_Hi (last b)) 0 = r_Hi (last b)" "r_Hi (last b) < 65536"
proof -
  have "last b \<in> set b" using assms(2) by simp
  then have "0 \<le> r_Hi (last b)" "r_Hi (last b) < 65536"
    using assms(1) by (fastforce simp: ranges_ok_def list_all_iff dest: apart_le)+
  then show "js_sar (r_Hi (last b)) 0 = r_Hi (last b)" "r_Hi (last b) < 65536" by (simp_all add: js_sar_eq ToInt32_id)
qed

text \<open>\<open>Is\<close> terminates without a panic and says whether the code point is in the table.\<close>

lemma Is_member:
  assumes "table_ok t" "0 \<le> c" "c < 2 ^ 31"
  shows "unicode_Is t c = Some (Inr (in_table t c))"
proof -
  have r: "ranges_ok 0 65536 (R16 t)" "length (R16 t) < 65536" "ranges_ok 65536 2147483648 (R32 t)" using assms(1) by (auto simp: table_ok_def)
  have no: "\<not> (list_ex (range_has c) (R16 t) \<and> list_ex (range_has c) (R32 t))"
    using range_has_bounds [OF r(1), of c] range_has_bounds [OF r(3), of c] by auto
  show ?thesis
  proof (cases "R16 t \<noteq> [] \<and> c \<le> r_Hi (last (R16 t))")
    case True
    then have "to_u16 c = c" "\<not> list_ex (range_has c) (R32 t)"
      using last_hi [OF r(1)] assms(2) range_has_bounds [OF r(3), of c] by (auto simp: to_u16_mod)
    then show ?thesis using True last_hi(1) [OF r(1)] is16_has [OF r(1,2), of c] by (simp add: unicode_Is_def in_table_def)
  next
    case False
    then have "\<not> list_ex (range_has c) (R16 t)" using range_has_bounds [OF r(1), of c] by (cases "R16 t") auto
    moreover have "unicode_Is t c = is_rest t c" using False last_hi(1) [OF r(1)] by (auto simp: unicode_Is_def)
    ultimately show ?thesis using is_rest_has [OF assms] by (simp add: in_table_def)
  qed
qed

text \<open>Skipping the ranges of Latin-1 changes nothing above it.\<close>

definition latin_ok :: "range_table \<Rightarrow> bool" where
  "latin_ok t \<longleftrightarrow> list_all (\<lambda>g. r_Hi g \<le> 255) (take (LatinOffset t) (R16 t)) \<and> LatinOffset t < length (R16 t)"

lemma ranges_ok_drop: "ranges_ok l h b \<Longrightarrow> ranges_ok l h (drop n b)"
  by (auto simp: ranges_ok_def apart_def list_all_iff sorted_wrt_drop dest: in_set_dropD)

lemma excluding_latin_member:
  assumes "table_ok t" "latin_ok t" "255 < c" "c < 2 ^ 31"
  shows "isExcludingLatin t c = Some (Inr (in_table t c))"
proof -
  let ?n = "LatinOffset t"
  have r: "ranges_ok 0 65536 (R16 t)" "length (R16 t) < 65536" "R16 t \<noteq> []" using assms(1,2) by (auto simp: table_ok_def latin_ok_def)
  have "\<not> list_ex (range_has c) (take ?n (R16 t))"
    using assms(2,3) by (fastforce simp: latin_ok_def list_all_iff list_ex_iff range_has_def)
  then have d: "list_ex (range_has c) (drop ?n (R16 t)) = list_ex (range_has c) (R16 t)"
    using append_take_drop_id [of ?n "R16 t"] by (metis list_ex_append)
  have "unicode_Is t c = isExcludingLatin t c"
    using is16_has [OF r(1,2), of "to_u16 c"] is16_has [OF ranges_ok_drop [OF r(1)], of ?n "to_u16 c"] r assms d last_hi [OF r(1,3)]
    by (auto simp: unicode_Is_def isExcludingLatin_def latin_ok_def to_u16_mod)
  then show ?thesis using Is_member [OF assms(1)] assms by simp
qed


section \<open>The tables are in order\<close>

text \<open>A check in one pass.\<close>

fun chained :: "('r \<Rightarrow> int) \<Rightarrow> ('r \<Rightarrow> int) \<Rightarrow> 'r list \<Rightarrow> bool" where
  "chained lo hi [] \<longleftrightarrow> True"
| "chained lo hi [g] \<longleftrightarrow> lo g \<le> hi g"
| "chained lo hi (g # h # gs) \<longleftrightarrow> lo g \<le> hi g \<and> hi g < lo h \<and> chained lo hi (h # gs)"

lemma chained_apart: "chained lo hi b \<Longrightarrow> apart lo hi b"
proof (induction lo hi b rule: chained.induct)
  case (3 lo hi g h gs)
  then have "apart lo hi (h # gs)" "hi g < lo h" "lo g \<le> hi g" by simp_all
  then show ?case by (force simp: apart_def list_all_iff)
qed (simp_all add: apart_def)

definition table_checked :: "range_table \<Rightarrow> bool" where
  "table_checked t \<longleftrightarrow> chained r_Lo r_Hi (R16 t) \<and> chained r_Lo r_Hi (R32 t) \<and>
     list_all (\<lambda>g. 0 \<le> r_Lo g \<and> r_Hi g < 65536 \<and> 0 < r_Stride g) (R16 t) \<and>
     list_all (\<lambda>g. 65536 \<le> r_Lo g \<and> r_Hi g < 2147483648 \<and> 0 < r_Stride g) (R32 t) \<and>
     list_all (\<lambda>g. r_Hi g \<le> 255) (take (LatinOffset t) (R16 t)) \<and> list_all (\<lambda>g. 255 < r_Lo g) (drop (Suc (LatinOffset t)) (R16 t))"

lemma table_checked_ok: "table_checked t \<Longrightarrow> length (R16 t) < 65536 \<Longrightarrow> length (R32 t) < 65536 \<Longrightarrow> table_ok t"
  by (simp add: table_checked_def table_ok_def ranges_ok_def chained_apart)

lemma Latin1_member:
  assumes "table_checked t" "c \<le> 255"
  shows "in_table t c \<longleftrightarrow> list_ex (range_has c) (take (Suc (LatinOffset t)) (R16 t))"
proof -
  let ?n = "Suc (LatinOffset t)"
  have "\<not> range_has c g" if "g \<in> set (drop ?n (R16 t)) \<union> set (R32 t)" for g
    using assms that by (force simp: table_checked_def list_all_iff range_has_def)
  then show ?thesis using append_take_drop_id [of ?n "R16 t"] by (metis in_table_def list_ex_append list_ex_iff UnI1 UnI2)
qed

lemma Digit_checked: "table_checked unicode_Digit"
  by code_simp

lemma Letter_checked: "table_checked unicode_Letter"
  by code_simp

lemma tables_ok: "table_ok unicode_Digit" "table_ok unicode_Letter" "latin_ok unicode_Digit" "latin_ok unicode_Letter"
  using Digit_checked Letter_checked table_checked_ok
  by (auto simp: latin_ok_def table_checked_def unicode_Digit_def unicode_Letter_def)

text \<open>The fast paths of Latin-1 agree with the tables.\<close>

lemma Latin1_digits: "list_all (\<lambda>c. list_ex (range_has (int c)) (take 2 (R16 unicode_Digit)) = (48 \<le> c \<and> c \<le> 57)) [0..<256]"
  by code_simp

lemma Latin1_letters:
  "list_all (\<lambda>(c, p). list_ex (range_has (int c)) (take 7 (R16 unicode_Letter)) = (js_shr (js_and p 96) 0 \<noteq> 0)) (zip [0..<256] latin_properties)"
  by code_simp

lemma length_latin_properties: "length latin_properties = 256"
  by (simp add: latin_properties_def)

text \<open>
  C19: \<open>IsDigit\<close> and \<open>IsLetter\<close> terminate without a panic on every code point that is not negative, by whichever of their three
  paths, and say whether it lies in a range of the table \<open>Digit\<close>, or \<open>Letter\<close>, at a multiple of the range's stride.
\<close>

theorem letter_classes:
  assumes "0 \<le> r" "r < 2 ^ 31"
  shows "IsDigit r = Some (Inr (in_table unicode_Digit r)) \<and> IsLetter r = Some (Inr (in_table unicode_Letter r))"
proof (cases "r \<le> 255")
  case True
  define c where "c = nat r"
  have c: "r = int c" "c < 256" using assms True by (auto simp: c_def)
  have o: "Suc (LatinOffset unicode_Digit) = 2" "Suc (LatinOffset unicode_Letter) = 7" by (simp_all add: unicode_Digit_def unicode_Letter_def)
  have d: "in_table unicode_Digit r \<longleftrightarrow> 48 \<le> c \<and> c \<le> 57"
    using Latin1_member [OF Digit_checked True] Latin1_digits c by (auto simp: o list_all_iff)
  have "(c, latin_properties ! c) \<in> set (zip [0..<256] latin_properties)"
    using c(2) by (auto simp: in_set_zip length_latin_properties intro!: exI [of _ c])
  then have l: "in_table unicode_Letter r \<longleftrightarrow> js_shr (js_and (latin_properties ! c) 96) 0 \<noteq> 0"
    using Latin1_member [OF Letter_checked True] Latin1_letters c by (auto simp: o list_all_iff)
  have "js_shr r 0 = r" "to_u8 r = r" using c by (simp_all add: js_shr_0 to_u8_mod)
  then show ?thesis using True d l c by (auto simp: IsDigit_def IsLetter_def js_index_def length_latin_properties)
next
  case False
  then show ?thesis using assms excluding_latin_member tables_ok by (simp add: IsDigit_def IsLetter_def js_shr_0)
qed

theorem letter_classes_witness: "IsLetter 945 = Some (Inr True) \<and> IsDigit 945 = Some (Inr False)"
proof -
  have "in_table unicode_Letter 945" "\<not> in_table unicode_Digit 945" by code_simp+
  then show ?thesis using letter_classes [of 945] by simp
qed

text \<open>
  On a negative number the 16-bit conversion in \<open>Is\<close> wraps: \<open>-65488\<close> passes for the digit zero, \<open>-64591\<close> for a Greek letter.
\<close>

lemma Is_negative:
  assumes "table_ok t" "R16 t \<noteq> []" "- 65536 \<le> c" "c < 0"
  shows "unicode_Is t c = Some (Inr (list_ex (range_has (c + 65536)) (R16 t)))"
proof -
  have r: "ranges_ok 0 65536 (R16 t)" "length (R16 t) < 65536" using assms(1) by (auto simp: table_ok_def)
  have "last (R16 t) \<in> set (R16 t)" using assms(2) by simp
  then have "0 \<le> r_Hi (last (R16 t))" using r(1) by (fastforce simp: ranges_ok_def list_all_iff dest: apart_le)
  moreover have "to_u16 c = c + 65536" using assms(3,4) mod_pos_pos_trivial [of "c + 65536" 65536] by (simp add: to_u16_mod)
  ultimately show ?thesis using assms(2,4) is16_has [OF r] last_hi(1) [OF r(1) assms(2)] by (simp add: unicode_Is_def)
qed

lemma negative_digit: "unicode_Is unicode_Digit (-65488) = Some (Inr True)"
proof -
  have "list_ex (range_has 48) (R16 unicode_Digit)" "R16 unicode_Digit \<noteq> []" by code_simp+
  then show ?thesis using Is_negative [OF tables_ok(1), of "-65488"] by simp
qed


section \<open>Case mapping\<close>

definition case_ok :: "case_range \<Rightarrow> bool" where
  "case_ok m \<longleftrightarrow> 0 \<le> c_Lo m \<and> c_Hi m \<le> 1114111 \<and> length (c_Delta m) = 3 \<and>
     list_all (\<lambda>k. if k > 1114111 then odd (c_Hi m - c_Lo m) else 0 \<le> c_Lo m + k \<and> c_Hi m + k \<le> 1114111) (c_Delta m)"

text \<open>What a range says of a code point in it: add the delta, or go to the even or the odd place of a pair.\<close>

definition mapped :: "int \<Rightarrow> int \<Rightarrow> case_range \<Rightarrow> int" where
  "mapped b c m =
     (if c_Delta m ! nat b > 1114111 then c_Lo m + ((c - c_Lo m) div 2 * 2 + b mod 2) else c + c_Delta m ! nat b)"

definition case_of :: "int \<Rightarrow> int \<Rightarrow> int" where
  "case_of b c = (case find (covers c_Lo c_Hi c) CaseRanges of None \<Rightarrow> c | Some m \<Rightarrow> mapped b c m)"

lemma CaseRanges_checked: "chained c_Lo c_Hi CaseRanges" "list_all case_ok CaseRanges" "length CaseRanges < 65536"
  by (code_simp, code_simp, simp add: CaseRanges_def)

lemma case_bounds:
  assumes "m \<in> set CaseRanges"
  shows "0 \<le> c_Lo m" "c_Lo m \<le> c_Hi m" "c_Hi m \<le> 1114111" "case_ok m"
proof -
  show ok: "case_ok m" using assms CaseRanges_checked(2) by (simp add: list_all_iff)
  then show "0 \<le> c_Lo m" "c_Hi m \<le> 1114111" by (simp_all add: case_ok_def)
  show "c_Lo m \<le> c_Hi m" using apart_le [OF chained_apart [OF CaseRanges_checked(1)] assms] .
qed

lemma even_part: "0 \<le> x \<Longrightarrow> x < 2 ^ 31 \<Longrightarrow> js_and x (-2) = x div 2 * 2"
proof -
  assume x: "0 \<le> x" "x < 2 ^ 31"
  have "x AND (-2) = x div 2 * 2" using and_rec [of x "-2"] by simp
  moreover have "ToInt32 x = x" "ToInt32 (-2) = -2" using x by (auto intro: ToInt32_id)
  ultimately show ?thesis by (simp add: js_and_def)
qed

lemma find_cong_set: "(\<And>x. x \<in> set xs \<Longrightarrow> P x = Q x) \<Longrightarrow> find P xs = find Q xs"
  by (induction xs) auto

text \<open>The case mapping terminates without a panic, by the binary search, with what the range that covers the code point says.\<close>

theorem unicode_To_mapped:
  assumes c: "0 \<le> c" "c < 2 ^ 31" and b: "0 \<le> b" "b < 3"
  shows "unicode_To b c = Some (Inr (case_of b c))"
proof -
  let ?lo = "\<lambda>m. js_sar (c_Lo m) 0" and ?hi = "\<lambda>m. js_sar (c_Hi m) 0"
  have s: "?lo m = c_Lo m" "?hi m = c_Hi m" if "m \<in> set CaseRanges" for m
    using case_bounds [OF that] by (auto simp: js_sar_eq ToInt32_id)
  have ap: "apart c_Lo c_Hi CaseRanges" by (rule chained_apart [OF CaseRanges_checked(1)])
  then have "apart ?lo ?hi CaseRanges"
    using s by (auto simp: apart_def list_all_iff sorted_wrt_iff_nth_less)
  then have r: "range_search ?lo ?hi CaseRanges c 0 (int (length CaseRanges)) = Some (Inr (find (covers ?lo ?hi c) CaseRanges))"
    by (rule range_search_find) (use CaseRanges_checked(3) in simp)
  have f: "find (covers ?lo ?hi c) CaseRanges = find (covers c_Lo c_Hi c) CaseRanges"
    by (rule find_cong_set) (simp add: covers_def s)
  show ?thesis
  proof (cases "find (covers c_Lo c_Hi c) CaseRanges")
    case None
    then show ?thesis using b r f by (simp add: unicode_To_def unicode_to_def case_of_def)
  next
    case (Some m)
    then have m: "m \<in> set CaseRanges" "covers c_Lo c_Hi c m" by (auto simp: find_Some_iff)
    note k = case_bounds [OF m(1)]
    define d where "d = c_Delta m ! nat b"
    have d: "js_index (c_Delta m) b = Inr d" "d \<in> set (c_Delta m)"
      using k(4) b by (auto simp: js_index_def case_ok_def d_def)
    have d2: "if d > 1114111 then odd (c_Hi m - c_Lo m) else 0 \<le> c_Lo m + d \<and> c_Hi m + d \<le> 1114111"
      using k(4) d(2) by (auto simp: case_ok_def list_all_iff)
    have o: "c_Lo m \<le> c" "c - c_Lo m \<le> 1114111" "c \<le> c_Hi m" using m(2) k by (auto simp: covers_def)
    have "js_sar (c - c_Lo m) 0 = c - c_Lo m" using o by (simp add: js_sar_eq ToInt32_id)
    then have e: "js_sar (js_and (js_sar (c - c_Lo m) 0) (-2)) 0 = (c - c_Lo m) div 2 * 2"
      using o by (simp add: even_part js_sar_eq ToInt32_id)
    have p: "js_sar (js_and b 1) 0 = b mod 2" using b js_and_masks(1) [of b] by (simp add: js_sar_eq ToInt32_id)
    have "js_or ((c - c_Lo m) div 2 * 2) (b mod 2) = (c - c_Lo m) div 2 * 2 + b mod 2"
      using o js_or_plus [of 1 "(c - c_Lo m) div 2 * 2" "b mod 2"] by simp
    then have alt: "js_sar (c_Lo m + js_or (js_sar (js_and (js_sar (c - c_Lo m) 0) (-2)) 0) (js_sar (js_and b 1) 0)) 0 =
        c_Lo m + ((c - c_Lo m) div 2 * 2 + b mod 2)"
      unfolding e p using o k(1,3) by (simp add: js_sar_eq ToInt32_id)
    have "\<not> d > 1114111 \<Longrightarrow> js_sar (c + d) 0 = c + d" using d2 o by (simp add: js_sar_eq ToInt32_id)
    then show ?thesis using b r f Some d alt s [OF m(1)]
      by (auto simp: unicode_To_def unicode_to_def case_of_def mapped_def simp flip: d_def)
  qed
qed

text \<open>The result is a code point again.\<close>

lemma case_of_range:
  assumes "0 \<le> c" "c \<le> 1114111" "0 \<le> b" "b < 3"
  shows "0 \<le> case_of b c \<and> case_of b c \<le> 1114111"
proof (cases "find (covers c_Lo c_Hi c) CaseRanges")
  case None
  then show ?thesis using assms by (simp add: case_of_def)
next
  case (Some m)
  then have m: "m \<in> set CaseRanges" "covers c_Lo c_Hi c m" by (auto simp: find_Some_iff)
  note k = case_bounds [OF m(1)]
  define d where "d = c_Delta m ! nat b"
  have "d \<in> set (c_Delta m)" using k(4) assms by (auto simp: case_ok_def d_def)
  then have d2: "if d > 1114111 then odd (c_Hi m - c_Lo m) else 0 \<le> c_Lo m + d \<and> c_Hi m + d \<le> 1114111"
    using k(4) by (auto simp: case_ok_def list_all_iff)
  have o: "c_Lo m \<le> c" "c \<le> c_Hi m" using m(2) by (auto simp: covers_def)
  have "(c - c_Lo m) div 2 * 2 + b mod 2 \<le> c_Hi m - c_Lo m" if "odd (c_Hi m - c_Lo m)"
  proof -
    define q where "q = (c_Hi m - c_Lo m) div 2"
    have q: "c_Hi m - c_Lo m = 2 * q + 1" using odd_two_times_div_two_succ [OF that] by (simp add: q_def)
    then have "(c - c_Lo m) div 2 \<le> q" using o by linarith
    moreover have "b mod 2 \<le> 1" by linarith
    ultimately show ?thesis using q by linarith
  qed
  moreover have "0 \<le> (c - c_Lo m) div 2 * 2 + b mod 2" using o by simp
  ultimately show ?thesis using Some d2 o k by (auto simp: case_of_def mapped_def simp flip: d_def split: if_splits)
qed

text \<open>Up to 127 the table has the two ranges of the letters only.\<close>

lemma case_of_ascii:
  assumes "0 \<le> c" "c \<le> 127"
  shows "case_of 0 c = (if 97 \<le> c \<and> c \<le> 122 then c - 32 else c)" "case_of 1 c = (if 65 \<le> c \<and> c \<le> 90 then c + 32 else c)"
proof -
  have "list_all (\<lambda>m. 127 < c_Lo m) (drop 2 CaseRanges)" by code_simp
  then have "find (covers c_Lo c_Hi c) (drop 2 CaseRanges) = None" using assms(2) by (force simp: find_None_iff list_all_iff covers_def)
  moreover have app: "find P (xs @ ys) = (case find P xs of None \<Rightarrow> find P ys | Some x \<Rightarrow> Some x)" for P and xs ys :: "case_range list"
    by (induction xs) auto
  ultimately have "find (covers c_Lo c_Hi c) CaseRanges = find (covers c_Lo c_Hi c) (take 2 CaseRanges)"
    using app [of "covers c_Lo c_Hi c" "take 2 CaseRanges" "drop 2 CaseRanges"] by (simp split: option.splits)
  moreover have "take 2 CaseRanges = [cr 65 90 0 32 0, cr 97 122 (-32) 0 (-32)]" by (simp add: CaseRanges_def)
  ultimately show "case_of 0 c = (if 97 \<le> c \<and> c \<le> 122 then c - 32 else c)" "case_of 1 c = (if 65 \<le> c \<and> c \<le> 90 then c + 32 else c)"
    by (auto simp: case_of_def mapped_def covers_def)
qed

theorem ToUpper_ToLower_mapped:
  assumes "0 \<le> c" "c \<le> 1114111"
  shows "\<exists>u l. ToUpper c = Some (Inr u) \<and> ToLower c = Some (Inr l) \<and> 0 \<le> u \<and> u \<le> 1114111 \<and> 0 \<le> l \<and> l \<le> 1114111 \<and>
    u = case_of 0 c \<and> l = case_of 1 c"
proof -
  have r: "0 \<le> case_of b c \<and> case_of b c \<le> 1114111" if "b = 0 \<or> b = 1" for b using case_of_range [of c b] assms that by auto
  show ?thesis
  proof (cases "c \<le> 127")
    case True
    note a = case_of_ascii [OF assms(1) True]
    have "js_sar (c - 32) 0 = c - 32" "js_sar (c + 32) 0 = c + 32" using assms by (simp_all add: js_sar_eq ToInt32_id)
    then show ?thesis using r a True assms by (auto simp: ToUpper_def ToLower_def)
  next
    case False
    then show ?thesis using r unicode_To_mapped [of c 0] unicode_To_mapped [of c 1] assms by (simp add: ToUpper_def ToLower_def)
  qed
qed


section \<open>Folding\<close>

lemma orbit_search_least:
  assumes "sorted_wrt (<) (map fst b)" "list_all (\<lambda>m. 0 \<le> fst m \<and> fst m < 2147483648) b" "int (length b) < 2 ^ 31"
  shows "\<exists>k. orbit_search b r 0 (int (length b)) = Some (Inr (int k)) \<and> k \<le> length b \<and>
    (\<forall>l < k. fst (b ! l) < r) \<and> (k < length b \<longrightarrow> r \<le> fst (b ! k))"
proof -
  let ?n = "int (length b)"
  have mono: "k < l \<Longrightarrow> l < length b \<Longrightarrow> fst (b ! k) < fst (b ! l)" for k l
    using assms(1) by (auto simp: sorted_wrt_iff_nth_less)
  have sar: "k < length b \<Longrightarrow> js_sar (fst (b ! k)) 0 = fst (b ! k)" for k
    using assms(2) by (auto simp: list_all_length js_sar_eq intro!: ToInt32_id)
  have "0 \<le> i \<Longrightarrow> i \<le> j \<Longrightarrow> j \<le> ?n \<Longrightarrow> (\<forall>l. int l < i \<longrightarrow> fst (b ! l) < r) \<Longrightarrow> (j < ?n \<Longrightarrow> r \<le> fst (b ! nat j)) \<Longrightarrow>
    \<exists>k. orbit_search b r i j = Some (Inr (int k)) \<and> k \<le> length b \<and> (\<forall>l < k. fst (b ! l) < r) \<and> (k < length b \<longrightarrow> r \<le> fst (b ! k))" for i j
  proof (induction "nat (j - i)" arbitrary: i j rule: less_induct)
    case less
    show ?case
    proof (cases "i < j")
      case False
      then have "orbit_search b r i j = Some (Inr (int (nat i)))" using less.prems by (subst orbit_search.simps) simp
      moreover have "\<forall>l < nat i. fst (b ! l) < r" using less.prems(4) by auto
      moreover have "nat i < length b \<longrightarrow> r \<le> fst (b ! nat i)" "nat i \<le> length b" using less.prems False by auto
      ultimately show ?thesis by blast
    next
      case True
      have h: "i \<le> half i j" "half i j < j" using half_between [of i j] less.prems True assms(3) by auto
      define l where "l = nat (half i j)"
      have l: "half i j = int l" "l < length b" using h less.prems by (auto simp: l_def)
      have s: "js_sar (int l + 1) 0 = int l + 1" using l h assms(3) by (simp add: js_sar_eq ToInt32_id)
      have step: "orbit_search b r i j = (if fst (b ! l) < r then orbit_search b r (int l + 1) j else orbit_search b r i (int l))"
        using True l sar [OF l(2)] by (subst orbit_search.simps) (simp add: s js_index_def)
      show ?thesis
      proof (cases "fst (b ! l) < r")
        case lt: True
        have "fst (b ! k) < r" if "int k < int l + 1" for k
          using that lt mono [of k l] l(2) by (cases "k = l") auto
        then have "\<exists>k. orbit_search b r (int l + 1) j = Some (Inr (int k)) \<and> k \<le> length b \<and> (\<forall>l < k. fst (b ! l) < r) \<and> (k < length b \<longrightarrow> r \<le> fst (b ! k))"
          using less.hyps [of j "int l + 1"] h l less.prems by auto
        then show ?thesis using step lt by simp
      next
        case ge: False
        then have "\<exists>k. orbit_search b r i (int l) = Some (Inr (int k)) \<and> k \<le> length b \<and> (\<forall>l < k. fst (b ! l) < r) \<and> (k < length b \<longrightarrow> r \<le> fst (b ! k))"
          using less.hyps [of "int l" i] h l less.prems by auto
        then show ?thesis using step ge by simp
      qed
    qed
  qed
  from this [of 0 ?n] show ?thesis by simp
qed

definition fold_next :: "int \<Rightarrow> int" where
  "fold_next c =
     (case map_of caseOrbit c of Some t \<Rightarrow> t | None \<Rightarrow> if case_of 1 c \<noteq> c then case_of 1 c else case_of 0 c)"

lemma caseOrbit_checked:
  "chained fst fst caseOrbit" "list_all (\<lambda>m. 0 \<le> fst m \<and> fst m < 2147483648 \<and> 0 \<le> snd m \<and> snd m < 2147483648) caseOrbit" "length caseOrbit < 65536"
  by (code_simp, code_simp, simp add: caseOrbit_def)

lemma asciiFold_checked:
  "length asciiFold = 128"
  "list_all (\<lambda>(c, x). x = (case map_of caseOrbit (int c) of Some t \<Rightarrow> t
     | None \<Rightarrow> if 65 \<le> c \<and> c \<le> 90 then int c + 32 else if 97 \<le> c \<and> c \<le> 122 then int c - 32 else int c)) (zip [0..<128] asciiFold)"
  by (simp add: asciiFold_def, code_simp)

text \<open>\<open>SimpleFold\<close> terminates without a panic; the table of ASCII, the binary search in the orbits and the case mapping give the same function.\<close>

theorem SimpleFold_next:
  assumes "0 \<le> c" "c \<le> 1114111"
  shows "SimpleFold c = Some (Inr (fold_next c))"
proof (cases "c < 128")
  case True
  define k where "k = nat c"
  have k: "c = int k" "k < 128" using assms True by (auto simp: k_def)
  have "(k, asciiFold ! k) \<in> set (zip [0..<128] asciiFold)"
    using k(2) by (auto simp: in_set_zip asciiFold_checked(1) intro!: exI [of _ k])
  then have x: "asciiFold ! k = fold_next c"
    using asciiFold_checked(2) k case_of_ascii [of c] by (auto simp: list_all_iff fold_next_def split: option.splits)
  have "js_sar c 0 = c" using assms by (simp add: js_sar_eq ToInt32_id)
  moreover have "js_sar (fold_next c) 0 = fold_next c"
  proof -
    have "map_of caseOrbit c = Some t \<Longrightarrow> 0 \<le> t \<and> t < 2147483648" for t
      using caseOrbit_checked(2) by (auto simp: list_all_iff dest!: map_of_SomeD)
    then have "0 \<le> fold_next c \<and> fold_next c < 2147483648"
      using case_of_range [of c 0] case_of_range [of c 1] assms by (auto simp: fold_next_def split: option.splits)
    then show ?thesis by (simp add: js_sar_eq ToInt32_id)
  qed
  ultimately show ?thesis using assms True k x by (simp add: SimpleFold_def js_index_def asciiFold_checked(1))
next
  case False
  have ap: "apart fst fst caseOrbit" by (rule chained_apart [OF caseOrbit_checked(1)])
  then have so: "sorted_wrt (<) (map fst caseOrbit)" by (simp add: apart_def sorted_wrt_map)
  have rng: "list_all (\<lambda>m. 0 \<le> fst m \<and> fst m < 2147483648) caseOrbit" using caseOrbit_checked(2) by (auto simp: list_all_iff)
  have len: "int (length caseOrbit) < 2 ^ 31" using caseOrbit_checked(3) by simp
  obtain k where k: "orbit_search caseOrbit c 0 (int (length caseOrbit)) = Some (Inr (int k))" "k \<le> length caseOrbit"
    "\<forall>l < k. fst (caseOrbit ! l) < c" "k < length caseOrbit \<longrightarrow> c \<le> fst (caseOrbit ! k)"
    using orbit_search_least [OF so rng len] by blast
  have sar: "js_sar c 0 = c" using assms by (simp add: js_sar_eq ToInt32_id)
  obtain u l where ul: "ToUpper c = Some (Inr u)" "ToLower c = Some (Inr l)" "u = case_of 0 c" "l = case_of 1 c"
    using ToUpper_ToLower_mapped [OF assms] by blast
  show ?thesis
  proof (cases "k < length caseOrbit \<and> fst (caseOrbit ! k) = c")
    case True
    then have e: "caseOrbit ! k \<in> set caseOrbit" "caseOrbit ! k = (c, snd (caseOrbit ! k))" by (auto simp: prod_eq_iff)
    have "distinct (map fst caseOrbit)" using so by (simp add: strict_sorted_iff)
    then have m: "map_of caseOrbit c = Some (snd (caseOrbit ! k))" using e by (metis map_of_is_SomeI)
    have "0 \<le> snd (caseOrbit ! k)" "snd (caseOrbit ! k) < 2147483648" using caseOrbit_checked(2) e(1) by (auto simp: list_all_iff)
    then have "js_sar (snd (caseOrbit ! k)) 0 = snd (caseOrbit ! k)" by (simp add: js_sar_eq ToInt32_id)
    then show ?thesis using False assms True k m sar by (simp add: SimpleFold_def fold_next_def)
  next
    case none: False
    have "fst (caseOrbit ! l) \<noteq> c" if "l < length caseOrbit" for l
    proof -
      consider "l < k" | "l = k" | "k < l" by linarith
      then show ?thesis using k(3,4) none that apart_nth [OF ap, of k l] by cases auto
    qed
    then have "c \<notin> fst ` set caseOrbit" by (metis in_set_conv_nth imageE)
    then have m: "map_of caseOrbit c = None" by (simp add: map_of_eq_None_iff)
    have "k < length caseOrbit \<Longrightarrow> js_sar (fst (caseOrbit ! k)) 0 = fst (caseOrbit ! k)"
      using rng by (auto simp: list_all_length js_sar_eq intro!: ToInt32_id)
    then have "SimpleFold c = bind2 (ToLower c) (\<lambda>g. if g \<noteq> c then Some (Inr g) else ToUpper c)"
      using False assms k(1) none sar by (auto simp: SimpleFold_def)
    then show ?thesis using ul m by (simp add: fold_next_def)
  qed
qed

text \<open>Following the orbit of a code point leads back to it.\<close>

lemma caseOrbit_cycles:
  "list_all (\<lambda>(c, t). c = t \<or> (case map_of caseOrbit t of None \<Rightarrow> False | Some u \<Rightarrow> c = u \<or>
     (case map_of caseOrbit u of None \<Rightarrow> False | Some v \<Rightarrow> c = v \<or> map_of caseOrbit v = Some c))) caseOrbit"
  by code_simp

end
