(* ===== verification/Bundle_Init.thy ===== *)
theory Bundle_Init
  imports Prelude
begin

text \<open>
  The start of the bundle: the packages of \<open>$packages\<close>, in the order the bundle defines them, and the run of their
  \<open>$init\<close> functions.  The first action of a package's \<open>$init\<close> is to replace \<open>$pkg.$init\<close> by a function that does
  nothing; it then calls the \<open>$init\<close> of other packages, in order, and runs its own initialisation.

  There are two tables, each read off its own part of the packages.  \<open>imports_of\<close> is what a package uses: the
  declarations \<open>A=$packages["..."]\<close> at its head, through which all its code reaches other packages.  \<open>init_calls\<close> is
  what its \<open>$init\<close> does: the calls \<open>$r=A.$init()\<close>.  The run below makes the calls; that a package is initialised after
  everything it uses is stated with the declarations.
\<close>

datatype package =
    GopherJs | Cpu | ByteAlg | Sys | RuntimePkg | ErrorsPkg | Bits | MathPkg | Utf8Pkg | Strconv | Race |
    AtomicPkg | SyncPkg | UnicodePkg | Reflect | SortPkg | FmtSort | IoPkg | Syscall | NoSync | TimePkg | Poll |
    Unix | TestLog | Os | Fmt | BytesPkg | BinaryPkg | StringsPkg | RegexpSyntax | Regexp | StrucPkg | ProtoPkg |
    WebsocketJs | ContextPkg | NetTrace | SingleFlight | DnsMessage | RandPkg | Net | UrlPkg | WebsocketPkg |
    HeapPkg | SmuxPkg | BridgePkg | LogPkg | BridgeJs

text \<open>The packages each package declares.\<close>

fun imports_of :: "package \<Rightarrow> package list" where
  "imports_of GopherJs = []"
| "imports_of Cpu = []"
| "imports_of ByteAlg = [Cpu]"
| "imports_of Sys = []"
| "imports_of RuntimePkg = [GopherJs, ByteAlg, Sys]"
| "imports_of ErrorsPkg = []"
| "imports_of Bits = []"
| "imports_of MathPkg = [GopherJs, Bits]"
| "imports_of Utf8Pkg = []"
| "imports_of Strconv = [ErrorsPkg, ByteAlg, MathPkg, Bits, Utf8Pkg]"
| "imports_of Race = []"
| "imports_of AtomicPkg = [GopherJs]"
| "imports_of SyncPkg = [GopherJs, Race, RuntimePkg, AtomicPkg]"
| "imports_of UnicodePkg = []"
| "imports_of Reflect = [ErrorsPkg, GopherJs, MathPkg, RuntimePkg, Strconv, SyncPkg, UnicodePkg, Utf8Pkg]"
| "imports_of SortPkg = [Reflect]"
| "imports_of FmtSort = [Reflect, SortPkg]"
| "imports_of IoPkg = [ErrorsPkg, SyncPkg, AtomicPkg]"
| "imports_of Syscall = [GopherJs, Race, RuntimePkg, SyncPkg]"
| "imports_of NoSync = []"
| "imports_of TimePkg = [ErrorsPkg, GopherJs, NoSync, RuntimePkg, Syscall]"
| "imports_of Poll = [ErrorsPkg, IoPkg, RuntimePkg, AtomicPkg, Syscall, TimePkg]"
| "imports_of Unix = [AtomicPkg, Syscall]"
| "imports_of TestLog = [AtomicPkg]"
| "imports_of Os = [ErrorsPkg, GopherJs, Poll, Unix, TestLog, IoPkg, RuntimePkg, SyncPkg, AtomicPkg, Syscall, TimePkg]"
| "imports_of Fmt = [ErrorsPkg, FmtSort, IoPkg, MathPkg, Os, Reflect, Strconv, SyncPkg, Utf8Pkg]"
| "imports_of BytesPkg = [ErrorsPkg, ByteAlg, IoPkg, UnicodePkg, Utf8Pkg]"
| "imports_of BinaryPkg = [ErrorsPkg, IoPkg, MathPkg, Reflect]"
| "imports_of StringsPkg = [ErrorsPkg, GopherJs, ByteAlg, IoPkg, SyncPkg, UnicodePkg, Utf8Pkg]"
| "imports_of RegexpSyntax = [SortPkg, Strconv, StringsPkg, UnicodePkg, Utf8Pkg]"
| "imports_of Regexp = [BytesPkg, NoSync, IoPkg, RegexpSyntax, SortPkg, Strconv, StringsPkg, UnicodePkg, Utf8Pkg]"
| "imports_of StrucPkg = [BytesPkg, BinaryPkg, ErrorsPkg, Fmt, IoPkg, MathPkg, Reflect, Regexp, Strconv, StringsPkg, SyncPkg]"
| "imports_of ProtoPkg = [BytesPkg, StrucPkg, IoPkg]"
| "imports_of WebsocketJs = [GopherJs]"
| "imports_of ContextPkg = [ErrorsPkg, Fmt, Reflect, SyncPkg, TimePkg]"
| "imports_of NetTrace = []"
| "imports_of SingleFlight = [SyncPkg]"
| "imports_of DnsMessage = [ErrorsPkg]"
| "imports_of RandPkg = [NoSync, MathPkg]"
| "imports_of Net = [ContextPkg, ErrorsPkg, GopherJs, ByteAlg, NetTrace, Poll, SingleFlight, DnsMessage, IoPkg, RandPkg, Os, RuntimePkg, SortPkg, SyncPkg, AtomicPkg, Syscall, TimePkg]"
| "imports_of UrlPkg = [ErrorsPkg, Fmt, SortPkg, Strconv, StringsPkg]"
| "imports_of WebsocketPkg = [BytesPkg, Fmt, GopherJs, WebsocketJs, IoPkg, Net, UrlPkg, TimePkg]"
| "imports_of HeapPkg = [SortPkg]"
| "imports_of SmuxPkg = [HeapPkg, BinaryPkg, ErrorsPkg, Fmt, IoPkg, MathPkg, Net, SyncPkg, AtomicPkg, TimePkg]"
| "imports_of BridgePkg = [Fmt, ProtoPkg, WebsocketPkg, SmuxPkg, IoPkg, TimePkg]"
| "imports_of LogPkg = [Fmt, NoSync, IoPkg, Os, RuntimePkg, TimePkg]"
| "imports_of BridgeJs = [Fmt, GopherJs, BridgePkg, LogPkg, UrlPkg]"

text \<open>The calls of each package's \<open>$init\<close>.\<close>

fun init_calls :: "package \<Rightarrow> package list" where
  "init_calls GopherJs = []"
| "init_calls Cpu = []"
| "init_calls ByteAlg = [Cpu]"
| "init_calls Sys = []"
| "init_calls RuntimePkg = [GopherJs, ByteAlg, Sys]"
| "init_calls ErrorsPkg = []"
| "init_calls Bits = []"
| "init_calls MathPkg = [GopherJs, Bits]"
| "init_calls Utf8Pkg = []"
| "init_calls Strconv = [ErrorsPkg, ByteAlg, MathPkg, Bits, Utf8Pkg]"
| "init_calls Race = []"
| "init_calls AtomicPkg = [GopherJs]"
| "init_calls SyncPkg = [GopherJs, Race, RuntimePkg, AtomicPkg]"
| "init_calls UnicodePkg = []"
| "init_calls Reflect = [ErrorsPkg, GopherJs, MathPkg, RuntimePkg, Strconv, SyncPkg, UnicodePkg, Utf8Pkg]"
| "init_calls SortPkg = [Reflect]"
| "init_calls FmtSort = [Reflect, SortPkg]"
| "init_calls IoPkg = [ErrorsPkg, SyncPkg, AtomicPkg]"
| "init_calls Syscall = [GopherJs, Race, RuntimePkg, SyncPkg]"
| "init_calls NoSync = []"
| "init_calls TimePkg = [ErrorsPkg, GopherJs, NoSync, RuntimePkg, Syscall]"
| "init_calls Poll = [ErrorsPkg, IoPkg, RuntimePkg, AtomicPkg, Syscall, TimePkg]"
| "init_calls Unix = [AtomicPkg, Syscall]"
| "init_calls TestLog = [AtomicPkg]"
| "init_calls Os = [ErrorsPkg, GopherJs, Poll, Unix, TestLog, IoPkg, RuntimePkg, SyncPkg, AtomicPkg, Syscall, TimePkg]"
| "init_calls Fmt = [ErrorsPkg, FmtSort, IoPkg, MathPkg, Os, Reflect, Strconv, SyncPkg, Utf8Pkg]"
| "init_calls BytesPkg = [ErrorsPkg, ByteAlg, IoPkg, UnicodePkg, Utf8Pkg]"
| "init_calls BinaryPkg = [ErrorsPkg, IoPkg, MathPkg, Reflect]"
| "init_calls StringsPkg = [ErrorsPkg, GopherJs, ByteAlg, IoPkg, SyncPkg, UnicodePkg, Utf8Pkg]"
| "init_calls RegexpSyntax = [SortPkg, Strconv, StringsPkg, UnicodePkg, Utf8Pkg]"
| "init_calls Regexp = [BytesPkg, NoSync, IoPkg, RegexpSyntax, SortPkg, Strconv, StringsPkg, UnicodePkg, Utf8Pkg]"
| "init_calls StrucPkg = [BytesPkg, BinaryPkg, ErrorsPkg, Fmt, IoPkg, MathPkg, Reflect, Regexp, Strconv, StringsPkg, SyncPkg]"
| "init_calls ProtoPkg = [BytesPkg, StrucPkg, IoPkg]"
| "init_calls WebsocketJs = [GopherJs]"
| "init_calls ContextPkg = [ErrorsPkg, Fmt, Reflect, SyncPkg, TimePkg]"
| "init_calls NetTrace = []"
| "init_calls SingleFlight = [SyncPkg]"
| "init_calls DnsMessage = [ErrorsPkg]"
| "init_calls RandPkg = [NoSync, MathPkg]"
| "init_calls Net = [ContextPkg, ErrorsPkg, GopherJs, ByteAlg, NetTrace, Poll, SingleFlight, DnsMessage, IoPkg, RandPkg, Os, RuntimePkg, SortPkg, SyncPkg, AtomicPkg, Syscall, TimePkg]"
| "init_calls UrlPkg = [ErrorsPkg, Fmt, SortPkg, Strconv, StringsPkg]"
| "init_calls WebsocketPkg = [BytesPkg, Fmt, GopherJs, WebsocketJs, IoPkg, Net, UrlPkg, TimePkg]"
| "init_calls HeapPkg = [SortPkg]"
| "init_calls SmuxPkg = [HeapPkg, BinaryPkg, ErrorsPkg, Fmt, IoPkg, MathPkg, Net, SyncPkg, AtomicPkg, TimePkg]"
| "init_calls BridgePkg = [Fmt, ProtoPkg, WebsocketPkg, SmuxPkg, IoPkg, TimePkg]"
| "init_calls LogPkg = [Fmt, NoSync, IoPkg, Os, RuntimePkg, TimePkg]"
| "init_calls BridgeJs = [Fmt, GopherJs, BridgePkg, LogPkg, UrlPkg]"

definition mainPkg :: package where "mainPkg = BridgeJs"

text \<open>
  A run is recorded as its events.  The own initialisation of a package (its variables and \<open>init\<close> functions) is one
  event; it runs to its end, since none of them waits.  The main package then calls \<open>F\<close>, Go's \<open>main\<close>, which prints its
  version, starts the goroutine that runs the bridge and returns, and sets \<open>$mainFinished\<close>.  The state is the list of
  packages whose \<open>$init\<close> has been replaced, with the events so far; the first argument bounds the depth of the calls.
\<close>

datatype init_event = Initialised package | PrintedLine string | SpawnedBridge | MainFinished

type_synonym init_state = "package list \<times> init_event list"

definition main_F :: "init_event list" where "main_F = [PrintedLine ''V3'', SpawnedBridge]"

definition own_init :: "package \<Rightarrow> init_event list" where
  "own_init p = Initialised p # (if p = mainPkg then main_F @ [MainFinished] else [])"

primrec init_package :: "nat \<Rightarrow> package \<Rightarrow> init_state \<Rightarrow> init_state option" where
  "init_package 0 p s = None"
| "init_package (Suc n) p s =
     (if p \<in> set (fst s) then Some s
      else case foldl (\<lambda>r q. Option.bind r (init_package n q)) (Some (p # fst s, snd s)) (init_calls p) of
             None \<Rightarrow> None
           | Some (d, tr) \<Rightarrow> Some (d, tr @ own_init p))"

text \<open>The last statements of the bundle: \<open>runtime\<close> is initialised, then the goroutine of the main package runs its \<open>$init\<close>.\<close>

definition start_bundle :: "nat \<Rightarrow> init_state option" where
  "start_bundle n = Option.bind (init_package n RuntimePkg ([], [])) (init_package n mainPkg)"

section \<open>The order of initialisation\<close>

fun ordered_after :: "package set \<Rightarrow> package list \<Rightarrow> bool" where
  "ordered_after seen [] \<longleftrightarrow> True"
| "ordered_after seen (p # ps) \<longleftrightarrow> set (imports_of p) \<subseteq> seen \<and> ordered_after (insert p seen) ps"

lemma ordered_append: "ordered_after s (xs @ ys) \<longleftrightarrow> ordered_after s xs \<and> ordered_after (s \<union> set xs) ys"
  by (induction xs arbitrary: s) auto

text \<open>What a package imports, directly or through others, itself included.\<close>

definition imported :: "(package \<times> package) set" where
  "imported = {(q, p). q \<in> set (imports_of p)}"

text \<open>Every \<open>$init\<close> calls the packages its package declares, and a package only declares packages defined before it.\<close>

definition bundle_order :: "package list" where
  "bundle_order = [GopherJs, Cpu, ByteAlg, Sys, RuntimePkg, ErrorsPkg, Bits, MathPkg, Utf8Pkg, Strconv, Race, AtomicPkg, SyncPkg,
    UnicodePkg, Reflect, SortPkg, FmtSort, IoPkg, Syscall, NoSync, TimePkg, Poll, Unix, TestLog, Os, Fmt,
    BytesPkg, BinaryPkg, StringsPkg, RegexpSyntax, Regexp, StrucPkg, ProtoPkg, WebsocketJs, ContextPkg, NetTrace,
    SingleFlight, DnsMessage, RandPkg, Net, UrlPkg, WebsocketPkg, HeapPkg, SmuxPkg, BridgePkg, LogPkg, BridgeJs]"

definition place :: "package \<Rightarrow> nat" where
  "place p = length (takeWhile (\<lambda>q. q \<noteq> p) bundle_order)"

lemma bundle_order_all: "p \<in> set bundle_order"
  by (cases p) (simp_all add: bundle_order_def)

lemma place_bound: "place p < 47"
proof -
  have "list_all (\<lambda>p. place p < 47) bundle_order" by code_simp
  then show ?thesis using bundle_order_all [of p] by (simp add: list_all_iff)
qed

lemma calls_imports: "init_calls p = imports_of p"
  by (cases p) simp_all

lemma imports_before: "q \<in> set (imports_of p) \<Longrightarrow> place q < place p"
proof -
  assume q: "q \<in> set (imports_of p)"
  have "list_all (\<lambda>p. list_all (\<lambda>q. place q < place p) (imports_of p)) bundle_order" by code_simp
  then show ?thesis using q bundle_order_all [of p] by (auto simp: list_all_iff)
qed

text \<open>
  The run of one \<open>$init\<close>, from any state in which the packages that are under way come after it in the bundle: it
  initialises a list of packages that had not been begun, each after what it imports.
\<close>

definition initialises :: "package set \<Rightarrow> package list \<Rightarrow> init_state \<Rightarrow> init_state \<Rightarrow> bool" where
  "initialises I ps s t \<longleftrightarrow> set (fst t) = set (fst s) \<union> set ps \<and> snd t = snd s @ concat (map own_init ps) \<and>
     distinct ps \<and> set ps \<inter> set (fst s) = {} \<and> ordered_after I ps"

lemma initialises_trans:
  "initialises I ps s t \<Longrightarrow> initialises (I \<union> set ps) qs t u \<Longrightarrow> initialises I (ps @ qs) s u"
  by (auto simp: initialises_def ordered_append)

lemma init_calls_run:
  assumes "\<And>q s I. q \<in> set qs \<Longrightarrow> I \<subseteq> set (fst s) \<Longrightarrow> \<forall>x\<in>set (fst s) - I. m < place x \<Longrightarrow>
      \<exists>t ps. f q s = Some t \<and> initialises I ps s t \<and> q \<in> I \<union> set ps \<and> set ps \<subseteq> R q"
    and "I \<subseteq> set (fst s)" and "\<forall>x\<in>set (fst s) - I. m < place x"
  shows "\<exists>t ps. foldl (\<lambda>r q. Option.bind r (f q)) (Some s) qs = Some t \<and> initialises I ps s t \<and>
    set qs \<subseteq> I \<union> set ps \<and> set ps \<subseteq> \<Union> (R ` set qs)"
  using assms
proof (induction qs arbitrary: s I)
  case Nil
  then show ?case by (intro exI [of _ s] exI [of _ "[]"]) (simp add: initialises_def)
next
  case (Cons q qs)
  obtain t ps where t: "f q s = Some t" "initialises I ps s t" "q \<in> I \<union> set ps" "set ps \<subseteq> R q"
    using Cons.prems by (metis list.set_intros(1))
  have next_state: "I \<union> set ps \<subseteq> set (fst t)" "\<forall>x\<in>set (fst t) - (I \<union> set ps). m < place x"
    using t(2) Cons.prems(2,3) by (auto simp: initialises_def)
  obtain u rs where u: "foldl (\<lambda>r q. Option.bind r (f q)) (Some t) qs = Some u" "initialises (I \<union> set ps) rs t u"
      "set qs \<subseteq> I \<union> set ps \<union> set rs" "set rs \<subseteq> \<Union> (R ` set qs)"
    using Cons.IH [OF _ next_state] Cons.prems(1) by (metis list.set_intros(2))
  show ?case
    by (rule exI [of _ u], rule exI [of _ "ps @ rs"]) (use t u initialises_trans [OF t(2) u(2)] in auto)
qed

definition reach :: "package \<Rightarrow> package set" where
  "reach p = {q. (q, p) \<in> imported\<^sup>*}"

lemma reach_self: "p \<in> reach p"
  by (simp add: reach_def)

lemma reach_import: "q \<in> set (imports_of p) \<Longrightarrow> reach q \<subseteq> reach p"
  by (auto simp: reach_def imported_def intro: rtrancl_into_rtrancl)

lemma init_package_run:
  "place p < n \<Longrightarrow> I \<subseteq> set (fst s) \<Longrightarrow> \<forall>x\<in>set (fst s) - I. place p < place x \<Longrightarrow>
    \<exists>t ps. init_package n p s = Some t \<and> initialises I ps s t \<and> p \<in> I \<union> set ps \<and> set ps \<subseteq> reach p \<and>
      (p \<notin> set (fst s) \<longrightarrow> ps \<noteq> [] \<and> last ps = p)"
proof (induction n arbitrary: p I s)
  case (Suc n)
  show ?case
  proof (cases "p \<in> set (fst s)")
    case True
    then have "p \<in> I" using Suc.prems(3) by blast
    then show ?thesis using True by (intro exI [of _ s] exI [of _ "[]"]) (simp add: initialises_def)
  next
    case False
    have before: "place q < place p" if "q \<in> set (imports_of p)" for q using imports_before that by blast
    have step: "\<exists>t ps. init_package n q s' = Some t \<and> initialises J ps s' t \<and> q \<in> J \<union> set ps \<and> set ps \<subseteq> reach q"
      if "q \<in> set (imports_of p)" "J \<subseteq> set (fst s')" "\<forall>x\<in>set (fst s') - J. place p - 1 < place x" for q s' J
    proof -
      have "place q < n" "\<forall>x\<in>set (fst s') - J. place q < place x"
        using before [OF that(1)] Suc.prems(1) that(3) by (auto intro: le_less_trans [of _ "place p - 1"])
      then show ?thesis using Suc.IH [of q J s'] that(2) by blast
    qed
    have here: "I \<subseteq> set (fst (p # fst s, snd s))" "\<forall>x\<in>set (fst (p # fst s, snd s)) - I. place p - 1 < place x" if "0 < place p"
      using Suc.prems(2,3) that by (auto intro: le_less_trans [of _ "place p"])
    obtain t ps where t: "foldl (\<lambda>r q. Option.bind r (init_package n q)) (Some (p # fst s, snd s)) (imports_of p) = Some t"
        "initialises I ps (p # fst s, snd s) t" "set (imports_of p) \<subseteq> I \<union> set ps" "set ps \<subseteq> \<Union> (reach ` set (imports_of p))"
    proof (cases "imports_of p")
      case Nil
      then show thesis using that [of "(p # fst s, snd s)" "[]"] by (simp add: initialises_def)
    next
      case (Cons q qs)
      then have "0 < place p" using before [of q] by simp
      from init_calls_run [of "imports_of p" "place p - 1" "init_package n" reach, OF step here(1) [OF this] here(2) [OF this]]
      show thesis using that by blast
    qed
    have new: "p \<notin> set ps" using t(2) by (auto simp: initialises_def)
    have "init_package (Suc n) p s = Some (fst t, snd t @ own_init p)"
      using False t(1) by (simp add: calls_imports split: prod.splits)
    moreover have "initialises I (ps @ [p]) s (fst t, snd t @ own_init p)"
      using t(2,3) new False by (auto simp: initialises_def ordered_append)
    moreover have "set (ps @ [p]) \<subseteq> reach p" using t(4) reach_import reach_self by auto
    ultimately show ?thesis by (intro exI [of _ "(fst t, snd t @ own_init p)"] exI [of _ "ps @ [p]"]) simp
  qed
qed simp

lemma ordered_closed: "ordered_after {} ps \<Longrightarrow> p \<in> set ps \<Longrightarrow> q \<in> reach p \<Longrightarrow> q \<in> set ps"
proof -
  assume ps: "ordered_after {} ps" "p \<in> set ps" and "q \<in> reach p"
  have closed: "set (imports_of x) \<subseteq> I \<union> set ps" if "ordered_after I ps" "x \<in> set ps" for x I ps
    using that by (induction ps arbitrary: I) auto
  have "(q, p) \<in> imported\<^sup>*" using \<open>q \<in> reach p\<close> by (simp add: reach_def)
  then show ?thesis using ps(2)
    by (induction rule: converse_rtrancl_induct) (use closed [OF ps(1)] in \<open>auto simp: imported_def\<close>)
qed

lemma init_alone:
  assumes "47 \<le> n"
  shows "\<exists>d ps. init_package n p ([], []) = Some (d, concat (map own_init ps)) \<and> distinct ps \<and> set ps = reach p \<and>
    ordered_after {} ps \<and> last ps = p \<and> set d = set ps"
proof -
  have "place p < n" using place_bound [of p] assms by simp
  then obtain t ps where t: "init_package n p ([], []) = Some t" "initialises {} ps ([], []) t" "p \<in> set ps" "set ps \<subseteq> reach p" "last ps = p"
    using init_package_run [of p n "{}" "([], [])"] by auto
  have "set ps = reach p" using ordered_closed [of ps p] t(2-4) by (auto simp: initialises_def)
  then show ?thesis using t by (cases t) (auto simp: initialises_def)
qed

lemma all_reached: "reach mainPkg = UNIV"
proof -
  obtain d ps where ps: "init_package 47 mainPkg ([], []) = Some (d, concat (map own_init ps))" "set ps = reach mainPkg" "set d = set ps"
    using init_alone [of 47 mainPkg] by auto
  have "map_option (\<lambda>s. list_all (\<lambda>p. p \<in> set (fst s)) bundle_order) (init_package 47 mainPkg ([], [])) = Some True"
    by code_simp
  then have "set bundle_order \<subseteq> set d" by (auto simp: ps(1) list_all_iff)
  then show ?thesis using bundle_order_all ps(2,3) by blast
qed

lemma start_run:
  assumes "47 \<le> n"
  shows "\<exists>d ps. start_bundle n = Some (d, map Initialised ps @ main_F @ [MainFinished]) \<and>
    distinct ps \<and> set ps = UNIV \<and> ordered_after {} ps \<and> last ps = mainPkg"
proof -
  obtain d ps where r: "init_package n RuntimePkg ([], []) = Some (d, concat (map own_init ps))" "distinct ps" "set ps = reach RuntimePkg"
      "ordered_after {} ps" "set d = set ps"
    using init_alone [OF assms, of RuntimePkg] by auto
  have not_main: "mainPkg \<notin> set ps"
  proof
    have down: "place q \<le> place p" if "(q, p) \<in> imported\<^sup>*" for q p
      using that by (induction rule: rtrancl_induct) (auto simp: imported_def dest: imports_before)
    assume "mainPkg \<in> set ps"
    then have "place mainPkg \<le> place RuntimePkg" using r(3) down by (simp add: reach_def)
    moreover have "place RuntimePkg < place mainPkg" by code_simp
    ultimately show False by simp
  qed
  have "place mainPkg < n" using place_bound [of mainPkg] assms by simp
  then obtain t qs where t: "init_package n mainPkg (d, concat (map own_init ps)) = Some t" "initialises (set d) qs (d, concat (map own_init ps)) t"
      "qs \<noteq> []" "last qs = mainPkg"
    using init_package_run [of mainPkg n "set d" "(d, concat (map own_init ps))"] not_main r(5) by auto
  define begun where "begun = ps @ butlast qs"
  have qs: "qs = butlast qs @ [mainPkg]" using t(3,4) append_butlast_last_id [of qs] by simp
  have whole: "begun @ [mainPkg] = ps @ qs" using qs by (simp add: begun_def)
  have dist: "distinct (ps @ qs)" "ordered_after {} (ps @ qs)" using t(2) r(2,4,5) by (auto simp: initialises_def ordered_append)
  have "mainPkg \<notin> set begun" using dist(1) whole by (metis distinct_append disjoint_iff list.set_intros(1))
  then have plain: "concat (map own_init begun) = map Initialised begun"
    by (induction begun) (auto simp: own_init_def)
  have "snd t = concat (map own_init (begun @ [mainPkg]))" using t(2) by (simp add: whole initialises_def)
  then have "snd t = map Initialised (ps @ qs) @ main_F @ [MainFinished]"
    using plain by (simp flip: whole add: own_init_def)
  moreover have "set (ps @ qs) = UNIV"
    using ordered_closed [OF dist(2), of mainPkg] qs all_reached by (metis UNIV_I UNIV_eq_I in_set_conv_decomp append.assoc)
  ultimately show ?thesis using r(1) t(1,3,4) dist
    by - (rule exI [of _ "fst t"], rule exI [of _ "ps @ qs"], cases t, simp add: start_bundle_def)
qed

text \<open>C38: the \<open>$init\<close> of every package calls the packages it declares; run alone, it ends (a depth of one call per package
  is enough), and initialises exactly the packages it imports, directly or through others, each once and after everything it
  declares, itself last.  The start of the bundle so initialises every package once, after everything it declares, the main
  package last; then \<open>main\<close> prints the version, starts the bridge's goroutine and is marked as finished.\<close>

theorem bundle_starts:
  assumes "47 \<le> n"
  shows "init_calls p = imports_of p \<and>
    (\<exists>d ps. init_package n p ([], []) = Some (d, concat (map own_init ps)) \<and> distinct ps \<and>
      set ps = {q. (q, p) \<in> imported\<^sup>*} \<and> ordered_after {} ps \<and> last ps = p) \<and>
    (\<exists>d ps. start_bundle n = Some (d, map Initialised ps @ [PrintedLine ''V3'', SpawnedBridge, MainFinished]) \<and>
      distinct ps \<and> set ps = UNIV \<and> ordered_after {} ps \<and> last ps = mainPkg)"
  using calls_imports init_alone [OF assms, of p] start_run [OF assms] unfolding reach_def main_F_def by fastforce

text \<open>The heap package alone brings in sorting and what sorting needs.\<close>

theorem bundle_starts_witness:
  "map_option snd (init_package 47 HeapPkg ([], [])) = Some (map Initialised [ErrorsPkg, GopherJs, Bits, MathPkg, Cpu, ByteAlg, Sys,
      RuntimePkg, Utf8Pkg, Strconv, Race, AtomicPkg, SyncPkg, UnicodePkg, Reflect, SortPkg, HeapPkg]) \<and>
   init_calls HeapPkg = imports_of HeapPkg \<and>
   (\<exists>d ps. start_bundle 47 = Some (d, map Initialised ps @ [PrintedLine ''V3'', SpawnedBridge, MainFinished]) \<and>
      distinct ps \<and> set ps = UNIV \<and> ordered_after {} ps \<and> last ps = mainPkg)"
proof (intro conjI)
  show "map_option snd (init_package 47 HeapPkg ([], [])) = Some (map Initialised [ErrorsPkg, GopherJs, Bits, MathPkg, Cpu, ByteAlg, Sys,
      RuntimePkg, Utf8Pkg, Strconv, Race, AtomicPkg, SyncPkg, UnicodePkg, Reflect, SortPkg, HeapPkg])" by code_simp
qed (use bundle_starts [of 47 HeapPkg] in simp_all)

end
