(* ===== verification/Sort.thy ===== *)
theory Sort
  imports Prelude "HOL-Library.Multiset"
begin

text \<open>
  Package \<open>sort\<close>: the binary search \<open>Search\<close> and the insertion sort.  The predicate of \<open>Search\<close> is an argument, as
  are the contents of the collection that \<open>Less\<close> and \<open>Swap\<close> work on.
\<close>

section \<open>\<open>Search\<close>\<close>

text \<open>
  The loop of \<open>Search\<close>, with the interval from \<open>e\<close> to \<open>f\<close> left.  The middle is computed on unsigned numbers, so that
  the sum of two large indices does not overflow.
\<close>

definition middle :: "int \<Rightarrow> int \<Rightarrow> int" where
  "middle e f = js_sar (js_shr (js_shr (js_shr (js_sar (e + f) 0) 0) 1) 0) 0"

partial_function (option) search_loop :: "(int \<Rightarrow> bool) \<Rightarrow> int \<Rightarrow> int \<Rightarrow> int option" where
  "search_loop b e f =
     (if \<not> e < f then Some e
      else let g = middle e f in if \<not> b g then search_loop b (js_sar (g + 1) 0) f else search_loop b e g)"

definition Search :: "int \<Rightarrow> (int \<Rightarrow> bool) \<Rightarrow> int option" where
  "Search a b = search_loop b 0 a"

lemma middle_half:
  assumes "0 \<le> e" "e < f" "f < 2 ^ 31"
  shows "middle e f = (e + f) div 2"
proof -
  have "js_sar (e + f) 0 mod 2 ^ 32 = e + f" using assms ToInt32_mod [of "e + f"] by (simp add: js_sar_eq)
  moreover have "(e + f) div 2 < 2 ^ 31" "0 \<le> (e + f) div 2" using assms by linarith+
  ultimately show ?thesis using assms by (simp add: middle_def js_shr_eq js_sar_eq ToInt32_id)
qed

text \<open>The loop ends, inside the interval, at a boundary of the predicate.\<close>

lemma search_loop_boundary:
  assumes "0 \<le> e" "e \<le> f" "f < 2 ^ 31"
  shows "\<exists>r. search_loop b e f = Some r \<and> e \<le> r \<and> r \<le> f \<and> (r < f \<longrightarrow> b r) \<and> (e < r \<longrightarrow> \<not> b (r - 1))"
  using assms
proof (induction "nat (f - e)" arbitrary: e f rule: less_induct)
  case less
  show ?case
  proof (cases "e < f")
    case True
    define g where "g = (e + f) div 2"
    have g: "middle e f = g" "e \<le> g" "g < f" using middle_half [of e f] less(2-4) True by (auto simp: g_def)
    then have s: "js_sar (g + 1) 0 = g + 1" using less(2-4) by (simp add: js_sar_eq ToInt32_id)
    note step = search_loop.simps [of b e f, unfolded g(1) Let_def s]
    show ?thesis
    proof (cases "b g")
      case b: True
      then have eq: "search_loop b e f = search_loop b e g" using step True by simp
      obtain r where "search_loop b e g = Some r" "e \<le> r" "r \<le> g" "r < g \<longrightarrow> b r" "e < r \<longrightarrow> \<not> b (r - 1)"
        using less(1) [of g e] g less(2-4) by auto
      moreover from this have "r < f \<longrightarrow> b r" using b by (cases "r = g") auto
      ultimately show ?thesis using g eq by auto
    next
      case nb: False
      then have eq: "search_loop b e f = search_loop b (g + 1) f" using step True by simp
      obtain r where "search_loop b (g + 1) f = Some r" "g + 1 \<le> r" "r \<le> f" "r < f \<longrightarrow> b r" "g + 1 < r \<longrightarrow> \<not> b (r - 1)"
        using less(1) [of f "g + 1"] g less(2-4) by auto
      moreover from this have "\<not> b (r - 1)" using nb by (cases "r = g + 1") auto
      ultimately show ?thesis using g eq by auto
    qed
  next
    case False
    then show ?thesis using less(3) by (simp add: search_loop.simps)
  qed
qed

text \<open>\<open>Search\<close> terminates for every length of a 32-bit \<open>int\<close>, the largest included, and for a monotone predicate returns
  the least index at which it holds, or the length.\<close>

theorem Search_least:
  assumes "0 \<le> n" "n < 2 ^ 31" "\<forall>i j. 0 \<le> i \<and> i \<le> j \<and> j < n \<and> b i \<longrightarrow> b j"
  shows "\<exists>r. Search n b = Some r \<and> 0 \<le> r \<and> r \<le> n \<and> (\<forall>i. 0 \<le> i \<and> i < n \<longrightarrow> (b i \<longleftrightarrow> r \<le> i))"
proof -
  obtain r where r: "Search n b = Some r" "0 \<le> r" "r \<le> n" "r < n \<longrightarrow> b r" "0 < r \<longrightarrow> \<not> b (r - 1)"
    using search_loop_boundary [of 0 n b] assms(1,2) by (auto simp: Search_def)
  have "b i \<longleftrightarrow> r \<le> i" if i: "0 \<le> i" "i < n" for i
  proof (cases "r \<le> i")
    case True
    then have "b r" using r(4) i(2) by simp
    then show ?thesis using assms(3) [rule_format, of r i] True r(2) i(2) by simp
  next
    case False
    then have "i \<le> r - 1" "0 < r" "r - 1 < n" using i(1) r(3) by linarith+
    then have "\<not> b i" using assms(3) [rule_format, of i "r - 1"] r(5) i by blast
    then show ?thesis using False by simp
  qed
  then show ?thesis using r(1-3) by blast
qed

theorem Search_least_witness:
  "\<exists>r. Search 2147483647 (\<lambda>i. 2000000000 \<le> i) = Some r \<and> r = 2000000000"
proof -
  obtain r where r: "Search 2147483647 (\<lambda>i. 2000000000 \<le> i) = Some r" "0 \<le> r" "r \<le> 2147483647"
    "\<forall>i. 0 \<le> i \<and> i < 2147483647 \<longrightarrow> (2000000000 \<le> i \<longleftrightarrow> r \<le> i)"
    using Search_least [of 2147483647 "\<lambda>i. 2000000000 \<le> i"] by auto
  have "r \<le> 2000000000" "\<not> r \<le> 1999999999" using r(4) [rule_format, of 2000000000] r(4) [rule_format, of 1999999999] by simp_all
  with r(1) show ?thesis by auto
qed

section \<open>Insertion sort\<close>

text \<open>
  \<open>insertionSort\<close> of the positions from \<open>b\<close> to \<open>c\<close>: the inner loop moves the element at \<open>e\<close> down, the outer loop takes
  the positions in turn.  \<open>Less\<close> is an order on the elements and \<open>Swap\<close> exchanges two positions of the list.
\<close>

definition swap_at :: "'a list \<Rightarrow> nat \<Rightarrow> nat \<Rightarrow> 'a list" where
  "swap_at xs i j = xs[i := xs ! j, j := xs ! i]"

function insert_down :: "('a \<Rightarrow> 'a \<Rightarrow> bool) \<Rightarrow> nat \<Rightarrow> nat \<Rightarrow> 'a list \<Rightarrow> 'a list" where
  "insert_down lt b e xs =
     (if e > b \<and> lt (xs ! e) (xs ! (e - 1)) then insert_down lt b (e - 1) (swap_at xs e (e - 1)) else xs)"
  by pat_completeness auto
termination by (relation "measure (\<lambda>(lt, b, e, xs). e)") auto

declare insert_down.simps [simp del]

function insertionSort :: "('a \<Rightarrow> 'a \<Rightarrow> bool) \<Rightarrow> nat \<Rightarrow> nat \<Rightarrow> nat \<Rightarrow> 'a list \<Rightarrow> 'a list" where
  "insertionSort lt b d c xs = (if d < c then insertionSort lt b (d + 1) c (insert_down lt b d xs) else xs)"
  by pat_completeness auto
termination by (relation "measure (\<lambda>(lt, b, d, c, xs). c - d)") auto

declare insertionSort.simps [simp del]

text \<open>\<open>Less\<close> is a strict weak order: elements neither of which is less are equivalent.\<close>

definition weak_order :: "('a \<Rightarrow> 'a \<Rightarrow> bool) \<Rightarrow> bool" where
  "weak_order lt \<longleftrightarrow> (\<forall>x y. lt x y \<longrightarrow> \<not> lt y x) \<and> (\<forall>x y z. lt x z \<longrightarrow> lt x y \<or> lt y z)"

abbreviation sorted_by :: "('a \<Rightarrow> 'a \<Rightarrow> bool) \<Rightarrow> 'a list \<Rightarrow> bool" where
  "sorted_by lt \<equiv> sorted_wrt (\<lambda>x y. \<not> lt y x)"

abbreviation equivalents :: "('a \<Rightarrow> 'a \<Rightarrow> bool) \<Rightarrow> 'a \<Rightarrow> 'a list \<Rightarrow> 'a list" where
  "equivalents lt x \<equiv> filter (\<lambda>y. \<not> lt x y \<and> \<not> lt y x)"

text \<open>Where the inner loop puts an element, among sorted predecessors.\<close>

definition place :: "('a \<Rightarrow> 'a \<Rightarrow> bool) \<Rightarrow> 'a \<Rightarrow> 'a list \<Rightarrow> 'a list" where
  "place lt x ys = rev (dropWhile (lt x) (rev ys)) @ x # rev (takeWhile (lt x) (rev ys))"

lemma swap_adjacent: "swap_at (ys @ y # x # zs) (Suc (length ys)) (length ys) = ys @ x # y # zs"
  by (simp add: swap_at_def nth_append list_update_append)

lemma insert_down_place: "insert_down lt 0 (length ys) (ys @ x # zs) = place lt x ys @ zs"
proof (induction ys arbitrary: zs rule: rev_induct)
  case (snoc y ys)
  have "insert_down lt 0 (length (ys @ [y])) ((ys @ [y]) @ x # zs) =
      (if lt x y then insert_down lt 0 (length ys) (ys @ x # y # zs) else ys @ y # x # zs)"
    by (subst insert_down.simps) (simp add: nth_append swap_adjacent)
  then show ?case using snoc [of "y # zs"] by (simp add: place_def)
qed (simp add: insert_down.simps place_def)

lemma place_mset: "mset (place lt x ys) = add_mset x (mset ys)"
proof -
  have "mset ys = mset (rev (dropWhile (lt x) (rev ys)) @ rev (takeWhile (lt x) (rev ys)))"
    by (simp only: rev_append [symmetric] takeWhile_dropWhile_id rev_rev_ident)
  then show ?thesis by (simp add: place_def)
qed

lemma place_split:
  assumes "weak_order lt" "sorted_by lt ys"
  shows "\<exists>us vs. ys = us @ vs \<and> place lt x ys = us @ x # vs \<and> (\<forall>u \<in> set us. \<not> lt x u) \<and> (\<forall>v \<in> set vs. lt x v)"
proof (intro exI conjI)
  let ?us = "rev (dropWhile (lt x) (rev ys))" and ?vs = "rev (takeWhile (lt x) (rev ys))"
  show eq: "ys = ?us @ ?vs" by (simp only: rev_append [symmetric] takeWhile_dropWhile_id rev_rev_ident)
  show "place lt x ys = ?us @ x # ?vs" by (simp add: place_def)
  show "\<forall>v \<in> set ?vs. lt x v" by (auto dest: set_takeWhileD)
  show "\<forall>u \<in> set ?us. \<not> lt x u"
  proof (cases "dropWhile (lt x) (rev ys)")
    case (Cons u us')
    then have u: "\<not> lt x u" by (metis hd_dropWhile list.distinct(1) list.sel(1))
    have "ys = rev us' @ u # ?vs" using eq Cons by simp
    then have "\<forall>w \<in> set us'. \<not> lt u w" using assms(2) by (metis (no_types, lifting) sorted_wrt_append list.set_intros(1) set_rev)
    moreover have "\<not> lt x w" if "\<not> lt u w" for w using u that assms(1) unfolding weak_order_def by blast
    ultimately show ?thesis using u Cons by auto
  qed (metis empty_iff empty_set rev.simps(1))
qed

lemma place_sorted: "weak_order lt \<Longrightarrow> sorted_by lt ys \<Longrightarrow> sorted_by lt (place lt x ys)"
proof -
  assume a: "weak_order lt" "sorted_by lt ys"
  obtain us vs where p: "ys = us @ vs" "place lt x ys = us @ x # vs" "\<forall>u \<in> set us. \<not> lt x u" "\<forall>v \<in> set vs. lt x v"
    using place_split [OF a, of x] by blast
  have "\<forall>v \<in> set vs. \<not> lt v x" using p(4) a(1) unfolding weak_order_def by blast
  then show ?thesis using a(2) p(3) unfolding p(2) unfolding p(1) by (simp add: sorted_wrt_append)
qed

lemma place_stable:
  assumes "weak_order lt" "sorted_by lt ys"
  shows "equivalents lt z (place lt x ys) = equivalents lt z (ys @ [x])"
proof -
  obtain us vs where p: "ys = us @ vs" "place lt x ys = us @ x # vs" "\<forall>u \<in> set us. \<not> lt x u" "\<forall>v \<in> set vs. lt x v"
    using place_split [OF assms] by blast
  have "equivalents lt z vs = []" if "\<not> lt z x" "\<not> lt x z"
    using that p(4) assms(1) unfolding weak_order_def filter_empty_conv by blast
  then show ?thesis unfolding p(2) unfolding p(1) by auto
qed

lemma insertionSort_prefix:
  assumes "weak_order lt"
  shows "sorted_by lt ys \<Longrightarrow> \<exists>ys'. insertionSort lt 0 (length ys) (length ys + length zs) (ys @ zs) = ys' \<and>
    mset ys' = mset (ys @ zs) \<and> sorted_by lt ys' \<and> (\<forall>z. equivalents lt z ys' = equivalents lt z (ys @ zs))"
proof (induction zs arbitrary: ys)
  case Nil
  then show ?case by (simp add: insertionSort.simps)
next
  case (Cons x zs)
  have len: "length (place lt x ys) = Suc (length ys)" using place_mset [of lt x ys] by (metis size_mset size_add_mset)
  have "insertionSort lt 0 (length ys) (length ys + length (x # zs)) (ys @ x # zs) =
      insertionSort lt 0 (length (place lt x ys)) (length (place lt x ys) + length zs) (place lt x ys @ zs)"
    by (subst insertionSort.simps) (simp add: insert_down_place len)
  then show ?case using Cons.IH [OF place_sorted [OF assms Cons.prems]] place_mset [of lt x ys] place_stable [OF assms Cons.prems]
    by simp
qed

text \<open>\<open>insertionSort\<close> of a whole collection sorts it, stably: the result is a permutation in order, and equivalent elements
  keep their order.\<close>

theorem insertionSort_stable:
  assumes "weak_order lt"
  shows "mset (insertionSort lt 0 1 (length xs) xs) = mset xs \<and> sorted_by lt (insertionSort lt 0 1 (length xs) xs) \<and>
    (\<forall>z. equivalents lt z (insertionSort lt 0 1 (length xs) xs) = equivalents lt z xs)"
proof (cases xs)
  case Nil
  then show ?thesis by (simp add: insertionSort.simps)
next
  case (Cons x zs)
  then show ?thesis using insertionSort_prefix [OF assms, of "[x]" zs] by simp
qed

definition by_key :: "nat \<times> nat \<Rightarrow> nat \<times> nat \<Rightarrow> bool" where
  "by_key x y \<longleftrightarrow> fst x < fst y"

theorem insertionSort_stable_witness:
  "mset (insertionSort by_key 0 1 3 [(2, 10), (1, 20), (2, 30)]) = mset [(2, 10), (1, 20), (2, 30)] \<and>
    sorted_by by_key (insertionSort by_key 0 1 3 [(2, 10), (1, 20), (2, 30)]) \<and>
    equivalents by_key (2, 0) (insertionSort by_key 0 1 3 [(2, 10), (1, 20), (2, 30)]) = [(2, 10), (2, 30)]"
proof -
  let ?xs = "[(2, 10), (1, 20), (2, 30)] :: (nat \<times> nat) list"
  have "weak_order by_key" by (auto simp: weak_order_def by_key_def)
  note r = insertionSort_stable [OF this, of ?xs]
  have l: "length ?xs = 3" and e: "equivalents by_key (2, 0) ?xs = [(2, 10), (2, 30)]" by (simp_all add: by_key_def)
  show ?thesis using r [THEN conjunct1] r [THEN conjunct2, THEN conjunct1] r [THEN conjunct2, THEN conjunct2, rule_format, of "(2, 0)"]
    unfolding l e by blast
qed

end
