(* ===== verification/Sort_Quick.thy ===== *)
theory Sort_Quick
  imports Sort
begin

text \<open>
  Package \<open>sort\<close>: \<open>Sort\<close>, which is quicksort with a heapsort for ranges that divide badly and an insertion sort for short
  ones.  Where the code can form a position that wraps, in the heap and in the first pass over a short range, positions are
  the code's integers and every access checks its index; elsewhere they are natural numbers, since they lie within the range
  and their \<open>>>0\<close> changes nothing.  The middle of a range is computed as in \<open>Search\<close>.
\<close>

section \<open>The code\<close>

definition mid :: "nat \<Rightarrow> nat \<Rightarrow> nat" where
  "mid b c = nat (middle (int b) (int c))"

text \<open>
  \<open>Less\<close> and \<open>Swap\<close> of a slice, which check their indices, and a loop over positions that may panic.
\<close>

definition less_at :: "('a \<Rightarrow> 'a \<Rightarrow> bool) \<Rightarrow> 'a list \<Rightarrow> int \<Rightarrow> int \<Rightarrow> bool res" where
  "less_at lt xs i j = res_bind (js_index xs i) (\<lambda>x. res_bind (js_index xs j) (\<lambda>y. Inr (lt x y)))"

definition swap_checked :: "'a list \<Rightarrow> int \<Rightarrow> int \<Rightarrow> 'a list res" where
  "swap_checked xs i j = res_bind (js_index xs j) (\<lambda>d. res_bind (js_index xs i) (\<lambda>e. Inr (swap_at xs (nat i) (nat j))))"

fun for_each :: "('b \<Rightarrow> 's \<Rightarrow> 's res option) \<Rightarrow> 'b list \<Rightarrow> 's \<Rightarrow> 's res option" where
  "for_each f [] s = Some (Inr s)"
| "for_each f (x # xs) s = bind2 (f x s) (for_each f xs)"

text \<open>
  \<open>siftDown\<close> (\<open>K\<close> of the bundle) in the heap of \<open>c\<close> elements that starts at \<open>d\<close>: the position \<open>2 * e + 1\<close> of the child wraps
  when \<open>e\<close> is \<open>2 ^ 30\<close> or more, and is then taken for one inside the heap.
\<close>

partial_function (option) siftDown :: "('a \<Rightarrow> 'a \<Rightarrow> bool) \<Rightarrow> int \<Rightarrow> int \<Rightarrow> int \<Rightarrow> 'a list \<Rightarrow> 'a list res option" where
  "siftDown lt e c d xs =
     (let f = js_sar (js_imul 2 e + 1) 0 in
      if f \<ge> c then Some (Inr xs)
      else bind2 (if js_sar (f + 1) 0 < c then Some (less_at lt xs (js_sar (d + f) 0) (js_sar (js_sar (d + f) 0 + 1) 0)) else Some (Inr False))
        (\<lambda>g. let f = (if g then js_sar (f + 1) 0 else f) in
          bind2 (Some (less_at lt xs (js_sar (d + e) 0) (js_sar (d + f) 0))) (\<lambda>i.
          if \<not> i then Some (Inr xs)
          else bind2 (Some (swap_checked xs (js_sar (d + e) 0) (js_sar (d + f) 0))) (\<lambda>xs. siftDown lt f c d xs))))"

text \<open>\<open>heapSort\<close> (\<open>L\<close>); its two loops count down to 0.\<close>

definition heapSort :: "('a \<Rightarrow> 'a \<Rightarrow> bool) \<Rightarrow> int \<Rightarrow> int \<Rightarrow> 'a list \<Rightarrow> 'a list res option" where
  "heapSort lt b c xs =
     (let f = js_sar (c - b) 0 in
      bind2 (for_each (\<lambda>h. siftDown lt h f b) (rev [0..js_sar (tdiv (js_sar (f - 1) 0) 2) 0]) xs)
        (for_each (\<lambda>i xs. bind2 (Some (swap_checked xs b (js_sar (b + i) 0))) (siftDown lt 0 i b)) (rev [0..js_sar (f - 1) 0])))"

text \<open>\<open>medianOfThree\<close> (\<open>M\<close>) and the choice of the pivot, which ends at \<open>b\<close>.\<close>

definition medianOfThree :: "('a \<Rightarrow> 'a \<Rightarrow> bool) \<Rightarrow> nat \<Rightarrow> nat \<Rightarrow> nat \<Rightarrow> 'a list \<Rightarrow> 'a list" where
  "medianOfThree lt b c d xs =
     (let xs = (if lt (xs ! b) (xs ! c) then swap_at xs b c else xs) in
      if lt (xs ! d) (xs ! b)
      then let xs = swap_at xs d b in if lt (xs ! b) (xs ! c) then swap_at xs b c else xs
      else xs)"

definition choosePivot :: "('a \<Rightarrow> 'a \<Rightarrow> bool) \<Rightarrow> nat \<Rightarrow> nat \<Rightarrow> 'a list \<Rightarrow> 'a list" where
  "choosePivot lt b c xs =
     (let f = mid b c;
          xs = (if c - b > 40
                then let h = (c - b) div 8;
                         xs = medianOfThree lt b (b + h) (b + 2 * h) xs;
                         xs = medianOfThree lt f (f - h) (f + h) xs
                     in medianOfThree lt (c - 1) (c - 1 - h) (c - 1 - 2 * h) xs
                else xs)
      in medianOfThree lt b f (c - 1) xs)"

text \<open>The loops of \<open>doPivot\<close> (\<open>O\<close>); \<open>i\<close> is the position of the pivot.\<close>

function skip_less :: "('a \<Rightarrow> 'a \<Rightarrow> bool) \<Rightarrow> nat \<Rightarrow> nat \<Rightarrow> nat \<Rightarrow> 'a list \<Rightarrow> nat" where
  "skip_less lt i l m xs = (if l < m \<and> lt (xs ! l) (xs ! i) then skip_less lt i (l + 1) m xs else l)"
  by pat_completeness auto
termination by (relation "measure (\<lambda>(lt, i, l, m, xs). m - l)") auto

function skip_not_greater :: "('a \<Rightarrow> 'a \<Rightarrow> bool) \<Rightarrow> nat \<Rightarrow> nat \<Rightarrow> nat \<Rightarrow> 'a list \<Rightarrow> nat" where
  "skip_not_greater lt i p m xs = (if p < m \<and> \<not> lt (xs ! i) (xs ! p) then skip_not_greater lt i (p + 1) m xs else p)"
  by pat_completeness auto
termination by (relation "measure (\<lambda>(lt, i, p, m, xs). m - p)") auto

fun drop_greater :: "('a \<Rightarrow> 'a \<Rightarrow> bool) \<Rightarrow> nat \<Rightarrow> nat \<Rightarrow> nat \<Rightarrow> 'a list \<Rightarrow> nat" where
  "drop_greater lt i p 0 xs = 0"
| "drop_greater lt i p (Suc m) xs = (if p < Suc m \<and> lt (xs ! i) (xs ! m) then drop_greater lt i p m xs else Suc m)"

fun drop_not_less :: "('a \<Rightarrow> 'a \<Rightarrow> bool) \<Rightarrow> nat \<Rightarrow> nat \<Rightarrow> nat \<Rightarrow> 'a list \<Rightarrow> nat" where
  "drop_not_less lt i l 0 xs = 0"
| "drop_not_less lt i l (Suc p) xs = (if l < Suc p \<and> \<not> lt (xs ! p) (xs ! i) then drop_not_less lt i l p xs else Suc p)"

declare skip_less.simps [simp del] skip_not_greater.simps [simp del]

lemma skip_less_ge: "l \<le> skip_less lt i l m xs"
  by (induction lt i l m xs rule: skip_less.induct) (subst skip_less.simps, auto)

lemma skip_not_greater_ge: "p \<le> skip_not_greater lt i p m xs"
  by (induction lt i p m xs rule: skip_not_greater.induct) (subst skip_not_greater.simps, auto)

lemma drop_greater_le: "drop_greater lt i p m xs \<le> m"
  by (induction m) auto

lemma drop_not_less_le: "drop_not_less lt i l p xs \<le> p"
  by (induction p) auto

function partition_loop :: "('a \<Rightarrow> 'a \<Rightarrow> bool) \<Rightarrow> nat \<Rightarrow> nat \<Rightarrow> nat \<Rightarrow> 'a list \<Rightarrow> nat \<times> nat \<times> 'a list" where
  "partition_loop lt i p m xs =
     (let p' = skip_not_greater lt i p m xs; m' = drop_greater lt i p' m xs in
      if p' \<ge> m' then (p', m', xs) else partition_loop lt i (p' + 1) (m' - 1) (swap_at xs p' (m' - 1)))"
  by pat_completeness auto
termination
proof (relation "measure (\<lambda>(lt, i, p, m, xs). m - p)", goal_cases)
  case (2 lt i p m xs p' m')
  then show ?case using skip_not_greater_ge [of p lt i m xs] drop_greater_le [of lt i p' m xs] by simp
qed simp

function equal_loop :: "('a \<Rightarrow> 'a \<Rightarrow> bool) \<Rightarrow> nat \<Rightarrow> nat \<Rightarrow> nat \<Rightarrow> 'a list \<Rightarrow> nat \<times> nat \<times> 'a list" where
  "equal_loop lt i l p xs =
     (let p' = drop_not_less lt i l p xs; l' = skip_less lt i l p' xs in
      if l' \<ge> p' then (l', p', xs) else equal_loop lt i (l' + 1) (p' - 1) (swap_at xs l' (p' - 1)))"
  by pat_completeness auto
termination
proof (relation "measure (\<lambda>(lt, i, l, p, xs). p - l)", goal_cases)
  case (2 lt i l p xs p' l')
  then show ?case using skip_less_ge [of l lt i p' xs] drop_not_less_le [of lt i l p xs] by simp
qed simp

declare partition_loop.simps [simp del] equal_loop.simps [simp del]

text \<open>The test for many elements equal to the pivot: it looks at three places and counts those that are.\<close>

definition protect :: "('a \<Rightarrow> 'a \<Rightarrow> bool) \<Rightarrow> nat \<Rightarrow> nat \<Rightarrow> nat \<Rightarrow> nat \<Rightarrow> nat \<Rightarrow> 'a list \<Rightarrow> bool \<times> nat \<times> nat \<times> 'a list" where
  "protect lt i f c p m xs =
     (let (w, m, xs) = (if \<not> lt (xs ! i) (xs ! (c - 1)) then (1, m + 1, swap_at xs m (c - 1)) else (0 :: nat, m, xs));
          (w, p) = (if \<not> lt (xs ! (p - 1)) (xs ! i) then (w + 1, p - 1) else (w, p));
          (w, p, xs) = (if \<not> lt (xs ! f) (xs ! i) then (w + 1, p - 1, swap_at xs f (p - 1)) else (w, p, xs))
      in (w > 1, p, m, xs))"

definition doPivot :: "('a \<Rightarrow> 'a \<Rightarrow> bool) \<Rightarrow> nat \<Rightarrow> nat \<Rightarrow> 'a list \<Rightarrow> nat \<times> nat \<times> 'a list" where
  "doPivot lt b c xs =
     (let f = mid b c; xs = choosePivot lt b c xs; l = skip_less lt b (b + 1) (c - 1) xs;
          (p, m, xs) = partition_loop lt b l (c - 1) xs;
          u = c - m < 5;
          (u, p, m, xs) = (if \<not> u \<and> c - m < (c - b) div 4 then protect lt b f c p m xs else (u, p, m, xs));
          (l, p, xs) = (if u then equal_loop lt b l p xs else (l, p, xs))
      in (p - 1, m, swap_at xs b (p - 1)))"

text \<open>\<open>quickSort\<close> (\<open>P\<close>): the loop goes on with the longer part; its depth counts down.\<close>

definition shell_pass :: "('a \<Rightarrow> 'a \<Rightarrow> bool) \<Rightarrow> int \<Rightarrow> int \<Rightarrow> 'a list \<Rightarrow> 'a list res option" where
  "shell_pass lt b c xs = for_each (\<lambda>i xs. bind2 (Some (less_at lt xs i (js_sar (i - 6) 0))) (\<lambda>j.
     if j then Some (swap_checked xs i (js_sar (i - 6) 0)) else Some (Inr xs))) [js_sar (b + 6) 0..c - 1] xs"

definition small_sort :: "('a \<Rightarrow> 'a \<Rightarrow> bool) \<Rightarrow> nat \<Rightarrow> nat \<Rightarrow> 'a list \<Rightarrow> 'a list res option" where
  "small_sort lt b c xs =
     (if c - b > 1 then bind2 (shell_pass lt (int b) (int c) xs) (\<lambda>xs. Some (Inr (insertionSort lt b (b + 1) c xs)))
      else Some (Inr xs))"

fun quickSort :: "('a \<Rightarrow> 'a \<Rightarrow> bool) \<Rightarrow> nat \<Rightarrow> nat \<Rightarrow> nat \<Rightarrow> 'a list \<Rightarrow> 'a list res option" where
  "quickSort lt 0 b c xs = (if c - b > 12 then heapSort lt (int b) (int c) xs else small_sort lt b c xs)"
| "quickSort lt (Suc d) b c xs =
     (if c - b > 12
      then let (g, h, xs) = doPivot lt b c xs in
        if g - b < c - h then bind2 (quickSort lt d b g xs) (quickSort lt d h c)
        else bind2 (quickSort lt d h c xs) (quickSort lt d b g)
      else small_sort lt b c xs)"

function depth_loop :: "int \<Rightarrow> int \<Rightarrow> int" where
  "depth_loop b c = (if \<not> c > 0 then b else depth_loop (js_sar (b + 1) 0) (js_sar (js_sar c 1) 0))"
  by pat_completeness auto
termination
proof (relation "measure (\<lambda>(b, c). nat c)", goal_cases)
  case (2 b c)
  have "ToInt32 c \<le> c"
  proof (cases "c < 2 ^ 31")
    case False
    then show ?thesis using ToInt32_range [of c] by linarith
  qed (use 2 in \<open>simp add: ToInt32_id\<close>)
  moreover define t where "t = ToInt32 c"
  moreover have "- 2147483648 \<le> t" "t < 2147483648" using ToInt32_range [of c] by (simp_all add: t_def)
  moreover from this have "- 2147483648 \<le> t div 2" "t div 2 < 2147483648" by linarith+
  ultimately have "js_sar c 1 \<le> c div 2" "- (2 ^ 31) \<le> js_sar c 1" "js_sar c 1 < 2 ^ 31"
    by (simp_all add: js_sar_eq zdiv_mono1)
  then show ?case using 2 by (simp add: js_sar_eq [of 0] ToInt32_id)
qed simp

declare depth_loop.simps [simp del]

definition maxDepth :: "int \<Rightarrow> int" where
  "maxDepth a = js_imul (depth_loop 0 a) 2"

definition sort_Sort :: "('a \<Rightarrow> 'a \<Rightarrow> bool) \<Rightarrow> 'a list \<Rightarrow> 'a list res option" where
  "sort_Sort lt xs = quickSort lt (nat (maxDepth (int (length xs)))) 0 (length xs) xs"

text \<open>\<open>reverse.Less\<close>, and \<open>StringSlice\<close>, which compares strings as JavaScript does.\<close>

definition reverse_Less :: "('a \<Rightarrow> 'a \<Rightarrow> bool) \<Rightarrow> 'a \<Rightarrow> 'a \<Rightarrow> bool" where
  "reverse_Less lt x y = lt y x"

fun string_less :: "int list \<Rightarrow> int list \<Rightarrow> bool" where
  "string_less xs [] = False"
| "string_less [] (y # ys) = True"
| "string_less (x # xs) (y # ys) = (x < y \<or> x = y \<and> string_less xs ys)"

definition sort_Strings :: "int list list \<Rightarrow> int list list res option" where
  "sort_Strings a = sort_Sort string_less a"

definition SearchStrings :: "int list list \<Rightarrow> int list \<Rightarrow> int option" where
  "SearchStrings a b = Search (int (length a)) (\<lambda>c. \<not> string_less (a ! nat c) b)"

section \<open>Heaps and short ranges without wrap-around\<close>

text \<open>The same algorithms on positions that are natural numbers; below \<open>2 ^ 30\<close> the code computes them.\<close>

function sift_pos :: "('a \<Rightarrow> 'a \<Rightarrow> bool) \<Rightarrow> nat \<Rightarrow> nat \<Rightarrow> nat \<Rightarrow> 'a list \<Rightarrow> 'a list" where
  "sift_pos lt root hi first xs =
     (let f = 2 * root + 1 in
      if f \<ge> hi then xs
      else let f = (if f + 1 < hi \<and> lt (xs ! (first + f)) (xs ! (first + f + 1)) then f + 1 else f) in
        if \<not> lt (xs ! (first + root)) (xs ! (first + f)) then xs
        else sift_pos lt f hi first (swap_at xs (first + root) (first + f)))"
  by pat_completeness auto
termination by (relation "measure (\<lambda>(lt, root, hi, first, xs). hi - root)") (auto split: if_splits)

declare sift_pos.simps [simp del]

definition heap_pos :: "('a \<Rightarrow> 'a \<Rightarrow> bool) \<Rightarrow> nat \<Rightarrow> nat \<Rightarrow> 'a list \<Rightarrow> 'a list" where
  "heap_pos lt b c xs =
     (let f = c - b; xs = fold (\<lambda>h. sift_pos lt h f b) (rev [0..<Suc ((f - 1) div 2)]) xs
      in fold (\<lambda>i xs. sift_pos lt 0 i b (swap_at xs b (b + i))) (rev [0..<f]) xs)"

definition shell_pos :: "('a \<Rightarrow> 'a \<Rightarrow> bool) \<Rightarrow> nat \<Rightarrow> nat \<Rightarrow> 'a list \<Rightarrow> 'a list" where
  "shell_pos lt b c xs = fold (\<lambda>i xs. if lt (xs ! i) (xs ! (i - 6)) then swap_at xs i (i - 6) else xs) [b + 6..<c] xs"

lemma for_each_fold:
  assumes "\<And>x s. x \<in> set xs \<Longrightarrow> P s \<Longrightarrow> f (int x) s = Some (Inr (g x s)) \<and> P (g x s)" "P s"
  shows "for_each f (map int xs) s = Some (Inr (fold g xs s))"
  using assms by (induction xs arbitrary: s) auto

lemma less_at_int [simp]:
  "i < length xs \<Longrightarrow> j < length xs \<Longrightarrow> less_at lt xs (int i) (int j) = Inr (lt (xs ! i) (xs ! j))"
  by (simp add: less_at_def js_index_ok)

lemma swap_checked_int [simp]:
  "i < length xs \<Longrightarrow> j < length xs \<Longrightarrow> swap_checked xs (int i) (int j) = Inr (swap_at xs i j)"
  by (simp add: swap_checked_def js_index_ok)

lemma sar0_int [simp]: "n < 2147483648 \<Longrightarrow> js_sar (int n) 0 = int n"
  by (simp add: js_sar_eq ToInt32_id)

lemma length_swap_at [simp]: "length (swap_at xs i j) = length xs"
  by (simp add: swap_at_def)

lemma length_sift_pos [simp]: "length (sift_pos lt root hi first xs) = length xs"
  by (induction lt root hi first xs rule: sift_pos.induct) (subst sift_pos.simps, simp add: Let_def)

lemma siftDown_pos:
  "length xs < 1073741824 \<Longrightarrow> first + hi \<le> length xs \<Longrightarrow> root \<le> hi \<Longrightarrow>
   siftDown lt (int root) (int hi) (int first) xs = Some (Inr (sift_pos lt root hi first xs))"
proof (induction lt root hi first xs rule: sift_pos.induct)
  case (1 lt root hi first xs)
  define f where "f = 2 * root + 1"
  define h where "h = (if f + 1 < hi \<and> lt (xs ! (first + f)) (xs ! (first + f + 1)) then f + 1 else f)"
  have "js_imul 2 (int root) = int (2 * root)" using 1(2-4) by (simp add: js_imul_def ToInt32_id)
  then have f: "js_sar (js_imul 2 (int root) + 1) 0 = int f" using sar0_int [of f] 1(2-4) by (simp add: f_def add.commute)
  show ?case
  proof (cases "f \<ge> hi")
    case True
    then have "sift_pos lt root hi first xs = xs" by (subst sift_pos.simps) (simp add: Let_def f_def)
    then show ?thesis using True by (subst siftDown.simps) (simp add: Let_def f)
  next
    case False
    then have b: "root < hi" "f < hi" "f < 1073741824" "first + f < length xs" "first + root < length xs" "first < 1073741824"
      using 1(2-4) by (auto simp: f_def)
    have s: "js_sar (int f + 1) 0 = int (f + 1)" "js_sar (int first + int f) 0 = int (first + f)"
      "js_sar (int first + int root) 0 = int (first + root)" "js_sar (int first + int f + 1) 0 = int (first + f + 1)"
      using sar0_int [of "f + 1"] sar0_int [of "first + f"] sar0_int [of "first + root"] sar0_int [of "first + f + 1"] b 1(2)
      by (simp_all add: ac_simps)
    have h: "h < hi" "root < h" using False b by (auto simp: h_def f_def)
    then have fh: "first + h < length xs" "first + h < 2147483648" using 1(2,3) by auto
    then have sh: "js_sar (int first + int h) 0 = int (first + h)" using sar0_int [of "first + h"] by simp
    have c: "bind2 (if js_sar (int f + 1) 0 < int hi
          then Some (less_at lt xs (js_sar (int first + int f) 0) (js_sar (js_sar (int first + int f) 0 + 1) 0)) else Some (Inr False)) k =
        k (f + 1 < hi \<and> lt (xs ! (first + f)) (xs ! (first + f + 1)))" for k :: "bool \<Rightarrow> 'a list res option"
    proof (cases "f + 1 < hi")
      case True
      then have "first + f + 1 < length xs" using 1(3) by simp
      then have "less_at lt xs (int (first + f)) (int (first + f + 1)) = Inr (lt (xs ! (first + f)) (xs ! (first + f + 1)))"
        using b(4) by (intro less_at_int)
      then show ?thesis using True unfolding s by (simp add: s(4) [simplified])
    next
      case n: False
      then show ?thesis unfolding s by simp
    qed
    have step: "siftDown lt (int root) (int hi) (int first) xs =
        (if \<not> lt (xs ! (first + root)) (xs ! (first + h)) then Some (Inr xs)
         else siftDown lt (int h) (int hi) (int first) (swap_at xs (first + root) (first + h)))"
    proof -
      have i: "(if f + 1 < hi \<and> lt (xs ! (first + f)) (xs ! (first + f + 1)) then js_sar (int f + 1) 0 else int f) = int h"
        unfolding s by (simp add: h_def)
      have l: "less_at lt xs (int (first + root)) (int (first + h)) = Inr (lt (xs ! (first + root)) (xs ! (first + h)))"
        "swap_checked xs (int (first + root)) (int (first + h)) = Inr (swap_at xs (first + root) (first + h))"
        using b(5) fh(1) by (simp_all only: less_at_int swap_checked_int)
      show ?thesis by (subst siftDown.simps) (use False in \<open>simp only: Let_def f c i s(3) sh l bind2_simps of_nat_le_iff if_False\<close>)
    qed
    have IH: "siftDown lt (int h) (int hi) (int first) (swap_at xs (first + root) (first + h)) =
        Some (Inr (sift_pos lt h hi first (swap_at xs (first + root) (first + h))))"
      if "lt (xs ! (first + root)) (xs ! (first + h))"
      using 1(1) [OF f_def _ h_def] False that 1(2,3) h(1) by simp
    have "sift_pos lt root hi first xs = (if \<not> lt (xs ! (first + root)) (xs ! (first + h)) then xs
        else sift_pos lt h hi first (swap_at xs (first + root) (first + h)))"
      by (subst sift_pos.simps) (use False in \<open>simp only: Let_def f_def [symmetric] h_def [symmetric] if_False\<close>)
    then show ?thesis using step IH by simp
  qed
qed

lemma upto_int: "[int m..int n - 1] = map int [m..<n]"
  by (rule nth_equalityI) (auto simp: nth_upto)

lemma rev_upto_int: "rev [0..int n - 1] = map int (rev [0..<n])"
  using upto_int [of 0 n] by (simp add: rev_map)

lemma heapSort_pos:
  assumes "length xs < 1073741824" "b < c" "c \<le> length xs"
  shows "heapSort lt (int b) (int c) xs = Some (Inr (heap_pos lt b c xs))"
proof -
  define f where "f = c - b"
  have f: "0 < f" "b + f \<le> length xs" "f < 1073741824" using assms by (simp_all add: f_def)
  have j: "js_sar (int c - int b) 0 = int f" using sar0_int [of f] f assms(2) by (simp add: f_def)
  have k: "js_sar (int f - 1) 0 = int (f - 1)" using sar0_int [of "f - 1"] f by (simp add: of_nat_diff)
  have "tdiv (int (f - 1)) 2 = int ((f - 1) div 2)" by (simp add: tdiv_def sgn_if zdiv_int)
  then have h: "js_sar (tdiv (int (f - 1)) 2) 0 = int (Suc ((f - 1) div 2)) - 1" using sar0_int [of "(f - 1) div 2"] f by simp
  have f1: "int (f - 1) = int f - 1" using f(1) by simp
  let ?P = "\<lambda>ys :: 'a list. length ys = length xs"
  let ?ys = "fold (\<lambda>h. sift_pos lt h f b) (rev [0..<Suc ((f - 1) div 2)]) xs"
  have up: "for_each (\<lambda>h. siftDown lt h (int f) (int b)) (map int (rev [0..<Suc ((f - 1) div 2)])) xs = Some (Inr ?ys)"
  proof (rule for_each_fold [where P = ?P])
    fix x and ys :: "'a list" assume "x \<in> set (rev [0..<Suc ((f - 1) div 2)])" "length ys = length xs"
    then show "siftDown lt (int x) (int f) (int b) ys = Some (Inr (sift_pos lt x f b ys)) \<and> length (sift_pos lt x f b ys) = length xs"
      using siftDown_pos [of ys b f x lt] assms(1) f by auto
  qed simp
  have len: "length ?ys = length xs"
  proof -
    have "length (fold (\<lambda>h. sift_pos lt h f b) hs ys) = length ys" for hs ys by (induction hs arbitrary: ys) simp_all
    then show ?thesis .
  qed
  have down: "for_each (\<lambda>i xs. bind2 (Some (swap_checked xs (int b) (js_sar (int b + i) 0))) (siftDown lt 0 i (int b))) (map int (rev [0..<f])) ?ys
      = Some (Inr (fold (\<lambda>i xs. sift_pos lt 0 i b (swap_at xs b (b + i))) (rev [0..<f]) ?ys))"
  proof (rule for_each_fold [where P = ?P])
    fix i and ys :: "'a list" assume i: "i \<in> set (rev [0..<f])" and l: "length ys = length xs"
    have bi: "b < length ys" "b + i < length ys" "b + i < 2147483648" using i f assms l by auto
    have "js_sar (int b + int i) 0 = int (b + i)" using sar0_int [OF bi(3)] by simp
    moreover have "swap_checked ys (int b) (int (b + i)) = Inr (swap_at ys b (b + i))" using bi by (intro swap_checked_int)
    moreover have "siftDown lt 0 (int i) (int b) (swap_at ys b (b + i)) = Some (Inr (sift_pos lt 0 i b (swap_at ys b (b + i))))"
      using siftDown_pos [of "swap_at ys b (b + i)" b i 0 lt] bi l assms(1) by simp
    ultimately show "bind2 (Some (swap_checked ys (int b) (js_sar (int b + int i) 0))) (siftDown lt 0 (int i) (int b)) =
        Some (Inr (sift_pos lt 0 i b (swap_at ys b (b + i)))) \<and> length (sift_pos lt 0 i b (swap_at ys b (b + i))) = length xs"
      using l by simp
  qed (rule len)
  show ?thesis
    unfolding heapSort_def heap_pos_def Let_def j k h unfolding f1 rev_upto_int up bind2_simps down f_def [symmetric] ..
qed

lemma shell_pass_pos:
  assumes "length xs < 1073741824" "b \<le> c" "c \<le> length xs"
  shows "shell_pass lt (int b) (int c) xs = Some (Inr (shell_pos lt b c xs))"
proof -
  have j: "js_sar (int b + 6) 0 = int (b + 6)" using sar0_int [of "b + 6"] assms by simp
  have r: "[int (b + 6)..int c - 1] = map int [b + 6..<c]" by (rule upto_int)
  have "for_each (\<lambda>i xs. bind2 (Some (less_at lt xs i (js_sar (i - 6) 0))) (\<lambda>j.
      if j then Some (swap_checked xs i (js_sar (i - 6) 0)) else Some (Inr xs))) (map int [b + 6..<c]) xs =
      Some (Inr (fold (\<lambda>i xs. if lt (xs ! i) (xs ! (i - 6)) then swap_at xs i (i - 6) else xs) [b + 6..<c] xs))"
  proof (rule for_each_fold [where P = "\<lambda>ys. length ys = length xs"])
    fix i and ys :: "'a list" assume i: "i \<in> set [b + 6..<c]" and l: "length ys = length xs"
    have bi: "i < length ys" "i - 6 < length ys" "i - 6 < 2147483648" using i assms l by auto
    have d: "int i - 6 = int (i - 6)" using i by simp
    have s: "js_sar (int i - 6) 0 = int (i - 6)" unfolding d by (rule sar0_int [OF bi(3)])
    show "bind2 (Some (less_at lt ys (int i) (js_sar (int i - 6) 0))) (\<lambda>j.
        if j then Some (swap_checked ys (int i) (js_sar (int i - 6) 0)) else Some (Inr ys)) =
        Some (Inr (if lt (ys ! i) (ys ! (i - 6)) then swap_at ys i (i - 6) else ys)) \<and>
        length (if lt (ys ! i) (ys ! (i - 6)) then swap_at ys i (i - 6) else ys) = length xs"
      unfolding s less_at_int [OF bi(1,2)] swap_checked_int [OF bi(1,2)] using l by simp
  qed simp
  then show ?thesis unfolding shell_pass_def shell_pos_def j r .
qed

section \<open>Changes within a range\<close>

definition within :: "nat \<Rightarrow> nat \<Rightarrow> 'a list \<Rightarrow> 'a list \<Rightarrow> bool" where
  "within b c xs ys \<longleftrightarrow> length ys = length xs \<and> mset ys = mset xs \<and> (\<forall>i. i < b \<or> c \<le> i \<longrightarrow> ys ! i = xs ! i)"

lemma within_refl [simp, intro]: "within b c xs xs"
  by (simp add: within_def)

lemma within_trans [trans]: "within b c xs ys \<Longrightarrow> within b c ys zs \<Longrightarrow> within b c xs zs"
  by (simp add: within_def)

lemma within_mono: "within b c xs ys \<Longrightarrow> b' \<le> b \<Longrightarrow> c \<le> c' \<Longrightarrow> within b' c' xs ys"
  by (auto simp: within_def)

lemma within_length: "within b c xs ys \<Longrightarrow> length ys = length xs"
  by (simp add: within_def)

lemma within_other: "within b c xs ys \<Longrightarrow> i < b \<or> c \<le> i \<Longrightarrow> ys ! i = xs ! i"
  unfolding within_def by blast

lemma swap_at_nth: "i < length xs \<Longrightarrow> j < length xs \<Longrightarrow> k < length xs \<Longrightarrow>
    swap_at xs i j ! k = (if k = j then xs ! i else if k = i then xs ! j else xs ! k)"
  by (auto simp: swap_at_def nth_list_update)

lemma within_swap: "b \<le> i \<Longrightarrow> i < c \<Longrightarrow> b \<le> j \<Longrightarrow> j < c \<Longrightarrow> c \<le> length xs \<Longrightarrow> within b c xs (swap_at xs i j)"
  by (auto simp: within_def swap_at_def mset_swap)

lemma within_slice:
  assumes "within b c xs ys" "b \<le> c" "c \<le> length xs"
  shows "mset (take (c - b) (drop b ys)) = mset (take (c - b) (drop b xs))"
proof -
  have m: "mset (take b zs) + (mset (take (c - b) (drop b zs)) + mset (drop c zs)) = mset zs" for zs :: "'a list"
  proof -
    have "take (c - b) (drop b zs) @ drop c zs = drop b zs"
      using append_take_drop_id [of "c - b" "drop b zs"] assms(2) by simp
    then have "mset (take (c - b) (drop b zs)) + mset (drop c zs) = mset (drop b zs)" by (metis mset_append)
    then show ?thesis by (simp only: mset_append [symmetric] append_take_drop_id)
  qed
  have td: "take b ys = take b xs" "drop c ys = drop c xs"
    using assms by (auto simp: within_def intro!: nth_equalityI)
  have "mset ys = mset xs" using assms(1) by (simp add: within_def)
  then have "mset (take b ys) + (mset (take (c - b) (drop b ys)) + mset (drop c ys)) =
      mset (take b xs) + (mset (take (c - b) (drop b xs)) + mset (drop c xs))" by (simp only: m)
  then show ?thesis unfolding td by (simp only: add_left_cancel add_right_cancel)
qed

lemma slice_set:
  assumes "c \<le> length xs"
  shows "set (take (c - b) (drop b xs)) = {xs ! i | i. b \<le> i \<and> i < c}"
proof (intro set_eqI iffI)
  fix x assume "x \<in> set (take (c - b) (drop b xs))"
  then obtain i where "i < c - b" "xs ! (b + i) = x" using assms by (auto simp: in_set_conv_nth)
  then show "x \<in> {xs ! i | i. b \<le> i \<and> i < c}" by (auto intro!: exI [of _ "b + i"])
next
  fix x assume "x \<in> {xs ! i | i. b \<le> i \<and> i < c}"
  then obtain i where "b \<le> i" "i < c" "x = xs ! i" by auto
  then show "x \<in> set (take (c - b) (drop b xs))"
    unfolding in_set_conv_nth using assms by (intro exI [of _ "i - b"]) auto
qed

lemma within_all:
  assumes "within b c xs ys" "c \<le> length xs" "\<And>i. b \<le> i \<Longrightarrow> i < c \<Longrightarrow> Q (xs ! i)" "b \<le> i" "i < c"
  shows "Q (ys ! i)"
proof -
  have "set (take (c - b) (drop b ys)) = set (take (c - b) (drop b xs))"
    using within_slice [OF assms(1) _ assms(2)] assms(4,5) by (metis le_less_trans less_imp_le set_mset_mset)
  then have "{ys ! i | i. b \<le> i \<and> i < c} = {xs ! i | i. b \<le> i \<and> i < c}"
    using slice_set [OF assms(2), of b] slice_set [of c ys b] assms(1,2) by (simp add: within_def)
  then obtain j where "b \<le> j" "j < c" "ys ! i = xs ! j" using assms(4,5) by blast
  then show ?thesis using assms(3) by simp
qed

definition sorted_on :: "('a \<Rightarrow> 'a \<Rightarrow> bool) \<Rightarrow> nat \<Rightarrow> nat \<Rightarrow> 'a list \<Rightarrow> bool" where
  "sorted_on lt b c xs \<longleftrightarrow> (\<forall>i j. b \<le> i \<and> i < j \<and> j < c \<longrightarrow> \<not> lt (xs ! j) (xs ! i))"

lemma weak_order_trans: "weak_order lt \<Longrightarrow> \<not> lt y x \<Longrightarrow> \<not> lt z y \<Longrightarrow> \<not> lt z x"
  unfolding weak_order_def by blast

lemma weak_order_asym: "weak_order lt \<Longrightarrow> lt x y \<Longrightarrow> \<not> lt y x"
  unfolding weak_order_def by blast

lemma weak_order_irrefl: "weak_order lt \<Longrightarrow> \<not> lt x x"
  unfolding weak_order_def by blast

section \<open>Heap sort\<close>

text \<open>The heap order of the first \<open>hi\<close> elements from \<open>first\<close>, for the parents from \<open>lo\<close> on; \<open>child\<close> relates positions.\<close>

definition child :: "nat \<Rightarrow> nat \<Rightarrow> bool" where
  "child i j \<longleftrightarrow> j = 2 * i + 1 \<or> j = 2 * i + 2"

definition heap_on :: "('a \<Rightarrow> 'a \<Rightarrow> bool) \<Rightarrow> nat \<Rightarrow> nat \<Rightarrow> nat \<Rightarrow> 'a list \<Rightarrow> bool" where
  "heap_on lt lo hi first xs \<longleftrightarrow> (\<forall>i j. lo \<le> i \<and> child i j \<and> j < hi \<longrightarrow> \<not> lt (xs ! (first + i)) (xs ! (first + j)))"

text \<open>The state of \<open>sift_pos\<close>: only the element at \<open>r\<close> may be out of order, and its parent bounds its children.\<close>

definition sifting :: "('a \<Rightarrow> 'a \<Rightarrow> bool) \<Rightarrow> nat \<Rightarrow> nat \<Rightarrow> nat \<Rightarrow> nat \<Rightarrow> 'a list \<Rightarrow> bool" where
  "sifting lt lo r hi first xs \<longleftrightarrow>
     (\<forall>i j. lo \<le> i \<and> i \<noteq> r \<and> child i j \<and> j < hi \<longrightarrow> \<not> lt (xs ! (first + i)) (xs ! (first + j))) \<and>
     (\<forall>q j. lo \<le> q \<and> child q r \<and> child r j \<and> j < hi \<longrightarrow> \<not> lt (xs ! (first + q)) (xs ! (first + j)))"

lemma child_less: "child i j \<Longrightarrow> i < j"
  by (auto simp: child_def)

lemma child_parent: "child i j \<Longrightarrow> child k j \<Longrightarrow> i = k"
  unfolding child_def by presburger

lemma sift_done:
  "sifting lt lo r hi first xs \<Longrightarrow> (\<And>j. child r j \<Longrightarrow> j < hi \<Longrightarrow> \<not> lt (xs ! (first + r)) (xs ! (first + j))) \<Longrightarrow>
    heap_on lt lo hi first xs"
  unfolding sifting_def heap_on_def by blast

lemma sift_swap:
  assumes "weak_order lt" "sifting lt lo r hi first xs" "first + hi \<le> length xs" "lo \<le> r" "child r f" "f < hi"
    and up: "lt (xs ! (first + r)) (xs ! (first + f))"
    and big: "\<And>j. child r j \<Longrightarrow> j < hi \<Longrightarrow> \<not> lt (xs ! (first + f)) (xs ! (first + j))"
  shows "sifting lt lo f hi first (swap_at xs (first + r) (first + f))"
proof -
  define v where "v = (\<lambda>i. xs ! (first + i))"
  define w where "w = (\<lambda>i. swap_at xs (first + r) (first + f) ! (first + i))"
  note rf = child_less [OF assms(5)]
  have w: "w i = (if i = f then v r else if i = r then v f else v i)" if "i < hi" for i
    using that assms(3,6) rf by (simp add: w_def v_def swap_at_nth)
  have s: "\<And>i j. lo \<le> i \<Longrightarrow> i \<noteq> r \<Longrightarrow> child i j \<Longrightarrow> j < hi \<Longrightarrow> \<not> lt (v i) (v j)"
    "\<And>q j. lo \<le> q \<Longrightarrow> child q r \<Longrightarrow> child r j \<Longrightarrow> j < hi \<Longrightarrow> \<not> lt (v q) (v j)"
    using assms(2) unfolding sifting_def v_def by blast+
  have "\<not> lt (w i) (w j)" if i: "lo \<le> i" "i \<noteq> f" "child i j" "j < hi" for i j
  proof (cases "i = r")
    case True
    then show ?thesis using i w [of j] w [of r] rf assms(6) big [of j] weak_order_asym [OF assms(1) up] child_less [OF i(3)]
      by (auto simp: v_def)
  next
    case False
    have "j \<noteq> f" using False child_parent [OF i(3)] assms(5) by blast
    then show ?thesis
      using False i w [of j] w [of i] child_less [OF i(3)] s(1) [OF i(1) False i(3,4)] s(2) [of i f] assms(5,6) by auto
  qed
  moreover have "\<not> lt (w q) (w j)" if q: "lo \<le> q" "child q f" "child f j" "j < hi" for q j
  proof -
    have "q = r" using child_parent [OF q(2) assms(5)] .
    then show ?thesis using q w [of q] w [of j] rf child_less [OF q(3)] s(1) [of f j] assms(4) by auto
  qed
  ultimately show ?thesis unfolding sifting_def w_def by blast
qed

lemma sift_pos_spec:
  assumes "weak_order lt"
  shows "first + hi \<le> length xs \<Longrightarrow> lo \<le> r \<Longrightarrow> sifting lt lo r hi first xs \<Longrightarrow>
    heap_on lt lo hi first (sift_pos lt r hi first xs) \<and> within first (first + hi) xs (sift_pos lt r hi first xs)"
  using assms
proof (induction lt r hi first xs rule: sift_pos.induct)
  case (1 lt r hi first xs)
  define f where "f = (if 2 * r + 1 + 1 < hi \<and> lt (xs ! (first + (2 * r + 1))) (xs ! (first + (2 * r + 1) + 1))
    then 2 * r + 1 + 1 else 2 * r + 1)"
  show ?case
  proof (cases "2 * r + 1 \<ge> hi")
    case True
    then have "sift_pos lt r hi first xs = xs" by (subst sift_pos.simps) (simp add: Let_def)
    moreover have "heap_on lt lo hi first xs"
      by (rule sift_done [OF 1(4)]) (use True in \<open>auto simp: child_def\<close>)
    ultimately show ?thesis by simp
  next
    case False
    have f: "child r f" "f < hi" using False by (auto simp: f_def child_def)
    have eq: "sift_pos lt r hi first xs = (if \<not> lt (xs ! (first + r)) (xs ! (first + f)) then xs
        else sift_pos lt f hi first (swap_at xs (first + r) (first + f)))"
      using False by (subst sift_pos.simps) (simp add: Let_def f_def)
    have big: "\<not> lt (xs ! (first + f)) (xs ! (first + j))" if "child r j" "j < hi" for j
      using that weak_order_irrefl [OF 1(5)] weak_order_asym [OF 1(5)] unfolding f_def child_def by auto
    show ?thesis
    proof (cases "lt (xs ! (first + r)) (xs ! (first + f))")
      case True
      let ?ys = "swap_at xs (first + r) (first + f)"
      have w: "within first (first + hi) xs ?ys" using f child_less [OF f(1)] 1(2) by (intro within_swap) auto
      have "heap_on lt lo hi first (sift_pos lt f hi first ?ys) \<and> within first (first + hi) ?ys (sift_pos lt f hi first ?ys)"
        by (rule 1(1) [OF refl _ _ _ _ _ sift_swap [OF 1(5,4,2,3) f True big] 1(5), folded f_def])
          (use False True 1(2,3) child_less [OF f(1)] in \<open>simp_all add: f_def [symmetric]\<close>)
      then show ?thesis using True within_trans [OF w] unfolding eq by simp
    next
      case nl: False
      have "\<not> lt (xs ! (first + r)) (xs ! (first + j))" if "child r j" "j < hi" for j
        using weak_order_trans [OF 1(5) big [OF that] nl] .
      then show ?thesis using sift_done [OF 1(4)] nl unfolding eq by simp
    qed
  qed
qed

lemma heap_root:
  assumes "weak_order lt" "heap_on lt 0 hi first xs"
  shows "k < hi \<Longrightarrow> \<not> lt (xs ! first) (xs ! (first + k))"
proof (induction k rule: less_induct)
  case (less k)
  show ?case
  proof (cases "k = 0")
    case True
    then show ?thesis using weak_order_irrefl [OF assms(1)] by simp
  next
    case False
    define q where "q = (k - 1) div 2"
    have q: "child q k" using False unfolding child_def q_def by presburger
    have "\<not> lt (xs ! (first + q)) (xs ! (first + k))" using assms(2) q less.prems unfolding heap_on_def by blast
    moreover have "\<not> lt (xs ! first) (xs ! (first + q))" using less child_less [OF q] by simp
    ultimately show ?thesis using weak_order_trans [OF assms(1)] by blast
  qed
qed

lemma heapify_spec:
  assumes "weak_order lt"
  shows "first + hi \<le> length xs \<Longrightarrow> heap_on lt n hi first xs \<Longrightarrow>
    heap_on lt 0 hi first (fold (\<lambda>h. sift_pos lt h hi first) (rev [0..<n]) xs) \<and>
    within first (first + hi) xs (fold (\<lambda>h. sift_pos lt h hi first) (rev [0..<n]) xs)"
proof (induction n arbitrary: xs)
  case (Suc n)
  let ?ys = "sift_pos lt n hi first xs"
  have "sifting lt n n hi first xs"
    unfolding sifting_def
  proof (intro conjI allI impI; elim conjE)
    fix i j assume "n \<le> i" "i \<noteq> n" "child i j" "j < hi"
    then show "\<not> lt (xs ! (first + i)) (xs ! (first + j))" using Suc.prems(2) unfolding heap_on_def by simp
  next
    fix q j assume "n \<le> q" "child q n"
    then show "\<not> lt (xs ! (first + q)) (xs ! (first + j))" using child_less [of q n] by simp
  qed
  from sift_pos_spec [OF assms Suc.prems(1) le_refl this]
  have y: "heap_on lt n hi first ?ys" "within first (first + hi) xs ?ys" by simp_all
  then show ?case using Suc.IH [of ?ys] Suc.prems(1) within_trans [OF y(2)] by (simp add: within_length [OF y(2)])
qed simp

lemma extract_spec:
  assumes "weak_order lt" "b + f \<le> length xs" "n \<le> f" "heap_on lt 0 n b xs" "sorted_on lt (b + n) (b + f) xs"
    and "\<And>i j. i < n \<Longrightarrow> n \<le> j \<Longrightarrow> j < f \<Longrightarrow> \<not> lt (xs ! (b + j)) (xs ! (b + i))"
  shows "sorted_on lt b (b + f) (fold (\<lambda>i xs. sift_pos lt 0 i b (swap_at xs b (b + i))) (rev [0..<n]) xs) \<and>
    within b (b + f) xs (fold (\<lambda>i xs. sift_pos lt 0 i b (swap_at xs b (b + i))) (rev [0..<n]) xs)"
  using assms(2-6)
proof (induction n arbitrary: xs)
  case (Suc n)
  let ?ys = "swap_at xs b (b + n)"
  let ?zs = "sift_pos lt 0 n b ?ys"
  have len: "b < length xs" "b + n < length xs" using Suc.prems(1,2) by simp_all
  note y = swap_at_nth [OF len]
  have root: "\<not> lt (xs ! b) (xs ! (b + k))" if "k \<le> n" for k using heap_root [OF assms(1) Suc.prems(3), of k] that by simp
  have "sifting lt 0 0 n b ?ys"
    unfolding sifting_def
  proof (intro conjI allI impI; elim conjE)
    fix i j assume a: "0 \<le> i" "i \<noteq> 0" "child i j" "j < n"
    then have "\<not> lt (xs ! (b + i)) (xs ! (b + j))" using Suc.prems(3) unfolding heap_on_def by simp
    then show "\<not> lt (?ys ! (b + i)) (?ys ! (b + j))" using a child_less [OF a(3)] len by (simp add: y)
  next
    fix q j assume "child q 0"
    then show "\<not> lt (?ys ! (b + q)) (?ys ! (b + j))" by (simp add: child_def)
  qed
  from sift_pos_spec [OF assms(1) _ le_refl this]
  have z: "heap_on lt 0 n b ?zs" "within b (b + n) ?ys ?zs" using len by simp_all
  have w: "within b (b + f) xs ?zs"
    using within_trans [OF within_swap [of b b "b + f" "b + n"] within_mono [OF z(2)]] Suc.prems(1,2) by simp
  have top: "?zs ! (b + n) = xs ! b" using within_other [OF z(2)] len by (simp add: y)
  have rest: "?zs ! (b + j) = xs ! (b + j)" if "n < j" "j < f" for j
    using that within_other [OF z(2), of "b + j"] Suc.prems(1) by (simp add: y)
  have low: "Q (?zs ! (b + i))" if "i < n" "\<And>k. k \<le> n \<Longrightarrow> Q (xs ! (b + k))" for Q i
  proof (rule within_all [OF z(2)])
    fix k assume "b \<le> k" "k < b + n"
    then show "Q (?ys ! k)" using that(2) [of "k - b"] that(2) [of n] len by (auto simp: y)
  qed (use that len in auto)
  have "sorted_on lt (b + n) (b + f) ?zs"
    unfolding sorted_on_def
  proof (intro allI impI; elim conjE)
    fix i j assume a: "b + n \<le> i" "i < j" "j < b + f"
    define k m where "k = i - b" and "m = j - b"
    have km: "i = b + k" "j = b + m" "n \<le> k" "k < m" "m < f" using a by (simp_all add: k_def m_def)
    show "\<not> lt (?zs ! j) (?zs ! i)"
    proof (cases "k = n")
      case True
      then show ?thesis using km rest [of m] top Suc.prems(5) [of 0 m] by simp
    next
      case False
      then show ?thesis using km rest [of m] rest [of k] Suc.prems(4) unfolding sorted_on_def by simp
    qed
  qed
  moreover have "\<not> lt (?zs ! (b + j)) (?zs ! (b + i))" if ij: "i < n" "n \<le> j" "j < f" for i j
  proof (rule low [OF ij(1)])
    fix k assume "k \<le> n"
    then show "\<not> lt (?zs ! (b + j)) (xs ! (b + k))"
      using ij top rest [of j] root [of k] Suc.prems(5) [of k j] by (cases "j = n") simp_all
  qed
  ultimately show ?case
    using Suc.IH [of ?zs] Suc.prems(1,2) z(1) within_trans [OF w] by (simp add: within_length [OF w])
qed simp

lemma heap_pos_spec:
  assumes "weak_order lt" "b \<le> c" "c \<le> length xs"
  shows "sorted_on lt b c (heap_pos lt b c xs) \<and> within b c xs (heap_pos lt b c xs)"
proof -
  define f where "f = c - b"
  let ?ys = "fold (\<lambda>h. sift_pos lt h f b) (rev [0..<Suc ((f - 1) div 2)]) xs"
  have bf: "b + f = c" using assms(2) by (simp add: f_def)
  have "heap_on lt (Suc ((f - 1) div 2)) f b xs"
    unfolding heap_on_def child_def by presburger
  from heapify_spec [OF assms(1) _ this]
  have y: "heap_on lt 0 f b ?ys" "within b c xs ?ys" using assms(3) bf by simp_all
  let ?zs = "fold (\<lambda>i xs. sift_pos lt 0 i b (swap_at xs b (b + i))) (rev [0..<f]) ?ys"
  have "sorted_on lt b (b + f) ?zs \<and> within b (b + f) ?ys ?zs"
    by (rule extract_spec [OF assms(1) _ le_refl y(1)]) (use assms(3) bf within_length [OF y(2)] in \<open>auto simp: sorted_on_def\<close>)
  moreover have "heap_pos lt b c xs = ?zs" by (simp only: heap_pos_def Let_def f_def)
  ultimately show ?thesis using within_trans [OF y(2)] bf by simp
qed

section \<open>Partitioning\<close>

lemma median_within:
  assumes "lo \<le> b" "b < hi" "lo \<le> c" "c < hi" "lo \<le> d" "d < hi" "hi \<le> length xs"
  shows "within lo hi xs (medianOfThree lt b c d xs)"
proof -
  have swap: "within lo hi xs (swap_at ys i j)" if "within lo hi xs ys" "lo \<le> i" "i < hi" "lo \<le> j" "j < hi" for ys i j
    using within_trans [OF that(1) within_swap [OF that(2-5)]] assms(7) within_length [OF that(1)] by simp
  show ?thesis using assms by (auto simp: medianOfThree_def Let_def intro!: swap)
qed

lemma median_order:
  assumes "weak_order lt" "b \<noteq> c" "c \<noteq> d" "b \<noteq> d" "b < length xs" "c < length xs" "d < length xs"
  shows "\<not> lt (medianOfThree lt b c d xs ! d) (medianOfThree lt b c d xs ! b)"
proof -
  define ys where "ys = (if lt (xs ! b) (xs ! c) then swap_at xs b c else xs)"
  have len: "length ys = length xs" by (simp add: ys_def)
  have bc: "\<not> lt (ys ! b) (ys ! c)"
    using assms(2,5,6) weak_order_asym [OF assms(1), of "xs ! b" "xs ! c"] by (simp add: ys_def swap_at_nth)
  have eq: "medianOfThree lt b c d xs = (if lt (ys ! d) (ys ! b)
      then if lt (swap_at ys d b ! b) (swap_at ys d b ! c) then swap_at (swap_at ys d b) b c else swap_at ys d b else ys)"
    by (simp add: medianOfThree_def Let_def ys_def)
  show ?thesis
    using assms(2-7) bc weak_order_asym [OF assms(1), of "ys ! d" "ys ! b"] unfolding eq by (simp add: swap_at_nth len)
qed

lemma skip_less_spec:
  "(l \<le> m \<longrightarrow> skip_less lt i l m xs \<le> m) \<and> (\<forall>k. l \<le> k \<and> k < skip_less lt i l m xs \<longrightarrow> lt (xs ! k) (xs ! i))"
proof (induction lt i l m xs rule: skip_less.induct)
  case (1 lt i l m xs)
  show ?case
  proof (cases "l < m \<and> lt (xs ! l) (xs ! i)")
    case True
    then have "skip_less lt i l m xs = skip_less lt i (l + 1) m xs" by (subst skip_less.simps) simp
    moreover have "lt (xs ! k) (xs ! i)" if "l \<le> k" "k < skip_less lt i (l + 1) m xs" for k
      using that True 1 by (cases "k = l") auto
    ultimately show ?thesis using True 1 by simp
  qed (subst (1 2) skip_less.simps, auto)
qed

lemma skip_not_greater_spec:
  "(p \<le> m \<longrightarrow> skip_not_greater lt i p m xs \<le> m) \<and>
   (\<forall>k. p \<le> k \<and> k < skip_not_greater lt i p m xs \<longrightarrow> \<not> lt (xs ! i) (xs ! k)) \<and>
   (skip_not_greater lt i p m xs < m \<longrightarrow> lt (xs ! i) (xs ! skip_not_greater lt i p m xs))"
proof (induction lt i p m xs rule: skip_not_greater.induct)
  case (1 lt i p m xs)
  show ?case
  proof (cases "p < m \<and> \<not> lt (xs ! i) (xs ! p)")
    case True
    then have "skip_not_greater lt i p m xs = skip_not_greater lt i (p + 1) m xs" by (subst skip_not_greater.simps) simp
    moreover have "\<not> lt (xs ! i) (xs ! k)" if "p \<le> k" "k < skip_not_greater lt i (p + 1) m xs" for k
      using that True 1 by (cases "k = p") auto
    ultimately show ?thesis using True 1 by simp
  next
    case False
    then have "skip_not_greater lt i p m xs = p" by (subst skip_not_greater.simps) auto
    then show ?thesis using False by auto
  qed
qed

lemma drop_greater_spec:
  "p \<le> m \<Longrightarrow> p \<le> drop_greater lt i p m xs \<and> (\<forall>k. drop_greater lt i p m xs \<le> k \<and> k < m \<longrightarrow> lt (xs ! i) (xs ! k)) \<and>
    (p < drop_greater lt i p m xs \<longrightarrow> \<not> lt (xs ! i) (xs ! (drop_greater lt i p m xs - 1)))"
proof (induction m)
  case (Suc m)
  then show ?case by (cases "p = Suc m") (auto simp: less_Suc_eq)
qed simp

lemma drop_not_less_spec:
  "l \<le> p \<Longrightarrow> l \<le> drop_not_less lt i l p xs \<and> (\<forall>k. drop_not_less lt i l p xs \<le> k \<and> k < p \<longrightarrow> \<not> lt (xs ! k) (xs ! i)) \<and>
    (l < drop_not_less lt i l p xs \<longrightarrow> lt (xs ! (drop_not_less lt i l p xs - 1)) (xs ! i))"
proof (induction p)
  case (Suc p)
  then show ?case by (cases "l = Suc p") (auto simp: less_Suc_eq)
qed simp

lemma skip_less_stop: "skip_less lt i l m xs < m \<Longrightarrow> \<not> lt (xs ! skip_less lt i l m xs) (xs ! i)"
proof (induction lt i l m xs rule: skip_less.induct)
  case (1 lt i l m xs)
  show ?case
  proof (cases "l < m \<and> lt (xs ! l) (xs ! i)")
    case True
    then have "skip_less lt i l m xs = skip_less lt i (l + 1) m xs" by (subst skip_less.simps) simp
    then show ?thesis using 1 True by simp
  next
    case False
    then have "skip_less lt i l m xs = l" by (subst skip_less.simps) auto
    then show ?thesis using False 1(2) by auto
  qed
qed

lemma partition_loop_spec:
  "i < p \<Longrightarrow> p \<le> m \<Longrightarrow> m \<le> length xs \<Longrightarrow> partition_loop lt i p m xs = (p', m', ys) \<Longrightarrow>
    p' = m' \<and> p \<le> m' \<and> m' \<le> m \<and> within p m xs ys \<and> (\<forall>k. p \<le> k \<and> k < m' \<longrightarrow> \<not> lt (xs ! i) (ys ! k)) \<and>
    (\<forall>k. m' \<le> k \<and> k < m \<longrightarrow> lt (xs ! i) (ys ! k))"
proof (induction lt i p m xs rule: partition_loop.induct)
  case (1 lt i p m xs)
  define q where "q = skip_not_greater lt i p m xs"
  define n where "n = drop_greater lt i q m xs"
  have q: "p \<le> q" "q \<le> m" "\<And>k. p \<le> k \<Longrightarrow> k < q \<Longrightarrow> \<not> lt (xs ! i) (xs ! k)" "q < m \<Longrightarrow> lt (xs ! i) (xs ! q)"
    using skip_not_greater_spec [of p m lt i xs] skip_not_greater_ge [of p lt i m xs] 1(3) unfolding q_def by auto
  have n: "q \<le> n" "n \<le> m" "\<And>k. n \<le> k \<Longrightarrow> k < m \<Longrightarrow> lt (xs ! i) (xs ! k)" "q < n \<Longrightarrow> \<not> lt (xs ! i) (xs ! (n - 1))"
    using drop_greater_spec [OF q(2), of lt i xs] drop_greater_le [of lt i q m xs] unfolding n_def by auto
  have eq: "partition_loop lt i p m xs =
      (if q \<ge> n then (q, n, xs) else partition_loop lt i (q + 1) (n - 1) (swap_at xs q (n - 1)))"
    by (subst partition_loop.simps) (simp add: Let_def q_def n_def)
  show ?case
  proof (cases "q \<ge> n")
    case True
    then show ?thesis using 1(5) eq q n by simp
  next
    case False
    let ?ys = "swap_at xs q (n - 1)"
    have "q \<noteq> n - 1" using False q(4) n(2,4) by auto
    then have qn: "q + 1 \<le> n - 1" "n - 1 < m" using False n(2) by auto
    have w: "within p m xs ?ys" using q(1) qn 1(4) by (intro within_swap) auto
    have same: "?ys ! k = xs ! k" if "k < q \<or> n \<le> k" for k
      using that qn 1(4) by (auto simp: swap_at_def nth_list_update)
    have s: "?ys ! i = xs ! i" "?ys ! q = xs ! (n - 1)" "?ys ! (n - 1) = xs ! q"
      using 1(2,4) q(1) qn same [of i] by (auto simp: swap_at_def nth_list_update)
    have "p' = m' \<and> q + 1 \<le> m' \<and> m' \<le> n - 1 \<and> within (q + 1) (n - 1) ?ys ys \<and>
        (\<forall>k. q + 1 \<le> k \<and> k < m' \<longrightarrow> \<not> lt (?ys ! i) (ys ! k)) \<and> (\<forall>k. m' \<le> k \<and> k < n - 1 \<longrightarrow> lt (?ys ! i) (ys ! k))"
      by (rule 1(1) [OF q_def n_def]) (use False 1(2,4,5) q(1) qn eq in auto)
    then have r: "p' = m'" "q + 1 \<le> m'" "m' \<le> n - 1" "within (q + 1) (n - 1) ?ys ys"
      "\<And>k. q + 1 \<le> k \<Longrightarrow> k < m' \<Longrightarrow> \<not> lt (xs ! i) (ys ! k)" "\<And>k. m' \<le> k \<Longrightarrow> k < n - 1 \<Longrightarrow> lt (xs ! i) (ys ! k)"
      unfolding s(1) by blast+
    have out: "ys ! k = ?ys ! k" if "k \<le> q \<or> n - 1 \<le> k" for k using within_other [OF r(4), of k] that by auto
    have lo: "\<not> lt (xs ! i) (ys ! k)" if "p \<le> k" "k < m'" for k
    proof (cases "k < q")
      case True
      then show ?thesis using q(3) [OF that(1)] out [of k] same [of k] by simp
    next
      case nq: False
      then show ?thesis using that r(5) [of k] out [of q] s(2) n(4) False by (cases "k = q") auto
    qed
    have hi: "lt (xs ! i) (ys ! k)" if "m' \<le> k" "k < m" for k
    proof (cases "n \<le> k")
      case True
      then have "n - 1 \<le> k" by simp
      with True show ?thesis using n(3) [OF True that(2)] out [of k] same [of k] by simp
    next
      case nk: False
      then show ?thesis using that r(6) [of k] out [of "n - 1"] s(3) q(4) False n(2) by (cases "k = n - 1") auto
    qed
    have "within p m xs ys" using within_trans [OF w within_mono [OF r(4)]] q(1) qn by simp
    then show ?thesis using r lo hi q(1) qn by auto
  qed
qed

lemma equal_loop_past: "p \<le> l \<Longrightarrow> equal_loop lt i l p xs = (l, p, xs)"
proof -
  assume "p \<le> l"
  then have "drop_not_less lt i l p xs = p" by (cases p) simp_all
  moreover have "skip_less lt i l p xs = l" using \<open>p \<le> l\<close> by (subst skip_less.simps) simp
  ultimately show ?thesis using \<open>p \<le> l\<close> by (subst equal_loop.simps) (simp add: Let_def)
qed

lemma equal_loop_spec:
  "i < l \<Longrightarrow> l \<le> p \<Longrightarrow> p \<le> length xs \<Longrightarrow> equal_loop lt i l p xs = (l', p', ys) \<Longrightarrow>
    l \<le> p' \<and> p' \<le> p \<and> within l p xs ys \<and> (\<forall>k. p' \<le> k \<and> k < p \<longrightarrow> \<not> lt (ys ! k) (xs ! i))"
proof (induction lt i l p xs rule: equal_loop.induct)
  case (1 lt i l p xs)
  define q where "q = drop_not_less lt i l p xs"
  define n where "n = skip_less lt i l q xs"
  have q: "l \<le> q" "q \<le> p" "\<And>k. q \<le> k \<Longrightarrow> k < p \<Longrightarrow> \<not> lt (xs ! k) (xs ! i)" "l < q \<Longrightarrow> lt (xs ! (q - 1)) (xs ! i)"
    using drop_not_less_spec [OF 1(3), of lt i xs] drop_not_less_le [of lt i l p xs] unfolding q_def by auto
  have n: "l \<le> n" "n < q \<Longrightarrow> \<not> lt (xs ! n) (xs ! i)"
    using skip_less_ge [of l lt i q xs] skip_less_stop [of lt i l q xs] unfolding n_def by auto
  have eq: "equal_loop lt i l p xs =
      (if n \<ge> q then (n, q, xs) else equal_loop lt i (n + 1) (q - 1) (swap_at xs n (q - 1)))"
    by (subst equal_loop.simps) (simp add: Let_def q_def n_def)
  show ?case
  proof (cases "n \<ge> q")
    case True
    then show ?thesis using 1(5) eq q by simp
  next
    case False
    let ?ys = "swap_at xs n (q - 1)"
    have "n \<noteq> q - 1" using False q(4) n by auto
    then have nq: "n + 1 \<le> q - 1" "q - 1 < p" using False q(2) by auto
    have w: "within l p xs ?ys" using n(1) nq 1(4) by (intro within_swap) auto
    have same: "?ys ! k = xs ! k" if "k < n \<or> q \<le> k" for k
      using that nq 1(4) by (auto simp: swap_at_def nth_list_update)
    have s: "?ys ! i = xs ! i" "?ys ! (q - 1) = xs ! n"
      using 1(2,4) n(1) nq same [of i] by (auto simp: swap_at_def nth_list_update)
    have "n + 1 \<le> p' \<and> p' \<le> q - 1 \<and> within (n + 1) (q - 1) ?ys ys \<and> (\<forall>k. p' \<le> k \<and> k < q - 1 \<longrightarrow> \<not> lt (ys ! k) (?ys ! i))"
      by (rule 1(1) [OF q_def n_def]) (use False nq 1(2,4,5) n(1) eq in auto)
    then have r: "n + 1 \<le> p'" "p' \<le> q - 1" "within (n + 1) (q - 1) ?ys ys" "\<And>k. p' \<le> k \<Longrightarrow> k < q - 1 \<Longrightarrow> \<not> lt (ys ! k) (xs ! i)"
      unfolding s(1) by blast+
    have "\<not> lt (ys ! k) (xs ! i)" if k: "p' \<le> k" "k < p" for k
    proof (cases "k < q - 1")
      case True
      then show ?thesis using r(4) k by blast
    next
      case nk: False
      then have o: "ys ! k = ?ys ! k" using within_other [OF r(3), of k] by simp
      show ?thesis
      proof (cases "k = q - 1")
        case True
        then show ?thesis using o s(2) n(2) False by simp
      next
        case False
        then have "q \<le> k" using nk by simp
        then show ?thesis using o same [of k] q(3) [of k] k(2) by simp
      qed
    qed
    moreover have "within l p xs ys" using within_trans [OF w within_mono [OF r(3)]] n(1) nq by simp
    ultimately show ?thesis using r(1,2) n(1) nq by auto
  qed
qed

text \<open>What \<open>doPivot\<close> works towards: smaller elements up to \<open>p\<close>, equal ones up to \<open>m\<close>, greater ones up to \<open>c\<close>.\<close>

definition parted :: "('a \<Rightarrow> 'a \<Rightarrow> bool) \<Rightarrow> 'a \<Rightarrow> nat \<Rightarrow> nat \<Rightarrow> nat \<Rightarrow> nat \<Rightarrow> 'a list \<Rightarrow> bool" where
  "parted lt P b p m c xs \<longleftrightarrow> (\<forall>k. b \<le> k \<and> k < p \<longrightarrow> \<not> lt P (xs ! k)) \<and>
     (\<forall>k. p \<le> k \<and> k < m \<longrightarrow> \<not> lt P (xs ! k) \<and> \<not> lt (xs ! k) P) \<and> (\<forall>k. m \<le> k \<and> k < c \<longrightarrow> \<not> lt (xs ! k) P)"

lemma protect_spec:
  assumes pos: "i < f" "f + 3 \<le> m" "m < c" "c \<le> length xs" and part: "parted lt (xs ! i) (i + 1) m m c xs"
    and res: "protect lt i f c m m xs = (u, p', m', ys)"
  shows "m \<le> p' + 2 \<and> p' \<le> m \<and> m \<le> m' \<and> m' \<le> c \<and> within (i + 1) c xs ys \<and> parted lt (xs ! i) (i + 1) p' m' c ys"
proof -
  let ?P = "xs ! i"
  have lo: "\<And>k. i < k \<Longrightarrow> k < m \<Longrightarrow> \<not> lt (xs ! i) (xs ! k)" and hi: "\<And>k. m \<le> k \<Longrightarrow> k < c \<Longrightarrow> \<not> lt (xs ! k) (xs ! i)"
    using part by (auto simp: parted_def)
  define x where "x \<longleftrightarrow> \<not> lt ?P (xs ! (c - 1))"
  define xs1 where "xs1 = (if x then swap_at xs m (c - 1) else xs)"
  define m1 where "m1 = (if x then m + 1 else m)"
  have x1: "length xs1 = length xs" "within (i + 1) c xs xs1" "\<And>k. k < m \<Longrightarrow> xs1 ! k = xs ! k"
    using pos by (auto simp: xs1_def swap_at_def nth_list_update intro!: within_swap [unfolded swap_at_def])
  have h1: "\<not> lt (xs1 ! k) ?P" if "m \<le> k" "k < c" for k
    using that hi pos hi [of m] hi [of "c - 1"] by (auto simp: xs1_def swap_at_def nth_list_update)
  have e1: "\<not> lt ?P (xs1 ! k)" if "m \<le> k" "k < m1" for k
    using that pos by (auto simp: xs1_def m1_def x_def swap_at_def nth_list_update split: if_splits)
  have m1: "m \<le> m1" "m1 \<le> c" using pos by (auto simp: m1_def)
  define y where "y \<longleftrightarrow> \<not> lt (xs ! (m - 1)) ?P"
  define p1 where "p1 = (if y then m - 1 else m)"
  have p1: "p1 \<le> m" "f + 2 \<le> p1" "m \<le> p1 + 1" using pos by (auto simp: p1_def)
  have q1: "\<not> lt (xs ! k) ?P" if "p1 \<le> k" "k < m" for k
    using that by (cases "k = m - 1") (auto simp: p1_def y_def split: if_splits)
  define z where "z \<longleftrightarrow> \<not> lt (xs ! f) ?P"
  define xs2 where "xs2 = (if z then swap_at xs1 f (p1 - 1) else xs1)"
  define p2 where "p2 = (if z then p1 - 1 else p1)"
  have nth2: "xs2 ! k = (if z \<and> k = p1 - 1 then xs ! f else if z \<and> k = f then xs ! (p1 - 1) else xs1 ! k)" for k
    using pos p1 x1 by (auto simp: xs2_def swap_at_def nth_list_update)
  have w2: "within (i + 1) c xs xs2"
    using within_trans [OF x1(2) within_swap [of "i + 1" f c "p1 - 1"]] x1 pos p1 by (auto simp: xs2_def)
  have xi: "xs1 ! i = ?P" "xs1 ! (m - 1) = xs ! (m - 1)" "xs1 ! f = xs ! f" using x1(3) pos by simp_all
  have "snd (protect lt i f c m m xs) = (p2, m1, xs2)"
    using xi by (cases x; cases y; cases z) (simp_all add: protect_def Let_def x_def xs1_def m1_def y_def p1_def z_def xs2_def p2_def)
  then have eq: "p' = p2" "m' = m1" "ys = xs2" using res by simp_all
  have "\<not> lt ?P (xs2 ! k)" if "i < k" "k < p2" for k
    using that lo [of k] lo [of "p1 - 1"] nth2 [of k] x1(3) [of k] p1 pos by (auto simp: p2_def split: if_splits)
  moreover have "\<not> lt ?P (xs2 ! k) \<and> \<not> lt (xs2 ! k) ?P" if k: "p2 \<le> k" "k < m1" for k
  proof (cases "z \<and> k = p1 - 1")
    case True
    then show ?thesis using nth2 [of k] lo [of f] pos by (simp add: z_def)
  next
    case False
    then have pk: "p1 \<le> k" using k by (auto simp: p2_def split: if_splits)
    then have s: "xs2 ! k = xs1 ! k" using nth2 [of k] False p1 by auto
    show ?thesis
    proof (cases "k < m")
      case True
      then show ?thesis using s x1(3) [of k] q1 [OF pk] lo [of k] pk p1 pos by simp
    next
      case False
      then show ?thesis using s h1 [of k] e1 [of k] k m1 by simp
    qed
  qed
  moreover have "\<not> lt (xs2 ! k) ?P" if "m1 \<le> k" "k < c" for k
    using that h1 [of k] nth2 [of k] m1 p1 pos by auto
  ultimately have "parted lt ?P (i + 1) p2 m1 c xs2" unfolding parted_def by simp
  then show ?thesis unfolding eq using p1 m1 w2 pos by (auto simp: p2_def)
qed

lemma mid_half: "b < c \<Longrightarrow> c < 2 ^ 31 \<Longrightarrow> mid b c = (b + c) div 2"
  using middle_half [of "int b" "int c"] by (simp add: mid_def)

lemma choosePivot_spec:
  assumes "weak_order lt" "12 < c - b" "c \<le> length xs" "c < 2 ^ 31"
  shows "within b c xs (choosePivot lt b c xs) \<and> \<not> lt (choosePivot lt b c xs ! (c - 1)) (choosePivot lt b c xs ! b)"
proof -
  define f where "f = (b + c) div 2"
  define h where "h = (c - b) div 8"
  have f: "mid b c = f" "b < f" "f + 5 < c" using assms(2,4) mid_half [of b c] by (simp_all add: f_def)
  have h: "8 * h \<le> c - b" "f = b + (c - b) div 2" using assms(2) by (simp_all add: h_def f_def)
  have "2 * ((c - b) div 2) \<le> c - b" by simp
  then have fh: "f + h < c" using h assms(2) by linarith
  have "h \<le> (c - b) div 2" by (simp add: h_def div_le_mono2)
  then have hf: "b \<le> f - h" "f - h < c" using h(2) fh by simp_all
  define xs' where "xs' = (if c - b > 40 then medianOfThree lt (c - 1) (c - 1 - h) (c - 1 - 2 * h)
      (medianOfThree lt f (f - h) (f + h) (medianOfThree lt b (b + h) (b + 2 * h) xs)) else xs)"
  have m: "within b c xs (medianOfThree lt i j k ys)"
    if "within b c xs ys" "b \<le> i" "i < c" "b \<le> j" "j < c" "b \<le> k" "k < c" for i j k ys
    using within_trans [OF that(1) median_within [OF that(2-7)]] within_length [OF that(1)] assms(3) by simp
  have w: "within b c xs xs'"
  proof (cases "c - b > 40")
    case True
    have "within b c xs (medianOfThree lt b (b + h) (b + 2 * h) xs)" by (rule m) (use True h in auto)
    then have "within b c xs (medianOfThree lt f (f - h) (f + h) (medianOfThree lt b (b + h) (b + 2 * h) xs))"
      by (rule m) (use fh hf f in auto)
    then have "within b c xs (medianOfThree lt (c - 1) (c - 1 - h) (c - 1 - 2 * h)
        (medianOfThree lt f (f - h) (f + h) (medianOfThree lt b (b + h) (b + 2 * h) xs)))"
      by (rule m) (use True h in auto)
    then show ?thesis using True by (simp add: xs'_def)
  qed (simp add: xs'_def)
  have eq: "choosePivot lt b c xs = medianOfThree lt b f (c - 1) xs'"
    by (simp add: choosePivot_def Let_def f(1) xs'_def h_def)
  have "within b c xs (medianOfThree lt b f (c - 1) xs')" by (rule m [OF w]) (use f in auto)
  moreover have "\<not> lt (medianOfThree lt b f (c - 1) xs' ! (c - 1)) (medianOfThree lt b f (c - 1) xs' ! b)"
    by (rule median_order [OF assms(1)]) (use f assms(2,3) within_length [OF w] in auto)
  ultimately show ?thesis unfolding eq ..
qed

lemma pivot_stage:
  assumes wo: "weak_order lt" and n: "12 < c - b" "c \<le> length xs" "c < 2 ^ 31" and x1: "xs1 = choosePivot lt b c xs"
    and l: "l = skip_less lt b (b + 1) (c - 1) xs1" and pl: "partition_loop lt b l (c - 1) xs1 = (p, m, xs2)"
  shows "p = m \<and> b + 1 \<le> l \<and> l \<le> m \<and> m \<le> c - 1 \<and> within b c xs xs2 \<and> parted lt (xs2 ! b) (b + 1) m m c xs2"
proof -
  let ?P = "xs1 ! b"
  have x1: "within b c xs xs1" "\<not> lt (xs1 ! (c - 1)) ?P" using choosePivot_spec [OF wo n] by (simp_all add: x1)
  have l: "b + 1 \<le> l" "l \<le> c - 1" "\<And>k. b < k \<Longrightarrow> k < l \<Longrightarrow> \<not> lt ?P (xs1 ! k)"
    using skip_less_ge [of "b + 1" lt b "c - 1" xs1] skip_less_spec [of "b + 1" "c - 1" lt b xs1] n(1) weak_order_asym [OF wo]
    unfolding l by auto
  have p2: "p = m" "l \<le> m" "m \<le> c - 1" "within l (c - 1) xs1 xs2"
    "\<And>k. l \<le> k \<Longrightarrow> k < m \<Longrightarrow> \<not> lt ?P (xs2 ! k)" "\<And>k. m \<le> k \<Longrightarrow> k < c - 1 \<Longrightarrow> lt ?P (xs2 ! k)"
    using partition_loop_spec [OF _ l(2) _ pl] l(1) within_length [OF x1(1)] n(2) by auto
  have P2: "xs2 ! b = ?P" using within_other [OF p2(4)] l(1) by simp
  have "within b c xs xs2" using within_trans [OF x1(1) within_mono [OF p2(4)]] l(1) by simp
  moreover have "parted lt ?P (b + 1) m m c xs2"
    unfolding parted_def
  proof (intro conjI allI impI; elim conjE)
    fix k assume "b + 1 \<le> k" "k < m"
    then show "\<not> lt ?P (xs2 ! k)" using p2(5) [of k] l(3) [of k] within_other [OF p2(4), of k] by (cases "k < l") auto
  next
    fix k assume "m \<le> k" "k < c"
    then show "\<not> lt (xs2 ! k) ?P"
      using p2(6) [of k] x1(2) within_other [OF p2(4), of "c - 1"] weak_order_asym [OF wo] by (cases "k = c - 1") auto
  qed auto
  ultimately show ?thesis using p2(1-3) l(1) P2 by simp
qed

lemma protect_stage:
  assumes n: "12 < c - b" "c \<le> length xs" and m: "b < m" "m \<le> c - 1" and part: "parted lt (xs ! b) (b + 1) m m c xs"
    and res: "(if \<not> c - m < 5 \<and> c - m < (c - b) div 4 then protect lt b ((b + c) div 2) c m m xs else (c - m < 5, m, m, xs)) = (u, q, m', ys)"
  shows "b + 1 \<le> q \<and> q \<le> m' \<and> m' \<le> c \<and> within (b + 1) c xs ys \<and> parted lt (xs ! b) (b + 1) q m' c ys"
proof (cases "\<not> c - m < 5 \<and> c - m < (c - b) div 4")
  case True
  let ?f = "(b + c) div 2"
  have "4 * ((c - b) div 4) \<le> c - b" "2 * ?f \<le> b + c" by simp_all
  then have f: "b < ?f" "?f + 3 \<le> m" using True n(1) m(2) by linarith+
  have "protect lt b ?f c m m xs = (u, q, m', ys)" using res True by simp
  moreover have "m < c" using m(2) n(1) by simp
  ultimately show ?thesis using protect_spec [OF f _ n(2) part] f by auto
next
  case False
  then show ?thesis using res part m n(1) by auto
qed

lemma equal_stage:
  assumes "b + 1 \<le> q" "q \<le> m" "m \<le> c" "c \<le> length xs" "b < l" and part: "parted lt (xs ! b) (b + 1) q m c xs"
    and res: "(if u then equal_loop lt b l q xs else (l, q, xs)) = (l', q', ys)"
  shows "b + 1 \<le> q' \<and> q' \<le> q \<and> within (b + 1) q xs ys \<and> parted lt (xs ! b) (b + 1) q' m c ys"
proof -
  have r: "b + 1 \<le> q' \<and> q' \<le> q \<and> within (b + 1) q xs ys \<and> (\<forall>k. q' \<le> k \<and> k < q \<longrightarrow> \<not> lt (ys ! k) (xs ! b))"
  proof (cases "u \<and> l \<le> q")
    case True
    then have "equal_loop lt b l q xs = (l', q', ys)" using res by simp
    from equal_loop_spec [OF assms(5) _ _ this] True assms(2-4)
    show ?thesis using assms(5) within_mono [of l q xs ys "b + 1" q] by auto
  next
    case False
    then have "(l', q', ys) = (l, q, xs)" using res equal_loop_past [of q l lt b xs] by (auto split: if_splits)
    then show ?thesis using assms(1) by auto
  qed
  have low: "\<not> lt (xs ! b) (ys ! k)" if "b + 1 \<le> k" "k < q" for k
    by (rule within_all [of "b + 1" q xs ys]) (use r that part assms(2-4) in \<open>auto simp: parted_def\<close>)
  have high: "ys ! k = xs ! k" if "q \<le> k" for k using within_other [of "b + 1" q xs ys k] r that by blast
  have "parted lt (xs ! b) (b + 1) q' m c ys"
    unfolding parted_def
  proof (intro conjI allI impI; elim conjE)
    fix k assume k: "q' \<le> k" "k < m"
    show "\<not> lt (xs ! b) (ys ! k)" using k low [of k] high [of k] r part by (cases "k < q") (auto simp: parted_def)
    show "\<not> lt (ys ! k) (xs ! b)" using k high [of k] r part by (cases "k < q") (auto simp: parted_def)
  next
    fix k assume "m \<le> k" "k < c"
    then show "\<not> lt (ys ! k) (xs ! b)" using high [of k] part assms(2) by (auto simp: parted_def)
  qed (use low r in auto)
  with r show ?thesis by blast
qed

lemma pivot_in_place:
  assumes wo: "weak_order lt" and q: "b + 1 \<le> q" "q \<le> m" "m \<le> c" "c \<le> length xs" "b < c"
    and part: "parted lt (xs ! b) (b + 1) q m c xs" and ys: "ys = swap_at xs b (q - 1)"
  shows "ys ! (q - 1) = xs ! b \<and> parted lt (xs ! b) b (q - 1) m c ys \<and> within b c xs ys"
proof -
  have y: "ys ! k = (if k = q - 1 then xs ! b else if k = b then xs ! (q - 1) else xs ! k)" if "k < c" for k
    using that q unfolding ys by (simp add: swap_at_nth)
  have irr: "\<not> lt (xs ! b) (xs ! b)" by (rule weak_order_irrefl [OF wo])
  have "parted lt (xs ! b) b (q - 1) m c ys"
    unfolding parted_def
  proof (intro conjI allI impI; elim conjE)
    fix k assume k: "b \<le> k" "k < q - 1"
    then have "\<not> lt (xs ! b) (xs ! k)" "\<not> lt (xs ! b) (xs ! (q - 1))" if "k \<noteq> b \<or> q - 1 \<noteq> b"
      using part irr that by (cases "k = b"; auto simp: parted_def)+
    then show "\<not> lt (xs ! b) (ys ! k)" using k y [of k] q by auto
  next
    fix k assume k: "q - 1 \<le> k" "k < m"
    show "\<not> lt (xs ! b) (ys ! k)" "\<not> lt (ys ! k) (xs ! b)"
      using k y [of k] q part irr by (cases "k = q - 1"; auto simp: parted_def)+
  next
    fix k assume "m \<le> k" "k < c"
    then show "\<not> lt (ys ! k) (xs ! b)" using y [of k] q part by (auto simp: parted_def)
  qed
  moreover have "within b c xs ys" unfolding ys by (rule within_swap) (use q in auto)
  ultimately show ?thesis using y [of "q - 1"] q by auto
qed

lemma doPivot_spec:
  assumes wo: "weak_order lt" and n: "12 < c - b" "c \<le> length xs" "c < 2 ^ 31" and res: "doPivot lt b c xs = (g, h, ys)"
  shows "b \<le> g \<and> g < h \<and> h \<le> c \<and> within b c xs ys \<and> parted lt (ys ! g) b g h c ys"
proof -
  have f: "mid b c = (b + c) div 2" using n mid_half [of b c] by simp
  define xs1 where "xs1 = choosePivot lt b c xs"
  define l where "l = skip_less lt b (b + 1) (c - 1) xs1"
  obtain p m xs2 where pl: "partition_loop lt b l (c - 1) xs1 = (p, m, xs2)" by (cases "partition_loop lt b l (c - 1) xs1")
  from pivot_stage [OF wo n xs1_def l_def pl]
  have s1: "p = m" "b + 1 \<le> l" "l \<le> m" "m \<le> c - 1" "within b c xs xs2" "parted lt (xs2 ! b) (b + 1) m m c xs2" by blast+
  have len2: "c \<le> length xs2" using within_length [OF s1(5)] n(2) by simp
  obtain u q m' xs3 where r3: "(if \<not> c - m < 5 \<and> c - m < (c - b) div 4 then protect lt b ((b + c) div 2) c m m xs2
      else (c - m < 5, m, m, xs2)) = (u, q, m', xs3)" using prod_cases4 by blast
  from protect_stage [OF n(1) len2 _ s1(4,6) r3] s1(2,3)
  have s2: "b + 1 \<le> q" "q \<le> m'" "m' \<le> c" "within (b + 1) c xs2 xs3" "parted lt (xs2 ! b) (b + 1) q m' c xs3" by auto
  have P3: "xs3 ! b = xs2 ! b" using within_other [OF s2(4)] by simp
  have len3: "c \<le> length xs3" using within_length [OF s2(4)] len2 by simp
  obtain l4 q4 xs4 where r4: "(if u then equal_loop lt b l q xs3 else (l, q, xs3)) = (l4, q4, xs4)" using prod_cases3 by blast
  from equal_stage [OF s2(1-3) len3 _ _ r4] s1(2) s2(5) P3
  have s3: "b + 1 \<le> q4" "q4 \<le> q" "within (b + 1) q xs3 xs4" "parted lt (xs2 ! b) (b + 1) q4 m' c xs4" by auto
  have P4: "xs4 ! b = xs2 ! b" using within_other [OF s3(3)] P3 by simp
  have len4: "c \<le> length xs4" using within_length [OF s3(3)] len3 by simp
  have "doPivot lt b c xs = (q4 - 1, m', swap_at xs4 b (q4 - 1))"
    by (simp only: doPivot_def Let_def f xs1_def [symmetric] l_def [symmetric] pl prod.case s1(1) r3 r4)
  then have out: "g = q4 - 1" "h = m'" "ys = swap_at xs4 b (q4 - 1)" using res by simp_all
  have "q4 \<le> m'" "b < c" using s3(2) s2(2) n(1) by simp_all
  from pivot_in_place [OF wo s3(1) this(1) s2(3) len4 this(2) _ out(3)] s3(4) P4
  have s4: "ys ! g = xs2 ! b" "parted lt (xs2 ! b) b g h c ys" "within b c xs4 ys" using out(1,2) by auto
  have "within b c xs2 xs3" "within b c xs3 xs4" using within_mono [OF s2(4)] within_mono [OF s3(3)] s2(2,3) by simp_all
  then have "within b c xs ys" using s1(5) s4(3) within_trans by blast
  then show ?thesis using s4 out s3(1,2) s2(2,3) by auto
qed

section \<open>Short ranges\<close>

lemma shell_pos_within:
  assumes "c \<le> length xs"
  shows "within b c xs (shell_pos lt b c xs)"
proof -
  have "within b c xs (fold (\<lambda>i xs. if lt (xs ! i) (xs ! (i - 6)) then swap_at xs i (i - 6) else xs) is ys)"
    if "within b c xs ys" "\<forall>i \<in> set is. b + 6 \<le> i \<and> i < c" for "is" ys
    using that
  proof (induction "is" arbitrary: ys)
    case (Cons i "is")
    have "within b c ys (swap_at ys i (i - 6))"
      by (rule within_swap) (use Cons.prems(2) within_length [OF Cons.prems(1)] assms in auto)
    then show ?case using Cons by (auto intro: within_trans)
  qed simp
  then show ?thesis unfolding shell_pos_def by simp
qed

text \<open>The insertion sort of a range, from that of a whole list.\<close>

lemma insert_down_shift:
  "insert_down lt (length us) (length us + e) (us @ xs) = us @ insert_down lt 0 e xs" if "e < length xs"
  using that
proof (induction e arbitrary: xs)
  case 0
  then show ?case by (simp add: insert_down.simps)
next
  case (Suc e)
  have "swap_at (us @ xs) (length us + Suc e) (length us + e) = us @ swap_at xs (Suc e) e"
    by (simp add: swap_at_def nth_append list_update_append)
  then show ?case using Suc
    by (subst (1 2) insert_down.simps) (simp add: nth_append)
qed

lemma insert_down_length [simp]: "length (insert_down lt b e xs) = length xs"
proof (induction lt b e xs rule: insert_down.induct)
  case (1 lt b e xs)
  then show ?case by (subst insert_down.simps) simp
qed

lemma insertionSort_shift:
  "c \<le> length xs \<Longrightarrow> insertionSort lt (length us) (length us + d) (length us + c) (us @ xs) = us @ insertionSort lt 0 d c xs"
proof (induction "c - d" arbitrary: d xs)
  case 0
  then show ?case by (simp add: insertionSort.simps)
next
  case (Suc n)
  then have "d < c" "n = c - Suc d" by simp_all
  then show ?case
    using Suc(1) [of "Suc d" "insert_down lt 0 d xs"] Suc.prems insert_down_shift [of d xs lt us]
    by (subst (1 2) insertionSort.simps) simp
qed

lemma insertionSort_append:
  "insertionSort lt 0 (length ys) (length ys + length zs) (ys @ zs @ vs) =
   insertionSort lt 0 (length ys) (length ys + length zs) (ys @ zs) @ vs"
proof (induction zs arbitrary: ys)
  case Nil
  then show ?case by (simp add: insertionSort.simps)
next
  case (Cons x zs)
  have len: "length (place lt x ys) = Suc (length ys)" using place_mset [of lt x ys] by (metis size_mset size_add_mset)
  have "insertionSort lt 0 (length ys) (length ys + length (x # zs)) (ys @ x # ws) =
      insertionSort lt 0 (length (place lt x ys)) (length (place lt x ys) + length zs) (place lt x ys @ ws)" for ws
    by (subst insertionSort.simps) (simp add: insert_down_place len)
  then show ?case using Cons.IH [of "place lt x ys"] by simp
qed

lemma insertionSort_range:
  assumes "weak_order lt" "b < c" "c \<le> length xs"
  shows "sorted_on lt b c (insertionSort lt b (b + 1) c xs) \<and> within b c xs (insertionSort lt b (b + 1) c xs)"
proof -
  define us ws vs where "us = take b xs" and "ws = take (c - b) (drop b xs)" and "vs = drop c xs"
  have len: "length us = b" "length ws = c - b" using assms(2,3) by (simp_all add: us_def ws_def)
  have "ws @ vs = drop b xs" using append_take_drop_id [of "c - b" "drop b xs"] assms(2) by (simp add: ws_def vs_def)
  then have xs: "xs = us @ ws @ vs" by (simp add: us_def)
  obtain x zs where w: "ws = x # zs" using len(2) assms(2) by (cases ws) auto
  let ?r = "insertionSort lt 0 1 (length ws) ws"
  have r: "mset ?r = mset ws" "sorted_by lt ?r" using insertionSort_prefix [OF assms(1), of "[x]" zs] by (simp_all add: w)
  have lr: "length ?r = c - b" using mset_eq_length [OF r(1)] len(2) by simp
  have "insertionSort lt b (b + 1) c xs = us @ insertionSort lt 0 1 (c - b) (ws @ vs)"
    using insertionSort_shift [of "c - b" "ws @ vs" lt us 1] len assms(2) by (simp add: xs)
  also have "insertionSort lt 0 1 (c - b) (ws @ vs) = ?r @ vs"
    using insertionSort_append [of lt "[x]" zs vs] len(2) by (simp add: w)
  finally have eq: "insertionSort lt b (b + 1) c xs = us @ ?r @ vs" .
  have "sorted_on lt b c (us @ ?r @ vs)"
    unfolding sorted_on_def
  proof (intro allI impI; elim conjE)
    fix i j assume a: "b \<le> i" "i < j" "j < c"
    then have "\<not> lt (?r ! (j - b)) (?r ! (i - b))" using r(2) lr by (simp add: sorted_wrt_iff_nth_less)
    moreover have "i - b < c - b" "j - b < c - b" using a by linarith+
    ultimately show "\<not> lt ((us @ ?r @ vs) ! j) ((us @ ?r @ vs) ! i)" using a lr len(1) by (simp add: nth_append)
  qed
  moreover have "within b c xs (us @ ?r @ vs)"
    unfolding within_def
  proof (intro conjI allI impI)
    show "length (us @ ?r @ vs) = length xs" using lr len(2) by (simp add: xs)
    show "mset (us @ ?r @ vs) = mset xs" using r(1) by (simp add: xs)
    fix i assume "i < b \<or> c \<le> i"
    then show "(us @ ?r @ vs) ! i = xs ! i" using lr len assms(2) unfolding xs by (auto simp: nth_append)
  qed
  ultimately show ?thesis unfolding eq ..
qed

lemma small_sort_spec:
  assumes "weak_order lt" "b \<le> c" "c \<le> length xs" "length xs < 2 ^ 30"
  shows "\<exists>ys. small_sort lt b c xs = Some (Inr ys) \<and> sorted_on lt b c ys \<and> within b c xs ys"
proof (cases "c - b > 1")
  case True
  have "shell_pass lt (int b) (int c) xs = Some (Inr (shell_pos lt b c xs))" using assms by (intro shell_pass_pos) simp_all
  then show ?thesis
    using insertionSort_range [OF assms(1), of b c "shell_pos lt b c xs"] shell_pos_within [OF assms(3), of b lt] assms(3) True
    by (auto simp: small_sort_def within_length intro: within_trans)
qed (auto simp: small_sort_def sorted_on_def)

section \<open>Quicksort\<close>

lemma sorted_parts:
  assumes wo: "weak_order lt" and part: "parted lt P b g h c xs" and g: "sorted_on lt b g xs" and h: "sorted_on lt h c xs" and "g < h"
  shows "sorted_on lt b c xs"
  unfolding sorted_on_def
proof (intro allI impI; elim conjE)
  fix i j assume a: "b \<le> i" "i < j" "j < c"
  have left: "\<not> lt P (xs ! i)" if "i < h" using part that a(1) unfolding parted_def by (metis not_less)
  have right: "\<not> lt (xs ! j) P" if "g \<le> j" using part that a unfolding parted_def by (metis not_less)
  show "\<not> lt (xs ! j) (xs ! i)"
  proof (cases "j < g \<or> h \<le> i")
    case True
    then show ?thesis using g h a unfolding sorted_on_def by blast
  next
    case False
    then show ?thesis using left right weak_order_trans [OF wo] by (meson not_less)
  qed
qed

lemma parted_within:
  assumes "parted lt P b g h c xs" "within b g xs ys \<or> within h c xs ys" "g \<le> h" "g \<le> length xs" "c \<le> length xs"
  shows "parted lt P b g h c ys"
  using assms(2)
proof
  assume w: "within b g xs ys"
  have "\<not> lt P (ys ! k)" if "b \<le> k" "k < g" for k
    by (rule within_all [OF w assms(4)]) (use that assms(1) in \<open>auto simp: parted_def\<close>)
  moreover have "ys ! k = xs ! k" if "g \<le> k" for k using within_other [OF w] that by simp
  ultimately show ?thesis using assms(1,3) unfolding parted_def by simp
next
  assume w: "within h c xs ys"
  have "\<not> lt (ys ! k) P" if "h \<le> k" "k < c" for k
    by (rule within_all [OF w assms(5)]) (use that assms(1) in \<open>auto simp: parted_def\<close>)
  moreover have "ys ! k = xs ! k" if "k < h" for k using within_other [OF w] that by simp
  ultimately show ?thesis using assms(1,3) unfolding parted_def by simp
qed

text \<open>The two orders in which the parts are sorted.\<close>

lemma sort_parts:
  assumes wo: "weak_order lt" and part: "parted lt P b g h c xs" and pos: "b \<le> g" "g < h" "h \<le> c" "c \<le> length xs"
    and first: "within b g xs ys \<and> sorted_on lt b g ys \<and> within h c ys zs \<and> sorted_on lt h c zs \<or>
      within h c xs ys \<and> sorted_on lt h c ys \<and> within b g ys zs \<and> sorted_on lt b g zs"
  shows "sorted_on lt b c zs \<and> within b c xs zs"
proof -
  have len: "length ys = length xs" using first within_length by blast
  have "parted lt P b g h c ys" using parted_within [OF part, of ys] first pos by auto
  then have p: "parted lt P b g h c zs" using parted_within [of lt P b g h c ys zs] first pos len by auto
  have "sorted_on lt b g zs \<and> sorted_on lt h c zs"
    using first
  proof (elim disjE conjE)
    assume "sorted_on lt b g ys" "within h c ys zs" "sorted_on lt h c zs"
    then show ?thesis using pos within_other [of h c ys zs] by (simp add: sorted_on_def)
  next
    assume "sorted_on lt h c ys" "within b g ys zs" "sorted_on lt b g zs"
    then show ?thesis using pos within_other [of b g ys zs] by (simp add: sorted_on_def)
  qed
  then have "sorted_on lt b c zs" using sorted_parts [OF wo p] pos(2) by blast
  moreover have "within b g us vs \<or> within h c us vs \<Longrightarrow> within b c us vs" for us vs
    using within_mono [of b g us vs b c] within_mono [of h c us vs b c] pos by auto
  then have "within b c xs ys \<and> within b c ys zs" using first by blast
  ultimately show ?thesis using within_trans by blast
qed

lemma quickSort_spec:
  assumes wo: "weak_order lt"
  shows "b \<le> c \<Longrightarrow> c \<le> length xs \<Longrightarrow> length xs < 2 ^ 30 \<Longrightarrow>
    \<exists>ys. quickSort lt d b c xs = Some (Inr ys) \<and> sorted_on lt b c ys \<and> within b c xs ys"
proof (induction d arbitrary: b c xs)
  case 0
  have "heapSort lt (int b) (int c) xs = Some (Inr (heap_pos lt b c xs))" if "c - b > 12"
    using 0 that by (intro heapSort_pos) simp_all
  then show ?case using heap_pos_spec [OF wo 0(1,2)] small_sort_spec [OF wo 0] by auto
next
  case (Suc d)
  show ?case
  proof (cases "c - b > 12")
    case False
    then show ?thesis using small_sort_spec [OF wo Suc.prems] by simp
  next
    case True
    obtain g h ys where r: "doPivot lt b c xs = (g, h, ys)" by (cases "doPivot lt b c xs")
    have p: "b \<le> g" "g < h" "h \<le> c" "within b c xs ys" "parted lt (ys ! g) b g h c ys"
      using doPivot_spec [OF wo True Suc.prems(2) _ r] Suc.prems by simp_all
    have ly: "length ys = length xs" using within_length [OF p(4)] .
    have left: "\<exists>us. quickSort lt d b g zs = Some (Inr us) \<and> sorted_on lt b g us \<and> within b g zs us" if "length zs = length xs" for zs
      using Suc.IH [of b g zs] p(1-3) Suc.prems that by simp
    have right: "\<exists>us. quickSort lt d h c zs = Some (Inr us) \<and> sorted_on lt h c us \<and> within h c zs us" if "length zs = length xs" for zs
      using Suc.IH [of h c zs] p(1-3) Suc.prems that by simp
    note sp = sort_parts [OF wo p(5,1-3)]
    have "\<exists>zs. quickSort lt (Suc d) b c xs = Some (Inr zs) \<and> sorted_on lt b c zs \<and> within b c ys zs"
    proof (cases "g - b < c - h")
      case less: True
      obtain us where us: "quickSort lt d b g ys = Some (Inr us)" "sorted_on lt b g us" "within b g ys us" using left [OF ly] by blast
      obtain zs where zs: "quickSort lt d h c us = Some (Inr zs)" "sorted_on lt h c zs" "within h c us zs"
        using right [of us] within_length [OF us(3)] ly by auto
      have "quickSort lt (Suc d) b c xs = Some (Inr zs)" using True less us(1) zs(1) by (simp add: r)
      moreover have "sorted_on lt b c zs \<and> within b c ys zs"
        by (rule sp [where ys = us]) (use us zs ly Suc.prems(2) in simp_all)
      ultimately show ?thesis by blast
    next
      case ge: False
      obtain us where us: "quickSort lt d h c ys = Some (Inr us)" "sorted_on lt h c us" "within h c ys us" using right [OF ly] by blast
      obtain zs where zs: "quickSort lt d b g us = Some (Inr zs)" "sorted_on lt b g zs" "within b g us zs"
        using left [of us] within_length [OF us(3)] ly by auto
      have "quickSort lt (Suc d) b c xs = Some (Inr zs)" using True ge us(1) zs(1) by (simp add: r)
      moreover have "sorted_on lt b c zs \<and> within b c ys zs"
        by (rule sp [where ys = us]) (use us zs ly Suc.prems(2) in simp_all)
      ultimately show ?thesis by blast
    qed
    then show ?thesis using within_trans [OF p(4)] by blast
  qed
qed

text \<open>
  C18: \<open>sort.Sort\<close> sorts: for every slice of fewer than \<open>2 ^ 30\<close> elements and every strict weak order it terminates, without an
  index out of range, with a permutation of the elements in ascending order, through the pivots, the fat partitions, the heap
  sort of a range that divides badly and the short ranges.  (From \<open>2 ^ 30\<close> elements on the child's position in \<open>siftDown\<close>
  may wrap.)
\<close>

theorem Sort_sorts:
  assumes "weak_order lt" "length xs < 2 ^ 30"
  shows "\<exists>ys. sort_Sort lt xs = Some (Inr ys) \<and> mset ys = mset xs \<and> sorted_by lt ys"
proof -
  obtain ys where "sort_Sort lt xs = Some (Inr ys)" "sorted_on lt 0 (length xs) ys" "within 0 (length xs) xs ys"
    using quickSort_spec [OF assms(1), of 0 "length xs" xs] assms(2) unfolding sort_Sort_def by auto
  then show ?thesis by (auto simp: within_def sorted_on_def sorted_wrt_iff_nth_less)
qed

text \<open>With \<open>2 ^ 30\<close> elements under a node the position of its child wraps, and the access to it panics.\<close>

lemma siftDown_wraps: "siftDown lt 1073741824 c 0 xs = Some (Inl (RuntimeError ''index out of range''))" if "0 < c"
proof -
  have "js_sar (js_imul 2 1073741824 + 1) 0 = - 2147483647" by code_simp
  moreover have "js_sar (- 2147483647 + 1) 0 = - 2147483646" by code_simp
  moreover have "js_sar (0 + - 2147483647) 0 = - 2147483647" "js_sar (- 2147483647 + 1) 0 = - 2147483646" by code_simp+
  ultimately show ?thesis using that by (subst siftDown.simps) (simp add: less_at_def js_index_def Let_def)
qed

lemma weak_order_string_less: "weak_order string_less"
proof -
  have "string_less x y \<Longrightarrow> \<not> string_less y x" for x y by (induction x y rule: string_less.induct) auto
  moreover have "string_less x z \<Longrightarrow> string_less x y \<or> string_less y z" for x y z
  proof (induction x z arbitrary: y rule: string_less.induct)
    case (2 a as y)
    then show ?case by (cases y) auto
  next
    case (3 a as b bs y)
    then show ?case by (cases y) force+
  qed simp
  ultimately show ?thesis unfolding weak_order_def by blast
qed

theorem Sort_sorts_witness:
  "\<exists>ys. sort_Sort string_less [[98], [97, 97], [97], []] = Some (Inr ys) \<and>
    mset ys = mset [[98], [97, 97], [97], []] \<and> sorted_by string_less ys"
  by (rule Sort_sorts [OF weak_order_string_less]) simp

end
