(* ===== verification/Math_Rand.thy ===== *)
theory Math_Rand
  imports Js_Bits
begin

text \<open>
  Package \<open>math/rand\<close>: the generator that seeds the source, and the bounded numbers \<open>Int31n\<close>.  The source a bounded number is
  drawn from is an argument: \<open>Int31\<close> takes a state to a number and the next state.
\<close>

text \<open>\<open>seedrand\<close>: \<open>x[n+1] = 48271 * x[n] mod (2^31 - 1)\<close>, computed without overflow of a 32-bit number.\<close>

definition seedrand :: "int \<Rightarrow> int" where
  "seedrand a =
     (let c = js_sar (tdiv a 44488) 0; e = tmod a 44488;
          a = js_sar (js_imul 48271 e - js_imul 3399 c) 0
      in if a < 0 then js_sar (a + 2147483647) 0 else a)"

text \<open>\<open>Int31n\<close>; the loop that draws again while the number is above \<open>e\<close>.\<close>

partial_function (option) draw_again :: "('s \<Rightarrow> int \<times> 's) \<Rightarrow> int \<Rightarrow> int \<Rightarrow> 's \<Rightarrow> (int \<times> 's) option" where
  "draw_again src e g s = (if g > e then (let (h, s') = src s in draw_again src e h s') else Some (g, s))"

definition draw_limit :: "int \<Rightarrow> int" where
  "draw_limit a = js_sar (js_shr (2147483647 - 2147483648 mod js_shr a 0) 0) 0"

definition Int31n :: "('s \<Rightarrow> int \<times> 's) \<Rightarrow> int \<Rightarrow> 's \<Rightarrow> (int \<times> 's) res option" where
  "Int31n src a s =
     (if a \<le> 0 then Some (Inl (Panic ''invalid argument to Int31n''))
      else if js_and a (js_sar (a - 1) 0) = 0 then (let (c, s') = src s in Some (Inr (js_and c (js_sar (a - 1) 0), s')))
      else (let (f, s') = src s in
        case draw_again src (draw_limit a) f s' of None \<Rightarrow> None | Some (g, s'') \<Rightarrow> Some (Inr (tmod g a, s''))))"

lemma seedrand_mod:
  assumes "0 < x" "x < 2147483647"
  shows "seedrand x = 48271 * x mod 2147483647" "0 < seedrand x" "seedrand x < 2147483647"
proof -
  define c e where "c = x div 44488" and "e = x mod 44488"
  have x: "x = 44488 * c + e" and e: "0 \<le> e" "e < 44488" and c: "0 \<le> c" "c \<le> 48271"
    using assms by (simp_all add: c_def e_def) 
  define y where "y = 48271 * e - 3399 * c"
  have y: "-2147483647 < y" "y < 2147483647" using e c by (simp_all add: y_def)
  have s: "seedrand x = (if y < 0 then y + 2147483647 else y)"
  proof -
    have "tdiv x 44488 = c" "tmod x 44488 = e" using assms by (simp_all add: tdiv_def tmod_def c_def e_def)
    moreover have "js_imul 48271 e = 48271 * e" "js_imul 3399 c = 3399 * c" "js_sar c 0 = c"
      using e c by (simp_all add: js_imul_def js_sar_eq ToInt32_id)
    moreover have "js_sar y 0 = y" "y < 0 \<Longrightarrow> js_sar (y + 2147483647) 0 = y + 2147483647" using y by (simp_all add: js_sar_eq ToInt32_id)
    ultimately show ?thesis by (simp add: seedrand_def Let_def y_def [symmetric])
  qed
  have eq: "48271 * x = y + c * 2147483647" by (simp add: x y_def)
  then have m: "48271 * x mod 2147483647 = y mod 2147483647" by simp
  have "y mod 2147483647 = (if y < 0 then y + 2147483647 else y)"
  proof (cases "y < 0")
    case True
    have "y mod 2147483647 = (y + 2147483647) mod 2147483647" by simp
    also have "\<dots> = y + 2147483647" using True y by (intro mod_pos_pos_trivial) simp_all
    finally show ?thesis using True by simp
  qed (use y in simp)
  then show "seedrand x = 48271 * x mod 2147483647" using s m by simp
  have "y \<noteq> 0"
  proof
    assume "y = 0"
    then have "2147483647 dvd 48271 * x" using eq by simp
    moreover have "coprime 2147483647 (48271 :: int)" by (simp add: coprime_iff_gcd_eq_1 gcd_non_0_int)
    ultimately have "2147483647 dvd x" by (simp add: coprime_dvd_mult_right_iff)
    then show False using assms zdvd_imp_le by force
  qed
  then show "0 < seedrand x" "seedrand x < 2147483647" using s y by auto
qed

text \<open>
  The numbers up to \<open>draw_limit n\<close> are as many for every remainder modulo \<open>n\<close>, and at least half of the numbers the
  source draws from.
\<close>

lemma draw_limit_fair:
  assumes "0 < n" "n < 2 ^ 31"
  shows "n dvd draw_limit n + 1" "0 \<le> draw_limit n" "draw_limit n < 2 ^ 31" "2 ^ 30 \<le> draw_limit n + 1"
proof -
  let ?r = "2147483648 mod n"
  have r: "0 \<le> ?r" "?r < n" using assms by simp_all
  have b: "js_shr n 0 = n" using assms by (simp add: js_shr_0)
  have q: "2147483648 = n * (2147483648 div n) + ?r" by (rule mult_div_mod_eq [symmetric])
  have "1 \<le> 2147483648 div n" using assms pos_imp_zdiv_pos_iff [of n 2147483648] by simp
  then have "n * 1 \<le> n * (2147483648 div n)" using assms(1) by (intro mult_left_mono) simp_all
  with q r have "2 * ?r < 2147483648" by linarith
  then have half: "?r < 2 ^ 30" by simp
  then have d: "0 \<le> 2147483647 - ?r" "2147483647 - ?r < 2 ^ 31" using r by simp_all
  then have l: "draw_limit n = 2147483647 - ?r"
    unfolding draw_limit_def b using js_shr_0 [of "2147483647 - ?r"] mod_pos_pos_trivial [OF d(1), of "2 ^ 32"]
    by (simp add: js_sar_eq ToInt32_id)
  have "2147483648 - ?r = n * (2147483648 div n)" by (simp add: minus_mod_eq_mult_div)
  then show "n dvd draw_limit n + 1" by (simp add: l)
  show "0 \<le> draw_limit n" "draw_limit n < 2 ^ 31" "2 ^ 30 \<le> draw_limit n + 1" using half r by (simp_all add: l)
qed

lemma draw_again_result:
  assumes "draw_again src e g s = Some y" "\<forall>s. 0 \<le> fst (src s)" "0 \<le> g"
  shows "0 \<le> fst y \<and> fst y \<le> e"
proof -
  let ?P = "\<lambda>src e g s y. (\<forall>s. 0 \<le> fst (src s :: int \<times> 'a)) \<longrightarrow> 0 \<le> (g :: int) \<longrightarrow> 0 \<le> fst (y :: int \<times> 'a) \<and> fst y \<le> (e :: int)"
  have "?P src e g s y"
  proof (rule draw_again.raw_induct [of ?P, OF _ assms(1)])
    fix f src e g s y
    assume IH: "\<And>src e g s y. f src e g s = Some y \<Longrightarrow> ?P src e g s y"
      and y: "(if g > e then (let (h, s') = src s in f src e h s') else Some (g, s)) = Some y"
    show "?P src e g s y"
    proof (intro impI)
      assume p: "\<forall>s. 0 \<le> fst (src s)" "0 \<le> g"
      obtain h s' where h: "src s = (h, s')" by fastforce
      then have "0 \<le> h" using p(1) [rule_format, of s] by simp
      then show "0 \<le> fst y \<and> fst y \<le> e" using y IH [of src e h s' y] p h by (auto split: if_splits)
    qed
  qed
  then show ?thesis using assms(2,3) by blast
qed

lemma Int31n_range:
  assumes src: "\<forall>s. 0 \<le> fst (src s) \<and> fst (src s) < 2 ^ 31" and n: "0 < n" "n < 2 ^ 31" and r: "Int31n src n s = Some (Inr (r, s'))"
  shows "0 \<le> r \<and> r < n"
proof (cases "js_and n (js_sar (n - 1) 0) = 0")
  case True
  obtain c s2 where c: "src s = (c, s2)" by fastforce
  have "0 \<le> c" "c < 2 ^ 31" using src [rule_format, of s] c by simp_all
  moreover have "r = js_and c (js_sar (n - 1) 0)" using r True n c by (auto simp: Int31n_def)
  ultimately have "r = c AND (n - 1)" using n by (simp add: js_and_def js_sar_eq ToInt32_id)
  then show ?thesis using n AND_upper2 [of "n - 1" c] by simp
next
  case False
  obtain f s2 where f: "src s = (f, s2)" by fastforce
  then obtain g where g: "draw_again src (draw_limit n) f s2 = Some (g, s')" "r = tmod g n"
    using r False n by (auto simp: Int31n_def split: option.splits)
  have "0 \<le> f" using src [rule_format, of s] f by simp
  then have "0 \<le> g" using draw_again_result [OF g(1)] src by simp
  then show ?thesis using g(2) n by (cases "g = 0") (simp_all add: tmod_def)
qed

end
