(* ===== verification/Smux_Session.thy ===== *)
theory Smux_Session
  imports Smux_Copy Sync_Atomic "HOL-Library.AList"
begin

text \<open>
  The session of smux (type \<open>AC\<close> of the bundle's smux line): the table of streams, the ids of new streams, the
  queue of streams to accept, the bucket that bounds the unread data, the receive loop and the keep-alive.
  Goroutines switch only where one blocks, so a method is modelled by its sections between two blocking points.
  The sections under \<open>streamLock\<close> do not block, except the one in which \<open>recvLoop\<close> offers a new stream to
  \<open>chAccepts\<close>: while it waits there the lock is taken.
\<close>

section \<open>State\<close>

text \<open>
  Where \<open>recvLoop\<close> stands: at the head of its loop, waiting for tokens, waiting for the 8 bytes of a header, for
  the payload of stream \<open>i\<close> or for a window update, offering the stream object \<open>h\<close> to a full \<open>chAccepts\<close> (with
  \<open>streamLock\<close> taken), or returned.
\<close>

datatype recv_phase = AtTop | AwaitBucket | AwaitHeader | AwaitPayload int int | AwaitUpdate int | Accepting nat | Ended

text \<open>
  Streams are shared objects: \<open>objs\<close> holds them and a number refers to one; \<open>streams\<close> is the map from ids to
  references.  An error slot is \<open>Some\<close> once its \<open>notify\<close> method has stored the error and closed its channel;
  \<open>bucketNotify\<close> tells whether that one-place channel holds its token.
\<close>

record session =
  nextStreamID :: int
  goAway :: int
  objs :: "stream list"
  streams :: "(int \<times> nat) list"
  bucket :: int
  bucketNotify :: bool
  chAccepts :: "nat list"
  ss_die :: bool
  socketReadError :: "go_error option"
  socketWriteError :: "go_error option"
  protoError :: "go_error option"
  dataReady :: int
  recv_at :: recv_phase

definition newSession :: "config \<Rightarrow> bool \<Rightarrow> session" where
  "newSession cf client = \<lparr>nextStreamID = (if client then 1 else 0), goAway = 0, objs = [], streams = [],
     bucket = js_sar (MaxReceiveBuffer cf) 0, bucketNotify = False, chAccepts = [], ss_die = False,
     socketReadError = None, socketWriteError = None, protoError = None, dataReady = 0, recv_at = AtTop\<rparr>"

definition notifyBucket :: "session \<Rightarrow> session" where
  "notifyBucket s = s\<lparr>bucketNotify := True\<rparr>"

text \<open>The three error slots, each written once.\<close>

definition notifyReadError :: "go_error \<Rightarrow> session \<Rightarrow> session" where
  "notifyReadError e s = (if socketReadError s = None then s\<lparr>socketReadError := Some e\<rparr> else s)"

definition notifyWriteError :: "go_error \<Rightarrow> session \<Rightarrow> session" where
  "notifyWriteError e s = (if socketWriteError s = None then s\<lparr>socketWriteError := Some e\<rparr> else s)"

definition notifyProtoError :: "go_error \<Rightarrow> session \<Rightarrow> session" where
  "notifyProtoError e s = (if protoError s = None then s\<lparr>protoError := Some e\<rparr> else s)"

definition IsClosed :: "session \<Rightarrow> bool" where "IsClosed s = ss_die s"

definition NumStreams :: "session \<Rightarrow> int" where
  "NumStreams s = (if IsClosed s then 0 else int (length (streams s)))"

section \<open>Opening and accepting streams\<close>

text \<open>
  \<open>OpenStream\<close> up to \<open>writeFrame\<close>: an error or the id of the new stream.  After the SYN frame is written, the
  section under \<open>streamLock\<close> answers the event \<open>$select\<close> picks; its default needs all channels open.
\<close>

definition OpenStream_begin :: "session \<Rightarrow> (go_error + int) \<times> session" where
  "OpenStream_begin s =
     (if IsClosed s then (Inl ErrClosedPipe, s)
      else if goAway s > 0 then (Inl ErrGoAway, s)
      else let b = js_shr (nextStreamID s + 2) 0; s = s\<lparr>nextStreamID := b\<rparr>
           in if b = b mod 2 then (Inl ErrGoAway, s\<lparr>goAway := 1\<rparr>) else (Inr b, s))"

datatype open_event = OpenReadError | OpenWriteError | OpenDie | OpenDefault

definition new_stream :: "config \<Rightarrow> int \<Rightarrow> session \<Rightarrow> session" where
  "new_stream cf i s = s\<lparr>objs := objs s @ [newStream i (MaxFrameSize cf)], streams := AList.update i (length (objs s)) (streams s)\<rparr>"

definition OpenStream_end :: "config \<Rightarrow> open_event \<Rightarrow> int \<Rightarrow> session \<Rightarrow> ((go_error + nat) \<times> session) option" where
  "OpenStream_end cf ev i s = (case ev of
       OpenReadError \<Rightarrow> map_option (\<lambda>e. (Inl e, s)) (socketReadError s)
     | OpenWriteError \<Rightarrow> map_option (\<lambda>e. (Inl e, s)) (socketWriteError s)
     | OpenDie \<Rightarrow> if ss_die s then Some (Inl ErrClosedPipe, s) else None
     | OpenDefault \<Rightarrow> if socketReadError s = None \<and> socketWriteError s = None \<and> \<not> ss_die s
                      then Some (Inr (length (objs s)), new_stream cf i s) else None)"

text \<open>
  \<open>AcceptStream\<close>, for the event its \<open>$select\<close> picks.  Taking a stream from a full channel lets in the one that
  \<open>recvLoop\<close> offers.
\<close>

datatype accept_event = AcceptReady | AcceptDeadline | AcceptReadError | AcceptProtoError | AcceptDie

definition AcceptStream :: "accept_event \<Rightarrow> session \<Rightarrow> ((go_error + nat) \<times> session) option" where
  "AcceptStream ev s = (case ev of
       AcceptReady \<Rightarrow>
         (case chAccepts s of
            [] \<Rightarrow> None
          | h # hs \<Rightarrow> Some (Inr h, case recv_at s of Accepting h' \<Rightarrow> s\<lparr>chAccepts := hs @ [h'], recv_at := AtTop\<rparr>
                                 | _ \<Rightarrow> s\<lparr>chAccepts := hs\<rparr>))
     | AcceptDeadline \<Rightarrow> Some (Inl ErrTimeout, s)
     | AcceptReadError \<Rightarrow> map_option (\<lambda>e. (Inl e, s)) (socketReadError s)
     | AcceptProtoError \<Rightarrow> map_option (\<lambda>e. (Inl e, s)) (protoError s)
     | AcceptDie \<Rightarrow> if ss_die s then Some (Inl ErrClosedPipe, s) else None)"

section \<open>Tokens and closing\<close>

text \<open>
  The locked section of \<open>WriteTo\<close>: the first buffer, or nil; in version 2 also the window update that is due
  after the write, zero for none.
\<close>

definition writeTo_section :: "config \<Rightarrow> stream \<Rightarrow> int list option \<times> int \<times> stream" where
  "writeTo_section cf st = (case take_buffer_out st of
       (g, st') \<Rightarrow> if Version cf = 2 then (g, count_read (MaxStreamBuffer cf) (case g of None \<Rightarrow> 0 | Some bs \<Rightarrow> length bs) st')
                 else (g, 0, st'))"

definition add_tokens :: "int \<Rightarrow> session \<Rightarrow> session" where
  "add_tokens n s = (let (v, b) = AddInt32 (bucket s) (js_sar n 0); s = s\<lparr>bucket := b\<rparr> in if v > 0 then notifyBucket s else s)"

definition returnTokens :: "int \<Rightarrow> session \<Rightarrow> session" where
  "returnTokens n s = add_tokens n s"

text \<open>\<open>streamClosed\<close>: the map yields the nil stream for an unknown id, whose fields cannot be read.\<close>

definition nil_pointer :: go_panic where
  "nil_pointer = RuntimeError ''invalid memory address or nil pointer dereference''"

definition streamClosed :: "int \<Rightarrow> session \<Rightarrow> session res" where
  "streamClosed i s =
     (case map_of (streams s) i of
        None \<Rightarrow> Inl nil_pointer
      | Some h \<Rightarrow>
          res_bind (recycleTokens (objs s ! h)) (\<lambda>(e, freed, st).
            let s = s\<lparr>objs := (objs s)[h := st]\<rparr>;
                s = (if e > 0 then add_tokens e s else s)
            in Inr (s\<lparr>streams := AList.delete i (streams s)\<rparr>)))"

text \<open>
  \<open>Stream.Close\<close>: the first call closes \<open>die\<close>, sends a FIN frame (\<open>we\<close> is the error \<open>writeFrame\<close> returns) and
  takes the stream out of the table; every later call returns \<open>ErrClosedPipe\<close>.
\<close>

definition Stream_Close_begin :: "nat \<Rightarrow> session \<Rightarrow> bool \<times> session" where
  "Stream_Close_begin h s =
     (if st_die (objs s ! h) then (False, s) else (True, s\<lparr>objs := (objs s)[h := (objs s ! h)\<lparr>st_die := True\<rparr>]\<rparr>))"

definition Stream_Close :: "go_error option \<Rightarrow> nat \<Rightarrow> session \<Rightarrow> (go_error option \<times> session) res" where
  "Stream_Close we h s =
     (case Stream_Close_begin h s of
        (True, s') \<Rightarrow> res_bind (streamClosed (st_id (objs s' ! h)) s') (\<lambda>s''. Inr (we, s''))
      | (False, s') \<Rightarrow> Inr (Some ErrClosedPipe, s'))"

text \<open>\<open>Session.Close\<close>: \<open>die\<close> is closed first, then the streams under \<open>streamLock\<close>, then the connection.\<close>

definition sessionClose :: "stream \<Rightarrow> stream" where
  "sessionClose st = st\<lparr>st_die := True\<rparr>"

definition Close_begin :: "session \<Rightarrow> bool \<times> session" where
  "Close_begin s = (if ss_die s then (False, s) else (True, s\<lparr>ss_die := True\<rparr>))"

definition Close_streams :: "session \<Rightarrow> session" where
  "Close_streams s = s\<lparr>objs := fold (\<lambda>(i, h) os. os[h := sessionClose (os ! h)]) (streams s) (objs s)\<rparr>"

definition Session_Close :: "go_error option \<Rightarrow> session \<Rightarrow> go_error option \<times> session" where
  "Session_Close ce s = (case Close_begin s of (True, s') \<Rightarrow> (ce, Close_streams s') | (False, s') \<Rightarrow> (Some ErrClosedPipe, s'))"

section \<open>The receive loop\<close>

definition recv_top :: "session \<Rightarrow> session" where
  "recv_top s = s\<lparr>recv_at := if bucket s \<le> 0 \<and> \<not> IsClosed s then AwaitBucket else AwaitHeader\<rparr>"

text \<open>
  A SYN frame; \<open>dies\<close> is the choice of \<open>$select\<close> when \<open>die\<close> is closed and \<open>chAccepts\<close> (1024 places) has room.
\<close>

definition offer_accept :: "bool \<Rightarrow> nat \<Rightarrow> session \<Rightarrow> session" where
  "offer_accept dies h s =
     (if length (chAccepts s) < 1024 \<and> \<not> (ss_die s \<and> dies) then s\<lparr>chAccepts := chAccepts s @ [h], recv_at := AtTop\<rparr>
      else if ss_die s then s\<lparr>recv_at := AtTop\<rparr> else s\<lparr>recv_at := Accepting h\<rparr>)"

definition recv_SYN :: "config \<Rightarrow> bool \<Rightarrow> int \<Rightarrow> session \<Rightarrow> session" where
  "recv_SYN cf dies i s =
     (case map_of (streams s) i of
        Some h \<Rightarrow> s\<lparr>recv_at := AtTop\<rparr>
      | None \<Rightarrow> offer_accept dies (length (objs s)) (new_stream cf i s))"

definition upd_obj :: "nat \<Rightarrow> (stream \<Rightarrow> stream) \<Rightarrow> session \<Rightarrow> session" where
  "upd_obj h f s = s\<lparr>objs := (objs s)[h := f (objs s ! h)]\<rparr>"

lemma upd_obj_fields [simp]:
  "bucket (upd_obj h f s) = bucket s" "bucketNotify (upd_obj h f s) = bucketNotify s" "ss_die (upd_obj h f s) = ss_die s"
  "recv_at (upd_obj h f s) = recv_at s" "streams (upd_obj h f s) = streams s" "length (objs (upd_obj h f s)) = length (objs s)"
  by (simp_all add: upd_obj_def)

definition recv_FIN :: "int \<Rightarrow> session \<Rightarrow> session" where
  "recv_FIN i s = (case map_of (streams s) i of
       Some h \<Rightarrow> upd_obj h (\<lambda>st. notifyReadEvent (fin st)) s
     | None \<Rightarrow> s)\<lparr>recv_at := AtTop\<rparr>"

definition recv_fail :: "go_error \<Rightarrow> session \<Rightarrow> session" where
  "recv_fail e s = (notifyReadError e s)\<lparr>recv_at := Ended\<rparr>"

definition recv_invalid :: "session \<Rightarrow> session" where
  "recv_invalid s = (notifyProtoError ErrInvalidProtocol s)\<lparr>recv_at := Ended\<rparr>"

text \<open>The header \<open>b\<close> has been read.\<close>

definition recv_header :: "config \<Rightarrow> bool \<Rightarrow> int list \<Rightarrow> session \<Rightarrow> session res" where
  "recv_header cf dies b s =
     (let s = s\<lparr>dataReady := 1\<rparr> in
      if hdr_Version b \<noteq> to_u8 (Version cf) then Inr (recv_invalid s)
      else res_bind (hdr_StreamID b) (\<lambda>i.
        let j = hdr_Cmd b in
        if j = 3 then Inr (s\<lparr>recv_at := AtTop\<rparr>)
        else if j = 0 then Inr (recv_SYN cf dies i s)
        else if j = 1 then Inr (recv_FIN i s)
        else if j = 2 then res_bind (hdr_Length b) (\<lambda>n. Inr (s\<lparr>recv_at := if n > 0 then AwaitPayload i n else AtTop\<rparr>))
        else if j = 4 then Inr (s\<lparr>recv_at := AwaitUpdate i\<rparr>)
        else Inr (recv_invalid s)))"

text \<open>The payload \<open>w\<close> of a data frame of stream \<open>i\<close> has been read; that of an unknown stream is dropped.\<close>

definition recv_payload :: "int \<Rightarrow> int list \<Rightarrow> session \<Rightarrow> session" where
  "recv_payload i w s = (case map_of (streams s) i of
       Some h \<Rightarrow>
         (let s = upd_obj h (pushBytes w) s;
              s = s\<lparr>bucket := snd (AddInt32 (bucket s) (- js_sar (int (length w)) 0))\<rparr>
          in upd_obj h notifyReadEvent s)
     | None \<Rightarrow> s)\<lparr>recv_at := AtTop\<rparr>"

definition recv_update :: "int \<Rightarrow> int list \<Rightarrow> session \<Rightarrow> session res" where
  "recv_update i c s = (case map_of (streams s) i of
       Some h \<Rightarrow> res_bind (upd_Consumed c) (\<lambda>n. res_bind (upd_Window c) (\<lambda>w.
         Inr ((upd_obj h (update n w) s)\<lparr>recv_at := AtTop\<rparr>)))
     | None \<Rightarrow> Inr (s\<lparr>recv_at := AtTop\<rparr>))"

text \<open>Waking up: from the wait for tokens, and from the offer of a stream when the session closes.\<close>

definition recv_wake :: "session \<Rightarrow> session option" where
  "recv_wake s = (case recv_at s of
       AwaitBucket \<Rightarrow> if bucketNotify s then Some (s\<lparr>bucketNotify := False, recv_at := AtTop\<rparr>)
                      else if ss_die s then Some (s\<lparr>recv_at := Ended\<rparr>) else None
     | Accepting h \<Rightarrow> if ss_die s then Some (s\<lparr>recv_at := AtTop\<rparr>) else None
     | _ \<Rightarrow> None)"

text \<open>
  The loop over a connection read with \<open>rd\<close>.  \<open>io.ReadFull\<close> overwrites the whole of the header arrays and of
  the slice \<open>K.Get\<close> returns before they are used.  The run ends when the loop has returned or waits.
\<close>

definition recv_step :: "config \<Rightarrow> bool \<Rightarrow> 'r read_fun \<Rightarrow> session \<Rightarrow> 'r \<Rightarrow> (session \<times> 'r) res option" where
  "recv_step cf dies rd s r =
     (let read = (\<lambda>n k. case ReadFull rd (replicate n 0) r of
            None \<Rightarrow> None
          | Some (b, _, Some e, r') \<Rightarrow> Some (Inr (recv_fail e s, r'))
          | Some (b, _, None, r') \<Rightarrow> Some (map_sum id (\<lambda>s. (s, r')) (k b)))
      in case recv_at s of
           AtTop \<Rightarrow> Some (Inr (recv_top s, r))
         | AwaitHeader \<Rightarrow> read 8 (\<lambda>b. recv_header cf dies b s)
         | AwaitPayload i n \<Rightarrow> read (nat n) (\<lambda>w. Inr (recv_payload i w s))
         | AwaitUpdate i \<Rightarrow> read 8 (\<lambda>c. recv_update i c s)
         | _ \<Rightarrow> map_option (\<lambda>s. Inr (s, r)) (recv_wake s))"

definition recv_idle :: "session \<Rightarrow> bool" where
  "recv_idle s \<longleftrightarrow> (case recv_at s of Ended \<Rightarrow> True | AwaitBucket \<Rightarrow> recv_wake s = None | Accepting h \<Rightarrow> recv_wake s = None | _ \<Rightarrow> False)"

partial_function (option) recv_run :: "config \<Rightarrow> bool \<Rightarrow> 'r read_fun \<Rightarrow> session \<Rightarrow> 'r \<Rightarrow> (session \<times> 'r) res option" where
  "recv_run cf dies rd s r =
     (if recv_idle s then Some (Inr (s, r))
      else case recv_step cf dies rd s r of
             None \<Rightarrow> None
           | Some (Inl p) \<Rightarrow> Some (Inl p)
           | Some (Inr (s', r')) \<Rightarrow> recv_run cf dies rd s' r')"

section \<open>The keep-alive\<close>

text \<open>
  The tick sends a NOP frame and then wakes the receive loop; the timeout closes the session when no frame has
  come since the last one, unless the receive loop is waiting for tokens.
\<close>

definition keepalive_tick :: "session \<Rightarrow> session" where
  "keepalive_tick s = notifyBucket s"

definition keepalive_timeout :: "session \<Rightarrow> bool \<times> session" where
  "keepalive_timeout s =
     (let (ok, d) = CompareAndSwapInt32 (dataReady s) 1 0; s = s\<lparr>dataReady := d\<rparr>
      in if \<not> ok \<and> bucket s > 0 then (True, snd (Session_Close None s)) else (False, s))"

end
