(* ===== verification/Smux_Demux.thy ===== *)
theory Smux_Demux
  imports Smux_Session
begin

text \<open>
  The receive loop as a demultiplexer: over any reader that delivers the encoded frames, however the bytes are part
  into reads, it opens the streams in the order of their SYN frames and gives every stream its own data in order.
\<close>

section \<open>What the frames ask for\<close>

text \<open>The frames of the protocol: only data frames and window updates carry a payload.\<close>

definition peer_frame :: "config \<Rightarrow> frame \<Rightarrow> bool" where
  "peer_frame cf k \<longleftrightarrow> frame_ok k \<and> bytes (data k) \<and> ver k = to_u8 (Version cf) \<and>
     (cmd k = cmdPSH \<or> cmd k = cmdUPD \<and> length (data k) = 8 \<or> cmd k \<in> {cmdSYN, cmdFIN, cmdNOP} \<and> data k = [])"

definition opens :: "int \<Rightarrow> frame \<Rightarrow> bool" where
  "opens i k \<longleftrightarrow> cmd k = cmdSYN \<and> sid k = i"

definition syn_ids :: "frame list \<Rightarrow> int list" where
  "syn_ids fs = fold (\<lambda>k is. if cmd k = cmdSYN \<and> sid k \<notin> set is then is @ [sid k] else is) fs []"

definition stream_frames :: "int \<Rightarrow> frame list \<Rightarrow> frame list" where
  "stream_frames i fs = filter (\<lambda>k. sid k = i) (dropWhile (\<lambda>k. \<not> opens i k) fs)"

definition stream_data :: "int \<Rightarrow> frame list \<Rightarrow> int list" where
  "stream_data i fs = concat (map data (filter (\<lambda>k. cmd k = cmdPSH) (stream_frames i fs)))"

definition stream_fin :: "int \<Rightarrow> frame list \<Rightarrow> bool" where
  "stream_fin i fs \<longleftrightarrow> (\<exists>k \<in> set (stream_frames i fs). cmd k = cmdFIN)"

text \<open>The same, frame by frame: the streams in the order they were opened, with their data and whether they ended.\<close>

type_synonym mux = "(int \<times> int list \<times> bool) list"

definition mux_frame :: "frame \<Rightarrow> mux \<Rightarrow> mux" where
  "mux_frame k ms =
     (if cmd k = cmdSYN then (if sid k \<in> fst ` set ms then ms else ms @ [(sid k, [], False)])
      else map (\<lambda>(i, c, f). if i = sid k then (i, if cmd k = cmdPSH then c @ data k else c, f \<or> cmd k = cmdFIN) else (i, c, f)) ms)"

lemma syn_ids_snoc:
  "syn_ids (fs @ [k]) = (if cmd k = cmdSYN \<and> sid k \<notin> set (syn_ids fs) then syn_ids fs @ [sid k] else syn_ids fs)"
  by (simp add: syn_ids_def)

lemma syn_ids_opens: "i \<in> set (syn_ids fs) \<longleftrightarrow> (\<exists>k \<in> set fs. opens i k)"
  by (induction fs rule: rev_induct) (auto simp: syn_ids_snoc opens_def, simp add: syn_ids_def)

lemma stream_frames_snoc:
  "stream_frames i (fs @ [k]) = (if (i \<in> set (syn_ids fs) \<or> opens i k) \<and> sid k = i then stream_frames i fs @ [k] else stream_frames i fs)"
proof (cases "i \<in> set (syn_ids fs)")
  case True
  then obtain j where "j \<in> set fs" "opens i j" by (auto simp: syn_ids_opens)
  then have "dropWhile (\<lambda>k. \<not> opens i k) (fs @ [k]) = dropWhile (\<lambda>k. \<not> opens i k) fs @ [k]"
    by (intro dropWhile_append1) auto
  then show ?thesis using True by (simp add: stream_frames_def)
next
  case False
  then have "\<forall>j \<in> set fs. \<not> opens i j" by (auto simp: syn_ids_opens)
  then have d: "dropWhile (\<lambda>k. \<not> opens i k) fs = []" "dropWhile (\<lambda>k. \<not> opens i k) (fs @ [k]) = dropWhile (\<lambda>k. \<not> opens i k) [k]"
    by (simp_all add: dropWhile_eq_Nil_conv dropWhile_append2)
  have "stream_frames i fs = []" by (simp only: stream_frames_def d filter.simps)
  moreover have "stream_frames i (fs @ [k]) = (if opens i k then [k] else [])"
    unfolding stream_frames_def d by (simp add: opens_def)
  ultimately show ?thesis using False by (auto simp: opens_def)
qed

lemma unopened: "i \<notin> set (syn_ids fs) \<Longrightarrow> stream_frames i fs = []"
proof -
  assume "i \<notin> set (syn_ids fs)"
  then have "dropWhile (\<lambda>k. \<not> opens i k) fs = []" by (simp add: syn_ids_opens dropWhile_eq_Nil_conv)
  then show ?thesis by (simp only: stream_frames_def filter.simps)
qed

lemma mux_frames:
  "fold mux_frame fs [] = map (\<lambda>i. (i, stream_data i fs, stream_fin i fs)) (syn_ids fs)"
proof (induction fs rule: rev_induct)
  case (snoc k fs)
  have f: "fst ` set (map (\<lambda>i. (i, stream_data i fs, stream_fin i fs)) (syn_ids fs)) = set (syn_ids fs)" by force
  have same: "stream_frames i (fs @ [k]) = (if sid k = i then stream_frames i fs @ [k] else stream_frames i fs)" if "i \<in> set (syn_ids fs)" for i
    using that by (simp add: stream_frames_snoc)
  show ?case
  proof (cases "cmd k = cmdSYN")
    case True
    then have d: "stream_data i (fs @ [k]) = stream_data i fs" "stream_fin i (fs @ [k]) = stream_fin i fs" if "i \<in> set (syn_ids fs)" for i
      using same [OF that] by (auto simp: stream_data_def stream_fin_def cmd_defs)
    have n: "stream_data (sid k) (fs @ [k]) = [] \<and> \<not> stream_fin (sid k) (fs @ [k])" if "sid k \<notin> set (syn_ids fs)"
      using that True unopened [OF that] by (simp add: stream_data_def stream_fin_def stream_frames_snoc opens_def cmd_defs)
    show ?thesis using True snoc f d n by (simp add: mux_frame_def syn_ids_snoc)
  next
    case False
    then show ?thesis using snoc same by (auto simp: mux_frame_def syn_ids_snoc stream_data_def stream_fin_def cmd_defs)
  qed
qed (simp add: syn_ids_def)

section \<open>The session implements it\<close>

definition mux_of :: "session \<Rightarrow> mux" where
  "mux_of s = map (\<lambda>st. (st_id st, st_content st, chFinEvent st)) (objs s)"

definition mux_total :: "mux \<Rightarrow> int" where
  "mux_total ms = sum_list (map (\<lambda>(i, c, f). int (length c)) ms)"

definition mux_ok :: "session \<Rightarrow> bool" where
  "mux_ok s \<longleftrightarrow> \<not> ss_die s \<and> socketReadError s = None \<and> protoError s = None \<and>
     (\<forall>i h. map_of (streams s) i = Some h \<longleftrightarrow> h < length (objs s) \<and> st_id (objs s ! h) = i) \<and>
     chAccepts s = [0..<length (objs s)] \<and> (\<forall>st \<in> set (objs s). st_inv st)"

lemma mux_ok_fields [simp]:
  "mux_ok (s\<lparr>recv_at := p\<rparr>) = mux_ok s" "mux_of (s\<lparr>recv_at := p\<rparr>) = mux_of s"
  "mux_ok (s\<lparr>dataReady := d\<rparr>) = mux_ok s" "mux_of (s\<lparr>dataReady := d\<rparr>) = mux_of s"
  "mux_ok (s\<lparr>bucket := b\<rparr>) = mux_ok s" "mux_of (s\<lparr>bucket := b\<rparr>) = mux_of s"
  by (simp_all add: mux_ok_def mux_of_def)

lemma mux_ids: "fst ` set (mux_of s) = st_id ` set (objs s)"
  by (force simp: mux_of_def)

lemma mux_lookup:
  assumes "mux_ok s"
  shows "map_of (streams s) i = None \<longleftrightarrow> i \<notin> fst ` set (mux_of s)"
proof -
  have t: "\<And>h. map_of (streams s) i = Some h \<longleftrightarrow> h < length (objs s) \<and> st_id (objs s ! h) = i" using assms by (simp add: mux_ok_def)
  have "i \<in> st_id ` set (objs s) \<longleftrightarrow> (\<exists>h. map_of (streams s) i = Some h)" unfolding t by (auto simp: in_set_conv_nth image_iff intro: nth_mem)
  then show ?thesis by (auto simp: mux_ids)
qed

lemma mux_known:
  assumes "mux_ok s" "map_of (streams s) i = Some h"
  shows "h < length (objs s)" "st_id (objs s ! h) = i" "st_inv (objs s ! h)"
    "\<And>h'. h' < length (objs s) \<Longrightarrow> st_id (objs s ! h') = i \<Longrightarrow> h' = h"
  using assms by (auto simp: mux_ok_def) (metis option.inject)

lemma mux_upd_obj:
  assumes "mux_ok s" "map_of (streams s) i = Some h" "st_id (f (objs s ! h)) = i" "st_inv (f (objs s ! h))"
    and "st_content (f (objs s ! h)) = C (st_content (objs s ! h))" "chFinEvent (f (objs s ! h)) = F (chFinEvent (objs s ! h))"
  shows "mux_ok (upd_obj h f s) \<and> mux_of (upd_obj h f s) = map (\<lambda>(j, c, e). if j = i then (j, C c, F e) else (j, c, e)) (mux_of s)"
proof -
  note k = mux_known [OF assms(1,2)]
  have "mux_of (upd_obj h f s) = map (\<lambda>(j, c, e). if j = i then (j, C c, F e) else (j, c, e)) (mux_of s)"
  proof (rule nth_equalityI)
    fix x assume "x < length (mux_of (upd_obj h f s))"
    then have x: "x < length (objs s)" by (simp add: mux_of_def)
    show "mux_of (upd_obj h f s) ! x = map (\<lambda>(j, c, e). if j = i then (j, C c, F e) else (j, c, e)) (mux_of s) ! x"
    proof (cases "x = h")
      case True
      then show ?thesis using x k(2) assms(3,5,6) by (simp add: mux_of_def upd_obj_def)
    next
      case False
      then show ?thesis using x k(4) [OF x] by (auto simp: mux_of_def upd_obj_def)
    qed
  qed (simp add: mux_of_def)
  moreover have "st_id (objs (upd_obj h f s) ! h') = st_id (objs s ! h')" if "h' < length (objs s)" for h'
    using that k(2) assms(3) by (cases "h' = h") (simp_all add: upd_obj_def)
  then have "mux_ok (upd_obj h f s)" using assms(1,4) k(1)
    by (auto simp: mux_ok_def upd_obj_def dest!: set_update_subset_insert [THEN subsetD])
  ultimately show ?thesis by blast
qed

lemma mux_new:
  assumes "mux_ok s" "map_of (streams s) i = None"
  shows "mux_of (new_stream cf i s) = mux_of s @ [(i, [], False)]"
    "mux_ok ((new_stream cf i s)\<lparr>chAccepts := chAccepts s @ [length (objs s)]\<rparr>)"
proof -
  let ?st = "newStream i (MaxFrameSize cf)"
  have n: "h < length (objs s) \<Longrightarrow> st_id (objs s ! h) \<noteq> i" for h using assms unfolding mux_ok_def by (metis option.distinct(1))
  show "mux_of (new_stream cf i s) = mux_of s @ [(i, [], False)]"
    by (simp add: mux_of_def new_stream_def st_content_new) (simp add: newStream_def)
  have "map_of (AList.update i (length (objs s)) (streams s)) j = Some h \<longleftrightarrow>
      h < Suc (length (objs s)) \<and> st_id ((objs s @ [?st]) ! h) = j" for j h
    using assms n by (auto simp: mux_ok_def AList.update_conv' nth_append newStream_def less_Suc_eq)
  then show "mux_ok ((new_stream cf i s)\<lparr>chAccepts := chAccepts s @ [length (objs s)]\<rparr>)"
    using assms(1) by (simp add: mux_ok_def new_stream_def st_inv_new)
qed

lemma mux_total_map:
  "distinct (map fst ms) \<Longrightarrow> i \<in> fst ` set ms \<Longrightarrow> mux_total (map (\<lambda>(j, c, e). if j = i then (j, c @ w, F e) else (j, c, e)) ms)
     = mux_total ms + int (length w)"
proof (induction ms)
  case (Cons m ms)
  obtain j c e where m: "m = (j, c, e)" by (cases m)
  show ?case
  proof (cases "j = i")
    case True
    then have "i \<notin> fst ` set ms" using Cons.prems(1) m by auto
    then have "map (\<lambda>(j, c, e). if j = i then (j, c @ w, F e) else (j, c, e)) ms = ms" by (induction ms) auto
    then show ?thesis using True m by (simp add: mux_total_def)
  next
    case False
    then show ?thesis using Cons m by (auto simp: mux_total_def)
  qed
qed simp

lemma mux_distinct:
  assumes "mux_ok s"
  shows "distinct (map fst (mux_of s))"
proof -
  have "st_id (objs s ! h) \<noteq> st_id (objs s ! h')" if "h < length (objs s)" "h' < length (objs s)" "h \<noteq> h'" for h h'
    using assms that by (auto simp: mux_ok_def) (metis option.inject)
  then show ?thesis by (simp add: mux_of_def distinct_conv_nth)
qed

text \<open>A session at the head of its loop that has the streams \<open>ms\<close>.\<close>

definition implements :: "config \<Rightarrow> mux \<Rightarrow> session \<Rightarrow> bool" where
  "implements cf ms s \<longleftrightarrow> mux_ok s \<and> mux_of s = ms \<and> recv_at s = AtTop \<and> bucket s = MaxReceiveBuffer cf - mux_total ms"

lemma implements_start:
  "0 < MaxReceiveBuffer cf \<Longrightarrow> MaxReceiveBuffer cf < 2 ^ 31 \<Longrightarrow> implements cf [] (newSession cf client)"
  by (simp add: implements_def mux_ok_def mux_of_def mux_total_def newSession_def js_sar_eq ToInt32_id)

lemma mux_len: "length (mux_of s) = length (objs s)"
  by (simp add: mux_of_def)

lemma implements_SYN:
  assumes "mux_ok s" "bucket s = MaxReceiveBuffer cf - mux_total (mux_of s)" "length (mux_of s) < 1024" "cmd k = cmdSYN"
  shows "implements cf (mux_frame k (mux_of s)) (recv_SYN cf dies (sid k) s)"
proof (cases "map_of (streams s) (sid k)")
  case None
  have d: "\<not> ss_die (new_stream cf (sid k) s)" "chAccepts (new_stream cf (sid k) s) = chAccepts s" "length (chAccepts s) < 1024"
    "bucket (new_stream cf (sid k) s) = bucket s"
    using assms(1,3) by (simp_all add: new_stream_def mux_ok_def mux_len)
  let ?s = "new_stream cf (sid k) s"
  have "recv_SYN cf dies (sid k) s = (?s\<lparr>chAccepts := chAccepts s @ [length (objs s)]\<rparr>)\<lparr>recv_at := AtTop\<rparr>"
    using None d by (simp add: recv_SYN_def offer_accept_def)
  moreover have "mux_of (?s\<lparr>chAccepts := chAccepts s @ [length (objs s)]\<rparr>) = mux_of s @ [(sid k, [], False)]"
    using mux_new(1) [OF assms(1) None] by (simp add: mux_of_def)
  ultimately show ?thesis using mux_new(2) [OF assms(1) None, of cf] mux_lookup [OF assms(1)] None assms(2,4) d(4)
    by (simp add: implements_def mux_frame_def mux_total_def)
next
  case (Some h)
  then show ?thesis using mux_lookup [OF assms(1), of "sid k"] assms(1,2,4) by (simp add: recv_SYN_def implements_def mux_frame_def)
qed

lemma mux_frame_known: "cmd k \<noteq> cmdSYN \<Longrightarrow> mux_frame k ms =
    map (\<lambda>(j, c, e). if j = sid k then (j, if cmd k = cmdPSH then c @ data k else c, e \<or> cmd k = cmdFIN) else (j, c, e)) ms"
  by (simp add: mux_frame_def)

lemma mux_frame_PSH: "cmd k = cmdPSH \<Longrightarrow> mux_frame k ms =
    map (\<lambda>(j, c, e). if j = sid k then (j, c @ data k, e \<or> cmd k = cmdFIN) else (j, c, e)) ms"
  by (auto simp: mux_frame_def cmd_defs split: prod.splits)

lemma mux_frame_unknown: "cmd k \<noteq> cmdSYN \<Longrightarrow> sid k \<notin> fst ` set ms \<Longrightarrow> mux_frame k ms = ms"
  by (induction ms) (auto simp: mux_frame_def)

lemma frame_unknown:
  assumes "mux_ok s" "map_of (streams s) (sid k) = None" "cmd k \<noteq> cmdSYN"
  shows "mux_frame k (mux_of s) = mux_of s"
  using mux_frame_unknown [OF assms(3)] mux_lookup [OF assms(1), of "sid k"] assms(2) by blast

lemma mux_total_same:
  "cmd k \<noteq> cmdPSH \<or> data k = [] \<Longrightarrow> mux_total (mux_frame k ms) = mux_total ms"
proof (cases "cmd k = cmdSYN")
  case False
  assume "cmd k \<noteq> cmdPSH \<or> data k = []"
  then show ?thesis using False by (induction ms) (auto simp: mux_frame_def mux_total_def)
qed (simp add: mux_frame_def mux_total_def)

lemma implements_flags:
  assumes "mux_ok s" "bucket s = MaxReceiveBuffer cf - mux_total (mux_of s)" "cmd k \<noteq> cmdSYN" "cmd k \<noteq> cmdPSH \<or> data k = []"
    and "map_of (streams s) (sid k) = Some h"
    and "\<And>st. st_id (f st) = st_id st \<and> st_inv (f st) = st_inv st \<and> st_content (f st) = st_content st \<and>
      chFinEvent (f st) = (chFinEvent st \<or> cmd k = cmdFIN)"
  shows "implements cf (mux_frame k (mux_of s)) ((upd_obj h f s)\<lparr>recv_at := AtTop\<rparr>)"
proof -
  note k = mux_known [OF assms(1,5)]
  have C: "(if cmd k = cmdPSH then c @ data k else c) = c" for c using assms(4) by auto
  from mux_upd_obj [OF assms(1,5), of f "\<lambda>c. if cmd k = cmdPSH then c @ data k else c" "\<lambda>e. e \<or> cmd k = cmdFIN"] assms(6) k(2,3) C
  show ?thesis using assms(2) mux_total_same [OF assms(4)] by (simp add: implements_def mux_frame_known [OF assms(3)])
qed

lemma implements_FIN:
  assumes "mux_ok s" "bucket s = MaxReceiveBuffer cf - mux_total (mux_of s)" "cmd k = cmdFIN"
  shows "implements cf (mux_frame k (mux_of s)) (recv_FIN (sid k) s)"
proof -
  have k: "cmd k \<noteq> cmdSYN" "cmd k \<noteq> cmdPSH \<or> data k = []" using assms(3) by (simp_all add: cmd_defs)
  show ?thesis
  proof (cases "map_of (streams s) (sid k)")
    case None
    then show ?thesis using assms(1,2) frame_unknown [OF assms(1) None k(1)] by (simp add: recv_FIN_def implements_def)
  next
    case (Some h)
    have "implements cf (mux_frame k (mux_of s)) ((upd_obj h (\<lambda>st. notifyReadEvent (fin st)) s)\<lparr>recv_at := AtTop\<rparr>)"
      by (rule implements_flags [OF assms(1,2) k Some])
        (use assms(3) in \<open>simp add: notifyReadEvent_def fin_def st_inv_def st_content_def\<close>)
    then show ?thesis using Some by (simp add: recv_FIN_def)
  qed
qed

lemma le32_8: "length c = 8 \<Longrightarrow> bytes c \<Longrightarrow> \<exists>v w. upd_Consumed c = Inr v \<and> upd_Window c = Inr w"
  using le32.get_num [of c] le32.get_num [of "drop 4 c"] by (auto simp: upd_Consumed_def upd_Window_def bytes_drop)

lemma implements_UPD:
  assumes "mux_ok s" "bucket s = MaxReceiveBuffer cf - mux_total (mux_of s)" "cmd k = cmdUPD" "length c = 8" "bytes c"
  shows "\<exists>s'. recv_update (sid k) c s = Inr s' \<and> implements cf (mux_frame k (mux_of s)) s'"
proof -
  have k: "cmd k \<noteq> cmdSYN" "cmd k \<noteq> cmdPSH \<or> data k = []" using assms(3) by (simp_all add: cmd_defs)
  obtain v w where vw: "upd_Consumed c = Inr v" "upd_Window c = Inr w" using le32_8 [OF assms(4,5)] by blast
  show ?thesis
  proof (cases "map_of (streams s) (sid k)")
    case None
    then show ?thesis using assms(1,2) frame_unknown [OF assms(1) None k(1)] by (simp add: recv_update_def implements_def)
  next
    case (Some h)
    have "implements cf (mux_frame k (mux_of s)) ((upd_obj h (update v w) s)\<lparr>recv_at := AtTop\<rparr>)"
      by (rule implements_flags [OF assms(1,2) k Some])
        (use assms(3) in \<open>simp add: update_def st_inv_def st_content_def cmd_defs\<close>)
    then show ?thesis using Some vw by (simp add: recv_update_def)
  qed
qed

lemma implements_PSH:
  assumes "mux_ok s" "bucket s = MaxReceiveBuffer cf - mux_total (mux_of s)" "cmd k = cmdPSH" "data k \<noteq> []" "length (data k) < 65536"
    and "0 < bucket s" "bucket s < 2 ^ 31"
  shows "implements cf (mux_frame k (mux_of s)) (recv_payload (sid k) (data k) s)"
proof -
  have k: "cmd k \<noteq> cmdSYN" using assms(3) by (simp add: cmd_defs)
  show ?thesis
  proof (cases "map_of (streams s) (sid k)")
    case None
    then show ?thesis using assms(1,2) frame_unknown [OF assms(1) None k] by (simp add: recv_payload_def implements_def)
  next
    case (Some h)
    note kn = mux_known [OF assms(1) Some]
    let ?f = "\<lambda>st. notifyReadEvent (pushBytes (data k) st)"
    have f: "st_inv (?f (objs s ! h))" "st_content (?f (objs s ! h)) = st_content (objs s ! h) @ data k" "st_id (?f (objs s ! h)) = sid k"
      "chFinEvent (?f (objs s ! h)) = (chFinEvent (objs s ! h) \<or> cmd k = cmdFIN)"
      using push_spec [OF kn(3) assms(4)] kn(2) assms(3)
      by (simp_all add: notifyReadEvent_def pushBytes_def st_inv_def st_content_def cmd_defs)
    from mux_upd_obj [of s "sid k" h ?f "\<lambda>c. c @ data k" "\<lambda>e. e \<or> cmd k = cmdFIN", OF assms(1) Some f(3,1,2,4)]
    have u: "mux_ok (upd_obj h ?f s)" "mux_of (upd_obj h ?f s) = mux_frame k (mux_of s)"
      using mux_frame_PSH [OF assms(3)] by simp_all
    have "sid k \<in> fst ` set (mux_of s)" using mux_lookup [OF assms(1), of "sid k"] Some by simp
    then have t: "mux_total (mux_frame k (mux_of s)) = mux_total (mux_of s) + int (length (data k))"
      using mux_total_map [OF mux_distinct [OF assms(1)], of "sid k" "data k" "\<lambda>e. e \<or> cmd k = cmdFIN"] mux_frame_PSH [OF assms(3)] by simp
    have b: "snd (AddInt32 (bucket s) (- js_sar (int (length (data k))) 0)) = bucket s - int (length (data k))"
      using assms(5-7) by (subst AddInt32_exact) (simp_all add: js_sar_eq ToInt32_id)
    have "recv_payload (sid k) (data k) s = (upd_obj h ?f s)\<lparr>bucket := bucket s - int (length (data k)), recv_at := AtTop\<rparr>"
      using Some kn(1) b by (simp add: recv_payload_def upd_obj_def Let_def)
    then show ?thesis using u t assms(2) by (simp add: implements_def)
  qed
qed

section \<open>The loop over a reader\<close>

definition psh_bytes :: "frame list \<Rightarrow> int" where
  "psh_bytes fs = sum_list (map (\<lambda>k. if cmd k = cmdPSH then int (length (data k)) else 0) fs)"

lemma mux_total_frame: "distinct (map fst ms) \<Longrightarrow> mux_total (mux_frame k ms) \<le> mux_total ms + (if cmd k = cmdPSH then int (length (data k)) else 0)"
proof (cases "cmd k = cmdPSH \<and> sid k \<in> fst ` set ms")
  case True
  assume d: "distinct (map fst ms)"
  from mux_frame_PSH [of k ms] mux_total_map [OF d, of "sid k" "data k" "\<lambda>e. e \<or> cmd k = cmdFIN"] True
  show ?thesis by simp
next
  case False
  have "mux_total (mux_frame k ms) = mux_total ms"
  proof (cases "cmd k = cmdPSH")
    case True
    then show ?thesis using False mux_frame_unknown [of k ms] by (simp add: cmd_defs)
  qed (simp add: mux_total_same)
  then show ?thesis by simp
qed

lemma header_read: "frame_ok k \<Longrightarrow> bytes (data k) \<Longrightarrow> length (header_bytes k) = 8"
  by simp

context reader
begin

lemma recv_run_step:
  "recv_step cf dies rd s r = Some (Inr (s', r')) \<Longrightarrow> \<not> recv_idle s \<Longrightarrow> recv_run cf dies rd s r = recv_run cf dies rd s' r'"
  by (subst recv_run.simps) simp

lemma ReadFull_all:
  assumes "inv r" "stream r = w @ rest" "length w = n" "n < 2 ^ 31"
  shows "\<exists>r'. ReadFull rd (replicate n 0) r = Some (w, int n, None, r') \<and> inv r' \<and> stream r' = rest"
  using ReadFull_spec [OF assms(1), of "replicate n 0"] assms(2-4) by (auto simp: Let_def)

text \<open>One frame, from the head of the loop back to it.\<close>

lemma recv_frame:
  assumes "peer_frame cf k" "implements cf ms s" "0 < bucket s" "bucket s < 2 ^ 31" "length ms < 1024 \<or> cmd k \<noteq> cmdSYN"
    and "inv r" "stream r = frame_bytes k @ rest"
  shows "\<exists>s' r'. recv_run cf dies rd s r = recv_run cf dies rd s' r' \<and> implements cf (mux_frame k ms) s' \<and> inv r' \<and> stream r' = rest"
proof -
  have ok: "frame_ok k" "bytes (data k)" "ver k = to_u8 (Version cf)" using assms(1) by (simp_all add: peer_frame_def)
  let ?s1 = "s\<lparr>recv_at := AwaitHeader\<rparr>" and ?s2 = "s\<lparr>recv_at := AwaitHeader, dataReady := 1\<rparr>"
  have i: "mux_ok s" "mux_of s = ms" "recv_at s = AtTop" "bucket s = MaxReceiveBuffer cf - mux_total ms"
    using assms(2) by (simp_all add: implements_def)
  have i2: "mux_ok ?s2" "mux_of ?s2 = ms" "bucket ?s2 = MaxReceiveBuffer cf - mux_total (mux_of ?s2)" using i by simp_all
  have r1: "recv_run cf dies rd s r = recv_run cf dies rd ?s1 r"
    by (rule recv_run_step) (use i(3) assms(3) in \<open>simp_all add: recv_step_def recv_top_def recv_idle_def\<close>)
  obtain r2 where r2: "ReadFull rd (replicate 8 0) r = Some (header_bytes k, 8, None, r2)" "inv r2" "stream r2 = data k @ rest"
    using ReadFull_all [OF assms(6), of "header_bytes k" "data k @ rest" 8] assms(7) by (auto simp: frame_bytes_def)
  have hdr: "recv_run cf dies rd ?s1 r = recv_run cf dies rd s' r2" if "recv_header cf dies (header_bytes k) ?s1 = Inr s'" for s'
    by (rule recv_run_step) (use that r2(1) in \<open>simp_all add: recv_step_def recv_idle_def\<close>)
  note h = header_accessors [OF ok(1)]
  have H: "recv_header cf dies (header_bytes k) ?s1 =
      (if cmd k = 3 then Inr (?s2\<lparr>recv_at := AtTop\<rparr>) else if cmd k = 0 then Inr (recv_SYN cf dies (sid k) ?s2)
       else if cmd k = 1 then Inr (recv_FIN (sid k) ?s2)
       else if cmd k = 2 then Inr (?s2\<lparr>recv_at := if int (length (data k)) > 0 then AwaitPayload (sid k) (int (length (data k))) else AtTop\<rparr>)
       else if cmd k = 4 then Inr (?s2\<lparr>recv_at := AwaitUpdate (sid k)\<rparr>) else Inr (recv_invalid ?s2))"
    using h ok(3) by (simp add: recv_header_def Let_def)
  have quiet: "implements cf (mux_frame k ms) (?s2\<lparr>recv_at := AtTop\<rparr>)" if "mux_frame k ms = ms"
    using i2 that i by (simp add: implements_def)
  consider "cmd k = cmdSYN" "data k = []" | "cmd k = cmdFIN" "data k = []" | "cmd k = cmdNOP" "data k = []"
    | "cmd k = cmdPSH" "data k = []" | "cmd k = cmdPSH" "data k \<noteq> []" | "cmd k = cmdUPD" "length (data k) = 8"
    using assms(1) by (auto simp: peer_frame_def)
  then show ?thesis
  proof cases
    case 1
    then have "recv_header cf dies (header_bytes k) ?s1 = Inr (recv_SYN cf dies (sid k) ?s2)" using H by (simp add: cmd_defs)
    from hdr [OF this] implements_SYN [OF i2(1,3) _ 1(1), of dies] i2(2) assms(5) 1(1) r1 r2(2,3) 1(2) show ?thesis
      by (intro exI [of _ "recv_SYN cf dies (sid k) ?s2"] exI [of _ r2]) simp
  next
    case 2
    then have "recv_header cf dies (header_bytes k) ?s1 = Inr (recv_FIN (sid k) ?s2)" using H by (simp add: cmd_defs)
    from hdr [OF this] implements_FIN [OF i2(1,3) 2(1)] i2(2) r1 r2(2,3) 2(2) show ?thesis
      by (intro exI [of _ "recv_FIN (sid k) ?s2"] exI [of _ r2]) simp
  next
    case 3
    have "mux_frame k ms = ms" using 3 by (auto simp: mux_frame_def cmd_defs intro!: map_idI split: prod.splits)
    from quiet [OF this] have q: "implements cf (mux_frame k ms) (?s2\<lparr>recv_at := AtTop\<rparr>)" .
    have "recv_header cf dies (header_bytes k) ?s1 = Inr (?s2\<lparr>recv_at := AtTop\<rparr>)" using H 3 by (simp add: cmd_defs)
    from hdr [OF this] q r1 r2(2,3) 3(2) show ?thesis by (intro exI [of _ "?s2\<lparr>recv_at := AtTop\<rparr>"] exI [of _ r2]) simp
  next
    case 4
    have "mux_frame k ms = ms" using 4 by (auto simp: mux_frame_def cmd_defs intro!: map_idI split: prod.splits)
    from quiet [OF this] have q: "implements cf (mux_frame k ms) (?s2\<lparr>recv_at := AtTop\<rparr>)" .
    have "recv_header cf dies (header_bytes k) ?s1 = Inr (?s2\<lparr>recv_at := AtTop\<rparr>)" using H 4 by (simp add: cmd_defs)
    from hdr [OF this] q r1 r2(2,3) 4(2) show ?thesis by (intro exI [of _ "?s2\<lparr>recv_at := AtTop\<rparr>"] exI [of _ r2]) simp
  next
    case 5
    let ?s3 = "?s2\<lparr>recv_at := AwaitPayload (sid k) (int (length (data k)))\<rparr>"
    have l: "length (data k) < 65536" using ok(1) by (simp add: frame_ok_def)
    have "recv_header cf dies (header_bytes k) ?s1 = Inr ?s3" using H 5 by (simp add: cmd_defs)
    note r3 = hdr [OF this]
    obtain r4 where r4: "ReadFull rd (replicate (length (data k)) 0) r2 = Some (data k, int (length (data k)), None, r4)" "inv r4" "stream r4 = rest"
      using ReadFull_all [OF r2(2,3) refl] l by auto
    have "recv_run cf dies rd ?s3 r2 = recv_run cf dies rd (recv_payload (sid k) (data k) ?s3) r4"
      by (rule recv_run_step) (use r4(1) in \<open>simp_all add: recv_step_def recv_idle_def\<close>)
    moreover have i3: "mux_ok ?s3" "mux_of ?s3 = ms" "bucket ?s3 = MaxReceiveBuffer cf - mux_total (mux_of ?s3)" "0 < bucket ?s3" "bucket ?s3 < 2 ^ 31"
      using i assms(3,4) by simp_all
    from implements_PSH [OF i3(1,3) 5 l i3(4,5)] i3(2)
    have "implements cf (mux_frame k ms) (recv_payload (sid k) (data k) ?s3)" by simp
    ultimately show ?thesis using r1 r3 r4(2,3) by (intro exI [of _ "recv_payload (sid k) (data k) ?s3"] exI [of _ r4]) simp
  next
    case 6
    let ?s3 = "?s2\<lparr>recv_at := AwaitUpdate (sid k)\<rparr>"
    have "recv_header cf dies (header_bytes k) ?s1 = Inr ?s3" using H 6 by (simp add: cmd_defs)
    note r3 = hdr [OF this]
    obtain r4 where r4: "ReadFull rd (replicate 8 0) r2 = Some (data k, 8, None, r4)" "inv r4" "stream r4 = rest"
      using ReadFull_all [OF r2(2,3), of 8] 6(2) by auto
    have i3: "mux_ok ?s3" "mux_of ?s3 = ms" "bucket ?s3 = MaxReceiveBuffer cf - mux_total (mux_of ?s3)" using i by simp_all
    obtain s' where s': "recv_update (sid k) (data k) ?s3 = Inr s'" "implements cf (mux_frame k ms) s'"
      using implements_UPD [OF i3(1,3) 6 ok(2)] i3(2) by auto
    have "recv_run cf dies rd ?s3 r2 = recv_run cf dies rd s' r4"
      by (rule recv_run_step) (use r4(1) s'(1) in \<open>simp_all add: recv_step_def recv_idle_def\<close>)
    then show ?thesis using r1 r3 r4(2,3) s'(2) by (intro exI [of _ s'] exI [of _ r4]) simp
  qed
qed

end

lemma psh_bytes_nonneg: "0 \<le> psh_bytes fs"
  by (induction fs) (simp_all add: psh_bytes_def)

lemma mux_total_nonneg: "0 \<le> mux_total ms"
  by (induction ms) (auto simp: mux_total_def)

lemma mux_frame_length: "length (mux_frame k ms) \<le> length ms + (if cmd k = cmdSYN then 1 else 0)"
  by (simp add: mux_frame_def)

context reader
begin

lemma recv_frames:
  assumes "\<forall>k \<in> set fs. peer_frame cf k" "implements cf ms s" "mux_total ms + psh_bytes fs < MaxReceiveBuffer cf"
    and "MaxReceiveBuffer cf < 2 ^ 31" "length ms + length (filter (\<lambda>k. cmd k = cmdSYN) fs) \<le> 1024"
    and "inv r" "stream r = concat (map frame_bytes fs) @ rest"
  shows "\<exists>s' r'. recv_run cf dies rd s r = recv_run cf dies rd s' r' \<and> implements cf (fold mux_frame fs ms) s' \<and> inv r' \<and> stream r' = rest"
  using assms(1-3,5-7)
proof (induction fs arbitrary: ms s r)
  case Nil
  then show ?case by auto
next
  case (Cons k fs)
  let ?w = "if cmd k = cmdPSH then int (length (data k)) else 0"
  have p: "psh_bytes (k # fs) = ?w + psh_bytes fs" by (simp add: psh_bytes_def)
  have b: "bucket s = MaxReceiveBuffer cf - mux_total ms" "mux_of s = ms" "mux_ok s" using Cons.prems(2) by (simp_all add: implements_def)
  have t: "0 < bucket s" "bucket s < 2 ^ 31"
    using b(1) Cons.prems(3) p psh_bytes_nonneg [of fs] mux_total_nonneg [of ms] assms(4) by (auto split: if_splits)
  have "length ms < 1024 \<or> cmd k \<noteq> cmdSYN" using Cons.prems(4) by auto
  have fr: "\<exists>s' r'. recv_run cf dies rd s r = recv_run cf dies rd s' r' \<and> implements cf (mux_frame k ms) s' \<and> inv r' \<and>
      stream r' = concat (map frame_bytes fs) @ rest"
    using recv_frame [of cf k ms s r "concat (map frame_bytes fs) @ rest" dies] Cons.prems t \<open>length ms < 1024 \<or> cmd k \<noteq> cmdSYN\<close> by auto
  then obtain s1 r1 where s1: "recv_run cf dies rd s r = recv_run cf dies rd s1 r1" "implements cf (mux_frame k ms) s1" "inv r1"
    "stream r1 = concat (map frame_bytes fs) @ rest" by blast
  have "mux_total (mux_frame k ms) + psh_bytes fs < MaxReceiveBuffer cf"
    using mux_total_frame [OF mux_distinct [OF b(3)], of k] b(2) Cons.prems(3) p by simp
  moreover have "length (mux_frame k ms) + length (filter (\<lambda>k. cmd k = cmdSYN) fs) \<le> 1024"
    using mux_frame_length [of k ms] Cons.prems(4) by (auto split: if_splits)
  ultimately show ?case using Cons.IH [OF _ s1(2) _ _ s1(3,4)] Cons.prems(1) s1(1) by auto
qed

lemma recv_cut:
  assumes "implements cf ms s" "0 < bucket s" "inv r" "stream r = part" "length part < 8"
  shows "\<exists>s' r'. recv_run cf dies rd s r = Some (Inr (s', r')) \<and> recv_at s' = Ended \<and>
    socketReadError s' = Some (if part = [] then EOF else ErrUnexpectedEOF) \<and> mux_of s' = ms \<and> chAccepts s' = [0..<length (objs s')]"
proof -
  have i: "mux_ok s" "mux_of s = ms" "recv_at s = AtTop" using assms(1) by (simp_all add: implements_def)
  let ?s1 = "s\<lparr>recv_at := AwaitHeader\<rparr>" and ?e = "if part = [] then EOF else ErrUnexpectedEOF"
  have r1: "recv_run cf dies rd s r = recv_run cf dies rd ?s1 r"
    by (rule recv_run_step) (use i(3) assms(2) in \<open>simp_all add: recv_step_def recv_top_def recv_idle_def\<close>)
  obtain b n r2 where r2: "ReadFull rd (replicate 8 0) r = Some (b, n, Some ?e, r2)"
    using ReadFull_spec [OF assms(3), of "replicate 8 0"] assms(4,5) by (auto simp: Let_def min_def)
  have "recv_run cf dies rd ?s1 r = recv_run cf dies rd (recv_fail ?e ?s1) r2"
    by (rule recv_run_step) (use r2 in \<open>simp_all add: recv_step_def recv_idle_def\<close>)
  moreover have "recv_run cf dies rd (recv_fail ?e ?s1) r2 = Some (Inr (recv_fail ?e ?s1, r2))"
    by (subst recv_run.simps) (simp add: recv_idle_def recv_fail_def)
  moreover have "recv_at (recv_fail ?e ?s1) = Ended" "socketReadError (recv_fail ?e ?s1) = Some ?e" "mux_of (recv_fail ?e ?s1) = ms"
    "chAccepts (recv_fail ?e ?s1) = [0..<length (objs (recv_fail ?e ?s1))]"
    using i by (simp_all add: recv_fail_def notifyReadError_def mux_ok_def mux_of_def)
  ultimately show ?thesis using r1 by auto
qed

lemma demux:
  assumes "0 < MaxReceiveBuffer cf" "MaxReceiveBuffer cf < 2 ^ 31" "\<forall>k \<in> set fs. peer_frame cf k"
    and "psh_bytes fs < MaxReceiveBuffer cf" "length (filter (\<lambda>k. cmd k = cmdSYN) fs) \<le> 1024"
    and "inv r" "stream r = concat (map frame_bytes fs) @ part" "length part < 8"
  shows "\<exists>s' r'. recv_run cf dies rd (newSession cf client) r = Some (Inr (s', r')) \<and> recv_at s' = Ended \<and>
    socketReadError s' = Some (if part = [] then EOF else ErrUnexpectedEOF) \<and> chAccepts s' = [0..<length (objs s')] \<and>
    map (\<lambda>st. (st_id st, st_content st, chFinEvent st)) (objs s') = map (\<lambda>i. (i, stream_data i fs, stream_fin i fs)) (syn_ids fs)"
proof -
  have "mux_total [] + psh_bytes fs < MaxReceiveBuffer cf" "length ([]::mux) + length (filter (\<lambda>k. cmd k = cmdSYN) fs) \<le> 1024"
    using assms(4,5) by (simp_all add: mux_total_def)
  from recv_frames [OF assms(3) implements_start [OF assms(1,2)] this(1) assms(2) this(2) assms(6,7)] obtain s r2 where
    s: "recv_run cf dies rd (newSession cf client) r = recv_run cf dies rd s r2" "implements cf (fold mux_frame fs []) s" "inv r2" "stream r2 = part"
    by blast
  have "mux_total (fold mux_frame fs ms) \<le> mux_total ms + psh_bytes fs" if "distinct (map fst ms)" for ms
    using that
  proof (induction fs arbitrary: ms)
    case (Cons k fs)
    have "distinct (map fst (mux_frame k ms))"
    proof -
      have "map fst (mux_frame k ms) = (if cmd k = cmdSYN \<and> sid k \<notin> fst ` set ms then map fst ms @ [sid k] else map fst ms)"
        by (auto simp: mux_frame_def split: prod.splits)
      then show ?thesis using Cons.prems by simp
    qed
    from Cons.IH [OF this] mux_total_frame [OF Cons.prems, of k] show ?case by (simp add: psh_bytes_def)
  qed (simp add: psh_bytes_def)
  from this [of "[]"] have "0 < bucket s" using s(2) assms(4) by (simp add: implements_def mux_total_def)
  from recv_cut [OF s(2) this s(3,4) assms(8), of dies] obtain s' r' where "recv_run cf dies rd s r2 = Some (Inr (s', r'))"
    "recv_at s' = Ended" "socketReadError s' = Some (if part = [] then EOF else ErrUnexpectedEOF)"
    "mux_of s' = fold mux_frame fs []" "chAccepts s' = [0..<length (objs s')]" by blast
  then show ?thesis using s(1) mux_frames [of fs] by (intro exI [of _ s'] exI [of _ r']) (simp add: mux_of_def)
qed

end

text \<open>
  C2: the receive loop demultiplexes the connection: whatever frames of the protocol the peer sends, their encoded
  bytes cut into WebSocket messages in any way, the loop opens the streams in the order of their first SYN frames
  and offers them to \<open>AcceptStream\<close> in that order; every stream holds exactly the payloads of its own data frames
  after its SYN, in order, and knows whether its FIN came.  At the end of the connection the loop returns and
  records \<open>io.EOF\<close>, or \<open>io.ErrUnexpectedEOF\<close> when a header is cut short.
\<close>

theorem recv_demultiplexes:
  assumes "0 < MaxReceiveBuffer cf" "MaxReceiveBuffer cf < 2 ^ 31" "\<forall>k \<in> set fs. peer_frame cf k"
    and "psh_bytes fs < MaxReceiveBuffer cf" "length (filter (\<lambda>k. cmd k = cmdSYN) fs) \<le> 1024"
    and "ws_ok conn" "ws_bytes conn = concat (map frame_bytes fs) @ part" "length part < 8"
  shows "\<exists>s' conn'. recv_run cf dies ws_reader (newSession cf client) conn = Some (Inr (s', conn')) \<and> recv_at s' = Ended \<and>
    socketReadError s' = Some (if part = [] then EOF else ErrUnexpectedEOF) \<and> chAccepts s' = [0..<length (objs s')] \<and>
    map (\<lambda>st. (st_id st, st_content st, chFinEvent st)) (objs s') = map (\<lambda>i. (i, stream_data i fs, stream_fin i fs)) (syn_ids fs)"
  by (rule ws_reader.demux [OF assms])

text \<open>Two streams with their frames interleaved, in two messages that cut a header.\<close>

definition demo_frames :: "frame list" where
  "demo_frames = [newFrame 1 0 3, newFrame 1 0 5, (newFrame 1 2 5)\<lparr>data := [50, 51]\<rparr>, (newFrame 1 2 3)\<lparr>data := [30]\<rparr>,
     (newFrame 1 2 5)\<lparr>data := [52]\<rparr>, newFrame 1 1 5]"

definition demo_conn :: ws_conn where
  "demo_conn = onClose (onMessage (drop 12 (concat (map frame_bytes demo_frames)) @ [1, 2])
     (onMessage (take 12 (concat (map frame_bytes demo_frames))) ws_init))"

lemma demo_conn_ok: "ws_ok demo_conn \<and> ws_bytes demo_conn = concat (map frame_bytes demo_frames) @ [1, 2]"
proof -
  have "length (concat (map frame_bytes demo_frames)) = 52" by (simp add: demo_frames_def frame_bytes_def newFrame_def)
  moreover have "take 12 (concat (map frame_bytes demo_frames)) \<noteq> []" by (simp add: demo_frames_def frame_bytes_def header_bytes_def)
  ultimately show ?thesis
    by (auto simp: demo_conn_def ws_ok_def ws_bytes_def onClose_def onMessage_def ws_init_def
        intro!: exI [of _ "[take 12 (concat (map frame_bytes demo_frames)), drop 12 (concat (map frame_bytes demo_frames)) @ [1, 2]]"])
qed

theorem recv_demultiplexes_witness:
  "\<exists>s' conn'. recv_run DefaultConfig False ws_reader (newSession DefaultConfig False) demo_conn = Some (Inr (s', conn')) \<and>
    socketReadError s' = Some ErrUnexpectedEOF \<and>
    map (\<lambda>st. (st_id st, st_content st, chFinEvent st)) (objs s') = [(3, [30], False), (5, [50, 51, 52], True)]"
proof -
  have "to_u8 1 = 1" by (simp add: to_u8_mod)
  then have f: "\<forall>k \<in> set demo_frames. peer_frame DefaultConfig k"
    by (simp add: demo_frames_def peer_frame_def frame_ok_def newFrame_def DefaultConfig_def u32_ok_def bytes_def cmd_defs)
  have b: "0 < MaxReceiveBuffer DefaultConfig" "MaxReceiveBuffer DefaultConfig < 2 ^ 31" "psh_bytes demo_frames < MaxReceiveBuffer DefaultConfig"
    "length (filter (\<lambda>k. cmd k = cmdSYN) demo_frames) \<le> 1024"
    by (simp_all add: DefaultConfig_def psh_bytes_def demo_frames_def newFrame_def cmd_defs)
  have m: "map (\<lambda>i. (i, stream_data i demo_frames, stream_fin i demo_frames)) (syn_ids demo_frames) = [(3, [30], False), (5, [50, 51, 52], True)]"
    by code_simp
  from recv_demultiplexes [OF b(1,2) f b(3,4) demo_conn_ok [THEN conjunct1] demo_conn_ok [THEN conjunct2], of False False] m
  show ?thesis by auto
qed

section \<open>Two sessions\<close>

lemma fst_frames_of: "map fst (frames_of cnt p n cs) = map (\<lambda>c. p\<lparr>data := c\<rparr>) cs"
  by (induction cs arbitrary: n) simp_all

lemma conversation:
  assumes "cs \<noteq> [] \<longrightarrow> cmd p = cmdPSH \<and> sid p = i"
  shows "syn_ids (newFrame v cmdSYN i # map (\<lambda>c. p\<lparr>data := c\<rparr>) cs @ [newFrame v cmdFIN i]) = [i]"
    "stream_data i (newFrame v cmdSYN i # map (\<lambda>c. p\<lparr>data := c\<rparr>) cs @ [newFrame v cmdFIN i]) = concat cs"
    "stream_fin i (newFrame v cmdSYN i # map (\<lambda>c. p\<lparr>data := c\<rparr>) cs @ [newFrame v cmdFIN i])"
proof -
  let ?m = "map (\<lambda>c. p\<lparr>data := c\<rparr>) cs" and ?S = "newFrame v cmdSYN i" and ?F = "newFrame v cmdFIN i"
  have m: "k \<in> set ?m \<Longrightarrow> cmd k = cmdPSH \<and> sid k = i" for k using assms by auto
  have "fold (\<lambda>k is. if cmd k = cmdSYN \<and> sid k \<notin> set is then is @ [sid k] else is) ks js = js"
    if "\<forall>k \<in> set ks. cmd k \<noteq> cmdSYN" for ks js using that by (induction ks) simp_all
  from this [of ?m "[i]"] show "syn_ids (?S # ?m @ [?F]) = [i]" using m by (auto simp: syn_ids_def newFrame_def cmd_defs)
  have "opens i ?S" by (simp add: opens_def newFrame_def)
  then have d: "dropWhile (\<lambda>k. \<not> opens i k) (?S # ?m @ [?F]) = ?S # ?m @ [?F]" by simp
  have f: "stream_frames i (?S # ?m @ [?F]) = ?S # ?m @ [?F]"
    unfolding stream_frames_def d using m by (auto simp: newFrame_def intro!: filter_True)
  have "filter (\<lambda>k. cmd k = cmdPSH) ?m = ?m" by (rule filter_True) (use m in blast)
  then show "stream_data i (?S # ?m @ [?F]) = concat cs"
    unfolding stream_data_def f by (simp add: newFrame_def cmd_defs comp_def)
  show "stream_fin i (?S # ?m @ [?F])" unfolding stream_fin_def f by (simp add: newFrame_def)
qed

text \<open>
  C1: from one session to the other: a stream is opened, written and closed on one side, every call
  succeeding, and the bytes its session put on the wire reach the other side in WebSocket messages cut in any
  way; then \<open>AcceptStream\<close> there yields exactly one stream, with the same id, whose unread data are exactly the
  bytes written, and which has seen the FIN.
\<close>

theorem stream_end_to_end:
  assumes "\<not> st_die st" "stream_ok cf st" "bytes a" "int (length a) < MaxReceiveBuffer cf" "MaxReceiveBuffer cf < 2 ^ 31"
    and "writeFrameInternal (newFrame (to_u8 (Version cf)) cmdSYN (st_id st)) pr (session_out_init ev) = Some ((n1, None), s1)"
    and "Write_v1 writeFrameInternal cf a st s1 = Some ((n2, None), st', s2)"
    and "writeFrameInternal (newFrame (to_u8 (Version cf)) cmdFIN (st_id st)) pr' s2 = Some ((n3, None), s3)"
    and "ws_ok conn" "ws_bytes conn = wire s3"
  shows "\<exists>s' conn' s'' st''. recv_run cf dies ws_reader (newSession cf client) conn = Some (Inr (s', conn')) \<and>
    socketReadError s' = Some EOF \<and> AcceptStream AcceptReady s' = Some (Inr 0, s'') \<and> objs s'' = [st''] \<and> chAccepts s'' = [] \<and>
    st_id st'' = st_id st \<and> st_content st'' = a \<and> chFinEvent st''"
proof -
  let ?v = "to_u8 (Version cf)" and ?i = "st_id st"
  let ?p = "newFrame ?v cmdPSH ?i" and ?S = "newFrame ?v cmdSYN ?i" and ?F = "newFrame ?v cmdFIN ?i"
  let ?cs = "chunk_list (nat (frameSize st)) a"
  let ?fs = "?S # map (\<lambda>c. ?p\<lparr>data := c\<rparr>) ?cs @ [?F]"
  have sf: "frame_ok ?S" "frame_ok ?F" "frame_ok (?p\<lparr>data := []\<rparr>)"
    using assms(2) psh_frame_ok by (auto simp: stream_ok_def frame_ok_def newFrame_def to_u8_mod cmd_defs)
  have fs: "0 < frameSize st" "frameSize st < 65536" using assms(2) by (simp_all add: stream_ok_def)
  have o1: "out_ok s1" "acked s1 = [(?S, pr)]"
    using session_writer.ack [OF out_ok_init sf(1) assms(6)] by (simp_all add: session_out_init_def)
  have l: "length a < 2 ^ 31" using assms(4,5) by simp
  have o2: "out_ok s2" "acked s2 = acked s1 @ frames_of (\<lambda>_. 1) ?p (numWritten st) ?cs"
    using Write_v1_spec [OF assms(1,2) l o1(1) assms(7)] by auto
  have o3: "out_ok s3" "acked s3 = acked s2 @ [(?F, pr')]" using session_writer.ack [OF o2(1) sf(2) assms(8)] by simp_all
  have "wire s3 = concat (map frame_bytes (map fst (acked s3)))" using o3(1) by (simp add: out_ok_def)
  also have "map fst (acked s3) = ?fs" using o1(2) o2(2) o3(2) by (simp add: fst_frames_of)
  finally have w: "ws_bytes conn = concat (map frame_bytes ?fs) @ []" using assms(10) by simp
  have c: "concat ?cs = a" using fs by (simp add: concat_chunk_list)
  have ch: "bytes b \<and> length b < 65536" if "b \<in> set ?cs" for b
  proof -
    have "set b \<subseteq> set a" using that c by (metis UN_upper set_concat)
    then show ?thesis using assms(3) chunk_list_length [OF that] fs by (auto simp: bytes_def)
  qed
  have pf: "\<forall>k \<in> set ?fs. peer_frame cf k"
    using sf ch by (auto simp: peer_frame_def frame_ok_def newFrame_def)
  have "sum_list (map (\<lambda>k. if cmd k = cmdPSH then int (length (data k)) else 0) (map (\<lambda>c. ?p\<lparr>data := c\<rparr>) cs)) = int (length (concat cs))"
    for cs by (induction cs) (simp_all add: newFrame_def)
  from this [of ?cs] have pb: "psh_bytes ?fs < MaxReceiveBuffer cf" using c assms(4) by (simp add: psh_bytes_def newFrame_def cmd_defs)
  have "filter (\<lambda>k. cmd k = cmdSYN) ?fs = [?S]" by (auto simp: newFrame_def cmd_defs filter_empty_conv)
  then have sy: "length (filter (\<lambda>k. cmd k = cmdSYN) ?fs) \<le> 1024" by simp
  have mr: "0 < MaxReceiveBuffer cf" using assms(4) by simp
  have "?cs \<noteq> [] \<longrightarrow> cmd ?p = cmdPSH \<and> sid ?p = ?i" by (simp add: newFrame_def)
  note conv = conversation [OF this, of ?v]
  obtain s' conn' where r: "recv_run cf dies ws_reader (newSession cf client) conn = Some (Inr (s', conn'))"
    "socketReadError s' = Some EOF" "recv_at s' = Ended" "chAccepts s' = [0..<length (objs s')]"
    "map (\<lambda>st. (st_id st, st_content st, chFinEvent st)) (objs s') = [(?i, a, True)]"
    using ws_reader.demux [OF mr assms(5) pf pb sy assms(9) w, of dies client] conv c by auto
  then obtain st'' where o: "objs s' = [st'']" "st_id st'' = ?i" "st_content st'' = a" "chFinEvent st''" by auto
  then show ?thesis using r by (intro exI [of _ s'] exI [of _ conn'] exI [of _ "s'\<lparr>chAccepts := []\<rparr>"] exI [of _ st'']) (simp add: AcceptStream_def)
qed

lemma demo_sends:
  "\<exists>n1 s1 n2 st' s2 n3 s3.
    writeFrameInternal (newFrame (to_u8 (Version DefaultConfig)) cmdSYN (st_id (newStream 3 1))) (uint64_of 0) (session_out_init (\<lambda>_. Sent Returned))
      = Some ((n1, None), s1) \<and>
    Write_v1 writeFrameInternal DefaultConfig [7, 8] (newStream 3 1) s1 = Some ((n2, None), st', s2) \<and>
    writeFrameInternal (newFrame (to_u8 (Version DefaultConfig)) cmdFIN (st_id (newStream 3 1))) (uint64_of 0) s2 = Some ((n3, None), s3) \<and>
    wire s3 \<noteq> [] \<and> length (wire s3) < 2 ^ 31"
proof -
  let ?st = "newStream 3 1" and ?s0 = "session_out_init (\<lambda>_. Sent Returned)"
  let ?S = "newFrame (to_u8 (Version DefaultConfig)) cmdSYN (st_id ?st)" and ?F = "newFrame (to_u8 (Version DefaultConfig)) cmdFIN (st_id ?st)"
  have so: "stream_ok DefaultConfig ?st" "\<not> st_die ?st" by (simp_all add: stream_ok_def newStream_def DefaultConfig_def u32_ok_def)
  have sf: "frame_ok ?S" "frame_ok ?F" by (simp_all add: frame_ok_def newFrame_def DefaultConfig_def newStream_def to_u8_mod u32_ok_def cmd_defs)
  have r0: "out_ok ?s0" "reliable ?s0" by (rule out_ok_init) (simp add: reliable_def session_out_init_def)
  obtain n1 s1 where s1: "writeFrameInternal ?S (uint64_of 0) ?s0 = Some ((n1, None), s1)" "reliable s1"
    using session_writer.good_ack [OF r0 sf(1)] by blast
  have o1: "out_ok s1" "acked s1 = [(?S, uint64_of 0)]" using session_writer.ack [OF r0(1) sf(1) s1(1)] by (simp_all add: session_out_init_def)
  have f: "0 < frameSize ?st" "frameSize ?st < 65536" by (simp_all add: newStream_def)
  obtain n2 st' s2 where s2: "Write_v1 writeFrameInternal DefaultConfig [7, 8] ?st s1 = Some ((n2, None), st', s2)" "reliable s2"
    using session_writer.write_loop_good [OF o1(1) s1(2) psh_frame_ok [OF so(1)] f, of "\<lambda>_. 1" "[7, 8]" 0] so(2)
    by (auto simp: Write_v1_def)
  have cs: "chunk_list (nat (frameSize ?st)) [7, 8 :: int] = [[7], [8]]" by (simp add: newStream_def chunk_list_cons)
  have "length [7, 8 :: int] < 2 ^ 31" by simp
  from Write_v1_spec [OF so(2,1) this o1(1) s2(1)] cs
  have o2: "out_ok s2" "map fst (acked s2) = [?S] @ map (\<lambda>c. (newFrame (to_u8 (Version DefaultConfig)) cmdPSH (st_id ?st))\<lparr>data := c\<rparr>) [[7], [8]]"
    using o1(2) fst_frames_of by auto
  obtain n3 s3 where s3: "writeFrameInternal ?F (uint64_of 0) s2 = Some ((n3, None), s3)"
    using session_writer.good_ack [OF o2(1) s2(2) sf(2)] by blast
  have o3: "out_ok s3" "map fst (acked s3) = map fst (acked s2) @ [?F]" using session_writer.ack [OF o2(1) sf(2) s3] by simp_all
  have "wire s3 = concat (map frame_bytes (map fst (acked s3)))" using o3(1) by (simp add: out_ok_def)
  then have "length (wire s3) = 34" unfolding o3(2) o2(2) by (simp add: frame_bytes_def newFrame_def)
  then have "wire s3 \<noteq> []" "length (wire s3) < 2 ^ 31" by auto
  then show ?thesis using s1(1) s2(1) s3 by blast
qed

theorem stream_end_to_end_witness:
  "\<exists>conn s' conn' s'' st''. recv_run DefaultConfig False ws_reader (newSession DefaultConfig False) conn = Some (Inr (s', conn')) \<and>
    AcceptStream AcceptReady s' = Some (Inr 0, s'') \<and> objs s'' = [st''] \<and> st_content st'' = [7, 8]"
proof -
  obtain n1 s1 n2 st' s2 n3 s3 where s: "writeFrameInternal (newFrame (to_u8 (Version DefaultConfig)) cmdSYN (st_id (newStream 3 1)))
      (uint64_of 0) (session_out_init (\<lambda>_. Sent Returned)) = Some ((n1, None), s1)"
    "Write_v1 writeFrameInternal DefaultConfig [7, 8] (newStream 3 1) s1 = Some ((n2, None), st', s2)"
    "writeFrameInternal (newFrame (to_u8 (Version DefaultConfig)) cmdFIN (st_id (newStream 3 1))) (uint64_of 0) s2 = Some ((n3, None), s3)"
    "wire s3 \<noteq> []" "length (wire s3) < 2 ^ 31" using demo_sends by blast
  let ?conn = "onClose (onMessage (wire s3) ws_init)"
  have c: "ws_ok ?conn" "ws_bytes ?conn = wire s3" using s(4,5)
    by (auto simp: ws_ok_def ws_bytes_def onClose_def onMessage_def ws_init_def intro!: exI [of _ "[wire s3]"])
  have st: "\<not> st_die (newStream 3 1)" "stream_ok DefaultConfig (newStream 3 1)" "bytes [7, 8]" "int (length [7, 8 :: int]) < MaxReceiveBuffer DefaultConfig"
    "MaxReceiveBuffer DefaultConfig < 2 ^ 31"
    by (simp_all add: stream_ok_def newStream_def DefaultConfig_def u32_ok_def)
  from stream_end_to_end [OF st s(1-3) c, of False False] show ?thesis by blast
qed

end
