(* ===== verification/Smux_Tokens.thy ===== *)
theory Smux_Tokens
  imports Smux_Session
begin

text \<open>
  The session as a whole: the goroutines that use it as steps on a shared state, the accounting of the bucket that
  bounds the unread data, the wake-ups of the receive loop, and the ids of streams.
\<close>

section \<open>Steps\<close>

text \<open>
  \<open>held\<close>: token counts of readers between taking data and \<open>returnTokens\<close>; \<open>pending\<close>: ids of \<open>OpenStream\<close> calls
  waiting for their SYN frame or the lock; \<open>finishing\<close>: ids of \<open>Stream.Close\<close> calls waiting for their FIN frame
  or the lock; \<open>closing\<close>: a \<open>Session.Close\<close> waiting for the lock.
\<close>

record session_sys =
  sess :: session
  held :: "int list"
  pending :: "int list"
  finishing :: "int list"
  closing :: bool

definition lock_free :: "session \<Rightarrow> bool" where
  "lock_free s \<longleftrightarrow> (case recv_at s of Accepting h \<Rightarrow> False | _ \<Rightarrow> True)"

definition session_start :: "config \<Rightarrow> bool \<Rightarrow> session_sys" where
  "session_start cf client = \<lparr>sess = newSession cf client, held = [], pending = [], finishing = [], closing = False\<rparr>"

inductive sess_step :: "config \<Rightarrow> session_sys \<Rightarrow> session_sys \<Rightarrow> bool" for cf where
  Open: "OpenStream_begin (sess y) = (r, s) \<Longrightarrow>
    sess_step cf y (y\<lparr>sess := s, pending := pending y @ (case r of Inr i \<Rightarrow> [i] | Inl e \<Rightarrow> [])\<rparr>)"
| OpenFailed: "i \<in> set (pending y) \<Longrightarrow> sess_step cf y (y\<lparr>pending := remove1 i (pending y)\<rparr>)"
| OpenEnd: "\<lbrakk>i \<in> set (pending y); lock_free (sess y); OpenStream_end cf ev i (sess y) = Some (r, s)\<rbrakk> \<Longrightarrow>
    sess_step cf y (y\<lparr>sess := s, pending := remove1 i (pending y)\<rparr>)"
| Accept: "AcceptStream ev (sess y) = Some (r, s) \<Longrightarrow> sess_step cf y (y\<lparr>sess := s\<rparr>)"
| Read: "\<lbrakk>h < length (objs (sess y)); tryRead cf n (objs (sess y) ! h) = (r, st)\<rbrakk> \<Longrightarrow>
    sess_step cf y (y\<lparr>sess := upd_obj h (\<lambda>_. st) (sess y),
      held := (if rd_tokens r > 0 then int (rd_tokens r) # held y else held y)\<rparr>)"
| WriteTo: "\<lbrakk>h < length (objs (sess y)); writeTo_section cf (objs (sess y) ! h) = (g, u, st)\<rbrakk> \<Longrightarrow>
    sess_step cf y (y\<lparr>sess := upd_obj h (\<lambda>_. st) (sess y),
      held := (case g of None \<Rightarrow> held y | Some bs \<Rightarrow> int (length bs) # held y)\<rparr>)"
| Return: "n \<in> set (held y) \<Longrightarrow> sess_step cf y (y\<lparr>sess := returnTokens n (sess y), held := remove1 n (held y)\<rparr>)"
| Write: "\<lbrakk>h < length (objs (sess y))\<rbrakk> \<Longrightarrow>
    sess_step cf y (y\<lparr>sess := upd_obj h (\<lambda>st. st\<lparr>numWritten := k, chUpdate := c\<rparr>) (sess y)\<rparr>)"
| ReadEventTaken: "\<lbrakk>h < length (objs (sess y))\<rbrakk> \<Longrightarrow>
    sess_step cf y (y\<lparr>sess := upd_obj h (\<lambda>st. st\<lparr>chReadEvent := c\<rparr>) (sess y)\<rparr>)"
| StreamClose: "\<lbrakk>h < length (objs (sess y)); Stream_Close_begin h (sess y) = (True, s)\<rbrakk> \<Longrightarrow>
    sess_step cf y (y\<lparr>sess := s, finishing := st_id (objs (sess y) ! h) # finishing y\<rparr>)"
| StreamClosed: "\<lbrakk>i \<in> set (finishing y); lock_free (sess y); streamClosed i (sess y) = Inr s\<rbrakk> \<Longrightarrow>
    sess_step cf y (y\<lparr>sess := s, finishing := remove1 i (finishing y)\<rparr>)"
| CloseBegin: "Close_begin (sess y) = (True, s) \<Longrightarrow> sess_step cf y (y\<lparr>sess := s, closing := True\<rparr>)"
| CloseStreams: "\<lbrakk>closing y; lock_free (sess y)\<rbrakk> \<Longrightarrow> sess_step cf y (y\<lparr>sess := Close_streams (sess y), closing := False\<rparr>)"
| RecvTop: "recv_at (sess y) = AtTop \<Longrightarrow> sess_step cf y (y\<lparr>sess := recv_top (sess y)\<rparr>)"
| RecvHeader: "\<lbrakk>recv_at (sess y) = AwaitHeader; length b = 8; bytes b; recv_header cf dies b (sess y) = Inr s\<rbrakk> \<Longrightarrow>
    sess_step cf y (y\<lparr>sess := s\<rparr>)"
| RecvPayload: "\<lbrakk>recv_at (sess y) = AwaitPayload i n; int (length w) = n\<rbrakk> \<Longrightarrow>
    sess_step cf y (y\<lparr>sess := recv_payload i w (sess y)\<rparr>)"
| RecvUpdate: "\<lbrakk>recv_at (sess y) = AwaitUpdate i; length c = 8; bytes c; recv_update i c (sess y) = Inr s\<rbrakk> \<Longrightarrow>
    sess_step cf y (y\<lparr>sess := s\<rparr>)"
| RecvFail: "recv_at (sess y) \<notin> {AtTop, AwaitBucket, Ended} \<Longrightarrow> lock_free (sess y) \<Longrightarrow>
    sess_step cf y (y\<lparr>sess := recv_fail e (sess y)\<rparr>)"
| RecvWake: "recv_wake (sess y) = Some s \<Longrightarrow> sess_step cf y (y\<lparr>sess := s\<rparr>)"
| Tick: "sess_step cf y (y\<lparr>sess := keepalive_tick (sess y)\<rparr>)"
| Timeout: "keepalive_timeout (sess y) = (b, s) \<Longrightarrow> sess_step cf y (y\<lparr>sess := s\<rparr>)"
| WriteError: "sess_step cf y (y\<lparr>sess := notifyWriteError e (sess y)\<rparr>)"

definition session_reachable :: "config \<Rightarrow> bool \<Rightarrow> session_sys \<Rightarrow> bool" where
  "session_reachable cf client = (sess_step cf)\<^sup>*\<^sup>* (session_start cf client)"

section \<open>Shape of the state\<close>

definition unread :: "session \<Rightarrow> int" where
  "unread s = sum_list (map (\<lambda>st. int (length (st_content st))) (objs s))"

definition phase_ok :: "recv_phase \<Rightarrow> bool" where
  "phase_ok p \<longleftrightarrow> (case p of AwaitPayload i n \<Rightarrow> 0 < n \<and> n < 65536 | _ \<Rightarrow> True)"

definition table_ok :: "session \<Rightarrow> bool" where
  "table_ok s \<longleftrightarrow> (\<forall>st \<in> set (objs s). st_inv st) \<and> (\<forall>ih \<in> set (streams s). snd ih < length (objs s)) \<and> phase_ok (recv_at s)"

lemma table_ref: "table_ok s \<Longrightarrow> map_of (streams s) i = Some h \<Longrightarrow> h < length (objs s)"
  by (drule map_of_SomeD) (auto simp: table_ok_def)

lemma obj_ok: "table_ok s \<Longrightarrow> h < length (objs s) \<Longrightarrow> st_inv (objs s ! h)"
  by (simp add: table_ok_def)

lemma sum_list_map_update:
  fixes f :: "'a \<Rightarrow> int"
  shows "h < length xs \<Longrightarrow> sum_list (map f (xs[h := x])) = sum_list (map f xs) - f (xs ! h) + f x"
  by (induction xs arbitrary: h) (auto split: nat.splits)

lemma unread_upd_obj:
  "h < length (objs s) \<Longrightarrow> unread (upd_obj h f s)
     = unread s - int (length (st_content (objs s ! h))) + int (length (st_content (f (objs s ! h))))"
  by (simp add: unread_def upd_obj_def sum_list_map_update)

lemma unread_nonneg: "0 \<le> unread s"
  unfolding unread_def by (rule sum_list_nonneg) auto

lemma table_ok_upd_obj:
  "table_ok s \<Longrightarrow> h < length (objs s) \<Longrightarrow> st_inv (f (objs s ! h)) \<Longrightarrow> table_ok (upd_obj h f s)"
  by (auto simp: table_ok_def upd_obj_def set_conv_nth nth_list_update)

section \<open>Every step keeps the shape\<close>

lemma add_tokens_fields [simp]:
  "objs (add_tokens n s) = objs s" "streams (add_tokens n s) = streams s" "recv_at (add_tokens n s) = recv_at s"
  "ss_die (add_tokens n s) = ss_die s"
  by (simp_all add: add_tokens_def AddInt32_def Let_def notifyBucket_def)

lemma table_okI:
  "objs s' = objs s \<Longrightarrow> streams s' = streams s \<Longrightarrow> phase_ok (recv_at s') \<Longrightarrow> table_ok s \<Longrightarrow> table_ok s'"
  by (auto simp: table_ok_def)

lemma set_AList_update: "set (AList.update k v xs) \<subseteq> insert (k, v) (set xs)"
  by (induction xs) auto

lemma new_stream_ok:
  assumes "table_ok s"
  shows "table_ok (new_stream cf i s)"
proof -
  have "snd ih < Suc (length (objs s))" if "ih \<in> set (AList.update i (length (objs s)) (streams s))" for ih
    using that set_AList_update [of i "length (objs s)" "streams s"] assms by (auto simp: table_ok_def less_Suc_eq)
  with assms show ?thesis by (auto simp: table_ok_def new_stream_def st_inv_new)
qed

lemma recycle_ok: "st_inv st \<Longrightarrow> recycleTokens st = Inr (e, freed, st') \<Longrightarrow> st_inv st' \<and> st_content st' = []"
  by (auto simp: recycleTokens_def st_inv_def st_content_def)

lemma streamClosed_cases:
  assumes "streamClosed i s = Inr s'"
  obtains h e freed st where "map_of (streams s) i = Some h" "recycleTokens (objs s ! h) = Inr (e, freed, st)"
    "s' = (if e > 0 then add_tokens e (upd_obj h (\<lambda>_. st) s) else upd_obj h (\<lambda>_. st) s)\<lparr>streams := AList.delete i (streams s)\<rparr>"
proof -
  obtain h where h: "map_of (streams s) i = Some h" using assms by (auto simp: streamClosed_def split: option.splits)
  then obtain e freed st where r: "recycleTokens (objs s ! h) = Inr (e, freed, st)"
    using assms by (auto simp: streamClosed_def res_bind_Inr_iff)
  show ?thesis using that [OF h r] assms h r
    by (auto simp: streamClosed_def Let_def upd_obj_def add_tokens_def AddInt32_def notifyBucket_def split: if_splits)
qed

lemma phase_ok_simps [simp]:
  "phase_ok AtTop" "phase_ok AwaitBucket" "phase_ok AwaitHeader" "phase_ok (AwaitUpdate i)" "phase_ok (Accepting h)" "phase_ok Ended"
  "phase_ok (AwaitPayload i n) \<longleftrightarrow> 0 < n \<and> n < 65536"
  by (simp_all add: phase_ok_def)

lemma hdr_Length_range: "bytes b \<Longrightarrow> length b = 8 \<Longrightarrow> hdr_Length b = Inr n \<Longrightarrow> 0 \<le> n \<and> n < 65536"
  unfolding hdr_Length_def using le16.get_num [of "drop 2 b"] by (auto simp: bytes_drop u16_ok_def)

text \<open>Steps that leave the bucket, its channel, \<open>die\<close> and the unread data alone.\<close>

definition quiet :: "session \<Rightarrow> session \<Rightarrow> bool" where
  "quiet s s' \<longleftrightarrow> table_ok s' \<and> bucket s' = bucket s \<and> bucketNotify s' = bucketNotify s \<and> ss_die s' = ss_die s \<and> unread s' = unread s"

lemma quiet_phase: "table_ok s \<Longrightarrow> phase_ok p \<Longrightarrow> quiet s (s\<lparr>recv_at := p\<rparr>)"
  by (simp add: quiet_def unread_def table_ok_def)

lemma quiet_obj:
  "table_ok s \<Longrightarrow> h < length (objs s) \<Longrightarrow> st_inv (f (objs s ! h)) \<Longrightarrow> st_content (f (objs s ! h)) = st_content (objs s ! h)
    \<Longrightarrow> quiet s (upd_obj h f s)"
  by (simp add: quiet_def table_ok_upd_obj unread_upd_obj)

lemma quiet_new: "table_ok s \<Longrightarrow> quiet s (new_stream cf i s)"
  by (simp add: quiet_def new_stream_ok) (simp add: new_stream_def unread_def st_content_new)

lemma quiet_trans: "quiet s s' \<Longrightarrow> quiet s' s'' \<Longrightarrow> quiet s s''"
  by (simp add: quiet_def)

lemma quiet_refl: "table_ok s \<Longrightarrow> quiet s s"
  by (simp add: quiet_def)

lemma quiet_errors:
  "table_ok s \<Longrightarrow> quiet s (notifyReadError e s)" "table_ok s \<Longrightarrow> quiet s (notifyWriteError e s)"
  "table_ok s \<Longrightarrow> quiet s (notifyProtoError e s)"
  by (auto simp: quiet_def notifyReadError_def notifyWriteError_def notifyProtoError_def unread_def table_ok_def)

lemma quiet_ready: "table_ok s \<Longrightarrow> quiet s (s\<lparr>dataReady := d\<rparr>)" and quiet_accepts: "table_ok s \<Longrightarrow> quiet s (s\<lparr>chAccepts := hs\<rparr>)"
  by (simp_all add: quiet_def unread_def table_ok_def)

lemma quiet_table: "quiet s s' \<Longrightarrow> table_ok s'"
  by (simp add: quiet_def)

lemma quiet_offer: "table_ok s \<Longrightarrow> quiet s (offer_accept dies h s)"
  by (auto simp: offer_accept_def quiet_def unread_def table_ok_def)

lemma quiet_SYN: "table_ok s \<Longrightarrow> quiet s (recv_SYN cf dies i s)"
  by (auto simp: recv_SYN_def quiet_phase split: option.splits
      intro: quiet_trans [OF quiet_new] quiet_offer new_stream_ok)

lemma st_flags [simp]:
  "st_inv (notifyReadEvent st) = st_inv st" "st_content (notifyReadEvent st) = st_content st"
  "st_inv (fin st) = st_inv st" "st_content (fin st) = st_content st"
  "st_inv (update c w st) = st_inv st" "st_content (update c w st) = st_content st"
  by (simp_all add: st_inv_def st_content_def notifyReadEvent_def fin_def update_def)

lemma quiet_FIN: "table_ok s \<Longrightarrow> quiet s (recv_FIN i s)"
  by (auto simp: recv_FIN_def quiet_phase obj_ok table_ref split: option.splits
      intro!: quiet_trans [OF quiet_obj quiet_phase] table_ok_upd_obj)

lemma quiet_update: "table_ok s \<Longrightarrow> recv_update i c s = Inr s' \<Longrightarrow> quiet s s'"
  by (auto simp: recv_update_def quiet_phase obj_ok table_ref res_bind_Inr_iff split: option.splits
      intro!: quiet_trans [OF quiet_obj quiet_phase] table_ok_upd_obj)

lemma quiet_fail: "table_ok s \<Longrightarrow> quiet s (recv_fail e s)" and quiet_invalid: "table_ok s \<Longrightarrow> quiet s (recv_invalid s)"
  unfolding recv_fail_def recv_invalid_def
  by (rule quiet_trans [OF quiet_errors(1) quiet_phase], simp_all add: quiet_table [OF quiet_errors(1)])
    (rule quiet_trans [OF quiet_errors(3) quiet_phase], simp_all add: quiet_table [OF quiet_errors(3)])

lemma recv_phases:
  "recv_at (recv_SYN cf dies i s) \<in> {AtTop} \<union> range Accepting" "recv_at (recv_FIN i s) = AtTop"
  "recv_update i c s = Inr s' \<Longrightarrow> recv_at s' = AtTop" "recv_at (recv_invalid s) = Ended" "recv_at (recv_payload i w s) = AtTop"
  "recv_at (recv_fail e s) = Ended"
  by (auto simp: recv_SYN_def offer_accept_def recv_FIN_def recv_update_def recv_invalid_def recv_payload_def recv_fail_def
      res_bind_Inr_iff split: option.splits)

lemma recv_header_quiet:
  assumes "table_ok s" "length b = 8" "bytes b" "recv_header cf dies b s = Inr s'"
  shows "quiet s s' \<and> recv_at s' \<noteq> AwaitBucket"
proof -
  let ?s = "s\<lparr>dataReady := 1\<rparr>"
  have q: "quiet s ?s" and t: "table_ok ?s" using quiet_ready [OF assms(1), of 1] by (simp_all add: quiet_def)
  show ?thesis
  proof (cases "hdr_Version b \<noteq> to_u8 (Version cf)")
    case True
    then show ?thesis using assms(4) quiet_trans [OF q quiet_invalid [OF t]] recv_phases(4)
      by (auto simp: recv_header_def)
  next
    case False
    then obtain i where i: "hdr_StreamID b = Inr i" using assms(4) by (auto simp: recv_header_def res_bind_Inr_iff Let_def)
    consider "hdr_Cmd b = 3" | "hdr_Cmd b = 0" | "hdr_Cmd b = 1" | "hdr_Cmd b = 2" | "hdr_Cmd b = 4" | "hdr_Cmd b \<notin> {0, 1, 2, 3, 4}" by blast
    then show ?thesis
    proof cases
      case 2
      then have "s' = recv_SYN cf dies i ?s" using assms(4) False i by (simp add: recv_header_def)
      then show ?thesis using quiet_trans [OF q quiet_SYN [OF t]] recv_phases(1) [of cf dies i ?s] by auto
    next
      case 3
      then have "s' = recv_FIN i ?s" using assms(4) False i by (simp add: recv_header_def)
      then show ?thesis using quiet_trans [OF q quiet_FIN [OF t]] recv_phases(2) by simp
    next
      case 4
      then obtain n where n: "hdr_Length b = Inr n" "s' = ?s\<lparr>recv_at := if n > 0 then AwaitPayload i n else AtTop\<rparr>"
        using assms(4) False i by (auto simp: recv_header_def res_bind_Inr_iff)
      then have "phase_ok (if n > 0 then AwaitPayload i n else AtTop)" using hdr_Length_range [OF assms(3,2) n(1)] by simp
      from quiet_trans [OF q quiet_phase [OF t this]] show ?thesis using n(2) by simp
    next
      case 6
      then have "s' = recv_invalid ?s" using assms(4) False i by (simp add: recv_header_def)
      then show ?thesis using quiet_trans [OF q quiet_invalid [OF t]] recv_phases(4) by simp
    qed (use assms(4) False i quiet_trans [OF q quiet_phase [OF t]] in \<open>auto simp: recv_header_def\<close>)
  qed
qed

section \<open>The bucket\<close>

definition reading :: "recv_phase \<Rightarrow> bool" where
  "reading p \<longleftrightarrow> (case p of AwaitHeader \<Rightarrow> True | AwaitPayload i n \<Rightarrow> True | AwaitUpdate i \<Rightarrow> True | _ \<Rightarrow> False)"

lemma reading_simps [simp]:
  "\<not> reading AtTop" "\<not> reading AwaitBucket" "reading AwaitHeader" "reading (AwaitUpdate i)" "\<not> reading (Accepting h)" "\<not> reading Ended"
  "reading (AwaitPayload i n)"
  by (simp_all add: reading_def)

definition credit :: "config \<Rightarrow> session \<Rightarrow> int list \<Rightarrow> bool" where
  "credit cf s hs \<longleftrightarrow> (\<forall>n \<in> set hs. 0 \<le> n) \<and> (\<not> ss_die s \<longrightarrow>
     bucket s + unread s + sum_list hs = MaxReceiveBuffer cf \<and> - 65535 < bucket s \<and>
     (reading (recv_at s) \<longrightarrow> 0 < bucket s) \<and> (recv_at s = AwaitBucket \<and> 0 < bucket s \<longrightarrow> bucketNotify s))"

definition session_cf :: "config \<Rightarrow> bool" where
  "session_cf cf \<longleftrightarrow> 0 < MaxReceiveBuffer cf \<and> MaxReceiveBuffer cf + 65535 < 2 ^ 31"

lemma credit_quiet:
  "quiet s s' \<Longrightarrow> credit cf s hs \<Longrightarrow> reading (recv_at s') \<longrightarrow> reading (recv_at s) \<Longrightarrow> recv_at s' = AwaitBucket \<longrightarrow> recv_at s = AwaitBucket
    \<Longrightarrow> credit cf s' hs"
  by (auto simp: quiet_def credit_def)

lemma held_nonneg: "credit cf s hs \<Longrightarrow> 0 \<le> sum_list hs"
  by (auto simp: credit_def intro: sum_list_nonneg)

lemma credit_bounds:
  "credit cf s hs \<Longrightarrow> \<not> ss_die s \<Longrightarrow> session_cf cf \<Longrightarrow> bucket s + unread s + sum_list hs = MaxReceiveBuffer cf \<and>
    - 65535 < bucket s \<and> 0 \<le> unread s \<and> 0 \<le> sum_list hs \<and> unread s + sum_list hs < 2 ^ 31 \<and> bucket s < 2 ^ 31"
  using held_nonneg [of cf s hs] unread_nonneg [of s] by (simp add: credit_def session_cf_def)

lemma add_tokens_exact:
  assumes "- 65535 < bucket s" "0 \<le> n" "bucket s + n < 2 ^ 31" "n < 2 ^ 31"
  shows "add_tokens n s = s\<lparr>bucket := bucket s + n, bucketNotify := bucketNotify s \<or> 0 < bucket s + n\<rparr>"
proof -
  have n: "js_sar n 0 = n" using assms by (simp add: js_sar_eq ToInt32_id)
  show ?thesis using assms by (cases s) (simp add: add_tokens_def n AddInt32_exact notifyBucket_def Let_def)
qed

text \<open>A step that moves \<open>n\<close> tokens to the bucket, from unread data or from a reader's hands.\<close>

lemma credit_add_tokens:
  assumes "session_cf cf" "0 \<le> n" "n < 2 ^ 31" "\<forall>m \<in> set hs'. 0 \<le> m"
    and "\<not> ss_die s \<longrightarrow> bucket s + n + unread s + sum_list hs' = MaxReceiveBuffer cf \<and> - 65535 < bucket s \<and>
      (reading (recv_at s) \<longrightarrow> 0 < bucket s) \<and> (recv_at s = AwaitBucket \<and> 0 < bucket s \<longrightarrow> bucketNotify s)"
  shows "credit cf (add_tokens n s) hs'"
proof (cases "ss_die s")
  case True
  then show ?thesis using assms(4) by (simp add: credit_def)
next
  case False
  have "0 \<le> sum_list hs'" using assms(4) by (intro sum_list_nonneg) simp
  then have b: "bucket s + n < 2 ^ 31" using False assms(1,5) unread_nonneg [of s] by (simp add: session_cf_def)
  have e: "add_tokens n s = s\<lparr>bucket := bucket s + n, bucketNotify := bucketNotify s \<or> 0 < bucket s + n\<rparr>"
    by (rule add_tokens_exact) (use False assms(2,3,5) b in simp_all)
  show ?thesis unfolding e using False assms(2,4,5) by (auto simp: credit_def unread_def)
qed

definition sess_inv :: "config \<Rightarrow> session_sys \<Rightarrow> bool" where
  "sess_inv cf y \<longleftrightarrow> table_ok (sess y) \<and> credit cf (sess y) (held y)"

lemma start_sess_inv: "session_cf cf \<Longrightarrow> sess_inv cf (session_start cf client)"
  by (simp add: sess_inv_def session_start_def newSession_def table_ok_def credit_def unread_def session_cf_def js_sar_eq ToInt32_id)

lemma recycle_count:
  assumes "st_inv st" "recycleTokens st = Inr (e, freed, st')" "length (st_content st) < 2 ^ 31"
  shows "e = int (length (st_content st))"
proof -
  have "fold (\<lambda>buf n. js_sar (n + int (length buf)) 0) bs m = m + int (length (concat bs))"
    if "0 \<le> m" "m + int (length (concat bs)) < 2 ^ 31" for bs :: "int list list" and m
    using that
  proof (induction bs arbitrary: m)
    case (Cons b bs)
    have "js_sar (m + int (length b)) 0 = m + int (length b)" using Cons.prems by (simp add: js_sar_eq ToInt32_id)
    then show ?case using Cons.IH [of "m + int (length b)"] Cons.prems by simp
  qed simp
  from this [of 0 "buffers st"] show ?thesis using assms by (auto simp: recycleTokens_def st_inv_def st_content_def)
qed

lemma streamClosed_inv:
  assumes "session_cf cf" "table_ok s" "credit cf s hs" "streamClosed i s = Inr s'"
  shows "table_ok s' \<and> credit cf s' hs"
  using assms(4)
proof (cases rule: streamClosed_cases)
  case (1 h e freed st)
  have h: "h < length (objs s)" using table_ref [OF assms(2) 1(1)] .
  have st: "st_inv st" "st_content st = []" using recycle_ok [OF obj_ok [OF assms(2) h] 1(2)] by simp_all
  let ?u = "upd_obj h (\<lambda>_. st) s"
  have t: "table_ok ?u" using table_ok_upd_obj [OF assms(2) h, of "\<lambda>_. st"] st(1) by simp
  define n where "n = int (length (st_content (objs s ! h)))"
  have u: "unread ?u = unread s - n" using unread_upd_obj [OF h, of "\<lambda>_. st"] st(2) by (simp add: n_def)
  have le: "n \<le> unread s" using u unread_nonneg [of ?u] by simp
  have en: "\<not> ss_die s \<Longrightarrow> e = n \<and> n < 2 ^ 31"
    using credit_bounds [OF assms(3) _ assms(1)] le recycle_count [OF obj_ok [OF assms(2) h] 1(2)] by (simp add: n_def)
  let ?v = "if e > 0 then add_tokens e ?u else ?u"
  have "credit cf ?v hs"
  proof (cases "ss_die s")
    case True
    then show ?thesis using assms(3) by (simp add: credit_def)
  next
    case False
    note e = en [OF False]
    show ?thesis
    proof (cases "e > 0")
      case True
      have "credit cf (add_tokens e ?u) hs"
        by (rule credit_add_tokens [OF assms(1)]) (use True e u assms(3) False in \<open>auto simp: credit_def\<close>)
      then show ?thesis using True by simp
    next
      case no: False
      then have "n = 0" using e by (simp add: n_def)
      then have "quiet s ?u" using t u by (simp add: quiet_def)
      then show ?thesis using credit_quiet [OF _ assms(3)] no by simp
    qed
  qed
  moreover have "table_ok ?v" using t by (auto intro: table_okI simp: table_ok_def)
  ultimately have "table_ok (?v\<lparr>streams := AList.delete i (streams s)\<rparr>) \<and> credit cf (?v\<lparr>streams := AList.delete i (streams s)\<rparr>) hs"
    by (auto simp: table_ok_def credit_def unread_def AList.delete_eq)
  then show ?thesis using 1(3) by simp
qed

lemma credit_tokens_taken:
  assumes "credit cf s hs" "table_ok s" "h < length (objs s)" "st_inv st" "0 \<le> n"
    and "int (length (st_content (objs s ! h))) = n + int (length (st_content st))"
  shows "table_ok (upd_obj h (\<lambda>_. st) s) \<and> credit cf (upd_obj h (\<lambda>_. st) s) (n # hs)"
  using assms table_ok_upd_obj [of s h "\<lambda>_. st"] unread_upd_obj [of h s "\<lambda>_. st"] by (auto simp: credit_def)

lemma credit_zero: "credit cf s (0 # hs) \<Longrightarrow> credit cf s hs"
  by (simp add: credit_def)

lemma writeTo_section_spec:
  assumes "st_inv st" "writeTo_section cf st = (g, u, st')"
  shows "st_inv st' \<and> (case g of None \<Rightarrow> st_content st' = st_content st | Some bs \<Rightarrow> st_content st = bs @ st_content st')"
proof -
  obtain g' st1 where t: "take_buffer_out st = (g', st1)" by (metis prod.exhaust)
  have s1: "st_inv st1 \<and> (case g' of None \<Rightarrow> st_content st1 = st_content st | Some bs \<Rightarrow> st_content st = bs @ st_content st1)"
    using t assms(1) by (auto simp: take_buffer_out_def st_inv_def st_content_def split: list.splits)
  have c: "st_inv (snd (count_read m b st1)) = st_inv st1" "st_content (snd (count_read m b st1)) = st_content st1" for m b
    by (simp_all add: st_inv_def st_content_def)
  show ?thesis
  proof (cases "Version cf = 2")
    case True
    then have "g = g' \<and> st' = snd (count_read (MaxStreamBuffer cf) (case g' of None \<Rightarrow> 0 | Some bs \<Rightarrow> length bs) st1)"
      using assms(2) t by (auto simp: writeTo_section_def)
    then show ?thesis using s1 c by (simp split: option.splits)
  next
    case False
    then have "g = g' \<and> st' = st1" using assms(2) t by (simp add: writeTo_section_def)
    then show ?thesis using s1 by (cases g') simp_all
  qed
qed

lemma recv_payload_inv:
  assumes "session_cf cf" "table_ok s" "credit cf s hs" "recv_at s = AwaitPayload i (int (length w))"
  shows "table_ok (recv_payload i w s) \<and> credit cf (recv_payload i w s) hs"
proof -
  have n: "0 < length w" "length w < 65536" using assms(2,4) by (simp_all add: table_ok_def)
  show ?thesis
  proof (cases "map_of (streams s) i")
    case None
    then have "quiet s (recv_payload i w s)" using quiet_phase [OF assms(2)] by (simp add: recv_payload_def)
    then show ?thesis using credit_quiet [OF _ assms(3)] by (simp add: quiet_table recv_phases(5))
  next
    case (Some h)
    have h: "h < length (objs s)" using table_ref [OF assms(2) Some] .
    let ?u = "upd_obj h (pushBytes w) s"
    have p: "st_inv (pushBytes w (objs s ! h))" "st_content (pushBytes w (objs s ! h)) = st_content (objs s ! h) @ w"
      using push_spec [OF obj_ok [OF assms(2) h], of w] n(1) by simp_all
    let ?b = "snd (AddInt32 (bucket s) (- js_sar (int (length w)) 0))"
    let ?v = "upd_obj h notifyReadEvent (?u\<lparr>bucket := ?b\<rparr>)"
    have r: "recv_payload i w s = ?v\<lparr>recv_at := AtTop\<rparr>" using Some by (simp add: recv_payload_def Let_def)
    have "table_ok ?u" using table_ok_upd_obj [OF assms(2) h] p(1) .
    then have t1: "table_ok (?u\<lparr>bucket := ?b\<rparr>)" by (simp add: table_ok_def)
    have t: "table_ok ?v" using table_ok_upd_obj [OF t1, of h notifyReadEvent] h obj_ok [OF t1, of h] by simp
    have "unread ?u = unread s + int (length w)" using unread_upd_obj [OF h, of "pushBytes w"] p(2) by simp
    then have u: "unread ?v = unread s + int (length w)"
      using unread_upd_obj [of h "?u\<lparr>bucket := ?b\<rparr>" notifyReadEvent] h by (simp add: unread_def)
    have b: "\<not> ss_die s \<Longrightarrow> ?b = bucket s - int (length w)"
      using assms(3,4) n credit_bounds [OF assms(3) _ assms(1)]
      by (subst AddInt32_exact) (auto simp: credit_def js_sar_eq ToInt32_id)
    have "table_ok (?v\<lparr>recv_at := AtTop\<rparr>)" using t by (simp add: table_ok_def)
    moreover have "credit cf (?v\<lparr>recv_at := AtTop\<rparr>) hs"
    proof (cases "ss_die s")
      case True
      then show ?thesis using assms(3) by (simp add: credit_def)
    next
      case False
      have "unread (?v\<lparr>recv_at := AtTop\<rparr>) = unread s + int (length w)" using u by (simp add: unread_def)
      then show ?thesis using assms(3,4) n b [OF False] False by (auto simp: credit_def)
    qed
    ultimately show ?thesis using r by simp
  qed
qed

lemma sess_inv_quiet:
  "sess_inv cf y \<Longrightarrow> quiet (sess y) s \<Longrightarrow> reading (recv_at s) \<longrightarrow> reading (recv_at (sess y)) \<Longrightarrow>
    recv_at s = AwaitBucket \<longrightarrow> recv_at (sess y) = AwaitBucket \<Longrightarrow> table_ok s \<and> credit cf s (held y)"
  using credit_quiet [of "sess y" s cf "held y"] by (simp add: sess_inv_def quiet_table)

lemma dead_inv: "table_ok s' \<Longrightarrow> ss_die s' \<Longrightarrow> credit cf s hs \<Longrightarrow> table_ok s' \<and> credit cf s' hs"
  by (simp add: credit_def)

lemma recv_top_inv: "table_ok s \<Longrightarrow> credit cf s hs \<Longrightarrow> table_ok (recv_top s) \<and> credit cf (recv_top s) hs"
  by (auto simp: table_ok_def credit_def recv_top_def unread_def IsClosed_def)

lemma recv_wake_inv:
  "table_ok s \<Longrightarrow> credit cf s hs \<Longrightarrow> recv_wake s = Some s' \<Longrightarrow> table_ok s' \<and> credit cf s' hs"
  by (auto simp: credit_def recv_wake_def unread_def intro: table_okI [of _ s] split: recv_phase.splits if_splits)

lemma fold_sessionClose:
  "(\<forall>st \<in> set os. st_inv st) \<Longrightarrow> (\<forall>ih \<in> set ps. snd ih < length os) \<Longrightarrow>
    (\<forall>st \<in> set (fold (\<lambda>(i, h) os. os[h := sessionClose (os ! h)]) ps os). st_inv st) \<and>
    map st_content (fold (\<lambda>(i, h) os. os[h := sessionClose (os ! h)]) ps os) = map st_content os"
proof (induction ps arbitrary: os)
  case (Cons p ps)
  let ?os = "os[snd p := sessionClose (os ! snd p)]"
  have "st_inv (sessionClose (os ! snd p))" using Cons.prems by (simp add: sessionClose_def st_inv_def)
  then have "\<forall>st \<in> set ?os. st_inv st" using Cons.prems(1) by (auto dest!: set_update_subset_insert [THEN subsetD])
  moreover have "map st_content ?os = map st_content os"
  proof (rule nth_equalityI)
    fix i assume "i < length (map st_content ?os)"
    then show "map st_content ?os ! i = map st_content os ! i"
      by (cases "i = snd p") (simp_all add: sessionClose_def st_content_def)
  qed simp
  ultimately show ?case using Cons.IH [of ?os] Cons.prems(2) by (simp add: split_beta)
qed simp

lemma Close_streams_quiet:
  assumes "table_ok s"
  shows "quiet s (Close_streams s)"
proof -
  let ?os = "objs (Close_streams s)"
  have f: "(\<forall>st \<in> set ?os. st_inv st) \<and> map st_content ?os = map st_content (objs s)"
    using fold_sessionClose [of "objs s" "streams s"] assms by (simp add: table_ok_def Close_streams_def)
  have m: "map (\<lambda>st. int (length (st_content st))) os = map (\<lambda>bs. int (length bs)) (map st_content os)" for os by simp
  have l: "length ?os = length (objs s)" using f by (metis length_map)
  have "unread (Close_streams s) = unread s" unfolding unread_def m using f by simp
  then show ?thesis using assms f l by (simp add: quiet_def table_ok_def) (simp add: Close_streams_def)
qed

lemma OpenStream_quiet:
  "table_ok s \<Longrightarrow> OpenStream_begin s = (r, s') \<Longrightarrow> quiet s s' \<and> recv_at s' = recv_at s"
  "table_ok s \<Longrightarrow> OpenStream_end cf ev i s = Some (r', s') \<Longrightarrow> quiet s s' \<and> recv_at s' = recv_at s"
  using quiet_new [of s cf i]
  by (auto simp: OpenStream_begin_def OpenStream_end_def Let_def quiet_refl quiet_def unread_def new_stream_def
      intro: table_okI [of _ s] split: if_splits open_event.splits) (simp_all add: table_ok_def)

lemma AcceptStream_quiet:
  "table_ok s \<Longrightarrow> AcceptStream ev s = Some (r, s') \<Longrightarrow> quiet s s' \<and> (recv_at s' = recv_at s \<or> recv_at s' = AtTop)"
  by (auto simp: AcceptStream_def quiet_def unread_def intro: table_okI [of _ s]
      split: accept_event.splits list.splits recv_phase.splits if_splits) (simp_all add: table_ok_def)

lemma timeout_cases:
  assumes "keepalive_timeout s = (b, s')"
  obtains d where "s' = s\<lparr>dataReady := d\<rparr>" "\<not> b \<or> ss_die s"
    | d where "s' = Close_streams (s\<lparr>dataReady := d, ss_die := True\<rparr>)" "b" "\<not> ss_die s"
proof -
  obtain ok d where c: "CompareAndSwapInt32 (dataReady s) 1 0 = (ok, d)" by (metis prod.exhaust)
  show ?thesis
  proof (cases "\<not> ok \<and> bucket s > 0 \<and> \<not> ss_die s")
    case True
    then show ?thesis using assms c that(2) [of d] by (simp add: keepalive_timeout_def Session_Close_def Close_begin_def Let_def)
  next
    case False
    then have "s' = s\<lparr>dataReady := d\<rparr> \<and> (\<not> b \<or> ss_die s)" using assms c
      by (auto simp: keepalive_timeout_def Session_Close_def Close_begin_def Let_def split: if_splits)
    then show ?thesis using that(1) by blast
  qed
qed

lemma timeout_inv:
  assumes "table_ok s" "credit cf s hs" "keepalive_timeout s = (b, s')"
  shows "table_ok s' \<and> credit cf s' hs"
  using assms(3)
proof (cases rule: timeout_cases)
  case (1 d)
  then show ?thesis using assms(1,2) by (simp add: table_ok_def credit_def unread_def)
next
  case (2 d)
  have "table_ok (s\<lparr>dataReady := d, ss_die := True\<rparr>)" using assms(1) by (simp add: table_ok_def)
  from quiet_table [OF Close_streams_quiet [OF this]] have "table_ok s'" unfolding 2(1) .
  moreover have "ss_die s'" unfolding 2(1) by (simp add: Close_streams_def)
  ultimately show ?thesis by (rule dead_inv [OF _ _ assms(2)])
qed

lemma flags_only:
  "st_inv (st\<lparr>numWritten := k, chUpdate := c\<rparr>) = st_inv st" "st_content (st\<lparr>numWritten := k, chUpdate := c\<rparr>) = st_content st"
  "st_inv (st\<lparr>chReadEvent := c\<rparr>) = st_inv st" "st_content (st\<lparr>chReadEvent := c\<rparr>) = st_content st"
  "st_inv (st\<lparr>st_die := d\<rparr>) = st_inv st" "st_content (st\<lparr>st_die := d\<rparr>) = st_content st"
  by (simp_all add: st_inv_def st_content_def)

lemma Stream_Close_begin_True:
  "Stream_Close_begin h s = (True, s') \<Longrightarrow> s' = upd_obj h (\<lambda>st. st\<lparr>st_die := True\<rparr>) s \<and> \<not> st_die (objs s ! h)"
  by (auto simp: Stream_Close_begin_def upd_obj_def split: if_splits)

lemma credit_remove: "n \<in> set hs \<Longrightarrow> sum_list hs = n + sum_list (remove1 n hs)" for n :: int
  by (induction hs) auto

lemma credit_return:
  assumes "session_cf cf" "table_ok s" "credit cf s hs" "n \<in> set hs"
  shows "table_ok (returnTokens n s) \<and> credit cf (returnTokens n s) (remove1 n hs)"
proof -
  have n: "0 \<le> n" using assms(3,4) by (simp add: credit_def)
  have r: "\<forall>m \<in> set (remove1 n hs). 0 \<le> m" using assms(3) set_remove1_subset [of n hs] by (auto simp: credit_def)
  have "n < 2 ^ 31 \<or> ss_die s"
    using credit_bounds [OF assms(3) _ assms(1)] credit_remove [OF assms(4)] sum_list_nonneg [of "remove1 n hs"] r by fastforce
  then have "credit cf (add_tokens n s) (remove1 n hs)"
  proof
    assume "ss_die s"
    then show ?thesis using r by (simp add: credit_def)
  next
    assume "n < 2 ^ 31"
    then show ?thesis
      by (rule credit_add_tokens [OF assms(1) n _ r]) (use assms(3) credit_remove [OF assms(4)] in \<open>auto simp: credit_def\<close>)
  qed
  then show ?thesis using assms(2) by (simp add: returnTokens_def table_ok_def)
qed

lemma sess_inv_step:
  assumes "session_cf cf" "sess_step cf y y'" "sess_inv cf y"
  shows "sess_inv cf y'"
proof -
  have t: "table_ok (sess y)" and c: "credit cf (sess y) (held y)" using assms(3) by (simp_all add: sess_inv_def)
  note q = sess_inv_quiet [OF assms(3)]
  have obj: "table_ok (upd_obj h f (sess y)) \<and> credit cf (upd_obj h f (sess y)) (held y)"
    if "h < length (objs (sess y))" "\<And>st. st_inv (f st) = st_inv st" "\<And>st. st_content (f st) = st_content st" for h f
    by (rule q [OF quiet_obj [OF t that(1)]]) (use that obj_ok [OF t that(1)] in simp_all)
  from assms(2) show ?thesis
  proof cases
    case (Open r s)
    from OpenStream_quiet(1) [OF t Open(2)] have "table_ok s \<and> credit cf s (held y)" by (intro q) simp_all
    then show ?thesis using Open(1) by (simp add: sess_inv_def)
  next
    case (OpenEnd i ev r s)
    from OpenStream_quiet(2) [OF t OpenEnd(4)] have "table_ok s \<and> credit cf s (held y)" by (intro q) simp_all
    then show ?thesis using OpenEnd(1) by (simp add: sess_inv_def)
  next
    case (Accept ev r s)
    from AcceptStream_quiet [OF t Accept(2)] have "table_ok s \<and> credit cf s (held y)" by (intro q) auto
    then show ?thesis using Accept(1) by (simp add: sess_inv_def)
  next
    case (Read h n r st)
    from tryRead_spec [OF obj_ok [OF t Read(2)] Read(3)]
    have r: "st_inv st" "rd_bytes r @ st_content st = st_content (objs (sess y) ! h)" "rd_tokens r = length (rd_bytes r)" by simp_all
    then have "int (length (st_content (objs (sess y) ! h))) = int (rd_tokens r) + int (length (st_content st))"
      by (simp flip: of_nat_add length_append)
    from credit_tokens_taken [OF c t Read(2) r(1) _ this]
    have i: "table_ok (upd_obj h (\<lambda>_. st) (sess y))" "credit cf (upd_obj h (\<lambda>_. st) (sess y)) (int (rd_tokens r) # held y)" by simp_all
    show ?thesis
    proof (cases "rd_tokens r > 0")
      case True
      then show ?thesis using Read(1) i by (simp add: sess_inv_def)
    next
      case False
      then show ?thesis using Read(1) i credit_zero by (simp add: sess_inv_def)
    qed
  next
    case (WriteTo h g u st)
    from writeTo_section_spec [OF obj_ok [OF t WriteTo(2)] WriteTo(3)]
    have r: "st_inv st" "case g of None \<Rightarrow> st_content st = st_content (objs (sess y) ! h) | Some bs \<Rightarrow> st_content (objs (sess y) ! h) = bs @ st_content st"
      by simp_all
    show ?thesis
    proof (cases g)
      case None
      then show ?thesis using credit_tokens_taken [OF c t WriteTo(2) r(1), of 0] r(2) WriteTo(1) credit_zero by (simp add: sess_inv_def)
    next
      case (Some bs)
      then show ?thesis using credit_tokens_taken [OF c t WriteTo(2) r(1), of "int (length bs)"] r(2) WriteTo(1) by (simp add: sess_inv_def)
    qed
  next
    case (Return n)
    then show ?thesis using credit_return [OF assms(1) t c Return(2)] by (simp add: sess_inv_def)
  next
    case (Write h k ch)
    then show ?thesis using obj [OF Write(2) flags_only(1,2)] by (simp add: sess_inv_def)
  next
    case (ReadEventTaken h ch)
    then show ?thesis using obj [OF ReadEventTaken(2) flags_only(3,4)] by (simp add: sess_inv_def)
  next
    case (StreamClose h s)
    then show ?thesis using obj [OF StreamClose(2) flags_only(5,6)] Stream_Close_begin_True [OF StreamClose(3)] by (simp add: sess_inv_def)
  next
    case (StreamClosed i s)
    then show ?thesis using streamClosed_inv [OF assms(1) t c StreamClosed(4)] by (simp add: sess_inv_def)
  next
    case (CloseBegin s)
    then have "s = (sess y)\<lparr>ss_die := True\<rparr>" by (auto simp: Close_begin_def split: if_splits)
    then show ?thesis using dead_inv [of s cf "sess y"] t c CloseBegin(1) by (simp add: sess_inv_def table_ok_def)
  next
    case CloseStreams
    have "table_ok (Close_streams (sess y)) \<and> credit cf (Close_streams (sess y)) (held y)"
      by (rule q [OF Close_streams_quiet [OF t]]) (simp_all add: Close_streams_def)
    then show ?thesis using CloseStreams(1) by (simp add: sess_inv_def)
  next
    case RecvTop
    then show ?thesis using recv_top_inv [OF t c] by (simp add: sess_inv_def)
  next
    case (RecvHeader b dies s)
    from recv_header_quiet [OF t RecvHeader(3,4,5)] RecvHeader(2) have "table_ok s \<and> credit cf s (held y)" by (intro q) simp_all
    then show ?thesis using RecvHeader(1) by (simp add: sess_inv_def)
  next
    case (RecvPayload i n w)
    then show ?thesis using recv_payload_inv [OF assms(1) t c, of i w] by (simp add: sess_inv_def)
  next
    case (RecvUpdate i b s)
    have "table_ok s \<and> credit cf s (held y)"
      by (rule q [OF quiet_update [OF t RecvUpdate(5)]]) (use recv_phases(3) [OF RecvUpdate(5)] in simp_all)
    then show ?thesis using RecvUpdate(1) by (simp add: sess_inv_def)
  next
    case (RecvFail e)
    have "table_ok (recv_fail e (sess y)) \<and> credit cf (recv_fail e (sess y)) (held y)"
      by (rule q [OF quiet_fail [OF t]]) (simp_all add: recv_phases(6))
    then show ?thesis using RecvFail(1) by (simp add: sess_inv_def)
  next
    case (RecvWake s)
    then show ?thesis using recv_wake_inv [OF t c RecvWake(2)] by (simp add: sess_inv_def)
  next
    case Tick
    then show ?thesis using t c by (auto simp: sess_inv_def keepalive_tick_def notifyBucket_def table_ok_def credit_def unread_def)
  next
    case (Timeout b s)
    then show ?thesis using timeout_inv [OF t c Timeout(2)] by (simp add: sess_inv_def)
  next
    case (WriteError e)
    have "table_ok (notifyWriteError e (sess y)) \<and> credit cf (notifyWriteError e (sess y)) (held y)"
      by (rule q [OF quiet_errors(2) [OF t]]) (simp_all add: notifyWriteError_def)
    then show ?thesis using WriteError by (simp add: sess_inv_def)
  qed (use assms(3) in \<open>simp add: sess_inv_def\<close>)
qed

lemma sess_inv_reachable:
  assumes "session_cf cf" "session_reachable cf client y"
  shows "sess_inv cf y"
  using assms(2) [unfolded session_reachable_def]
  by (induction rule: rtranclp_induct) (simp_all add: start_sess_inv assms(1) sess_inv_step)

text \<open>A session in which the peer opens stream 2, sends three bytes, and fills the bucket of two tokens.\<close>

definition demo_cf :: config where
  "demo_cf = DefaultConfig\<lparr>MaxReceiveBuffer := 2\<rparr>"

definition demo_state :: "recv_phase \<Rightarrow> int \<Rightarrow> bool \<Rightarrow> stream list \<Rightarrow> int list \<Rightarrow> session_sys" where
  "demo_state p b nt os hs = \<lparr>sess = \<lparr>nextStreamID = 0, goAway = 0, objs = os, streams = (if os = [] then [] else [(2, 0)]),
     bucket = b, bucketNotify = nt, chAccepts = (if os = [] then [] else [0]), ss_die = False, socketReadError = None,
     socketWriteError = None, protoError = None, dataReady = (if os = [] then 0 else 1), recv_at = p\<rparr>,
     held = hs, pending = [], finishing = [], closing = False\<rparr>"

definition demo_full :: stream where
  "demo_full = (newStream 2 32768)\<lparr>buffers := [[7, 8, 9]], heads := [[7, 8, 9]], chReadEvent := True\<rparr>"

definition demo_empty :: stream where
  "demo_empty = demo_full\<lparr>buffers := [], heads := []\<rparr>"

lemma demo_headers:
  "recv_header demo_cf False [1, 0, 0, 0, 2, 0, 0, 0] (sess (demo_state AwaitHeader 2 False [] [])) =
     Inr (sess (demo_state AtTop 2 False [newStream 2 32768] []))"
  "recv_header demo_cf False [1, 2, 3, 0, 2, 0, 0, 0] (sess (demo_state AwaitHeader 2 False [newStream 2 32768] [])) =
     Inr (sess (demo_state (AwaitPayload 2 3) 2 False [newStream 2 32768] []))"
  by code_simp+

lemma demo_blocked: "session_reachable demo_cf False (demo_state AwaitBucket (- 1) False [demo_full] [])"
proof -
  let ?st = "newStream 2 32768"
  have s: "session_start demo_cf False = demo_state AtTop 2 False [] []" by code_simp
  have b: "bytes [1, 0, 0, 0, 2, 0, 0, 0]" "bytes [1, 2, 3, 0, 2, 0, 0, 0]" by (simp_all add: bytes_def)
  have "sess_step demo_cf (demo_state AtTop 2 False [] []) (demo_state AwaitHeader 2 False [] [])"
    using sess_step.RecvTop [of "demo_state AtTop 2 False [] []" demo_cf] by (simp add: demo_state_def recv_top_def)
  moreover have "sess_step demo_cf (demo_state AwaitHeader 2 False [] []) (demo_state AtTop 2 False [?st] [])"
    using sess_step.RecvHeader [of "demo_state AwaitHeader 2 False [] []" _ demo_cf False, OF _ _ b(1) demo_headers(1)]
    by (simp add: demo_state_def)
  moreover have "sess_step demo_cf (demo_state AtTop 2 False [?st] []) (demo_state AwaitHeader 2 False [?st] [])"
    using sess_step.RecvTop [of "demo_state AtTop 2 False [?st] []" demo_cf] by (simp add: demo_state_def recv_top_def)
  moreover have "sess_step demo_cf (demo_state AwaitHeader 2 False [?st] []) (demo_state (AwaitPayload 2 3) 2 False [?st] [])"
    using sess_step.RecvHeader [of "demo_state AwaitHeader 2 False [?st] []" _ demo_cf False, OF _ _ b(2) demo_headers(2)]
    by (simp add: demo_state_def)
  moreover have "recv_payload 2 [7, 8, 9] (sess (demo_state (AwaitPayload 2 3) 2 False [?st] []))
      = sess (demo_state AtTop (- 1) False [demo_full] [])" by code_simp
  with sess_step.RecvPayload [of "demo_state (AwaitPayload 2 3) 2 False [?st] []" 2 3 "[7, 8, 9]" demo_cf]
  have "sess_step demo_cf (demo_state (AwaitPayload 2 3) 2 False [?st] []) (demo_state AtTop (- 1) False [demo_full] [])"
    by (simp add: demo_state_def)
  moreover have "sess_step demo_cf (demo_state AtTop (- 1) False [demo_full] []) (demo_state AwaitBucket (- 1) False [demo_full] [])"
    using sess_step.RecvTop [of "demo_state AtTop (- 1) False [demo_full] []" demo_cf] by (simp add: demo_state_def recv_top_def IsClosed_def)
  ultimately show ?thesis unfolding session_reachable_def s by (meson rtranclp.rtrancl_into_rtrancl rtranclp.rtrancl_refl)
qed

lemma demo_read: "session_reachable demo_cf False (demo_state AwaitBucket (- 1) False [demo_empty] [3])"
  and demo_returned: "session_reachable demo_cf False (demo_state AwaitBucket 2 True [demo_empty] [])"
proof -
  have "tryRead demo_cf 5 demo_full = (\<lparr>rd_bytes = [7, 8, 9], rd_error = None, rd_tokens = 3, rd_freed = [[7, 8, 9]], rd_update = None\<rparr>, demo_empty)"
    by code_simp
  with sess_step.Read [of 0 "demo_state AwaitBucket (- 1) False [demo_full] []" demo_cf 5]
  have r: "sess_step demo_cf (demo_state AwaitBucket (- 1) False [demo_full] []) (demo_state AwaitBucket (- 1) False [demo_empty] [3])"
    by (simp add: demo_state_def upd_obj_def)
  then show r2: "session_reachable demo_cf False (demo_state AwaitBucket (- 1) False [demo_empty] [3])"
    using demo_blocked unfolding session_reachable_def by (rule rtranclp.rtrancl_into_rtrancl [rotated])
  have "returnTokens 3 (sess (demo_state AwaitBucket (- 1) False [demo_empty] [3])) = sess (demo_state AwaitBucket 2 True [demo_empty] [])"
    by code_simp
  with sess_step.Return [of 3 "demo_state AwaitBucket (- 1) False [demo_empty] [3]" demo_cf]
  have "sess_step demo_cf (demo_state AwaitBucket (- 1) False [demo_empty] [3]) (demo_state AwaitBucket 2 True [demo_empty] [])"
    by (simp add: demo_state_def)
  then show "session_reachable demo_cf False (demo_state AwaitBucket 2 True [demo_empty] [])"
    using r2 unfolding session_reachable_def by (rule rtranclp.rtrancl_into_rtrancl [rotated])
qed

text \<open>
  C3: the bucket accounts for every byte: while a session is open, in every interleaving of its receive loop, its
  readers and the opening and closing of its streams, the tokens in the bucket, the bytes buffered in the
  streams and the tokens readers have yet to return add up to \<open>MaxReceiveBuffer\<close>; so the data held never
  exceeds it by more than the one frame the loop may have been reading.
\<close>

theorem tokens_conserved:
  assumes "session_cf cf" "session_reachable cf client y" "\<not> ss_die (sess y)"
  shows "bucket (sess y) + unread (sess y) + sum_list (held y) = MaxReceiveBuffer cf \<and>
    unread (sess y) + sum_list (held y) \<le> MaxReceiveBuffer cf + 65534"
  using sess_inv_reachable [OF assms(1,2)] assms(3) by (simp add: sess_inv_def credit_def)

theorem tokens_conserved_witness:
  "bucket (sess (demo_state AwaitBucket (- 1) False [demo_empty] [3])) + unread (sess (demo_state AwaitBucket (- 1) False [demo_empty] [3])) + 3 = 2"
proof -
  have "session_cf demo_cf" "\<not> ss_die (sess (demo_state AwaitBucket (- 1) False [demo_empty] [3]))" by code_simp+
  from tokens_conserved [OF this(1) demo_read this(2)] show ?thesis by (simp add: demo_cf_def demo_state_def)
qed

text \<open>
  C12: the receive loop is never left asleep: when it waits for tokens in an open session and the data held by the
  streams and their readers is below \<open>MaxReceiveBuffer\<close>, its wake-up is pending, and woken it goes on to
  read the next header.
\<close>

theorem recv_loop_wakes:
  assumes "session_cf cf" "session_reachable cf client y" "\<not> ss_die (sess y)"
    and "recv_at (sess y) = AwaitBucket" "unread (sess y) + sum_list (held y) < MaxReceiveBuffer cf"
  shows "\<exists>s. recv_wake (sess y) = Some s \<and> recv_at s = AtTop \<and> recv_at (recv_top s) = AwaitHeader"
proof -
  have "credit cf (sess y) (held y)" using sess_inv_reachable [OF assms(1,2)] by (simp add: sess_inv_def)
  then have "0 < bucket (sess y)" "bucketNotify (sess y)" using assms(3-5) by (auto simp: credit_def)
  then show ?thesis using assms(4) by (simp add: recv_wake_def recv_top_def)
qed

theorem recv_loop_wakes_witness:
  "\<exists>s. recv_wake (sess (demo_state AwaitBucket 2 True [demo_empty] [])) = Some s \<and> recv_at (recv_top s) = AwaitHeader"
proof -
  let ?y = "demo_state AwaitBucket 2 True [demo_empty] []"
  have "session_cf demo_cf" "\<not> ss_die (sess ?y)" "recv_at (sess ?y) = AwaitBucket"
    "unread (sess ?y) + sum_list (held ?y) < MaxReceiveBuffer demo_cf" by code_simp+
  from recv_loop_wakes [OF this(1) demo_returned this(2-4)] show ?thesis by blast
qed

end
