(* ===== verification/Smux_Ids.thy ===== *)
theory Smux_Ids
  imports Smux_Tokens
begin

text \<open>
  The ids of streams: a client opens odd ids and a server even ones, and a peer that keeps to its own half never
  collides with them.  Then a stream in use is the one the table has under its id, so closing it finds it.
\<close>

definition own :: "bool \<Rightarrow> int \<Rightarrow> bool" where
  "own client i \<longleftrightarrow> i mod 2 = (if client then 1 else 0)"

definition keys :: "session \<Rightarrow> int set" where
  "keys s = fst ` set (streams s)"

text \<open>Runs in which ids of this side's half enter the table only through \<open>OpenStream\<close>.\<close>

inductive polite_reachable :: "config \<Rightarrow> bool \<Rightarrow> session_sys \<Rightarrow> bool" for cf client where
  start: "polite_reachable cf client (session_start cf client)"
| step: "\<lbrakk>polite_reachable cf client y; sess_step cf y y';
    \<forall>i \<in> keys (sess y') - keys (sess y). own client i \<longrightarrow> i \<in> set (pending y) - set (pending y')\<rbrakk>
   \<Longrightarrow> polite_reachable cf client y'"

lemma polite_reachable_sess: "polite_reachable cf client y \<Longrightarrow> session_reachable cf client y"
  unfolding session_reachable_def
  by (induction rule: polite_reachable.induct) (auto intro: rtranclp.rtrancl_into_rtrancl)

text \<open>Ids handed out, the objects under them, and the ids being closed.\<close>

definition fresh_ok :: "bool \<Rightarrow> int \<Rightarrow> int \<Rightarrow> int set \<Rightarrow> bool" where
  "fresh_ok client nxt away ids \<longleftrightarrow> 0 \<le> nxt \<and> nxt < 2 ^ 32 \<and> own client nxt \<and>
     (away \<le> 0 \<longrightarrow> (\<forall>i \<in> ids. own client i \<longrightarrow> i \<le> nxt))"

definition live_ok :: "stream list \<Rightarrow> (int \<times> nat) list \<Rightarrow> int list \<Rightarrow> bool" where
  "live_ok os tb fs \<longleftrightarrow> distinct (map fst tb) \<and> (\<forall>ih \<in> set tb. snd ih < length os) \<and>
     (\<forall>h < length os. \<not> st_die (os ! h) \<longrightarrow> map_of tb (st_id (os ! h)) = Some h) \<and>
     distinct fs \<and> (\<forall>i \<in> set fs. \<exists>h. map_of tb i = Some h \<and> st_die (os ! h))"

definition ids_ok :: "bool \<Rightarrow> session_sys \<Rightarrow> bool" where
  "ids_ok client y \<longleftrightarrow>
     fresh_ok client (nextStreamID (sess y)) (goAway (sess y)) (keys (sess y) \<union> set (pending y)) \<and>
     live_ok (objs (sess y)) (streams (sess y)) (finishing y) \<and>
     distinct (pending y) \<and> set (pending y) \<inter> keys (sess y) = {} \<and> (\<forall>i \<in> set (pending y). own client i)"

lemma ids_start: "ids_ok client (session_start cf client)"
  by (simp add: ids_ok_def session_start_def newSession_def keys_def fresh_ok_def live_ok_def own_def)

text \<open>What a step may do to the objects without touching the table.\<close>

definition same_lives :: "stream list \<Rightarrow> stream list \<Rightarrow> bool" where
  "same_lives os os' \<longleftrightarrow> length os' = length os \<and>
     (\<forall>h < length os. st_id (os' ! h) = st_id (os ! h) \<and> (st_die (os ! h) \<longrightarrow> st_die (os' ! h)))"

lemma nth_update_any: "xs[i := x] ! j = (if i = j \<and> j < length xs then x else xs ! j)"
  by (cases "j < length xs") (simp_all add: nth_list_update list_update_beyond, metis list_update_beyond not_le nth_list_update_neq)

lemma live_same: "live_ok os tb fs \<Longrightarrow> same_lives os os' \<Longrightarrow> live_ok os' tb fs"
  by (auto simp: live_ok_def same_lives_def) (metis map_of_SomeD snd_conv)

lemma same_refl: "same_lives os os"
  by (simp add: same_lives_def)

lemma same_upd:
  "st_id (f (os ! h)) = st_id (os ! h) \<Longrightarrow> (st_die (os ! h) \<longrightarrow> st_die (f (os ! h))) \<Longrightarrow> same_lives os (os[h := f (os ! h)])"
  by (cases "h < length os") (simp_all add: same_lives_def nth_list_update list_update_beyond)

lemma live_new:
  assumes "live_ok os tb fs" "map_of tb i = None" "st_id st = i"
  shows "live_ok (os @ [st]) (AList.update i (length os) tb) fs"
proof -
  have m: "map_of (AList.update i (length os) tb) = (map_of tb)(i \<mapsto> length os)" by (rule AList.update_conv')
  have s: "\<forall>ih \<in> set (AList.update i (length os) tb). snd ih < length (os @ [st])"
    using set_AList_update [of i "length os" tb] assms(1) by (force simp: live_ok_def)
  have d: "distinct (map fst (AList.update i (length os) tb))" using assms(1) by (simp add: live_ok_def AList.distinct_update)
  have l: "map_of (AList.update i (length os) tb) (st_id ((os @ [st]) ! h)) = Some h"
    if "h < length (os @ [st])" "\<not> st_die ((os @ [st]) ! h)" for h
  proof (cases "h = length os")
    case True
    then show ?thesis using assms(3) m by simp
  next
    case False
    then have h: "h < length os" using that(1) by simp
    then have "map_of tb (st_id (os ! h)) = Some h" using assms(1) that(2) by (simp add: live_ok_def nth_append)
    then show ?thesis using assms(2) h m by (auto simp: nth_append)
  qed
  have f: "\<exists>h. map_of (AList.update i (length os) tb) j = Some h \<and> st_die ((os @ [st]) ! h)" if "j \<in> set fs" for j
  proof -
    obtain h where h: "map_of tb j = Some h" "st_die (os ! h)" using assms(1) \<open>j \<in> set fs\<close> by (auto simp: live_ok_def)
    then have "h < length os" using assms(1) map_of_SomeD [OF h(1)] by (auto simp: live_ok_def)
    then show ?thesis using h assms(2) m by (intro exI [of _ h]) (auto simp: nth_append)
  qed
  show ?thesis using d s l f assms(1) by (simp add: live_ok_def)
qed

lemma live_close:
  assumes "live_ok os tb fs" "h < length os" "\<not> st_die (os ! h)" "st_id st = st_id (os ! h)" "st_die st"
  shows "live_ok (os[h := st]) tb (st_id (os ! h) # fs)"
proof -
  have m: "map_of tb (st_id (os ! h)) = Some h" using assms(1-3) by (simp add: live_ok_def)
  then have "st_id (os ! h) \<notin> set fs" using assms(1,3) by (auto simp: live_ok_def)
  moreover have "\<exists>h'. map_of tb j = Some h' \<and> st_die (os[h := st] ! h')" if "j \<in> set (st_id (os ! h) # fs)" for j
  proof (cases "j = st_id (os ! h)")
    case True
    then show ?thesis using m assms(2,5) by simp
  next
    case False
    with that have "j \<in> set fs" by simp
    then obtain h' where "map_of tb j = Some h'" "st_die (os ! h')" using assms(1) by (auto simp: live_ok_def)
    then show ?thesis using assms(3) by (intro exI [of _ h']) (auto simp: nth_update_any)
  qed
  ultimately show ?thesis using assms(1,2,5) by (auto simp: live_ok_def nth_list_update)
qed

lemma live_closed:
  assumes "live_ok os tb fs" "i \<in> set fs" "map_of tb i = Some h" "st_id st = st_id (os ! h)" "st_die st = st_die (os ! h)"
  shows "live_ok (os[h := st]) (AList.delete i tb) (remove1 i fs)"
proof -
  have same: "st_id (os[h := st] ! k) = st_id (os ! k)" "st_die (os[h := st] ! k) = st_die (os ! k)" for k
    using assms(4,5) by (auto simp: nth_update_any)
  have m: "map_of (AList.delete i tb) = (map_of tb)(i := None)" by (rule AList.delete_conv')
  have d: "st_die (os ! h)" using assms(1-3) by (auto simp: live_ok_def)
  have "map_of (AList.delete i tb) (st_id (os ! k)) = Some k" if "k < length os" "\<not> st_die (os ! k)" for k
  proof -
    have "map_of tb (st_id (os ! k)) = Some k" using assms(1) that by (simp add: live_ok_def)
    moreover from this have "st_id (os ! k) \<noteq> i" using assms(3) d that(2) by auto
    ultimately show ?thesis using m by simp
  qed
  moreover have "\<exists>h'. map_of (AList.delete i tb) j = Some h' \<and> st_die (os ! h')" if "j \<in> set (remove1 i fs)" for j
    using that assms(1) m by (auto simp: live_ok_def)
  moreover have "distinct (map fst (AList.delete i tb))" using assms(1) by (simp add: live_ok_def AList.distinct_delete)
  ultimately show ?thesis using assms(1) by (auto simp: live_ok_def same AList.delete_eq)
qed

section \<open>Opening\<close>

lemma own_next: "own client n \<Longrightarrow> own client (n + 2)"
  by (simp add: own_def)

lemma fresh_mono: "fresh_ok client nxt away ids \<Longrightarrow> ids' \<subseteq> ids \<Longrightarrow> fresh_ok client nxt away ids'"
  by (auto simp: fresh_ok_def)

lemma fresh_other: "fresh_ok client nxt away ids \<Longrightarrow> \<not> own client i \<Longrightarrow> fresh_ok client nxt away (insert i ids)"
  by (auto simp: fresh_ok_def)

text \<open>\<open>OpenStream\<close> hands out an id above all own ids in use, or no id ever again.\<close>

lemma OpenStream_begin_fresh:
  assumes "fresh_ok client (nextStreamID s) (goAway s) ids" "OpenStream_begin s = (r, s')"
  shows "s' = s\<lparr>nextStreamID := nextStreamID s', goAway := goAway s'\<rparr> \<and>
    (case r of Inl e \<Rightarrow> fresh_ok client (nextStreamID s') (goAway s') ids
     | Inr i \<Rightarrow> i \<notin> ids \<and> own client i \<and> fresh_ok client (nextStreamID s') (goAway s') (insert i ids))"
proof (cases "IsClosed s \<or> goAway s > 0")
  case True
  then show ?thesis using assms by (auto simp: OpenStream_begin_def split: if_splits)
next
  case False
  let ?n = "nextStreamID s"
  have n: "0 \<le> ?n" "?n < 2 ^ 32" "own client ?n" "\<forall>i \<in> ids. own client i \<longrightarrow> i \<le> ?n" using assms(1) False by (simp_all add: fresh_ok_def)
  have b: "js_shr (?n + 2) 0 = (if ?n + 2 < 2 ^ 32 then ?n + 2 else ?n + 2 - 2 ^ 32)"
  proof (cases "?n + 2 < 2 ^ 32")
    case False
    have "(?n + 2) mod 2 ^ 32 = (?n + 2 - 2 ^ 32) mod 2 ^ 32" by (rule minus_mod_self2 [symmetric])
    also have "\<dots> = ?n + 2 - 2 ^ 32" using False n(2) by (intro mod_pos_pos_trivial) simp_all
    finally show ?thesis using False by (simp add: js_shr_0)
  qed (use n(1) in \<open>simp add: js_shr_0\<close>)
  show ?thesis
  proof (cases "?n + 2 < 2 ^ 32")
    case True
    then have m: "?n + 2 \<noteq> (?n + 2) mod 2" using n(1) pos_mod_bound [of 2 "?n + 2"] by linarith
    then have e: "r = Inr (?n + 2)" "s' = s\<lparr>nextStreamID := ?n + 2\<rparr>" using assms(2) False True b
      by (simp_all add: OpenStream_begin_def Let_def)
    have "?n + 2 \<notin> ids" using n(3,4) own_next [OF n(3)] by fastforce
    moreover have "fresh_ok client (?n + 2) (goAway s) (insert (?n + 2) ids)"
      using n own_next [OF n(3)] True by (fastforce simp: fresh_ok_def)
    ultimately show ?thesis using e own_next [OF n(3)] by simp
  next
    case wrap: False
    then have "?n + 2 - 2 ^ 32 \<in> {0, 1}" using n(2) by auto
    then have m: "?n + 2 - 2 ^ 32 = (?n + 2 - 2 ^ 32) mod 2" by auto
    have o: "own client (?n + 2 - 2 ^ 32)" 
    proof -
      have "?n + 2 - 2 ^ 32 = ?n + 2 * (1 - 2 ^ 31)" by simp
      then have "(?n + 2 - 2 ^ 32) mod 2 = ?n mod 2" by (simp only: mod_mult_self2)
      then show ?thesis using n(3) by (simp only: own_def)
    qed
    have e: "r = Inl ErrGoAway" "s' = s\<lparr>nextStreamID := ?n + 2 - 2 ^ 32, goAway := 1\<rparr>" using assms(2) False wrap b m
      by (simp_all add: OpenStream_begin_def Let_def)
    then show ?thesis using n(2) wrap o by (simp add: fresh_ok_def)
  qed
qed

section \<open>The other steps\<close>

definition calm :: "session \<Rightarrow> session \<Rightarrow> bool" where
  "calm s s' \<longleftrightarrow> nextStreamID s' = nextStreamID s \<and> goAway s' = goAway s \<and> streams s' = streams s \<and> same_lives (objs s) (objs s')"

definition opened :: "int \<Rightarrow> session \<Rightarrow> session \<Rightarrow> bool" where
  "opened i s s' \<longleftrightarrow> nextStreamID s' = nextStreamID s \<and> goAway s' = goAway s \<and>
     (\<exists>fs. objs s' = objs s @ [newStream i fs]) \<and> streams s' = AList.update i (length (objs s)) (streams s)"

lemma calm_upd:
  "(\<And>st. st_id (f st) = st_id st \<and> (st_die st \<longrightarrow> st_die (f st))) \<Longrightarrow> calm s (upd_obj h f s)"
  by (simp add: calm_def upd_obj_def same_upd)

lemma calm_trans: "calm s s' \<Longrightarrow> calm s' s'' \<Longrightarrow> calm s s''"
  by (simp add: calm_def same_lives_def)

lemma calm_phase: "calm s (s\<lparr>recv_at := p\<rparr>)" and calm_tokens: "calm s (add_tokens n s)"
  and calm_errors: "calm s (notifyReadError e s)" "calm s (notifyWriteError e s)" "calm s (notifyProtoError e s)"
  by (simp_all add: calm_def same_refl add_tokens_def AddInt32_def Let_def notifyBucket_def notifyReadError_def
      notifyWriteError_def notifyProtoError_def)

lemma flags_lives:
  "st_id (notifyReadEvent st) = st_id st \<and> st_die (notifyReadEvent st) = st_die st" "st_id (fin st) = st_id st \<and> st_die (fin st) = st_die st"
  "st_id (update c w st) = st_id st \<and> st_die (update c w st) = st_die st" "st_id (pushBytes w' st) = st_id st \<and> st_die (pushBytes w' st) = st_die st"
  by (simp_all add: notifyReadEvent_def fin_def update_def pushBytes_def)

lemma calm_recv:
  "calm s (recv_FIN i s)" "calm s (recv_invalid s)" "calm s (recv_fail e s)" "calm s (recv_payload i w s)"
  "recv_update i c s = Inr s' \<Longrightarrow> calm s s'" "calm s (recv_top s)" "recv_wake s = Some s' \<Longrightarrow> calm s s'"
proof -
  show "calm s (recv_FIN i s)"
    by (auto simp: recv_FIN_def flags_lives split: option.splits intro!: calm_trans [OF _ calm_phase] calm_upd calm_phase)
  show "calm s (recv_invalid s)" "calm s (recv_fail e s)"
    by (simp_all add: recv_invalid_def recv_fail_def calm_trans [OF calm_errors(1) calm_phase] calm_trans [OF calm_errors(3) calm_phase])
  have b: "calm s (s\<lparr>bucket := b\<rparr>)" for s b by (simp add: calm_def same_refl)
  show "calm s (recv_payload i w s)"
    by (auto simp: recv_payload_def Let_def flags_lives split: option.splits
        intro!: calm_trans [OF _ calm_phase] calm_trans [OF calm_trans [OF calm_upd b] calm_upd] calm_phase)
  show "recv_update i c s = Inr s' \<Longrightarrow> calm s s'"
    by (auto simp: recv_update_def res_bind_Inr_iff flags_lives split: option.splits
        intro!: calm_trans [OF calm_upd calm_phase] calm_phase)
  show "calm s (recv_top s)" by (simp add: recv_top_def calm_phase)
  show "recv_wake s = Some s' \<Longrightarrow> calm s s'"
    by (auto simp: recv_wake_def calm_def same_refl split: recv_phase.splits if_splits)
qed

lemma recv_SYN_cases:
  "calm s (recv_SYN cf dies i s) \<or> map_of (streams s) i = None \<and> opened i s (recv_SYN cf dies i s)"
  by (auto simp: recv_SYN_def calm_phase offer_accept_def opened_def new_stream_def split: option.splits)

lemma opened_ready: "opened i (s\<lparr>dataReady := d\<rparr>) s' = opened i s s'" and calm_ready: "calm (s\<lparr>dataReady := d\<rparr>) s' = calm s s'"
  by (simp_all add: opened_def calm_def)

lemma recv_header_cases:
  assumes "recv_header cf dies b s = Inr s'"
  shows "calm s s' \<or> (\<exists>i. map_of (streams s) i = None \<and> opened i s s')"
proof -
  let ?s = "s\<lparr>dataReady := 1\<rparr>"
  consider i where "s' = recv_SYN cf dies i ?s" | "s' = recv_invalid ?s" | i where "s' = recv_FIN i ?s" | p where "s' = ?s\<lparr>recv_at := p\<rparr>"
    using assms by (auto simp: recv_header_def res_bind_Inr_iff Let_def split: if_splits)
  then show ?thesis
  proof cases
    case (1 i)
    then show ?thesis using recv_SYN_cases [of ?s cf dies i] by (auto simp: opened_ready calm_ready)
  qed (use calm_recv(1,2) [of ?s] calm_phase [of ?s] in \<open>auto simp: calm_ready\<close>)
qed

lemma tryRead_lives: "tryRead cf n st = (r, st') \<Longrightarrow> st_id st' = st_id st \<and> st_die st' = st_die st"
  by (auto simp: tryRead_def tryReadv1_def tryReadv2_def take_some_def count_read_def Let_def split: if_splits prod.splits list.splits)

lemma writeTo_lives: "writeTo_section cf st = (g, u, st') \<Longrightarrow> st_id st' = st_id st \<and> st_die st' = st_die st"
  by (auto simp: writeTo_section_def take_buffer_out_def count_read_def Let_def split: if_splits prod.splits list.splits)

lemma recycle_lives: "recycleTokens st = Inr (e, freed, st') \<Longrightarrow> st_id st' = st_id st \<and> st_die st' = st_die st"
  by (auto simp: recycleTokens_def split: if_splits)

lemma calm_accept: "AcceptStream ev s = Some (r, s') \<Longrightarrow> calm s s'"
  by (auto simp: AcceptStream_def calm_def same_refl split: accept_event.splits list.splits recv_phase.splits if_splits)

lemma same_trans: "same_lives os os' \<Longrightarrow> same_lives os' os'' \<Longrightarrow> same_lives os os''"
  by (simp add: same_lives_def)

lemma calm_Close_streams: "calm s (Close_streams s)"
proof -
  have "same_lives os (fold (\<lambda>(i, h) os. os[h := sessionClose (os ! h)]) ps os)" for ps :: "(int \<times> nat) list" and os
  proof (induction ps arbitrary: os)
    case (Cons p ps)
    have "same_lives os (os[snd p := sessionClose (os ! snd p)])" by (rule same_upd) (simp_all add: sessionClose_def)
    then show ?case using same_trans [OF _ Cons.IH] by (simp add: split_beta)
  qed (simp add: same_refl)
  then show ?thesis by (simp add: calm_def Close_streams_def)
qed

lemma calm_timeout: "keepalive_timeout s = (b, s') \<Longrightarrow> calm s s'"
proof (erule timeout_cases)
  fix d
  show "s' = s\<lparr>dataReady := d\<rparr> \<Longrightarrow> calm s s'" by (simp add: calm_def same_refl)
  show "s' = Close_streams (s\<lparr>dataReady := d, ss_die := True\<rparr>) \<Longrightarrow> calm s s'"
    using calm_Close_streams [of "s\<lparr>dataReady := d, ss_die := True\<rparr>"] by (simp add: calm_def)
qed

section \<open>Every step keeps the ids in order\<close>

lemma keys_update: "fst ` set (AList.update i v tb) = insert i (fst ` set tb)"
  by (simp add: AList.dom_update)

lemma map_of_None_keys: "map_of (streams s) i = None \<longleftrightarrow> i \<notin> keys s"
  by (simp add: keys_def map_of_eq_None_iff)

lemma ids_calm: "ids_ok client y \<Longrightarrow> calm (sess y) s \<Longrightarrow> ids_ok client (y\<lparr>sess := s\<rparr>)"
  using live_same [of "objs (sess y)" "streams (sess y)" "finishing y" "objs s"] by (simp add: ids_ok_def calm_def keys_def)

lemma ids_held: "ids_ok client (y\<lparr>held := hs\<rparr>) = ids_ok client y" "ids_ok client (y\<lparr>closing := c\<rparr>) = ids_ok client y"
  by (simp_all add: ids_ok_def)

lemma ids_opened:
  assumes "ids_ok client y" "opened i (sess y) s" "i \<notin> keys (sess y)"
    and "own client i \<longrightarrow> i \<in> set (pending y)"
    and "ps = pending y \<and> \<not> own client i \<or> ps = remove1 i (pending y)"
  shows "ids_ok client (y\<lparr>sess := s, pending := ps\<rparr>)"
proof -
  have k: "keys s = insert i (keys (sess y))" using assms(2) by (simp add: opened_def keys_def keys_update)
  have n: "map_of (streams (sess y)) i = None" using assms(3) by (simp add: map_of_None_keys)
  have d: "distinct (pending y)" using assms(1) by (simp add: ids_ok_def)
  have ps: "set ps \<subseteq> set (pending y)" "i \<notin> set ps" "distinct ps"
    using assms(1,5) set_remove1_subset [of i "pending y"] d by (auto simp: ids_ok_def)
  have f: "fresh_ok client (nextStreamID (sess y)) (goAway (sess y)) (keys (sess y) \<union> set (pending y))"
    using assms(1) by (simp add: ids_ok_def)
  have "fresh_ok client (nextStreamID s) (goAway s) (keys s \<union> set ps)"
  proof (cases "own client i")
    case True
    then show ?thesis using assms(2,4) ps k by (auto simp: opened_def intro: fresh_mono [OF f])
  next
    case False
    then show ?thesis using assms(2) ps k fresh_mono [OF fresh_other [OF f False], of "keys s \<union> set ps"] by (auto simp: opened_def)
  qed
  moreover have "live_ok (objs s) (streams s) (finishing y)"
    using live_new [OF _ n, of "objs (sess y)" "finishing y"] assms(1,2) by (auto simp: ids_ok_def opened_def newStream_def)
  ultimately show ?thesis using assms(1) ps k by (auto simp: ids_ok_def)
qed

lemma ids_step:
  assumes "sess_step cf y y'" "ids_ok client y"
    and "\<forall>i \<in> keys (sess y') - keys (sess y). own client i \<longrightarrow> i \<in> set (pending y) - set (pending y')"
  shows "ids_ok client y'"
proof -
  note calm = ids_calm [OF assms(2)]
  have live: "live_ok (objs (sess y)) (streams (sess y)) (finishing y)" using assms(2) by (simp add: ids_ok_def)
  from assms(1) show ?thesis
  proof cases
    case (Open r s)
    have f: "fresh_ok client (nextStreamID (sess y)) (goAway (sess y)) (keys (sess y) \<union> set (pending y))"
      using assms(2) by (simp add: ids_ok_def)
    from OpenStream_begin_fresh [OF f Open(2)] have o: "s = (sess y)\<lparr>nextStreamID := nextStreamID s, goAway := goAway s\<rparr>"
      "case r of Inl e \<Rightarrow> fresh_ok client (nextStreamID s) (goAway s) (keys (sess y) \<union> set (pending y))
       | Inr i \<Rightarrow> i \<notin> keys (sess y) \<union> set (pending y) \<and> own client i \<and>
           fresh_ok client (nextStreamID s) (goAway s) (insert i (keys (sess y) \<union> set (pending y)))" by simp_all
    have e: "objs s = objs (sess y)" "streams s = streams (sess y)" "keys s = keys (sess y)"
      by (subst o(1), simp add: keys_def)+
    show ?thesis
    proof (cases r)
      case (Inl x)
      then show ?thesis using Open(1) o(2) e assms(2) by (simp add: ids_ok_def)
    next
      case (Inr i)
      then show ?thesis using Open(1) o(2) e assms(2) by (simp add: ids_ok_def Un_insert_right)
    qed
  next
    case (OpenFailed i)
    then show ?thesis using assms(2) set_remove1_subset [of i "pending y"] by (auto simp: ids_ok_def intro: fresh_mono)
  next
    case (OpenEnd i ev r s)
    show ?thesis
    proof (cases r)
      case (Inl x)
      then have "s = sess y" using OpenEnd(4) by (auto simp: OpenStream_end_def split: open_event.splits if_splits)
      then show ?thesis using assms(2) OpenEnd(1) set_remove1_subset [of i "pending y"] by (auto simp: ids_ok_def intro: fresh_mono)
    next
      case (Inr h)
      then have "opened i (sess y) s" using OpenEnd(4)
        by (auto simp: OpenStream_end_def opened_def new_stream_def split: open_event.splits if_splits)
      then show ?thesis using ids_opened [OF assms(2), of i s "remove1 i (pending y)"] OpenEnd(1,2) assms(2) by (auto simp: ids_ok_def)
    qed
  next
    case (Accept ev r s)
    then show ?thesis using calm [OF calm_accept] by simp
  next
    case (Read h n r st)
    then have "calm (sess y) (upd_obj h (\<lambda>_. st) (sess y))"
      using tryRead_lives [OF Read(3)] by (simp add: calm_def upd_obj_def same_lives_def nth_list_update)
    from calm [OF this] show ?thesis using Read(1) ids_held(1) [where client = client and y = "y\<lparr>sess := upd_obj h (\<lambda>_. st) (sess y)\<rparr>"] by simp
  next
    case (WriteTo h g u st)
    then have "calm (sess y) (upd_obj h (\<lambda>_. st) (sess y))"
      using writeTo_lives [OF WriteTo(3)] by (simp add: calm_def upd_obj_def same_lives_def nth_list_update)
    from calm [OF this] show ?thesis using WriteTo(1) ids_held(1) [where client = client and y = "y\<lparr>sess := upd_obj h (\<lambda>_. st) (sess y)\<rparr>"] by simp
  next
    case (Return n)
    then show ?thesis using calm [OF calm_tokens, of n] ids_held(1) [where client = client and y = "y\<lparr>sess := add_tokens n (sess y)\<rparr>"]
      by (simp add: returnTokens_def)
  next
    case (Write h k c)
    then show ?thesis using calm [OF calm_upd] by simp
  next
    case (ReadEventTaken h c)
    then show ?thesis using calm [OF calm_upd] by simp
  next
    case (StreamClose h s)
    from Stream_Close_begin_True [OF StreamClose(3)] have s: "s = upd_obj h (\<lambda>st. st\<lparr>st_die := True\<rparr>) (sess y)" "\<not> st_die (objs (sess y) ! h)" by simp_all
    have "live_ok ((objs (sess y))[h := (objs (sess y) ! h)\<lparr>st_die := True\<rparr>]) (streams (sess y)) (st_id (objs (sess y) ! h) # finishing y)"
      by (rule live_close [OF live StreamClose(2) s(2)]) simp_all
    then show ?thesis using assms(2) StreamClose(1) s(1) by (simp add: ids_ok_def upd_obj_def keys_def)
  next
    case (StreamClosed i s)
    from StreamClosed(4) show ?thesis
    proof (cases rule: streamClosed_cases)
      case (1 h e freed st)
      let ?u = "upd_obj h (\<lambda>_. st) (sess y)"
      from live_closed [OF live StreamClosed(2) 1(1), of st] recycle_lives [OF 1(2)]
      have l: "live_ok (objs ?u) (AList.delete i (streams (sess y))) (remove1 i (finishing y))" by (simp add: upd_obj_def)
      have s: "objs s = objs ?u" "streams s = AList.delete i (streams (sess y))" "nextStreamID s = nextStreamID (sess y)" "goAway s = goAway (sess y)"
        using calm_tokens [of ?u e] 1(3) by (auto simp: calm_def upd_obj_def)
      have k: "keys s \<subseteq> keys (sess y)" by (auto simp: keys_def s(2) AList.delete_eq)
      have "fresh_ok client (nextStreamID s) (goAway s) (keys s \<union> set (pending y))"
        using assms(2) s(3,4) k by (auto simp: ids_ok_def intro: fresh_mono)
      then show ?thesis using StreamClosed(1) assms(2) l s(1,2) k by (auto simp: ids_ok_def)
    qed
  next
    case (CloseBegin s)
    then have "calm (sess y) s" by (auto simp: Close_begin_def calm_def same_refl split: if_splits)
    from calm [OF this] show ?thesis using CloseBegin(1) ids_held(2) [where client = client and y = "y\<lparr>sess := s\<rparr>"] by simp
  next
    case CloseStreams
    then show ?thesis using calm [OF calm_Close_streams] ids_held(2) [where client = client and y = "y\<lparr>sess := Close_streams (sess y)\<rparr>"] by simp
  next
    case (RecvHeader b dies s)
    from recv_header_cases [OF RecvHeader(5)] show ?thesis
    proof
      assume "\<exists>i. map_of (streams (sess y)) i = None \<and> opened i (sess y) s"
      then obtain i where i: "i \<notin> keys (sess y)" "opened i (sess y) s" by (auto simp: map_of_None_keys)
      then have "i \<in> keys s" by (simp add: opened_def keys_def keys_update)
      then have "\<not> own client i" using assms(3) RecvHeader(1) i(1) by auto
      then have "ids_ok client (y\<lparr>sess := s, pending := pending y\<rparr>)" using ids_opened [OF assms(2) i(2,1), of "pending y"] by simp
      then show ?thesis using RecvHeader(1) by (cases y) simp
    qed (use RecvHeader(1) calm in simp)
  next
    case (RecvUpdate i c s)
    then show ?thesis using calm [OF calm_recv(5)] by simp
  next
    case (RecvWake s)
    then show ?thesis using calm [OF calm_recv(7)] by simp
  next
    case Tick
    then show ?thesis using calm [of "keepalive_tick (sess y)"] by (simp add: keepalive_tick_def notifyBucket_def calm_def same_refl)
  next
    case (Timeout b s)
    then show ?thesis using calm [OF calm_timeout] by simp
  qed (use calm [OF calm_recv(3)] calm [OF calm_recv(4)] calm [OF calm_recv(6)] calm [OF calm_errors(2)] in simp_all)
qed

lemma ids_reachable: "polite_reachable cf client y \<Longrightarrow> ids_ok client y"
  by (induction rule: polite_reachable.induct) (auto intro: ids_start ids_step)

section \<open>Closing a stream\<close>

lemma recycle_returns: "st_inv st \<Longrightarrow> \<exists>r. recycleTokens st = Inr r"
  by (simp add: recycleTokens_def st_inv_def)

text \<open>
  C13: closing finds its stream: with a peer that opens only ids of its own half, in every interleaving, the ids
  \<open>OpenStream\<close> is opening are all different and none is in the table; and a stream whose \<open>Close\<close> has begun is
  still the one under its id, so \<open>streamClosed\<close> never meets the nil stream and takes it out of the table.
\<close>

theorem close_finds_stream:
  assumes "session_cf cf" "polite_reachable cf client y"
  shows "distinct (pending y) \<and> set (pending y) \<inter> keys (sess y) = {} \<and>
    (\<forall>i \<in> set (finishing y). \<exists>s. streamClosed i (sess y) = Inr s \<and> keys s = keys (sess y) - {i})"
proof -
  have ids: "ids_ok client y" using ids_reachable [OF assms(2)] .
  have t: "table_ok (sess y)"
    using sess_inv_reachable [OF assms(1) polite_reachable_sess [OF assms(2)]] by (simp add: sess_inv_def)
  have "\<exists>s. streamClosed i (sess y) = Inr s \<and> keys s = keys (sess y) - {i}" if i: "i \<in> set (finishing y)" for i
  proof -
    obtain h where h: "map_of (streams (sess y)) i = Some h" using ids i by (auto simp: ids_ok_def live_ok_def)
    obtain e freed st where "recycleTokens (objs (sess y) ! h) = Inr (e, freed, st)"
      using recycle_returns [OF obj_ok [OF t table_ref [OF t h]]] by (metis prod.exhaust)
    then show ?thesis using h by (auto simp: streamClosed_def Let_def keys_def AList.delete_eq)
  qed
  then show ?thesis using ids by (simp add: ids_ok_def)
qed

text \<open>A client that opens a stream and starts closing it.\<close>

definition demo_closing :: session_sys where
  "demo_closing = (session_start demo_cf True)\<lparr>sess := (newSession demo_cf True)\<lparr>nextStreamID := 3,
     objs := [(newStream 3 32768)\<lparr>st_die := True\<rparr>], streams := [(3, 0)]\<rparr>, finishing := [3]\<rparr>"

lemma demo_closing_reachable: "polite_reachable demo_cf True demo_closing"
proof -
  let ?y0 = "session_start demo_cf True" and ?s0 = "newSession demo_cf True"
  let ?s1 = "?s0\<lparr>nextStreamID := 3\<rparr>"
  let ?y1 = "?y0\<lparr>sess := ?s1, pending := [3]\<rparr>"
  let ?s2 = "?s1\<lparr>objs := [newStream 3 32768], streams := [(3, 0)]\<rparr>"
  let ?y2 = "?y0\<lparr>sess := ?s2\<rparr>"
  have f: "sess ?y0 = ?s0" "pending ?y0 = []" "finishing ?y0 = []" "held ?y0 = []" by (simp_all add: session_start_def)
  have "OpenStream_begin ?s0 = (Inr 3, ?s1)" by code_simp
  then have "sess_step demo_cf ?y0 ?y1" using sess_step.Open [of ?y0 "Inr 3" ?s1 demo_cf] by (simp add: f)
  moreover have "keys ?s1 = {}" by (simp add: keys_def newSession_def)
  ultimately have p1: "polite_reachable demo_cf True ?y1" by (intro polite_reachable.step [OF polite_reachable.start]) simp_all
  have "OpenStream_end demo_cf OpenDefault 3 ?s1 = Some (Inr 0, ?s2)" "lock_free ?s1" by code_simp+
  then have "sess_step demo_cf ?y1 ?y2" using sess_step.OpenEnd [of 3 ?y1 demo_cf OpenDefault "Inr 0" ?s2] by (simp add: session_start_def)
  moreover have "keys ?s2 = {3}" by (simp add: keys_def)
  ultimately have p2: "polite_reachable demo_cf True ?y2" by (intro polite_reachable.step [OF p1]) (simp_all add: f)
  have "Stream_Close_begin 0 ?s2 = (True, sess demo_closing)" by code_simp
  then have "sess_step demo_cf ?y2 (?y2\<lparr>sess := sess demo_closing, finishing := [3]\<rparr>)"
    using sess_step.StreamClose [of 0 ?y2 "sess demo_closing" demo_cf] by (simp add: f newStream_def)
  moreover have "?y2\<lparr>sess := sess demo_closing, finishing := [3]\<rparr> = demo_closing"
    by (simp add: demo_closing_def session_start_def)
  ultimately have "sess_step demo_cf ?y2 demo_closing" by simp
  then show ?thesis by (rule polite_reachable.step [OF p2]) (simp add: demo_closing_def keys_def)
qed

theorem close_finds_stream_witness: "\<exists>s. streamClosed 3 (sess demo_closing) = Inr s \<and> keys s = {}"
proof -
  have "session_cf demo_cf" by code_simp
  moreover have "3 \<in> set (finishing demo_closing)" "keys (sess demo_closing) = {3}" by (simp_all add: demo_closing_def keys_def)
  ultimately show ?thesis using close_finds_stream [OF _ demo_closing_reachable] by fastforce
qed

text \<open>
  Two streams under one id: if the peer has opened a stream under an id that \<open>OpenStream\<close> then hands out, the
  new stream replaces it in the table; closing both ends in a nil pointer dereference, since the first
  \<open>Close\<close> removes the entry of the other one.
\<close>

theorem id_collision_panics:
  assumes "table_ok s" "map_of (streams s) i = Some h" "st_id (objs s ! h) = i" "\<not> st_die (objs s ! h)"
    and "OpenStream_begin s = (Inr i, s1)" "socketReadError s = None" "socketWriteError s = None"
  shows "\<exists>h' s2 s3. OpenStream_end cf OpenDefault i s1 = Some (Inr h', s2) \<and>
    Stream_Close None h s2 = Inr (None, s3) \<and> Stream_Close None h' s3 = Inl nil_pointer"
proof -
  have h: "h < length (objs s)" using table_ref [OF assms(1,2)] .
  have s1: "objs s1 = objs s" "streams s1 = streams s" "\<not> ss_die s1" "socketReadError s1 = None" "socketWriteError s1 = None"
    using assms(5-7) by (auto simp: OpenStream_begin_def IsClosed_def Let_def split: if_splits)
  let ?h = "length (objs s)" and ?st = "newStream i (MaxFrameSize cf)"
  let ?s2 = "new_stream cf i s1"
  have e: "OpenStream_end cf OpenDefault i s1 = Some (Inr ?h, ?s2)" using s1 by (simp add: OpenStream_end_def)
  have o2: "objs ?s2 = objs s @ [?st]" "map_of (streams ?s2) = (map_of (streams s))(i \<mapsto> ?h)"
    using s1 by (simp_all add: new_stream_def AList.update_conv')
  let ?u = "upd_obj h (\<lambda>st. st\<lparr>st_die := True\<rparr>) ?s2"
  have b: "Stream_Close_begin h ?s2 = (True, ?u)"
    using assms(4) h o2(1) by (simp add: Stream_Close_begin_def upd_obj_def nth_append)
  have u: "objs ?u ! ?h = ?st" "st_id (objs ?u ! h) = i" "streams ?u = streams ?s2"
    using h o2(1) assms(3) by (simp_all add: upd_obj_def nth_append nth_list_update)
  have r: "recycleTokens ?st = Inr (0, [], ?st)" by (simp add: recycleTokens_def newStream_def)
  define s3 where "s3 = ?u\<lparr>streams := AList.delete i (streams ?s2)\<rparr>"
  have "?u\<lparr>objs := (objs ?u)[?h := ?st]\<rparr> = ?u" using u(1) by (metis list_update_id session.surjective session.update_convs(3))
  then have "streamClosed i ?u = Inr s3" using o2(2) u(1,3) r by (simp add: streamClosed_def s3_def Let_def)
  then have c1: "Stream_Close None h ?s2 = Inr (None, s3)" using b u(2) by (simp add: Stream_Close_def)
  have o3: "objs s3 ! ?h = ?st" "streams s3 = AList.delete i (streams ?s2)" using u(1) by (simp_all add: s3_def)
  have b3: "Stream_Close_begin ?h s3 = (True, upd_obj ?h (\<lambda>st. st\<lparr>st_die := True\<rparr>) s3)"
    using o3(1) by (simp add: Stream_Close_begin_def upd_obj_def newStream_def)
  have l3: "?h < length (objs s3)" using o2(1) by (simp add: s3_def)
  have "st_id (objs (upd_obj ?h (\<lambda>st. st\<lparr>st_die := True\<rparr>) s3) ! ?h) = i" using l3 o3(1) by (simp add: upd_obj_def newStream_def)
  moreover have "streamClosed i (upd_obj ?h (\<lambda>st. st\<lparr>st_die := True\<rparr>) s3) = Inl nil_pointer"
    by (simp add: streamClosed_def o3(2) AList.delete_conv')
  ultimately have "Stream_Close None ?h s3 = Inl nil_pointer" using b3 by (simp add: Stream_Close_def)
  then show ?thesis using e c1 by blast
qed

theorem id_collision_panics_witness:
  "\<exists>h' s2 s3. OpenStream_end demo_cf OpenDefault 3 ((recv_SYN demo_cf False 3 (newSession demo_cf True))\<lparr>nextStreamID := 3\<rparr>) = Some (Inr h', s2) \<and>
    Stream_Close None 0 s2 = Inr (None, s3) \<and> Stream_Close None h' s3 = Inl nil_pointer"
proof -
  let ?s = "recv_SYN demo_cf False 3 (newSession demo_cf True)"
  have "table_ok ?s" using quiet_table [OF quiet_SYN, of "newSession demo_cf True" demo_cf False 3]
    by (simp add: newSession_def table_ok_def)
  moreover have "map_of (streams ?s) 3 = Some 0" "st_id (objs ?s ! 0) = 3" "\<not> st_die (objs ?s ! 0)"
    "OpenStream_begin ?s = (Inr 3, ?s\<lparr>nextStreamID := 3\<rparr>)" "socketReadError ?s = None" "socketWriteError ?s = None" by code_simp+
  ultimately show ?thesis by (rule id_collision_panics)
qed

end
