(* ===== verification/Spec2Isabelle.thy ===== *)
theory Spec2Isabelle
  imports Strings_Funcs Strconv_Parse Bridge_Loop Smux_Window Bridge Smux_Alloc Runtime_Chan Runtime_Slice Math_Bits Utf8 Bytes_Index Net_Url Sync_Once Unicode Bundle_Init Sort_Quick Math_Rand Smux_Demux Smux_Ids
begin

text \<open>
  Model and proofs for the browser forwarder bundle, \<open>src/release/extra/browserforwarder/index.js\<close>.

  The program.  The bundle is what a browser page runs for V2Ray's browser forwarder.  It is Go compiled to JavaScript: the
  runtime (64-bit integers, slices, strings, goroutines, channels), the packages of Go's standard library it needs, and the
  program itself.  Every line of the file from 6 to 52 is one package; line 4 is the runtime, lines 53 to 57 start the program.
  The bridge connects to the V2Ray process over a WebSocket (\<open>gopherjs/websocket\<close> over \<open>websocketjs\<close>), runs an smux session as
  a client on it, and accepts the streams the other side opens.  For each stream it reads a request (\<open>proto.ReadRequest\<close> over
  \<open>lunixbochs/struc\<close>), dials the destination the request names with a second WebSocket, and copies in both directions with
  \<open>io.Copy\<close>.  When the session ends it waits for a one-second timer and dials again, for ever.

  The conventions (theory Prelude).  A JavaScript number that holds an integer is an \<open>int\<close>; the operators \<open>|\<close>, \<open>&\<close>, \<open><<\<close>,
  \<open>>>\<close>, \<open>>>>\<close> and \<open>$imul\<close> are \<open>js_or\<close>, \<open>js_and\<close>, \<open>js_shl\<close>, \<open>js_sar\<close>, \<open>js_shr\<close> and \<open>js_imul\<close>, which wrap to 32 bits
  as the language defines; \<open>js_sar x 0\<close> is the bundle's \<open>x>>0\<close> and \<open>js_shr x 0\<close> its \<open>x>>>0\<close>.  A 64-bit integer is a pair of
  words (Runtime_Int64).  A panic is a value: a result is \<open>Inl\<close> of the panic or \<open>Inr\<close> of what the code returns.  A loop whose end
  is not syntactic is a \<open>partial_function (option)\<close>, so that not returning is \<open>None\<close> and every theorem about it proves that it
  returns; \<open>res option\<close> is the type of code that may do either.  A string, and the contents of a slice where only its contents
  matter, is the list of its bytes; where the aliasing of slices matters (Runtime_Slice, Smux_Alloc, Strings_Builder) there is an
  explicit store of arrays.  Two definitions have a bound as an argument, and both bounds are proved to be
  enough: the doubling loop of \<open>$div64\<close> (64 steps, as many as a dividend has bits) and the nesting of \<open>$init\<close> calls (47, one for
  every package).

  The runtime (line 4).
   - Runtime_Int64: \<open>$Int64\<close>, \<open>$Uint64\<close>, \<open>$shiftLeft64\<close>, \<open>$mul64\<close>, \<open>$div64\<close>; \<open>val64\<close> is the integer a pair stands for, and the
     lemmas show that every operation computes on it modulo \<open>2 ^ 64\<close>, signed division and remainder included.
   - Runtime_Slice: \<open>$makeSlice\<close>, \<open>$subslice\<close>, \<open>$copySlice\<close>, \<open>$appendSlice\<close> over the store, against the contents of the slices.
   - Runtime_Sched: \<open>$go\<close>, \<open>$schedule\<close>, \<open>$block\<close>, \<open>$runScheduled\<close>, \<open>$setTimeout\<close>, and the other code that changes the same
     variables: \<open>clearTimeout\<close> in \<open>time.stopTimer\<close>, the check that \<open>$externalizeFunction\<close> turns off, the \<open>$mainFinished\<close> of the main
     package.  What a goroutine does with its slice of time is a parameter; it returns, blocks or throws.  Two fields are not the
     code's: \<open>stopped\<close> and \<open>crashed\<close> record the timers cleared while pending and the goroutines that threw awake, whose counts the
     code never takes back.  Shown: what the two counters of the runtime are in every reachable state, exactly when a deadlock is
     reported, nobody starves.
   - Runtime_Chan: \<open>$Chan\<close>, \<open>$send\<close>, \<open>$recv\<close>, \<open>$close\<close>, \<open>$select\<close>.  A channel refines the queue contract of theory Fifo (a locale);
     waiters never miss each other; what a waiting receiver, select or sender finds when it is woken, in particular by a close,
     and the panics of a close.
   - Utf8: \<open>$decodeRune\<close>, \<open>$encodeRune\<close>, \<open>$stringToRunes\<close>, \<open>$runesToString\<close>.  Bundle_Init: the
     order in which the packages start, from the calls of their \<open>$init\<close> functions, against the packages they declare.

  The standard library.
   - Errors, Io, Bytes_Reader, Strings_Builder: error values, \<open>io.ReadFull\<close>, \<open>io.Copy\<close>, \<open>LimitedReader\<close>, \<open>bytes.Reader\<close>,
     \<open>strings.Builder\<close>.  The reader and the writer contracts are locales of theory Io, interpreted on these types.
   - Encoding_Binary (byte orders), Math_Bits (bit counting by tables), Strconv and Strconv_Parse (integers to text and back,
     against a reader on unbounded integers), Utf8 and Utf8_Count (\<open>unicode/utf8\<close>, against the mathematical encoding \<open>enc\<close>), Unicode
     (classes and case of code points, against membership in the tables), Bytealg,
     Bytes_Index (the search of \<open>bytes.Index\<close> with its Rabin-Karp fallback), Strings_Funcs (\<open>Index\<close>, \<open>Count\<close>, \<open>Split\<close>, \<open>Join\<close>),
     Net_Url (percent-encoding), Sort and Sort_Quick (binary search, insertion sort, \<open>sort.Sort\<close>), Container_Heap (a locale on the interface \<open>heap.Interface\<close>), Math_Rand.
   - Sync_Atomic (with \<open>nosync\<close>), Sync_Pool, Sync_Mutex (the word of \<open>sync.Mutex\<close> and its semaphore as a transition system:
     mutual exclusion, no lost wake-up, hand-over to a starving waiter), Sync_RWMutex (writers exclude readers, and the writer or
     the readers that wait are woken) and Sync_Once (the function runs at most once), both over the mutex's lemmas, Time_Timer
     (timers over the browser's \<open>setTimeout\<close>).

  The program.
   - Websocket, Websocket_Dial: the receive side of a connection (messages in, a byte stream out), writing, the events of the
     browser object while \<open>Dial\<close> waits, deadlines.
   - Smux_Alloc (buffer pools), Smux_Frame (frames, their header, the configuration, the shaper's priority queue), Smux_Stream (the
     receive side of a stream), Smux_Write (\<open>sendLoop\<close> and both write paths), Smux_Window (flow control of version 2, both ends as a
     transition system whose steps are the code between two blocking points: one frame given or answered, one sleep, one read),
     Smux_Copy (blocking \<open>Read\<close>, and \<open>WriteTo\<close> of version 1), Smux_Session (the table of streams, \<open>recvLoop\<close>, open, accept, close, keep-alive),
     Smux_Demux (the receive loop as a demultiplexer), Smux_Tokens (the goroutines of a session as steps on its state: the bucket
     that bounds unread data, the wake-ups), Smux_Ids (stream ids).
   - Struc (\<open>struc.Unpack\<close> and the request), Bridge (what the goroutine of a stream does), Bridge_Loop (the outer loop).
   - The composition of the parts is at the end of Smux_Demux, from a write on one side through frames, websocket messages and the
     receive loop to the unread data of a stream on the other, and in Bridge, from a stream's bytes to the request, the dial and the copies.

  Bounds.  Lengths are below \<open>2 ^ 31\<close>, as the code's \<open>>>0\<close> assumes; a theorem says so where it needs it, a few bytes tighter where
  the code adds to an index before it compares, below \<open>2 ^ 30\<close> elements for sorting (the heap doubles an index) and a third of
  \<open>2 ^ 31\<close> for percent-encoding (the result may be three times as long).  Where the code can pass these bounds it is modelled
  with its wraps and its range panics.  Numbers that come from outside (frame lengths, ids, window updates) keep their
  width, and what happens when a counter wraps is stated (the flow-control window, the keep-alive of ids).

  Environment.  The browser's WebSocket object, its clock and its timers, the order in which the scheduler picks events, and the
  underlying connection of a session are arguments of the definitions or choices of a step relation; hypotheses on them state
  the documented behaviour (a reader delivers its bytes in order, a timer's callback runs no earlier than asked).
  Goroutines switch only at channel operations, so code between two of them is one step.

  Simplifications.  A write of a frame is one call from its request to its answer; frames that the session sends after a write has
  given up are not followed.  The bridge's streams are those of \<open>DefaultConfig\<close>, version 1, since it passes no configuration; the
  window of version 2 is treated with one goroutine that writes and one that reads with \<open>Read\<close>.

  Not modelled.  Package \<open>reflect\<close> and what is built on it (\<open>fmt\<close>, \<open>internal/fmtsort\<close>, the reflective part of \<open>struc\<close>: tag parsing
  and packing) work on the type descriptors the compiler generates, and the program uses them to print log messages and to reach
  the fields of one struct; that struct's fields are modelled directly.  Of \<open>unicode\<close>'s
  tables, those of the categories and scripts other than digits and letters are left out.  \<open>syscall\<close>,
  \<open>internal/poll\<close>, \<open>internal/syscall/unix\<close>, \<open>os\<close> and \<open>net\<close> are calls to an operating system that a browser does not have: no path of the program
  reaches them except to build an error.  \<open>regexp\<close> and \<open>regexp/syntax\<close> are used by \<open>struc\<close> to split its tags when the program starts.
  Floating point (\<open>math\<close>, the float conversions of \<open>strconv\<close>, the distributions of \<open>math/rand\<close>) has no use in the program's own
  code.  Dates and time zones of \<open>time\<close> serve the log's prefix.  The rest of the repository is Go, not JavaScript.
\<close>

end
